(* ===== verification/Prelude.thy ===== *)
theory Prelude
  imports Main "HOL-Library.AList" "HOL-Library.Code_Target_Numeral"
begin

text \<open>
  Vocabulary shared by the components: Rust's fixed-width unsigned arithmetic on \<^typ>\<open>nat\<close>
  (values of type \<open>u64\<close>, \<open>u32\<close> and \<open>usize\<close> are natural numbers; every operation that can
  leave the width says what it does there), \<open>Result\<close> as a sum type with \<^const>\<open>Inl\<close> for \<open>Err\<close>,
  hash maps as association lists (a list stands for one iteration order of the map; the
  lemmas hold for every order), and the few list and arithmetic lemmas more than one
  component needs.
\<close>

named_theorems ledger_simps \<open>unfolding rules of the byte ledger\<close>
named_theorems page_simps \<open>field rules of pages and page tables\<close>
named_theorems kv_inv \<open>preservation of the page-table invariant\<close>

section \<open>Fixed-width unsigned arithmetic\<close>

definition u64_max :: nat where
  "u64_max = 2 ^ 64 - 1"

definition u32_max :: nat where
  "u32_max = 2 ^ 32 - 1"

definition checked_add_u64 :: "nat \<Rightarrow> nat \<Rightarrow> nat option" where
  "checked_add_u64 a b = (if a + b \<le> u64_max then Some (a + b) else None)"

definition sat_add_u64 :: "nat \<Rightarrow> nat \<Rightarrow> nat" where
  "sat_add_u64 a b = min (a + b) u64_max"

definition sat_mul_u64 :: "nat \<Rightarrow> nat \<Rightarrow> nat" where
  "sat_mul_u64 a b = min (a * b) u64_max"

definition sat_add_u32 :: "nat \<Rightarrow> nat \<Rightarrow> nat" where
  "sat_add_u32 a b = min (a + b) u32_max"

definition wrap_u64 :: "nat \<Rightarrow> nat" where
  "wrap_u64 a = a mod 2 ^ 64"

definition wrap_u32 :: "nat \<Rightarrow> nat" where
  "wrap_u32 a = a mod 2 ^ 32"

definition div_ceil :: "nat \<Rightarrow> nat \<Rightarrow> nat" where
  "div_ceil a b = (if a mod b = 0 then a div b else a div b + 1)"

lemma u64_max_pos [simp]: "0 < u64_max"
  by (simp add: u64_max_def)

lemma checked_add_u64_Some [simp]:
  "checked_add_u64 a b = Some c \<longleftrightarrow> c = a + b \<and> a + b \<le> u64_max"
  by (auto simp: checked_add_u64_def)

lemma checked_add_u64_None [simp]:
  "checked_add_u64 a b = None \<longleftrightarrow> u64_max < a + b"
  by (auto simp: checked_add_u64_def)

lemma sat_add_u64_exact: "a + b \<le> u64_max \<Longrightarrow> sat_add_u64 a b = a + b"
  by (simp add: sat_add_u64_def)

lemma sat_add_u64_le [simp]: "sat_add_u64 a b \<le> u64_max"
  by (simp add: sat_add_u64_def)

lemma sat_add_u64_le_iff: "l \<le> u64_max \<Longrightarrow> sat_add_u64 a b \<le> l \<Longrightarrow> a \<le> u64_max \<Longrightarrow> a \<le> l"
  by (auto simp: sat_add_u64_def min_def split: if_splits)

text \<open>A saturated sum that stays below a limit below the width is the exact sum.\<close>

lemma sat_add_u64_fits: "sat_add_u64 a b \<le> l \<Longrightarrow> l < u64_max \<Longrightarrow> a + b \<le> l"
  by (auto simp: sat_add_u64_def min_def split: if_splits)

lemma sat_add_u32_less: "a + b \<le> u32_max \<Longrightarrow> sat_add_u32 a b = a + b"
  by (simp add: sat_add_u32_def)

lemma div_ceil_mult: "div_ceil a b * b + a mod b = (if a mod b = 0 then a else a + b)"
  using div_mult_mod_eq [of a b] by (simp only: div_ceil_def split: if_split) (simp add: algebra_simps)

lemma div_ceil_mult_ge: "0 < b \<Longrightarrow> a \<le> div_ceil a b * b"
proof (cases "a mod b = 0")
  case True
  with div_ceil_mult [of a b] show ?thesis by simp
next
  case False
  assume "0 < b"
  then have "a mod b < b" by simp
  moreover have "div_ceil a b * b + a mod b = a + b"
    using False div_ceil_mult [of a b] by simp
  ultimately show ?thesis by linarith
qed

lemma div_ceil_mult_less: "0 < b \<Longrightarrow> 0 < a \<Longrightarrow> div_ceil a b * b < a + b"
  using div_ceil_mult [of a b] by (simp split: if_splits)

lemma div_ceil_le_iff: "0 < b \<Longrightarrow> div_ceil a b \<le> n \<longleftrightarrow> a \<le> n * b"
proof
  assume b: "0 < b" and n: "div_ceil a b \<le> n"
  have "a \<le> div_ceil a b * b" using b by (rule div_ceil_mult_ge)
  also have "\<dots> \<le> n * b" using n by simp
  finally show "a \<le> n * b" .
next
  assume b: "0 < b" and an: "a \<le> n * b"
  show "div_ceil a b \<le> n"
  proof (cases "a = 0")
    case True
    then show ?thesis by (simp add: div_ceil_def)
  next
    case False
    with b have "div_ceil a b * b < a + b" by (simp add: div_ceil_mult_less)
    also have "\<dots> \<le> Suc n * b" using an by simp
    finally show ?thesis using b by (metis less_Suc_eq_le mult_less_cancel2)
  qed
qed

lemma div_ceil_0 [simp]: "div_ceil 0 b = 0"
  by (simp add: div_ceil_def)

section \<open>Results\<close>

text \<open>Rust's \<open>?\<close> on a pure computation.\<close>

fun res_bind :: "'e + 'a \<Rightarrow> ('a \<Rightarrow> 'e + 'b) \<Rightarrow> 'e + 'b" where
  "res_bind (Inl e) f = Inl e"
| "res_bind (Inr x) f = f x"

fun is_ok :: "'e + 'a \<Rightarrow> bool" where
  "is_ok (Inl e) = False"
| "is_ok (Inr x) = True"

definition ok_or :: "'a option \<Rightarrow> 'e \<Rightarrow> 'e + 'a" where
  "ok_or o' e = (case o' of None \<Rightarrow> Inl e | Some x \<Rightarrow> Inr x)"

text \<open>\<open>?\<close> on a computation that also changes the state: the state survives the error.\<close>

definition st_bind :: "'s \<times> ('e + 'a) \<Rightarrow> ('s \<Rightarrow> 'a \<Rightarrow> 's \<times> ('e + 'b)) \<Rightarrow> 's \<times> ('e + 'b)" where
  "st_bind m f = (case snd m of Inl e \<Rightarrow> (fst m, Inl e) | Inr a \<Rightarrow> f (fst m) a)"

text \<open>A pure check inside a stateful computation.\<close>

definition st_lift :: "'s \<Rightarrow> 'e + 'a \<Rightarrow> ('a \<Rightarrow> 's \<times> ('e + 'b)) \<Rightarrow> 's \<times> ('e + 'b)" where
  "st_lift s r f = (case r of Inl e \<Rightarrow> (s, Inl e) | Inr a \<Rightarrow> f a)"

lemma st_bind_simps [simp]:
  "st_bind (s, Inl e) f = (s, Inl e)" "st_bind (s, Inr a) f = f s a"
  by (simp_all add: st_bind_def)

lemma st_lift_simps [simp]:
  "st_lift s (Inl e) f = (s, Inl e)" "st_lift s (Inr a) f = f a"
  by (simp_all add: st_lift_def)

lemma st_bind_cases:
  assumes "st_bind m f = (u, r)"
  obtains (failed) e where "m = (u, Inl e)" "r = Inl e" | (ok) s a where "m = (s, Inr a)" "f s a = (u, r)"
  using assms by (cases m; cases "snd m") auto

lemma st_lift_cases:
  assumes "st_lift s m f = (u, r)"
  obtains (failed) e where "m = Inl e" "u = s" "r = Inl e" | (ok) a where "m = Inr a" "f a = (u, r)"
  using assms by (cases m) auto

lemma st_bind_ok [simp]: "st_bind m f = (u, Inr b) \<longleftrightarrow> (\<exists>s a. m = (s, Inr a) \<and> f s a = (u, Inr b))"
  by (cases m; cases "snd m") auto

lemma st_lift_ok [simp]: "st_lift s m f = (u, Inr b) \<longleftrightarrow> (\<exists>a. m = Inr a \<and> f a = (u, Inr b))"
  by (cases m) auto

lemma ok_or_simps [simp]:
  "ok_or None e = Inl e" "ok_or (Some x) e = Inr x"
  by (simp_all add: ok_or_def)

lemma res_bind_Inr [simp]: "res_bind r f = Inr y \<longleftrightarrow> (\<exists>x. r = Inr x \<and> f x = Inr y)"
  by (cases r) auto

lemma ok_or_Inr [simp]: "ok_or o' e = Inr x \<longleftrightarrow> o' = Some x"
  by (cases o') auto

lemma ok_or_Inl [simp]: "ok_or o' e = Inl e' \<longleftrightarrow> o' = None \<and> e' = e"
  by (cases o') auto

section \<open>Weighted sums over lists updated by index\<close>

definition weight :: "('a \<Rightarrow> nat) \<Rightarrow> 'a list \<Rightarrow> nat" where
  "weight f xs = sum_list (map f xs)"

definition remove_nth :: "nat \<Rightarrow> 'a list \<Rightarrow> 'a list" where
  "remove_nth i xs = take i xs @ drop (Suc i) xs"

lemma weight_simps [simp]:
  "weight f [] = 0" "weight f (x # xs) = f x + weight f xs"
  "weight f (xs @ ys) = weight f xs + weight f ys"
  by (simp_all add: weight_def)

lemma weight_split: "i < length xs \<Longrightarrow> weight f xs = f (xs ! i) + weight f (remove_nth i xs)"
proof -
  assume "i < length xs"
  then have "weight f xs = weight f (take i xs @ xs ! i # drop (Suc i) xs)"
    by (intro arg_cong [of _ _ "weight f"] id_take_nth_drop)
  then show ?thesis by (simp add: remove_nth_def)
qed

lemma weight_update:
  "i < length xs \<Longrightarrow> weight f (xs[i := x]) = f x + weight f (remove_nth i xs)"
  by (simp add: upd_conv_take_nth_drop remove_nth_def)

lemma weight_nth_le: "i < length xs \<Longrightarrow> f (xs ! i) \<le> weight f xs"
  by (simp add: weight_split)

lemma set_remove_nth: "set (remove_nth i xs) \<subseteq> set xs"
  using set_take_subset [of i xs] set_drop_subset [of "Suc i" xs] by (auto simp: remove_nth_def)

lemma length_remove_nth [simp]: "i < length xs \<Longrightarrow> length (remove_nth i xs) = length xs - 1"
  by (simp add: remove_nth_def)

section \<open>Association lists as hash maps\<close>

lemma map_of_update [simp]: "map_of (AList.update k v al) = (map_of al)(k \<mapsto> v)"
  by (simp add: update_conv')

lemma distinct_keys_update [simp]: "distinct (map fst al) \<Longrightarrow> distinct (map fst (AList.update k v al))"
  by (rule distinct_update)

lemma weight_alist_update:
  "distinct (map fst al) \<Longrightarrow> map_of al k = Some v \<Longrightarrow>
     weight f (AList.update k v' al) + f (k, v) = weight f al + f (k, v')"
proof (induction al)
  case (Cons a al)
  show ?case
  proof (cases "fst a = k")
    case True
    with Cons.prems show ?thesis by (cases a) auto
  next
    case False
    with Cons show ?thesis by (cases a) auto
  qed
qed simp

lemma weight_alist_insert:
  "map_of al k = None \<Longrightarrow> weight f (AList.update k v al) = weight f al + f (k, v)"
  by (induction al) (auto split: if_splits)

lemma weight_alist_delete:
  "distinct (map fst al) \<Longrightarrow> map_of al k = Some v \<Longrightarrow>
     weight f (AList.delete k al) + f (k, v) = weight f al"
proof (induction al)
  case (Cons a al)
  show ?case
  proof (cases "fst a = k")
    case True
    with Cons.prems have "AList.delete k al = al"
      by (auto simp: AList.delete_eq image_iff intro!: filter_True)
    with True Cons.prems show ?thesis by (cases a) auto
  next
    case False
    with Cons show ?thesis by (cases a) auto
  qed
qed simp

lemma weight_alist_member:
  "map_of al k = Some v \<Longrightarrow> f (k, v) \<le> weight f al"
  by (induction al) (auto split: if_splits intro: le_trans)

lemma fold_update_fresh:
  "distinct ks \<Longrightarrow> set ks \<inter> fst ` set al = {} \<Longrightarrow>
     fold (\<lambda>i m. AList.update i (h i) m) ks al = al @ map (\<lambda>i. (i, h i)) ks"
proof (induction ks arbitrary: al)
  case (Cons k ks)
  have "AList.update k v al = al @ [(k, v)]" for v
    using Cons.prems by (induction al) auto
  with Cons show ?case by auto
qed simp

section \<open>Saturating sums\<close>

lemma sat_fold:
  "foldl (\<lambda>acc x. sat_add_u64 acc (f x)) a xs = min u64_max (a + weight f xs)"
  if "a \<le> u64_max"
  using that by (induction xs arbitrary: a) (simp_all add: sat_add_u64_def)

lemma sat_fold_pairs:
  "foldl (\<lambda>acc (k, x). sat_add_u64 acc (f x)) 0 xs = min u64_max (weight (f \<circ> snd) xs)"
  using sat_fold [of 0 "f \<circ> snd" xs] by (simp add: split_beta' comp_def)

lemma weight_sat:
  "min u64_max (weight (\<lambda>x. min u64_max (g x)) xs) = min u64_max (weight g xs)"
proof (induction xs)
  case (Cons x xs)
  then show ?case by (simp add: min_def split: if_splits)
qed simp

lemma weight_cong: "(\<And>x. x \<in> set xs \<Longrightarrow> f x = g x) \<Longrightarrow> weight f xs = weight g xs"
  by (induction xs) simp_all

lemma weight_fun_cong [fundef_cong]:
  "xs = ys \<Longrightarrow> (\<And>x. x \<in> set ys \<Longrightarrow> f x = g x) \<Longrightarrow> weight f xs = weight g ys"
  using weight_cong by metis

lemma weight_const: "(\<And>x. x \<in> set xs \<Longrightarrow> f x = c) \<Longrightarrow> weight f xs = length xs * c"
  by (induction xs) simp_all

lemma sat_mul_min: "sat_mul_u64 (min u64_max a) n = min u64_max (a * n)"
proof (cases "a \<le> u64_max \<or> n = 0")
  case False
  then have "u64_max \<le> u64_max * n" "u64_max * n \<le> a * n" by simp_all
  then have "u64_max \<le> a * n" by (rule le_trans)
  with False show ?thesis by (simp add: sat_mul_u64_def min_def)
qed (auto simp: sat_mul_u64_def)

lemma wrap_u32_id: "i < 2 ^ 32 \<Longrightarrow> wrap_u32 i = i"
  by (simp add: wrap_u32_def)

end
