(* ===== verification/ByteAccount.thy ===== *)
theory ByteAccount
  imports Prelude
begin

text \<open>
  The contract of a bounded byte counter: bytes are taken if they fit and given back later.
  The lease ledger provides it for each tier, the admission budget for the bytes of a
  device; the lemmas on many holders and on long runs are proved once, here.
\<close>

locale byte_account =
  fixes used :: "'b \<Rightarrow> nat" and limit :: "'b \<Rightarrow> nat"
    and take_bytes :: "'b \<Rightarrow> nat \<Rightarrow> 'b \<times> ('e + unit)" and give_back :: "'b \<Rightarrow> nat \<Rightarrow> 'b"
  assumes taken: "take_bytes b n = (b', Inr u) \<Longrightarrow> used b' = used b + n \<and> limit b' = limit b \<and> (n = 0 \<or> used b + n \<le> limit b)"
    and refused: "take_bytes b n = (b', Inl e) \<Longrightarrow> used b' = used b \<and> limit b' = limit b"
    and given: "used (give_back b n) = used b - n \<and> limit (give_back b n) = limit b"
begin

lemma settle:
  assumes "sum_list ns \<le> used b"
  shows "used (foldl give_back b ns) = used b - sum_list ns" "limit (foldl give_back b ns) = limit b"
proof -
  have "used (foldl give_back b ns) = used b - sum_list ns \<and> limit (foldl give_back b ns) = limit b"
    using assms
  proof (induction ns arbitrary: b)
    case (Cons n ns)
    from given [of b n] Cons.IH [of "give_back b n"] Cons.prems show ?case by simp
  qed simp
  then show "used (foldl give_back b ns) = used b - sum_list ns" "limit (foldl give_back b ns) = limit b" by simp_all
qed

lemma take_then_give_back:
  assumes "take_bytes b n = (b', Inr u)"
  shows "used (give_back b' n) = used b" "limit (give_back b' n) = limit b"
  using taken [OF assms] given [of b' n] by simp_all

text \<open>Any run of takes and returns: the counter only ever exceeds the limit if it already did.\<close>

lemma run_bounded:
  assumes "\<And>b f. f \<in> set fs \<Longrightarrow> (\<exists>n. f b = fst (take_bytes b n)) \<or> (\<exists>n. f b = give_back b n)"
  shows "used (foldl (\<lambda>b f. f b) b fs) \<le> max (used b) (limit b) \<and> limit (foldl (\<lambda>b f. f b) b fs) = limit b"
  using assms
proof (induction fs arbitrary: b)
  case (Cons f fs)
  have "used (f b) \<le> max (used b) (limit b) \<and> limit (f b) = limit b"
  proof -
    from Cons.prems [of f b] consider n where "f b = fst (take_bytes b n)" | n where "f b = give_back b n" by auto
    then show ?thesis
    proof cases
      case (1 n)
      obtain b' r where t: "take_bytes b n = (b', r)" by (cases "take_bytes b n")
      with 1 taken [of b n b'] refused [of b n b'] show ?thesis by (cases r) auto
    next
      case (2 n)
      with given [of b n] show ?thesis by simp
    qed
  qed
  with Cons.IH [of "f b"] Cons.prems show ?case by (auto simp: max_def split: if_splits)
qed simp

end

end
