(* ===== verification/MemoryLedger.thy ===== *)
theory MemoryLedger
  imports ByteAccount "HOL-Library.Multiset"
begin

text \<open>
  The byte ledger of the memory governor (crate \<open>onnx-runtime-memory-governor\<close>, with the shared
  vocabulary of \<open>onnx-runtime-memory-api\<close>): per-tier limits and usage, leases that charge
  the ledger and give their bytes back when dropped, mapped-growth reservations and the
  capacity token that converts a reservation into usage. Each operation is the
  effect of its Rust counterpart at the point where its compare-and-swap succeeds: the
  retry loops around them re-read the counters and decide again.
\<close>

section \<open>Vocabulary\<close>

datatype Tier = Device | Host | Disk

datatype MemoryRole = KvCache | Workspace bool | Weights | Activation

definition tier_name :: "Tier \<Rightarrow> string" where
  "tier_name t = (case t of Device \<Rightarrow> ''device'' | Host \<Rightarrow> ''host'' | Disk \<Rightarrow> ''disk'')"

text \<open>\<open>TierExhausted tier requested used limit available role\<close> and
  \<open>InvalidRequest tier requested reason\<close>; the other two variants of the Rust enum are
  raised by allocators and by the growth authority only.\<close>

datatype MemoryError =
    TierExhausted string nat nat nat nat MemoryRole
  | InvalidRequest string nat string

section \<open>The ledger\<close>

text \<open>The arrays indexed by \<open>tier.index()\<close> are functions of the tier.\<close>

record LeaseLedger =
  authority_serial :: nat
  limits :: "Tier \<Rightarrow> nat"
  used_bytes :: "Tier \<Rightarrow> nat"
  mapped_allowance_reserved :: "Tier \<Rightarrow> nat"
  mapped_growth_reserved :: "Tier \<Rightarrow> nat"

definition ledger_new :: "nat \<Rightarrow> nat \<Rightarrow> nat \<Rightarrow> nat \<Rightarrow> LeaseLedger" where
  "ledger_new serial device_bytes host_bytes disk_bytes =
     \<lparr> authority_serial = serial,
       limits = (\<lambda>t. case t of Device \<Rightarrow> device_bytes | Host \<Rightarrow> host_bytes | Disk \<Rightarrow> disk_bytes),
       used_bytes = (\<lambda>_. 0),
       mapped_allowance_reserved = (\<lambda>_. 0),
       mapped_growth_reserved = (\<lambda>_. 0) \<rparr>"

definition ledger_available :: "LeaseLedger \<Rightarrow> Tier \<Rightarrow> nat" where
  "ledger_available l t =
     limits l t - sat_add_u64 (used_bytes l t) (mapped_growth_reserved l t)"

definition oversubscribed_bytes :: "LeaseLedger \<Rightarrow> Tier \<Rightarrow> nat" where
  "oversubscribed_bytes l t = used_bytes l t - limits l t"

definition set_limit :: "LeaseLedger \<Rightarrow> Tier \<Rightarrow> nat \<Rightarrow> LeaseLedger" where
  "set_limit l t bytes = l\<lparr>limits := (limits l)(t := bytes)\<rparr>"

definition try_set_limit :: "LeaseLedger \<Rightarrow> Tier \<Rightarrow> nat \<Rightarrow> LeaseLedger \<times> (nat + unit)" where
  "try_set_limit l t bytes =
     (if used_bytes l t > bytes then (l, Inl (used_bytes l t))
      else (set_limit l t bytes, Inr ()))"

definition try_claim ::
  "LeaseLedger \<Rightarrow> Tier \<Rightarrow> nat \<Rightarrow> MemoryRole \<Rightarrow> LeaseLedger \<times> (MemoryError + unit)" where
  "try_claim l t bytes role =
     (let used = used_bytes l t; limit = limits l t in
      case checked_add_u64 used bytes of
        None \<Rightarrow> (l, Inl (InvalidRequest (tier_name t) bytes
                    ''the request overflows the tier's byte counter''))
      | Some next \<Rightarrow>
          let reserved = mapped_growth_reserved l t in
          if sat_add_u64 next reserved > limit
          then (l, Inl (TierExhausted (tier_name t) bytes used limit
                          (limit - sat_add_u64 used reserved) role))
          else (l\<lparr>used_bytes := (used_bytes l)(t := next)\<rparr>, Inr ()))"

definition record_claim ::
  "LeaseLedger \<Rightarrow> Tier \<Rightarrow> nat \<Rightarrow> LeaseLedger \<times> (MemoryError + unit)" where
  "record_claim l t bytes =
     (case checked_add_u64 (used_bytes l t) bytes of
        None \<Rightarrow> (l, Inl (InvalidRequest (tier_name t) bytes
                    ''the request overflows the tier's byte counter''))
      | Some next \<Rightarrow> (l\<lparr>used_bytes := (used_bytes l)(t := next)\<rparr>, Inr ()))"

definition release :: "LeaseLedger \<Rightarrow> Tier \<Rightarrow> nat \<Rightarrow> LeaseLedger" where
  "release l t bytes = l\<lparr>used_bytes := (used_bytes l)(t := used_bytes l t - bytes)\<rparr>"

subsection \<open>Mapped allowances and mapped growth\<close>

definition try_reserve_mapped_allowance ::
  "LeaseLedger \<Rightarrow> Tier \<Rightarrow> nat \<Rightarrow> MemoryRole \<Rightarrow> LeaseLedger \<times> (MemoryError + unit)" where
  "try_reserve_mapped_allowance l t bytes role =
     (let reserved = mapped_allowance_reserved l t; limit = limits l t in
      case checked_add_u64 reserved bytes of
        None \<Rightarrow> (l, Inl (InvalidRequest (tier_name t) bytes
                    ''the mapped-allowance reservation overflows its byte counter''))
      | Some next \<Rightarrow>
          if next > limit
          then (l, Inl (TierExhausted (tier_name t) bytes reserved limit (limit - reserved) role))
          else (l\<lparr>mapped_allowance_reserved := (mapped_allowance_reserved l)(t := next)\<rparr>, Inr ()))"

definition release_mapped_allowance :: "LeaseLedger \<Rightarrow> Tier \<Rightarrow> nat \<Rightarrow> LeaseLedger" where
  "release_mapped_allowance l t bytes =
     l\<lparr>mapped_allowance_reserved :=
         (mapped_allowance_reserved l)(t := mapped_allowance_reserved l t - bytes)\<rparr>"

definition reserve_unassigned_mapped_allowance ::
  "LeaseLedger \<Rightarrow> Tier \<Rightarrow> nat \<Rightarrow> LeaseLedger \<times> nat" where
  "reserve_unassigned_mapped_allowance l t bytes =
     (let reserved = mapped_allowance_reserved l t;
          granted = min bytes (limits l t - reserved) in
      (l\<lparr>mapped_allowance_reserved :=
           (mapped_allowance_reserved l)(t := wrap_u64 (reserved + granted))\<rparr>, granted))"

definition reserve_mapped_growth ::
  "LeaseLedger \<Rightarrow> Tier \<Rightarrow> nat \<Rightarrow> LeaseLedger \<times> (MemoryError + nat)" where
  "reserve_mapped_growth l t bytes =
     (case checked_add_u64 (mapped_growth_reserved l t) bytes of
        None \<Rightarrow> (l, Inl (InvalidRequest (tier_name t) bytes
                    ''mapped-growth reservation overflows its byte counter''))
      | Some reserved \<Rightarrow>
          (l\<lparr>mapped_growth_reserved := (mapped_growth_reserved l)(t := reserved)\<rparr>, Inr bytes))"

definition release_mapped_growth :: "LeaseLedger \<Rightarrow> Tier \<Rightarrow> nat \<Rightarrow> LeaseLedger" where
  "release_mapped_growth l t bytes =
     l\<lparr>mapped_growth_reserved :=
         (mapped_growth_reserved l)(t := mapped_growth_reserved l t - bytes)\<rparr>"

definition consume_mapped_growth ::
  "LeaseLedger \<Rightarrow> Tier \<Rightarrow> nat \<Rightarrow> MemoryRole \<Rightarrow> LeaseLedger \<times> (MemoryError + unit)" where
  "consume_mapped_growth l t bytes role =
     (let reserved = mapped_growth_reserved l t; used = used_bytes l t; limit = limits l t in
      if bytes > reserved
      then (l, Inl (InvalidRequest (tier_name t) bytes
              ''mapped-growth capacity token overconsumed its authority reservation''))
      else case checked_add_u64 used bytes of
        None \<Rightarrow> (l, Inl (InvalidRequest (tier_name t) bytes
                    ''mapped-growth capacity conversion overflows tier usage''))
      | Some next \<Rightarrow>
          if sat_add_u64 next (reserved - bytes) > limit
          then (l, Inl (TierExhausted (tier_name t) bytes used limit
                          (limit - sat_add_u64 used reserved) role))
          else (l\<lparr>mapped_growth_reserved := (mapped_growth_reserved l)(t := reserved - bytes),
                  used_bytes := (used_bytes l)(t := next)\<rparr>, Inr ()))"

definition refund_mapped_growth ::
  "LeaseLedger \<Rightarrow> Tier \<Rightarrow> nat \<Rightarrow> MemoryRole \<Rightarrow> LeaseLedger \<times> (MemoryError + unit)" where
  "refund_mapped_growth l t bytes role =
     (let used = used_bytes l t; reserved = mapped_growth_reserved l t; limit = limits l t in
      if bytes > used
      then (l, Inl (InvalidRequest (tier_name t) bytes
              ''mapped-growth capacity refund exceeds owned tier bytes''))
      else case checked_add_u64 reserved bytes of
        None \<Rightarrow> (l, Inl (InvalidRequest (tier_name t) bytes
                    ''mapped-growth capacity refund overflows the authority reservation''))
      | Some next_reserved \<Rightarrow>
          if wrap_u64 (used - bytes + next_reserved) > limit
          then (l, Inl (TierExhausted (tier_name t) bytes used limit
                          (limit - sat_add_u64 used reserved) role))
          else (l\<lparr>used_bytes := (used_bytes l)(t := used - bytes),
                  mapped_growth_reserved := (mapped_growth_reserved l)(t := next_reserved)\<rparr>,
                Inr ()))"

section \<open>Leases\<close>

text \<open>
  \<open>accounting\<close> identifies the books the lease charges: the ledger's authority serial, so
  that \<open>Arc::ptr_eq\<close> and the comparison of authority ids are equality of serials.
\<close>

record MemoryLease =
  lease_tier :: Tier
  lease_bytes :: nat
  lease_role :: MemoryRole
  lease_holder :: nat
  lease_accounting :: nat

definition reserve ::
  "LeaseLedger \<Rightarrow> Tier \<Rightarrow> nat \<Rightarrow> MemoryRole \<Rightarrow> nat \<Rightarrow> LeaseLedger \<times> (MemoryError + MemoryLease)" where
  "reserve l t bytes role holder =
     (case try_claim l t bytes role of
        (l', Inl e) \<Rightarrow> (l', Inl e)
      | (l', Inr _) \<Rightarrow>
          (l', Inr \<lparr>lease_tier = t, lease_bytes = bytes, lease_role = role,
                    lease_holder = holder, lease_accounting = authority_serial l\<rparr>))"

definition record_committed ::
  "LeaseLedger \<Rightarrow> Tier \<Rightarrow> nat \<Rightarrow> MemoryRole \<Rightarrow> nat \<Rightarrow> LeaseLedger \<times> (MemoryError + MemoryLease)" where
  "record_committed l t bytes role holder =
     (case record_claim l t bytes of
        (l', Inl e) \<Rightarrow> (l', Inl e)
      | (l', Inr _) \<Rightarrow>
          (l', Inr \<lparr>lease_tier = t, lease_bytes = bytes, lease_role = role,
                    lease_holder = holder, lease_accounting = authority_serial l\<rparr>))"

definition reserve_sibling ::
  "LeaseLedger \<Rightarrow> MemoryLease \<Rightarrow> nat \<Rightarrow> LeaseLedger \<times> (MemoryError + MemoryLease)" where
  "reserve_sibling l m bytes =
     (case try_claim l (lease_tier m) bytes (lease_role m) of
        (l', Inl e) \<Rightarrow> (l', Inl e)
      | (l', Inr _) \<Rightarrow> (l', Inr (m\<lparr>lease_bytes := bytes\<rparr>)))"

text \<open>\<open>Drop\<close>: a lease of zero bytes does not touch the ledger.\<close>

definition drop_lease :: "LeaseLedger \<Rightarrow> MemoryLease \<Rightarrow> LeaseLedger" where
  "drop_lease l m =
     (if lease_bytes m > 0 then release l (lease_tier m) (lease_bytes m) else l)"

text \<open>
  The sibling is consumed by value: on an error it is dropped, which releases its bytes;
  on success its bytes are zeroed first, so the drop is a no-op.
\<close>

definition absorb_sibling ::
  "LeaseLedger \<Rightarrow> MemoryLease \<Rightarrow> MemoryLease \<Rightarrow> LeaseLedger \<times> MemoryLease \<times> (MemoryError + unit)" where
  "absorb_sibling l m s =
     (if lease_tier m \<noteq> lease_tier s \<or> lease_role m \<noteq> lease_role s
        \<or> lease_holder m \<noteq> lease_holder s \<or> lease_accounting m \<noteq> lease_accounting s
      then (drop_lease l s, m, Inl (InvalidRequest (tier_name (lease_tier m)) (lease_bytes s)
              ''sibling lease belongs to a different owner or accounting authority''))
      else case checked_add_u64 (lease_bytes m) (lease_bytes s) of
        None \<Rightarrow> (drop_lease l s, m, Inl (InvalidRequest (tier_name (lease_tier m)) (lease_bytes s)
              ''absorbing the sibling lease would overflow the owner lease''))
      | Some b \<Rightarrow> (drop_lease l (s\<lparr>lease_bytes := 0\<rparr>), m\<lparr>lease_bytes := b\<rparr>, Inr ()))"

definition grow ::
  "LeaseLedger \<Rightarrow> MemoryLease \<Rightarrow> nat \<Rightarrow> LeaseLedger \<times> MemoryLease \<times> (MemoryError + unit)" where
  "grow l m extra =
     (if extra = 0 then (l, m, Inr ())
      else case try_claim l (lease_tier m) extra (lease_role m) of
        (l', Inl e) \<Rightarrow> (l', m, Inl e)
      | (l', Inr _) \<Rightarrow> (l', m\<lparr>lease_bytes := sat_add_u64 (lease_bytes m) extra\<rparr>, Inr ()))"

definition shrink :: "LeaseLedger \<Rightarrow> MemoryLease \<Rightarrow> nat \<Rightarrow> LeaseLedger \<times> MemoryLease \<times> nat" where
  "shrink l m bytes =
     (let returned = min bytes (lease_bytes m) in
      if returned > 0
      then (release l (lease_tier m) returned,
            m\<lparr>lease_bytes := lease_bytes m - returned\<rparr>, returned)
      else (l, m, returned))"

subsection \<open>The physical-capacity token\<close>

record MappedPhysicalCapacityToken =
  token_ledger :: nat
  token_tier :: Tier
  token_role :: MemoryRole
  token_owner_id :: nat
  token_remaining :: nat

definition token_consume ::
  "LeaseLedger \<Rightarrow> MappedPhysicalCapacityToken \<Rightarrow> nat \<Rightarrow>
     LeaseLedger \<times> MappedPhysicalCapacityToken \<times> (MemoryError + unit)" where
  "token_consume l k bytes =
     (if bytes > token_remaining k
      then (l, k, Inl (InvalidRequest (tier_name (token_tier k)) bytes
              ''mapped-growth capacity token cannot be consumed beyond its reservation''))
      else case consume_mapped_growth l (token_tier k) bytes (token_role k) of
        (l', Inl e) \<Rightarrow> (l', k, Inl e)
      | (l', Inr _) \<Rightarrow> (l', k\<lparr>token_remaining := token_remaining k - bytes\<rparr>, Inr ()))"

definition token_refund ::
  "LeaseLedger \<Rightarrow> MappedPhysicalCapacityToken \<Rightarrow> nat \<Rightarrow>
     LeaseLedger \<times> MappedPhysicalCapacityToken \<times> (MemoryError + unit)" where
  "token_refund l k bytes =
     (case refund_mapped_growth l (token_tier k) bytes (token_role k) of
        (l', Inl e) \<Rightarrow> (l', k, Inl e)
      | (l', Inr _) \<Rightarrow>
          (case checked_add_u64 (token_remaining k) bytes of
             None \<Rightarrow> (l', k, Inl (InvalidRequest (tier_name (token_tier k)) bytes
                       ''mapped-growth capacity token refund overflows remaining bytes''))
           | Some r \<Rightarrow> (l', k\<lparr>token_remaining := r\<rparr>, Inr ())))"

definition token_release_remaining ::
  "LeaseLedger \<Rightarrow> MappedPhysicalCapacityToken \<Rightarrow> LeaseLedger \<times> MappedPhysicalCapacityToken" where
  "token_release_remaining l k =
     (if token_remaining k > 0
      then (release_mapped_growth l (token_tier k) (token_remaining k), k\<lparr>token_remaining := 0\<rparr>)
      else (l, k))"

definition grow_from_mapped_capacity ::
  "LeaseLedger \<Rightarrow> MemoryLease \<Rightarrow> MappedPhysicalCapacityToken \<Rightarrow> nat \<Rightarrow>
     LeaseLedger \<times> MemoryLease \<times> MappedPhysicalCapacityToken \<times> (MemoryError + unit)" where
  "grow_from_mapped_capacity l m k extra =
     (if lease_tier m \<noteq> token_tier k \<or> lease_accounting m \<noteq> token_ledger k
      then (l, m, k, Inl (InvalidRequest (tier_name (lease_tier m)) extra
              ''mapped-growth capacity token belongs to a different lease authority''))
      else case checked_add_u64 (lease_bytes m) extra of
        None \<Rightarrow> (l, m, k, Inl (InvalidRequest (tier_name (lease_tier m)) extra
              ''mapped-growth lease conversion overflows lease bytes''))
      | Some next \<Rightarrow>
          (case token_consume l k extra of
             (l', k', Inl e) \<Rightarrow> (l', m, k', Inl e)
           | (l', k', Inr _) \<Rightarrow> (l', m\<lparr>lease_bytes := next\<rparr>, k', Inr ())))"

definition shrink_to_mapped_capacity ::
  "LeaseLedger \<Rightarrow> MemoryLease \<Rightarrow> MappedPhysicalCapacityToken \<Rightarrow> nat \<Rightarrow>
     LeaseLedger \<times> MemoryLease \<times> MappedPhysicalCapacityToken \<times> (MemoryError + nat)" where
  "shrink_to_mapped_capacity l m k bytes =
     (if lease_tier m \<noteq> token_tier k \<or> lease_accounting m \<noteq> token_ledger k
      then (l, m, k, Inl (InvalidRequest (tier_name (lease_tier m)) bytes
              ''mapped-growth capacity token belongs to a different lease authority''))
      else let returned = min bytes (lease_bytes m) in
        (case token_refund l k returned of
           (l', k', Inl e) \<Rightarrow> (l', m, k', Inl e)
         | (l', k', Inr _) \<Rightarrow>
             (l', m\<lparr>lease_bytes := lease_bytes m - returned\<rparr>, k', Inr returned)))"

section \<open>Effect of each operation on the counters\<close>

lemmas ledger_op_defs [ledger_simps] =
  try_claim_def record_claim_def release_def set_limit_def try_set_limit_def
  reserve_mapped_growth_def release_mapped_growth_def
  consume_mapped_growth_def refund_mapped_growth_def Let_def

lemma try_claim_ok_iff:
  "try_claim l t bytes role = (l', Inr u) \<longleftrightarrow>
     used_bytes l t + bytes \<le> u64_max
     \<and> sat_add_u64 (used_bytes l t + bytes) (mapped_growth_reserved l t) \<le> limits l t
     \<and> l' = l\<lparr>used_bytes := (used_bytes l)(t := used_bytes l t + bytes)\<rparr>"
  by (auto simp: try_claim_def Let_def not_less split: option.splits if_splits)

lemma try_claim_err: "try_claim l t bytes role = (l', Inl e) \<Longrightarrow> l' = l"
  by (auto simp: try_claim_def Let_def split: option.splits if_splits)

lemma record_claim_ok_iff:
  "record_claim l t bytes = (l', Inr u) \<longleftrightarrow>
     used_bytes l t + bytes \<le> u64_max
     \<and> l' = l\<lparr>used_bytes := (used_bytes l)(t := used_bytes l t + bytes)\<rparr>"
  by (auto simp: record_claim_def split: option.splits)

lemma record_claim_err: "record_claim l t bytes = (l', Inl e) \<Longrightarrow> l' = l"
  by (auto simp: record_claim_def split: option.splits)

lemma consume_ok_iff:
  "consume_mapped_growth l t bytes role = (l', Inr u) \<longleftrightarrow>
     bytes \<le> mapped_growth_reserved l t
     \<and> used_bytes l t + bytes \<le> u64_max
     \<and> sat_add_u64 (used_bytes l t + bytes) (mapped_growth_reserved l t - bytes) \<le> limits l t
     \<and> l' = l\<lparr>mapped_growth_reserved :=
                 (mapped_growth_reserved l)(t := mapped_growth_reserved l t - bytes),
               used_bytes := (used_bytes l)(t := used_bytes l t + bytes)\<rparr>"
  by (auto simp: consume_mapped_growth_def Let_def not_less split: option.splits if_splits)

lemma consume_err: "consume_mapped_growth l t bytes role = (l', Inl e) \<Longrightarrow> l' = l"
  by (auto simp: consume_mapped_growth_def Let_def split: option.splits if_splits)

lemma refund_ok_iff:
  "refund_mapped_growth l t bytes role = (l', Inr u) \<longleftrightarrow>
     bytes \<le> used_bytes l t
     \<and> mapped_growth_reserved l t + bytes \<le> u64_max
     \<and> wrap_u64 (used_bytes l t - bytes + (mapped_growth_reserved l t + bytes)) \<le> limits l t
     \<and> l' = l\<lparr>used_bytes := (used_bytes l)(t := used_bytes l t - bytes),
               mapped_growth_reserved :=
                 (mapped_growth_reserved l)(t := mapped_growth_reserved l t + bytes)\<rparr>"
  by (auto simp: refund_mapped_growth_def Let_def not_less split: option.splits if_splits)

lemma refund_err: "refund_mapped_growth l t bytes role = (l', Inl e) \<Longrightarrow> l' = l"
  by (auto simp: refund_mapped_growth_def Let_def split: option.splits if_splits)

section \<open>The accounting interface\<close>

text \<open>
  \<open>LeaseAccounting\<close>, the trait a lease is written against: a claim charges exactly the bytes
  asked for or changes nothing, and a release gives bytes back. Whatever books satisfy
  these laws, the bytes a group of claims charged are returned by releasing them, in any
  order.
\<close>

locale accounting_trait =
  fixes claim :: "'l \<Rightarrow> Tier \<Rightarrow> nat \<Rightarrow> MemoryRole \<Rightarrow> 'l \<times> (MemoryError + unit)"
    and rel :: "'l \<Rightarrow> Tier \<Rightarrow> nat \<Rightarrow> 'l"
    and usage :: "'l \<Rightarrow> Tier \<Rightarrow> nat"
  assumes claim_ok: "claim l t b r = (l', Inr u) \<Longrightarrow> usage l' = (usage l)(t := usage l t + b)"
    and claim_err: "claim l t b r = (l', Inl e) \<Longrightarrow> l' = l"
    and rel_usage: "usage (rel l t b) = (usage l)(t := usage l t - b)"
begin

fun claim_all :: "'l \<Rightarrow> (Tier \<times> nat \<times> MemoryRole) list \<Rightarrow> 'l option" where
  "claim_all l [] = Some l"
| "claim_all l ((t, b, r) # cs) =
     (case claim l t b r of (l', Inr _) \<Rightarrow> claim_all l' cs | (l', Inl _) \<Rightarrow> None)"

fun release_all :: "'l \<Rightarrow> (Tier \<times> nat \<times> MemoryRole) list \<Rightarrow> 'l" where
  "release_all l [] = l"
| "release_all l ((t, b, r) # cs) = release_all (rel l t b) cs"

definition demand :: "Tier \<Rightarrow> (Tier \<times> nat \<times> MemoryRole) list \<Rightarrow> nat" where
  "demand t cs = sum_list (map (\<lambda>(t', b, r). if t' = t then b else 0) cs)"

lemma claim_all_usage:
  "claim_all l cs = Some l' \<Longrightarrow> usage l' t = usage l t + demand t cs"
proof (induction l cs rule: claim_all.induct)
  case (1 l)
  then show ?case by (simp add: demand_def)
next
  case (2 l t' b r cs)
  then obtain l1 u where c: "claim l t' b r = (l1, Inr u)" and rest: "claim_all l1 cs = Some l'"
    by (auto split: prod.splits sum.splits)
  have "usage l' t = usage l1 t + demand t cs"
    using "2.IH" c rest by force
  then show ?case using claim_ok [OF c] by (simp add: demand_def)
qed

lemma release_all_usage: "usage (release_all l cs) t = usage l t - demand t cs"
  by (induction l cs rule: release_all.induct) (auto simp: demand_def rel_usage)

lemma claims_returned_in_any_order:
  assumes "claim_all l cs = Some l'" and "mset ds = mset cs"
  shows "usage (release_all l' ds) = usage l"
proof
  fix t
  have "demand t ds = demand t cs"
    unfolding demand_def sum_mset_sum_list [symmetric] mset_map by (simp only: assms(2))
  then show "usage (release_all l' ds) t = usage l t"
    using claim_all_usage [OF assms(1)] by (simp add: release_all_usage)
qed

end

interpretation ledger_books: accounting_trait try_claim release used_bytes
proof unfold_locales
  show "used_bytes l' = (used_bytes l)(t := used_bytes l t + b)"
    if "try_claim l t b r = (l', Inr u)" for l t b r l' u
    using that by (simp add: try_claim_ok_iff)
  show "l' = l" if "try_claim l t b r = (l', Inl e)" for l t b r l' e
    using that by (rule try_claim_err)
  show "used_bytes (release l t b) = (used_bytes l)(t := used_bytes l t - b)" for l t b
    by (simp add: release_def)
qed

interpretation tier_account: byte_account "\<lambda>l. used_bytes l t" "\<lambda>l. limits l t" "\<lambda>l n. try_claim l t n role" "\<lambda>l n. release l t n"
  for t role
proof unfold_locales
  fix l l' :: LeaseLedger and n
  show "used_bytes l' t = used_bytes l t + n \<and> limits l' t = limits l t \<and> (n = 0 \<or> used_bytes l t + n \<le> limits l t)"
    if "try_claim l t n role = (l', Inr u)" for u
    using that by (auto simp: try_claim_ok_iff sat_add_u64_def min_def split: if_splits)
  show "used_bytes l' t = used_bytes l t \<and> limits l' t = limits l t" if "try_claim l t n role = (l', Inl e)" for e
    using try_claim_err [OF that] by simp
  show "used_bytes (release l t n) t = used_bytes l t - n \<and> limits (release l t n) t = limits l t"
    by (simp add: release_def)
qed

end
