(* ===== verification/LeaseBooks.thy ===== *)
theory LeaseBooks
  imports MemoryLedger
begin

text \<open>
  The ledger together with everything that holds a claim on it: the live leases and the
  live capacity tokens. A lease or a token is an owned value in the source, so it is in
  exactly one place; here it is an entry of a list, named by its index. Every operation on
  a lease, a token or a limit is a step, and the main results are about every state the
  steps reach: the ledger's counters are exactly the bytes held, and no sequence of
  ordinary operations over-subscribes a tier.
\<close>

section \<open>States and steps\<close>

record books =
  ledger :: LeaseLedger
  leases :: "MemoryLease list"
  tokens :: "MappedPhysicalCapacityToken list"

datatype ledger_op =
    OpReserve Tier nat MemoryRole nat
  | OpRecord Tier nat MemoryRole nat
  | OpSibling nat nat
  | OpAbsorb nat nat
  | OpGrow nat nat
  | OpShrink nat nat
  | OpDrop nat
  | OpSetLimit Tier nat
  | OpTrySetLimit Tier nat
  | OpReserveGrowth Tier nat MemoryRole nat
  | OpTokenDrop nat
  | OpGrowFrom nat nat nat
  | OpShrinkTo nat nat nat

definition books_init :: "LeaseLedger \<Rightarrow> books" where
  "books_init l = \<lparr>ledger = l, leases = [], tokens = []\<rparr>"

definition add_lease :: "books \<Rightarrow> LeaseLedger \<times> (MemoryError + MemoryLease) \<Rightarrow> books" where
  "add_lease b r =
     (case r of
        (l', Inl e) \<Rightarrow> b\<lparr>ledger := l'\<rparr>
      | (l', Inr m) \<Rightarrow> b\<lparr>ledger := l', leases := leases b @ [m]\<rparr>)"

fun books_step :: "books \<Rightarrow> ledger_op \<Rightarrow> books" where
  "books_step b (OpReserve t n role holder) = add_lease b (reserve (ledger b) t n role holder)"
| "books_step b (OpRecord t n role holder) = add_lease b (record_committed (ledger b) t n role holder)"
| "books_step b (OpSibling i n) =
     (if i < length (leases b) then add_lease b (reserve_sibling (ledger b) (leases b ! i) n) else b)"
| "books_step b (OpAbsorb i j) =
     (if i < length (leases b) \<and> j < length (leases b) \<and> i \<noteq> j
      then case absorb_sibling (ledger b) (leases b ! i) (leases b ! j) of
             (l', m', r) \<Rightarrow>
               b\<lparr>ledger := l', leases := remove_nth j ((leases b)[i := m'])\<rparr>
      else b)"
| "books_step b (OpGrow i n) =
     (if i < length (leases b)
      then case grow (ledger b) (leases b ! i) n of
             (l', m', r) \<Rightarrow> b\<lparr>ledger := l', leases := (leases b)[i := m']\<rparr>
      else b)"
| "books_step b (OpShrink i n) =
     (if i < length (leases b)
      then case shrink (ledger b) (leases b ! i) n of
             (l', m', r) \<Rightarrow> b\<lparr>ledger := l', leases := (leases b)[i := m']\<rparr>
      else b)"
| "books_step b (OpDrop i) =
     (if i < length (leases b)
      then b\<lparr>ledger := drop_lease (ledger b) (leases b ! i), leases := remove_nth i (leases b)\<rparr>
      else b)"
| "books_step b (OpSetLimit t n) = b\<lparr>ledger := set_limit (ledger b) t n\<rparr>"
| "books_step b (OpTrySetLimit t n) = b\<lparr>ledger := fst (try_set_limit (ledger b) t n)\<rparr>"
| "books_step b (OpReserveGrowth t n role owner) =
     (case reserve_mapped_growth (ledger b) t n of
        (l', Inl e) \<Rightarrow> b\<lparr>ledger := l'\<rparr>
      | (l', Inr r) \<Rightarrow>
          b\<lparr>ledger := l',
            tokens := tokens b @
              [\<lparr>token_ledger = authority_serial (ledger b), token_tier = t, token_role = role,
                 token_owner_id = owner, token_remaining = r\<rparr>]\<rparr>)"
| "books_step b (OpTokenDrop k) =
     (if k < length (tokens b)
      then b\<lparr>ledger := fst (token_release_remaining (ledger b) (tokens b ! k)),
             tokens := remove_nth k (tokens b)\<rparr>
      else b)"
| "books_step b (OpGrowFrom i k n) =
     (if i < length (leases b) \<and> k < length (tokens b)
      then case grow_from_mapped_capacity (ledger b) (leases b ! i) (tokens b ! k) n of
             (l', m', k', r) \<Rightarrow>
               b\<lparr>ledger := l', leases := (leases b)[i := m'], tokens := (tokens b)[k := k']\<rparr>
      else b)"
| "books_step b (OpShrinkTo i k n) =
     (if i < length (leases b) \<and> k < length (tokens b)
      then case shrink_to_mapped_capacity (ledger b) (leases b ! i) (tokens b ! k) n of
             (l', m', k', r) \<Rightarrow>
               b\<lparr>ledger := l', leases := (leases b)[i := m'], tokens := (tokens b)[k := k']\<rparr>
      else b)"

section \<open>Conservation\<close>

definition charged :: "Tier \<Rightarrow> MemoryLease list \<Rightarrow> nat" where
  "charged t = weight (\<lambda>m. if lease_tier m = t then lease_bytes m else 0)"

definition pledged :: "Tier \<Rightarrow> MappedPhysicalCapacityToken list \<Rightarrow> nat" where
  "pledged t = weight (\<lambda>k. if token_tier k = t then token_remaining k else 0)"

definition books_inv :: "books \<Rightarrow> bool" where
  "books_inv b \<longleftrightarrow>
     (\<forall>t. used_bytes (ledger b) t = charged t (leases b) \<and> charged t (leases b) \<le> u64_max
        \<and> mapped_growth_reserved (ledger b) t = pledged t (tokens b)
        \<and> pledged t (tokens b) \<le> u64_max)
     \<and> (\<forall>m \<in> set (leases b). lease_accounting m = authority_serial (ledger b))
     \<and> (\<forall>k \<in> set (tokens b). token_ledger k = authority_serial (ledger b))"

lemma charged_split:
  "i < length ms \<Longrightarrow>
     charged t ms = (if lease_tier (ms ! i) = t then lease_bytes (ms ! i) else 0)
                    + charged t (remove_nth i ms)"
  by (simp add: charged_def weight_split)

lemma charged_update:
  "i < length ms \<Longrightarrow>
     charged t (ms[i := m]) = (if lease_tier m = t then lease_bytes m else 0)
                              + charged t (remove_nth i ms)"
  by (simp add: charged_def weight_update)

lemma charged_append [simp]:
  "charged t (ms @ [m]) = charged t ms + (if lease_tier m = t then lease_bytes m else 0)"
  by (simp add: charged_def)

lemma pledged_split:
  "i < length ks \<Longrightarrow>
     pledged t ks = (if token_tier (ks ! i) = t then token_remaining (ks ! i) else 0)
                    + pledged t (remove_nth i ks)"
  by (simp add: pledged_def weight_split)

lemma pledged_update:
  "i < length ks \<Longrightarrow>
     pledged t (ks[i := k]) = (if token_tier k = t then token_remaining k else 0)
                              + pledged t (remove_nth i ks)"
  by (simp add: pledged_def weight_update)

lemma pledged_append [simp]:
  "pledged t (ks @ [k]) = pledged t ks + (if token_tier k = t then token_remaining k else 0)"
  by (simp add: pledged_def)

lemma books_invI:
  assumes "\<And>t. used_bytes (ledger b) t = charged t (leases b)"
    and "\<And>t. charged t (leases b) \<le> u64_max"
    and "\<And>t. mapped_growth_reserved (ledger b) t = pledged t (tokens b)"
    and "\<And>t. pledged t (tokens b) \<le> u64_max"
    and "\<And>m. m \<in> set (leases b) \<Longrightarrow> lease_accounting m = authority_serial (ledger b)"
    and "\<And>k. k \<in> set (tokens b) \<Longrightarrow> token_ledger k = authority_serial (ledger b)"
  shows "books_inv b"
  using assms by (simp add: books_inv_def)

lemma books_invD:
  assumes "books_inv b"
  shows "used_bytes (ledger b) t = charged t (leases b)"
    and "charged t (leases b) \<le> u64_max"
    and "mapped_growth_reserved (ledger b) t = pledged t (tokens b)"
    and "pledged t (tokens b) \<le> u64_max"
    and "m \<in> set (leases b) \<Longrightarrow> lease_accounting m = authority_serial (ledger b)"
    and "k \<in> set (tokens b) \<Longrightarrow> token_ledger k = authority_serial (ledger b)"
  using assms by (simp_all add: books_inv_def)

lemma books_inv_init:
  assumes "\<And>t. used_bytes l t = 0" and "\<And>t. mapped_growth_reserved l t = 0"
  shows "books_inv (books_init l)"
  by (rule books_invI) (simp_all add: books_init_def assms charged_def pledged_def)

lemma add_lease_inv:
  assumes "books_inv b"
    and "\<And>l' e. r = (l', Inl e) \<Longrightarrow> l' = ledger b"
    and "\<And>l' m. r = (l', Inr m) \<Longrightarrow>
           lease_accounting m = authority_serial (ledger b)
           \<and> used_bytes (ledger b) (lease_tier m) + lease_bytes m \<le> u64_max
           \<and> l' = (ledger b)\<lparr>used_bytes := (used_bytes (ledger b))
                   (lease_tier m := used_bytes (ledger b) (lease_tier m) + lease_bytes m)\<rparr>"
  shows "books_inv (add_lease b r)"
proof (cases r)
  case (Pair l' res)
  show ?thesis
  proof (cases res)
    case (Inl e)
    with Pair assms(1,2) show ?thesis by (simp add: add_lease_def)
  next
    case (Inr m)
    with Pair assms(3) have eq: "lease_accounting m = authority_serial (ledger b)"
      "used_bytes (ledger b) (lease_tier m) + lease_bytes m \<le> u64_max"
      "l' = (ledger b)\<lparr>used_bytes := (used_bytes (ledger b))
          (lease_tier m := used_bytes (ledger b) (lease_tier m) + lease_bytes m)\<rparr>"
      by blast+
    from Pair Inr eq books_invD [OF assms(1)] show ?thesis
      by (intro books_invI) (auto simp: add_lease_def)
  qed
qed

lemma reserve_inv: "books_inv b \<Longrightarrow> books_inv (books_step b (OpReserve t n role holder))"
  by simp (rule add_lease_inv,
      auto simp: reserve_def try_claim_ok_iff dest: try_claim_err split: prod.splits sum.splits)

lemma record_inv: "books_inv b \<Longrightarrow> books_inv (books_step b (OpRecord t n role holder))"
  by simp (rule add_lease_inv,
      auto simp: record_committed_def record_claim_ok_iff dest: record_claim_err
        split: prod.splits sum.splits)

lemma sibling_inv: "books_inv b \<Longrightarrow> books_inv (books_step b (OpSibling i n))"
  by simp (intro impI, rule add_lease_inv,
      auto simp: reserve_sibling_def try_claim_ok_iff books_invD dest: try_claim_err
        split: prod.splits sum.splits)

text \<open>Replacing the bytes of one lease, the ledger following.\<close>

lemma put_lease_inv:
  assumes b: "books_inv b" and i: "i < length (leases b)"
    and m': "m' = (leases b ! i)\<lparr>lease_bytes := n\<rparr>"
    and u: "u + lease_bytes (leases b ! i) = used_bytes (ledger b) (lease_tier m') + n"
    and max: "u \<le> u64_max"
  shows "books_inv (b\<lparr>ledger := (ledger b)\<lparr>used_bytes :=
            (used_bytes (ledger b))(lease_tier m' := u)\<rparr>, leases := (leases b)[i := m']\<rparr>)"
  (is "books_inv ?b'")
proof (rule books_invI)
  show "charged t (leases ?b') \<le> u64_max" for t
    using i m' u max charged_split [OF i, of t] books_invD(1,2) [OF b, of t]
    by (auto simp: charged_update)
next
  fix m
  assume "m \<in> set (leases ?b')"
  then have "m = m' \<or> m \<in> set (leases b)"
    using set_update_subset_insert [of "leases b" i m'] by auto
  moreover have "lease_accounting m' = authority_serial (ledger b)"
    using m' books_invD(5) [OF b nth_mem [OF i]] by simp
  ultimately show "lease_accounting m = authority_serial (ledger ?b')"
    using books_invD(5) [OF b] by auto
qed (use b i m' u max charged_split [OF i] in \<open>auto simp: charged_update books_invD\<close>)

lemma lease_bytes_le_used:
  assumes "books_inv b" "i < length (leases b)"
  shows "lease_bytes (leases b ! i) \<le> used_bytes (ledger b) (lease_tier (leases b ! i))"
  using charged_split [OF assms(2), of "lease_tier (leases b ! i)"] books_invD(1) [OF assms(1)]
  by simp

lemma grow_inv: "books_inv b \<Longrightarrow> books_inv (books_step b (OpGrow i n))"
proof (cases "i < length (leases b) \<and> n \<noteq> 0")
  case False
  assume "books_inv b"
  with False show ?thesis by (auto simp: grow_def)
next
  case True
  assume b: "books_inv b"
  let ?m = "leases b ! i"
  note le = lease_bytes_le_used [OF b, of i]
  show ?thesis
  proof (cases "try_claim (ledger b) (lease_tier ?m) n (lease_role ?m)")
    case (Pair l' r)
    then show ?thesis
    proof (cases r)
      case (Inl e)
      with True b Pair show ?thesis by (auto simp: grow_def dest: try_claim_err)
    next
      case (Inr u)
      with Pair have c: "used_bytes (ledger b) (lease_tier ?m) + n \<le> u64_max"
        "l' = (ledger b)\<lparr>used_bytes := (used_bytes (ledger b))
            (lease_tier ?m := used_bytes (ledger b) (lease_tier ?m) + n)\<rparr>"
        by (simp_all add: try_claim_ok_iff)
      with True le have "sat_add_u64 (lease_bytes ?m) n = lease_bytes ?m + n"
        by (intro sat_add_u64_exact) simp
      with True b Pair Inr c show ?thesis
        using put_lease_inv [OF b, of i "?m\<lparr>lease_bytes := lease_bytes ?m + n\<rparr>" "lease_bytes ?m + n"
            "used_bytes (ledger b) (lease_tier ?m) + n"]
        by (simp add: grow_def)
    qed
  qed
qed

lemma shrink_inv: "books_inv b \<Longrightarrow> books_inv (books_step b (OpShrink i n))"
proof (cases "i < length (leases b)")
  case False
  assume "books_inv b"
  with False show ?thesis by simp
next
  case True
  assume b: "books_inv b"
  let ?m = "leases b ! i"
  let ?n = "min n (lease_bytes ?m)"
  have "books_inv (b\<lparr>ledger := (ledger b)\<lparr>used_bytes := (used_bytes (ledger b))
      (lease_tier ?m := used_bytes (ledger b) (lease_tier ?m) - ?n)\<rparr>,
      leases := (leases b)[i := ?m\<lparr>lease_bytes := lease_bytes ?m - ?n\<rparr>]\<rparr>)"
    using put_lease_inv [OF b True, of "?m\<lparr>lease_bytes := lease_bytes ?m - ?n\<rparr>"
        "lease_bytes ?m - ?n" "used_bytes (ledger b) (lease_tier ?m) - ?n"]
      lease_bytes_le_used [OF b True] books_invD(1,2) [OF b, of "lease_tier ?m"]
    by simp
  with True b show ?thesis by (auto simp: shrink_def release_def Let_def)
qed

lemma drop_lease_ledger:
  "drop_lease l m = l\<lparr>used_bytes :=
     (used_bytes l)(lease_tier m := used_bytes l (lease_tier m) - lease_bytes m)\<rparr>"
  by (simp add: drop_lease_def release_def)

lemma drop_inv: "books_inv b \<Longrightarrow> books_inv (books_step b (OpDrop i))"
proof (cases "i < length (leases b)")
  case False
  assume "books_inv b"
  with False show ?thesis by simp
next
  case True
  assume b: "books_inv b"
  have "charged t (remove_nth i (leases b)) \<le> u64_max" for t
    using charged_split [OF True, of t] books_invD(2) [OF b, of t] by simp
  with True b charged_split [OF True] set_remove_nth [of i "leases b"] show ?thesis
    by (auto intro!: books_invI simp: drop_lease_ledger books_invD)
qed

lemma limit_inv:
  "books_inv b \<Longrightarrow> books_inv (books_step b (OpSetLimit t n))"
  "books_inv b \<Longrightarrow> books_inv (books_step b (OpTrySetLimit t n))"
  by (auto simp: books_inv_def set_limit_def try_set_limit_def)

lemma reserve_growth_inv:
  "books_inv b \<Longrightarrow> books_inv (books_step b (OpReserveGrowth t n role owner))"
  by (auto simp: reserve_mapped_growth_def books_invD intro!: books_invI
      split: option.splits prod.splits)

lemma token_drop_inv: "books_inv b \<Longrightarrow> books_inv (books_step b (OpTokenDrop k))"
proof (cases "k < length (tokens b)")
  case False
  assume "books_inv b"
  with False show ?thesis by simp
next
  case True
  assume b: "books_inv b"
  have "pledged t (remove_nth k (tokens b)) \<le> u64_max" for t
    using pledged_split [OF True, of t] books_invD(4) [OF b, of t] by simp
  with True b pledged_split [OF True] set_remove_nth [of k "tokens b"] show ?thesis
    by (auto intro!: books_invI
        simp: token_release_remaining_def release_mapped_growth_def books_invD)
qed

lemma charged_merge:
  assumes "i < length ms" "j < length ms" "i \<noteq> j" "lease_tier (ms ! i) = lease_tier (ms ! j)"
  shows "charged t (remove_nth j (ms[i := (ms ! i)\<lparr>lease_bytes :=
           lease_bytes (ms ! i) + lease_bytes (ms ! j)\<rparr>])) = charged t ms"
proof -
  let ?ms = "ms[i := (ms ! i)\<lparr>lease_bytes := lease_bytes (ms ! i) + lease_bytes (ms ! j)\<rparr>]"
  have "charged t ?ms = (if lease_tier (ms ! j) = t then lease_bytes (ms ! j) else 0)
          + charged t (remove_nth j ?ms)"
    using assms charged_split [of j ?ms t] by simp
  moreover have "charged t ?ms = charged t ms + (if lease_tier (ms ! j) = t then lease_bytes (ms ! j) else 0)"
    using assms charged_split [of i ms t] by (simp add: charged_update)
  ultimately show ?thesis by simp
qed

lemma absorb_inv: "books_inv b \<Longrightarrow> books_inv (books_step b (OpAbsorb i j))"
proof (cases "i < length (leases b) \<and> j < length (leases b) \<and> i \<noteq> j")
  case False
  assume "books_inv b"
  with False show ?thesis by auto
next
  case ij: True
  assume b: "books_inv b"
  let ?m = "leases b ! i" and ?s = "leases b ! j"
  show ?thesis
  proof (cases "absorb_sibling (ledger b) ?m ?s")
    case (fields l' m' r)
    then consider (err) "l' = drop_lease (ledger b) ?s" "m' = ?m"
      | (ok) "l' = ledger b" "m' = ?m\<lparr>lease_bytes := lease_bytes ?m + lease_bytes ?s\<rparr>"
             "lease_tier ?m = lease_tier ?s"
      by (auto simp: absorb_sibling_def drop_lease_ledger split: if_splits option.splits)
    then show ?thesis
    proof cases
      case err
      with fields ij have "books_step b (OpAbsorb i j) = books_step b (OpDrop j)" by simp
      with drop_inv [OF b] show ?thesis by simp
    next
      case ok
      let ?ms = "remove_nth j ((leases b)[i := m'])"
      have acc: "lease_accounting m = authority_serial (ledger b)" if "m \<in> set ?ms" for m
        using that set_remove_nth [of j "(leases b)[i := m']"]
          set_update_subset_insert [of "leases b" i m'] ok(2) ij
          books_invD(5) [OF b, of ?m] books_invD(5) [OF b, of m] by auto
      have "charged t ?ms = charged t (leases b)" for t
        using charged_merge [of i "leases b" j t] ij ok by simp
      with ok fields ij b acc show ?thesis
        by (auto intro!: books_invI simp: books_invD)
    qed
  qed
qed

text \<open>Moving bytes between the use of a lease and the pledge of a token.\<close>

lemma convert_inv:
  assumes b: "books_inv b" and i: "i < length (leases b)" and k: "k < length (tokens b)"
    and tier: "lease_tier (leases b ! i) = token_tier (tokens b ! k)"
    and t: "t = token_tier (tokens b ! k)"
    and l': "l' = (ledger b)\<lparr>used_bytes := (used_bytes (ledger b))(t := u),
                 mapped_growth_reserved := (mapped_growth_reserved (ledger b))(t := g)\<rparr>"
    and u: "u + lease_bytes (leases b ! i) = used_bytes (ledger b) t + n" "u \<le> u64_max"
    and g: "g + token_remaining (tokens b ! k) = mapped_growth_reserved (ledger b) t + r" "g \<le> u64_max"
  shows "books_inv (b\<lparr>ledger := l', leases := (leases b)[i := (leases b ! i)\<lparr>lease_bytes := n\<rparr>],
           tokens := (tokens b)[k := (tokens b ! k)\<lparr>token_remaining := r\<rparr>]\<rparr>)"
proof -
  let ?m = "(leases b ! i)\<lparr>lease_bytes := n\<rparr>" and ?k = "(tokens b ! k)\<lparr>token_remaining := r\<rparr>"
  have "books_inv (b\<lparr>ledger := (ledger b)\<lparr>used_bytes :=
            (used_bytes (ledger b))(t := u)\<rparr>, leases := (leases b)[i := ?m]\<rparr>)" (is "books_inv ?b1")
    using put_lease_inv [OF b i refl, where n = n and u = u] u tier t by simp
  then have b1: "books_inv ?b1" .
  have acc: "token_ledger x = authority_serial (ledger b)" if "x \<in> set ((tokens b)[k := ?k])" for x
    using that set_update_subset_insert [of "tokens b" k ?k] k
      books_invD(6) [OF b, of "tokens b ! k"] books_invD(6) [OF b, of x] by auto
  have pl: "pledged t' ((tokens b)[k := ?k]) = (if t' = t then g else pledged t' (tokens b))" for t'
    using pledged_split [OF k, of t'] g t books_invD(3) [OF b, of t']
    by (auto simp: pledged_update [OF k])
  show ?thesis
    using books_invD [OF b1] books_invD [OF b] pl acc g l'
    by (intro books_invI) auto
qed

lemma token_remaining_le_pledged:
  assumes "books_inv b" "k < length (tokens b)"
  shows "token_remaining (tokens b ! k) \<le> mapped_growth_reserved (ledger b) (token_tier (tokens b ! k))"
  using pledged_split [OF assms(2), of "token_tier (tokens b ! k)"] books_invD(3) [OF assms(1)]
  by simp

lemma grow_from_cases:
  assumes "grow_from_mapped_capacity l m k extra = (l', m', k', r)"
  shows "l' = l \<and> m' = m \<and> k' = k \<and> \<not> is_ok r
    \<or> lease_tier m = token_tier k \<and> extra \<le> token_remaining k
      \<and> consume_mapped_growth l (token_tier k) extra (token_role k) = (l', Inr ())
      \<and> m' = m\<lparr>lease_bytes := lease_bytes m + extra\<rparr>
      \<and> k' = k\<lparr>token_remaining := token_remaining k - extra\<rparr> \<and> r = Inr ()"
proof (cases "lease_tier m \<noteq> token_tier k \<or> lease_accounting m \<noteq> token_ledger k
    \<or> u64_max < lease_bytes m + extra \<or> token_remaining k < extra")
  case True
  with assms show ?thesis
    by (auto simp: grow_from_mapped_capacity_def token_consume_def checked_add_u64_def split: if_splits)
next
  case False
  obtain l1 r1 where c: "consume_mapped_growth l (token_tier k) extra (token_role k) = (l1, r1)"
    by fastforce
  with False assms consume_err [of l "token_tier k" extra "token_role k" l1] show ?thesis
    by (cases r1) (auto simp: grow_from_mapped_capacity_def token_consume_def checked_add_u64_def)
qed

lemma grow_from_inv: "books_inv b \<Longrightarrow> books_inv (books_step b (OpGrowFrom i k n))"
proof (cases "i < length (leases b) \<and> k < length (tokens b)")
  case False
  assume "books_inv b"
  with False show ?thesis by auto
next
  case ik: True
  assume b: "books_inv b"
  obtain l' m' k' r where g:
    "grow_from_mapped_capacity (ledger b) (leases b ! i) (tokens b ! k) n = (l', m', k', r)"
    by (metis prod_cases4)
  show ?thesis
  proof (cases "is_ok r")
    case False
    with grow_from_cases [OF g] g ik b show ?thesis by auto
  next
    case True
    let ?t = "token_tier (tokens b ! k)"
    from True grow_from_cases [OF g]
    have ok: "lease_tier (leases b ! i) = ?t" "n \<le> token_remaining (tokens b ! k)"
      "consume_mapped_growth (ledger b) ?t n (token_role (tokens b ! k)) = (l', Inr ())"
      "m' = (leases b ! i)\<lparr>lease_bytes := lease_bytes (leases b ! i) + n\<rparr>"
      "k' = (tokens b ! k)\<lparr>token_remaining := token_remaining (tokens b ! k) - n\<rparr>"
      by auto
    from ok(3) have c: "n \<le> mapped_growth_reserved (ledger b) ?t"
      "used_bytes (ledger b) ?t + n \<le> u64_max"
      "l' = (ledger b)\<lparr>used_bytes := (used_bytes (ledger b))(?t := used_bytes (ledger b) ?t + n),
          mapped_growth_reserved := (mapped_growth_reserved (ledger b))
            (?t := mapped_growth_reserved (ledger b) ?t - n)\<rparr>"
      by (simp_all add: consume_ok_iff)
    show ?thesis
      using convert_inv [OF b, of i k ?t l' _ _ "lease_bytes (leases b ! i) + n"
          "token_remaining (tokens b ! k) - n", OF _ _ _ _ c(3)]
        ok ik c g books_invD(3,4) [OF b, of ?t] by simp
  qed
qed

lemma shrink_to_cases:
  assumes "shrink_to_mapped_capacity l m k n = (l', m', k', r)"
    and rem: "token_remaining k \<le> mapped_growth_reserved l (token_tier k)"
    and q: "q = min n (lease_bytes m)"
  shows "l' = l \<and> m' = m \<and> k' = k \<and> \<not> is_ok r
    \<or> lease_tier m = token_tier k
      \<and> refund_mapped_growth l (token_tier k) q (token_role k) = (l', Inr ())
      \<and> m' = m\<lparr>lease_bytes := lease_bytes m - q\<rparr>
      \<and> k' = k\<lparr>token_remaining := token_remaining k + q\<rparr> \<and> r = Inr q"
proof (cases "lease_tier m \<noteq> token_tier k \<or> lease_accounting m \<noteq> token_ledger k")
  case True
  with assms(1) show ?thesis by (auto simp: shrink_to_mapped_capacity_def)
next
  case False
  obtain l1 r1 where c: "refund_mapped_growth l (token_tier k) q (token_role k) = (l1, r1)"
    by fastforce
  show ?thesis
  proof (cases r1)
    case (Inl e)
    with c have "l1 = l" by (auto dest: refund_err)
    with False assms(1) c Inl q show ?thesis
      by (auto simp: shrink_to_mapped_capacity_def token_refund_def Let_def)
  next
    case (Inr u)
    with c have "mapped_growth_reserved l (token_tier k) + q \<le> u64_max"
      by (simp add: refund_ok_iff)
    with rem have "token_remaining k + q \<le> u64_max" by simp
    with False assms(1) c Inr q show ?thesis
      by (auto simp: shrink_to_mapped_capacity_def token_refund_def Let_def checked_add_u64_def)
  qed
qed

lemma shrink_to_inv: "books_inv b \<Longrightarrow> books_inv (books_step b (OpShrinkTo i k n))"
proof (cases "i < length (leases b) \<and> k < length (tokens b)")
  case False
  assume "books_inv b"
  with False show ?thesis by auto
next
  case ik: True
  assume b: "books_inv b"
  obtain l' m' k' r where g:
    "shrink_to_mapped_capacity (ledger b) (leases b ! i) (tokens b ! k) n = (l', m', k', r)"
    by (metis prod_cases4)
  let ?t = "token_tier (tokens b ! k)" and ?n = "min n (lease_bytes (leases b ! i))"
  have rem: "token_remaining (tokens b ! k) \<le> mapped_growth_reserved (ledger b) ?t"
    using b ik by (simp add: token_remaining_le_pledged)
  show ?thesis
  proof (cases "is_ok r")
    case False
    with shrink_to_cases [OF g rem refl] g ik b show ?thesis by auto
  next
    case True
    from True shrink_to_cases [OF g rem refl]
    have ok: "lease_tier (leases b ! i) = ?t"
      "refund_mapped_growth (ledger b) ?t ?n (token_role (tokens b ! k)) = (l', Inr ())"
      "m' = (leases b ! i)\<lparr>lease_bytes := lease_bytes (leases b ! i) - ?n\<rparr>"
      "k' = (tokens b ! k)\<lparr>token_remaining := token_remaining (tokens b ! k) + ?n\<rparr>"
      by auto
    from ok(2) have c: "?n \<le> used_bytes (ledger b) ?t"
      "mapped_growth_reserved (ledger b) ?t + ?n \<le> u64_max"
      "l' = (ledger b)\<lparr>used_bytes := (used_bytes (ledger b))(?t := used_bytes (ledger b) ?t - ?n),
          mapped_growth_reserved := (mapped_growth_reserved (ledger b))
            (?t := mapped_growth_reserved (ledger b) ?t + ?n)\<rparr>"
      by (simp_all add: refund_ok_iff)
    show ?thesis
      using convert_inv [OF b, of i k ?t l' _ _ "lease_bytes (leases b ! i) - ?n"
          "token_remaining (tokens b ! k) + ?n", OF _ _ _ _ c(3)]
        ok ik c g books_invD(1,2) [OF b, of ?t] by simp
  qed
qed

lemmas step_inv_lemmas =
  reserve_inv record_inv sibling_inv absorb_inv grow_inv shrink_inv drop_inv limit_inv
  reserve_growth_inv token_drop_inv grow_from_inv shrink_to_inv

lemma books_step_inv: "books_inv b \<Longrightarrow> books_inv (books_step b op)"
  by (cases op) (simp_all only: step_inv_lemmas)

section \<open>Reachable books\<close>

inductive books_reachable :: "LeaseLedger \<Rightarrow> books \<Rightarrow> bool" for l where
  start: "books_reachable l (books_init l)"
| step: "books_reachable l b \<Longrightarrow> books_reachable l (books_step b op)"

lemma books_reachable_inv:
  "books_reachable l b \<Longrightarrow> books_inv (books_init l) \<Longrightarrow> books_inv b"
  by (induction rule: books_reachable.induct) (simp_all add: books_step_inv)

lemma books_inv_new: "books_inv (books_init (ledger_new serial dev host disk))"
  by (rule books_inv_init) (simp_all add: ledger_new_def)


definition example_books :: books where
  "example_books =
     foldl books_step (books_init (ledger_new 1 100 50 0))
       [OpReserve Device 40 KvCache 7, OpSibling 0 10, OpReserveGrowth Device 20 KvCache 9,
        OpAbsorb 0 1, OpGrowFrom 0 0 15, OpGrow 0 5, OpShrink 0 8, OpReserve Device 90 Weights 3]"

lemma example_books_reachable: "books_reachable (ledger_new 1 100 50 0) example_books"
  unfolding example_books_def foldl_Cons foldl_Nil
  by (intro books_reachable.step books_reachable.start)

lemmas books_eval =
  books_init_def ledger_new_def add_lease_def reserve_def reserve_sibling_def absorb_sibling_def
  grow_def shrink_def drop_lease_def grow_from_mapped_capacity_def token_consume_def
  ledger_simps checked_add_u64_def sat_add_u64_def u64_max_def remove_nth_def


section \<open>No over-subscription\<close>

text \<open>
  The operations that may push a tier above its limit on purpose: recording bytes that are
  already committed, and lowering a limit without the check of \<open>LeaseLimitGuard\<close>.
\<close>

fun forced_op :: "ledger_op \<Rightarrow> bool" where
  "forced_op (OpRecord t n role holder) = True"
| "forced_op (OpSetLimit t n) = True"
| "forced_op _ = False"

definition within_limits :: "LeaseLedger \<Rightarrow> bool" where
  "within_limits l \<longleftrightarrow> (\<forall>t. used_bytes l t \<le> limits l t)"

lemma claimed_within:
  assumes "sat_add_u64 (used_bytes l t + n) g \<le> limits l t" "used_bytes l t + n \<le> u64_max"
  shows "used_bytes l t + n \<le> limits l t"
  using assms by (auto simp: sat_add_u64_def min_def split: if_splits)

lemma try_claim_within: "try_claim l t n role = (l', r) \<Longrightarrow> within_limits l \<Longrightarrow> within_limits l'"
  by (cases r) (auto simp: within_limits_def try_claim_ok_iff dest: try_claim_err claimed_within)

lemma consume_within:
  "consume_mapped_growth l t n role = (l', r) \<Longrightarrow> within_limits l \<Longrightarrow> within_limits l'"
  by (cases r) (auto simp: within_limits_def consume_ok_iff dest: consume_err claimed_within)

lemma diff_le_trans: "(a :: nat) \<le> b \<Longrightarrow> a - c \<le> b"
  by simp

lemma refund_within:
  "refund_mapped_growth l t n role = (l', r) \<Longrightarrow> within_limits l \<Longrightarrow> within_limits l'"
  by (cases r) (auto simp: within_limits_def refund_ok_iff dest: refund_err intro: diff_le_trans)

lemma release_within: "within_limits l \<Longrightarrow> within_limits (release l t n)"
  by (auto simp: within_limits_def release_def intro: diff_le_trans)

lemma drop_within: "within_limits l \<Longrightarrow> within_limits (drop_lease l m)"
  by (simp add: drop_lease_def release_within)

lemma token_consume_within:
  "token_consume l k n = (l', k', r) \<Longrightarrow> within_limits l \<Longrightarrow> within_limits l'"
  by (auto simp: token_consume_def dest: consume_within split: if_splits prod.splits sum.splits)

lemma token_refund_within:
  "token_refund l k n = (l', k', r) \<Longrightarrow> within_limits l \<Longrightarrow> within_limits l'"
  by (auto simp: token_refund_def dest: refund_within split: option.splits prod.splits sum.splits)

lemma lease_ops_within:
  assumes l: "within_limits l"
  shows "reserve l t n role h = (l', r) \<Longrightarrow> within_limits l'"
    and "reserve_sibling l m n = (l', r) \<Longrightarrow> within_limits l'"
    and "absorb_sibling l m s = (l', m', r') \<Longrightarrow> within_limits l'"
    and "grow l m n = (l', m', r') \<Longrightarrow> within_limits l'"
    and "shrink l m n = (l', m', q) \<Longrightarrow> within_limits l'"
    and "grow_from_mapped_capacity l m k n = (l', m', k', r') \<Longrightarrow> within_limits l'"
    and "shrink_to_mapped_capacity l m k n = (l', m', k', r'') \<Longrightarrow> within_limits l'"
proof -
  show "reserve l t n role h = (l', r) \<Longrightarrow> within_limits l'"
    using l by (auto simp: reserve_def dest: try_claim_within split: prod.splits sum.splits)
  show "reserve_sibling l m n = (l', r) \<Longrightarrow> within_limits l'"
    using l by (auto simp: reserve_sibling_def dest: try_claim_within split: prod.splits sum.splits)
  show "absorb_sibling l m s = (l', m', r') \<Longrightarrow> within_limits l'"
    using l drop_within [OF l] by (auto simp: absorb_sibling_def split: if_splits option.splits)
  show "grow l m n = (l', m', r') \<Longrightarrow> within_limits l'"
    using l by (auto simp: grow_def dest: try_claim_within split: if_splits prod.splits sum.splits)
  show "shrink l m n = (l', m', q) \<Longrightarrow> within_limits l'"
    using l by (auto simp: shrink_def Let_def release_within split: if_splits)
  show "grow_from_mapped_capacity l m k n = (l', m', k', r') \<Longrightarrow> within_limits l'"
    using l by (auto simp: grow_from_mapped_capacity_def dest: token_consume_within
        split: if_splits option.splits prod.splits sum.splits)
  show "shrink_to_mapped_capacity l m k n = (l', m', k', r'') \<Longrightarrow> within_limits l'"
    using l by (auto simp: shrink_to_mapped_capacity_def Let_def dest: token_refund_within
        split: if_splits option.splits prod.splits sum.splits)
qed

lemma add_lease_within: "within_limits (fst r) \<Longrightarrow> within_limits (ledger (add_lease b r))"
  by (auto simp: add_lease_def split: prod.splits sum.splits)

lemma books_step_within:
  assumes l: "within_limits (ledger b)" and op: "\<not> forced_op op"
  shows "within_limits (ledger (books_step b op))"
proof (cases op)
  case (OpReserve t n role h)
  then show ?thesis using lease_ops_within(1) [OF l] by (simp add: add_lease_within prod_eq_iff)
next
  case (OpSibling i n)
  then show ?thesis using l lease_ops_within(2) [OF l] by (simp add: add_lease_within prod_eq_iff)
next
  case (OpTrySetLimit t n)
  then show ?thesis using l by (auto simp: try_set_limit_def set_limit_def within_limits_def)
next
  case (OpReserveGrowth t n role owner)
  then show ?thesis
    using l by (auto simp: reserve_mapped_growth_def within_limits_def split: option.splits)
next
  case (OpTokenDrop k)
  then show ?thesis
    using l by (auto simp: token_release_remaining_def release_mapped_growth_def within_limits_def)
qed (use l op in \<open>auto simp: drop_within dest: lease_ops_within(3-7) [OF l] split: prod.splits\<close>)

text \<open>
  C2. Starting from any ledger whose tiers are within their limits, no sequence of
  reservations, growths, sibling reservations, absorptions, shrinks, drops, guarded limit
  changes and token conversions makes the usage of a tier exceed its limit.
\<close>

theorem ledger_never_oversubscribed:
  assumes "within_limits (ledger b)" and "list_all (\<lambda>op. \<not> forced_op op) ops"
  shows "oversubscribed_bytes (ledger (foldl books_step b ops)) t = 0"
proof -
  have "within_limits (ledger (foldl books_step b ops))"
    using assms by (induction ops arbitrary: b) (simp_all add: books_step_within)
  then show ?thesis by (simp add: oversubscribed_bytes_def within_limits_def)
qed

theorem ledger_never_oversubscribed_witness:
  "oversubscribed_bytes (ledger (foldl books_step (books_init (ledger_new 1 100 0 0))
      [OpReserve Device 60 KvCache 1, OpReserve Device 60 KvCache 2, OpGrow 0 40,
       OpTrySetLimit Device 50])) Device = 0"
  by (rule ledger_never_oversubscribed)
    (simp_all add: within_limits_def books_init_def ledger_new_def)

text \<open>
  A reservation is granted exactly when the tier's free bytes cover it (for a limit
  below \<open>u64::MAX\<close>, the unlimited sentinel), and a refusal leaves the ledger as it was.
\<close>

lemma reserve_grants_exactly_the_free_bytes:
  assumes "limits l t < u64_max" and "used_bytes l t + mapped_growth_reserved l t \<le> limits l t"
  shows "(is_ok (snd (reserve l t bytes role holder)) \<longleftrightarrow> bytes \<le> ledger_available l t)
       \<and> (\<not> is_ok (snd (reserve l t bytes role holder)) \<longrightarrow> fst (reserve l t bytes role holder) = l)"
proof (cases "try_claim l t bytes role")
  case (Pair l' r)
  show ?thesis
  proof (cases r)
    case (Inl e)
    with Pair have l': "l' = l" by (auto dest: try_claim_err)
    have "\<not> bytes \<le> ledger_available l t"
    proof
      assume "bytes \<le> ledger_available l t"
      with assms have "try_claim l t bytes role =
          (l\<lparr>used_bytes := (used_bytes l)(t := used_bytes l t + bytes)\<rparr>, Inr ())"
        by (simp add: try_claim_ok_iff ledger_available_def sat_add_u64_def) linarith
      with Pair Inl show False by simp
    qed
    with Pair Inl l' show ?thesis by (simp add: reserve_def)
  next
    case (Inr u)
    with Pair have "sat_add_u64 (used_bytes l t + bytes) (mapped_growth_reserved l t) \<le> limits l t"
      by (simp add: try_claim_ok_iff)
    with assms have "bytes \<le> ledger_available l t"
      by (auto simp: ledger_available_def sat_add_u64_def)
    with Pair Inr show ?thesis by (simp add: reserve_def)
  qed
qed

end
