(* ===== verification/KvTypes.thy ===== *)
theory KvTypes
  imports LeaseBooks
begin

text \<open>
  The vocabulary of the paged KV cache (crate \<open>onnx-genai-kv\<close>, \<open>lib.rs\<close> and the first part of
  \<open>page_table.rs\<close>): residencies, errors, storage precisions, the per-layer precision policy and
  the tensor geometry of a layer.
\<close>

section \<open>Residency and errors\<close>

datatype KvDevice = Gpu nat | Cpu | DiskDevice

fun is_gpu :: "KvDevice \<Rightarrow> bool" where
  "is_gpu (Gpu i) = True"
| "is_gpu _ = False"

text \<open>
  The variants of \<open>KvError\<close> with their payloads. \<open>StateMigrationFailed\<close> carries the error whose
  text the source stores as its reason. \<open>RustPanic\<close> is not a variant of the enum: it is
  the outcome of an index out of range or a failed assertion, which unwinds like an error.
\<close>

datatype KvError =
    PoolNotLeased MemoryError
  | PoolSizeMismatch nat nat
  | MigrationPressure MemoryError
  | MigrationLeaseInvariant string
  | SequenceNotFound nat
  | OutOfMemory nat nat
  | InvalidPosition nat nat
  | PositionEvicted nat nat
  | RewindBelowSinkNotMaterializable nat nat
  | InvalidWindowSize
  | TensorStorageNotConfigured
  | PageNotHostAddressable nat
  | PageStoreLayoutMismatch
  | PageStoreCopyUnsupported KvDevice KvDevice
  | PageStoreWrongResidency KvDevice KvDevice
  | PageStoreAllocationFailed string
  | StateMigrationFailed nat string string KvDevice KvDevice KvError
  | InvalidTensorShape string
  | UnsupportedKvDType string
  | UnsupportedQuantizationAxis string
  | InvalidKvLayer int nat
  | InvalidQuantizationConfig string
  | PageNotFound nat
  | PagedInvalidBlockSize nat
  | PagedNonContiguousSequence nat nat nat
  | PagedQueryExceedsContext nat nat nat
  | PagedMissingPages nat nat nat
  | PagedBlockIdOverflow nat
  | PagedSlotOverflow int
  | LatentGeometryInvalid string
  | RustPanic string

section \<open>Storage precision\<close>

datatype KvDType = F32 | Int8 | Fp8E4M3Fn | Fp8E5M2

datatype Fp8Format = E4M3Fn | E5M2

text \<open>
  \<open>str::trim\<close> and \<open>to_ascii_lowercase\<close> on ASCII text: the white space of \<open>trim\<close> is the
  ASCII part of Unicode's \<open>White_Space\<close>.
\<close>

definition is_white :: "char \<Rightarrow> bool" where
  "is_white c \<longleftrightarrow> of_char c \<in> {9, 10, 11, 12, 13, 32 :: nat}"

definition trim :: "string \<Rightarrow> string" where
  "trim s = rev (dropWhile is_white (rev (dropWhile is_white s)))"

definition to_ascii_lowercase :: "string \<Rightarrow> string" where
  "to_ascii_lowercase =
     map (\<lambda>c. if 65 \<le> (of_char c :: nat) \<and> (of_char c :: nat) \<le> 90 then char_of (of_char c + 32 :: nat) else c)"

definition from_metadata_name :: "string \<Rightarrow> KvError + KvDType" where
  "from_metadata_name name =
     (let normalized = map (\<lambda>c. if c = CHR ''-'' then CHR ''_'' else c) (to_ascii_lowercase (trim name)) in
      if normalized \<in> {''float32'', ''fp32'', ''float16'', ''fp16'', ''half'', ''bfloat16'', ''bf16''} then Inr F32
      else if normalized = ''int8'' then Inr Int8
      else if normalized \<in> {''float8_e4m3fn'', ''fp8_e4m3fn'', ''float8_e4m3'', ''fp8_e4m3''} then Inr Fp8E4M3Fn
      else if normalized \<in> {''float8_e5m2'', ''fp8_e5m2''} then Inr Fp8E5M2
      else Inl (UnsupportedKvDType name))"

definition fp8_format :: "KvDType \<Rightarrow> Fp8Format option" where
  "fp8_format d =
     (case d of Fp8E4M3Fn \<Rightarrow> Some E4M3Fn | Fp8E5M2 \<Rightarrow> Some E5M2 | F32 \<Rightarrow> None | Int8 \<Rightarrow> None)"

definition is_quantized :: "KvDType \<Rightarrow> bool" where
  "is_quantized d \<longleftrightarrow> d \<noteq> F32"

definition precision_rank :: "KvDType \<Rightarrow> nat" where
  "precision_rank d = (case d of F32 \<Rightarrow> 3 | Fp8E4M3Fn \<Rightarrow> 2 | Fp8E5M2 \<Rightarrow> 2 | Int8 \<Rightarrow> 1)"

datatype KvKind = Key | Value

record LayerKvDType =
  ld_key :: KvDType
  ld_value :: KvDType

text \<open>\<open>KvQuantConfig\<close> is its list of layers.\<close>

type_synonym KvQuantConfig = "LayerKvDType list"

datatype KvQuantAxis = PerToken | PerChannel

record LayerPrecisionRule =
  rule_layers :: "int list"
  min_precision :: KvDType

record KvComponentPolicy =
  cp_default :: "KvDType option"
  per_layer :: "LayerPrecisionRule list"

record KvQuantPolicy =
  qp_key :: KvComponentPolicy
  qp_value :: KvComponentPolicy
  high_precision_layers :: "int list"
  quantization_axis :: KvQuantAxis

definition homogeneous :: "KvDType \<Rightarrow> nat \<Rightarrow> KvQuantConfig" where
  "homogeneous d n = replicate n \<lparr>ld_key = d, ld_value = d\<rparr>"

definition quant_dtype :: "KvQuantConfig \<Rightarrow> nat \<Rightarrow> KvKind \<Rightarrow> KvDType" where
  "quant_dtype cfg layer kind =
     (case kind of Key \<Rightarrow> ld_key (cfg ! layer) | Value \<Rightarrow> ld_value (cfg ! layer))"

definition validate_axis :: "KvQuantPolicy \<Rightarrow> KvError + unit" where
  "validate_axis p =
     (case quantization_axis p of
        PerToken \<Rightarrow> Inr ()
      | PerChannel \<Rightarrow> Inl (UnsupportedQuantizationAxis ''per_channel''))"

text \<open>
  A negative index counts from the end. \<open>i64::try_from(num_layers)\<close> saturates at
  \<open>i64::MAX\<close>, which no layer count reaches in practice; the model keeps the clamp.
\<close>

definition clamp_i64 :: "nat \<Rightarrow> int" where
  "clamp_i64 n = min (int n) (2 ^ 63 - 1)"

definition resolve_layer_index :: "int \<Rightarrow> nat \<Rightarrow> KvError + nat" where
  "resolve_layer_index layer num_layers =
     (let resolved = (if layer < 0 then clamp_i64 num_layers + layer else layer) in
      if resolved < 0 \<or> resolved \<ge> clamp_i64 num_layers
      then Inl (InvalidKvLayer layer num_layers) else Inr (nat resolved))"

definition get_slot :: "KvKind \<Rightarrow> LayerKvDType \<Rightarrow> KvDType" where
  "get_slot kind l = (case kind of Key \<Rightarrow> ld_key l | Value \<Rightarrow> ld_value l)"

definition put_slot :: "KvKind \<Rightarrow> KvDType \<Rightarrow> LayerKvDType \<Rightarrow> LayerKvDType" where
  "put_slot kind d l = (case kind of Key \<Rightarrow> l\<lparr>ld_key := d\<rparr> | Value \<Rightarrow> l\<lparr>ld_value := d\<rparr>)"

fun apply_layer_override ::
  "KvQuantConfig \<Rightarrow> KvDType \<Rightarrow> int list \<Rightarrow> nat \<Rightarrow> KvKind \<Rightarrow> KvError + KvQuantConfig" where
  "apply_layer_override layers d [] num_layers kind = Inr layers"
| "apply_layer_override layers d (i # is) num_layers kind =
     (case resolve_layer_index i num_layers of
        Inl e \<Rightarrow> Inl e
      | Inr layer \<Rightarrow>
          apply_layer_override
            (if precision_rank d \<ge> precision_rank (get_slot kind (layers ! layer))
             then layers[layer := put_slot kind d (layers ! layer)] else layers)
            d is num_layers kind)"

fun apply_layer_overrides ::
  "KvQuantConfig \<Rightarrow> LayerPrecisionRule list \<Rightarrow> nat \<Rightarrow> KvKind \<Rightarrow> KvError + KvQuantConfig" where
  "apply_layer_overrides layers [] num_layers kind = Inr layers"
| "apply_layer_overrides layers (r # rs) num_layers kind =
     res_bind (apply_layer_override layers (min_precision r) (rule_layers r) num_layers kind)
       (\<lambda>layers'. apply_layer_overrides layers' rs num_layers kind)"

fun pin_layers :: "KvQuantConfig \<Rightarrow> int list \<Rightarrow> nat \<Rightarrow> KvError + KvQuantConfig" where
  "pin_layers layers [] num_layers = Inr layers"
| "pin_layers layers (i # is) num_layers =
     (case resolve_layer_index i num_layers of
        Inl e \<Rightarrow> Inl e
      | Inr layer \<Rightarrow> pin_layers (layers[layer := \<lparr>ld_key = F32, ld_value = F32\<rparr>]) is num_layers)"

definition from_policy :: "KvQuantPolicy \<Rightarrow> KvDType \<Rightarrow> nat \<Rightarrow> KvError + KvQuantConfig" where
  "from_policy p native n =
     res_bind (validate_axis p) (\<lambda>_.
     res_bind (apply_layer_overrides
        (replicate n \<lparr>ld_key = (case cp_default (qp_key p) of None \<Rightarrow> native | Some d \<Rightarrow> d),
                      ld_value = (case cp_default (qp_value p) of None \<Rightarrow> native | Some d \<Rightarrow> d)\<rparr>)
        (per_layer (qp_key p)) n Key) (\<lambda>layers.
     res_bind (apply_layer_overrides layers (per_layer (qp_value p)) n Value) (\<lambda>layers'.
     pin_layers layers' (high_precision_layers p) n)))"

section \<open>Tensor geometry\<close>

record LayerTensorConfig =
  num_kv_heads :: nat
  head_dim :: nat

definition f32_len_per_token :: "LayerTensorConfig \<Rightarrow> nat" where
  "f32_len_per_token g = num_kv_heads g * head_dim g"

definition layer_validate :: "LayerTensorConfig \<Rightarrow> bool" where
  "layer_validate g \<longleftrightarrow> num_kv_heads g > 0 \<and> head_dim g > 0"

record PageTensorConfig =
  tc_num_layers :: nat
  tc_num_kv_heads :: nat
  tc_head_dim :: nat
  tc_page_size :: nat
  tc_dtype :: KvDType

definition tensor_validate :: "PageTensorConfig \<Rightarrow> bool" where
  "tensor_validate c \<longleftrightarrow>
     tc_num_layers c > 0 \<and> tc_num_kv_heads c > 0 \<and> tc_head_dim c > 0 \<and> tc_page_size c > 0"

definition f32_len_per_page :: "PageTensorConfig \<Rightarrow> nat" where
  "f32_len_per_page c =
     tc_num_layers c * 2 * tc_num_kv_heads c * tc_page_size c * tc_head_dim c"

definition to_layer_configs :: "PageTensorConfig \<Rightarrow> LayerTensorConfig list" where
  "to_layer_configs c =
     replicate (tc_num_layers c) \<lparr>num_kv_heads = tc_num_kv_heads c, head_dim = tc_head_dim c\<rparr>"

section \<open>The precision policy\<close>

lemma resolve_layer_index_bound: "resolve_layer_index i n = Inr k \<Longrightarrow> k < n"
  by (auto simp: resolve_layer_index_def clamp_i64_def Let_def split: if_splits)

lemma apply_layer_override_length:
  "apply_layer_override ls d is n kind = Inr ls' \<Longrightarrow> length ls' = length ls"
  by (induction ls d "is" n kind rule: apply_layer_override.induct) (auto split: sum.splits if_splits)

lemma apply_layer_overrides_length:
  "apply_layer_overrides ls rs n kind = Inr ls' \<Longrightarrow> length ls' = length ls"
  by (induction ls rs n kind rule: apply_layer_overrides.induct)
    (auto dest: apply_layer_override_length)

lemma pin_layers_length: "pin_layers ls is n = Inr ls' \<Longrightarrow> length ls' = length ls"
  by (induction ls "is" n rule: pin_layers.induct) (auto split: sum.splits)

lemma get_put_slot [simp]:
  "get_slot k (put_slot k d l) = d"
  "k \<noteq> k' \<Longrightarrow> get_slot k' (put_slot k d l) = get_slot k' l"
  by (cases k; cases k'; simp add: get_slot_def put_slot_def)+

text \<open>An override only raises precision, on the component it names.\<close>

lemma apply_layer_override_mono:
  assumes "apply_layer_override ls d is n kind = Inr ls'" and "length ls = n"
  shows "(\<forall>j < n. precision_rank (get_slot kind (ls ! j)) \<le> precision_rank (get_slot kind (ls' ! j))
            \<and> (\<forall>k'. k' \<noteq> kind \<longrightarrow> get_slot k' (ls' ! j) = get_slot k' (ls ! j)))
       \<and> (\<forall>i j. i \<in> set is \<longrightarrow> resolve_layer_index i n = Inr j \<longrightarrow>
            precision_rank d \<le> precision_rank (get_slot kind (ls' ! j)))"
  using assms
proof (induction ls d "is" n kind rule: apply_layer_override.induct)
  case (1 ls d n kind)
  then show ?case by simp
next
  case (2 ls d i "is" n kind)
  then obtain l where l: "resolve_layer_index i n = Inr l"
    by (auto split: sum.splits)
  let ?ls = "if precision_rank d \<ge> precision_rank (get_slot kind (ls ! l))
             then ls[l := put_slot kind d (ls ! l)] else ls"
  have "l < n" using l by (rule resolve_layer_index_bound)
  have rec: "apply_layer_override ?ls d is n kind = Inr ls'" using "2.prems"(1) l by simp
  have len: "length ?ls = n" using "2.prems"(2) by simp
  note IH = "2.IH" [OF l rec len]
  have mono: "precision_rank (get_slot kind (ls ! j)) \<le> precision_rank (get_slot kind (?ls ! j))
     \<and> (\<forall>k'. k' \<noteq> kind \<longrightarrow> get_slot k' (?ls ! j) = get_slot k' (ls ! j))" if "j < n" for j
    using that \<open>length ls = n\<close> \<open>l < n\<close> by (cases "j = l") auto
  have "precision_rank d \<le> precision_rank (get_slot kind (?ls ! l))"
    using \<open>l < n\<close> \<open>length ls = n\<close> by auto
  with IH \<open>l < n\<close> l have head: "precision_rank d \<le> precision_rank (get_slot kind (ls' ! l))"
    by (meson le_trans)
  show ?case using IH mono head l by (fastforce intro: le_trans)
qed

lemma nth_update_same: "j < length xs \<Longrightarrow> xs ! j = v \<Longrightarrow> xs[i := v] ! j = v"
  by (cases "i = j") simp_all

lemma pin_layers_keeps:
  "pin_layers ls is n = Inr ls' \<Longrightarrow> ls ! j = \<lparr>ld_key = F32, ld_value = F32\<rparr> \<Longrightarrow>
   j < length ls \<Longrightarrow> ls' ! j = \<lparr>ld_key = F32, ld_value = F32\<rparr>"
  by (induction ls "is" n rule: pin_layers.induct) (auto simp: nth_update_same split: sum.splits)

lemma pin_layers_pins:
  "pin_layers ls is n = Inr ls' \<Longrightarrow> length ls = n \<Longrightarrow> i \<in> set is \<Longrightarrow>
   \<exists>j < n. resolve_layer_index i n = Inr j \<and> ls' ! j = \<lparr>ld_key = F32, ld_value = F32\<rparr>"
proof (induction ls "is" n rule: pin_layers.induct)
  case (1 ls n)
  then show ?case by simp
next
  case (2 ls i' "is" n)
  from "2.prems"(1) obtain l where l: "resolve_layer_index i' n = Inr l"
    and rec: "pin_layers (ls[l := \<lparr>ld_key = F32, ld_value = F32\<rparr>]) is n = Inr ls'"
    by (auto split: sum.splits)
  have "l < n" using l by (rule resolve_layer_index_bound)
  show ?case
  proof (cases "i = i'")
    case True
    have "ls' ! l = \<lparr>ld_key = F32, ld_value = F32\<rparr>"
      using rec \<open>l < n\<close> "2.prems"(2) by (auto dest: pin_layers_keeps [where j = l])
    with True l \<open>l < n\<close> show ?thesis by blast
  next
    case False
    with "2.prems" have "i \<in> set is" by simp
    with "2.IH" [OF l rec] "2.prems"(2) show ?thesis by simp
  qed
qed

text \<open>
  A precision policy either is refused or yields one entry per layer in which every
  layer named in \<open>high_precision_layers\<close> (negative indices counted from the end) keeps both
  components in f32, whatever the component defaults and per-layer rules say.
\<close>

lemma from_policy_pins_high_precision_layers:
  assumes "from_policy p native n = Inr cfg"
  shows "length cfg = n
    \<and> (\<forall>i \<in> set (high_precision_layers p).
         \<exists>j < n. resolve_layer_index i n = Inr j
               \<and> quant_dtype cfg j Key = F32 \<and> quant_dtype cfg j Value = F32)"
proof -
  from assms obtain ls where len: "length ls = n"
    and pin: "pin_layers ls (high_precision_layers p) n = Inr cfg"
    by (auto simp: from_policy_def dest!: apply_layer_overrides_length)
  show ?thesis
    using pin_layers_length [OF pin] pin_layers_pins [OF pin len] len
    by (fastforce simp: quant_dtype_def)
qed

end
