(* ===== verification/PageStore.thy ===== *)
theory PageStore
  imports KvTypes
begin

text \<open>
  The physical storage of one KV page (\<open>page_table.rs\<close>: \<open>PageStoreLayout\<close>, \<open>HostPageStore\<close>,
  \<open>HostPageStoreFactory\<close>, \<open>Page\<close>). A page keeps four flat buffers (f32 data, int8 data, fp8
  bytes, scales); \<open>Page::new\<close> computes where each component (layer, key or value) starts in
  the buffer of its precision.

  Floating-point arithmetic is a parameter, the record \<open>f32_ops\<close>, over an arbitrary
  scalar type: the theorems hold for every arithmetic, because storage only moves
  scalars, and a quantised slot returns what the arithmetic makes of its own scalars.
\<close>

section \<open>Scalars\<close>

record 'f f32_ops =
  f_zero :: 'f
  f_one :: 'f
  f_127 :: 'f
  f_is_finite :: "'f \<Rightarrow> bool"
  f_is_zero :: "'f \<Rightarrow> bool"
  f_abs :: "'f \<Rightarrow> 'f"
  f_max :: "'f \<Rightarrow> 'f \<Rightarrow> 'f"
  f_div :: "'f \<Rightarrow> 'f \<Rightarrow> 'f"
  f_mul :: "'f \<Rightarrow> 'f \<Rightarrow> 'f"
  f_round_clamp_i8 :: "'f \<Rightarrow> int"
  f_of_i8 :: "int \<Rightarrow> 'f"
  f_max_finite :: "Fp8Format \<Rightarrow> 'f"
  f_encode_fp8 :: "'f \<Rightarrow> Fp8Format \<Rightarrow> nat"
  f_decode_fp8 :: "nat \<Rightarrow> Fp8Format \<Rightarrow> 'f"

definition quant_scale :: "'f f32_ops \<Rightarrow> 'f list \<Rightarrow> 'f \<Rightarrow> 'f" where
  "quant_scale F values denominator =
     (let max_abs = foldl (\<lambda>acc v. f_max F acc (f_abs F v)) (f_zero F)
                      (filter (f_is_finite F) values) in
      if f_is_zero F max_abs then f_one F else f_div F max_abs denominator)"

section \<open>Host page stores\<close>

record PageStoreLayout =
  f32_len :: nat
  int8_len :: nat
  fp8_len :: nat
  scale_len :: nat

definition host_allocated_bytes :: "PageStoreLayout \<Rightarrow> nat" where
  "host_allocated_bytes s = (f32_len s + scale_len s) * 4 + int8_len s + fp8_len s"

record 'f HostPageStore =
  hs_residency :: KvDevice
  hs_data :: "'f list"
  hs_quantized_data :: "int list"
  hs_fp8_data :: "nat list"
  hs_quant_scales :: "'f list"

definition host_store_new :: "'f f32_ops \<Rightarrow> KvDevice \<Rightarrow> PageStoreLayout \<Rightarrow> 'f HostPageStore" where
  "host_store_new F dev s =
     \<lparr>hs_residency = dev, hs_data = replicate (f32_len s) (f_zero F),
      hs_quantized_data = replicate (int8_len s) 0, hs_fp8_data = replicate (fp8_len s) 0,
      hs_quant_scales = replicate (scale_len s) (f_one F)\<rparr>"

definition store_allocated_bytes :: "'f HostPageStore \<Rightarrow> nat" where
  "store_allocated_bytes h =
     length (hs_data h) * 4 + length (hs_quantized_data h) + length (hs_fp8_data h)
     + length (hs_quant_scales h) * 4"

definition store_reset :: "'f f32_ops \<Rightarrow> 'f HostPageStore \<Rightarrow> 'f HostPageStore" where
  "store_reset F h =
     h\<lparr>hs_data := replicate (length (hs_data h)) (f_zero F),
       hs_quantized_data := replicate (length (hs_quantized_data h)) 0,
       hs_fp8_data := replicate (length (hs_fp8_data h)) 0,
       hs_quant_scales := replicate (length (hs_quant_scales h)) (f_one F)\<rparr>"

definition same_layout :: "'f HostPageStore \<Rightarrow> 'f HostPageStore \<Rightarrow> bool" where
  "same_layout a b \<longleftrightarrow>
     length (hs_data a) = length (hs_data b)
     \<and> length (hs_quantized_data a) = length (hs_quantized_data b)
     \<and> length (hs_fp8_data a) = length (hs_fp8_data b)
     \<and> length (hs_quant_scales a) = length (hs_quant_scales b)"

text \<open>\<open>target.copy_from_host(source)\<close>: the payload is copied, the residency is not.\<close>

definition copy_from_host :: "'f HostPageStore \<Rightarrow> 'f HostPageStore \<Rightarrow> KvError + 'f HostPageStore" where
  "copy_from_host target source =
     (if \<not> same_layout target source then Inl PageStoreLayoutMismatch
      else Inr (target\<lparr>hs_data := hs_data source, hs_quantized_data := hs_quantized_data source,
                       hs_fp8_data := hs_fp8_data source, hs_quant_scales := hs_quant_scales source\<rparr>))"

definition copy_to :: "'f HostPageStore \<Rightarrow> 'f HostPageStore \<Rightarrow> KvError + ('f HostPageStore \<times> nat)" where
  "copy_to source target =
     res_bind (copy_from_host target source) (\<lambda>t. Inr (t, store_allocated_bytes source))"

text \<open>
  A \<open>KvPageStoreFactory\<close> is a parameter of migration: any object with these four
  operations. \<open>HostPageStoreFactory\<close> is the one of this crate.
\<close>

record 'f StoreFactory =
  backend_name :: string
  validate_target :: "KvDevice \<Rightarrow> PageStoreLayout \<Rightarrow> KvError + unit"
  allocation_bytes :: "KvDevice \<Rightarrow> PageStoreLayout \<Rightarrow> nat"
  create_store :: "KvDevice \<Rightarrow> PageStoreLayout \<Rightarrow> KvError + 'f HostPageStore"

definition host_factory :: "'f f32_ops \<Rightarrow> 'f StoreFactory" where
  "host_factory F =
     \<lparr>backend_name = ''host-page-store'',
      validate_target = (\<lambda>dev _. if dev = DiskDevice
        then Inl (PageStoreAllocationFailed ''host-page-store has no disk page representation'')
        else Inr ()),
      allocation_bytes = (\<lambda>_ s. host_allocated_bytes s),
      create_store = (\<lambda>dev s. Inr (host_store_new F dev s))\<rparr>"

section \<open>Pages\<close>

record ComponentStorage =
  cs_dtype :: KvDType
  data_offset :: nat
  quantized_offset :: nat
  fp8_offset :: nat
  scale_offset :: nat

record 'f Page =
  page_id :: nat
  ref_count :: nat
  filled :: nat
  last_access :: nat
  page_store :: "'f HostPageStore"
  store_layout :: PageStoreLayout
  storage_layout :: "ComponentStorage list"

text \<open>The body of the loop of \<open>Page::new\<close>: one component appended to the layout.\<close>

definition push_component ::
  "KvDType \<Rightarrow> nat \<Rightarrow> nat \<Rightarrow> PageStoreLayout \<times> ComponentStorage list \<Rightarrow>
     PageStoreLayout \<times> ComponentStorage list" where
  "push_component d component_len scale_slots acc =
     (let (s, cs) = acc;
          c = \<lparr>cs_dtype = d, data_offset = f32_len s, quantized_offset = int8_len s,
               fp8_offset = fp8_len s, scale_offset = scale_len s\<rparr>;
          s' = (case d of
                  F32 \<Rightarrow> s\<lparr>f32_len := f32_len s + component_len\<rparr>
                | Int8 \<Rightarrow> s\<lparr>int8_len := int8_len s + component_len, scale_len := scale_len s + scale_slots\<rparr>
                | Fp8E4M3Fn \<Rightarrow> s\<lparr>fp8_len := fp8_len s + component_len, scale_len := scale_len s + scale_slots\<rparr>
                | Fp8E5M2 \<Rightarrow> s\<lparr>fp8_len := fp8_len s + component_len, scale_len := scale_len s + scale_slots\<rparr>)
      in (s', cs @ [c]))"

text \<open>The components in the order of the loop: per layer, the key and then the value.\<close>

definition component_list ::
  "nat \<Rightarrow> LayerTensorConfig list \<Rightarrow> KvQuantConfig \<Rightarrow> (KvDType \<times> nat \<times> nat) list" where
  "component_list page_size gs q =
     concat (map (\<lambda>(layer, g).
       map (\<lambda>kind. (quant_dtype q layer kind, num_kv_heads g * page_size * head_dim g,
                    num_kv_heads g * page_size)) [Key, Value]) (enumerate 0 gs))"

definition empty_layout :: PageStoreLayout where
  "empty_layout = \<lparr>f32_len = 0, int8_len = 0, fp8_len = 0, scale_len = 0\<rparr>"

definition layout_of :: "(KvDType \<times> nat \<times> nat) list \<Rightarrow> PageStoreLayout \<times> ComponentStorage list" where
  "layout_of comps = foldl (\<lambda>acc (d, n, sc). push_component d n sc acc) (empty_layout, []) comps"

definition page_new ::
  "'f f32_ops \<Rightarrow> nat \<Rightarrow> KvDevice \<Rightarrow> nat \<Rightarrow> LayerTensorConfig list \<Rightarrow> KvQuantConfig option \<Rightarrow> 'f Page" where
  "page_new F i dev page_size gs q =
     (let (s, cs) = layout_of (case q of
            Some cfg \<Rightarrow> if gs \<noteq> [] then component_list page_size gs cfg else []
          | None \<Rightarrow> [])
      in \<lparr>page_id = i, ref_count = 0, filled = 0, last_access = 0,
          page_store = host_store_new F dev s, store_layout = s, storage_layout = cs\<rparr>)"

definition residency :: "'f Page \<Rightarrow> KvDevice" where
  "residency p = hs_residency (page_store p)"

definition page_allocated_bytes :: "'f Page \<Rightarrow> nat" where
  "page_allocated_bytes p = store_allocated_bytes (page_store p)"

definition reset_storage :: "'f f32_ops \<Rightarrow> 'f Page \<Rightarrow> 'f Page" where
  "reset_storage F p = p\<lparr>filled := 0, page_store := store_reset F (page_store p)\<rparr>"

definition copy_physical_store_from ::
  "'f Page \<Rightarrow> 'f HostPageStore \<Rightarrow> KvError + ('f Page \<times> nat)" where
  "copy_physical_store_from p source =
     res_bind (copy_to source (page_store p)) (\<lambda>(h, n). Inr (p\<lparr>page_store := h\<rparr>, n))"

definition dtype_name :: "KvDType \<Rightarrow> string" where
  "dtype_name d = (case d of F32 \<Rightarrow> ''f32'' | Int8 \<Rightarrow> ''int8''
     | Fp8E4M3Fn \<Rightarrow> ''fp8-e4m3fn'' | Fp8E5M2 \<Rightarrow> ''fp8-e5m2'')"

fun join_comma :: "string list \<Rightarrow> string" where
  "join_comma [] = ''''"
| "join_comma [x] = x"
| "join_comma (x # y # xs) = x @ '','' @ join_comma (y # xs)"

definition storage_type_summary :: "'f Page \<Rightarrow> string" where
  "storage_type_summary p =
     (let types = foldl (\<lambda>ts c. if dtype_name (cs_dtype c) \<in> set ts then ts
                                else ts @ [dtype_name (cs_dtype c)]) [] (storage_layout p) in
      if types = [] then ''bookkeeping-only'' else join_comma types)"

record PageMigration =
  mig_from :: KvDevice
  mig_to :: KvDevice
  bytes_copied :: nat

text \<open>
  \<open>Page::migrate\<close>: every error leaves the page as it was; the store is replaced only
  after the copy succeeded.
\<close>

definition migrate :: "'f StoreFactory \<Rightarrow> 'f Page \<Rightarrow> KvDevice \<Rightarrow> KvError + ('f Page \<times> PageMigration)" where
  "migrate fac p target =
     (let from = residency p;
          err = (\<lambda>e. StateMigrationFailed (page_id p) (storage_type_summary p) (backend_name fac) from target e) in
      if from = target then Inr (p, \<lparr>mig_from = from, mig_to = target, bytes_copied = 0\<rparr>)
      else case validate_target fac target (store_layout p) of
        Inl e \<Rightarrow> Inl (err e)
      | Inr _ \<Rightarrow> (case create_store fac target (store_layout p) of
          Inl e \<Rightarrow> Inl (err e)
        | Inr replacement \<Rightarrow>
            if hs_residency replacement \<noteq> target
            then Inl (err (PageStoreWrongResidency target (hs_residency replacement)))
            else (case copy_to (page_store p) replacement of
                Inl e \<Rightarrow> Inl (err e)
              | Inr (h, n) \<Rightarrow>
                  Inr (p\<lparr>page_store := h\<rparr>, \<lparr>mig_from = from, mig_to = target, bytes_copied = n\<rparr>))))"

subsection \<open>Reading and writing slots\<close>

text \<open>Slice indexing: out of range panics.\<close>

definition index_or_panic :: "'a list \<Rightarrow> nat \<Rightarrow> KvError + 'a" where
  "index_or_panic xs i =
     (if i < length xs then Inr (xs ! i) else Inl (RustPanic ''index out of bounds''))"

definition write_slice :: "'a list \<Rightarrow> nat \<Rightarrow> 'a list \<Rightarrow> 'a list" where
  "write_slice xs off vs = take off xs @ vs @ drop (off + length vs) xs"

definition value_at_slot ::
  "'f f32_ops \<Rightarrow> 'f Page \<Rightarrow> nat \<Rightarrow> nat \<Rightarrow> nat \<Rightarrow> nat \<Rightarrow> nat \<Rightarrow> nat \<Rightarrow> KvError + 'f" where
  "value_at_slot F p page_size hdim component head token_offset dim =
     res_bind (index_or_panic (storage_layout p) component) (\<lambda>storage.
     let h = page_store p;
         head_len = page_size * hdim;
         within = head * head_len + token_offset * hdim + dim;
         scale_at = scale_offset storage + head * page_size + token_offset in
     case cs_dtype storage of
       F32 \<Rightarrow> index_or_panic (hs_data h) (data_offset storage + within)
     | Int8 \<Rightarrow>
         res_bind (index_or_panic (hs_quant_scales h) scale_at) (\<lambda>scale.
         res_bind (index_or_panic (hs_quantized_data h) (quantized_offset storage + within)) (\<lambda>q.
         Inr (f_mul F (f_of_i8 F q) scale)))
     | _ \<Rightarrow>
         res_bind (index_or_panic (hs_quant_scales h) scale_at) (\<lambda>scale.
         res_bind (index_or_panic (hs_fp8_data h) (fp8_offset storage + within)) (\<lambda>b.
         res_bind (ok_or (fp8_format (cs_dtype storage)) (RustPanic ''fp8 dtype'')) (\<lambda>fmt.
         Inr (f_mul F (f_decode_fp8 F b fmt) scale)))))"

text \<open>
  The quantised writes go through \<open>zip\<close>, so a row shorter than \<open>head_dim\<close> writes its own
  length; the f32 write is \<open>copy_from_slice\<close>, which panics on a length mismatch.
\<close>

definition write_head_token ::
  "'f f32_ops \<Rightarrow> 'f Page \<Rightarrow> nat \<Rightarrow> nat \<Rightarrow> nat \<Rightarrow> nat \<Rightarrow> nat \<Rightarrow> 'f list \<Rightarrow> KvError + 'f Page" where
  "write_head_token F p page_size hdim component head token_offset values =
     res_bind (index_or_panic (storage_layout p) component) (\<lambda>storage.
     let h = page_store p;
         head_len = page_size * hdim;
         within = head * head_len + token_offset * hdim;
         scale_at = scale_offset storage + head * page_size + token_offset;
         row = take hdim values in
     case cs_dtype storage of
       F32 \<Rightarrow>
         (let offset = data_offset storage + within in
          if offset + hdim > length (hs_data h) \<or> length values \<noteq> hdim
          then Inl (RustPanic ''slice out of range'')
          else Inr (p\<lparr>page_store := h\<lparr>hs_data := write_slice (hs_data h) offset values\<rparr>\<rparr>))
     | Int8 \<Rightarrow>
         (let scale = quant_scale F values (f_127 F);
              offset = quantized_offset storage + within in
          if scale_at \<ge> length (hs_quant_scales h) \<or> offset + hdim > length (hs_quantized_data h)
          then Inl (RustPanic ''slice out of range'')
          else Inr (p\<lparr>page_store := h\<lparr>
                 hs_quant_scales := (hs_quant_scales h)[scale_at := scale],
                 hs_quantized_data := write_slice (hs_quantized_data h) offset
                   (map (\<lambda>v. f_round_clamp_i8 F (f_div F v scale)) row)\<rparr>\<rparr>))
     | _ \<Rightarrow>
         res_bind (ok_or (fp8_format (cs_dtype storage)) (RustPanic ''fp8 dtype'')) (\<lambda>fmt.
          let scale = quant_scale F values (f_max_finite F fmt);
              offset = fp8_offset storage + within in
          if scale_at \<ge> length (hs_quant_scales h) \<or> offset + hdim > length (hs_fp8_data h)
          then Inl (RustPanic ''slice out of range'')
          else Inr (p\<lparr>page_store := h\<lparr>
                 hs_quant_scales := (hs_quant_scales h)[scale_at := scale],
                 hs_fp8_data := write_slice (hs_fp8_data h) offset
                   (map (\<lambda>v. f_encode_fp8 F (f_div F v scale) fmt) row)\<rparr>\<rparr>)))"

text \<open>Panics are \<open>None\<close> of the outer option; the inner one is the source's.\<close>

definition head_token_f32 ::
  "'f Page \<Rightarrow> nat \<Rightarrow> nat \<Rightarrow> nat \<Rightarrow> nat \<Rightarrow> nat \<Rightarrow> KvError + 'f list option" where
  "head_token_f32 p page_size hdim component head token_offset =
     res_bind (index_or_panic (storage_layout p) component) (\<lambda>storage.
     if cs_dtype storage \<noteq> F32 then Inr None
     else let offset = data_offset storage + (head * (page_size * hdim) + token_offset * hdim) in
       if offset + hdim > length (hs_data (page_store p))
       then Inl (RustPanic ''slice out of range'')
       else Inr (Some (take hdim (drop offset (hs_data (page_store p))))))"

definition has_quantized_storage :: "'f Page \<Rightarrow> bool" where
  "has_quantized_storage p \<longleftrightarrow> (\<exists>c \<in> set (storage_layout p). is_quantized (cs_dtype c))"

section \<open>The layout\<close>

text \<open>How much of each buffer a list of components takes.\<close>

definition f32_total :: "(KvDType \<times> nat \<times> nat) list \<Rightarrow> nat" where
  "f32_total = weight (\<lambda>(d, n, sc). if d = F32 then n else 0)"

definition int8_total :: "(KvDType \<times> nat \<times> nat) list \<Rightarrow> nat" where
  "int8_total = weight (\<lambda>(d, n, sc). if d = Int8 then n else 0)"

definition fp8_total :: "(KvDType \<times> nat \<times> nat) list \<Rightarrow> nat" where
  "fp8_total = weight (\<lambda>(d, n, sc). if d = Fp8E4M3Fn \<or> d = Fp8E5M2 then n else 0)"

definition scale_total :: "(KvDType \<times> nat \<times> nat) list \<Rightarrow> nat" where
  "scale_total = weight (\<lambda>(d, n, sc). if d = F32 then 0 else sc)"

definition component_at :: "(KvDType \<times> nat \<times> nat) list \<Rightarrow> nat \<Rightarrow> ComponentStorage" where
  "component_at comps i =
     \<lparr>cs_dtype = fst (comps ! i), data_offset = f32_total (take i comps),
      quantized_offset = int8_total (take i comps), fp8_offset = fp8_total (take i comps),
      scale_offset = scale_total (take i comps)\<rparr>"

lemma layout_of_snoc:
  "layout_of (comps @ [(d, n, sc)]) = push_component d n sc (layout_of comps)"
  by (simp add: layout_of_def)

lemma layout_of_closed:
  "layout_of comps =
     (\<lparr>f32_len = f32_total comps, int8_len = int8_total comps,
       fp8_len = fp8_total comps, scale_len = scale_total comps\<rparr>,
      map (component_at comps) [0..<length comps])"
proof (induction comps rule: rev_induct)
  case Nil
  then show ?case
    by (simp add: layout_of_def empty_layout_def f32_total_def int8_total_def fp8_total_def scale_total_def)
next
  case (snoc c comps)
  obtain d n sc where c: "c = (d, n, sc)" by (cases c)
  have "map (component_at (comps @ [c])) [0..<length comps] = map (component_at comps) [0..<length comps]"
    by (auto simp: component_at_def nth_append)
  with snoc c show ?case
    by (cases d) (simp_all add: layout_of_snoc push_component_def component_at_def
        f32_total_def int8_total_def fp8_total_def scale_total_def)
qed

text \<open>\<open>page_shape comps p\<close>: the page has the storage \<open>Page::new\<close> gives these components.\<close>

definition page_shape :: "(KvDType \<times> nat \<times> nat) list \<Rightarrow> 'f Page \<Rightarrow> bool" where
  "page_shape comps p \<longleftrightarrow>
     layout_of comps = (store_layout p, storage_layout p)
     \<and> length (hs_data (page_store p)) = f32_total comps
     \<and> length (hs_quantized_data (page_store p)) = int8_total comps
     \<and> length (hs_fp8_data (page_store p)) = fp8_total comps
     \<and> length (hs_quant_scales (page_store p)) = scale_total comps"

definition page_components :: "nat \<Rightarrow> LayerTensorConfig list \<Rightarrow> KvQuantConfig option \<Rightarrow> (KvDType \<times> nat \<times> nat) list" where
  "page_components page_size gs q =
     (case q of Some cfg \<Rightarrow> if gs \<noteq> [] then component_list page_size gs cfg else [] | None \<Rightarrow> [])"

lemma page_new_shape: "page_shape (page_components ps gs q) (page_new F i dev ps gs q)"
  by (simp add: page_shape_def page_new_def page_components_def [symmetric] layout_of_closed
      host_store_new_def split_beta Let_def)

lemma page_shape_component:
  "page_shape comps p \<Longrightarrow> i < length comps \<Longrightarrow>
     index_or_panic (storage_layout p) i = Inr (component_at comps i)"
proof -
  assume shape: "page_shape comps p" and i: "i < length comps"
  from shape have "storage_layout p = map (component_at comps) [0..<length comps]"
    by (simp add: page_shape_def layout_of_closed)
  with i show ?thesis by (simp add: index_or_panic_def)
qed

lemma page_shape_bytes:
  assumes "page_shape comps p"
  shows "page_allocated_bytes p =
           weight (\<lambda>(d, n, sc). if d = F32 then n * 4 else n + sc * 4) comps"
proof -
  have "(f32_total comps * 4 + int8_total comps + fp8_total comps + scale_total comps * 4) =
      weight (\<lambda>(d, n, sc). if d = F32 then n * 4 else n + sc * 4) comps"
  proof (induction comps)
    case (Cons c comps)
    obtain d n sc where "c = (d, n, sc)" by (cases c)
    with Cons show ?case
      by (cases d) (simp_all add: f32_total_def int8_total_def fp8_total_def scale_total_def)
  qed (simp add: f32_total_def int8_total_def fp8_total_def scale_total_def)
  with assms show ?thesis
    by (simp add: page_shape_def page_allocated_bytes_def store_allocated_bytes_def)
qed

section \<open>Slots do not overlap\<close>

lemma weight_take_step:
  "i < j \<Longrightarrow> j \<le> length xs \<Longrightarrow> weight f (take i xs) + f (xs ! i) \<le> weight f (take j xs)"
proof -
  assume ij: "i < j" "j \<le> length xs"
  have "take j xs = take i xs @ drop i (take j xs)"
    using ij by (metis append_take_drop_id less_imp_le min.absorb1 take_take)
  moreover have "drop i (take j xs) = xs ! i # drop (Suc i) (take j xs)"
    using ij by (subst Cons_nth_drop_Suc [symmetric]) auto
  ultimately have "weight f (take j xs) = weight f (take i xs @ xs ! i # drop (Suc i) (take j xs))"
    by simp
  then show ?thesis by simp
qed

lemma weight_take_total: "i < length xs \<Longrightarrow> weight f (take i xs) + f (xs ! i) \<le> weight f xs"
  using weight_take_step [of i "length xs" xs f] by simp

lemma row_bound: "r < R \<Longrightarrow> x < D \<Longrightarrow> r * D + x < R * (D :: nat)"
proof -
  assume "r < R" "x < D"
  then have "r * D + x < Suc r * D" by simp
  also have "\<dots> \<le> R * D" using \<open>r < R\<close> by (intro mult_le_mono1) simp
  finally show ?thesis .
qed

lemma row_end_bound: "r < R \<Longrightarrow> r * D + D \<le> R * (D :: nat)"
  by (metis Suc_leI add.commute mult_Suc mult_le_mono1)

lemma row_index: "h < H \<Longrightarrow> t < P \<Longrightarrow> h * P + t < H * (P :: nat)"
  by (rule row_bound)

lemma row_index_inj:
  "t < P \<Longrightarrow> t' < P \<Longrightarrow> h * P + t = h' * P + t' \<longleftrightarrow> h = h' \<and> t = (t' :: nat)"
  by (metis div_mult_self3 div_less add.commute add_0 mod_less mod_mult_self3 not_less_zero)

lemma element_index: "h * (P * D) + t * D + x = (h * P + t) * D + (x :: nat)"
  by (simp add: algebra_simps)

text \<open>
  Two rows of one buffer, of different components or of one component, have no element in
  common.
\<close>

lemma rows_disjoint:
  assumes i: "i < length xs" "f (xs ! i) = R * D" "r < R" "x < D"
    and j: "j < length xs" "f (xs ! j) = R' * D'" "r' < R'" "x' < D'"
    and ne: "i \<noteq> j \<or> r \<noteq> r'" and same: "i = j \<Longrightarrow> D = D'"
  shows "weight f (take i xs) + (r * D + x) \<noteq> weight f (take j xs) + (r' * D' + x')"
proof -
  have bi: "r * D + x < f (xs ! i)" and bj: "r' * D' + x' < f (xs ! j)"
    using row_bound [OF i(3,4)] row_bound [OF j(3,4)] i(2) j(2) by simp_all
  consider "i < j" | "j < i" | "i = j" by linarith
  then show ?thesis
  proof cases
    case 1
    then have "weight f (take i xs) + f (xs ! i) \<le> weight f (take j xs)"
      using j(1) by (intro weight_take_step) simp_all
    with bi show ?thesis by linarith
  next
    case 2
    then have "weight f (take j xs) + f (xs ! j) \<le> weight f (take i xs)"
      using i(1) by (intro weight_take_step) simp_all
    with bj show ?thesis by linarith
  next
    case 3
    with ne same have "r \<noteq> r'" "D = D'" by simp_all
    moreover have "(r * D + x) div D = r" "(r' * D + x') div D = r'"
      using i(4) j(4) \<open>D = D'\<close> by simp_all
    ultimately show ?thesis using 3 by force
  qed
qed

lemma length_write_slice [simp]:
  "off + length vs \<le> length xs \<Longrightarrow> length (write_slice xs off vs) = length xs"
  by (simp add: write_slice_def)

lemma nth_write_slice:
  "off + length vs \<le> length xs \<Longrightarrow> k < length xs \<Longrightarrow>
     write_slice xs off vs ! k = (if off \<le> k \<and> k < off + length vs then vs ! (k - off) else xs ! k)"
  by (auto simp: write_slice_def nth_append)

section \<open>Writing a token and reading it back\<close>

definition has_geom ::
  "(KvDType \<times> nat \<times> nat) list \<Rightarrow> nat \<Rightarrow> nat \<Rightarrow> KvDType \<Rightarrow> nat \<Rightarrow> nat \<Rightarrow> bool" where
  "has_geom comps P i d H D \<longleftrightarrow> i < length comps \<and> comps ! i = (d, H * P * D, H * P)"

abbreviation f32_weight :: "KvDType \<times> nat \<times> nat \<Rightarrow> nat" where
  "f32_weight \<equiv> \<lambda>(d, n, sc). if d = F32 then n else 0"
abbreviation int8_weight :: "KvDType \<times> nat \<times> nat \<Rightarrow> nat" where
  "int8_weight \<equiv> \<lambda>(d, n, sc). if d = Int8 then n else 0"
abbreviation fp8_weight :: "KvDType \<times> nat \<times> nat \<Rightarrow> nat" where
  "fp8_weight \<equiv> \<lambda>(d, n, sc). if d = Fp8E4M3Fn \<or> d = Fp8E5M2 then n else 0"
abbreviation scale_weight :: "KvDType \<times> nat \<times> nat \<Rightarrow> nat" where
  "scale_weight \<equiv> \<lambda>(d, n, sc). if d = F32 then 0 else sc"

lemmas totals = f32_total_def int8_total_def fp8_total_def scale_total_def

definition data_index :: "(KvDType \<times> nat \<times> nat \<Rightarrow> nat) \<Rightarrow> (KvDType \<times> nat \<times> nat) list \<Rightarrow>
    nat \<Rightarrow> nat \<Rightarrow> nat \<Rightarrow> nat \<Rightarrow> nat" where
  "data_index f comps i D r x = weight f (take i comps) + (r * D + x)"

definition scale_index :: "(KvDType \<times> nat \<times> nat) list \<Rightarrow> nat \<Rightarrow> nat \<Rightarrow> nat" where
  "scale_index comps i r = weight scale_weight (take i comps) + (r * 1 + 0)"

lemma data_index_bound:
  assumes "i < length comps" "f (comps ! i) = R * D" "r < R" "x < D"
  shows "data_index f comps i D r x < weight f comps"
  using row_bound [OF assms(3,4)] weight_take_total [OF assms(1), of f] assms(2)
  by (simp add: data_index_def)

lemma data_row_bound:
  assumes "i < length comps" "f (comps ! i) = R * D" "r < R"
  shows "data_index f comps i D r 0 + D \<le> weight f comps"
  using row_end_bound [OF assms(3), of D] weight_take_total [OF assms(1), of f] assms(2)
  by (simp add: data_index_def)

lemma scale_index_bound:
  assumes "has_geom comps P i d H D" "d \<noteq> F32" "r < H * P"
  shows "scale_index comps i r < weight scale_weight comps"
  using assms weight_take_total [of i comps scale_weight]
  by (simp add: scale_index_def has_geom_def)

text \<open>What a slot holds, as positions in the four buffers.\<close>

definition slot_value ::
  "'f f32_ops \<Rightarrow> (KvDType \<times> nat \<times> nat) list \<Rightarrow> 'f HostPageStore \<Rightarrow> nat \<Rightarrow> KvDType \<Rightarrow> nat \<Rightarrow> nat \<Rightarrow> nat \<Rightarrow> 'f" where
  "slot_value F comps h i d D r x =
     (case d of
        F32 \<Rightarrow> hs_data h ! data_index f32_weight comps i D r x
      | Int8 \<Rightarrow> f_mul F (f_of_i8 F (hs_quantized_data h ! data_index int8_weight comps i D r x))
                  (hs_quant_scales h ! scale_index comps i r)
      | Fp8E4M3Fn \<Rightarrow> f_mul F (f_decode_fp8 F (hs_fp8_data h ! data_index fp8_weight comps i D r x) E4M3Fn)
                  (hs_quant_scales h ! scale_index comps i r)
      | Fp8E5M2 \<Rightarrow> f_mul F (f_decode_fp8 F (hs_fp8_data h ! data_index fp8_weight comps i D r x) E5M2)
                  (hs_quant_scales h ! scale_index comps i r))"

lemma value_at_slot_shape:
  assumes shape: "page_shape comps p" and g: "has_geom comps P i d H D"
    and ht: "ho < H" "t < P" and x: "x < D"
  shows "value_at_slot F p P D i ho t x = Inr (slot_value F comps (page_store p) i d D (ho * P + t) x)"
proof -
  have i: "i < length comps" and ci: "comps ! i = (d, H * P * D, H * P)"
    using g by (simp_all add: has_geom_def)
  have r: "ho * P + t < H * P" using ht by (rule row_index)
  have el: "off + (ho * (P * D) + t * D + x) = off + ((ho * P + t) * D + x)" for off
    by (simp add: algebra_simps)
  have sc: "off + ho * P + t = off + ((ho * P + t) * 1 + 0)" for off by simp
  have lens: "length (hs_data (page_store p)) = weight f32_weight comps"
    "length (hs_quantized_data (page_store p)) = weight int8_weight comps"
    "length (hs_fp8_data (page_store p)) = weight fp8_weight comps"
    "length (hs_quant_scales (page_store p)) = weight scale_weight comps"
    using shape by (simp_all add: page_shape_def totals)
  have db: "f (comps ! i) = H * P * D \<Longrightarrow> data_index f comps i D (ho * P + t) x < weight f comps" for f
    by (rule data_index_bound [OF i _ r x])
  have sb: "d \<noteq> F32 \<Longrightarrow> scale_index comps i (ho * P + t) < weight scale_weight comps"
    by (rule scale_index_bound [OF g _ r])
  show ?thesis
    using page_shape_component [OF shape i] db [of f32_weight] db [of int8_weight] db [of fp8_weight] sb ci lens
    by (cases d)
      (simp_all add: value_at_slot_def component_at_def slot_value_def index_or_panic_def
        fp8_format_def data_index_def scale_index_def totals el sc Let_def)
qed

definition fp8_of :: "KvDType \<Rightarrow> Fp8Format" where
  "fp8_of d = (if d = Fp8E4M3Fn then E4M3Fn else E5M2)"

definition put_row ::
  "'f f32_ops \<Rightarrow> (KvDType \<times> nat \<times> nat) list \<Rightarrow> 'f HostPageStore \<Rightarrow> nat \<Rightarrow> KvDType \<Rightarrow> nat \<Rightarrow> nat \<Rightarrow>
     'f list \<Rightarrow> 'f HostPageStore" where
  "put_row F comps h i d D r vs =
     (case d of
        F32 \<Rightarrow> h\<lparr>hs_data := write_slice (hs_data h) (data_index f32_weight comps i D r 0) vs\<rparr>
      | Int8 \<Rightarrow> h\<lparr>hs_quant_scales := (hs_quant_scales h)[scale_index comps i r := quant_scale F vs (f_127 F)],
                  hs_quantized_data := write_slice (hs_quantized_data h) (data_index int8_weight comps i D r 0)
                    (map (\<lambda>v. f_round_clamp_i8 F (f_div F v (quant_scale F vs (f_127 F)))) vs)\<rparr>
      | _ \<Rightarrow> h\<lparr>hs_quant_scales :=
                    (hs_quant_scales h)[scale_index comps i r := quant_scale F vs (f_max_finite F (fp8_of d))],
               hs_fp8_data := write_slice (hs_fp8_data h) (data_index fp8_weight comps i D r 0)
                    (map (\<lambda>v. f_encode_fp8 F (f_div F v (quant_scale F vs (f_max_finite F (fp8_of d)))) (fp8_of d)) vs)\<rparr>)"

lemma write_head_token_shape:
  assumes shape: "page_shape comps p" and g: "has_geom comps P i d H D"
    and ht: "ho < H" "t < P" and vs: "length vs = D"
  shows "write_head_token F p P D i ho t vs =
           Inr (p\<lparr>page_store := put_row F comps (page_store p) i d D (ho * P + t) vs\<rparr>)"
proof -
  have i: "i < length comps" and ci: "comps ! i = (d, H * P * D, H * P)"
    using g by (simp_all add: has_geom_def)
  have r: "ho * P + t < H * P" using ht by (rule row_index)
  have el: "off + (ho * (P * D) + t * D) = off + ((ho * P + t) * D + 0)" for off
    by (simp add: algebra_simps)
  have sc: "off + ho * P + t = off + ((ho * P + t) * 1 + 0)" for off by simp
  have lens: "length (hs_data (page_store p)) = weight f32_weight comps"
    "length (hs_quantized_data (page_store p)) = weight int8_weight comps"
    "length (hs_fp8_data (page_store p)) = weight fp8_weight comps"
    "length (hs_quant_scales (page_store p)) = weight scale_weight comps"
    using shape by (simp_all add: page_shape_def totals)
  have db: "f (comps ! i) = H * P * D \<Longrightarrow> data_index f comps i D (ho * P + t) 0 + D \<le> weight f comps" for f
    by (rule data_row_bound [OF i _ r])
  have sb: "d \<noteq> F32 \<Longrightarrow> scale_index comps i (ho * P + t) < weight scale_weight comps"
    by (rule scale_index_bound [OF g _ r])
  show ?thesis
    using page_shape_component [OF shape i] db [of f32_weight] db [of int8_weight] db [of fp8_weight] sb ci lens vs
    by (cases d)
      (simp_all add: write_head_token_def component_at_def put_row_def fp8_of_def
        fp8_format_def data_index_def scale_index_def totals el sc Let_def)
qed

lemma put_row_shape:
  assumes shape: "page_shape comps p" and g: "has_geom comps P i d H D"
    and r: "r < H * P" and vs: "length vs = D"
  shows "page_shape comps (p\<lparr>page_store := put_row F comps (page_store p) i d D r vs\<rparr>)"
proof -
  have i: "i < length comps" and ci: "comps ! i = (d, H * P * D, H * P)"
    using g by (simp_all add: has_geom_def)
  have db: "f (comps ! i) = H * P * D \<Longrightarrow> data_index f comps i D r 0 + D \<le> weight f comps" for f
    by (rule data_row_bound [OF i _ r])
  show ?thesis
    using shape db [of f32_weight] db [of int8_weight] db [of fp8_weight] ci vs
    by (cases d) (simp_all add: page_shape_def put_row_def totals)
qed

text \<open>What a row of scalars reads back as, element by element.\<close>

definition stored_value :: "'f f32_ops \<Rightarrow> KvDType \<Rightarrow> 'f list \<Rightarrow> nat \<Rightarrow> 'f" where
  "stored_value F d vs x =
     (case d of
        F32 \<Rightarrow> vs ! x
      | Int8 \<Rightarrow> (let s = quant_scale F vs (f_127 F) in
                 f_mul F (f_of_i8 F (f_round_clamp_i8 F (f_div F (vs ! x) s))) s)
      | _ \<Rightarrow> (let s = quant_scale F vs (f_max_finite F (fp8_of d)) in
              f_mul F (f_decode_fp8 F (f_encode_fp8 F (f_div F (vs ! x) s) (fp8_of d)) (fp8_of d)) s))"

lemma slot_value_put_same:
  assumes shape: "page_shape comps p" and g: "has_geom comps P i d H D"
    and r: "r < H * P" and vs: "length vs = D" and x: "x < D"
  shows "slot_value F comps (put_row F comps (page_store p) i d D r vs) i d D r x = stored_value F d vs x"
proof -
  have i: "i < length comps" and ci: "comps ! i = (d, H * P * D, H * P)"
    using g by (simp_all add: has_geom_def)
  have db: "f (comps ! i) = H * P * D \<Longrightarrow> data_index f comps i D r 0 + D \<le> weight f comps" for f
    by (rule data_row_bound [OF i _ r])
  have sb: "d \<noteq> F32 \<Longrightarrow> scale_index comps i r < weight scale_weight comps"
    by (rule scale_index_bound [OF g _ r])
  have ix: "data_index f comps i D r x = data_index f comps i D r 0 + x" for f
    by (simp add: data_index_def)
  have ws: "write_slice xs (data_index f comps i D r 0) ys ! data_index f comps i D r x = ys ! x"
    if "f (comps ! i) = H * P * D" "length xs = weight f comps" "length ys = D" for f ys and xs :: "'z list"
    using db [of f] that x by (simp add: nth_write_slice ix)
  show ?thesis
    using shape ci vs x sb
    by (cases d)
      (simp_all add: page_shape_def totals slot_value_def put_row_def stored_value_def ws fp8_of_def Let_def)
qed

lemma slot_value_put_other:
  assumes shape: "page_shape comps p" and g: "has_geom comps P i d H D"
    and r: "r < H * P" and vs: "length vs = D"
    and g': "has_geom comps P j d' H' D'" and r': "r' < H' * P" and x': "x' < D'"
    and ne: "i \<noteq> j \<or> r \<noteq> r'"
    and same: "i = j \<Longrightarrow> D = D'"
  shows "slot_value F comps (put_row F comps (page_store p) i d D r vs) j d' D' r' x'
       = slot_value F comps (page_store p) j d' D' r' x'"
proof -
  have i: "i < length comps" and ci: "comps ! i = (d, H * P * D, H * P)"
    and j: "j < length comps" and cj: "comps ! j = (d', H' * P * D', H' * P)"
    using g g' by (simp_all add: has_geom_def)
  have db: "f (comps ! i) = H * P * D \<Longrightarrow> data_index f comps i D r 0 + D \<le> weight f comps" for f
    by (rule data_row_bound [OF i _ r])
  have dj: "f (comps ! j) = H' * P * D' \<Longrightarrow> data_index f comps j D' r' x' < weight f comps" for f
    by (rule data_index_bound [OF j _ r' x'])
  have ws: "write_slice xs (data_index f comps i D r 0) ys ! data_index f comps j D' r' x'
          = xs ! data_index f comps j D' r' x'"
    if f: "f (comps ! i) = H * P * D" "f (comps ! j) = H' * P * D'"
      and len: "length xs = weight f comps" "length ys = D" for f ys and xs :: "'z list"
  proof -
    have "\<not> (data_index f comps i D r 0 \<le> data_index f comps j D' r' x'
            \<and> data_index f comps j D' r' x' < data_index f comps i D r 0 + D)"
    proof
      assume a: "data_index f comps i D r 0 \<le> data_index f comps j D' r' x'
            \<and> data_index f comps j D' r' x' < data_index f comps i D r 0 + D"
      define x where "x = data_index f comps j D' r' x' - data_index f comps i D r 0"
      have "x < D" and eq: "data_index f comps i D r x = data_index f comps j D' r' x'"
        using a by (auto simp: x_def data_index_def)
      with rows_disjoint [of i comps f "H * P" D r x j "H' * P" D' r' x'] i j f r r' x' ne same show False
        by (auto simp: data_index_def)
    qed
    with db [of f] dj [of f] f len show ?thesis by (auto simp: nth_write_slice)
  qed
  have sc: "(xs[scale_index comps i r := v]) ! scale_index comps j r' = xs ! scale_index comps j r'"
    if "d \<noteq> F32" "d' \<noteq> F32" for v and xs :: "'z list"
  proof -
    have "scale_index comps i r \<noteq> scale_index comps j r'"
      unfolding scale_index_def
      using rows_disjoint [OF i, of scale_weight "H * P" 1 r 0 j "H' * P" 1 r' 0] that ci cj r r' j ne
      by simp
    then show ?thesis by simp
  qed
  show ?thesis
    using shape ci cj vs
    by (cases d; cases d')
      (simp_all add: page_shape_def totals slot_value_def put_row_def ws sc)
qed

text \<open>The component of a layer's key is \<open>2 * layer\<close>, that of its value \<open>2 * layer + 1\<close>.\<close>

definition component_index :: "nat \<Rightarrow> KvKind \<Rightarrow> nat" where
  "component_index layer kind = layer * 2 + (if kind = Key then 0 else 1)"

lemma component_index_inj [simp]:
  "component_index l k = component_index l' k' \<longleftrightarrow> l = l' \<and> k = k'"
  by (cases k; cases k') (auto simp: component_index_def, presburger+)

lemma component_list_nth:
  "i < length gs \<Longrightarrow>
     component_list P gs q ! component_index i kind =
       (quant_dtype q i kind, num_kv_heads (gs ! i) * P * head_dim (gs ! i), num_kv_heads (gs ! i) * P)"
proof -
  have gen: "i < length gs \<Longrightarrow>
     concat (map (\<lambda>(layer, g). map (\<lambda>kind. (quant_dtype q layer kind,
        num_kv_heads g * P * head_dim g, num_kv_heads g * P)) [Key, Value]) (enumerate n gs))
       ! component_index i kind =
     (quant_dtype q (n + i) kind, num_kv_heads (gs ! i) * P * head_dim (gs ! i), num_kv_heads (gs ! i) * P)"
    for n
  proof (induction gs arbitrary: n i)
    case (Cons g gs)
    show ?case
    proof (cases i)
      case 0
      then show ?thesis by (cases kind) (simp_all add: component_index_def)
    next
      case (Suc i')
      with Cons.prems Cons.IH [of i' "Suc n"] show ?thesis
        by (cases kind) (simp_all add: component_index_def)
    qed
  qed simp
  show "i < length gs \<Longrightarrow> ?thesis" using gen [of 0] by (simp add: component_list_def)
qed

lemma length_component_list: "length (component_list P gs q) = 2 * length gs"
  by (simp add: component_list_def length_concat comp_def case_prod_beta sum_list_triv)

lemma component_index_less: "i < n \<Longrightarrow> component_index i kind < 2 * n"
  by (simp add: component_index_def)

lemma component_list_geom:
  "i < length gs \<Longrightarrow>
     has_geom (component_list P gs q) P (component_index i kind) (quant_dtype q i kind)
       (num_kv_heads (gs ! i)) (head_dim (gs ! i))"
  by (simp add: has_geom_def component_list_nth length_component_list component_index_less)

lemma write_head_token_effect:
  assumes shape: "page_shape (component_list P gs q) p"
    and layer: "layer < length gs" and head: "ho < num_kv_heads (gs ! layer)" and tok: "t < P"
    and row: "length vs = head_dim (gs ! layer)"
  shows "\<exists>p'.
    write_head_token F p P (head_dim (gs ! layer)) (component_index layer kind) ho t vs = Inr p' \<and>
    page_shape (component_list P gs q) p' \<and>
    (\<forall>x < head_dim (gs ! layer).
       value_at_slot F p' P (head_dim (gs ! layer)) (component_index layer kind) ho t x
         = Inr (stored_value F (quant_dtype q layer kind) vs x)) \<and>
    (\<forall>layer' < length gs. \<forall>kind'. \<forall>ho' < num_kv_heads (gs ! layer'). \<forall>t' < P.
       \<forall>x' < head_dim (gs ! layer').
         (layer', kind', ho', t') \<noteq> (layer, kind, ho, t) \<longrightarrow>
         value_at_slot F p' P (head_dim (gs ! layer')) (component_index layer' kind') ho' t' x'
           = value_at_slot F p P (head_dim (gs ! layer')) (component_index layer' kind') ho' t' x')"
proof -
  let ?c = "component_list P gs q" and ?D = "\<lambda>l. head_dim (gs ! l)" and ?r = "ho * P + t"
  let ?p' = "p\<lparr>page_store := put_row F ?c (page_store p) (component_index layer kind)
      (quant_dtype q layer kind) (?D layer) ?r vs\<rparr>"
  note g = component_list_geom [OF layer, of P q kind]
  note r = row_index [OF head tok]
  note shape' = put_row_shape [OF shape g r row, of F]
  have "write_head_token F p P (?D layer) (component_index layer kind) ho t vs = Inr ?p'"
    by (rule write_head_token_shape [OF shape g head tok row])
  moreover have "\<forall>x < ?D layer. value_at_slot F ?p' P (?D layer) (component_index layer kind) ho t x
             = Inr (stored_value F (quant_dtype q layer kind) vs x)"
    using value_at_slot_shape [OF shape' g head tok] slot_value_put_same [OF shape g r row] by simp
  moreover have "\<forall>layer' < length gs. \<forall>kind'. \<forall>ho' < num_kv_heads (gs ! layer'). \<forall>t' < P. \<forall>x' < ?D layer'.
        (layer', kind', ho', t') \<noteq> (layer, kind, ho, t) \<longrightarrow>
        value_at_slot F ?p' P (?D layer') (component_index layer' kind') ho' t' x'
          = value_at_slot F p P (?D layer') (component_index layer' kind') ho' t' x'"
  proof (intro allI impI)
    fix layer' kind' ho' t' x'
    assume l': "layer' < length gs" and h': "ho' < num_kv_heads (gs ! layer')" and t': "t' < P"
      and x': "x' < ?D layer'" and ne: "(layer', kind', ho', t') \<noteq> (layer, kind, ho, t)"
    note g' = component_list_geom [OF l', of P q kind']
    note r' = row_index [OF h' t']
    have "component_index layer kind \<noteq> component_index layer' kind' \<or> ?r \<noteq> ho' * P + t'"
      using ne row_index_inj [OF tok t'] by auto
    from slot_value_put_other [OF shape g r row g' r' x' this]
    show "value_at_slot F ?p' P (?D layer') (component_index layer' kind') ho' t' x'
        = value_at_slot F p P (?D layer') (component_index layer' kind') ho' t' x'"
      using value_at_slot_shape [OF shape' g' h' t' x'] value_at_slot_shape [OF shape g' h' t' x']
      by simp
  qed
  ultimately show ?thesis using shape' by blast
qed

text \<open>
  C5. Storing a token's row for one (layer, key or value, head, token) slot of a page
  succeeds and reads back as that row: unchanged in f32, and in int8 and fp8 as the
  row's own quantisation. Every other slot of the page, in the same layer or another, in
  the same precision or another, reads exactly what it read before: an append never
  requantises a stored token.
\<close>

theorem write_head_token_roundtrip_and_frame:
  assumes shape: "page_shape (component_list P gs q) p"
    and layer: "layer < length gs" and head: "ho < num_kv_heads (gs ! layer)" and tok: "t < P"
    and row: "length vs = head_dim (gs ! layer)"
  shows "\<exists>p'.
    write_head_token F p P (head_dim (gs ! layer)) (component_index layer kind) ho t vs = Inr p' \<and>
    page_shape (component_list P gs q) p' \<and>
    (\<forall>x < head_dim (gs ! layer).
       value_at_slot F p' P (head_dim (gs ! layer)) (component_index layer kind) ho t x
         = Inr (stored_value F (quant_dtype q layer kind) vs x)) \<and>
    (\<forall>layer' < length gs. \<forall>kind'. \<forall>ho' < num_kv_heads (gs ! layer'). \<forall>t' < P.
       \<forall>x' < head_dim (gs ! layer').
         (layer', kind', ho', t') \<noteq> (layer, kind, ho, t) \<longrightarrow>
         value_at_slot F p' P (head_dim (gs ! layer')) (component_index layer' kind') ho' t' x'
           = value_at_slot F p P (head_dim (gs ! layer')) (component_index layer' kind') ho' t' x')"
  using assms by (rule write_head_token_effect)

text \<open>A concrete arithmetic and page: one layer of two heads, int8 keys and f32 values.\<close>

definition int_ops :: "int f32_ops" where
  "int_ops = \<lparr>f_zero = 0, f_one = 1, f_127 = 127, f_is_finite = (\<lambda>_. True), f_is_zero = (\<lambda>x. x = 0),
     f_abs = abs, f_max = max, f_div = (div), f_mul = (*),
     f_round_clamp_i8 = (\<lambda>x. max (-127) (min 127 x)), f_of_i8 = (\<lambda>x. x),
     f_max_finite = (\<lambda>f. if f = E4M3Fn then 448 else 57344),
     f_encode_fp8 = (\<lambda>x _. nat (abs x)), f_decode_fp8 = (\<lambda>b _. int b)\<rparr>"

definition example_layers :: "LayerTensorConfig list" where
  "example_layers = [\<lparr>num_kv_heads = 2, head_dim = 3\<rparr>]"

definition example_quant :: KvQuantConfig where
  "example_quant = [\<lparr>ld_key = Int8, ld_value = F32\<rparr>]"

definition example_page :: "int Page" where
  "example_page = page_new int_ops 7 (Gpu 0) 4 example_layers (Some example_quant)"

lemma example_page_shape: "page_shape (component_list 4 example_layers example_quant) example_page"
  using page_new_shape [of 4 example_layers "Some example_quant" int_ops 7 "Gpu 0"]
  by (simp add: example_page_def page_components_def example_layers_def)

theorem write_head_token_roundtrip_and_frame_witness:
  "\<exists>p'. write_head_token int_ops example_page 4 3 (component_index 0 Key) 1 2 [254, -508, 0] = Inr p' \<and>
     (\<forall>x < 3. value_at_slot int_ops p' 4 3 (component_index 0 Key) 1 2 x
        = Inr (stored_value int_ops Int8 [254, -508, 0] x)) \<and>
     value_at_slot int_ops p' 4 3 (component_index 0 Value) 1 2 0 = Inr 0"
proof -
  have v: "value_at_slot int_ops example_page 4 3 (component_index 0 Value) 1 2 0 = Inr 0"
    by code_simp
  have g: "example_layers ! 0 = \<lparr>num_kv_heads = 2, head_dim = 3\<rparr>" "length example_layers = 1"
    and q: "quant_dtype example_quant 0 Key = Int8"
    by code_simp+
  from write_head_token_roundtrip_and_frame [OF example_page_shape, of 0 1 2 "[254, -508, 0]" int_ops Key]
  obtain p' where p': "write_head_token int_ops example_page 4 3 (component_index 0 Key) 1 2 [254, -508, 0] = Inr p'"
    and same: "\<forall>x < 3. value_at_slot int_ops p' 4 3 (component_index 0 Key) 1 2 x
        = Inr (stored_value int_ops Int8 [254, -508, 0] x)"
    and frame: "\<forall>layer' < 1. \<forall>kind'. \<forall>ho' < num_kv_heads (example_layers ! layer'). \<forall>t' < 4.
       \<forall>x' < head_dim (example_layers ! layer').
         (layer', kind', ho', t') \<noteq> (0, Key, 1, 2) \<longrightarrow>
         value_at_slot int_ops p' 4 (head_dim (example_layers ! layer')) (component_index layer' kind') ho' t' x'
           = value_at_slot int_ops example_page 4 (head_dim (example_layers ! layer')) (component_index layer' kind') ho' t' x'"
    unfolding g q by auto
  have "value_at_slot int_ops p' 4 3 (component_index 0 Value) 1 2 0 = Inr 0"
    using frame [rule_format, of 0 1 2 0 Value] v by (simp add: g)
  with p' same show ?thesis by blast
qed

lemma write_head_token_fields:
  assumes "write_head_token F p ps d c h t vs = Inr p'"
  shows "page_id p' = page_id p" "ref_count p' = ref_count p" "filled p' = filled p"
    "last_access p' = last_access p" "residency p' = residency p"
proof -
  from assms obtain st where st: "index_or_panic (storage_layout p) c = Inr st"
    unfolding write_head_token_def res_bind_Inr by blast
  have "\<exists>h'. p' = p\<lparr>page_store := h'\<rparr> \<and> hs_residency h' = hs_residency (page_store p)"
    using assms unfolding write_head_token_def st
    by (cases "cs_dtype st") (simp_all add: Let_def fp8_format_def split: if_splits, auto)
  then show "page_id p' = page_id p" "ref_count p' = ref_count p" "filled p' = filled p"
    "last_access p' = last_access p" "residency p' = residency p"
    by (auto simp: residency_def)
qed

section \<open>Migration\<close>

lemma copy_to_same_layout:
  assumes "same_layout t s"
  shows "copy_to s t = Inr (s\<lparr>hs_residency := hs_residency t\<rparr>, store_allocated_bytes s)"
  using assms by (simp add: copy_to_def copy_from_host_def)

lemma copy_to_ok_iff:
  "copy_to s t = Inr (h, n) \<longleftrightarrow>
     same_layout t s \<and> h = s\<lparr>hs_residency := hs_residency t\<rparr> \<and> n = store_allocated_bytes s"
  by (auto simp: copy_to_def copy_from_host_def)

lemma host_store_new_same_layout:
  "page_shape comps p \<Longrightarrow> same_layout (host_store_new F dev (store_layout p)) (page_store p)"
  by (cases "store_layout p") (simp add: page_shape_def layout_of_closed same_layout_def host_store_new_def)

lemma migrate_ok:
  "migrate fac p target = Inr (p', m) \<Longrightarrow>
     p' = p\<lparr>page_store := (page_store p)\<lparr>hs_residency := target\<rparr>\<rparr> \<and>
     m = \<lparr>mig_from = residency p, mig_to = target,
          bytes_copied = (if residency p = target then 0 else page_allocated_bytes p)\<rparr>"
  by (auto simp: migrate_def Let_def residency_def page_allocated_bytes_def copy_to_ok_iff
      split: if_splits sum.splits prod.splits)

lemma migrate_host_ok:
  assumes "page_shape comps p" "target \<noteq> DiskDevice"
  shows "migrate (host_factory F) p target =
    Inr (p\<lparr>page_store := (page_store p)\<lparr>hs_residency := target\<rparr>\<rparr>,
         \<lparr>mig_from = residency p, mig_to = target,
          bytes_copied = (if residency p = target then 0 else page_allocated_bytes p)\<rparr>)"
  using copy_to_same_layout [OF host_store_new_same_layout [OF assms(1), of F target]] assms(2)
  by (auto simp: migrate_def host_factory_def residency_def page_allocated_bytes_def Let_def host_store_new_def)

text \<open>
  Whatever factory provides the new storage, a migration that succeeds changes the
  residency of the page to the target and nothing else: identity, reference count, fill
  level, LRU stamp and every stored value are kept, and it reports the bytes it copied.
  With the host factory it always succeeds for GPU and CPU targets, and never for disk.
\<close>

lemma migrate_changes_only_residency:
  assumes "page_shape comps p"
  shows "(\<forall>fac target p' m. migrate fac p target = Inr (p', m) \<longrightarrow>
            p' = p\<lparr>page_store := (page_store p)\<lparr>hs_residency := target\<rparr>\<rparr> \<and> residency p' = target \<and>
            (\<forall>G ps d c h t x. value_at_slot G p' ps d c h t x = value_at_slot G p ps d c h t x) \<and>
            m = \<lparr>mig_from = residency p, mig_to = target,
                 bytes_copied = (if residency p = target then 0 else page_allocated_bytes p)\<rparr>) \<and>
         (\<forall>target. is_ok (migrate (host_factory F) p target) \<longleftrightarrow>
            target \<noteq> DiskDevice \<or> residency p = DiskDevice)"
proof (intro conjI allI impI)
  fix fac target p' m assume "migrate fac p target = Inr (p', m)"
  from migrate_ok [OF this]
  show "p' = p\<lparr>page_store := (page_store p)\<lparr>hs_residency := target\<rparr>\<rparr>" and "residency p' = target"
    and "m = \<lparr>mig_from = residency p, mig_to = target,
              bytes_copied = (if residency p = target then 0 else page_allocated_bytes p)\<rparr>"
    and "value_at_slot G p' ps d c h t x = value_at_slot G p ps d c h t x" for G ps d c h t x
    by (auto simp: residency_def value_at_slot_def Let_def cong: KvDType.case_cong)
next
  fix target
  show "is_ok (migrate (host_factory F) p target) \<longleftrightarrow> target \<noteq> DiskDevice \<or> residency p = DiskDevice"
  proof (cases "target = DiskDevice")
    case True
    then show ?thesis by (auto simp: migrate_def host_factory_def Let_def)
  next
    case False
    with migrate_host_ok [OF assms False, of F] show ?thesis by simp
  qed
qed

end
