(* ===== verification/PageTable.thy ===== *)
theory PageTable
  imports PageStore
begin

text \<open>
  The page table (\<open>page_table.rs\<close>, \<open>PageTable\<close>): sequences mapped to ordered lists of
  reference-counted pages, a free list per device, a hot tier with LRU demotion and an
  optional lease covering the pool's storage.

  The hash maps that the code iterates over (\<open>pages\<close>, \<open>sequences\<close>) are association
  lists with distinct keys, whose order is one iteration order; the others are maps. The
  field \<open>pool_ledger\<close> is the ledger that \<open>pool_lease\<close> points to. The telemetry mirror only
  receives copies of the counters and is not part of the state. The LRU clock is an
  unbounded number: the source counts in \<open>u64\<close>.
\<close>

section \<open>State\<close>

record PageStats =
  allocations :: nat
  allocation_failures :: nat
  frees :: nat
  hot_evictions :: nat
  prefix_evictions :: nat

definition default_stats :: PageStats where
  "default_stats = \<lparr>allocations = 0, allocation_failures = 0, frees = 0, hot_evictions = 0,
                    prefix_evictions = 0\<rparr>"

record 'f PageTable =
  sequences :: "(nat \<times> nat list) list"
  sequence_lengths :: "nat \<rightharpoonup> nat"
  sequence_starts :: "nat \<rightharpoonup> nat"
  sequence_sink_lens :: "nat \<rightharpoonup> nat"
  pages :: "(nat \<times> 'f Page) list"
  free_pages :: "KvDevice \<rightharpoonup> nat list"
  page_size :: nat
  tensor_config :: "PageTensorConfig option"
  layer_configs :: "LayerTensorConfig list"
  quant_config :: "KvQuantConfig option"
  clock :: nat
  hot_capacity :: nat
  next_page_id :: nat
  pool_lease :: "MemoryLease option"
  pool_ledger :: LeaseLedger
  stats :: PageStats
  migration_factory :: "'f StoreFactory"

definition get_page :: "'f PageTable \<Rightarrow> nat \<Rightarrow> 'f Page option" where
  "get_page T i = map_of (pages T) i"

definition put_page :: "'f PageTable \<Rightarrow> nat \<Rightarrow> 'f Page \<Rightarrow> 'f PageTable" where
  "put_page T i p = T\<lparr>pages := AList.update i p (pages T)\<rparr>"

section \<open>Construction\<close>

definition pt_build ::
  "'f f32_ops \<Rightarrow> LeaseLedger \<Rightarrow> nat \<Rightarrow> nat \<Rightarrow> PageTensorConfig option \<Rightarrow> LayerTensorConfig list \<Rightarrow>
     KvQuantConfig option \<Rightarrow> 'f PageTable" where
  "pt_build F L ps num_gpu_pages tc gs q =
     \<lparr>sequences = [], sequence_lengths = Map.empty, sequence_starts = Map.empty,
      sequence_sink_lens = Map.empty,
      pages = fold (\<lambda>i al. AList.update (wrap_u32 i) (page_new F (wrap_u32 i) (Gpu 0) ps gs q) al)
                [0..<num_gpu_pages] [],
      free_pages = [Gpu 0 \<mapsto> map wrap_u32 [0..<num_gpu_pages]],
      page_size = ps, tensor_config = tc, layer_configs = gs, quant_config = q,
      clock = 0, hot_capacity = num_gpu_pages, next_page_id = wrap_u32 num_gpu_pages,
      pool_lease = None, pool_ledger = L, stats = default_stats, migration_factory = host_factory F\<rparr>"

definition new_with_storage ::
  "'f f32_ops \<Rightarrow> LeaseLedger \<Rightarrow> nat \<Rightarrow> nat \<Rightarrow> PageTensorConfig option \<Rightarrow> KvQuantConfig option \<Rightarrow>
     KvError + 'f PageTable" where
  "new_with_storage F L ps n tc q =
     (case tc of
        None \<Rightarrow> Inr (pt_build F L ps n None [] q)
      | Some c \<Rightarrow>
          if ps \<noteq> tc_page_size c then Inl (RustPanic ''page_size must match tensor config'')
          else if \<not> tensor_validate c then Inl (RustPanic ''invalid page tensor config'')
          else Inr (pt_build F L ps n tc (to_layer_configs c) q))"

definition pt_new :: "'f f32_ops \<Rightarrow> LeaseLedger \<Rightarrow> nat \<Rightarrow> nat \<Rightarrow> KvError + 'f PageTable" where
  "pt_new F L ps n = new_with_storage F L ps n None None"

definition new_with_tensor_config ::
  "'f f32_ops \<Rightarrow> LeaseLedger \<Rightarrow> nat \<Rightarrow> nat \<Rightarrow> PageTensorConfig option \<Rightarrow> KvError + 'f PageTable" where
  "new_with_tensor_config F L ps n tc =
     new_with_storage F L ps n tc (map_option (\<lambda>c. homogeneous (tc_dtype c) (tc_num_layers c)) tc)"

definition new_with_quant_config ::
  "'f f32_ops \<Rightarrow> LeaseLedger \<Rightarrow> nat \<Rightarrow> nat \<Rightarrow> PageTensorConfig \<Rightarrow> KvQuantConfig \<Rightarrow> KvError + 'f PageTable" where
  "new_with_quant_config F L ps n tc q =
     (if length q \<noteq> tc_num_layers tc
      then Inl (InvalidQuantizationConfig ''quantization layer count must match tensor config'')
      else new_with_storage F L ps n (Some tc) (Some q))"

definition new_with_layer_storage ::
  "'f f32_ops \<Rightarrow> LeaseLedger \<Rightarrow> nat \<Rightarrow> nat \<Rightarrow> KvDType \<Rightarrow> LayerTensorConfig list \<Rightarrow> KvQuantConfig \<Rightarrow>
     KvError + 'f PageTable" where
  "new_with_layer_storage F L ps n d gs q =
     (case gs of
        [] \<Rightarrow> Inl (RustPanic ''layer_configs must be non-empty'')
      | g # _ \<Rightarrow>
          if \<not> list_all layer_validate gs then Inl (RustPanic ''invalid per-layer tensor config'')
          else Inr (pt_build F L ps n
                 (Some \<lparr>tc_num_layers = length gs, tc_num_kv_heads = num_kv_heads g,
                        tc_head_dim = head_dim g, tc_page_size = ps, tc_dtype = d\<rparr>)
                 gs (Some q)))"

definition new_with_layer_configs ::
  "'f f32_ops \<Rightarrow> LeaseLedger \<Rightarrow> nat \<Rightarrow> nat \<Rightarrow> KvDType \<Rightarrow> LayerTensorConfig list \<Rightarrow> KvError + 'f PageTable" where
  "new_with_layer_configs F L ps n d gs =
     new_with_layer_storage F L ps n d gs (homogeneous d (length gs))"

definition new_with_layer_quant_config ::
  "'f f32_ops \<Rightarrow> LeaseLedger \<Rightarrow> nat \<Rightarrow> nat \<Rightarrow> KvDType \<Rightarrow> LayerTensorConfig list \<Rightarrow> KvQuantConfig \<Rightarrow>
     KvError + 'f PageTable" where
  "new_with_layer_quant_config F L ps n d gs q =
     (if length q \<noteq> length gs
      then Inl (InvalidQuantizationConfig ''quantization layer count must match per-layer tensor config'')
      else new_with_layer_storage F L ps n d gs q)"

text \<open>
  The accounting arithmetic. \<open>usize\<close> products are unchecked in the source; here they are
  exact, and the saturating \<open>u64\<close> operations are written out.
\<close>

definition component_bytes :: "KvDType \<Rightarrow> nat \<Rightarrow> nat \<Rightarrow> nat" where
  "component_bytes d component_len scale_slots =
     (if d = F32 then sat_mul_u64 component_len 4
      else sat_add_u64 component_len (scale_slots * 4))"

definition planned_pool_bytes ::
  "nat \<Rightarrow> nat \<Rightarrow> LayerTensorConfig list \<Rightarrow> KvQuantConfig option \<Rightarrow> nat" where
  "planned_pool_bytes ps num_pages gs q =
     (case q of None \<Rightarrow> 0
      | Some cfg \<Rightarrow>
          if gs = [] then 0
          else sat_mul_u64
                 (foldl (\<lambda>acc (d, n, sc). sat_add_u64 acc (component_bytes d n sc)) 0
                    (component_list ps gs cfg))
                 num_pages)"

definition pool_bytes :: "'f PageTable \<Rightarrow> nat" where
  "pool_bytes T = foldl (\<lambda>acc (_, p). sat_add_u64 acc (page_allocated_bytes p)) 0 (pages T)"

definition resident_bytes :: "'f PageTable \<Rightarrow> nat" where
  "resident_bytes T =
     foldl (\<lambda>acc (_, p). sat_add_u64 acc (page_allocated_bytes p)) 0
       (filter (\<lambda>(_, p). ref_count p > 0) (pages T))"

definition bytes_per_page :: "'f PageTable \<Rightarrow> nat" where
  "bytes_per_page T = (case pages T of [] \<Rightarrow> 0 | (_, p) # _ \<Rightarrow> page_allocated_bytes p)"

definition leased_bytes :: "'f PageTable \<Rightarrow> nat option" where
  "leased_bytes T = map_option lease_bytes (pool_lease T)"

text \<open>
  Every exit of \<open>new_leased\<close> after the reservation drops the lease unless it was stored in
  the table, so the ledger is returned on both paths.
\<close>

definition new_leased ::
  "'f f32_ops \<Rightarrow> LeaseLedger \<Rightarrow> nat \<Rightarrow> nat \<Rightarrow> KvDType \<Rightarrow> LayerTensorConfig list \<Rightarrow> Tier \<Rightarrow> nat \<Rightarrow>
     LeaseLedger \<times> (KvError + 'f PageTable)" where
  "new_leased F L ps n d gs tier holder =
     (let q = homogeneous d (length gs);
          planned = planned_pool_bytes ps n gs (Some q) in
      case reserve L tier planned KvCache holder of
        (L', Inl e) \<Rightarrow> (L', Inl (PoolNotLeased e))
      | (L', Inr lease) \<Rightarrow>
          (case new_with_layer_storage F L' ps n d gs q of
             Inl e \<Rightarrow> (drop_lease L' lease, Inl e)
           | Inr T \<Rightarrow>
               if pool_bytes T \<noteq> planned
               then (drop_lease L' lease, Inl (PoolSizeMismatch planned (pool_bytes T)))
               else (L', Inr (T\<lparr>pool_lease := Some lease\<rparr>))))"

section \<open>Counting and LRU selection\<close>

definition is_hot :: "'f Page \<Rightarrow> bool" where
  "is_hot p \<longleftrightarrow> is_gpu (residency p)"

definition free_count :: "'f PageTable \<Rightarrow> KvDevice \<Rightarrow> nat" where
  "free_count T dev = (case free_pages T dev of None \<Rightarrow> 0 | Some v \<Rightarrow> length v)"

definition hot_used_count :: "'f PageTable \<Rightarrow> nat" where
  "hot_used_count T = length (filter (\<lambda>(_, p). ref_count p > 0 \<and> is_hot p) (pages T))"

definition total_pages :: "'f PageTable \<Rightarrow> nat" where
  "total_pages T = length (pages T)"

definition live_page_counts :: "'f PageTable \<Rightarrow> nat \<times> nat" where
  "live_page_counts T =
     foldl (\<lambda>(in_use, shared) (_, p).
       (if ref_count p > 0 then in_use + 1 else in_use, if ref_count p > 1 then shared + 1 else shared))
       (0, 0) (pages T)"

text \<open>\<open>Iterator::min_by_key\<close>: the first of the least elements.\<close>

fun min_by_key :: "('a \<Rightarrow> nat) \<Rightarrow> 'a list \<Rightarrow> 'a option" where
  "min_by_key k [] = None"
| "min_by_key k (x # xs) =
     (case min_by_key k xs of
        None \<Rightarrow> Some x
      | Some y \<Rightarrow> if k x \<le> k y then Some x else Some y)"

definition lru_hot :: "'f PageTable \<Rightarrow> nat option \<Rightarrow> (nat \<times> 'f Page) option" where
  "lru_hot T exclude =
     min_by_key (\<lambda>(_, p). last_access p)
       (filter (\<lambda>(i, p). Some i \<noteq> exclude \<and> ref_count p > 0 \<and> is_hot p) (pages T))"

section \<open>Migration\<close>

definition set_migration_factory :: "'f PageTable \<Rightarrow> 'f StoreFactory \<Rightarrow> 'f PageTable" where
  "set_migration_factory T fac = T\<lparr>migration_factory := fac\<rparr>"

definition reserve_transient ::
  "'f PageTable \<Rightarrow> nat \<Rightarrow> 'f PageTable \<times> (KvError + MemoryLease option)" where
  "reserve_transient T bytes =
     (case pool_lease T of
        None \<Rightarrow> (T, Inr None)
      | Some lease \<Rightarrow>
          (case reserve_sibling (pool_ledger T) lease bytes of
             (L, Inl e) \<Rightarrow> (T\<lparr>pool_ledger := L\<rparr>, Inl (MigrationPressure e))
           | (L, Inr sib) \<Rightarrow> (T\<lparr>pool_ledger := L\<rparr>, Inr (Some sib))))"

definition drop_transient :: "'f PageTable \<Rightarrow> MemoryLease option \<Rightarrow> 'f PageTable" where
  "drop_transient T m =
     (case m of None \<Rightarrow> T | Some lease \<Rightarrow> T\<lparr>pool_ledger := drop_lease (pool_ledger T) lease\<rparr>)"

definition migrate_page ::
  "'f PageTable \<Rightarrow> nat \<Rightarrow> KvDevice \<Rightarrow> 'f PageTable \<times> (KvError + PageMigration)" where
  "migrate_page T i target =
     (case get_page T i of
        None \<Rightarrow> (T, Inl (PageNotFound i))
      | Some p \<Rightarrow>
          if residency p = target
          then (T, Inr \<lparr>mig_from = target, mig_to = target, bytes_copied = 0\<rparr>)
          else (case reserve_transient T (allocation_bytes (migration_factory T) target (store_layout p)) of
              (T1, Inl e) \<Rightarrow> (T1, Inl e)
            | (T1, Inr transient_lease) \<Rightarrow>
                (case migrate (migration_factory T) p target of
                   Inl e \<Rightarrow> (drop_transient T1 transient_lease, Inl e)
                 | Inr (p', m) \<Rightarrow> (drop_transient (put_page T1 i p') transient_lease, Inr m))))"

definition bump_hot_evictions :: "'f PageTable \<Rightarrow> nat \<Rightarrow> 'f PageTable" where
  "bump_hot_evictions T n = T\<lparr>stats := (stats T)\<lparr>hot_evictions := hot_evictions (stats T) + n\<rparr>\<rparr>"

definition evict_lru_hot ::
  "'f PageTable \<Rightarrow> nat option \<Rightarrow> 'f PageTable \<times> (KvError + nat)" where
  "evict_lru_hot T exclude =
     (case lru_hot T exclude of
        None \<Rightarrow> (T, Inl (OutOfMemory 1 0))
      | Some (victim_id, _) \<Rightarrow>
          (case migrate_page T victim_id Cpu of
             (T1, Inl e) \<Rightarrow> (T1, Inl e)
           | (T1, Inr _) \<Rightarrow> (bump_hot_evictions T1 1, Inr victim_id)))"

section \<open>Allocation\<close>

definition stamp :: "'f PageTable \<Rightarrow> nat \<Rightarrow> 'f Page \<Rightarrow> 'f PageTable" where
  "stamp T i p =
     put_page (T\<lparr>clock := clock T + 1\<rparr>) i (p\<lparr>last_access := clock T + 1\<rparr>)"

definition touch :: "'f PageTable \<Rightarrow> nat \<Rightarrow> 'f PageTable" where
  "touch T i = (case get_page T i of None \<Rightarrow> T | Some p \<Rightarrow> stamp T i p)"

text \<open>The second half of \<open>allocate_page\<close>: a page off the free list, or a fresh one.\<close>

definition take_free_page :: "'f f32_ops \<Rightarrow> 'f PageTable \<Rightarrow> KvDevice \<Rightarrow> 'f PageTable \<times> nat option" where
  "take_free_page F T dev =
     (case free_pages T dev of
        Some (v # vs) \<Rightarrow>
          (let i = last (v # vs);
               T1 = T\<lparr>free_pages := (free_pages T)(dev \<mapsto> butlast (v # vs))\<rparr> in
           (case get_page T1 i of
              None \<Rightarrow> T1
            | Some p \<Rightarrow> stamp T1 i (reset_storage F (p\<lparr>ref_count := 1\<rparr>)), Some i))
      | _ \<Rightarrow>
          if is_gpu dev \<and> hot_used_count T < hot_capacity T
          then (let i = next_page_id T;
                    p = page_new F i dev (page_size T) (layer_configs T) (quant_config T) in
                (stamp (T\<lparr>next_page_id := sat_add_u32 i 1\<rparr>) i (p\<lparr>ref_count := 1\<rparr>), Some i))
          else (T, None))"

definition allocate_page :: "'f f32_ops \<Rightarrow> 'f PageTable \<Rightarrow> KvDevice \<Rightarrow> 'f PageTable \<times> nat option" where
  "allocate_page F T dev =
     (if is_gpu dev \<and> free_count T dev = 0 \<and> hot_used_count T \<ge> hot_capacity T
      then (case evict_lru_hot T None of
              (T1, Inl _) \<Rightarrow> (T1, None)
            | (T1, Inr _) \<Rightarrow> take_free_page F T1 dev)
      else take_free_page F T dev)"

definition allocate :: "'f f32_ops \<Rightarrow> 'f PageTable \<Rightarrow> KvDevice \<Rightarrow> 'f PageTable \<times> nat option" where
  "allocate F T dev =
     (case allocate_page F T dev of
        (T1, Some i) \<Rightarrow> (T1\<lparr>stats := (stats T1)\<lparr>allocations := allocations (stats T1) + 1\<rparr>\<rparr>, Some i)
      | (T1, None) \<Rightarrow>
          (T1\<lparr>stats := (stats T1)\<lparr>allocation_failures := allocation_failures (stats T1) + 1\<rparr>\<rparr>, None))"

definition free_page :: "'f f32_ops \<Rightarrow> 'f PageTable \<Rightarrow> nat \<Rightarrow> 'f PageTable" where
  "free_page F T i =
     (case get_page T i of
        None \<Rightarrow> T
      | Some p \<Rightarrow>
          (let p1 = p\<lparr>ref_count := ref_count p - 1\<rparr> in
           if ref_count p1 = 0
           then (let p2 = reset_storage F p1; dev = residency p2;
                     v = (case free_pages T dev of None \<Rightarrow> [] | Some v \<Rightarrow> v) in
                 (put_page T i p2)\<lparr>free_pages := (free_pages T)(dev \<mapsto> v @ [i]),
                    stats := (stats T)\<lparr>frees := frees (stats T) + 1\<rparr>\<rparr>)
           else put_page T i p1))"

definition retain :: "'f PageTable \<Rightarrow> nat \<Rightarrow> 'f PageTable \<times> bool" where
  "retain T i =
     (case get_page T i of
        None \<Rightarrow> (T, False)
      | Some p \<Rightarrow> (stamp T i (p\<lparr>ref_count := sat_add_u32 (ref_count p) 1\<rparr>), True))"

definition note_prefix_eviction :: "'f PageTable \<Rightarrow> nat \<Rightarrow> 'f PageTable" where
  "note_prefix_eviction T n =
     T\<lparr>stats := (stats T)\<lparr>prefix_evictions := prefix_evictions (stats T) + n\<rparr>\<rparr>"

section \<open>Sequences\<close>

definition get_sequence :: "'f PageTable \<Rightarrow> nat \<Rightarrow> nat list option" where
  "get_sequence T s = map_of (sequences T) s"

definition set_sequence_len :: "'f PageTable \<Rightarrow> nat \<Rightarrow> nat \<Rightarrow> 'f PageTable" where
  "set_sequence_len T s n =
     (if sequence_lengths T s = None then T
      else T\<lparr>sequence_lengths := (sequence_lengths T)(s \<mapsto> n)\<rparr>)"

definition set_sequence_start :: "'f PageTable \<Rightarrow> nat \<Rightarrow> nat \<Rightarrow> 'f PageTable" where
  "set_sequence_start T s n =
     (if sequence_starts T s = None then T
      else T\<lparr>sequence_starts := (sequence_starts T)(s \<mapsto> n)\<rparr>)"

definition set_sequence_sink_len :: "'f PageTable \<Rightarrow> nat \<Rightarrow> nat \<Rightarrow> 'f PageTable" where
  "set_sequence_sink_len T s n =
     (if sequence_sink_lens T s = None then T
      else T\<lparr>sequence_sink_lens := (sequence_sink_lens T)(s \<mapsto> n)\<rparr>)"

definition pt_create_sequence :: "'f PageTable \<Rightarrow> nat \<Rightarrow> 'f PageTable" where
  "pt_create_sequence T s =
     T\<lparr>sequences := AList.update s [] (sequences T),
       sequence_lengths := (sequence_lengths T)(s \<mapsto> 0),
       sequence_starts := (sequence_starts T)(s \<mapsto> 0),
       sequence_sink_lens := (sequence_sink_lens T)(s \<mapsto> 0)\<rparr>"

definition push_page :: "'f PageTable \<Rightarrow> nat \<Rightarrow> nat \<Rightarrow> 'f PageTable" where
  "push_page T s i =
     (case get_sequence T s of
        None \<Rightarrow> T
      | Some ps \<Rightarrow> T\<lparr>sequences := AList.update s (ps @ [i]) (sequences T)\<rparr>)"

definition replace_page :: "'f PageTable \<Rightarrow> nat \<Rightarrow> nat \<Rightarrow> nat \<Rightarrow> 'f PageTable" where
  "replace_page T s k i =
     (case get_sequence T s of
        None \<Rightarrow> T
      | Some ps \<Rightarrow>
          if k < length ps then T\<lparr>sequences := AList.update s (ps[k := i]) (sequences T)\<rparr> else T)"

definition remove_sequence :: "'f PageTable \<Rightarrow> nat \<Rightarrow> 'f PageTable \<times> nat list" where
  "remove_sequence T s =
     (T\<lparr>sequences := AList.delete s (sequences T),
        sequence_lengths := (sequence_lengths T)(s := None),
        sequence_starts := (sequence_starts T)(s := None),
        sequence_sink_lens := (sequence_sink_lens T)(s := None)\<rparr>,
      case get_sequence T s of None \<Rightarrow> [] | Some ps \<Rightarrow> ps)"

definition sequence_hot_pages :: "'f PageTable \<Rightarrow> nat \<Rightarrow> nat" where
  "sequence_hot_pages T s =
     (case get_sequence T s of
        None \<Rightarrow> 0
      | Some ps \<Rightarrow> length (filter (\<lambda>i. case get_page T i of None \<Rightarrow> False | Some p \<Rightarrow> is_hot p) ps))"

section \<open>Tiering\<close>

definition promote_to_hot :: "'f PageTable \<Rightarrow> nat \<Rightarrow> 'f PageTable \<times> (KvError + unit)" where
  "promote_to_hot T i =
     (case get_page T i of
        None \<Rightarrow> (T, Inl (PageNotFound i))
      | Some p \<Rightarrow>
          if is_hot p then (touch T i, Inr ())
          else if hot_capacity T = 0 then (T, Inl (OutOfMemory 1 0))
          else
            (let (T1, room) = (if hot_used_count T \<ge> hot_capacity T
                               then (case evict_lru_hot T (Some i) of
                                       (T1, Inl e) \<Rightarrow> (T1, Some e)
                                     | (T1, Inr _) \<Rightarrow> (T1, None))
                               else (T, None)) in
             case room of
               Some e \<Rightarrow> (T1, Inl e)
             | None \<Rightarrow>
                 (case migrate_page T1 i (Gpu 0) of
                    (T2, Inl e) \<Rightarrow> (T2, Inl e)
                  | (T2, Inr _) \<Rightarrow>
                      (case get_page T2 i of
                         None \<Rightarrow> (T2, Inl (PageNotFound i))
                       | Some p2 \<Rightarrow> (stamp T2 i p2, Inr ())))))"

fun demote_pages :: "'f PageTable \<Rightarrow> nat list \<Rightarrow> nat \<Rightarrow> 'f PageTable \<times> (KvError + nat)" where
  "demote_pages T [] demoted = (T, Inr demoted)"
| "demote_pages T (i # is) demoted =
     (case get_page T i of
        Some p \<Rightarrow>
          if ref_count p \<le> 1 \<and> is_hot p
          then (case migrate_page T i Cpu of
                  (T1, Inl e) \<Rightarrow> (T1, Inl e)
                | (T1, Inr _) \<Rightarrow> demote_pages T1 is (demoted + 1))
          else demote_pages T is demoted
      | None \<Rightarrow> demote_pages T is demoted)"

definition evict_sequence_to_cold :: "'f PageTable \<Rightarrow> nat \<Rightarrow> 'f PageTable \<times> (KvError + nat)" where
  "evict_sequence_to_cold T s =
     (case get_sequence T s of
        None \<Rightarrow> (T, Inr 0)
      | Some ps \<Rightarrow>
          (case demote_pages T ps 0 of
             (T1, Inl e) \<Rightarrow> (T1, Inl e)
           | (T1, Inr n) \<Rightarrow> (bump_hot_evictions T1 n, Inr n)))"

section \<open>Allocation transactions\<close>

record 'f PageAllocationCheckpoint =
  cp_device :: KvDevice
  cp_reused_page :: "'f Page option"
  cp_evicted_hot :: "(nat \<times> 'f HostPageStore) option"
  cp_free_pages :: "KvDevice \<rightharpoonup> nat list"
  cp_stats :: PageStats
  cp_clock :: nat
  cp_next_page_id :: nat
  cp_persistent_growth :: "MemoryLease option"
  cp_transient_lease :: "MemoryLease option"

definition last_free :: "'f PageTable \<Rightarrow> KvDevice \<Rightarrow> nat option" where
  "last_free T dev = (case free_pages T dev of Some (v # vs) \<Rightarrow> Some (last (v # vs)) | _ \<Rightarrow> None)"

text \<open>A failed second reservation drops the first one on the way out.\<close>

definition allocation_checkpoint ::
  "'f PageTable \<Rightarrow> nat \<Rightarrow> KvDevice \<Rightarrow> 'f PageTable \<times> (KvError + 'f PageAllocationCheckpoint)" where
  "allocation_checkpoint T source_page dev =
     (let reused = Option.bind (last_free T dev) (get_page T);
          evicted = (if is_gpu dev \<and> free_count T dev = 0 \<and> hot_used_count T \<ge> hot_capacity T
                     then lru_hot T None else None) in
      case get_page T source_page of
        None \<Rightarrow> (T, Inl (PageNotFound source_page))
      | Some src \<Rightarrow>
          (let source_bytes = page_allocated_bytes src;
               reused_bytes = (case reused of None \<Rightarrow> 0 | Some p \<Rightarrow> page_allocated_bytes p);
               victim_bytes = (case evicted of None \<Rightarrow> 0 | Some (_, p) \<Rightarrow> page_allocated_bytes p);
               replacement_bytes = (if reused = None then source_bytes else 0) in
           case reserve_transient T replacement_bytes of
             (T1, Inl e) \<Rightarrow> (T1, Inl e)
           | (T1, Inr growth) \<Rightarrow>
               (case reserve_transient T1 (sat_add_u64 (sat_add_u64 source_bytes reused_bytes) victim_bytes) of
                  (T2, Inl e) \<Rightarrow> (drop_transient T2 growth, Inl e)
                | (T2, Inr transient) \<Rightarrow>
                    (T2, Inr \<lparr>cp_device = dev, cp_reused_page = reused,
                              cp_evicted_hot = map_option (\<lambda>(i, p). (i, page_store p)) evicted,
                              cp_free_pages = free_pages T, cp_stats = stats T, cp_clock = clock T,
                              cp_next_page_id = next_page_id T, cp_persistent_growth = growth,
                              cp_transient_lease = transient\<rparr>))))"

definition commit_allocation ::
  "'f PageTable \<Rightarrow> 'f PageAllocationCheckpoint \<Rightarrow>
     'f PageTable \<times> 'f PageAllocationCheckpoint \<times> (KvError + unit)" where
  "commit_allocation T c =
     (case cp_persistent_growth c of
        None \<Rightarrow> (T, c, Inr ())
      | Some growth \<Rightarrow>
          (let c' = c\<lparr>cp_persistent_growth := None\<rparr> in
           case pool_lease T of
             None \<Rightarrow> (drop_transient T (Some growth), c',
                       Inl (MigrationLeaseInvariant ''governed growth lost its owning pool lease''))
           | Some lease \<Rightarrow>
               (case absorb_sibling (pool_ledger T) lease growth of
                  (L, lease', r) \<Rightarrow>
                    (T\<lparr>pool_ledger := L, pool_lease := Some lease'\<rparr>, c',
                     case r of Inl e \<Rightarrow> Inl (MigrationPressure e) | Inr _ \<Rightarrow> Inr ()))))"

definition rollback_allocation ::
  "'f PageTable \<Rightarrow> 'f PageAllocationCheckpoint \<Rightarrow> nat \<Rightarrow> 'f PageTable \<times> (KvError + unit)" where
  "rollback_allocation T c i =
     (let T1 = (case cp_reused_page c of
                  Some p \<Rightarrow> put_page T i p
                | None \<Rightarrow> T\<lparr>pages := AList.delete i (pages T)\<rparr>);
          T2 = T1\<lparr>free_pages := cp_free_pages c, stats := cp_stats c, clock := cp_clock c,
                  next_page_id := cp_next_page_id c\<rparr> in
      case cp_evicted_hot c of
        None \<Rightarrow> (T2, Inr ())
      | Some (v, store) \<Rightarrow>
          (case get_page T2 v of
             None \<Rightarrow> (T2, Inl (PageNotFound v))
           | Some p \<Rightarrow> (put_page T2 v (p\<lparr>page_store := store\<rparr>), Inr ())))"

text \<open>The drop of a checkpoint gives back the leases it still holds.\<close>

definition drop_checkpoint :: "'f PageTable \<Rightarrow> 'f PageAllocationCheckpoint \<Rightarrow> 'f PageTable" where
  "drop_checkpoint T c = drop_transient (drop_transient T (cp_persistent_growth c)) (cp_transient_lease c)"

section \<open>Usage report\<close>

record SequenceUsage =
  su_sequence :: nat
  su_pages :: nat
  su_tokens :: nat
  su_shared :: nat

record PageUsage =
  us_page_size :: nat
  us_capacity :: nat
  us_in_use :: nat
  us_free :: nat
  us_filled_slots :: nat
  us_slot_capacity :: nat
  us_shared :: nat
  us_references :: "(nat \<times> nat) list"
  us_sequences :: "SequenceUsage list"
  us_tiers :: "(KvDevice \<times> nat) list"

text \<open>\<open>*map.entry(k).or_default() += 1\<close> on the \<open>BTreeMap\<close>, kept as its sorted entries.\<close>

fun bump_entry :: "nat \<Rightarrow> (nat \<times> nat) list \<Rightarrow> (nat \<times> nat) list" where
  "bump_entry k [] = [(k, 1)]"
| "bump_entry k ((k', n) # xs) =
     (if k < k' then (k, 1) # (k', n) # xs
      else if k = k' then (k', n + 1) # xs
      else (k', n) # bump_entry k xs)"

text \<open>The first matching entry of the \<open>Vec\<close> is bumped, or a new one pushed.\<close>

fun bump_tier :: "KvDevice \<Rightarrow> (KvDevice \<times> nat) list \<Rightarrow> (KvDevice \<times> nat) list" where
  "bump_tier d [] = [(d, 1)]"
| "bump_tier d ((d', n) # xs) = (if d' = d then (d', n + 1) # xs else (d', n) # bump_tier d xs)"

definition live_pages :: "'f PageTable \<Rightarrow> 'f Page list" where
  "live_pages T = filter (\<lambda>p. ref_count p > 0) (map snd (pages T))"

definition sequence_usage :: "'f PageTable \<Rightarrow> nat \<times> nat list \<Rightarrow> SequenceUsage" where
  "sequence_usage T sp =
     \<lparr>su_sequence = fst sp, su_pages = length (snd sp),
      su_tokens = (case sequence_lengths T (fst sp) of None \<Rightarrow> 0 | Some n \<Rightarrow> n),
      su_shared = length (filter (\<lambda>i. case get_page T i of None \<Rightarrow> False | Some p \<Rightarrow> ref_count p > 1) (snd sp))\<rparr>"

text \<open>The sort key is (most pages first, sequence id); \<open>insort\<close> with it is a stable sort.\<close>

definition usage_before :: "SequenceUsage \<Rightarrow> SequenceUsage \<Rightarrow> bool" where
  "usage_before a b \<longleftrightarrow>
     su_pages a > su_pages b \<or> (su_pages a = su_pages b \<and> su_sequence a \<le> su_sequence b)"

fun insort_usage :: "SequenceUsage \<Rightarrow> SequenceUsage list \<Rightarrow> SequenceUsage list" where
  "insort_usage a [] = [a]"
| "insort_usage a (b # bs) = (if usage_before a b then a # b # bs else b # insort_usage a bs)"

definition usage :: "'f PageTable \<Rightarrow> PageUsage" where
  "usage T =
     (let live = live_pages T;
          references = foldl (\<lambda>m p. bump_entry (ref_count p) m) [] live;
          in_use = length live in
      \<lparr>us_page_size = page_size T, us_capacity = hot_capacity T, us_in_use = in_use,
       us_free = free_count T (Gpu 0), us_filled_slots = sum_list (map filled live),
       us_slot_capacity = in_use * page_size T,
       us_shared = sum_list (map snd (filter (\<lambda>(c, _). c > 1) references)),
       us_references = references,
       us_sequences = foldr insort_usage (map (sequence_usage T) (sequences T)) [],
       us_tiers = foldl (\<lambda>m p. bump_tier (residency p) m) [] live\<rparr>)"

section \<open>The plan of a pool is what the pool takes\<close>

lemma planned_page_bytes:
  assumes "page_shape comps p"
  shows "foldl (\<lambda>acc (d, n, sc). sat_add_u64 acc (component_bytes d n sc)) 0 comps
           = min u64_max (page_allocated_bytes p)"
proof -
  let ?g = "\<lambda>(d, n, sc). if d = F32 then n * 4 else n + sc * 4"
  have "foldl (\<lambda>acc c. sat_add_u64 acc (min u64_max (?g c))) 0 comps = min u64_max (weight ?g comps)"
    by (simp add: sat_fold weight_sat)
  moreover have "(\<lambda>acc (d, n, sc). sat_add_u64 acc (component_bytes d n sc))
      = (\<lambda>acc c. sat_add_u64 acc (min u64_max (?g c)))"
    by (auto simp: fun_eq_iff component_bytes_def sat_mul_u64_def sat_add_u64_def)
  ultimately show ?thesis using page_shape_bytes [OF assms] by simp
qed

lemma pt_build_pages:
  assumes "n < 2 ^ 32"
  shows "pages (pt_build F L ps n tc gs q) = map (\<lambda>i. (i, page_new F i (Gpu 0) ps gs q)) [0..<n]"
proof -
  have "fold (\<lambda>i al. AList.update (wrap_u32 i) (page_new F (wrap_u32 i) (Gpu 0) ps gs q) al) [0..<n] []
      = fold (\<lambda>i al. AList.update i (page_new F i (Gpu 0) ps gs q) al) [0..<n] []"
    by (rule fold_cong) (use assms in \<open>auto simp: wrap_u32_id\<close>)
  also have "\<dots> = map (\<lambda>i. (i, page_new F i (Gpu 0) ps gs q)) [0..<n]"
    by (simp add: fold_update_fresh)
  finally show ?thesis by (simp add: pt_build_def)
qed

lemma page_new_bytes:
  "page_allocated_bytes (page_new F i dev ps gs q) = page_allocated_bytes (page_new F 0 (Gpu 0) ps gs q)"
  by (simp add: page_shape_bytes [OF page_new_shape])

lemma pt_build_pool_bytes:
  assumes "n < 2 ^ 32"
  shows "pool_bytes (pt_build F L ps n tc gs q) = planned_pool_bytes ps n gs q"
proof -
  let ?b = "page_allocated_bytes (page_new F 0 (Gpu 0) ps gs q)"
  have "weight (page_allocated_bytes \<circ> snd) (pages (pt_build F L ps n tc gs q))
      = length (pages (pt_build F L ps n tc gs q)) * ?b"
    by (rule weight_const) (auto simp: pt_build_pages [OF assms] intro: page_new_bytes)
  then have "weight (page_allocated_bytes \<circ> snd) (pages (pt_build F L ps n tc gs q)) = n * ?b"
    by (simp add: pt_build_pages [OF assms])
  then have pool: "pool_bytes (pt_build F L ps n tc gs q) = min u64_max (n * ?b)"
    by (simp add: pool_bytes_def sat_fold_pairs)
  show ?thesis
  proof (cases "\<exists>cfg. q = Some cfg \<and> gs \<noteq> []")
    case True
    then obtain cfg where q: "q = Some cfg" "gs \<noteq> []" by blast
    with planned_page_bytes [OF page_new_shape [of ps gs q F 0 "Gpu 0"]]
    have "planned_pool_bytes ps n gs q = sat_mul_u64 (min u64_max ?b) n"
      by (simp add: planned_pool_bytes_def page_components_def)
    with pool show ?thesis by (simp add: sat_mul_min mult.commute)
  next
    case False
    then have empty: "page_components ps gs q = []" and planned: "planned_pool_bytes ps n gs q = 0"
      by (auto simp: page_components_def planned_pool_bytes_def split: option.split)
    have "?b = 0" using page_shape_bytes [OF page_new_shape [of ps gs q F 0 "Gpu 0"]] empty by simp
    with pool planned show ?thesis by simp
  qed
qed

lemma new_with_layer_storage_ok_iff:
  "new_with_layer_storage F L ps n d gs q = Inr T \<longleftrightarrow>
     gs \<noteq> [] \<and> list_all layer_validate gs \<and>
     T = pt_build F L ps n (Some \<lparr>tc_num_layers = length gs, tc_num_kv_heads = num_kv_heads (hd gs),
           tc_head_dim = head_dim (hd gs), tc_page_size = ps, tc_dtype = d\<rparr>) gs (Some q)"
  by (cases gs) (auto simp: new_with_layer_storage_def)

lemma new_with_layer_storage_err:
  "new_with_layer_storage F L ps n d gs q = Inl e \<Longrightarrow> \<exists>msg. e = RustPanic msg"
  by (auto simp: new_with_layer_storage_def split: list.splits if_splits)

lemma claim_then_drop:
  "reserve L tier bytes role holder = (L', Inr lease) \<Longrightarrow> drop_lease L' lease = L"
  by (auto simp: reserve_def try_claim_ok_iff drop_lease_def release_def
      split: prod.splits sum.splits if_splits)

text \<open>
  C7. A leased pool charges the governor for exactly the bytes its pages take: what
  \<open>planned_pool_bytes\<close> announces is what the constructed pages occupy, in every mix of
  precisions and layer geometries, so \<open>PoolSizeMismatch\<close> never occurs; and whenever the
  construction fails, the ledger is left exactly as it was.
\<close>

theorem new_leased_charges_exactly_the_pool:
  assumes "n < 2 ^ 32"
  shows "case new_leased F L ps n d gs tier holder of
           (L', Inr T) \<Rightarrow>
             leased_bytes T = Some (pool_bytes T) \<and>
             pool_bytes T = planned_pool_bytes ps n gs (Some (homogeneous d (length gs))) \<and>
             length (pages T) = n \<and>
             L' = L\<lparr>used_bytes := (used_bytes L)(tier := used_bytes L tier + pool_bytes T)\<rparr>
         | (L', Inl e) \<Rightarrow> L' = L \<and> (\<forall>planned actual. e \<noteq> PoolSizeMismatch planned actual)"
proof -
  let ?q = "homogeneous d (length gs)" and ?b = "planned_pool_bytes ps n gs (Some (homogeneous d (length gs)))"
  show ?thesis
  proof (cases "reserve L tier ?b KvCache holder")
    case (Pair L' r)
    show ?thesis
    proof (cases r)
      case (Inl e)
      with Pair have "L' = L"
        by (auto simp: reserve_def dest: try_claim_err split: prod.splits sum.splits)
      with Inl Pair show ?thesis by (simp add: new_leased_def Let_def)
    next
      case (Inr lease)
      with Pair have lease: "lease_bytes lease = ?b"
        and L': "L' = L\<lparr>used_bytes := (used_bytes L)(tier := used_bytes L tier + ?b)\<rparr>"
        by (auto simp: reserve_def try_claim_ok_iff split: prod.splits sum.splits)
      note drop = claim_then_drop [OF Pair [unfolded Inr]]
      show ?thesis
      proof (cases "new_with_layer_storage F L' ps n d gs ?q")
        case (Inl e)
        with Pair Inr drop new_with_layer_storage_err [OF Inl] show ?thesis
          by (auto simp: new_leased_def Let_def)
      next
        case (Inr T)
        then have T: "T = pt_build F L' ps n (tensor_config T) gs (Some ?q)"
          by (auto simp: new_with_layer_storage_ok_iff pt_build_def)
        then have "pool_bytes T = ?b" "length (pages T) = n"
          using pt_build_pool_bytes [OF assms, of F L' ps "tensor_config T" gs "Some ?q"]
            pt_build_pages [OF assms, of F L' ps "tensor_config T" gs "Some ?q"] by auto
        with Pair \<open>r = Inr lease\<close> Inr lease L' show ?thesis
          by (auto simp: new_leased_def Let_def leased_bytes_def pool_bytes_def)
      qed
    qed
  qed
qed

definition small_pool :: "LeaseLedger \<times> (KvError + int PageTable)" where
  "small_pool = new_leased int_ops (ledger_new 1 1000 0 0) 2 3 Int8 example_layers Device 9"

theorem new_leased_charges_exactly_the_pool_witness:
  "is_ok (snd small_pool) \<and> used_bytes (fst small_pool) Device = 168 \<and>
   (case small_pool of (L', Inr T) \<Rightarrow> pool_bytes T = 168 | _ \<Rightarrow> False)"
proof -
  have len: "length example_layers = 1" by (simp add: example_layers_def)
  have planned: "planned_pool_bytes 2 3 example_layers (Some (homogeneous Int8 (Suc 0))) = 168"
    by (simp add: planned_pool_bytes_def example_layers_def component_list_def homogeneous_def
        quant_dtype_def component_bytes_def sat_add_u64_def sat_mul_u64_def u64_max_def)
  have ok: "is_ok (snd small_pool)"
    by (simp add: small_pool_def new_leased_def len planned reserve_def try_claim_def ledger_new_def
        checked_add_u64_def sat_add_u64_def u64_max_def new_with_layer_storage_def example_layers_def
        layer_validate_def pt_build_pool_bytes planned [unfolded example_layers_def] Let_def)
  have zero: "used_bytes (ledger_new 1 1000 0 0) = (\<lambda>_. 0)" by (simp add: ledger_new_def)
  note exact = new_leased_charges_exactly_the_pool
      [where n = 3 and F = int_ops and L = "ledger_new 1 1000 0 0" and ps = 2 and d = Int8
        and gs = example_layers and tier = Device and holder = 9, folded small_pool_def]
  obtain L' r where sp: "small_pool = (L', r)" by (cases small_pool)
  from exact ok show ?thesis unfolding sp by (cases r) (simp_all add: len planned zero [simplified])
qed

end
