(* ===== verification/PageTableInv.thy ===== *)
theory PageTableInv
  imports PageTable
begin

text \<open>
  The ownership invariant of the page table. \<open>pt_inv ext T\<close> says that every page's
  reference count is the number of sequence slots that name it plus \<open>ext i\<close>, the
  references held elsewhere (a handle just returned by \<open>allocate\<close>, a prefix-cache node);
  that the free list of a device holds exactly the unreferenced pages resident there,
  each once; and that live pages have pairwise different LRU stamps. Each operation moves
  references between the sequences and \<open>ext\<close>.
\<close>

section \<open>The invariant\<close>

definition refs_in :: "(nat \<times> nat list) list \<Rightarrow> nat \<Rightarrow> nat" where
  "refs_in S i = weight (\<lambda>(_, ps). count_list ps i) S"

definition free_list :: "'f PageTable \<Rightarrow> KvDevice \<Rightarrow> nat list" where
  "free_list T dev = (case free_pages T dev of None \<Rightarrow> [] | Some v \<Rightarrow> v)"

definition shape_of :: "'f PageTable \<Rightarrow> (KvDType \<times> nat \<times> nat) list" where
  "shape_of T = page_components (page_size T) (layer_configs T) (quant_config T)"

definition page_ok :: "'f PageTable \<Rightarrow> (nat \<Rightarrow> nat) \<Rightarrow> nat \<Rightarrow> 'f Page \<Rightarrow> bool" where
  "page_ok T ext i p \<longleftrightarrow>
     page_id p = i \<and> page_shape (shape_of T) p \<and> ref_count p = refs_in (sequences T) i + ext i
     \<and> i < next_page_id T \<and> last_access p \<le> clock T"

definition pt_inv :: "(nat \<Rightarrow> nat) \<Rightarrow> 'f PageTable \<Rightarrow> bool" where
  "pt_inv ext T \<longleftrightarrow>
     distinct (map fst (pages T)) \<and> distinct (map fst (sequences T))
     \<and> (\<forall>i p. get_page T i = Some p \<longrightarrow> page_ok T ext i p)
     \<and> (\<forall>i. refs_in (sequences T) i + ext i > 0 \<longrightarrow> get_page T i \<noteq> None)
     \<and> (\<forall>dev. distinct (free_list T dev)
          \<and> set (free_list T dev) = {i. \<exists>p. get_page T i = Some p \<and> ref_count p = 0 \<and> residency p = dev})
     \<and> (\<forall>i j p q. get_page T i = Some p \<and> get_page T j = Some q \<and> ref_count p > 0 \<and> ref_count q > 0
          \<and> last_access p = last_access q \<longrightarrow> i = j)"

text \<open>The fields the invariant reads, so that updates of the others are transparent.\<close>

lemma get_page_transparent [simp]:
  "get_page (T\<lparr>stats := st\<rparr>) i = get_page T i"
  "get_page (T\<lparr>pool_ledger := L\<rparr>) i = get_page T i"
  "get_page (T\<lparr>pool_lease := m\<rparr>) i = get_page T i"
  "get_page (T\<lparr>migration_factory := fac\<rparr>) i = get_page T i"
  "get_page (T\<lparr>sequence_lengths := a\<rparr>) i = get_page T i"
  "get_page (T\<lparr>sequence_starts := a\<rparr>) i = get_page T i"
  "get_page (T\<lparr>sequence_sink_lens := a\<rparr>) i = get_page T i"
  "get_page (T\<lparr>sequences := S\<rparr>) i = get_page T i"
  "get_page (T\<lparr>free_pages := fp\<rparr>) i = get_page T i"
  "get_page (T\<lparr>clock := c\<rparr>) i = get_page T i"
  "get_page (T\<lparr>next_page_id := n\<rparr>) i = get_page T i"
  by (simp_all add: get_page_def)

lemma get_page_put [simp]: "get_page (put_page T i p) j = (if j = i then Some p else get_page T j)"
  by (simp add: get_page_def put_page_def)

lemma put_page_fields [simp]:
  "sequences (put_page T i p) = sequences T" "free_pages (put_page T i p) = free_pages T"
  "clock (put_page T i p) = clock T" "next_page_id (put_page T i p) = next_page_id T"
  "page_size (put_page T i p) = page_size T" "layer_configs (put_page T i p) = layer_configs T"
  "quant_config (put_page T i p) = quant_config T" "hot_capacity (put_page T i p) = hot_capacity T"
  "pool_lease (put_page T i p) = pool_lease T" "pool_ledger (put_page T i p) = pool_ledger T"
  "stats (put_page T i p) = stats T" "migration_factory (put_page T i p) = migration_factory T"
  "sequence_lengths (put_page T i p) = sequence_lengths T"
  "sequence_starts (put_page T i p) = sequence_starts T"
  "sequence_sink_lens (put_page T i p) = sequence_sink_lens T"
  "tensor_config (put_page T i p) = tensor_config T"
  by (simp_all add: put_page_def)

lemma free_list_transparent [simp]:
  "free_list (put_page T i p) = free_list T"
  "free_list (T\<lparr>clock := c\<rparr>) = free_list T"
  "free_list (T\<lparr>next_page_id := n\<rparr>) = free_list T"
  "free_list (T\<lparr>sequences := S\<rparr>) = free_list T"
  "free_list (T\<lparr>stats := st\<rparr>) = free_list T"
  by (simp_all add: free_list_def fun_eq_iff)

definition same_books :: "'f PageTable \<Rightarrow> 'f PageTable \<Rightarrow> bool" where
  "same_books T U \<longleftrightarrow>
     pages U = pages T \<and> sequences U = sequences T \<and> free_pages U = free_pages T
     \<and> clock U = clock T \<and> next_page_id U = next_page_id T \<and> page_size U = page_size T
     \<and> layer_configs U = layer_configs T \<and> quant_config U = quant_config T"

lemma pt_inv_same_books: "same_books T U \<Longrightarrow> pt_inv ext U = pt_inv ext T"
  by (simp add: same_books_def pt_inv_def page_ok_def shape_of_def get_page_def free_list_def)

lemma pt_inv_transparent [simp]:
  "pt_inv ext (T\<lparr>stats := st\<rparr>) = pt_inv ext T"
  "pt_inv ext (T\<lparr>pool_ledger := L\<rparr>) = pt_inv ext T"
  "pt_inv ext (T\<lparr>pool_lease := m\<rparr>) = pt_inv ext T"
  "pt_inv ext (T\<lparr>migration_factory := fac\<rparr>) = pt_inv ext T"
  "pt_inv ext (T\<lparr>sequence_lengths := a\<rparr>) = pt_inv ext T"
  "pt_inv ext (T\<lparr>sequence_starts := a\<rparr>) = pt_inv ext T"
  "pt_inv ext (T\<lparr>sequence_sink_lens := a\<rparr>) = pt_inv ext T"
  by (rule pt_inv_same_books, simp add: same_books_def)+

lemma pt_invD:
  assumes "pt_inv ext T"
  shows "distinct (map fst (pages T))" "distinct (map fst (sequences T))"
    "get_page T i = Some p \<Longrightarrow> page_ok T ext i p"
    "refs_in (sequences T) i + ext i > 0 \<Longrightarrow> get_page T i \<noteq> None"
    "distinct (free_list T dev)"
    "i \<in> set (free_list T dev) \<longleftrightarrow> (\<exists>p. get_page T i = Some p \<and> ref_count p = 0 \<and> residency p = dev)"
    "get_page T i = Some p \<Longrightarrow> get_page T j = Some q \<Longrightarrow> ref_count p > 0 \<Longrightarrow> ref_count q > 0 \<Longrightarrow>
       last_access p = last_access q \<Longrightarrow> i = j"
proof -
  note inv = assms [unfolded pt_inv_def]
  show "distinct (map fst (pages T))" "distinct (map fst (sequences T))"
    "get_page T i = Some p \<Longrightarrow> page_ok T ext i p" "distinct (free_list T dev)"
    using inv by simp_all
  show "refs_in (sequences T) i + ext i > 0 \<Longrightarrow> get_page T i \<noteq> None"
    using inv by metis
  show "i \<in> set (free_list T dev) \<longleftrightarrow> (\<exists>p. get_page T i = Some p \<and> ref_count p = 0 \<and> residency p = dev)"
    using inv by simp
  show "get_page T i = Some p \<Longrightarrow> get_page T j = Some q \<Longrightarrow> ref_count p > 0 \<Longrightarrow> ref_count q > 0 \<Longrightarrow>
       last_access p = last_access q \<Longrightarrow> i = j"
    using inv by blast
qed

lemma pt_invI:
  assumes "distinct (map fst (pages T))" "distinct (map fst (sequences T))"
    and "\<And>i p. get_page T i = Some p \<Longrightarrow> page_ok T ext i p"
    and "\<And>i. refs_in (sequences T) i + ext i > 0 \<Longrightarrow> get_page T i \<noteq> None"
    and "\<And>dev. distinct (free_list T dev)"
    and "\<And>dev. set (free_list T dev) = {i. \<exists>p. get_page T i = Some p \<and> ref_count p = 0 \<and> residency p = dev}"
    and "\<And>i j p q. get_page T i = Some p \<Longrightarrow> get_page T j = Some q \<Longrightarrow> ref_count p > 0 \<Longrightarrow> ref_count q > 0 \<Longrightarrow>
       last_access p = last_access q \<Longrightarrow> i = j"
  shows "pt_inv ext T"
  unfolding pt_inv_def by (intro conjI allI impI; (elim conjE)?) (fact assms)+

section \<open>Construction establishes the invariant\<close>

lemma get_page_build:
  assumes "n < 2 ^ 32"
  shows "get_page (pt_build F L ps n tc gs q) i =
    (if i < n then Some (page_new F i (Gpu 0) ps gs q) else None)"
proof -
  have "map_of (map (\<lambda>i. (i, page_new F i (Gpu 0) ps gs q)) [0..<n]) i =
      (if i < n then Some (page_new F i (Gpu 0) ps gs q) else None)"
    by (simp add: map_of_map_restrict restrict_map_def)
  then show ?thesis by (simp add: get_page_def pt_build_pages [OF assms])
qed

lemma page_new_fields [simp]:
  "page_id (page_new F i dev ps gs q) = i" "ref_count (page_new F i dev ps gs q) = 0"
  "filled (page_new F i dev ps gs q) = 0" "last_access (page_new F i dev ps gs q) = 0"
  "residency (page_new F i dev ps gs q) = dev"
  by (simp_all add: page_new_def residency_def host_store_new_def split_beta Let_def)

lemma pt_build_inv:
  assumes "n < 2 ^ 32"
  shows "pt_inv (\<lambda>_. 0) (pt_build F L ps n tc gs q)"
proof -
  let ?T = "pt_build F L ps n tc gs q"
  have fields: "sequences ?T = []" "clock ?T = 0" "next_page_id ?T = n" "page_size ?T = ps"
    "layer_configs ?T = gs" "quant_config ?T = q" "free_pages ?T = [Gpu 0 \<mapsto> [0..<n]]"
    using assms map_idI [of "[0..<n]" wrap_u32] by (simp_all add: pt_build_def wrap_u32_id)
  have "distinct (map fst (pages ?T))" by (simp add: pt_build_pages [OF assms] comp_def)
  then show ?thesis
    by (auto simp: pt_inv_def page_ok_def get_page_build [OF assms] fields refs_in_def free_list_def
        shape_of_def page_new_shape split: if_splits)
qed

section \<open>One page replaced\<close>

text \<open>
  The general step: page \<open>i\<close>, new or not, becomes \<open>p'\<close>, while the clock, the next id and the
  free lists move on. Every operation on a single page is an instance of it.
\<close>

lemma pt_inv_set_page:
  assumes inv: "pt_inv ext T"
    and ok: "page_id p' = i" "page_shape (shape_of T) p'" "ref_count p' = refs_in (sequences T) i + ext' i"
    and ext: "\<And>j. j \<noteq> i \<Longrightarrow> ext' j = ext j"
    and nid: "next_page_id T \<le> nid" "i < nid"
    and fl: "\<And>dev. distinct (fl dev)"
      "\<And>dev. set (fl dev) = set (free_list T dev) - {i} \<union> (if ref_count p' = 0 \<and> residency p' = dev then {i} else {})"
      "\<And>dev. fl dev = (case fp dev of None \<Rightarrow> [] | Some v \<Rightarrow> v)"
    and stamped: "(last_access p' = c \<and> clock T < c) \<or>
      (\<exists>p. get_page T i = Some p \<and> last_access p' = last_access p \<and> (ref_count p' > 0 \<longrightarrow> ref_count p > 0) \<and> c = clock T)"
  shows "pt_inv ext' (put_page (T\<lparr>clock := c, next_page_id := nid, free_pages := fp\<rparr>) i p')"
proof -
  let ?U = "put_page (T\<lparr>clock := c, next_page_id := nid, free_pages := fp\<rparr>) i p'"
  note old = pt_invD [OF inv]
  have c: "clock T \<le> c" using stamped by auto
  have get: "get_page ?U j = (if j = i then Some p' else get_page T j)" for j by simp
  have flU: "free_list ?U = fl" using fl(3) by (simp add: free_list_def fun_eq_iff)
  have 2: "page_ok ?U ext' j q" if "get_page ?U j = Some q" for j q
  proof (cases "j = i")
    case True
    with that have "q = p'" by simp
    moreover have "last_access p' \<le> c" using stamped old(3) c by (fastforce simp: page_ok_def)
    ultimately show ?thesis using True ok nid by (simp add: page_ok_def shape_of_def)
  next
    case False
    with that have "page_ok T ext j q" by (intro old(3)) simp
    with ext [OF False] c nid show ?thesis by (simp add: page_ok_def shape_of_def)
  qed
  have 3: "get_page ?U j \<noteq> None" if "refs_in (sequences ?U) j + ext' j > 0" for j
  proof (cases "j = i")
    case False
    with that ext [OF False] have "refs_in (sequences T) j + ext j > 0" by simp
    from old(4) [OF this] False show ?thesis by simp
  qed simp
  have 4: "set (free_list ?U dev) = {j. \<exists>q. get_page ?U j = Some q \<and> ref_count q = 0 \<and> residency q = dev}" for dev
    unfolding flU fl(2) using old(6) [of _ dev] by (auto split: if_splits)
  have later: "last_access q \<noteq> last_access p'" if "get_page T j = Some q" "j \<noteq> i" "ref_count q > 0" "ref_count p' > 0" for j q
  proof -
    from old(3) [OF that(1)] have "last_access q \<le> clock T" by (simp add: page_ok_def)
    then show ?thesis using stamped
    proof (elim disjE exE conjE)
      fix p assume "get_page T i = Some p" "last_access p' = last_access p" "ref_count p' > 0 \<longrightarrow> ref_count p > 0"
      then show ?thesis using old(7) [OF that(1) _ that(3), of i p] that(2,4) by auto
    qed simp
  qed
  show ?thesis
  proof (rule pt_invI)
    fix j k q r
    assume "get_page ?U j = Some q" "get_page ?U k = Some r" "ref_count q > 0" "ref_count r > 0"
      "last_access q = last_access r"
    then show "j = k"
      using later [of j q] later [of k r] old(7) [of j q k r]
      by (cases "j = i"; cases "k = i") auto
  next
    show "distinct (map fst (pages ?U))" using old(1) by (simp add: put_page_def)
    show "distinct (map fst (sequences ?U))" using old(2) by simp
    show "distinct (free_list ?U dev)" for dev unfolding flU by (rule fl(1))
  qed (fact 2 3 4)+
qed

lemma free_list_unfold: "free_list T dev = (case free_pages T dev of None \<Rightarrow> [] | Some v \<Rightarrow> v)"
  by (simp add: free_list_def)

lemma pt_inv_put:
  assumes inv: "pt_inv ext T" and p: "get_page T i = Some p"
    and live: "(ref_count p > 0 \<and> ref_count p' > 0) \<or> (ref_count p' = ref_count p \<and> residency p' = residency p)"
    and ok: "page_id p' = i" "page_shape (shape_of T) p'" "ref_count p' = refs_in (sequences T) i + ext' i"
    and ext: "\<And>j. j \<noteq> i \<Longrightarrow> ext' j = ext j"
    and stamped: "(last_access p' = last_access p \<and> c = clock T) \<or> (last_access p' = c \<and> clock T < c)"
  shows "pt_inv ext' (put_page (T\<lparr>clock := c\<rparr>) i p')"
proof -
  have "set (free_list T dev) = set (free_list T dev) - {i} \<union> (if ref_count p' = 0 \<and> residency p' = dev then {i} else {})" for dev
    using pt_invD(6) [OF inv, of i dev] p live by auto
  moreover have "i < next_page_id T" using pt_invD(3) [OF inv p] by (simp add: page_ok_def)
  ultimately have "pt_inv ext' (put_page (T\<lparr>clock := c, next_page_id := next_page_id T,
      free_pages := free_pages T\<rparr>) i p')"
    using p live stamped
    by (intro pt_inv_set_page [OF inv ok ext, where fl = "free_list T"])
      (auto simp: free_list_unfold pt_invD(5) [OF inv, unfolded free_list_unfold])
  then show ?thesis by simp
qed

lemma put_page_same_clock: "put_page (T\<lparr>clock := clock T\<rparr>) i p = put_page T i p"
  by simp

text \<open>The content of a page, or its tier, changes: references stay.\<close>

lemma pt_inv_write [kv_inv]:
  assumes "pt_inv ext T" "get_page T i = Some p"
    and "page_id p' = page_id p" "page_shape (shape_of T) p'" "ref_count p' = ref_count p"
    and "last_access p' = last_access p" "ref_count p > 0 \<or> residency p' = residency p"
  shows "pt_inv ext (put_page T i p')"
  using pt_inv_put [OF assms(1,2), of p' ext "clock T"] pt_invD(3) [OF assms(1,2)] assms(3-)
  by (auto simp: page_ok_def)

lemma pt_inv_stamp:
  assumes "pt_inv ext T" "get_page T i = Some p"
    and "page_id p' = page_id p" "page_shape (shape_of T) p'" "ref_count p' = refs_in (sequences T) i + ext' i"
    and "(ref_count p > 0 \<and> ref_count p' > 0) \<or> (ref_count p' = ref_count p \<and> residency p' = residency p)"
    and "\<And>j. j \<noteq> i \<Longrightarrow> ext' j = ext j"
  shows "pt_inv ext' (stamp T i p')"
  using pt_inv_put [OF assms(1,2), of "p'\<lparr>last_access := clock T + 1\<rparr>" ext' "clock T + 1"]
    pt_invD(3) [OF assms(1,2)] assms(3-)
  by (auto simp: page_ok_def stamp_def page_shape_def residency_def)

lemma touch_inv [kv_inv]: "pt_inv ext T \<Longrightarrow> pt_inv ext (touch T i)"
  using pt_inv_stamp [of ext T i _ _ ext] pt_invD(3) [of ext T i]
  by (auto simp: touch_def page_ok_def split: option.split)

lemma retain_inv [kv_inv]:
  assumes "pt_inv ext T" "retain T i = (U, True)" "get_page T i = Some p" "0 < ref_count p" "ref_count p < u32_max"
  shows "pt_inv (ext(i := ext i + 1)) U"
proof -
  from pt_invD(3) [OF assms(1,3)] have ok: "page_ok T ext i p" .
  have "pt_inv (ext(i := ext i + 1)) (stamp T i (p\<lparr>ref_count := ref_count p + 1\<rparr>))"
    by (rule pt_inv_stamp [OF assms(1,3)]) (use ok assms(4) in \<open>auto simp: page_ok_def page_shape_def\<close>)
  with assms show ?thesis by (auto simp: retain_def sat_add_u32_def)
qed

section \<open>Migration inside the table\<close>

definition relocate :: "KvDevice \<Rightarrow> 'f Page \<Rightarrow> 'f Page" where
  "relocate dev p = p\<lparr>page_store := (page_store p)\<lparr>hs_residency := dev\<rparr>\<rparr>"

lemma relocate_fields [simp]:
  "page_id (relocate dev p) = page_id p" "ref_count (relocate dev p) = ref_count p"
  "filled (relocate dev p) = filled p" "last_access (relocate dev p) = last_access p"
  "residency (relocate dev p) = dev" "page_shape comps (relocate dev p) = page_shape comps p"
  "storage_layout (relocate dev p) = storage_layout p"
  by (simp_all add: relocate_def residency_def page_shape_def)

lemma relocate_same: "residency p = dev \<Longrightarrow> relocate dev p = p"
  by (auto simp: relocate_def residency_def)

lemma alist_update_same: "map_of al k = Some v \<Longrightarrow> AList.update k v al = al"
  by (induction al) (auto split: if_splits)

lemma put_page_same: "get_page T i = Some p \<Longrightarrow> put_page T i p = T"
  by (simp add: put_page_def get_page_def alist_update_same)

text \<open>A transient reservation is given back in full, whatever happened to the page meanwhile.\<close>

lemma reserve_transient_err: "reserve_transient T b = (U, Inl e) \<Longrightarrow> U = T"
  by (auto simp: reserve_transient_def reserve_sibling_def dest: try_claim_err
      split: option.splits prod.splits sum.splits)

lemma drop_transient_put: "drop_transient (put_page T i p) m = put_page (drop_transient T m) i p"
  by (cases m) (simp_all add: drop_transient_def put_page_def)

lemma reserve_drop_transient: "reserve_transient T b = (U, Inr m) \<Longrightarrow> drop_transient U m = T"
  by (auto simp: reserve_transient_def reserve_sibling_def try_claim_ok_iff drop_transient_def
      drop_lease_def release_def split: option.splits prod.splits sum.splits)

lemma migrate_page_cases:
  assumes "migrate_page T i target = (U, r)"
  obtains (failed) e where "r = Inl e" "U = T"
  | (moved) p where "get_page T i = Some p" "U = put_page T i (relocate target p)"
      "r = Inr \<lparr>mig_from = residency p, mig_to = target,
                bytes_copied = (if residency p = target then 0 else page_allocated_bytes p)\<rparr>"
proof (cases "get_page T i")
  case None
  with assms failed show thesis by (auto simp: migrate_page_def)
next
  case (Some p)
  show thesis
  proof (cases "residency p = target")
    case True
    with assms Some have "U = T" "r = Inr \<lparr>mig_from = target, mig_to = target, bytes_copied = 0\<rparr>"
      by (simp_all add: migrate_page_def)
    with moved [OF Some] True Some show thesis by (simp add: relocate_same put_page_same)
  next
    case False
    let ?b = "allocation_bytes (migration_factory T) target (store_layout p)"
    obtain T1 r1 where res: "reserve_transient T ?b = (T1, r1)" by (cases "reserve_transient T ?b")
    show thesis
    proof (cases r1)
      case (Inl e)
      with reserve_transient_err res have "T1 = T" by blast
      with assms Some False res Inl failed show thesis by (auto simp: migrate_page_def)
    next
      case (Inr m)
      note restored = reserve_drop_transient [OF res [unfolded Inr]]
      show thesis
      proof (cases "migrate (migration_factory T) p target")
        case (Inl e)
        with assms Some False res Inr restored failed \<open>r1 = Inr m\<close> show thesis
          by (auto simp: migrate_page_def)
      next
        case (Inr pm)
        obtain p' mg where pm: "pm = (p', mg)" by (cases pm)
        from migrate_ok [OF Inr [unfolded pm]] have "p' = relocate target p"
          "mg = \<lparr>mig_from = residency p, mig_to = target, bytes_copied = page_allocated_bytes p\<rparr>"
          using False by (auto simp: relocate_def)
        with assms Some False res \<open>r1 = Inr m\<close> Inr pm restored moved [OF Some] show thesis
          by (auto simp: migrate_page_def drop_transient_put)
      qed
    qed
  qed
qed

lemma migrate_page_inv [kv_inv]:
  assumes "migrate_page T i target = (U, r)" "pt_inv ext T" "\<And>p. get_page T i = Some p \<Longrightarrow> ref_count p > 0"
  shows "pt_inv ext U"
  using assms(1)
proof (cases rule: migrate_page_cases)
  case (failed e)
  with assms(2) show ?thesis by simp
next
  case (moved p)
  from pt_invD(3) [OF assms(2) moved(1)] have "page_shape (shape_of T) p" by (simp add: page_ok_def)
  with moved assms(3) show ?thesis by (auto intro!: pt_inv_write [OF assms(2) moved(1)])
qed

section \<open>Eviction of the least recently used hot page\<close>

lemma min_by_key_None [simp]: "min_by_key k xs = None \<longleftrightarrow> xs = []"
  by (induction xs) (auto split: option.splits if_splits)

lemma min_by_key_Some:
  "min_by_key k xs = Some x \<Longrightarrow> x \<in> set xs \<and> (\<forall>y \<in> set xs. k x \<le> k y)"
  by (induction xs arbitrary: x) (auto split: option.splits if_splits dest: order_trans le_less_trans)

lemma pages_iff:
  "pt_inv ext T \<Longrightarrow> (i, p) \<in> set (pages T) \<longleftrightarrow> get_page T i = Some p"
  using map_of_eq_Some_iff [of "pages T" i p] by (auto simp: pt_inv_def get_page_def)

lemma lru_hot_Some:
  assumes "pt_inv ext T" "lru_hot T ex = Some (i, p)"
  shows "get_page T i = Some p" "ref_count p > 0" "is_hot p" "ex \<noteq> Some i"
    and "\<And>j q. get_page T j = Some q \<Longrightarrow> ref_count q > 0 \<Longrightarrow> is_hot q \<Longrightarrow> ex \<noteq> Some j \<Longrightarrow> j \<noteq> i \<Longrightarrow>
           last_access p < last_access q"
proof -
  from min_by_key_Some [OF assms(2) [unfolded lru_hot_def]]
  have mem: "(i, p) \<in> set (pages T)" "ex \<noteq> Some i" "ref_count p > 0" "is_hot p"
    and least: "\<And>j q. (j, q) \<in> set (pages T) \<Longrightarrow> ex \<noteq> Some j \<Longrightarrow> ref_count q > 0 \<Longrightarrow> is_hot q \<Longrightarrow>
      last_access p \<le> last_access q"
    by auto
  from mem show g: "get_page T i = Some p" and "ref_count p > 0" "is_hot p" "ex \<noteq> Some i"
    by (simp_all add: pages_iff [OF assms(1)])
  fix j q
  assume j: "get_page T j = Some q" "ref_count q > 0" "is_hot q" "ex \<noteq> Some j" "j \<noteq> i"
  then have "last_access p \<le> last_access q" using least [of j q] by (simp add: pages_iff [OF assms(1)])
  moreover have "last_access p \<noteq> last_access q" using pt_invD(7) [OF assms(1) g j(1)] mem j by auto
  ultimately show "last_access p < last_access q" by simp
qed

lemma evict_lru_hot_inv [kv_inv]:
  assumes "evict_lru_hot T ex = (U, r)" "pt_inv ext T"
  shows "pt_inv ext U"
proof (cases "lru_hot T ex")
  case (Some v)
  obtain i p where v: "v = (i, p)" by (cases v)
  note lru = lru_hot_Some [OF assms(2) Some [unfolded v]]
  obtain T1 r1 where m: "migrate_page T i Cpu = (T1, r1)" by (cases "migrate_page T i Cpu")
  have "pt_inv ext T1" by (rule migrate_page_inv [OF m assms(2)]) (use lru in auto)
  with assms(1) Some v m show ?thesis
    by (auto simp: evict_lru_hot_def bump_hot_evictions_def split: sum.splits)
qed (use assms in \<open>auto simp: evict_lru_hot_def\<close>)

section \<open>Allocation and release\<close>

lemma reset_storage_fields [simp]:
  "page_id (reset_storage F p) = page_id p" "ref_count (reset_storage F p) = ref_count p"
  "filled (reset_storage F p) = 0" "last_access (reset_storage F p) = last_access p"
  "residency (reset_storage F p) = residency p" "page_shape comps (reset_storage F p) = page_shape comps p"
  by (simp_all add: reset_storage_def residency_def store_reset_def page_shape_def)

lemma page_update_fields [simp]:
  "residency (p\<lparr>ref_count := n\<rparr>) = residency p" "residency (p\<lparr>last_access := n\<rparr>) = residency p"
  "residency (p\<lparr>filled := n\<rparr>) = residency p"
  "page_shape comps (p\<lparr>ref_count := n\<rparr>) = page_shape comps p"
  "page_shape comps (p\<lparr>last_access := n\<rparr>) = page_shape comps p"
  "page_shape comps (p\<lparr>filled := n\<rparr>) = page_shape comps p"
  by (simp_all add: residency_def page_shape_def)

lemma shape_of_new: "page_shape (shape_of T) (page_new F i dev (page_size T) (layer_configs T) (quant_config T))"
  by (simp add: shape_of_def page_new_shape)

text \<open>An unreferenced page has no holder.\<close>

lemma unreferenced:
  assumes "pt_inv ext T" "get_page T i = Some p" "ref_count p = 0"
  shows "refs_in (sequences T) i = 0" "ext i = 0"
  using pt_invD(3) [OF assms(1,2)] assms(3) by (simp_all add: page_ok_def)

lemma absent_page:
  assumes "pt_inv ext T" "get_page T i = None"
  shows "refs_in (sequences T) i = 0" "ext i = 0" "i \<notin> set (free_list T dev)"
proof -
  have "\<not> refs_in (sequences T) i + ext i > 0" using pt_invD(4) [OF assms(1), of i] assms(2) by blast
  then show "refs_in (sequences T) i = 0" "ext i = 0" by simp_all
  show "i \<notin> set (free_list T dev)" using pt_invD(6) [OF assms(1), of i dev] assms(2) by simp
qed

lemma fresh_id: "pt_inv ext T \<Longrightarrow> next_page_id T \<le> i \<Longrightarrow> get_page T i = None"
  using pt_invD(3) [of ext T i] by (cases "get_page T i") (auto simp: page_ok_def)

lemma pt_update_commute:
  "T\<lparr>free_pages := fp, clock := c\<rparr> = T\<lparr>clock := c, free_pages := fp\<rparr>"
  "T\<lparr>next_page_id := n, clock := c\<rparr> = T\<lparr>clock := c, next_page_id := n\<rparr>"
  for T :: "'f PageTable"
  by simp_all

lemma take_free_page_reuse:
  assumes inv: "pt_inv ext T" and fl: "free_list T dev = vs @ [i]"
  shows "\<exists>p. get_page T i = Some p \<and> ref_count p = 0 \<and> residency p = dev \<and>
      take_free_page F T dev =
        (stamp (T\<lparr>free_pages := (free_pages T)(dev \<mapsto> vs)\<rparr>) i (reset_storage F (p\<lparr>ref_count := 1\<rparr>)), Some i) \<and>
      pt_inv (ext(i := 1)) (fst (take_free_page F T dev))"
proof -
  from pt_invD(6) [OF inv, of i dev] fl obtain p
    where p: "get_page T i = Some p" "ref_count p = 0" "residency p = dev" by auto
  obtain a w where w: "free_pages T dev = Some (a # w)" "a # w = vs @ [i]"
    using fl by (cases "vs @ [i]") (auto simp: free_list_def split: option.splits)
  then have "last (a # w) = i" "butlast (a # w) = vs" by simp_all
  then have eq: "take_free_page F T dev =
      (stamp (T\<lparr>free_pages := (free_pages T)(dev \<mapsto> vs)\<rparr>) i (reset_storage F (p\<lparr>ref_count := 1\<rparr>)), Some i)"
    using w(1) p by (simp add: take_free_page_def Let_def del: last.simps butlast.simps)
  have ok: "page_ok T ext i p" by (rule pt_invD(3) [OF inv p(1)])
  let ?p' = "reset_storage F (p\<lparr>ref_count := 1\<rparr>)\<lparr>last_access := clock T + 1\<rparr>"
  let ?fl = "\<lambda>d. if d = dev then vs else free_list T d"
  have "pt_inv (ext(i := 1)) (put_page (T\<lparr>clock := clock T + 1, next_page_id := next_page_id T,
      free_pages := (free_pages T)(dev \<mapsto> vs)\<rparr>) i ?p')"
  proof (rule pt_inv_set_page [OF inv, where fl = ?fl])
    have "distinct (vs @ [i])" using pt_invD(5) [OF inv, of dev] fl by simp
    then show "set (?fl d) = set (free_list T d) - {i} \<union> (if ref_count ?p' = 0 \<and> residency ?p' = d then {i} else {})" for d
      using fl pt_invD(6) [OF inv, of i d] p by auto
    show "distinct (?fl d)" for d using pt_invD(5) [OF inv, of d] fl by auto
  qed (use ok unreferenced [OF inv p(1,2)] in \<open>auto simp: page_ok_def free_list_def\<close>)
  with eq p show ?thesis by (simp add: stamp_def pt_update_commute)
qed

lemma take_free_page_fresh:
  assumes inv: "pt_inv ext T" and fl: "free_list T dev = []" and gpu: "is_gpu dev"
    and room: "hot_used_count T < hot_capacity T" and ids: "next_page_id T < u32_max"
  shows "let i = next_page_id T in
      take_free_page F T dev =
        (stamp (T\<lparr>next_page_id := i + 1\<rparr>) i ((page_new F i dev (page_size T) (layer_configs T) (quant_config T))\<lparr>ref_count := 1\<rparr>), Some i) \<and>
      pt_inv (ext(i := 1)) (fst (take_free_page F T dev))"
proof -
  let ?i = "next_page_id T"
  let ?p = "(page_new F ?i dev (page_size T) (layer_configs T) (quant_config T))\<lparr>ref_count := 1\<rparr>"
  have none: "get_page T ?i = None" by (rule fresh_id [OF inv]) simp
  note abs = absent_page [OF inv none]
  have eq: "take_free_page F T dev = (stamp (T\<lparr>next_page_id := ?i + 1\<rparr>) ?i ?p, Some ?i)"
    using fl gpu room ids
    by (auto simp: take_free_page_def free_list_def Let_def sat_add_u32_def split: option.splits list.splits)
  have "pt_inv (ext(?i := 1)) (put_page (T\<lparr>clock := clock T + 1, next_page_id := ?i + 1,
      free_pages := free_pages T\<rparr>) ?i (?p\<lparr>last_access := clock T + 1\<rparr>))"
    by (rule pt_inv_set_page [OF inv, where fl = "free_list T"])
      (use abs in \<open>auto simp: free_list_unfold shape_of_new pt_invD(5) [OF inv, unfolded free_list_unfold]\<close>)
  with eq show ?thesis by (simp add: stamp_def Let_def pt_update_commute)
qed

lemma take_free_page_inv:
  assumes inv: "pt_inv ext T" and ids: "next_page_id T < u32_max" and t: "take_free_page F T dev = (U, r)"
  shows "case r of Some i \<Rightarrow> ext i = 0 \<and> pt_inv (ext(i := 1)) U | None \<Rightarrow> U = T"
proof (cases "free_list T dev" rule: rev_cases)
  case (snoc vs i)
  from take_free_page_reuse [OF inv snoc, of F] obtain p
    where "get_page T i = Some p" "ref_count p = 0" "r = Some i" "pt_inv (ext(i := 1)) U"
    using t by auto
  with unreferenced [OF inv] show ?thesis by simp
next
  case Nil
  show ?thesis
  proof (cases "is_gpu dev \<and> hot_used_count T < hot_capacity T")
    case True
    then have "r = Some (next_page_id T)" "pt_inv (ext(next_page_id T := 1)) U"
      using take_free_page_fresh [OF inv Nil _ _ ids, of F] t by (auto simp: Let_def)
    with absent_page(2) [OF inv fresh_id [OF inv]] show ?thesis by simp
  next
    case False
    with t Nil show ?thesis
      by (auto simp: take_free_page_def free_list_def split: option.splits list.splits)
  qed
qed

lemma migrate_page_frame:
  assumes "migrate_page T i target = (U, r)"
  shows "next_page_id U = next_page_id T" "sequences U = sequences T" "free_pages U = free_pages T"
    "clock U = clock T" "hot_capacity U = hot_capacity T"
  using assms by (cases rule: migrate_page_cases; simp)+

lemma evict_lru_hot_frame:
  assumes "evict_lru_hot T ex = (U, r)"
  shows "next_page_id U = next_page_id T" "sequences U = sequences T" "free_pages U = free_pages T"
    "clock U = clock T" "hot_capacity U = hot_capacity T"
  using assms
  by (auto simp: evict_lru_hot_def bump_hot_evictions_def migrate_page_frame
      split: option.splits prod.splits sum.splits)

lemma allocate_inv:
  assumes inv: "pt_inv ext T" and ids: "next_page_id T < u32_max" and a: "allocate F T dev = (U, r)"
  shows "case r of Some i \<Rightarrow> ext i = 0 \<and> pt_inv (ext(i := 1)) U | None \<Rightarrow> pt_inv ext U"
proof -
  obtain T1 r1 where a1: "allocate_page F T dev = (T1, r1)" by (cases "allocate_page F T dev")
  have "case r1 of Some i \<Rightarrow> ext i = 0 \<and> pt_inv (ext(i := 1)) T1 | None \<Rightarrow> pt_inv ext T1"
  proof (cases "is_gpu dev \<and> free_count T dev = 0 \<and> hot_used_count T \<ge> hot_capacity T")
    case True
    obtain T0 r0 where e: "evict_lru_hot T None = (T0, r0)" by (cases "evict_lru_hot T None")
    note inv0 = evict_lru_hot_inv [OF e inv]
    have ids0: "next_page_id T0 < u32_max" using ids evict_lru_hot_frame [OF e] by simp
    show ?thesis
    proof (cases r0)
      case (Inl x)
      with a1 e True inv0 show ?thesis by (auto simp: allocate_page_def)
    next
      case (Inr x)
      with a1 e True have "take_free_page F T0 dev = (T1, r1)" by (simp add: allocate_page_def)
      from take_free_page_inv [OF inv0 ids0 this] inv0 show ?thesis by (auto split: option.splits)
    qed
  next
    case False
    with a1 have "take_free_page F T dev = (T1, r1)" by (simp add: allocate_page_def)
    from take_free_page_inv [OF inv ids this] inv show ?thesis by (auto split: option.splits)
  qed
  with a a1 show ?thesis by (auto simp: allocate_def split: option.splits)
qed

lemma free_page_inv [kv_inv]:
  assumes inv: "pt_inv ext T" and held: "0 < ext i"
  shows "pt_inv (ext(i := ext i - 1)) (free_page F T i)"
proof -
  from pt_invD(4) [OF inv, of i] held obtain p where p: "get_page T i = Some p" by auto
  have ok: "page_ok T ext i p" by (rule pt_invD(3) [OF inv p])
  then have pos: "ref_count p > 0" using held by (simp add: page_ok_def)
  show ?thesis
  proof (cases "ref_count p - 1 = 0")
    case False
    have "pt_inv (ext(i := ext i - 1)) (put_page (T\<lparr>clock := clock T\<rparr>) i (p\<lparr>ref_count := ref_count p - 1\<rparr>))"
      by (rule pt_inv_put [OF inv p]) (use ok False held in \<open>auto simp: page_ok_def\<close>)
    with False p show ?thesis by (simp add: free_page_def Let_def)
  next
    case True
    let ?p' = "reset_storage F (p\<lparr>ref_count := ref_count p - 1\<rparr>)"
    let ?dev = "residency p" and ?v = "free_list T (residency p)"
    let ?fp = "(free_pages T)(?dev \<mapsto> ?v @ [i])"
    have new: "i \<notin> set (free_list T d)" for d using pt_invD(6) [OF inv, of i d] p pos by auto
    have "pt_inv (ext(i := ext i - 1)) (put_page (T\<lparr>clock := clock T, next_page_id := next_page_id T,
        free_pages := ?fp\<rparr>) i ?p')"
      by (rule pt_inv_set_page [OF inv, where fl = "\<lambda>d. if d = ?dev then ?v @ [i] else free_list T d"])
        (use ok True held p pos new pt_invD(5) [OF inv] in \<open>auto simp: page_ok_def free_list_unfold\<close>)
    moreover have "free_page F T i = (put_page (T\<lparr>clock := clock T, next_page_id := next_page_id T,
        free_pages := ?fp\<rparr>) i ?p')\<lparr>stats := (stats T)\<lparr>frees := frees (stats T) + 1\<rparr>\<rparr>"
      using p True by (simp add: free_page_def Let_def put_page_def free_list_def)
    ultimately show ?thesis by simp
  qed
qed

section \<open>Sequences\<close>

lemma pt_inv_sequences:
  assumes inv: "pt_inv ext T" and dist: "distinct (map fst S)"
    and refs: "\<And>i. refs_in S i + ext' i = refs_in (sequences T) i + ext i"
  shows "pt_inv ext' (T\<lparr>sequences := S\<rparr>)"
proof (rule pt_invI)
  show "page_ok (T\<lparr>sequences := S\<rparr>) ext' i p" if "get_page (T\<lparr>sequences := S\<rparr>) i = Some p" for i p
    using pt_invD(3) [OF inv, of i p] that refs [of i] by (simp add: page_ok_def shape_of_def)
  show "get_page (T\<lparr>sequences := S\<rparr>) i \<noteq> None" if "refs_in (sequences (T\<lparr>sequences := S\<rparr>)) i + ext' i > 0" for i
    using pt_invD(4) [OF inv, of i] that refs [of i] by simp
  show "set (free_list (T\<lparr>sequences := S\<rparr>) dev) =
      {i. \<exists>p. get_page (T\<lparr>sequences := S\<rparr>) i = Some p \<and> ref_count p = 0 \<and> residency p = dev}" for dev
    using pt_invD(6) [OF inv, of _ dev] by auto
  fix i j p q
  assume "get_page (T\<lparr>sequences := S\<rparr>) i = Some p" "get_page (T\<lparr>sequences := S\<rparr>) j = Some q"
    "0 < ref_count p" "0 < ref_count q" "last_access p = last_access q"
  then show "i = j" using pt_invD(7) [OF inv, of i p j q] by simp
qed (use dist pt_invD(1,5) [OF inv] in simp_all)

lemma refs_in_update:
  assumes "distinct (map fst S)" "map_of S s = Some ps"
  shows "refs_in (AList.update s qs S) i + count_list ps i = refs_in S i + count_list qs i"
  using weight_alist_update [OF assms, of "\<lambda>(_, ps). count_list ps i" qs] by (simp add: refs_in_def)

lemma refs_in_insert:
  "map_of S s = None \<Longrightarrow> refs_in (AList.update s qs S) i = refs_in S i + count_list qs i"
  using weight_alist_insert [of S s "\<lambda>(_, ps). count_list ps i" qs] by (simp add: refs_in_def)

lemma refs_in_delete:
  "distinct (map fst S) \<Longrightarrow> map_of S s = Some ps \<Longrightarrow>
     refs_in (AList.delete s S) i + count_list ps i = refs_in S i"
  using weight_alist_delete [of S s ps "\<lambda>(_, ps). count_list ps i"] by (simp add: refs_in_def)

lemma refs_in_member: "map_of S s = Some ps \<Longrightarrow> count_list ps i \<le> refs_in S i"
  using weight_alist_member [of S s ps "\<lambda>(_, ps). count_list ps i"] by (simp add: refs_in_def)

lemma sequence_page_live:
  assumes "pt_inv ext T" "get_sequence T s = Some ps" "i \<in> set ps"
  shows "\<exists>p. get_page T i = Some p \<and> ref_count p > 0 \<and> page_ok T ext i p"
proof -
  have "count_list ps i > 0" using assms(3) by (meson count_list_0_iff gr0I)
  with refs_in_member [of "sequences T" s ps i] assms(2) have pos: "refs_in (sequences T) i > 0"
    by (simp add: get_sequence_def)
  then have "get_page T i \<noteq> None" using pt_invD(4) [OF assms(1), of i] by simp
  then obtain p where "get_page T i = Some p" by blast
  with pt_invD(3) [OF assms(1), of i p] pos show ?thesis by (auto simp: page_ok_def)
qed

lemma set_sequences_inv:
  assumes inv: "pt_inv ext T" and ps: "get_sequence T s = Some ps"
    and refs: "\<And>i. count_list qs i + ext' i = count_list ps i + ext i"
  shows "pt_inv ext' (T\<lparr>sequences := AList.update s qs (sequences T)\<rparr>)"
proof (rule pt_inv_sequences [OF inv])
  fix i
  from refs_in_update [OF pt_invD(2) [OF inv] ps [unfolded get_sequence_def], of qs i] refs [of i]
  show "refs_in (AList.update s qs (sequences T)) i + ext' i = refs_in (sequences T) i + ext i" by simp
qed (use pt_invD(2) [OF inv] in simp)

lemma create_sequence_inv [kv_inv]:
  assumes "pt_inv ext T" "get_sequence T s = None"
  shows "pt_inv ext (pt_create_sequence T s)"
proof -
  have "pt_inv ext (T\<lparr>sequences := AList.update s [] (sequences T)\<rparr>)"
    by (rule pt_inv_sequences [OF assms(1)])
      (use assms pt_invD(2) [OF assms(1)] in \<open>auto simp: refs_in_insert get_sequence_def\<close>)
  then show ?thesis by (simp add: pt_create_sequence_def)
qed

lemma count_list_snoc: "count_list (xs @ [y]) i = count_list xs i + (if y = i then 1 else 0)"
  by (induction xs) auto

lemma push_page_inv [kv_inv]:
  assumes "pt_inv ext T" "get_sequence T s = Some ps" "0 < ext i"
  shows "pt_inv (ext(i := ext i - 1)) (push_page T s i)"
  using set_sequences_inv [OF assms(1,2), of "ps @ [i]" "ext(i := ext i - 1)"] assms
  by (auto simp: push_page_def count_list_snoc)

lemma count_list_update:
  "k < length xs \<Longrightarrow> count_list (xs[k := y]) i + (if xs ! k = i then 1 else 0) = count_list xs i + (if y = i then 1 else 0)"
proof (induction xs arbitrary: k)
  case (Cons x xs)
  show ?case
  proof (cases k)
    case (Suc k')
    with Cons.prems Cons.IH [of k'] show ?thesis by auto
  qed auto
qed simp

lemma replace_page_inv [kv_inv]:
  assumes "pt_inv ext T" "get_sequence T s = Some ps" "k < length ps" "0 < ext i"
  shows "pt_inv ((ext(i := ext i - 1))(ps ! k := (ext(i := ext i - 1)) (ps ! k) + 1)) (replace_page T s k i)"
proof -
  let ?ext = "(ext(i := ext i - 1))(ps ! k := (ext(i := ext i - 1)) (ps ! k) + 1)"
  have "count_list (ps[k := i]) j + ?ext j = count_list ps j + ext j" for j
    using count_list_update [OF assms(3), of i j] assms(4) by (auto split: if_splits)
  then have "pt_inv ?ext (T\<lparr>sequences := AList.update s (ps[k := i]) (sequences T)\<rparr>)"
    by (rule set_sequences_inv [OF assms(1,2)])
  moreover have "replace_page T s k i = T\<lparr>sequences := AList.update s (ps[k := i]) (sequences T)\<rparr>"
    using assms(2,3) by (simp add: replace_page_def)
  ultimately show ?thesis by simp
qed

lemma remove_sequence_inv [kv_inv]:
  assumes "pt_inv ext T" "remove_sequence T s = (U, ps)"
  shows "pt_inv (\<lambda>i. ext i + count_list ps i) U"
proof (cases "get_sequence T s")
  case None
  then have "AList.delete s (sequences T) = sequences T"
    by (auto simp: get_sequence_def AList.delete_eq map_of_eq_None_iff image_iff intro!: filter_True)
  with assms None show ?thesis by (auto simp: remove_sequence_def)
next
  case (Some qs)
  have "pt_inv (\<lambda>i. ext i + count_list qs i) (T\<lparr>sequences := AList.delete s (sequences T)\<rparr>)"
  proof (rule pt_inv_sequences [OF assms(1)])
    fix i
    from refs_in_delete [OF pt_invD(2) [OF assms(1)] Some [unfolded get_sequence_def], of i]
    show "refs_in (AList.delete s (sequences T)) i + (ext i + count_list qs i) = refs_in (sequences T) i + ext i"
      by simp
  qed (use pt_invD(2) [OF assms(1)] in \<open>simp add: distinct_delete\<close>)
  with assms Some show ?thesis by (auto simp: remove_sequence_def)
qed

section \<open>Tiering\<close>

lemma promote_to_hot_inv [kv_inv]:
  assumes "promote_to_hot T i = (U, r)" "pt_inv ext T" "\<And>p. get_page T i = Some p \<Longrightarrow> ref_count p > 0"
  shows "pt_inv ext U"
proof (cases "get_page T i")
  case None
  with assms show ?thesis by (auto simp: promote_to_hot_def)
next
  case (Some p)
  have pos: "ref_count p > 0" and ok: "page_ok T ext i p"
    using assms(3) Some pt_invD(3) [OF assms(2) Some] by auto
  have hot: "pt_inv ext (touch T i)" by (rule touch_inv [OF assms(2)])
  have step: "pt_inv ext T2 \<and> (case get_page T2 i of None \<Rightarrow> True | Some p2 \<Rightarrow> pt_inv ext (stamp T2 i p2))"
    if inv1: "pt_inv ext T1" and live: "\<And>q. get_page T1 i = Some q \<Longrightarrow> ref_count q > 0"
      and m: "migrate_page T1 i (Gpu 0) = (T2, r2)" for T1 T2 r2
  proof -
    have inv2: "pt_inv ext T2" by (rule migrate_page_inv [OF m inv1 live])
    moreover have "pt_inv ext (stamp T2 i q)" if "get_page T2 i = Some q" for q
      using touch_inv [OF inv2, of i] that by (simp add: touch_def)
    ultimately show ?thesis by (auto split: option.split)
  qed
  have evicted: "pt_inv ext T1 \<and> (\<forall>q. get_page T1 i = Some q \<longrightarrow> ref_count q > 0)"
    if e: "evict_lru_hot T (Some i) = (T1, r1)" for T1 r1
  proof -
    note inv1 = evict_lru_hot_inv [OF e assms(2)]
    moreover have "refs_in (sequences T1) i + ext i > 0"
      using ok pos evict_lru_hot_frame [OF e] by (simp add: page_ok_def)
    ultimately show ?thesis using pt_invD(3) [OF inv1, of i] by (auto simp: page_ok_def)
  qed
  have T0: "pt_inv ext T \<and> (\<forall>q. get_page T i = Some q \<longrightarrow> ref_count q > 0)" using assms(2,3) by blast
  show ?thesis
    using assms(1) Some hot T0 step evicted
    by (fastforce simp: promote_to_hot_def Let_def split: if_splits prod.splits sum.splits option.splits)
qed

lemma demote_pages_inv:
  "demote_pages T is n = (U, r) \<Longrightarrow> pt_inv ext T \<Longrightarrow>
     \<forall>i \<in> set is. refs_in (sequences T) i + ext i > 0 \<Longrightarrow> pt_inv ext U"
proof (induction T "is" n rule: demote_pages.induct)
  case (2 T i "is" n)
  show ?case
  proof (cases "\<exists>p. get_page T i = Some p \<and> ref_count p \<le> 1 \<and> is_hot p")
    case True
    then obtain p where p: "get_page T i = Some p" "ref_count p \<le> 1" "is_hot p" by blast
    obtain T1 r1 where m: "migrate_page T i Cpu = (T1, r1)" by (cases "migrate_page T i Cpu")
    have "ref_count p > 0" using pt_invD(3) [OF 2(5) p(1)] 2(6) by (auto simp: page_ok_def)
    then have inv1: "pt_inv ext T1" using migrate_page_inv [OF m 2(5)] p by simp
    with 2 p m migrate_page_frame [OF m] show ?thesis by (auto split: sum.splits)
  next
    case False
    with 2 show ?thesis by (auto split: option.splits if_splits)
  qed
qed simp

lemma evict_sequence_to_cold_inv [kv_inv]:
  assumes "evict_sequence_to_cold T s = (U, r)" "pt_inv ext T"
  shows "pt_inv ext U"
proof (cases "get_sequence T s")
  case (Some ps)
  obtain T1 r1 where d: "demote_pages T ps 0 = (T1, r1)" by (cases "demote_pages T ps 0")
  have "refs_in (sequences T) i + ext i > 0" if "i \<in> set ps" for i
    using sequence_page_live [OF assms(2) Some that] by (auto simp: page_ok_def)
  then have "pt_inv ext T1" by (intro demote_pages_inv [OF d assms(2)] ballI)
  with assms(1) Some d show ?thesis
    by (auto simp: evict_sequence_to_cold_def bump_hot_evictions_def split: sum.splits)
qed (use assms in \<open>auto simp: evict_sequence_to_cold_def\<close>)

section \<open>What eviction and allocation do\<close>

definition hot_weight :: "nat \<times> 'f Page \<Rightarrow> nat" where
  "hot_weight x = (if ref_count (snd x) > 0 \<and> is_hot (snd x) then 1 else 0)"

lemma hot_used_weight: "hot_used_count T = weight hot_weight (pages T)"
proof -
  have "length (filter (\<lambda>(_, p). ref_count p > 0 \<and> is_hot p) xs) = weight hot_weight xs"
    for xs :: "(nat \<times> 'f Page) list"
    by (induction xs) (auto simp: hot_weight_def)
  then show ?thesis by (simp add: hot_used_count_def)
qed

lemma hot_used_put:
  assumes "pt_inv ext T" "get_page T i = Some p"
  shows "hot_used_count (put_page T i p') + hot_weight (i, p) = hot_used_count T + hot_weight (i, p')"
  using weight_alist_update [OF pt_invD(1) [OF assms(1)] assms(2) [unfolded get_page_def]]
  by (simp add: hot_used_weight put_page_def)

definition evictable :: "'f PageTable \<Rightarrow> nat option \<Rightarrow> nat \<Rightarrow> bool" where
  "evictable T ex i \<longleftrightarrow>
     ex \<noteq> Some i \<and> (case get_page T i of None \<Rightarrow> False | Some p \<Rightarrow> ref_count p > 0 \<and> is_hot p)"

lemma lru_hot_None:
  "pt_inv ext T \<Longrightarrow> lru_hot T ex = None \<longleftrightarrow> (\<nexists>i. evictable T ex i)"
  by (fastforce simp: lru_hot_def evictable_def filter_empty_conv pages_iff split: option.splits)

lemma migrate_page_host:
  assumes "pt_inv ext T" "get_page T i = Some p" "migration_factory T = host_factory F" "pool_lease T = None"
    and "target \<noteq> DiskDevice"
  shows "fst (migrate_page T i target) = put_page T i (relocate target p)" "is_ok (snd (migrate_page T i target))"
proof -
  from pt_invD(3) [OF assms(1,2)] have "page_shape (shape_of T) p" by (simp add: page_ok_def)
  from migrate_host_ok [OF this assms(5), of F] assms
  show "is_ok (snd (migrate_page T i target))"
    by (auto simp: migrate_page_def reserve_transient_def)
  then show "fst (migrate_page T i target) = put_page T i (relocate target p)"
    using migrate_page_cases [of T i target "fst (migrate_page T i target)" "snd (migrate_page T i target)"]
      assms(2) by (metis is_ok.simps(1) option.inject prod.collapse)
qed

text \<open>
  C8. \<open>evict_lru_hot\<close> demotes exactly one page, the live hot page (other than the excluded one)
  whose last access is strictly older than that of every other candidate, so the choice
  does not depend on the iteration order of the hash map; the page keeps its contents,
  the hot tier shrinks by one, and no other page changes. A failure changes nothing, and
  in an ungoverned pool on host storage it happens only when there is no candidate.
\<close>

theorem evict_lru_hot_demotes_the_lru_page:
  assumes inv: "pt_inv ext T"
  shows "case evict_lru_hot T ex of
           (U, Inr v) \<Rightarrow> evictable T ex v \<and>
             (\<forall>j p q. evictable T ex j \<and> j \<noteq> v \<and> get_page T v = Some p \<and> get_page T j = Some q
                \<longrightarrow> last_access p < last_access q) \<and>
             get_page U v = map_option (relocate Cpu) (get_page T v) \<and>
             (\<forall>j. j \<noteq> v \<longrightarrow> get_page U j = get_page T j) \<and>
             hot_used_count U + 1 = hot_used_count T \<and> pt_inv ext U
         | (U, Inl e) \<Rightarrow> U = T \<and>
             (migration_factory T = host_factory F \<and> pool_lease T = None
                \<longrightarrow> e = OutOfMemory 1 0 \<and> (\<forall>i. \<not> evictable T ex i))"
proof (cases "lru_hot T ex")
  case None
  then show ?thesis using lru_hot_None [OF inv, of ex] by (simp add: evict_lru_hot_def)
next
  case (Some vp)
  obtain v p where vp: "vp = (v, p)" by (cases vp)
  note lru = lru_hot_Some [OF inv Some [unfolded vp]]
  obtain T1 r1 where m: "migrate_page T v Cpu = (T1, r1)" by (cases "migrate_page T v Cpu")
  show ?thesis
  proof (cases r1)
    case (Inl e)
    with m have "T1 = T" by (auto elim: migrate_page_cases)
    moreover have "\<not> (migration_factory T = host_factory F \<and> pool_lease T = None)"
      using migrate_page_host(2) [OF inv lru(1), of F Cpu] m Inl by auto
    ultimately show ?thesis using Inl Some vp m by (auto simp: evict_lru_hot_def)
  next
    case (Inr mg)
    with m lru(1) have T1: "T1 = put_page T v (relocate Cpu p)" by (auto elim: migrate_page_cases)
    have U: "evict_lru_hot T ex = (bump_hot_evictions T1 1, Inr v)"
      using Some vp m Inr by (simp add: evict_lru_hot_def)
    have "hot_used_count T1 + 1 = hot_used_count T"
      using hot_used_put [OF inv lru(1), of "relocate Cpu p"] lru T1 by (simp add: hot_weight_def is_hot_def)
    then have "hot_used_count (bump_hot_evictions T1 1) + 1 = hot_used_count T"
      by (simp add: bump_hot_evictions_def hot_used_count_def)
    moreover have "evictable T ex v" using lru by (simp add: evictable_def)
    moreover have "last_access p < last_access q" if "evictable T ex j" "j \<noteq> v" "get_page T j = Some q" for j q
      using lru(5) [of j q] that by (auto simp: evictable_def)
    moreover have "pt_inv ext (bump_hot_evictions T1 1)" by (rule evict_lru_hot_inv [OF U inv])
    ultimately show ?thesis using U T1 lru(1) by (auto simp: bump_hot_evictions_def)
  qed
qed

text \<open>A pool of two bookkeeping pages, both handed out.\<close>

definition demo_pool :: "int PageTable" where
  "demo_pool = pt_build int_ops (ledger_new 1 0 0 0) 4 2 None [] None"

definition demo_full :: "int PageTable" where
  "demo_full = fst (allocate int_ops (fst (allocate int_ops demo_pool (Gpu 0))) (Gpu 0))"

lemma demo_full_inv: "pt_inv ((\<lambda>_. 0)(1 := 1, 0 := 1)) demo_full"
proof -
  let ?T = "fst (allocate int_ops demo_pool (Gpu 0))"
  have inv: "pt_inv (\<lambda>_. 0) demo_pool" by (simp add: demo_pool_def pt_build_inv)
  have r: "snd (allocate int_ops demo_pool (Gpu 0)) = Some 1" "snd (allocate int_ops ?T (Gpu 0)) = Some 0"
    "next_page_id demo_pool = 2" "next_page_id ?T = 2"
    by code_simp+
  have "pt_inv ((\<lambda>_. 0)(1 := 1)) ?T"
    using allocate_inv [OF inv, of int_ops "Gpu 0" ?T "Some 1"] r by (simp add: u32_max_def prod_eq_iff)
  from allocate_inv [OF this, of int_ops "Gpu 0" demo_full "Some 0"] r show ?thesis
    by (simp add: u32_max_def prod_eq_iff demo_full_def)
qed

theorem evict_lru_hot_demotes_the_lru_page_witness:
  "snd (evict_lru_hot demo_full None) = Inr 1 \<and> hot_used_count (fst (evict_lru_hot demo_full None)) = 1"
proof -
  have "snd (evict_lru_hot demo_full None) = Inr 1" "hot_used_count demo_full = 2"
    by code_simp+
  with evict_lru_hot_demotes_the_lru_page [OF demo_full_inv, where ex = None and F = int_ops] show ?thesis
    by (cases "evict_lru_hot demo_full None") auto
qed

lemma clean_store:
  assumes "page_shape comps p"
  shows "page_store (reset_storage F p) = host_store_new F (residency p) (store_layout p)"
proof -
  obtain a b c d where l: "store_layout p = \<lparr>f32_len = a, int8_len = b, fp8_len = c, scale_len = d\<rparr>"
    by (cases "store_layout p")
  from assms l show ?thesis
    by (simp add: page_shape_def layout_of_closed reset_storage_def store_reset_def host_store_new_def
        residency_def)
qed

definition clean_page :: "'f f32_ops \<Rightarrow> KvDevice \<Rightarrow> 'f Page \<Rightarrow> bool" where
  "clean_page F dev p \<longleftrightarrow>
     ref_count p = 1 \<and> filled p = 0 \<and> page_store p = host_store_new F dev (store_layout p)"

lemma take_free_page_clean:
  assumes inv: "pt_inv ext T" and ids: "next_page_id T < u32_max" and t: "take_free_page F T dev = (U, Some i)"
  shows "\<exists>p. get_page U i = Some p \<and> clean_page F dev p" "\<And>j. j \<noteq> i \<Longrightarrow> get_page U j = get_page T j"
    "refs_in (sequences T) i = 0" "ext i = 0"
proof -
  have "(\<exists>p. get_page U i = Some p \<and> clean_page F dev p) \<and> (\<forall>j. j \<noteq> i \<longrightarrow> get_page U j = get_page T j)
      \<and> refs_in (sequences T) i = 0 \<and> ext i = 0"
  proof (cases "free_list T dev" rule: rev_cases)
    case (snoc vs k)
    from take_free_page_reuse [OF inv snoc, of F] t obtain p where
      p: "get_page T i = Some p" "ref_count p = 0" "residency p = dev" "k = i" and
      U: "U = stamp (T\<lparr>free_pages := (free_pages T)(dev \<mapsto> vs)\<rparr>) i (reset_storage F (p\<lparr>ref_count := 1\<rparr>))"
      by auto
    have "page_shape (shape_of T) (p\<lparr>ref_count := 1\<rparr>)"
      using pt_invD(3) [OF inv p(1)] by (simp add: page_ok_def)
    from clean_store [OF this, of F] U p unreferenced [OF inv p(1,2)] show ?thesis
      by (simp add: stamp_def clean_page_def reset_storage_def)
  next
    case Nil
    have room: "is_gpu dev \<and> hot_used_count T < hot_capacity T"
      using t Nil by (auto simp: take_free_page_def free_list_def split: option.splits list.splits if_splits)
    from take_free_page_fresh [OF inv Nil _ _ ids, of F] room t have i: "i = next_page_id T" and
      U: "U = stamp (T\<lparr>next_page_id := i + 1\<rparr>) i ((page_new F i dev (page_size T) (layer_configs T) (quant_config T))\<lparr>ref_count := 1\<rparr>)"
      by (auto simp: Let_def)
    note abs = absent_page [OF inv fresh_id [OF inv order_refl]]
    have "clean_page F dev (page_new F i dev (page_size T) (layer_configs T) (quant_config T)\<lparr>ref_count := 1, last_access := n\<rparr>)" for n
      by (simp add: clean_page_def) (simp add: page_new_def split_beta Let_def)
    with U abs i show ?thesis by (simp add: stamp_def)
  qed
  then show "\<exists>p. get_page U i = Some p \<and> clean_page F dev p" "\<And>j. j \<noteq> i \<Longrightarrow> get_page U j = get_page T j"
    "refs_in (sequences T) i = 0" "ext i = 0" by blast+
qed

text \<open>
  \<open>allocate\<close> is an optional eviction followed by \<open>take_free_page\<close>; the eviction, when there is
  one, relocates one live page.
\<close>

lemma evict_lru_hot_ok:
  assumes "pt_inv ext T" "evict_lru_hot T ex = (U, Inr v)"
  shows "\<exists>p. get_page T v = Some p \<and> ref_count p > 0 \<and> pages U = pages (put_page T v (relocate Cpu p))"
    "hot_used_count U + 1 = hot_used_count T"
proof -
  from assms(2) obtain p where l: "lru_hot T ex = Some (v, p)"
    by (auto simp: evict_lru_hot_def split: option.splits prod.splits sum.splits)
  note lru = lru_hot_Some [OF assms(1) l]
  obtain T1 m where mig: "migrate_page T v Cpu = (T1, Inr m)" and U: "U = bump_hot_evictions T1 1"
    using assms(2) l by (auto simp: evict_lru_hot_def split: prod.splits sum.splits)
  from mig lru(1) have T1: "T1 = put_page T v (relocate Cpu p)" by (auto elim: migrate_page_cases)
  with U lru show "\<exists>p. get_page T v = Some p \<and> ref_count p > 0 \<and> pages U = pages (put_page T v (relocate Cpu p))"
    by (auto simp: bump_hot_evictions_def)
  show "hot_used_count U + 1 = hot_used_count T"
    using hot_used_put [OF assms(1) lru(1), of "relocate Cpu p"] lru T1 U
    by (simp add: hot_weight_def is_hot_def bump_hot_evictions_def hot_used_count_def)
qed

lemma allocate_cases:
  assumes "allocate F T dev = (U, Some i)" "pt_inv ext T"
  obtains T0 where "pt_inv ext T0" "pages (fst (take_free_page F T0 dev)) = pages U"
    "snd (take_free_page F T0 dev) = Some i"
    "next_page_id T0 = next_page_id T" "sequences T0 = sequences T"
    "T0 = T \<or> (\<exists>v p. get_page T v = Some p \<and> ref_count p > 0 \<and> pages T0 = pages (put_page T v (relocate Cpu p)))"
proof (cases "is_gpu dev \<and> free_count T dev = 0 \<and> hot_used_count T \<ge> hot_capacity T")
  case False
  with assms that [of T] show thesis by (auto simp: allocate_def allocate_page_def split: prod.splits option.splits)
next
  case True
  obtain T0 r0 where e: "evict_lru_hot T None = (T0, r0)" by (cases "evict_lru_hot T None")
  with True assms obtain v where r0: "r0 = Inr v"
    by (cases r0) (auto simp: allocate_def allocate_page_def)
  have t: "pages (fst (take_free_page F T0 dev)) = pages U" "snd (take_free_page F T0 dev) = Some i"
    using assms(1) True e r0 by (auto simp: allocate_def allocate_page_def split: prod.splits option.splits)
  from evict_lru_hot_ok(1) [OF assms(2) e [unfolded r0]] obtain p
    where "get_page T v = Some p" "ref_count p > 0" "pages T0 = pages (put_page T v (relocate Cpu p))" by blast
  then show thesis
    using that [OF evict_lru_hot_inv [OF e assms(2)] t] evict_lru_hot_frame [OF e] by blast
qed

lemma evict_succeeds:
  assumes inv: "pt_inv ext T" and host: "migration_factory T = host_factory F" "pool_lease T = None"
    and hot: "hot_used_count T > 0"
  shows "\<exists>U v. evict_lru_hot T None = (U, Inr v)"
proof -
  have "\<exists>x \<in> set (pages T). hot_weight x > 0"
    using hot weight_const [of "pages T" hot_weight 0] by (intro ccontr [of "\<exists>x \<in> _. _ x"]) (auto simp: hot_used_weight)
  then obtain i q where "(i, q) \<in> set (pages T)" "hot_weight (i, q) > 0" by auto
  then have "evictable T None i"
    by (auto simp: hot_weight_def evictable_def pages_iff [OF inv] split: if_splits)
  then have "lru_hot T None \<noteq> None" using lru_hot_None [OF inv, of None] by blast
  then obtain v p where l: "lru_hot T None = Some (v, p)" by auto
  from migrate_page_host(2) [OF inv lru_hot_Some(1) [OF inv l] host, of Cpu] l show ?thesis
    by (cases "migrate_page T v Cpu"; cases "snd (migrate_page T v Cpu)") (auto simp: evict_lru_hot_def)
qed

lemma allocate_succeeds:
  assumes inv: "pt_inv ext T" and gpu: "is_gpu dev"
    and host: "migration_factory T = host_factory F" "pool_lease T = None"
    and room: "0 < hot_capacity T" "hot_used_count T \<le> hot_capacity T"
  shows "snd (allocate F T dev) \<noteq> None"
proof -
  have some: "snd (take_free_page F X dev) \<noteq> None" if "free_count X dev \<noteq> 0 \<or> hot_used_count X < hot_capacity X" for X
    using that gpu by (auto simp: take_free_page_def free_count_def Let_def split: option.splits list.splits)
  show ?thesis
  proof (cases "free_count T dev = 0 \<and> hot_used_count T \<ge> hot_capacity T")
    case False
    with some [of T] show ?thesis by (auto simp: allocate_def allocate_page_def split: prod.splits option.splits)
  next
    case True
    with room obtain T0 v where e: "evict_lru_hot T None = (T0, Inr v)"
      using evict_succeeds [OF inv host] by auto
    from evict_lru_hot_ok(2) [OF inv e] evict_lru_hot_frame [OF e] room
    have "hot_used_count T0 < hot_capacity T0" by simp
    with some [of T0] True e gpu show ?thesis
      by (auto simp: allocate_def allocate_page_def split: prod.splits option.splits)
  qed
qed

text \<open>
  C9. A page handed out by \<open>allocate\<close> was held by nobody: no sequence names it and no other
  holder counts it. It comes back owned once, empty, resident on the requested device and
  with zeroed storage. Every other page keeps its identity, reference count and contents;
  the whole table keeps its ownership invariant. On an ungoverned GPU pool with room for a
  page the allocation always succeeds, evicting when the tier is full.
\<close>

theorem allocate_hands_out_a_clean_exclusive_page:
  assumes inv: "pt_inv ext T" and ids: "next_page_id T < u32_max"
  shows "(\<forall>U i. allocate F T dev = (U, Some i) \<longrightarrow>
            refs_in (sequences T) i = 0 \<and> ext i = 0 \<and>
            (\<exists>p. get_page U i = Some p \<and> clean_page F dev p) \<and>
            (\<forall>j p. j \<noteq> i \<and> get_page T j = Some p \<longrightarrow>
               get_page U j = Some p \<or> get_page U j = Some (relocate Cpu p)) \<and>
            pt_inv (ext(i := 1)) U) \<and>
         (\<forall>U. allocate F T dev = (U, None) \<longrightarrow> pt_inv ext U) \<and>
         (is_gpu dev \<and> migration_factory T = host_factory F \<and> pool_lease T = None \<and>
          0 < hot_capacity T \<and> hot_used_count T \<le> hot_capacity T \<longrightarrow> snd (allocate F T dev) \<noteq> None)"
proof (intro conjI allI impI)
  fix U i assume a: "allocate F T dev = (U, Some i)"
  from allocate_inv [OF inv ids a] show "pt_inv (ext(i := 1)) U" by simp
  from a inv obtain T0 where T0: "pt_inv ext T0" "pages (fst (take_free_page F T0 dev)) = pages U"
    "snd (take_free_page F T0 dev) = Some i" "next_page_id T0 = next_page_id T" "sequences T0 = sequences T"
    and ev: "T0 = T \<or> (\<exists>v p. get_page T v = Some p \<and> ref_count p > 0 \<and> pages T0 = pages (put_page T v (relocate Cpu p)))"
    by (rule allocate_cases)
  have get: "get_page (fst (take_free_page F T0 dev)) = get_page U" using T0(2) by (simp add: get_page_def fun_eq_iff)
  have take: "take_free_page F T0 dev = (fst (take_free_page F T0 dev), Some i)" using T0(3) by (metis prod.collapse)
  have ids0: "next_page_id T0 < u32_max" using ids T0(4) by simp
  note clean = take_free_page_clean [OF T0(1) ids0 take, unfolded get]
  show "refs_in (sequences T) i = 0" "ext i = 0" "\<exists>p. get_page U i = Some p \<and> clean_page F dev p"
    using clean T0(5) by auto
  fix j p assume j: "j \<noteq> i \<and> get_page T j = Some p"
  from ev have "get_page T0 j = Some p \<or> get_page T0 j = Some (relocate Cpu p)"
  proof
    assume "\<exists>v p. get_page T v = Some p \<and> ref_count p > 0 \<and> pages T0 = pages (put_page T v (relocate Cpu p))"
    then obtain v q where "get_page T v = Some q" "pages T0 = pages (put_page T v (relocate Cpu q))" by blast
    then show ?thesis using j by (auto simp: get_page_def put_page_def split: if_splits)
  qed (use j in simp)
  then show "get_page U j = Some p \<or> get_page U j = Some (relocate Cpu p)" using clean(2) j by simp
next
  fix U assume "allocate F T dev = (U, None)"
  from allocate_inv [OF inv ids this] show "pt_inv ext U" by simp
next
  assume "is_gpu dev \<and> migration_factory T = host_factory F \<and> pool_lease T = None \<and>
          0 < hot_capacity T \<and> hot_used_count T \<le> hot_capacity T"
  with allocate_succeeds [OF inv] show "snd (allocate F T dev) \<noteq> None" by blast
qed

theorem allocate_hands_out_a_clean_exclusive_page_witness:
  "snd (allocate int_ops demo_full (Gpu 0)) = Some 2 \<and>
   (\<exists>p. get_page (fst (allocate int_ops demo_full (Gpu 0))) 2 = Some p \<and> clean_page int_ops (Gpu 0) p) \<and>
   pt_inv ((\<lambda>_. 0)(1 := 1, 0 := 1, 2 := 1)) (fst (allocate int_ops demo_full (Gpu 0)))"
proof -
  have "snd (allocate int_ops demo_full (Gpu 0)) = Some 2" "next_page_id demo_full = 2" by code_simp+
  with allocate_hands_out_a_clean_exclusive_page [OF demo_full_inv, where F = int_ops and dev = "Gpu 0"]
  show ?thesis by (cases "allocate int_ops demo_full (Gpu 0)") (auto simp: u32_max_def)
qed

text \<open>
  The hot capacity is not an upper bound on the live hot pages. With room for one hot
  page: page 0 is demoted to make room for page 1, page 1 is released, page 0 is promoted
  again, and the next allocation takes page 1 off the free list without evicting.
\<close>

definition one_page_pool :: "int PageTable" where
  "one_page_pool = pt_build int_ops (ledger_new 1 0 0 0) 4 1 None [] None"

definition overfull_pool :: "int PageTable" where
  "overfull_pool =
     (let T1 = fst (allocate int_ops one_page_pool (Gpu 0));
          T2 = fst (allocate int_ops T1 (Gpu 0));
          T3 = free_page int_ops T2 1;
          T4 = fst (promote_to_hot T3 0)
      in fst (allocate int_ops T4 (Gpu 0)))"

theorem hot_capacity_can_be_exceeded:
  "hot_capacity overfull_pool = 1 \<and> hot_used_count overfull_pool = 2"
  by code_simp

section \<open>Rolling an allocation back\<close>

lemma put_put [simp]: "put_page (put_page T i p) i q = put_page T i q"
proof -
  have "AList.update i q (AList.update i p al) = AList.update i q al" for al :: "(nat \<times> 'a Page) list"
    by (induction al) auto
  then show ?thesis by (simp add: put_page_def)
qed

lemma alist_delete_fresh: "map_of al i = None \<Longrightarrow> AList.delete i (AList.update i p al) = al"
  by (induction al) (auto split: if_splits)

text \<open>A table up to the fields that an allocation may change.\<close>

definition alloc_frame :: "'f PageTable \<Rightarrow> 'f PageTable" where
  "alloc_frame T = T\<lparr>pages := [], free_pages := Map.empty, stats := default_stats, clock := 0, next_page_id := 0\<rparr>"

lemma alloc_frame_put [simp]: "alloc_frame (put_page T i p) = alloc_frame T"
  by (simp add: alloc_frame_def put_page_def)

lemma alloc_frame_upd [simp]:
  "alloc_frame (T\<lparr>clock := c\<rparr>) = alloc_frame T" "alloc_frame (T\<lparr>free_pages := fp\<rparr>) = alloc_frame T"
  "alloc_frame (T\<lparr>stats := st\<rparr>) = alloc_frame T" "alloc_frame (T\<lparr>next_page_id := n\<rparr>) = alloc_frame T"
  "alloc_frame (T\<lparr>pages := ps\<rparr>) = alloc_frame T"
  by (simp_all add: alloc_frame_def)

lemma alloc_frame_lease:
  "alloc_frame (T\<lparr>pool_lease := m, pool_ledger := M\<rparr>) = (alloc_frame T)\<lparr>pool_lease := m, pool_ledger := M\<rparr>"
  by (simp add: alloc_frame_def)

lemma alloc_frame_eqI:
  assumes "alloc_frame T = alloc_frame U" "pages T = pages U" "free_pages T = free_pages U"
    "stats T = stats U" "clock T = clock U" "next_page_id T = next_page_id U"
  shows "T = U"
  using assms by (cases T; cases U) (simp add: alloc_frame_def)

lemma take_free_page_frame: "alloc_frame (fst (take_free_page F T dev)) = alloc_frame T"
  by (auto simp: take_free_page_def stamp_def Let_def split: option.splits list.splits)

lemma evict_lru_hot_alloc_frame: "evict_lru_hot T ex = (U, r) \<Longrightarrow> alloc_frame U = alloc_frame T"
  by (auto simp: evict_lru_hot_def bump_hot_evictions_def elim!: migrate_page_cases
      split: option.splits prod.splits sum.splits)

lemma allocate_frame: "allocate F T dev = (U, r) \<Longrightarrow> alloc_frame U = alloc_frame T"
proof (cases "evict_lru_hot T None")
  case (Pair T0 r0)
  assume a: "allocate F T dev = (U, r)"
  note e = evict_lru_hot_alloc_frame [OF Pair]
  have "alloc_frame (fst (allocate_page F T dev)) = alloc_frame T"
    using e take_free_page_frame [of F T0 dev] take_free_page_frame [of F T dev] Pair
    by (auto simp: allocate_page_def split: sum.splits)
  with a show ?thesis by (auto simp: allocate_def split: prod.splits option.splits)
qed

lemma drop_transient_commute:
  "drop_transient (drop_transient T a) b = drop_transient (drop_transient T b) a"
proof -
  have "(used_bytes L)(t := x - m, t' := y - n) = (used_bytes L)(t' := y - n, t := x - m)"
    if "t \<noteq> t'" for L t t' x y m n using that by (simp add: fun_upd_twist)
  then show ?thesis
    by (cases a; cases b) (auto simp: drop_transient_def drop_lease_def release_def fun_eq_iff)
qed

lemma checkpoint_ok:
  assumes "allocation_checkpoint T src dev = (T1, Inr c)"
  shows "drop_checkpoint T1 c = T" "\<exists>L. T1 = T\<lparr>pool_ledger := L\<rparr>"
    and "cp_reused_page c = Option.bind (last_free T dev) (get_page T)"
    and "cp_evicted_hot c = (if is_gpu dev \<and> free_count T dev = 0 \<and> hot_used_count T \<ge> hot_capacity T
           then map_option (\<lambda>(i, p). (i, page_store p)) (lru_hot T None) else None)"
    and "cp_free_pages c = free_pages T" "cp_stats c = stats T" "cp_clock c = clock T"
      "cp_next_page_id c = next_page_id T"
proof -
  from assms obtain Ta b1 g b2 t where r1: "reserve_transient T b1 = (Ta, Inr g)"
    and r2: "reserve_transient Ta b2 = (T1, Inr t)" and c: "cp_persistent_growth c = g" "cp_transient_lease c = t"
    by (auto simp: allocation_checkpoint_def Let_def split: option.splits prod.splits sum.splits)
  have "drop_checkpoint T1 c = drop_transient (drop_transient T1 t) g"
    by (simp add: drop_checkpoint_def c drop_transient_commute)
  with reserve_drop_transient [OF r1] reserve_drop_transient [OF r2] show "drop_checkpoint T1 c = T" by simp
  from r1 r2 have "T1 = T\<lparr>pool_ledger := pool_ledger T1\<rparr>"
    by (auto simp: reserve_transient_def split: option.splits prod.splits sum.splits)
  then show "\<exists>L. T1 = T\<lparr>pool_ledger := L\<rparr>" ..
qed (use assms in \<open>auto simp: allocation_checkpoint_def Let_def split: option.splits prod.splits sum.splits\<close>)

lemma last_free_snoc: "free_list T dev = vs @ [i] \<Longrightarrow> last_free T dev = Some i"
  by (auto simp: free_list_def last_free_def split: option.splits list.splits)
    (metis last_ConsR last_snoc)

lemma last_free_Nil: "free_list T dev = [] \<longleftrightarrow> last_free T dev = None" "free_list T dev = [] \<longleftrightarrow> free_count T dev = 0"
  by (auto simp: free_list_def last_free_def free_count_def split: option.splits list.splits)

lemma alist_update_twice: "AList.update i q (AList.update i p al) = AList.update i q al"
  by (induction al) auto

lemma fresh_take:
  assumes inv: "pt_inv ext X" and ids: "next_page_id X < u32_max" and "free_list X dev = []"
    and t: "take_free_page F X dev = (U, Some i)"
  shows "get_page X i = None" "\<exists>q. pages U = AList.update i q (pages X)"
proof -
  have "is_gpu dev \<and> hot_used_count X < hot_capacity X"
    using t assms(3) by (auto simp: take_free_page_def free_list_def split: option.splits list.splits if_splits)
  with take_free_page_fresh [OF inv assms(3) _ _ ids, of F] t have "i = next_page_id X" and
    "U = stamp (X\<lparr>next_page_id := i + 1\<rparr>) i ((page_new F i dev (page_size X) (layer_configs X) (quant_config X))\<lparr>ref_count := 1\<rparr>)"
    by (auto simp: Let_def)
  then show "get_page X i = None" "\<exists>q. pages U = AList.update i q (pages X)"
    using fresh_id [OF inv] by (auto simp: stamp_def put_page_def)
qed

lemma rollback_to:
  assumes "T3 = fst (rollback_allocation T2 c i)" "alloc_frame T2 = alloc_frame T1"
  shows "alloc_frame T3 = alloc_frame T1" "free_pages T3 = cp_free_pages c" "stats T3 = cp_stats c"
    "clock T3 = cp_clock c" "next_page_id T3 = cp_next_page_id c"
  using assms by (auto simp: rollback_allocation_def Let_def split: option.splits)

lemma rollback_reused_page:
  assumes inv: "pt_inv ext T" and snoc: "free_list T dev = vs @ [k]"
    and reused: "cp_reused_page c = Option.bind (last_free T dev) (get_page T)" "cp_evicted_hot c = None"
    and al: "allocate F T dev = (T2, Some i)" and pg: "pages T4 = AList.update i r (pages T2)"
  shows "pages (fst (rollback_allocation T4 c i)) = pages T \<and> is_ok (snd (rollback_allocation T4 c i))"
proof -
  have nofree: "free_count T dev \<noteq> 0" using snoc last_free_Nil(2) [of T dev] by auto
  from take_free_page_reuse [OF inv snoc, of F] obtain p where p: "get_page T k = Some p"
    and "take_free_page F T dev = (stamp (T\<lparr>free_pages := (free_pages T)(dev \<mapsto> vs)\<rparr>) k (reset_storage F (p\<lparr>ref_count := 1\<rparr>)), Some k)"
    by auto
  with al nofree have "i = k" and "\<exists>q. pages T2 = AList.update k q (pages T)"
    by (auto simp: allocate_def allocate_page_def stamp_def put_page_def)
  moreover have "cp_reused_page c = Some p" using reused last_free_snoc [OF snoc] p by simp
  ultimately show ?thesis using p reused(2) pg
    by (auto simp: rollback_allocation_def put_page_def Let_def alist_update_twice alist_update_same get_page_def)
qed

lemma rollback_fresh_page:
  assumes inv: "pt_inv ext T" and ids: "next_page_id T < u32_max" and Nil: "free_list T dev = []"
    and reused: "cp_reused_page c = None"
    and evicted: "cp_evicted_hot c = (if is_gpu dev \<and> free_count T dev = 0 \<and> hot_used_count T \<ge> hot_capacity T
           then map_option (\<lambda>(i, p). (i, page_store p)) (lru_hot T None) else None)"
    and al: "allocate F T dev = (T2, Some i)" and pg: "pages T4 = AList.update i r (pages T2)"
  shows "pages (fst (rollback_allocation T4 c i)) = pages T \<and> is_ok (snd (rollback_allocation T4 c i))"
proof (cases "is_gpu dev \<and> free_count T dev = 0 \<and> hot_used_count T \<ge> hot_capacity T")
  case False
  with al obtain U where t: "take_free_page F T dev = (U, Some i)" "pages T2 = pages U"
    by (auto simp: allocate_def allocate_page_def split: prod.splits option.splits)
  from fresh_take [OF inv ids Nil t(1)] t(2) reused evicted False pg show ?thesis
    by (auto simp: rollback_allocation_def Let_def alist_delete_fresh get_page_def alist_update_twice)
next
  case True
  with al obtain T0 v U where e: "evict_lru_hot T None = (T0, Inr v)"
    and t: "take_free_page F T0 dev = (U, Some i)" "pages T2 = pages U"
    by (auto simp: allocate_def allocate_page_def split: prod.splits option.splits sum.splits)
  from e obtain p where l: "lru_hot T None = Some (v, p)"
    by (auto simp: evict_lru_hot_def split: option.splits prod.splits sum.splits)
  note lru = lru_hot_Some [OF inv l]
  from evict_lru_hot_ok(1) [OF inv e] lru have pg0: "pages T0 = AList.update v (relocate Cpu p) (pages T)"
    by (auto simp: put_page_def)
  have fl: "free_list T0 dev = []" using Nil evict_lru_hot_frame [OF e] by (simp add: free_list_def)
  have ids0: "next_page_id T0 < u32_max" using ids evict_lru_hot_frame [OF e] by simp
  from fresh_take [OF evict_lru_hot_inv [OF e inv] ids0 fl t(1)] t(2) obtain q where
    "get_page T0 i = None" "pages T2 = AList.update i q (pages T0)" by auto
  then have "AList.delete i (pages T4) = AList.update v (relocate Cpu p) (pages T)"
    by (simp add: alist_delete_fresh get_page_def pg0 pg alist_update_twice)
  moreover have "cp_evicted_hot c = Some (v, page_store p)" using evicted True l by simp
  moreover have "(relocate Cpu p)\<lparr>page_store := page_store p\<rparr> = p" by (simp add: relocate_def)
  ultimately show ?thesis using reused lru(1)
    by (auto simp: rollback_allocation_def Let_def put_page_def get_page_def alist_update_twice alist_update_same)
qed

lemma rollback_after:
  assumes inv: "pt_inv ext T" and ids: "next_page_id T < u32_max"
    and cp: "allocation_checkpoint T src dev = (T1, Inr c)" and al: "allocate F T1 dev = (T2, Some i)"
    and pg: "pages T4 = AList.update i r (pages T2)" and fr: "alloc_frame T4 = alloc_frame (T2\<lparr>pool_lease := m, pool_ledger := M\<rparr>)"
    and c': "c' = c\<lparr>cp_persistent_growth := pgr\<rparr>"
  shows "rollback_allocation T4 c' i = (T1\<lparr>pool_lease := m, pool_ledger := M\<rparr>, Inr ())"
proof -
  note c = checkpoint_ok [OF cp]
  from c(2) obtain L where T1: "T1 = T\<lparr>pool_ledger := L\<rparr>" by blast
  have same: "free_list T1 dev = free_list T dev" "last_free T1 dev = last_free T dev" "get_page T1 = get_page T"
    "free_count T1 dev = free_count T dev" "hot_used_count T1 = hot_used_count T" "hot_capacity T1 = hot_capacity T"
    "lru_hot T1 None = lru_hot T None" "next_page_id T1 = next_page_id T"
    by (simp_all add: T1 free_list_def last_free_def get_page_def free_count_def hot_used_count_def lru_hot_def fun_eq_iff)
  have inv1: "pt_inv ext T1" using inv by (simp add: T1)
  let ?T3 = "fst (rollback_allocation T4 c' i)" and ?T1 = "T1\<lparr>pool_lease := m, pool_ledger := M\<rparr>"
  have "pages ?T3 = pages T1 \<and> is_ok (snd (rollback_allocation T4 c' i))"
  proof (cases "free_list T1 dev" rule: rev_cases)
    case (snoc vs k)
    then have "free_count T dev \<noteq> 0" using last_free_Nil(2) [of T dev] same(1) by auto
    with rollback_reused_page [OF inv1 snoc _ _ al pg, of c'] c(3,4) c' same show ?thesis by simp
  next
    case Nil
    with rollback_fresh_page [OF inv1 _ Nil _ _ al pg, of c'] c(3,4) c' same ids last_free_Nil(1) [of T dev]
    show ?thesis by simp
  qed
  then have pgs: "pages ?T3 = pages ?T1" and ok: "is_ok (snd (rollback_allocation T4 c' i))" by auto
  have "alloc_frame T4 = alloc_frame ?T1"
    using fr allocate_frame [OF al] by (simp add: alloc_frame_lease)
  note rb = rollback_to [OF refl this, of c' i]
  have fields: "free_pages ?T1 = cp_free_pages c'" "stats ?T1 = cp_stats c'" "clock ?T1 = cp_clock c'"
    "next_page_id ?T1 = cp_next_page_id c'" using c(5-8) by (simp_all add: T1 c')
  have "?T3 = ?T1" by (rule alloc_frame_eqI) (simp_all only: rb pgs fields)
  moreover have "snd (rollback_allocation T4 c' i) = Inr ()"
    using ok by (cases "snd (rollback_allocation T4 c' i)") auto
  ultimately show ?thesis by (simp add: prod_eq_iff)
qed

lemma allocated_page_present:
  assumes "pt_inv ext T" "next_page_id T < u32_max" "allocate F T dev = (U, Some i)"
  shows "\<exists>q. get_page U i = Some q"
proof -
  have "pt_inv (ext(i := 1)) U" using allocate_inv [OF assms] by simp
  then have "get_page U i \<noteq> None" by (rule pt_invD(4)) simp
  then show ?thesis by blast
qed

text \<open>
  C10. A copy-on-write allocation is transactional: when the copy into the new page fails,
  \<open>rollback_allocation\<close> succeeds and, once the checkpoint is dropped, the page table is the
  one before the checkpoint in every field: pages and their tiers (an evicted victim
  included), free lists, counters, LRU clock, id counter and the ledger of the leases.
\<close>

theorem rollback_restores_the_table:
  assumes inv: "pt_inv ext T" and ids: "next_page_id T < u32_max"
    and cp: "allocation_checkpoint T src dev = (T1, Inr c)" and al: "allocate F T1 dev = (T2, Some i)"
  shows "\<exists>T3. rollback_allocation T2 c i = (T3, Inr ()) \<and> drop_checkpoint T3 c = T"
proof -
  from checkpoint_ok(2) [OF cp] obtain L where T1: "T1 = T\<lparr>pool_ledger := L\<rparr>" by blast
  with inv ids have "pt_inv ext T1" "next_page_id T1 < u32_max" by simp_all
  from allocated_page_present [OF this al] obtain q where "get_page T2 i = Some q" by blast
  then have "pages T2 = AList.update i q (pages T2)" by (simp add: get_page_def alist_update_same)
  from rollback_after [OF inv ids cp al this,
      where m = "pool_lease T2" and M = "pool_ledger T2" and c' = c and pgr = "cp_persistent_growth c"]
  have "rollback_allocation T2 c i = (T1\<lparr>pool_lease := pool_lease T2, pool_ledger := pool_ledger T2\<rparr>, Inr ())"
    by simp
  moreover have "pool_lease T2 = pool_lease T1" "pool_ledger T2 = pool_ledger T1"
    using arg_cong [OF allocate_frame [OF al], of pool_lease] arg_cong [OF allocate_frame [OF al], of pool_ledger]
    by (simp_all add: alloc_frame_def)
  ultimately show ?thesis using checkpoint_ok(1) [OF cp] by simp
qed

theorem rollback_restores_the_table_witness:
  "\<exists>T1 c T2 T3. allocation_checkpoint demo_full 0 (Gpu 0) = (T1, Inr c) \<and>
     allocate int_ops T1 (Gpu 0) = (T2, Some 2) \<and> hot_used_count T2 = 2 \<and>
     rollback_allocation T2 c 2 = (T3, Inr ()) \<and> drop_checkpoint T3 c = demo_full"
proof -
  let ?cp = "allocation_checkpoint demo_full 0 (Gpu 0)" and ?al = "allocate int_ops (fst (allocation_checkpoint demo_full 0 (Gpu 0))) (Gpu 0)"
  have ok: "is_ok (snd ?cp)" and al: "snd ?al = Some 2" "hot_used_count (fst ?al) = 2" "next_page_id demo_full = 2"
    by code_simp+
  from ok obtain c where cp: "?cp = (fst ?cp, Inr c)" by (cases ?cp; cases "snd ?cp") auto
  have "?al = (fst ?al, Some 2)" using al by (simp add: prod_eq_iff)
  from rollback_restores_the_table [OF demo_full_inv _ cp this] al cp this show ?thesis
    by (auto simp: u32_max_def)
qed

end
