(* ===== verification/PagedCache.thy ===== *)
theory PagedCache
  imports PageTableInv
begin

text \<open>
  The paged KV cache (\<open>paged_cache.rs\<close>, \<open>PagedKvCache\<close> and its \<open>KvCacheOps\<close>): token-level
  reads and writes over the page table, copy-on-write, forks, rewinds, sliding windows
  with attention sinks, preemption and restore.

  All methods but \<open>create_sequence\<close> and \<open>fork\<close> act on the page table only and are functions on
  it. Division by a zero page size, a slice out of range and an unsigned subtraction
  below zero are panics. The debug assertions of the sink activation are not part of the
  release build and are left out.
\<close>

section \<open>State and lookups\<close>

record 'f PagedKvCache =
  page_table :: "'f PageTable"
  next_seq_id :: nat

record 'f LayerKv =
  lkv_key :: "'f list"
  lkv_value :: "'f list"

definition seq_len :: "'f PageTable \<Rightarrow> nat \<Rightarrow> KvError + nat" where
  "seq_len T s = ok_or (sequence_lengths T s) (SequenceNotFound s)"

definition retained_start :: "'f PageTable \<Rightarrow> nat \<Rightarrow> KvError + nat" where
  "retained_start T s = ok_or (sequence_starts T s) (SequenceNotFound s)"

definition sink_len :: "'f PageTable \<Rightarrow> nat \<Rightarrow> KvError + nat" where
  "sink_len T s = ok_or (sequence_sink_lens T s) (SequenceNotFound s)"

definition sub_or_panic :: "nat \<Rightarrow> nat \<Rightarrow> KvError + nat" where
  "sub_or_panic a b =
     (if b \<le> a then Inr (a - b) else Inl (RustPanic ''attempt to subtract with overflow''))"

definition div_or_panic :: "nat \<Rightarrow> nat \<Rightarrow> KvError + nat" where
  "div_or_panic a b = (if b = 0 then Inl (RustPanic ''attempt to divide by zero'') else Inr (a div b))"

definition ceil_or_panic :: "nat \<Rightarrow> nat \<Rightarrow> KvError + nat" where
  "ceil_or_panic a b = (if b = 0 then Inl (RustPanic ''attempt to divide by zero'') else Inr (div_ceil a b))"

definition buffer_index :: "'f PageTable \<Rightarrow> nat \<Rightarrow> nat \<Rightarrow> KvError + nat" where
  "buffer_index T s position =
     res_bind (sink_len T s) (\<lambda>sink.
     res_bind (retained_start T s) (\<lambda>window_start.
     if position < sink then Inr position
     else res_bind (sub_or_panic position window_start) (\<lambda>d. Inr (sink + d))))"

definition retained_len :: "'f PageTable \<Rightarrow> nat \<Rightarrow> KvError + nat" where
  "retained_len T s =
     res_bind (retained_start T s) (\<lambda>start. res_bind (seq_len T s) (\<lambda>n. sub_or_panic n start))"

definition retained_buffer_len :: "'f PageTable \<Rightarrow> nat \<Rightarrow> KvError + nat" where
  "retained_buffer_len T s =
     res_bind (sink_len T s) (\<lambda>sink.
     res_bind (retained_start T s) (\<lambda>window_start.
     res_bind (seq_len T s) (\<lambda>n.
     res_bind (sub_or_panic n window_start) (\<lambda>d. Inr (sink + d)))))"

definition find_sequence :: "'f PageTable \<Rightarrow> nat \<Rightarrow> KvError + nat list" where
  "find_sequence T s = ok_or (get_sequence T s) (SequenceNotFound s)"

definition find_page :: "'f PageTable \<Rightarrow> nat \<Rightarrow> KvError + 'f Page" where
  "find_page T i = ok_or (get_page T i) (PageNotFound i)"

section \<open>Writing tokens\<close>

fun validate_layers :: "LayerTensorConfig list \<Rightarrow> 'f LayerKv list \<Rightarrow> KvError + unit" where
  "validate_layers gs ls =
     (if length ls \<noteq> length gs then Inl (InvalidTensorShape ''wrong number of layers'')
      else if list_all2 (\<lambda>l g. length (lkv_key l) = f32_len_per_token g \<and> length (lkv_value l) = f32_len_per_token g) ls gs
      then Inr ()
      else Inl (InvalidTensorShape ''layer key/value length must be num_kv_heads * head_dim''))"

text \<open>
  Copy-on-write of a shared page. The checkpoint is dropped on every exit, which returns
  the leases it still holds.
\<close>

definition copy_on_write :: "'f f32_ops \<Rightarrow> 'f PageTable \<Rightarrow> nat \<Rightarrow> nat \<Rightarrow> nat \<Rightarrow> 'f PageTable \<times> (KvError + nat)" where
  "copy_on_write F T s page_index i =
     st_bind (allocation_checkpoint T i (Gpu 0)) (\<lambda>T1 c.
       case allocate F T1 (Gpu 0) of
         (T2, None) \<Rightarrow> (drop_checkpoint T2 c, Inl (OutOfMemory 1 (free_count T2 (Gpu 0))))
       | (T2, Some new_id) \<Rightarrow>
           (case (get_page T2 i, get_page T2 new_id) of
              (None, _) \<Rightarrow> (drop_checkpoint T2 c, Inl (PageNotFound i))
            | (Some _, None) \<Rightarrow> (drop_checkpoint T2 c, Inl (PageNotFound new_id))
            | (Some old, Some new) \<Rightarrow>
                (case copy_physical_store_from new (page_store old) of
                   Inl copy_error \<Rightarrow>
                     (case rollback_allocation T2 c new_id of
                        (T3, Inl e) \<Rightarrow> (drop_checkpoint T3 c, Inl e)
                      | (T3, Inr _) \<Rightarrow> (drop_checkpoint T3 c, Inl copy_error))
                 | Inr (new', _) \<Rightarrow>
                     (case commit_allocation (put_page T2 new_id (new'\<lparr>filled := filled old\<rparr>)) c of
                        (T4, c', Inl commit_error) \<Rightarrow>
                          (case rollback_allocation T4 c' new_id of
                             (T5, Inl e) \<Rightarrow> (drop_checkpoint T5 c', Inl e)
                           | (T5, Inr _) \<Rightarrow> (drop_checkpoint T5 c', Inl commit_error))
                      | (T4, c', Inr _) \<Rightarrow>
                          (drop_checkpoint (free_page F (replace_page T4 s page_index new_id) i) c',
                           Inr new_id)))))"

definition ensure_page_for_write ::
  "'f f32_ops \<Rightarrow> 'f PageTable \<Rightarrow> nat \<Rightarrow> nat \<Rightarrow> 'f PageTable \<times> (KvError + nat)" where
  "ensure_page_for_write F T s page_index =
     st_lift T (find_sequence T s) (\<lambda>ps.
       if page_index < length ps
       then (let i = ps ! page_index in
             st_lift T (find_page T i) (\<lambda>p.
               if \<not> ref_count p > 1
               then st_bind (promote_to_hot T i) (\<lambda>T1 _. (T1, Inr i))
               else copy_on_write F T s page_index i))
       else if page_index \<noteq> length ps
       then (T, Inl (InvalidPosition (page_index * page_size T) (length ps * page_size T)))
       else (case allocate F T (Gpu 0) of
               (T1, None) \<Rightarrow> (T1, Inl (OutOfMemory 1 (free_count T1 (Gpu 0))))
             | (T1, Some i) \<Rightarrow> (push_page T1 s i, Inr i)))"

fun write_heads ::
  "'f f32_ops \<Rightarrow> nat \<Rightarrow> LayerTensorConfig \<Rightarrow> nat \<Rightarrow> nat \<Rightarrow> 'f LayerKv \<Rightarrow> nat list \<Rightarrow> 'f Page \<Rightarrow> KvError + 'f Page" where
  "write_heads F ps g layer_idx token_offset l [] p = Inr p"
| "write_heads F ps g layer_idx token_offset l (h # hs) p =
     res_bind (write_head_token F p ps (head_dim g) (layer_idx * 2) h token_offset
                 (take (head_dim g) (drop (h * head_dim g) (lkv_key l)))) (\<lambda>p1.
     res_bind (write_head_token F p1 ps (head_dim g) (layer_idx * 2 + 1) h token_offset
                 (take (head_dim g) (drop (h * head_dim g) (lkv_value l)))) (\<lambda>p2.
     write_heads F ps g layer_idx token_offset l hs p2))"

fun write_layers ::
  "'f f32_ops \<Rightarrow> nat \<Rightarrow> LayerTensorConfig list \<Rightarrow> nat \<Rightarrow> (nat \<times> 'f LayerKv) list \<Rightarrow> 'f Page \<Rightarrow> KvError + 'f Page" where
  "write_layers F ps gs token_offset [] p = Inr p"
| "write_layers F ps gs token_offset ((i, l) # ls) p =
     res_bind (write_heads F ps (gs ! i) i token_offset l [0..<num_kv_heads (gs ! i)] p) (\<lambda>p1.
     write_layers F ps gs token_offset ls p1)"

definition write_token_kv ::
  "'f f32_ops \<Rightarrow> 'f PageTable \<Rightarrow> nat \<Rightarrow> nat \<Rightarrow> 'f LayerKv list \<Rightarrow> 'f PageTable \<times> (KvError + unit)" where
  "write_token_kv F T s position layers =
     (if tensor_config T = None then (T, Inl TensorStorageNotConfigured)
      else
       st_lift T (validate_layers (layer_configs T) layers) (\<lambda>_.
       st_lift T (seq_len T s) (\<lambda>n.
       st_lift T (retained_start T s) (\<lambda>start.
       st_lift T (sink_len T s) (\<lambda>sink.
       if position \<ge> sink \<and> position < start then (T, Inl (PositionEvicted position start))
       else if position > n then (T, Inl (InvalidPosition position n))
       else
         st_lift T (buffer_index T s position) (\<lambda>retained_position.
         st_lift T (div_or_panic retained_position (page_size T)) (\<lambda>page_index.
         let token_offset = retained_position mod page_size T in
         st_bind (ensure_page_for_write F T s page_index) (\<lambda>T1 i.
         st_bind (promote_to_hot T1 i) (\<lambda>T2 _.
         st_lift T2 (find_page T2 i) (\<lambda>p.
         st_lift T2 (write_layers F (page_size T) (layer_configs T) token_offset (enumerate 0 layers) p) (\<lambda>p'.
         let T3 = touch (put_page T2 i (p'\<lparr>filled := max (filled p') (token_offset + 1)\<rparr>)) i in
         (if position = n then set_sequence_len T3 s (n + 1) else T3, Inr ()))))))))))))"

definition append_token_kv ::
  "'f f32_ops \<Rightarrow> 'f PageTable \<Rightarrow> nat \<Rightarrow> 'f LayerKv list \<Rightarrow> 'f PageTable \<times> (KvError + nat)" where
  "append_token_kv F T s layers =
     st_lift T (seq_len T s) (\<lambda>position.
     st_bind (write_token_kv F T s position layers) (\<lambda>T1 _. (T1, Inr position)))"

section \<open>Reading\<close>

definition head_token_row ::
  "'f PageTable \<Rightarrow> nat \<Rightarrow> nat \<Rightarrow> KvKind \<Rightarrow> nat \<Rightarrow> nat \<Rightarrow> KvError + 'f list option" where
  "head_token_row T s layer_idx kind head position =
     (if tensor_config T = None then Inl TensorStorageNotConfigured
      else
       res_bind (seq_len T s) (\<lambda>n.
       if position \<ge> n then Inl (InvalidPosition position n)
       else
       res_bind (retained_start T s) (\<lambda>start.
       res_bind (sink_len T s) (\<lambda>sink.
       if position \<ge> sink \<and> position < start then Inl (PositionEvicted position start)
       else if layer_idx \<ge> length (layer_configs T) then Inl (SequenceNotFound s)
       else
       res_bind (buffer_index T s position) (\<lambda>bi.
       res_bind (div_or_panic bi (page_size T)) (\<lambda>page_index.
       res_bind (find_sequence T s) (\<lambda>ps.
       if page_index \<ge> length ps then Inl (InvalidPosition position n)
       else
       res_bind (find_page T (ps ! page_index)) (\<lambda>p.
       head_token_f32 p (page_size T) (head_dim (layer_configs T ! layer_idx))
         (layer_idx * 2 + (if kind = Key then 0 else 1)) head (bi mod page_size T)))))))))"

record 'f MaterializedLayerKv =
  mat_key :: "'f list"
  mat_value :: "'f list"
  mat_num_kv_heads :: nat
  mat_head_dim :: nat

record 'f MaterializedKv =
  start_position :: nat
  mat_sink_len :: nat
  mat_sequence_len :: nat
  mat_layers :: "'f MaterializedLayerKv list"

text \<open>
  The nested loops of the materialisation, flattened in their order: tokens, then layers,
  heads and dimensions; each step writes one key scalar and one value scalar.
\<close>

definition slots_of_token :: "LayerTensorConfig list \<Rightarrow> (nat \<times> nat \<times> nat) list" where
  "slots_of_token gs =
     concat (map (\<lambda>(l, g). concat (map (\<lambda>h. map (\<lambda>d. (l, h, d)) [0..<head_dim g]) [0..<num_kv_heads g]))
       (enumerate 0 gs))"

fun fill_slots ::
  "'f f32_ops \<Rightarrow> 'f Page \<Rightarrow> nat \<Rightarrow> nat \<Rightarrow> nat \<Rightarrow> (nat \<times> nat \<times> nat) list \<Rightarrow> 'f MaterializedLayerKv list \<Rightarrow>
     KvError + 'f MaterializedLayerKv list" where
  "fill_slots F p ps n token_pos [] out = Inr out"
| "fill_slots F p ps n token_pos ((l, h, d) # slots) out =
     (let o' = out ! l; dst = (h * n + token_pos) * mat_head_dim o' + d in
      res_bind (value_at_slot F p ps (mat_head_dim o') (l * 2) h (token_pos mod ps) d) (\<lambda>k.
      res_bind (value_at_slot F p ps (mat_head_dim o') (l * 2 + 1) h (token_pos mod ps) d) (\<lambda>v.
      fill_slots F p ps n token_pos slots
        (out[l := o'\<lparr>mat_key := (mat_key o')[dst := k], mat_value := (mat_value o')[dst := v]\<rparr>]))))"

fun fill_tokens ::
  "'f f32_ops \<Rightarrow> 'f PageTable \<Rightarrow> nat list \<Rightarrow> nat \<Rightarrow> nat list \<Rightarrow> 'f MaterializedLayerKv list \<Rightarrow>
     KvError + 'f MaterializedLayerKv list" where
  "fill_tokens F T ps n [] out = Inr out"
| "fill_tokens F T ps n (t # ts) out =
     res_bind (div_or_panic t (page_size T)) (\<lambda>page_index.
     res_bind (index_or_panic ps page_index) (\<lambda>i.
     res_bind (find_page T i) (\<lambda>p.
     res_bind (fill_slots F p (page_size T) n t (slots_of_token (layer_configs T)) out) (\<lambda>out'.
     fill_tokens F T ps n ts out'))))"

definition materialize_sequence_to ::
  "'f f32_ops \<Rightarrow> 'f PageTable \<Rightarrow> nat \<Rightarrow> nat \<Rightarrow> KvError + 'f MaterializedKv" where
  "materialize_sequence_to F T s end_pos =
     (if tensor_config T = None then Inl TensorStorageNotConfigured
      else
       res_bind (retained_start T s) (\<lambda>start.
       res_bind (sink_len T s) (\<lambda>sink.
       res_bind (seq_len T s) (\<lambda>current.
       if end_pos > current then Inl (InvalidPosition end_pos current)
       else if sink > 0 \<and> end_pos < sink then Inl (RewindBelowSinkNotMaterializable end_pos sink)
       else if end_pos < start then Inl (PositionEvicted end_pos start)
       else
         (let n = sink + (end_pos - start) in
          res_bind (find_sequence T s) (\<lambda>ps.
          res_bind (fill_tokens F T ps n [0..<n]
             (map (\<lambda>g. \<lparr>mat_key = replicate (num_kv_heads g * n * head_dim g) (f_zero F),
                        mat_value = replicate (num_kv_heads g * n * head_dim g) (f_zero F),
                        mat_num_kv_heads = num_kv_heads g, mat_head_dim = head_dim g\<rparr>) (layer_configs T)))
            (\<lambda>layers. Inr \<lparr>start_position = start, mat_sink_len = sink, mat_sequence_len = n,
                           mat_layers = layers\<rparr>)))))))"

definition materialize_sequence :: "'f f32_ops \<Rightarrow> 'f PageTable \<Rightarrow> nat \<Rightarrow> KvError + 'f MaterializedKv" where
  "materialize_sequence F T s = res_bind (seq_len T s) (\<lambda>n. materialize_sequence_to F T s n)"

section \<open>Sliding windows\<close>

fun free_all :: "'f f32_ops \<Rightarrow> 'f PageTable \<Rightarrow> nat list \<Rightarrow> 'f PageTable" where
  "free_all F T [] = T"
| "free_all F T (i # is) = free_all F (free_page F T i) is"

definition set_sequence_pages :: "'f PageTable \<Rightarrow> nat \<Rightarrow> nat list \<Rightarrow> 'f PageTable" where
  "set_sequence_pages T s ps = T\<lparr>sequences := AList.update s ps (sequences T)\<rparr>"

definition apply_sliding_window ::
  "'f f32_ops \<Rightarrow> 'f PageTable \<Rightarrow> nat \<Rightarrow> nat \<Rightarrow> 'f PageTable \<times> (KvError + nat)" where
  "apply_sliding_window F T s window_size =
     (if window_size = 0 then (T, Inl InvalidWindowSize)
      else
       st_lift T (retained_start T s) (\<lambda>start.
       st_lift T (seq_len T s) (\<lambda>end_pos.
       let keep_from = end_pos - window_size;
           pages_to_free = (if page_size T = 0 then 0 else (keep_from - start) div page_size T) in
       if pages_to_free = 0 then (T, Inr 0)
       else
         st_lift T (find_sequence T s) (\<lambda>ps.
         let k = min pages_to_free (length ps);
             removed = take k ps;
             T1 = free_all F (set_sequence_pages T s (drop k ps)) removed in
         (set_sequence_start T1 s (start + length removed * page_size T), Inr (length removed))))))"

definition apply_sliding_window_with_sinks ::
  "'f f32_ops \<Rightarrow> 'f PageTable \<Rightarrow> nat \<Rightarrow> nat \<Rightarrow> nat \<Rightarrow> 'f PageTable \<times> (KvError + nat)" where
  "apply_sliding_window_with_sinks F T s window_size sink_tokens =
     (if window_size = 0 then (T, Inl InvalidWindowSize)
      else if sink_tokens = 0 then apply_sliding_window F T s window_size
      else
       st_lift T (ceil_or_panic sink_tokens (page_size T)) (\<lambda>sink_pages.
       let sink_len_target = sink_pages * page_size T in
       st_lift T (seq_len T s) (\<lambda>end_pos.
       let keep_from = end_pos - window_size in
       if keep_from \<le> sink_len_target then (T, Inr 0)
       else
         st_lift T (sink_len T s) (\<lambda>sink.
         st_lift T (if sink > 0 then retained_start T s else Inr sink_len_target) (\<lambda>cur_window_start.
         let new_window_start = (keep_from div page_size T) * page_size T in
         if new_window_start \<le> cur_window_start
         then (set_sequence_start (set_sequence_sink_len T s sink_len_target) s cur_window_start, Inr 0)
         else
           st_lift T (find_sequence T s) (\<lambda>ps.
           let evict_pages = (new_window_start - cur_window_start) div page_size T;
               evict = min evict_pages (length ps - sink_pages - 1) in
           if sink_pages + evict > length ps then (T, Inl (RustPanic ''drain range out of bounds''))
           else
             (let removed = take evict (drop sink_pages ps);
                  T1 = free_all F (set_sequence_pages T s (take sink_pages ps @ drop (sink_pages + evict) ps)) removed;
                  T2 = set_sequence_sink_len T1 s sink_len_target in
              (set_sequence_start T2 s (cur_window_start + length removed * page_size T),
               Inr (length removed)))))))))"

section \<open>Eviction, prefetch, preemption\<close>

fun evict_times :: "'f PageTable \<Rightarrow> nat \<Rightarrow> nat \<Rightarrow> 'f PageTable \<times> nat" where
  "evict_times T 0 evicted = (T, evicted)"
| "evict_times T (Suc n) evicted =
     (case evict_lru_hot T None of
        (T1, Inr _) \<Rightarrow> evict_times T1 n (evicted + 1)
      | (T1, Inl _) \<Rightarrow> (T1, evicted))"

datatype EvictionPolicy = Lru | Priority | LayerAware

definition evict :: "'f PageTable \<Rightarrow> EvictionPolicy \<Rightarrow> nat \<Rightarrow> 'f PageTable \<times> nat" where
  "evict T policy target = evict_times T target 0"

fun promote_all :: "'f PageTable \<Rightarrow> nat list \<Rightarrow> nat \<Rightarrow> 'f PageTable \<times> (KvError + nat)" where
  "promote_all T [] promoted = (T, Inr promoted)"
| "promote_all T (i # is) promoted =
     (let was_cold = (case get_page T i of None \<Rightarrow> False | Some p \<Rightarrow> \<not> is_hot p) in
      st_bind (promote_to_hot T i) (\<lambda>T1 _.
      promote_all T1 is (if was_cold then promoted + 1 else promoted)))"

definition prefetch :: "'f PageTable \<Rightarrow> nat \<Rightarrow> nat \<Rightarrow> nat \<Rightarrow> 'f PageTable \<times> (KvError + nat)" where
  "prefetch T s start end_pos =
     st_lift T (retained_start T s) (\<lambda>rs.
     st_lift T (seq_len T s) (\<lambda>n.
     if start < rs then (T, Inl (PositionEvicted start rs))
     else if start > end_pos \<or> end_pos > n then (T, Inl (InvalidPosition end_pos n))
     else if start = end_pos then (T, Inr 0)
     else
       st_lift T (res_bind (buffer_index T s start) (\<lambda>b. div_or_panic b (page_size T))) (\<lambda>first_page.
       st_lift T (res_bind (buffer_index T s (end_pos - 1)) (\<lambda>b. div_or_panic b (page_size T))) (\<lambda>last_page.
       st_lift T (find_sequence T s) (\<lambda>ps.
       if last_page \<ge> length ps \<or> first_page > last_page + 1
       then (T, Inl (RustPanic ''range out of bounds''))
       else promote_all T (take (last_page + 1 - first_page) (drop first_page ps)) 0)))))"

definition materialize_sequence_promoting ::
  "'f f32_ops \<Rightarrow> 'f PageTable \<Rightarrow> nat \<Rightarrow> 'f PageTable \<times> (KvError + 'f MaterializedKv)" where
  "materialize_sequence_promoting F T s =
     st_lift T (retained_start T s) (\<lambda>start.
     st_lift T (seq_len T s) (\<lambda>n.
     st_bind (prefetch T s start n) (\<lambda>T1 _. (T1, materialize_sequence F T1 s))))"

definition preempt_sequence :: "'f PageTable \<Rightarrow> nat \<Rightarrow> 'f PageTable \<times> (KvError + nat)" where
  "preempt_sequence T s = st_lift T (seq_len T s) (\<lambda>_. evict_sequence_to_cold T s)"

definition restore_sequence :: "'f PageTable \<Rightarrow> nat \<Rightarrow> 'f PageTable \<times> (KvError + nat)" where
  "restore_sequence T s =
     st_lift T (retained_start T s) (\<lambda>start.
     st_lift T (seq_len T s) (\<lambda>end_pos. prefetch T s start end_pos))"

section \<open>Cache operations\<close>

definition validate_rewind_to :: "'f PageTable \<Rightarrow> nat \<Rightarrow> nat \<Rightarrow> KvError + unit" where
  "validate_rewind_to T s position =
     res_bind (retained_start T s) (\<lambda>rs.
     res_bind (sink_len T s) (\<lambda>sink.
     res_bind (seq_len T s) (\<lambda>n.
     if position < rs \<and> (sink = 0 \<or> position \<ge> sink) then Inl (PositionEvicted position rs)
     else if position > n then Inl (InvalidPosition position n)
     else res_bind (find_sequence T s) (\<lambda>_. Inr ()))))"

definition validate_fork :: "'f PageTable \<Rightarrow> nat \<Rightarrow> nat \<Rightarrow> KvError + unit" where
  "validate_fork T source position =
     res_bind (retained_start T source) (\<lambda>rs.
     res_bind (seq_len T source) (\<lambda>n.
     if position < rs then Inl (PositionEvicted position rs)
     else if position > n then Inl (InvalidPosition position n)
     else res_bind (find_sequence T source) (\<lambda>_. Inr ())))"

text \<open>The fill level of the last page is lowered whether or not the page is shared.\<close>

definition set_last_filled :: "'f PageTable \<Rightarrow> nat \<Rightarrow> nat \<Rightarrow> 'f PageTable" where
  "set_last_filled T s n =
     (case get_sequence T s of
        Some (i # is) \<Rightarrow>
          (let l = last (i # is) in
           case get_page T l of None \<Rightarrow> T | Some p \<Rightarrow> put_page T l (p\<lparr>filled := n\<rparr>))
      | _ \<Rightarrow> T)"

definition rewind_to :: "'f f32_ops \<Rightarrow> 'f PageTable \<Rightarrow> nat \<Rightarrow> nat \<Rightarrow> 'f PageTable \<times> (KvError + unit)" where
  "rewind_to F T s position =
     st_lift T (validate_rewind_to T s position) (\<lambda>_.
     st_lift T (sink_len T s) (\<lambda>sink.
     st_lift T (buffer_index T s position) (\<lambda>retained_position.
     st_lift T (ceil_or_panic retained_position (page_size T)) (\<lambda>pages_needed.
     st_lift T (find_sequence T s) (\<lambda>ps.
     let T1 = free_all F T (drop pages_needed ps);
         T2 = set_sequence_pages T1 s (take pages_needed ps);
         T3 = (if retained_position > 0
               then set_last_filled T2 s ((retained_position - 1) mod page_size T + 1) else T2);
         T4 = set_sequence_len T3 s position in
     (if position < sink then set_sequence_start (set_sequence_sink_len T4 s 0) s 0 else T4, Inr ()))))))"

definition create_sequence :: "'f PagedKvCache \<Rightarrow> 'f PagedKvCache \<times> nat" where
  "create_sequence C =
     (C\<lparr>page_table := pt_create_sequence (page_table C) (next_seq_id C), next_seq_id := next_seq_id C + 1\<rparr>,
      next_seq_id C)"

fun share_pages :: "'f PageTable \<Rightarrow> nat \<Rightarrow> nat list \<Rightarrow> 'f PageTable" where
  "share_pages T s [] = T"
| "share_pages T s (i # is) = share_pages (push_page (fst (retain T i)) s i) s is"

definition fork :: "'f PagedKvCache \<Rightarrow> nat \<Rightarrow> nat \<Rightarrow> 'f PagedKvCache \<times> (KvError + nat)" where
  "fork C source position =
     (let T = page_table C in
      st_lift C (validate_fork T source position) (\<lambda>_.
      st_lift C (retained_start T source) (\<lambda>rs.
      st_lift C (sink_len T source) (\<lambda>sink.
      st_lift C (res_bind (buffer_index T source position) (\<lambda>b. ceil_or_panic b (page_size T))) (\<lambda>pages_needed.
      st_lift C (find_sequence T source) (\<lambda>ps.
      let (C1, new_seq) = create_sequence C;
          T1 = set_sequence_sink_len (set_sequence_start (page_table C1) new_seq rs) new_seq sink;
          T2 = set_sequence_len (share_pages T1 new_seq (take pages_needed ps)) new_seq position in
      (C1\<lparr>page_table := T2\<rparr>, Inr new_seq)))))))"

record CacheCheckpoint =
  cc_seq :: nat
  cc_position :: nat
  cc_page_ids :: "nat list"

definition checkpoint :: "'f PageTable \<Rightarrow> nat \<Rightarrow> KvError + CacheCheckpoint" where
  "checkpoint T s =
     res_bind (find_sequence T s) (\<lambda>ps.
     res_bind (seq_len T s) (\<lambda>n. Inr \<lparr>cc_seq = s, cc_position = n, cc_page_ids = ps\<rparr>))"

definition restore :: "'f f32_ops \<Rightarrow> 'f PageTable \<Rightarrow> nat \<Rightarrow> CacheCheckpoint \<Rightarrow> 'f PageTable \<times> (KvError + unit)" where
  "restore F T s cc =
     st_lift T (retained_start T s) (\<lambda>rs.
     if cc_position cc < rs then (T, Inl (PositionEvicted (cc_position cc) rs))
     else rewind_to F T s (cc_position cc))"

fun append_positions ::
  "'f f32_ops \<Rightarrow> 'f PageTable \<Rightarrow> nat \<Rightarrow> nat list \<Rightarrow> 'f PageTable \<times> (KvError + unit)" where
  "append_positions F T s [] = (T, Inr ())"
| "append_positions F T s (position # ns) =
     st_lift T (buffer_index T s position) (\<lambda>rp.
     st_lift T (div_or_panic rp (page_size T)) (\<lambda>page_index.
     st_bind (ensure_page_for_write F T s page_index) (\<lambda>T1 i.
     st_bind (promote_to_hot T1 i) (\<lambda>T2 _.
     let T3 = (case get_page T2 i of
                 None \<Rightarrow> T2
               | Some p \<Rightarrow> put_page T2 i (p\<lparr>filled := max (filled p) (rp mod page_size T + 1)\<rparr>)) in
     append_positions F T3 s ns))))"

definition append_tokens ::
  "'f f32_ops \<Rightarrow> 'f PageTable \<Rightarrow> nat \<Rightarrow> nat \<Rightarrow> 'f PageTable \<times> (KvError + unit)" where
  "append_tokens F T s num_tokens =
     st_lift T (seq_len T s) (\<lambda>n.
     st_bind (append_positions F T s [n..<n + num_tokens]) (\<lambda>T1 _.
     (set_sequence_len T1 s (n + num_tokens), Inr ())))"

definition remove :: "'f f32_ops \<Rightarrow> 'f PageTable \<Rightarrow> nat \<Rightarrow> 'f PageTable \<times> (KvError + unit)" where
  "remove F T s = (let (T1, ps) = remove_sequence T s in (free_all F T1 ps, Inr ()))"

definition sequence_bytes :: "'f PageTable \<Rightarrow> nat \<Rightarrow> KvError + nat" where
  "sequence_bytes T s =
     res_bind (find_sequence T s) (\<lambda>ps. Inr (sat_mul_u64 (length ps) (bytes_per_page T)))"

section \<open>Construction\<close>

definition cache_new :: "'f f32_ops \<Rightarrow> LeaseLedger \<Rightarrow> nat \<Rightarrow> nat \<Rightarrow> KvError + 'f PagedKvCache" where
  "cache_new F L ps n = res_bind (pt_new F L ps n) (\<lambda>T. Inr \<lparr>page_table = T, next_seq_id = 0\<rparr>)"

definition cache_new_with_tensor_config ::
  "'f f32_ops \<Rightarrow> LeaseLedger \<Rightarrow> PageTensorConfig \<Rightarrow> nat \<Rightarrow> KvError + 'f PagedKvCache" where
  "cache_new_with_tensor_config F L config n =
     res_bind (new_with_tensor_config F L (tc_page_size config) n (Some config))
       (\<lambda>T. Inr \<lparr>page_table = T, next_seq_id = 0\<rparr>)"

definition cache_new_with_quant_config ::
  "'f f32_ops \<Rightarrow> LeaseLedger \<Rightarrow> PageTensorConfig \<Rightarrow> KvQuantConfig \<Rightarrow> nat \<Rightarrow> KvError + 'f PagedKvCache" where
  "cache_new_with_quant_config F L config q n =
     res_bind (new_with_quant_config F L (tc_page_size config) n config q)
       (\<lambda>T. Inr \<lparr>page_table = T, next_seq_id = 0\<rparr>)"

definition cache_new_with_layer_tensor_configs ::
  "'f f32_ops \<Rightarrow> LeaseLedger \<Rightarrow> nat \<Rightarrow> KvDType \<Rightarrow> LayerTensorConfig list \<Rightarrow> nat \<Rightarrow> KvError + 'f PagedKvCache" where
  "cache_new_with_layer_tensor_configs F L ps d gs n =
     res_bind (new_with_layer_configs F L ps n d gs) (\<lambda>T. Inr \<lparr>page_table = T, next_seq_id = 0\<rparr>)"

definition cache_new_leased ::
  "'f f32_ops \<Rightarrow> LeaseLedger \<Rightarrow> nat \<Rightarrow> KvDType \<Rightarrow> LayerTensorConfig list \<Rightarrow> nat \<Rightarrow> Tier \<Rightarrow> nat \<Rightarrow>
     LeaseLedger \<times> (KvError + 'f PagedKvCache)" where
  "cache_new_leased F L ps d gs n tier holder =
     (case new_leased F L ps n d gs tier holder of
        (L', r) \<Rightarrow> (L', res_bind r (\<lambda>T. Inr \<lparr>page_table = T, next_seq_id = 0\<rparr>)))"

definition cache_new_with_layer_quant_config ::
  "'f f32_ops \<Rightarrow> LeaseLedger \<Rightarrow> nat \<Rightarrow> KvDType \<Rightarrow> LayerTensorConfig list \<Rightarrow> KvQuantConfig \<Rightarrow> nat \<Rightarrow>
     KvError + 'f PagedKvCache" where
  "cache_new_with_layer_quant_config F L ps d gs q n =
     res_bind (new_with_layer_quant_config F L ps n d gs q) (\<lambda>T. Inr \<lparr>page_table = T, next_seq_id = 0\<rparr>)"

definition cache_new_with_quant_policy ::
  "'f f32_ops \<Rightarrow> LeaseLedger \<Rightarrow> PageTensorConfig \<Rightarrow> KvDType \<Rightarrow> KvQuantPolicy \<Rightarrow> nat \<Rightarrow> KvError + 'f PagedKvCache" where
  "cache_new_with_quant_policy F L config native_dtype policy n =
     res_bind (from_policy policy native_dtype (tc_num_layers config)) (\<lambda>q.
     cache_new_with_quant_config F L config q n)"

end
