(* ===== verification/PagedCacheInv.thy ===== *)
theory PagedCacheInv
  imports PagedCache
begin

text \<open>
  What the cache operations keep. \<open>keeps T U\<close> relates two tables when every live page of \<open>T\<close> is
  live in \<open>U\<close> with the same stored values, whatever its tier; \<open>seq_view\<close> is the part of the
  table that describes sequences and geometry. The tiering operations change neither.
\<close>

section \<open>Contents and views\<close>

definition content :: "'f Page \<Rightarrow> 'f list \<times> int list \<times> nat list \<times> 'f list \<times> ComponentStorage list" where
  "content p = (hs_data (page_store p), hs_quantized_data (page_store p), hs_fp8_data (page_store p),
                hs_quant_scales (page_store p), storage_layout p)"

definition keeps :: "'f PageTable \<Rightarrow> 'f PageTable \<Rightarrow> bool" where
  "keeps T U \<longleftrightarrow>
     (\<forall>i p. get_page T i = Some p \<and> ref_count p > 0 \<longrightarrow>
        (\<exists>q. get_page U i = Some q \<and> ref_count q > 0 \<and> content q = content p))"

definition seq_view ::
  "'f PageTable \<Rightarrow> (nat \<times> nat list) list \<times> (nat \<rightharpoonup> nat) \<times> (nat \<rightharpoonup> nat) \<times> (nat \<rightharpoonup> nat) \<times>
     nat \<times> LayerTensorConfig list \<times> KvQuantConfig option \<times> PageTensorConfig option" where
  "seq_view T = (sequences T, sequence_lengths T, sequence_starts T, sequence_sink_lens T,
                 page_size T, layer_configs T, quant_config T, tensor_config T)"

lemma keeps_refl [simp]: "keeps T T" by (simp add: keeps_def)

lemma keeps_trans: "keeps T U \<Longrightarrow> keeps U V \<Longrightarrow> keeps T V"
  unfolding keeps_def by (metis (no_types, lifting))

lemma content_simps [simp]:
  "content (relocate dev p) = content p" "content (p\<lparr>ref_count := n\<rparr>) = content p"
  "content (p\<lparr>last_access := n\<rparr>) = content p" "content (p\<lparr>filled := n\<rparr>) = content p"
  by (simp_all add: content_def relocate_def)

lemma value_at_slot_content: "content p = content q \<Longrightarrow> value_at_slot F p = value_at_slot F q"
  by (simp add: content_def value_at_slot_def fun_eq_iff Let_def cong: KvDType.case_cong)

lemma keeps_put:
  "(\<And>p. get_page T i = Some p \<Longrightarrow> ref_count p > 0 \<Longrightarrow> ref_count p' > 0 \<and> content p' = content p) \<Longrightarrow>
     keeps T (put_page T i p')"
  by (auto simp: keeps_def)

lemma keeps_same_pages: "pages U = pages T \<Longrightarrow> keeps T U"
  by (auto simp: keeps_def get_page_def)

lemma keeps_upd [simp]:
  "keeps T (U\<lparr>clock := c\<rparr>) = keeps T U" "keeps T (U\<lparr>stats := st\<rparr>) = keeps T U"
  "keeps T (U\<lparr>pool_ledger := L\<rparr>) = keeps T U" "keeps T (U\<lparr>pool_lease := m\<rparr>) = keeps T U"
  "keeps T (U\<lparr>free_pages := fp\<rparr>) = keeps T U" "keeps T (U\<lparr>next_page_id := n\<rparr>) = keeps T U"
  "keeps T (U\<lparr>sequences := S\<rparr>) = keeps T U" "keeps T (U\<lparr>sequence_lengths := a\<rparr>) = keeps T U"
  "keeps T (U\<lparr>sequence_starts := a\<rparr>) = keeps T U" "keeps T (U\<lparr>sequence_sink_lens := a\<rparr>) = keeps T U"
  by (simp_all add: keeps_def)

lemma seq_view_upd [simp]:
  "seq_view (put_page U i p) = seq_view U"
  "seq_view (U\<lparr>clock := c\<rparr>) = seq_view U" "seq_view (U\<lparr>stats := st\<rparr>) = seq_view U"
  "seq_view (U\<lparr>pool_ledger := L\<rparr>) = seq_view U" "seq_view (U\<lparr>pool_lease := m\<rparr>) = seq_view U"
  "seq_view (U\<lparr>free_pages := fp\<rparr>) = seq_view U" "seq_view (U\<lparr>next_page_id := n\<rparr>) = seq_view U"
  "seq_view (U\<lparr>pages := ps\<rparr>) = seq_view U"
  by (simp_all add: seq_view_def put_page_def)

lemma seq_viewD:
  assumes "seq_view U = seq_view T"
  shows "sequences U = sequences T" "sequence_lengths U = sequence_lengths T"
    "sequence_starts U = sequence_starts T" "sequence_sink_lens U = sequence_sink_lens T"
    "page_size U = page_size T" "layer_configs U = layer_configs T" "quant_config U = quant_config T"
    "tensor_config U = tensor_config T" "get_sequence U = get_sequence T"
  using assms by (simp_all add: seq_view_def get_sequence_def fun_eq_iff)

section \<open>Tiering keeps contents\<close>

text \<open>\<open>tier_step T U\<close>: contents, sequences and the id counter are those of \<open>T\<close>.\<close>

definition tier_step :: "'f PageTable \<Rightarrow> 'f PageTable \<Rightarrow> bool" where
  "tier_step T U \<longleftrightarrow> keeps T U \<and> seq_view U = seq_view T \<and> next_page_id U = next_page_id T
     \<and> hot_capacity U = hot_capacity T
     \<and> (\<forall>i. map_option ref_count (get_page U i) = map_option ref_count (get_page T i))"

lemma tier_step_refl [simp]: "tier_step T T" by (simp add: tier_step_def)

lemma tier_step_trans: "tier_step T U \<Longrightarrow> tier_step U V \<Longrightarrow> tier_step T V"
  by (auto simp: tier_step_def intro: keeps_trans)

lemma tier_step_put:
  assumes "get_page T i = Some p" "content p' = content p" "ref_count p' = ref_count p"
  shows "tier_step T (put_page T i p')"
  using assms by (auto simp: tier_step_def intro!: keeps_put)

lemma tier_step_upd [simp]:
  "tier_step T (U\<lparr>clock := c\<rparr>) = tier_step T U" "tier_step T (U\<lparr>stats := st\<rparr>) = tier_step T U"
  "tier_step T (U\<lparr>pool_ledger := L\<rparr>) = tier_step T U" "tier_step T (U\<lparr>pool_lease := m\<rparr>) = tier_step T U"
  by (simp_all add: tier_step_def)

lemma migrate_page_tier: "migrate_page T i target = (U, r) \<Longrightarrow> tier_step T U"
  by (erule migrate_page_cases) (auto intro: tier_step_put)

lemma stamp_tier:
  assumes "get_page T i = Some p"
  shows "tier_step T (stamp T i p)"
proof -
  have "stamp T i p = (put_page T i (p\<lparr>last_access := clock T + 1\<rparr>))\<lparr>clock := clock T + 1\<rparr>"
    by (simp add: stamp_def put_page_def)
  then show ?thesis using assms by (auto intro: tier_step_put)
qed

lemma touch_tier: "tier_step T (touch T i)"
  by (auto simp: touch_def stamp_tier split: option.split)

lemma evict_lru_hot_tier: "evict_lru_hot T ex = (U, r) \<Longrightarrow> tier_step T U"
  by (auto simp: evict_lru_hot_def bump_hot_evictions_def dest: migrate_page_tier
      split: option.splits prod.splits sum.splits)

text \<open>The three exits of \<open>promote_to_hot\<close>: nothing but an eviction, a failed move, a stamp.\<close>

lemma promote_to_hot_cases:
  assumes "promote_to_hot T i = (U, r)"
  obtains (missing) "U = T" "r = Inl (PageNotFound i)" "get_page T i = None"
  | (hot) p where "get_page T i = Some p" "is_hot p" "U = touch T i" "r = Inr ()"
  | (no_room) p e where "get_page T i = Some p" "\<not> is_hot p" "r = Inl e" "U = T \<or> evict_lru_hot T (Some i) = (U, Inl e)"
  | (moved) p T1 T2 r2 where "get_page T i = Some p" "\<not> is_hot p"
      "T1 = T \<or> (\<exists>v. evict_lru_hot T (Some i) = (T1, Inr v))" "migrate_page T1 i (Gpu 0) = (T2, r2)"
      "(\<exists>e. r2 = Inl e \<and> r = Inl e \<and> U = T2) \<or> (get_page T2 i = None \<and> r = Inl (PageNotFound i) \<and> U = T2) \<or>
       (\<exists>q. get_page T2 i = Some q \<and> U = stamp T2 i q \<and> r = Inr ())"
proof (cases "get_page T i")
  case None
  with assms missing show thesis by (auto simp: promote_to_hot_def)
next
  case (Some p)
  show thesis
  proof (cases "is_hot p")
    case True
    with assms Some hot show thesis by (auto simp: promote_to_hot_def)
  next
    case False
    show thesis
    proof (cases "hot_capacity T = 0")
      case True
      with assms Some False no_room show thesis by (auto simp: promote_to_hot_def)
    next
      case cap: False
      have rest: thesis if T1: "T1 = T \<or> (\<exists>v. evict_lru_hot T (Some i) = (T1, Inr v))"
        and eq: "(U, r) = (case migrate_page T1 i (Gpu 0) of
                    (T2, Inl e) \<Rightarrow> (T2, Inl e)
                  | (T2, Inr _) \<Rightarrow>
                      (case get_page T2 i of
                         None \<Rightarrow> (T2, Inl (PageNotFound i))
                       | Some p2 \<Rightarrow> (stamp T2 i p2, Inr ())))" for T1
        using moved [OF Some False T1] eq
        by (cases "migrate_page T1 i (Gpu 0)") (fastforce split: sum.splits option.splits)
      show thesis
      proof (cases "hot_used_count T \<ge> hot_capacity T")
        case False
        with assms Some \<open>\<not> is_hot p\<close> cap rest [of T] show thesis by (simp add: promote_to_hot_def)
      next
        case True
        obtain T1 r1 where e: "evict_lru_hot T (Some i) = (T1, r1)" by (cases "evict_lru_hot T (Some i)")
        show thesis
        proof (cases r1)
          case (Inl x)
          with assms Some \<open>\<not> is_hot p\<close> cap True e no_room show thesis by (auto simp: promote_to_hot_def)
        next
          case (Inr v)
          with assms Some \<open>\<not> is_hot p\<close> cap True e rest [of T1] show thesis by (simp add: promote_to_hot_def)
        qed
      qed
    qed
  qed
qed

lemma promote_to_hot_tier:
  assumes "promote_to_hot T i = (U, r)"
  shows "tier_step T U"
  using assms
proof (cases rule: promote_to_hot_cases)
  case (no_room p e)
  then show ?thesis by (auto dest: evict_lru_hot_tier)
next
  case (moved p T1 T2 r2)
  have "tier_step T T1" using moved(3) by (auto dest: evict_lru_hot_tier)
  then have "tier_step T T2" using migrate_page_tier [OF moved(4)] by (rule tier_step_trans)
  with moved(5) show ?thesis by (auto intro: tier_step_trans stamp_tier)
qed (simp_all add: touch_tier)

lemma demote_pages_tier: "demote_pages T is n = (U, r) \<Longrightarrow> tier_step T U"
proof (induction T "is" n rule: demote_pages.induct)
  case (2 T i "is" n)
  show ?case
  proof (cases "\<exists>p. get_page T i = Some p \<and> ref_count p \<le> 1 \<and> is_hot p")
    case True
    then obtain p where p: "get_page T i = Some p" "ref_count p \<le> 1" "is_hot p" by blast
    obtain T1 r1 where m: "migrate_page T i Cpu = (T1, r1)" by (cases "migrate_page T i Cpu")
    note t = migrate_page_tier [OF m]
    with 2 p m show ?thesis by (auto intro: tier_step_trans split: sum.splits)
  next
    case False
    with 2 show ?thesis by (auto split: option.splits if_splits)
  qed
qed simp

lemma evict_sequence_to_cold_tier: "evict_sequence_to_cold T s = (U, r) \<Longrightarrow> tier_step T U"
  by (auto simp: evict_sequence_to_cold_def bump_hot_evictions_def dest: demote_pages_tier
      split: option.splits prod.splits sum.splits)

lemma evict_times_tier: "evict_times T n k = (U, m) \<Longrightarrow> tier_step T U"
proof (induction T n k rule: evict_times.induct)
  case (2 T n k)
  obtain T1 r1 where e: "evict_lru_hot T None = (T1, r1)" by (cases "evict_lru_hot T None")
  note t = evict_lru_hot_tier [OF e]
  with 2 e show ?case by (cases r1) (auto intro: tier_step_trans)
qed simp

lemma promote_all_tier: "promote_all T is n = (U, r) \<Longrightarrow> tier_step T U"
proof (induction "is" arbitrary: T n)
  case (Cons i "is")
  obtain T1 r1 where p: "promote_to_hot T i = (T1, r1)" by (cases "promote_to_hot T i")
  note t = promote_to_hot_tier [OF p]
  show ?case
  proof (cases r1)
    case (Inl e)
    with Cons.prems p t show ?thesis by (simp add: Let_def)
  next
    case (Inr u)
    with Cons.prems p obtain n' where "promote_all T1 is n' = (U, r)" by (auto simp: Let_def)
    from Cons.IH [OF this] t show ?thesis by (blast intro: tier_step_trans)
  qed
qed simp

section \<open>Allocation and release keep contents\<close>

lemma alloc_frame_view: "alloc_frame U = alloc_frame T \<Longrightarrow> seq_view U = seq_view T"
proof -
  have "seq_view X = seq_view (alloc_frame X)" for X :: "'f PageTable" by (simp add: seq_view_def alloc_frame_def)
  then show "alloc_frame U = alloc_frame T \<Longrightarrow> seq_view U = seq_view T" by metis
qed

lemma take_free_page_ids:
  "next_page_id T < u32_max \<Longrightarrow> take_free_page F T dev = (U, r) \<Longrightarrow> next_page_id U \<le> next_page_id T + 1"
  by (auto simp: take_free_page_def stamp_def Let_def sat_add_u32_def
      split: option.splits list.splits if_splits)

lemma allocate_ids:
  assumes "next_page_id T < u32_max" "allocate F T dev = (U, r)"
  shows "next_page_id U \<le> next_page_id T + 1"
proof -
  obtain T0 r0 where e: "evict_lru_hot T None = (T0, r0)" by (cases "evict_lru_hot T None")
  have "next_page_id T0 = next_page_id T" by (rule evict_lru_hot_frame [OF e])
  with assms e show ?thesis
    using take_free_page_ids [of T0 F dev] take_free_page_ids [of T F dev]
    by (fastforce simp: allocate_def allocate_page_def split: prod.splits option.splits sum.splits if_splits)
qed

text \<open>What an allocation leaves alone: everything but the page it returns.\<close>

definition alloc_step :: "'f PageTable \<Rightarrow> nat option \<Rightarrow> 'f PageTable \<Rightarrow> bool" where
  "alloc_step T r U \<longleftrightarrow> keeps T U \<and> seq_view U = seq_view T \<and> next_page_id U \<le> next_page_id T + 1
     \<and> (\<forall>j. r \<noteq> Some j \<longrightarrow> map_option ref_count (get_page U j) = map_option ref_count (get_page T j))"

lemma allocate_step:
  assumes inv: "pt_inv ext T" and ids: "next_page_id T < u32_max" and a: "allocate F T dev = (U, r)"
  shows "alloc_step T r U"
proof -
  have view: "seq_view U = seq_view T" by (rule alloc_frame_view [OF allocate_frame [OF a]])
  have nid: "next_page_id U \<le> next_page_id T + 1" by (rule allocate_ids [OF ids a])
  obtain T0 r0 where e: "evict_lru_hot T None = (T0, r0)" by (cases "evict_lru_hot T None")
  note t0 = evict_lru_hot_tier [OF e] and inv0 = evict_lru_hot_inv [OF e inv]
  have take: "keeps X Y \<and> (\<forall>j. r \<noteq> Some j \<longrightarrow> map_option ref_count (get_page Y j) = map_option ref_count (get_page X j))"
    if t: "take_free_page F X dev = (Y, r)" and X: "pt_inv ext X" "next_page_id X < u32_max" for X Y
  proof (cases r)
    case None
    with take_free_page_inv [OF X t] show ?thesis by simp
  next
    case (Some i)
    note clean = take_free_page_clean [OF X t [unfolded Some]]
    have "j \<noteq> i" if "get_page X j = Some p" "ref_count p > 0" for j p
      using pt_invD(3) [OF X(1) that(1)] that(2) clean(3,4) by (auto simp: page_ok_def)
    with clean(2) have "keeps X Y" by (auto simp: keeps_def)
    with clean(2) Some show ?thesis by auto
  qed
  have "keeps T U \<and> (\<forall>j. r \<noteq> Some j \<longrightarrow> map_option ref_count (get_page U j) = map_option ref_count (get_page T j))"
  proof (cases "is_gpu dev \<and> free_count T dev = 0 \<and> hot_used_count T \<ge> hot_capacity T")
    case False
    with a obtain V where "take_free_page F T dev = (V, r)" "pages U = pages V"
      by (auto simp: allocate_def allocate_page_def split: prod.splits option.splits)
    with take [OF _ inv ids] show ?thesis by (fastforce simp: keeps_def get_page_def)
  next
    case True
    show ?thesis
    proof (cases r0)
      case (Inl x)
      with a True e have "pages U = pages T0" by (auto simp: allocate_def allocate_page_def)
      with t0 show ?thesis by (auto simp: tier_step_def keeps_def get_page_def)
    next
      case (Inr v)
      with a True e obtain V where V: "take_free_page F T0 dev = (V, r)" "pages U = pages V"
        by (auto simp: allocate_def allocate_page_def split: prod.splits option.splits)
      have "next_page_id T0 < u32_max" using ids t0 by (simp add: tier_step_def)
      from take [OF V(1) inv0 this] t0 have "keeps T V"
        "\<forall>j. r \<noteq> Some j \<longrightarrow> map_option ref_count (get_page V j) = map_option ref_count (get_page T j)"
        by (auto simp: tier_step_def intro: keeps_trans)
      with V(2) show ?thesis by (simp add: keeps_def get_page_def)
    qed
  qed
  with view nid show ?thesis by (simp add: alloc_step_def)
qed

lemma allocated_was_free:
  assumes inv: "pt_inv ext T" and ids: "next_page_id T < u32_max" and a: "allocate F T dev = (U, Some i)"
  shows "refs_in (sequences T) i = 0"
proof -
  from a inv obtain T0 where T0: "pt_inv ext T0" "pages (fst (take_free_page F T0 dev)) = pages U"
    "snd (take_free_page F T0 dev) = Some i" "next_page_id T0 = next_page_id T" "sequences T0 = sequences T"
    by (rule allocate_cases)
  have "take_free_page F T0 dev = (fst (take_free_page F T0 dev), Some i)" using T0(3) by (metis prod.collapse)
  from take_free_page_clean(3) [OF T0(1) _ this] T0(4,5) ids show ?thesis by simp
qed

definition page_content ::
  "'f PageTable \<Rightarrow> nat \<Rightarrow> nat \<Rightarrow> ('f list \<times> int list \<times> nat list \<times> 'f list \<times> ComponentStorage list) option" where
  "page_content T s k =
     (case get_sequence T s of
        None \<Rightarrow> None
      | Some ps \<Rightarrow> if k < length ps then map_option content (get_page T (ps ! k)) else None)"

lemma page_content_keeps:
  assumes "pt_inv ext T" "keeps T U" "get_sequence U = get_sequence T"
  shows "page_content U s k = page_content T s k"
proof (cases "get_sequence T s")
  case (Some ps)
  show ?thesis
  proof (cases "k < length ps")
    case True
    from sequence_page_live [OF assms(1) Some nth_mem [OF True]] obtain p
      where "get_page T (ps ! k) = Some p" "ref_count p > 0" by blast
    with assms(2) Some True assms(3) show ?thesis by (fastforce simp: page_content_def keeps_def)
  qed (use Some assms(3) in \<open>simp add: page_content_def\<close>)
qed (simp add: page_content_def assms(3))

lemma free_page_view [simp]: "seq_view (free_page F T i) = seq_view T" "next_page_id (free_page F T i) = next_page_id T"
  "hot_capacity (free_page F T i) = hot_capacity T"
  by (simp_all add: free_page_def Let_def split: option.split)

lemma free_page_other:
  "j \<noteq> i \<Longrightarrow> get_page (free_page F T i) j = get_page T j"
  by (simp add: free_page_def Let_def get_page_def put_page_def split: option.split)

lemma free_page_shared:
  "get_page T i = Some p \<Longrightarrow> ref_count p > 1 \<Longrightarrow> get_page (free_page F T i) i = Some (p\<lparr>ref_count := ref_count p - 1\<rparr>)"
  by (simp add: free_page_def Let_def)

lemma free_page_content:
  assumes inv: "pt_inv ext T" and held: "0 < ext i"
  shows "page_content (free_page F T i) s k = page_content T s k"
proof (cases "get_sequence T s")
  case None
  then show ?thesis by (simp add: page_content_def seq_viewD [OF free_page_view(1)])
next
  case (Some ps)
  note gs = seq_viewD(9) [OF free_page_view(1), of F T i]
  show ?thesis
  proof (cases "k < length ps \<and> ps ! k = i")
    case True
    with sequence_page_live [OF inv Some] obtain p where p: "get_page T i = Some p" "page_ok T ext i p"
      by (metis nth_mem)
    have "count_list ps i > 0" using True by (metis count_list_0_iff gr0I nth_mem)
    with refs_in_member [of "sequences T" s ps i] Some have "refs_in (sequences T) i > 0"
      by (simp add: get_sequence_def)
    with p held have "ref_count p > 1" by (simp add: page_ok_def)
    from free_page_shared [OF p(1) this, of F] True Some p gs show ?thesis by (simp add: page_content_def)
  next
    case False
    with Some gs free_page_other [of _ i F T] show ?thesis by (auto simp: page_content_def)
  qed
qed

section \<open>Preparing a page for a write\<close>

definition meta ::
  "'f PageTable \<Rightarrow> (nat \<rightharpoonup> nat) \<times> (nat \<rightharpoonup> nat) \<times> (nat \<rightharpoonup> nat) \<times>
     nat \<times> LayerTensorConfig list \<times> KvQuantConfig option \<times> PageTensorConfig option" where
  "meta T = (sequence_lengths T, sequence_starts T, sequence_sink_lens T,
             page_size T, layer_configs T, quant_config T, tensor_config T)"

lemma metaD:
  assumes "meta U = meta T"
  shows "sequence_lengths U = sequence_lengths T" "sequence_starts U = sequence_starts T"
    "sequence_sink_lens U = sequence_sink_lens T" "page_size U = page_size T"
    "layer_configs U = layer_configs T" "quant_config U = quant_config T" "tensor_config U = tensor_config T"
  using assms by (simp_all add: meta_def)

lemma seq_view_meta: "seq_view U = seq_view T \<Longrightarrow> meta U = meta T"
  by (simp add: seq_view_def meta_def)

definition same_reads :: "'f PageTable \<Rightarrow> 'f PageTable \<Rightarrow> bool" where
  "same_reads T U \<longleftrightarrow> (\<forall>s k. page_content T s k \<noteq> None \<longrightarrow> page_content U s k = page_content T s k)"

lemma same_reads_refl [simp]: "same_reads T T" by (simp add: same_reads_def)

lemma same_reads_trans: "same_reads T U \<Longrightarrow> same_reads U V \<Longrightarrow> same_reads T V"
  by (simp add: same_reads_def)

text \<open>The outcome of \<open>ensure_page_for_write\<close> for page \<open>k\<close> of sequence \<open>s\<close>.\<close>

definition ensured ::
  "(nat \<Rightarrow> nat) \<Rightarrow> 'f PageTable \<Rightarrow> nat \<Rightarrow> nat \<Rightarrow> 'f PageTable \<Rightarrow> KvError + nat \<Rightarrow> bool" where
  "ensured ext T s k U r \<longleftrightarrow>
     pt_inv ext U \<and> meta U = meta T \<and> next_page_id U \<le> next_page_id T + 1 \<and> same_reads T U
     \<and> (\<forall>s'. s' \<noteq> s \<longrightarrow> get_sequence U s' = get_sequence T s')
     \<and> (case r of
          Inl e \<Rightarrow> get_sequence U s = get_sequence T s
        | Inr i \<Rightarrow> (\<exists>ps p. get_sequence T s = Some ps \<and> k \<le> length ps \<and>
             get_sequence U s = Some (if k < length ps then ps[k := i] else ps @ [i]) \<and>
             get_page U i = Some p \<and> ref_count p = 1))"

lemma ensured_refused:
  assumes "pt_inv ext T" "seq_view U = seq_view T" "keeps T U" "pt_inv ext U" "next_page_id U \<le> next_page_id T + 1"
  shows "ensured ext T s k U (Inl e)"
  using page_content_keeps [OF assms(1,3) seq_viewD(9) [OF assms(2)]] assms(4,5)
    seq_view_meta [OF assms(2)] seq_viewD(9) [OF assms(2)]
  by (simp add: ensured_def same_reads_def)

lemma drop_transient_fields [simp]:
  "seq_view (drop_transient T m) = seq_view T" "pages (drop_transient T m) = pages T"
  "next_page_id (drop_transient T m) = next_page_id T" "pt_inv ext (drop_transient T m) = pt_inv ext T"
  "get_page (drop_transient T m) = get_page T" "hot_capacity (drop_transient T m) = hot_capacity T"
  by (cases m; simp add: drop_transient_def get_page_def fun_eq_iff)+

lemma drop_checkpoint_fields [simp]:
  "seq_view (drop_checkpoint T c) = seq_view T" "pages (drop_checkpoint T c) = pages T"
  "next_page_id (drop_checkpoint T c) = next_page_id T" "pt_inv ext (drop_checkpoint T c) = pt_inv ext T"
  "get_page (drop_checkpoint T c) = get_page T" "hot_capacity (drop_checkpoint T c) = hot_capacity T"
  by (simp_all add: drop_checkpoint_def)

lemma checkpoint_err: "allocation_checkpoint T src dev = (U, Inl e) \<Longrightarrow> U = T"
proof -
  assume a: "allocation_checkpoint T src dev = (U, Inl e)"
  have "drop_transient T2 g = T" if "reserve_transient T b = (T1, Inr g)" "reserve_transient T1 b' = (T2, Inl e')"
    for b b' T1 T2 g e'
    using reserve_drop_transient [OF that(1)] reserve_transient_err [OF that(2)] by simp
  with a show ?thesis
    by (auto simp: allocation_checkpoint_def Let_def dest: reserve_transient_err
        split: option.splits prod.splits sum.splits)
qed

lemma commit_allocation_shape:
  assumes "commit_allocation T c = (U, c', r)"
  shows "\<exists>m L. U = T\<lparr>pool_lease := m, pool_ledger := L\<rparr>" "\<exists>g. c' = c\<lparr>cp_persistent_growth := g\<rparr>"
proof -
  have "U = T\<lparr>pool_lease := pool_lease U, pool_ledger := pool_ledger U\<rparr>"
    using assms by (auto simp: commit_allocation_def Let_def drop_transient_def split: option.splits prod.splits)
  then show "\<exists>m L. U = T\<lparr>pool_lease := m, pool_ledger := L\<rparr>" by blast
  have "c' = c\<lparr>cp_persistent_growth := cp_persistent_growth c'\<rparr>"
    using assms by (auto simp: commit_allocation_def Let_def split: option.splits prod.splits)
  then show "\<exists>g. c' = c\<lparr>cp_persistent_growth := g\<rparr>" by blast
qed

lemma copy_physical_ok:
  assumes "page_shape comps new" "page_shape comps old"
  shows "\<exists>n. copy_physical_store_from new (page_store old) =
      Inr (new\<lparr>page_store := (page_store old)\<lparr>hs_residency := residency new\<rparr>\<rparr>, n)"
    "content (new\<lparr>page_store := (page_store old)\<lparr>hs_residency := residency new\<rparr>\<rparr>) = content old"
proof -
  have "same_layout (page_store new) (page_store old)"
    using assms by (simp add: page_shape_def same_layout_def)
  then show "\<exists>n. copy_physical_store_from new (page_store old) =
      Inr (new\<lparr>page_store := (page_store old)\<lparr>hs_residency := residency new\<rparr>\<rparr>, n)"
    by (simp add: copy_physical_store_from_def copy_to_same_layout residency_def)
  show "content (new\<lparr>page_store := (page_store old)\<lparr>hs_residency := residency new\<rparr>\<rparr>) = content old"
    using assms by (simp add: content_def page_shape_def)
qed

lemma replace_page_view:
  assumes "get_sequence T s = Some ps" "k < length ps"
  shows "get_sequence (replace_page T s k i) = (get_sequence T)(s \<mapsto> ps[k := i])"
    "meta (replace_page T s k i) = meta T" "next_page_id (replace_page T s k i) = next_page_id T"
    "get_page (replace_page T s k i) = get_page T"
  using assms by (simp_all add: replace_page_def get_sequence_def meta_def fun_eq_iff)

lemma free_page_meta [simp]: "meta (free_page F T i) = meta T" "get_sequence (free_page F T i) = get_sequence T"
  using seq_view_meta [OF free_page_view(1)] seq_viewD(9) [OF free_page_view(1)] by auto

lemma swap_in_copy:
  assumes inv: "pt_inv (ext(new := 1)) T" and new: "ext new = 0" "new \<noteq> i" "refs_in (sequences T) new = 0"
    and ps: "get_sequence T s = Some ps" "k < length ps" "ps ! k = i"
    and q: "get_page T new = Some q" "get_page T i = Some p" "content q = content p"
    and U: "U = free_page F (replace_page T s k new) i"
  shows "pt_inv ext U" "\<And>s' k'. page_content U s' k' = page_content T s' k'"
    "get_sequence U = (get_sequence T)(s \<mapsto> ps[k := new])" "meta U = meta T" "next_page_id U = next_page_id T"
    "\<exists>q. get_page U new = Some q \<and> ref_count q = 1"
proof -
  let ?R = "replace_page T s k new" and ?ext = "ext(i := ext i + 1)"
  note view = replace_page_view [OF ps(1,2), of new]
  have "(((ext(new := 1))(new := (ext(new := 1)) new - 1))(i := ((ext(new := 1))(new := (ext(new := 1)) new - 1)) i + 1)) = ?ext"
    using new by (simp add: fun_eq_iff)
  then have invR: "pt_inv ?ext ?R" using replace_page_inv [OF inv ps(1,2), of new] ps(3) by simp
  then have "pt_inv (?ext(i := ?ext i - 1)) U" unfolding U by (rule free_page_inv) simp
  moreover have "?ext(i := ?ext i - 1) = ext" by auto
  ultimately show invU: "pt_inv ext U" by simp
  have "page_content ?R s' k' = page_content T s' k'" for s' k'
    unfolding page_content_def view using q ps by (auto simp: nth_list_update split: option.split)
  then show "page_content U s' k' = page_content T s' k'" for s' k'
    using free_page_content [OF invR, of i F s' k'] by (simp add: U)
  show seqU: "get_sequence U = (get_sequence T)(s \<mapsto> ps[k := new])" "meta U = meta T" "next_page_id U = next_page_id T"
    by (simp_all add: U view)
  have gU: "get_page U new = Some q" using free_page_other [OF new(2), of F ?R] q(1) by (simp add: U view)
  from pt_invD(3) [OF inv q(1)] new have "ref_count q = 1" by (simp add: page_ok_def)
  with gU show "\<exists>q. get_page U new = Some q \<and> ref_count q = 1" by simp
qed

lemma content_meta_transparent [simp]:
  "page_content (T\<lparr>pool_lease := m\<rparr>) s k = page_content T s k"
  "page_content (T\<lparr>pool_ledger := L\<rparr>) s k = page_content T s k"
  "meta (T\<lparr>pool_lease := m\<rparr>) = meta T" "meta (T\<lparr>pool_ledger := L\<rparr>) = meta T" "meta (put_page T i p) = meta T"
  "get_sequence (T\<lparr>pool_lease := m\<rparr>) = get_sequence T" "get_sequence (T\<lparr>pool_ledger := L\<rparr>) = get_sequence T"
  "get_sequence (put_page T i p) = get_sequence T"
  by (simp_all add: page_content_def get_sequence_def meta_def fun_eq_iff split: option.split)

lemma page_content_drop [simp]:
  "page_content (drop_checkpoint T c) s k = page_content T s k" "meta (drop_checkpoint T c) = meta T"
  "get_sequence (drop_checkpoint T c) = get_sequence T"
  using seq_viewD(9) [OF drop_checkpoint_fields(1), of T c] seq_view_meta [OF drop_checkpoint_fields(1), of T c]
  by (simp_all add: page_content_def split: option.split)

lemma cow_copied:
  assumes inv: "pt_inv ext T" and ids: "next_page_id T < u32_max"
    and ps: "get_sequence T s = Some ps" "k < length ps" "ps ! k = i"
    and cp: "allocation_checkpoint T i (Gpu 0) = (T1, Inr c)" and al: "allocate F T1 (Gpu 0) = (T2, Some new)"
    and inv2: "pt_inv (ext(new := 1)) T2" and ext0: "ext new = 0"
    and keeps: "keeps T T2" and view: "seq_view T2 = seq_view T" and nid: "next_page_id T2 \<le> next_page_id T + 1"
  shows "case copy_on_write F T s k i of (U, r) \<Rightarrow> ensured ext T s k U r"
proof -
  note sv = seq_viewD [OF view]
  from sequence_page_live [OF inv ps(1)] ps obtain p where p: "get_page T i = Some p" "ref_count p > 0" "page_ok T ext i p"
    by (metis nth_mem)
  from keeps p obtain old where old: "get_page T2 i = Some old" "content old = content p" by (auto simp: keeps_def)
  have "get_page T2 new \<noteq> None" by (rule pt_invD(4) [OF inv2]) simp
  then obtain n where n: "get_page T2 new = Some n" by blast
  have shapes: "page_shape (shape_of T2) n" "page_shape (shape_of T2) old" and rn: "ref_count n = refs_in (sequences T2) new + 1"
    using pt_invD(3) [OF inv2 n] pt_invD(3) [OF inv2 old(1)] by (simp_all add: page_ok_def)
  have new0: "refs_in (sequences T2) new = 0"
  proof -
    from checkpoint_ok(2) [OF cp] obtain L where T1: "T1 = T\<lparr>pool_ledger := L\<rparr>" by blast
    have "pt_inv ext T1" "next_page_id T1 < u32_max" using inv ids by (simp_all add: T1)
    from allocated_was_free [OF this al] show ?thesis using sv by (simp add: T1)
  qed
  have ne: "new \<noteq> i"
    using new0 refs_in_member [of "sequences T" s ps i] ps sv by (auto simp: get_sequence_def count_list_0_iff)
  let ?n' = "n\<lparr>page_store := (page_store old)\<lparr>hs_residency := residency n\<rparr>\<rparr>"
  let ?T3 = "put_page T2 new (?n'\<lparr>filled := filled old\<rparr>)"
  obtain b where copy: "copy_physical_store_from n (page_store old) = Inr (?n', b)"
    using copy_physical_ok(1) [OF shapes] by blast
  have same: "content ?n' = content old" by (rule copy_physical_ok(2) [OF shapes])
  have inv3: "pt_inv (ext(new := 1)) ?T3"
    by (rule pt_inv_write [OF inv2 n]) (use shapes in \<open>auto simp: page_shape_def residency_def\<close>)
  obtain T4 c' cr where com: "commit_allocation ?T3 c = (T4, c', cr)" by (cases "commit_allocation ?T3 c")
  from commit_allocation_shape [OF com] obtain m M g where T4: "T4 = ?T3\<lparr>pool_lease := m, pool_ledger := M\<rparr>"
    and c': "c' = c\<lparr>cp_persistent_growth := g\<rparr>" by blast
  have cow: "copy_on_write F T s k i = (case cr of
      Inl e \<Rightarrow> (case rollback_allocation T4 c' new of
                 (T5, Inl e') \<Rightarrow> (drop_checkpoint T5 c', Inl e') | (T5, Inr _) \<Rightarrow> (drop_checkpoint T5 c', Inl e))
    | Inr _ \<Rightarrow> (drop_checkpoint (free_page F (replace_page T4 s k new) i) c', Inr new))"
    using cp al old(1) n copy com by (simp add: copy_on_write_def split: sum.split)
  show ?thesis
  proof (cases cr)
    case (Inl e)
    have "rollback_allocation T4 c' new = (T1\<lparr>pool_lease := m, pool_ledger := M\<rparr>, Inr ())"
      by (rule rollback_after [OF inv ids cp al _ _ c', of _ "?n'\<lparr>filled := filled old\<rparr>"])
        (simp_all add: T4 alloc_frame_def put_page_def)
    moreover from checkpoint_ok(2) [OF cp] obtain L where "T1 = T\<lparr>pool_ledger := L\<rparr>" by blast
    ultimately show ?thesis unfolding cow Inl
      by (auto intro!: ensured_refused [OF inv] simp: inv keeps_same_pages)
  next
    case (Inr u)
    have T4': "pt_inv (ext(new := 1)) T4" "get_sequence T4 s = Some ps" "refs_in (sequences T4) new = 0"
      "get_page T4 i = Some old" "get_page T4 new = Some (?n'\<lparr>filled := filled old\<rparr>)"
      using inv3 ps sv new0 old ne by (simp_all add: T4)
    note sw = swap_in_copy [OF T4'(1) ext0 ne T4'(3) T4'(2) ps(2,3) T4'(5,4) _ refl, of F]
    have "page_content T4 s' k' = page_content T s' k'" if "page_content T s' k' \<noteq> None" for s' k'
    proof -
      have "page_content T2 s' k' = page_content T s' k'" by (rule page_content_keeps [OF inv keeps sv(9)])
      moreover have "page_content T4 s' k' = page_content T2 s' k'"
      proof -
        have "ps' ! k' \<noteq> new" if "get_sequence T2 s' = Some ps'" "k' < length ps'" for ps'
          using new0 refs_in_member [of "sequences T2" s' ps' new] that by (auto simp: get_sequence_def count_list_0_iff)
        then show ?thesis by (auto simp: T4 page_content_def split: option.split)
      qed
      ultimately show ?thesis by simp
    qed
    moreover have "meta T4 = meta T" "get_sequence T4 = get_sequence T" "next_page_id T4 = next_page_id T2"
      using seq_view_meta [OF view] sv(9) by (simp_all add: T4)
    ultimately show ?thesis unfolding cow Inr using sw same ps nid
      by (auto simp: ensured_def same_reads_def)
  qed
qed

lemma copy_on_write_ensured:
  assumes inv: "pt_inv ext T" and ids: "next_page_id T < u32_max"
    and ps: "get_sequence T s = Some ps" "k < length ps" "ps ! k = i"
    and cow: "copy_on_write F T s k i = (U, r)"
  shows "ensured ext T s k U r"
proof (cases "allocation_checkpoint T i (Gpu 0)")
  case (Pair T1 cr)
  show ?thesis
  proof (cases cr)
    case (Inl e)
    with Pair cow checkpoint_err [of T i "Gpu 0" T1 e] inv show ?thesis
      by (auto simp: copy_on_write_def intro: ensured_refused)
  next
    case (Inr c)
    note cp = Pair [unfolded Inr]
    from checkpoint_ok(2) [OF cp] obtain L where T1: "T1 = T\<lparr>pool_ledger := L\<rparr>" by blast
    have inv1: "pt_inv ext T1" and ids1: "next_page_id T1 < u32_max" using inv ids by (simp_all add: T1)
    obtain T2 ar where al: "allocate F T1 (Gpu 0) = (T2, ar)" by (cases "allocate F T1 (Gpu 0)")
    note step = allocate_step [OF inv1 ids1 al, unfolded alloc_step_def]
    have keeps: "keeps T T2" and view: "seq_view T2 = seq_view T" and nid: "next_page_id T2 \<le> next_page_id T + 1"
      using step by (simp_all add: T1 keeps_def)
    note inv2 = allocate_inv [OF inv1 ids1 al]
    show ?thesis
    proof (cases ar)
      case None
      with cow cp al have "U = drop_checkpoint T2 c" "\<exists>e. r = Inl e" by (auto simp: copy_on_write_def)
      moreover have "ensured ext T s k (drop_checkpoint T2 c) (Inl e)" for e
        by (rule ensured_refused [OF inv]) (use keeps view nid inv2 None in \<open>auto simp: keeps_def\<close>)
      ultimately show ?thesis by auto
    next
      case (Some new)
      note al' = al [unfolded Some]
      have inv2': "pt_inv (ext(new := 1)) T2" and ext0: "ext new = 0" using inv2 Some by auto
      from cow_copied [OF inv ids ps cp al' inv2' ext0 keeps view nid] cow cp al' show ?thesis
        by (simp add: copy_on_write_def)
    qed
  qed
qed

lemma tier_step_ensured:
  assumes "pt_inv ext T" "pt_inv ext U" "tier_step T U"
  shows "ensured ext T s k U (Inl e)"
    "get_sequence T s = Some ps \<Longrightarrow> k < length ps \<Longrightarrow> ps ! k = i \<Longrightarrow> get_page T i = Some p \<Longrightarrow> ref_count p = 1 \<Longrightarrow>
       ensured ext T s k U (Inr i)"
proof -
  note t = assms(3) [unfolded tier_step_def]
  show e: "ensured ext T s k U (Inl e)" for e
    using t by (intro ensured_refused [OF assms(1) _ _ assms(2)]) auto
  assume ps: "get_sequence T s = Some ps" "k < length ps" "ps ! k = i" and p: "get_page T i = Some p" "ref_count p = 1"
  have "map_option ref_count (get_page U i) = Some 1" using t p by simp
  then obtain q where "get_page U i = Some q" "ref_count q = 1" by auto
  with e [of "RustPanic []"] ps show "ensured ext T s k U (Inr i)"
    by (auto simp: ensured_def list_update_same_conv [THEN iffD2])
qed

lemma push_page_view:
  assumes "get_sequence T s = Some ps"
  shows "get_sequence (push_page T s i) = (get_sequence T)(s \<mapsto> ps @ [i])" "meta (push_page T s i) = meta T"
    "next_page_id (push_page T s i) = next_page_id T" "get_page (push_page T s i) = get_page T"
  using assms by (simp_all add: push_page_def get_sequence_def meta_def fun_eq_iff)

lemma ensure_page_for_write_ensured:
  assumes inv: "pt_inv ext T" and ids: "next_page_id T < u32_max"
    and e: "ensure_page_for_write F T s k = (U, r)"
  shows "ensured ext T s k U r"
proof (cases "get_sequence T s")
  case None
  with e have "U = T" "\<exists>x. r = Inl x" by (auto simp: ensure_page_for_write_def find_sequence_def)
  with inv show ?thesis by (auto intro: ensured_refused)
next
  case (Some ps)
  consider (existing) "k < length ps" | (gap) "k > length ps" | (fresh) "k = length ps" by linarith
  then show ?thesis
  proof cases
    case existing
    from sequence_page_live [OF inv Some nth_mem [OF existing]] obtain p
      where p: "get_page T (ps ! k) = Some p" "ref_count p > 0" by blast
    show ?thesis
    proof (cases "ref_count p > 1")
      case True
      with e Some existing p have "copy_on_write F T s k (ps ! k) = (U, r)"
        by (simp add: ensure_page_for_write_def find_sequence_def find_page_def Let_def)
      then show ?thesis by (rule copy_on_write_ensured [OF inv ids Some existing refl])
    next
      case False
      with p have one: "ref_count p = 1" by simp
      obtain T1 r1 where pr: "promote_to_hot T (ps ! k) = (T1, r1)" by (cases "promote_to_hot T (ps ! k)")
      have inv1: "pt_inv ext T1" by (rule promote_to_hot_inv [OF pr inv]) (use p in auto)
      note t = tier_step_ensured [OF inv inv1 promote_to_hot_tier [OF pr]]
      from e Some existing p False pr have "U = T1" "r = (case r1 of Inl x \<Rightarrow> Inl x | Inr _ \<Rightarrow> Inr (ps ! k))"
        by (auto simp: ensure_page_for_write_def find_sequence_def find_page_def Let_def st_bind_def split: sum.splits)
      with t(1) t(2) [OF Some existing refl p(1) one] show ?thesis by (auto split: sum.split)
    qed
  next
    case gap
    with e Some have "U = T" "\<exists>x. r = Inl x" by (auto simp: ensure_page_for_write_def find_sequence_def)
    with inv show ?thesis by (auto intro: ensured_refused)
  next
    case fresh
    obtain T1 ar where al: "allocate F T (Gpu 0) = (T1, ar)" by (cases "allocate F T (Gpu 0)")
    note step = allocate_step [OF inv ids al, unfolded alloc_step_def] and inv1 = allocate_inv [OF inv ids al]
    show ?thesis
    proof (cases ar)
      case None
      with e Some fresh al have "U = T1" "\<exists>x. r = Inl x" by (auto simp: ensure_page_for_write_def find_sequence_def)
      with step inv1 None inv show ?thesis by (auto intro!: ensured_refused)
    next
      case (Some i)
      note sv = seq_viewD [of T1 T]
      have T1: "get_sequence T1 = get_sequence T" "meta T1 = meta T" "sequences T1 = sequences T"
        using step by (auto dest: seq_viewD seq_view_meta)
      with e fresh al Some \<open>get_sequence T s = Some ps\<close> have U: "U = push_page T1 s i" "r = Inr i"
        by (auto simp: ensure_page_for_write_def find_sequence_def)
      have inv1': "pt_inv (ext(i := 1)) T1" and ext0: "ext i = 0" using inv1 Some by auto
      have s1: "get_sequence T1 s = Some ps" using T1 \<open>get_sequence T s = Some ps\<close> by simp
      have "pt_inv ((ext(i := 1))(i := (ext(i := 1)) i - 1)) U"
        unfolding U by (rule push_page_inv [OF inv1' s1]) simp
      moreover have "(ext(i := 1))(i := (ext(i := 1)) i - 1) = ext" using ext0 by auto
      ultimately have invU: "pt_inv ext U" by simp
      have "page_content U s' k' = page_content T s' k'" if "page_content T s' k' \<noteq> None" for s' k'
      proof -
        have "page_content T1 s' k' = page_content T s' k'"
          by (rule page_content_keeps [OF inv _ T1(1)]) (use step in blast)
        with that s1 show ?thesis
          by (auto simp: U page_content_def push_page_view [OF s1] nth_append split: option.splits if_splits)
      qed
      moreover have "\<exists>p. get_page U i = Some p \<and> ref_count p = 1"
      proof -
        have "get_page T1 i \<noteq> None" by (rule pt_invD(4) [OF inv1']) simp
        then obtain p where p: "get_page T1 i = Some p" by blast
        from pt_invD(3) [OF inv1' p] allocated_was_free [OF inv ids al [unfolded Some]] T1
        show ?thesis using p by (simp add: page_ok_def U push_page_view [OF s1])
      qed
      ultimately show ?thesis
        using U T1 step invU s1 fresh by (auto simp: ensured_def same_reads_def push_page_view [OF s1])
    qed
  qed
qed

end
