(* ===== verification/CacheIsolation.thy ===== *)
theory CacheIsolation
  imports PagedCacheInv
begin

text \<open>
  Token-level correctness of the cache: a write of one token is read back as its own
  quantisation and changes no other token of any sequence, shared pages included;
  tiering, forks, rewinds and windows change no retained token.
\<close>

section \<open>Writing a token into a page\<close>

text \<open>
  \<open>written P gs q F t row p0 D p\<close>: in \<open>p\<close>, the rows in \<open>D\<close> of token slot \<open>t\<close> hold \<open>row\<close>, everything
  else is as in \<open>p0\<close>.
\<close>

definition written ::
  "nat \<Rightarrow> LayerTensorConfig list \<Rightarrow> KvQuantConfig \<Rightarrow> 'f f32_ops \<Rightarrow> nat \<Rightarrow> (nat \<Rightarrow> KvKind \<Rightarrow> nat \<Rightarrow> 'f list) \<Rightarrow>
     'f Page \<Rightarrow> (nat \<times> KvKind \<times> nat) set \<Rightarrow> 'f Page \<Rightarrow> bool" where
  "written P gs q F t row p0 D p \<longleftrightarrow>
     page_shape (component_list P gs q) p \<and>
     page_id p = page_id p0 \<and> ref_count p = ref_count p0 \<and> filled p = filled p0 \<and>
     last_access p = last_access p0 \<and> residency p = residency p0 \<and>
     (\<forall>l kd h t' x. l < length gs \<and> h < num_kv_heads (gs ! l) \<and> t' < P \<and> x < head_dim (gs ! l) \<longrightarrow>
        value_at_slot F p P (head_dim (gs ! l)) (component_index l kd) h t' x =
          (if t' = t \<and> (l, kd, h) \<in> D then Inr (stored_value F (quant_dtype q l kd) (row l kd h) x)
           else value_at_slot F p0 P (head_dim (gs ! l)) (component_index l kd) h t' x))"

lemma written_step:
  assumes w: "written P gs q F t row p0 D p"
    and slot: "l < length gs" "h < num_kv_heads (gs ! l)" "t < P" and len: "length (row l kd h) = head_dim (gs ! l)"
  shows "\<exists>p'. write_head_token F p P (head_dim (gs ! l)) (component_index l kd) h t (row l kd h) = Inr p' \<and>
      written P gs q F t row p0 (insert (l, kd, h) D) p'"
proof -
  from w have shape: "page_shape (component_list P gs q) p" by (simp add: written_def)
  from write_head_token_effect [OF shape slot len, of F kd]
  obtain p' where p': "write_head_token F p P (head_dim (gs ! l)) (component_index l kd) h t (row l kd h) = Inr p'"
      "page_shape (component_list P gs q) p'"
    and same: "\<forall>x < head_dim (gs ! l). value_at_slot F p' P (head_dim (gs ! l)) (component_index l kd) h t x
        = Inr (stored_value F (quant_dtype q l kd) (row l kd h) x)"
    and frame: "\<forall>l' < length gs. \<forall>kd'. \<forall>h' < num_kv_heads (gs ! l'). \<forall>t' < P. \<forall>x' < head_dim (gs ! l').
      (l', kd', h', t') \<noteq> (l, kd, h, t) \<longrightarrow>
      value_at_slot F p' P (head_dim (gs ! l')) (component_index l' kd') h' t' x'
        = value_at_slot F p P (head_dim (gs ! l')) (component_index l' kd') h' t' x'"
    by (elim exE conjE) (rule that)
  have "value_at_slot F p' P (head_dim (gs ! l')) (component_index l' kd') h' t' x =
      (if t' = t \<and> (l', kd', h') \<in> insert (l, kd, h) D then Inr (stored_value F (quant_dtype q l' kd') (row l' kd' h') x)
       else value_at_slot F p0 P (head_dim (gs ! l')) (component_index l' kd') h' t' x)"
    if "l' < length gs" "h' < num_kv_heads (gs ! l')" "t' < P" "x < head_dim (gs ! l')" for l' kd' h' t' x
  proof (cases "(l', kd', h', t') = (l, kd, h, t)")
    case True
    then show ?thesis using same that by auto
  next
    case False
    with frame that have "value_at_slot F p' P (head_dim (gs ! l')) (component_index l' kd') h' t' x
        = value_at_slot F p P (head_dim (gs ! l')) (component_index l' kd') h' t' x" by simp
    with w that False show ?thesis by (auto simp: written_def)
  qed
  with p' w write_head_token_fields [OF p'(1)] show ?thesis by (auto simp: written_def)
qed

definition token_row :: "LayerTensorConfig list \<Rightarrow> 'f LayerKv list \<Rightarrow> nat \<Rightarrow> KvKind \<Rightarrow> nat \<Rightarrow> 'f list" where
  "token_row gs ls l kd h =
     take (head_dim (gs ! l)) (drop (h * head_dim (gs ! l)) ((if kd = Key then lkv_key else lkv_value) (ls ! l)))"

lemma token_row_length:
  assumes "validate_layers gs ls = Inr u" "l < length gs" "h < num_kv_heads (gs ! l)"
  shows "length (token_row gs ls l kd h) = head_dim (gs ! l)"
proof -
  let ?D = "head_dim (gs ! l)"
  from assms have "length (lkv_key (ls ! l)) = num_kv_heads (gs ! l) * ?D" "length (lkv_value (ls ! l)) = num_kv_heads (gs ! l) * ?D"
    by (auto simp: list_all2_conv_all_nth f32_len_per_token_def split: if_splits)
  moreover have "h * ?D + ?D \<le> num_kv_heads (gs ! l) * ?D"
    using mult_le_mono1 [of "Suc h" "num_kv_heads (gs ! l)" ?D] assms(3) by simp
  ultimately show ?thesis by (auto simp: token_row_def)
qed

lemma write_heads_written:
  assumes "written P gs q F t (token_row gs ls) p0 D p" "validate_layers gs ls = Inr u"
    and "l < length gs" "t < P" "set hs \<subseteq> {0..<num_kv_heads (gs ! l)}"
  shows "\<exists>p'. write_heads F P (gs ! l) l t (ls ! l) hs p = Inr p' \<and>
      written P gs q F t (token_row gs ls) p0 (D \<union> {(l, kd, h) | kd h. h \<in> set hs}) p'"
  using assms(1,5)
proof (induction hs arbitrary: p D)
  case Nil
  then show ?case by simp
next
  case (Cons h hs)
  have h: "h < num_kv_heads (gs ! l)" using Cons.prems by simp
  note len = token_row_length [OF assms(2,3) h]
  from written_step [OF Cons.prems(1) assms(3) h assms(4) len, of Key] obtain p1 where
    p1: "write_head_token F p P (head_dim (gs ! l)) (l * 2) h t (token_row gs ls l Key h) = Inr p1"
      "written P gs q F t (token_row gs ls) p0 (insert (l, Key, h) D) p1" by (auto simp: component_index_def)
  from written_step [OF p1(2) assms(3) h assms(4) len, of Value] obtain p2 where
    p2: "write_head_token F p1 P (head_dim (gs ! l)) (l * 2 + 1) h t (token_row gs ls l Value h) = Inr p2"
      "written P gs q F t (token_row gs ls) p0 (insert (l, Value, h) (insert (l, Key, h) D)) p2"
    by (auto simp: component_index_def)
  from Cons.IH [OF p2(2)] Cons.prems obtain p' where
    p': "write_heads F P (gs ! l) l t (ls ! l) hs p2 = Inr p'"
      "written P gs q F t (token_row gs ls) p0 (insert (l, Value, h) (insert (l, Key, h) D) \<union> {(l, kd, h) | kd h. h \<in> set hs}) p'"
    by auto
  moreover have "insert (l, Value, h) (insert (l, Key, h) D) \<union> {(l, kd, h') | kd h'. h' \<in> set hs}
      = D \<union> {(l, kd, h') | kd h'. h' \<in> set (h # hs)}"
    using KvKind.exhaust by auto
  moreover have "token_row gs ls l Key h = take (head_dim (gs ! l)) (drop (h * head_dim (gs ! l)) (lkv_key (ls ! l)))"
    "token_row gs ls l Value h = take (head_dim (gs ! l)) (drop (h * head_dim (gs ! l)) (lkv_value (ls ! l)))"
    by (simp_all add: token_row_def)
  ultimately show ?case using p1(1) p2(1) by simp
qed

lemma write_layers_written:
  assumes "written P gs q F t (token_row gs ls) p0 D p" "validate_layers gs ls = Inr u" "t < P"
    and "\<forall>(i, l) \<in> set es. i < length gs \<and> l = ls ! i"
  shows "\<exists>p'. write_layers F P gs t es p = Inr p' \<and>
      written P gs q F t (token_row gs ls) p0
        (D \<union> {(i, kd, h) | i kd h. i \<in> fst ` set es \<and> h < num_kv_heads (gs ! i)}) p'"
  using assms(1,4)
proof (induction es arbitrary: p D)
  case Nil
  then show ?case by simp
next
  case (Cons e es)
  obtain i l where e: "e = (i, l)" by (cases e)
  with Cons.prems have i: "i < length gs" "l = ls ! i" by auto
  from write_heads_written [OF Cons.prems(1) assms(2) i(1) assms(3), of "[0..<num_kv_heads (gs ! i)]"] obtain p1
    where p1: "write_heads F P (gs ! i) i t (ls ! i) [0..<num_kv_heads (gs ! i)] p = Inr p1"
      "written P gs q F t (token_row gs ls) p0 (D \<union> {(i, kd, h) | kd h. h < num_kv_heads (gs ! i)}) p1"
    by auto
  from Cons.IH [OF p1(2)] Cons.prems obtain p' where p': "write_layers F P gs t es p1 = Inr p'"
    "written P gs q F t (token_row gs ls) p0 ((D \<union> {(i, kd, h) | kd h. h < num_kv_heads (gs ! i)}) \<union>
       {(i, kd, h) | i kd h. i \<in> fst ` set es \<and> h < num_kv_heads (gs ! i)}) p'"
    by auto
  moreover have "(D \<union> {(i, kd, h) | kd h. h < num_kv_heads (gs ! i)}) \<union>
       {(i, kd, h) | i kd h. i \<in> fst ` set es \<and> h < num_kv_heads (gs ! i)}
     = D \<union> {(i', kd, h) | i' kd h. i' \<in> fst ` set (e # es) \<and> h < num_kv_heads (gs ! i')}"
    unfolding e by (simp add: set_eq_iff) blast
  ultimately show ?case using e i p1(1) by simp
qed

lemma write_token_page:
  assumes "page_shape (component_list P gs q) p" "validate_layers gs ls = Inr u" "t < P"
  shows "\<exists>p'. write_layers F P gs t (enumerate 0 ls) p = Inr p' \<and>
      written P gs q F t (token_row gs ls) p {(i, kd, h). i < length gs \<and> h < num_kv_heads (gs ! i)} p'"
proof -
  have len: "length ls = length gs" using assms(2) by (auto split: if_splits)
  have start: "written P gs q F t (token_row gs ls) p {} p" using assms(1) by (simp add: written_def)
  have es: "\<forall>(i, l) \<in> set (enumerate 0 ls). i < length gs \<and> l = ls ! i"
    using len by (auto simp: in_set_enumerate_eq)
  have "fst ` set (enumerate 0 ls) = {0..<length gs}"
    using len by (simp add: enumerate_eq_zip flip: set_map)
  then have all: "{} \<union> {(i, kd, h) | i kd h. i \<in> fst ` set (enumerate 0 ls) \<and> h < num_kv_heads (gs ! i)}
      = {(i, kd, h). i < length gs \<and> h < num_kv_heads (gs ! i)}" by auto
  from write_layers_written [OF start assms(2,3) es] show ?thesis unfolding all .
qed

section \<open>Tokens of a sequence\<close>

text \<open>
  \<open>cache_wf\<close>: the four per-sequence tables have the same keys, the retained tokens of every
  sequence fit its pages, and its pinned sink prefix and what the window dropped are whole pages.
\<close>

definition seq_ok :: "'f PageTable \<Rightarrow> nat \<Rightarrow> bool" where
  "seq_ok T s \<longleftrightarrow>
     (case (get_sequence T s, sequence_lengths T s, sequence_starts T s, sequence_sink_lens T s) of
        (None, None, None, None) \<Rightarrow> True
      | (Some ps, Some n, Some st, Some k) \<Rightarrow>
          st \<le> n \<and> k + (n - st) \<le> length ps * page_size T \<and> k \<le> st \<and> page_size T dvd k \<and> page_size T dvd st
      | _ \<Rightarrow> False)"

definition cache_wf :: "'f PageTable \<Rightarrow> bool" where
  "cache_wf T \<longleftrightarrow> page_size T > 0 \<and> (\<forall>s. seq_ok T s)"

lemma seq_ok_cong:
  assumes "get_sequence V s = get_sequence T s" "sequence_lengths V s = sequence_lengths T s"
    "sequence_starts V s = sequence_starts T s" "sequence_sink_lens V s = sequence_sink_lens T s"
    "page_size V = page_size T"
  shows "seq_ok V s = seq_ok T s"
  unfolding seq_ok_def assms ..

lemma seq_ok_cases:
  assumes "seq_ok T s"
  obtains (absent) "get_sequence T s = None" "sequence_lengths T s = None" "sequence_starts T s = None"
      "sequence_sink_lens T s = None"
  | (present) ps n st k where "get_sequence T s = Some ps" "sequence_lengths T s = Some n"
      "sequence_starts T s = Some st" "sequence_sink_lens T s = Some k" "st \<le> n"
      "k + (n - st) \<le> length ps * page_size T" "k \<le> st" "page_size T dvd k" "page_size T dvd st"
  using assms unfolding seq_ok_def by (auto split: option.splits)

text \<open>The buffer index of a retained token, and its value.\<close>

definition bidx :: "nat \<Rightarrow> nat \<Rightarrow> nat \<Rightarrow> nat" where
  "bidx k st pos = (if pos < k then pos else k + (pos - st))"

definition slot_of :: "'f PageTable \<Rightarrow> nat \<Rightarrow> nat \<Rightarrow> nat option" where
  "slot_of T s pos =
     (case (sequence_lengths T s, sequence_starts T s, sequence_sink_lens T s) of
        (Some n, Some st, Some k) \<Rightarrow> if pos < n \<and> (pos < k \<or> st \<le> pos) then Some (bidx k st pos) else None
      | _ \<Rightarrow> None)"

definition token_value ::
  "'f f32_ops \<Rightarrow> 'f PageTable \<Rightarrow> nat \<Rightarrow> nat \<Rightarrow> KvKind \<Rightarrow> nat \<Rightarrow> nat \<Rightarrow> nat \<Rightarrow> 'f option" where
  "token_value F T s l kd h pos x =
     (case (slot_of T s pos, get_sequence T s) of
        (Some b, Some ps) \<Rightarrow>
          if b div page_size T < length ps
          then (case get_page T (ps ! (b div page_size T)) of
                  None \<Rightarrow> None
                | Some p \<Rightarrow>
                    (case value_at_slot F p (page_size T) (head_dim (layer_configs T ! l)) (component_index l kd)
                            h (b mod page_size T) x of
                       Inl _ \<Rightarrow> None | Inr v \<Rightarrow> Some v))
          else None
      | _ \<Rightarrow> None)"

lemma bidx_inj:
  "bidx k st pos = bidx k st pos' \<Longrightarrow> pos < k \<or> st \<le> pos \<Longrightarrow> pos' < k \<or> st \<le> pos' \<Longrightarrow> pos = pos'"
  by (auto simp: bidx_def split: if_splits)

lemma bidx_bound: "pos < n \<Longrightarrow> pos < k \<or> st \<le> pos \<Longrightarrow> st \<le> n \<Longrightarrow> k + (n - st) \<le> m \<Longrightarrow> bidx k st pos < m"
  by (auto simp: bidx_def)

lemma slot_page:
  assumes wf: "cache_wf T" and slot: "slot_of T s pos = Some b"
  shows "\<exists>ps. get_sequence T s = Some ps \<and> b div page_size T < length ps"
proof -
  have P: "page_size T > 0" and "seq_ok T s" using wf by (simp_all add: cache_wf_def)
  from this(2) show ?thesis
  proof (cases rule: seq_ok_cases)
    case absent
    with slot show ?thesis by (simp add: slot_of_def)
  next
    case (present ps n st k)
    with slot have pos: "pos < n" "pos < k \<or> st \<le> pos" and "b = bidx k st pos" by (auto simp: slot_of_def split: if_splits)
    then have "b < length ps * page_size T" using bidx_bound [OF pos present(5,6)] by simp
    with present P show ?thesis by (simp add: less_mult_imp_div_less)
  qed
qed

lemma slot_content:
  assumes inv: "pt_inv ext T" and wf: "cache_wf T" and slot: "slot_of T s pos = Some b"
  shows "page_content T s (b div page_size T) \<noteq> None"
proof -
  from slot_page [OF wf slot] obtain ps where ps: "get_sequence T s = Some ps" "b div page_size T < length ps" by blast
  from sequence_page_live [OF inv ps(1) nth_mem [OF ps(2)]] ps show ?thesis by (auto simp: page_content_def)
qed

lemma token_value_cong:
  assumes "slot_of U s pos = slot_of T s pos" "page_size U = page_size T" "layer_configs U = layer_configs T"
    and "\<And>b. slot_of T s pos = Some b \<Longrightarrow> page_content U s (b div page_size T) = page_content T s (b div page_size T)"
  shows "token_value F U s l kd h pos x = token_value F T s l kd h pos x"
proof (cases "slot_of T s pos")
  case (Some b)
  let ?k = "b div page_size T"
  have eq: "page_content U s ?k = page_content T s ?k" by (rule assms(4) [OF Some])
  show ?thesis
  proof (cases "page_content T s ?k")
    case None
    with eq show ?thesis
      by (auto simp: token_value_def page_content_def assms(1-3) Some split: option.splits if_splits)
  next
    case c: (Some c)
    obtain ps p where T: "get_sequence T s = Some ps" "?k < length ps" "get_page T (ps ! ?k) = Some p" "content p = c"
      using c by (auto simp: page_content_def split: option.splits if_splits)
    obtain ps' p' where U: "get_sequence U s = Some ps'" "?k < length ps'" "get_page U (ps' ! ?k) = Some p'" "content p' = c"
      using eq c by (auto simp: page_content_def split: option.splits if_splits)
    have "value_at_slot F p' = value_at_slot F p" using T U by (intro value_at_slot_content) simp
    with T U show ?thesis by (simp add: token_value_def assms(1-3) Some)
  qed
qed (simp add: token_value_def assms)

lemma token_value_same_reads:
  assumes inv: "pt_inv ext T" and wf: "cache_wf T" and "same_reads T U"
    and "page_size U = page_size T" "layer_configs U = layer_configs T" "slot_of U s pos = slot_of T s pos"
  shows "token_value F U s l kd h pos x = token_value F T s l kd h pos x"
  using assms(3-) slot_content [OF inv wf] by (intro token_value_cong) (auto simp: same_reads_def)

lemma slot_of_meta: "meta U = meta T \<Longrightarrow> slot_of U = slot_of T"
  by (simp add: slot_of_def meta_def fun_eq_iff)

text \<open>A page counted once has a single place.\<close>

lemma refs_two:
  assumes "distinct (map fst S)" "map_of S s = Some ps" "map_of S s' = Some ps'" "s \<noteq> s'"
  shows "count_list ps i + count_list ps' i \<le> refs_in S i"
proof -
  have "map_of (AList.delete s S) s' = Some ps'" using assms by (simp add: AList.delete_conv')
  from refs_in_member [OF this, of i] refs_in_delete [OF assms(1,2), of i] show ?thesis by simp
qed

lemma count_list_two: "k < length ps \<Longrightarrow> k' < length ps \<Longrightarrow> k \<noteq> k' \<Longrightarrow> ps ! k = i \<Longrightarrow> ps ! k' = i \<Longrightarrow> 2 \<le> count_list ps i"
proof (induction ps arbitrary: k k')
  case (Cons a ps)
  have mem: "0 < count_list ps i" if "j < length ps" "ps ! j = i" for j
    using that by (metis count_list_0_iff gr0I nth_mem)
  from Cons show ?case
    by (cases k; cases k') (use mem in \<open>auto simp: Suc_le_eq\<close>)
qed simp

lemma exclusive_place:
  assumes inv: "pt_inv ext T" and p: "get_page T i = Some p" "ref_count p = 1"
    and "get_sequence T s = Some ps" "k < length ps" "ps ! k = i"
    and "get_sequence T s' = Some ps'" "k' < length ps'" "ps' ! k' = i"
  shows "s' = s \<and> k' = k"
proof (rule ccontr)
  assume ne: "\<not> (s' = s \<and> k' = k)"
  have one: "refs_in (sequences T) i \<le> 1" using pt_invD(3) [OF inv p(1)] p(2) by (simp add: page_ok_def)
  have pos: "0 < count_list ps i" "0 < count_list ps' i"
    using assms(5-) by (metis count_list_0_iff gr0I nth_mem)+
  show False
  proof (cases "s' = s")
    case True
    with ne assms have "2 \<le> count_list ps i" by (intro count_list_two [of k ps k']) auto
    with refs_in_member [of "sequences T" s ps i] assms(4) one show False by (simp add: get_sequence_def)
  next
    case False
    with refs_two [OF pt_invD(2) [OF inv], of s ps s' ps' i] assms(4,7) pos one show False
      by (simp add: get_sequence_def)
  qed
qed

section \<open>Steps that change no token\<close>

text \<open>
  \<open>quiet n ext T U\<close>: ownership, geometry and every stored token are kept; sequences may have
  gained pages and at most \<open>n\<close> page ids were used.
\<close>

definition quiet :: "nat \<Rightarrow> (nat \<Rightarrow> nat) \<Rightarrow> 'f PageTable \<Rightarrow> 'f PageTable \<Rightarrow> bool" where
  "quiet n ext T U \<longleftrightarrow>
     pt_inv ext U \<and> meta U = meta T \<and> same_reads T U \<and> next_page_id U \<le> next_page_id T + n
     \<and> (\<forall>s. get_sequence T s = None \<longrightarrow> get_sequence U s = None)
     \<and> (\<forall>s ps. get_sequence T s = Some ps \<longrightarrow> (\<exists>ps'. get_sequence U s = Some ps' \<and> length ps \<le> length ps'))"

lemma quiet_refl: "pt_inv ext T \<Longrightarrow> quiet 0 ext T T" by (simp add: quiet_def)

lemma quiet_trans: "quiet n ext T U \<Longrightarrow> quiet m ext U V \<Longrightarrow> quiet (n + m) ext T V"
  unfolding quiet_def by (auto intro: same_reads_trans) (meson le_trans)+

lemma quiet_mono: "quiet n ext T U \<Longrightarrow> n \<le> m \<Longrightarrow> quiet m ext T U"
  by (auto simp: quiet_def)

lemma ensured_quiet:
  assumes "ensured ext T s k U r"
  shows "quiet 1 ext T U"
proof -
  note e = assms [unfolded ensured_def]
  have "get_sequence T s' = None \<longrightarrow> get_sequence U s' = None" for s'
    using e by (cases "s' = s") (auto split: sum.splits)
  moreover have "\<exists>ps'. get_sequence U s' = Some ps' \<and> length ps \<le> length ps'" if "get_sequence T s' = Some ps" for s' ps
    using e that by (cases "s' = s") (auto split: sum.splits)
  ultimately show ?thesis using e by (simp add: quiet_def)
qed

lemma tier_quiet:
  assumes "pt_inv ext T" "pt_inv ext U" "tier_step T U"
  shows "quiet 0 ext T U"
proof -
  have v: "seq_view U = seq_view T" and k: "keeps T U" using assms(3) by (simp_all add: tier_step_def)
  from page_content_keeps [OF assms(1) k seq_viewD(9) [OF v]] seq_viewD(9) [OF v] seq_view_meta [OF v] assms
  show ?thesis by (auto simp: quiet_def same_reads_def tier_step_def)
qed

lemma quiet_wf:
  assumes q: "quiet n ext T U" and wf: "cache_wf T"
  shows "cache_wf U"
proof -
  note m = metaD [of U T] q [unfolded quiet_def]
  have "seq_ok U s" for s
  proof -
    from wf have "seq_ok T s" by (simp add: cache_wf_def)
    then show ?thesis
    proof (cases rule: seq_ok_cases)
      case absent
      with m show ?thesis by (simp add: seq_ok_def)
    next
      case (present ps l st k)
      with m(8) obtain ps' where ps': "get_sequence U s = Some ps'" "length ps \<le> length ps'" by blast
      have "length ps * page_size T \<le> length ps' * page_size T" using ps'(2) by simp
      with present have "k + (l - st) \<le> length ps' * page_size T" by linarith
      with present ps' m show ?thesis by (simp add: seq_ok_def)
    qed
  qed
  with wf m show ?thesis by (simp add: cache_wf_def)
qed

lemma quiet_token_value:
  assumes inv: "pt_inv ext T" and wf: "cache_wf T" and q: "quiet n ext T U"
  shows "token_value F U s l kd h pos x = token_value F T s l kd h pos x"
  using q slot_of_meta [of U T] metaD(4,5) [of U T]
  by (intro token_value_same_reads [OF inv wf]) (auto simp: quiet_def)

lemma promote_quiet:
  assumes "pt_inv ext T" "promote_to_hot T i = (U, r)" "\<And>p. get_page T i = Some p \<Longrightarrow> ref_count p > 0"
  shows "quiet 0 ext T U"
  by (rule tier_quiet [OF assms(1) promote_to_hot_inv [OF assms(2,1,3)] promote_to_hot_tier [OF assms(2)]])

text \<open>
  \<open>cache_step n ext T U\<close>: what every operation keeps, whatever it returns: ownership, geometry, the
  tensor configuration, and that sequences appear only by creation and forks; at most \<open>n\<close> new
  page ids are used.
\<close>

definition geometry ::
  "'f PageTable \<Rightarrow> nat \<times> LayerTensorConfig list \<times> KvQuantConfig option \<times> PageTensorConfig option" where
  "geometry T = (page_size T, layer_configs T, quant_config T, tensor_config T)"

definition cache_step :: "nat \<Rightarrow> (nat \<Rightarrow> nat) \<Rightarrow> 'f PageTable \<Rightarrow> 'f PageTable \<Rightarrow> bool" where
  "cache_step n ext T U \<longleftrightarrow>
     pt_inv ext U \<and> cache_wf U \<and> geometry U = geometry T \<and> next_page_id U \<le> next_page_id T + n \<and>
     (\<forall>s. get_sequence T s = None \<longrightarrow> get_sequence U s = None)"

lemma quiet_step: "quiet n ext T U \<Longrightarrow> cache_wf T \<Longrightarrow> cache_step n ext T U"
  using quiet_wf by (auto simp: cache_step_def quiet_def geometry_def dest: metaD)

lemma cache_step_refl: "pt_inv ext T \<Longrightarrow> cache_wf T \<Longrightarrow> cache_step n ext T T"
  by (simp add: cache_step_def)

lemma cache_step_trans: "cache_step n ext T U \<Longrightarrow> cache_step m ext U V \<Longrightarrow> cache_step (n + m) ext T V"
  by (auto simp: cache_step_def)

text \<open>The steps before the page is written.\<close>

lemma prepare_write:
  assumes inv: "pt_inv ext T" and ids: "next_page_id T < u32_max"
    and e: "ensure_page_for_write F T s k = (T1, Inr i)" and p: "promote_to_hot T1 i = (T2, r)"
  shows "quiet 1 ext T T2"
    "\<exists>ps p. get_sequence T s = Some ps \<and> k \<le> length ps \<and>
       get_sequence T2 s = Some (if k < length ps then ps[k := i] else ps @ [i]) \<and> get_page T2 i = Some p \<and> ref_count p = 1"
    "\<And>s'. s' \<noteq> s \<Longrightarrow> get_sequence T2 s' = get_sequence T s'"
proof -
  note en = ensure_page_for_write_ensured [OF inv ids e]
  have inv1: "pt_inv ext T1" using en by (simp add: ensured_def)
  from en obtain ps q where ps: "get_sequence T s = Some ps" "k \<le> length ps"
    "get_sequence T1 s = Some (if k < length ps then ps[k := i] else ps @ [i])" and q: "get_page T1 i = Some q" "ref_count q = 1"
    by (auto simp: ensured_def)
  have q2: "quiet 0 ext T1 T2" by (rule promote_quiet [OF inv1 p]) (use q in auto)
  from quiet_trans [OF ensured_quiet [OF en] q2] show "quiet 1 ext T T2" by simp
  note t = promote_to_hot_tier [OF p, unfolded tier_step_def]
  have seqs: "get_sequence T2 = get_sequence T1" using t by (auto dest: seq_viewD)
  have "map_option ref_count (get_page T2 i) = Some 1" using t q by simp
  then show "\<exists>ps p. get_sequence T s = Some ps \<and> k \<le> length ps \<and>
       get_sequence T2 s = Some (if k < length ps then ps[k := i] else ps @ [i]) \<and> get_page T2 i = Some p \<and> ref_count p = 1"
    using ps seqs by auto
  show "\<And>s'. s' \<noteq> s \<Longrightarrow> get_sequence T2 s' = get_sequence T s'" using en seqs by (simp add: ensured_def)
qed

section \<open>A write and what it leaves alone\<close>

lemma buffer_index_ok:
  assumes "sequence_sink_lens T s = Some k" "sequence_starts T s = Some st" "\<not> (k \<le> pos \<and> pos < st)"
  shows "buffer_index T s pos = Inr (bidx k st pos)"
  using assms by (auto simp: buffer_index_def sink_len_def retained_start_def sub_or_panic_def bidx_def)

lemma write_token_failed:
  assumes inv: "pt_inv ext T" and ids: "next_page_id T < u32_max"
    and w: "write_token_kv F T s pos ls = (U, Inl e)"
  shows "quiet 1 ext T U"
proof -
  have stop: "quiet 1 ext T T" using quiet_mono [OF quiet_refl [OF inv]] by simp
  have ens: "quiet 1 ext T T1" if "ensure_page_for_write F T s k = (T1, r)" for k T1 r
    by (rule ensured_quiet [OF ensure_page_for_write_ensured [OF inv ids that]])
  show ?thesis
    using w stop ens prepare_write(1) [OF inv ids]
    by (auto simp: write_token_kv_def Let_def elim!: st_lift_cases st_bind_cases split: if_splits)
qed

lemma write_token_ok:
  assumes w: "write_token_kv F T s pos ls = (U, Inr u)" and P: "page_size T > 0"
  obtains n st k T1 i T2 p p' where
    "sequence_lengths T s = Some n" "sequence_starts T s = Some st" "sequence_sink_lens T s = Some k"
    "pos < k \<or> st \<le> pos" "pos \<le> n" "validate_layers (layer_configs T) ls = Inr ()"
    "ensure_page_for_write F T s (bidx k st pos div page_size T) = (T1, Inr i)"
    "promote_to_hot T1 i = (T2, Inr ())" "get_page T2 i = Some p"
    "write_layers F (page_size T) (layer_configs T) (bidx k st pos mod page_size T) (enumerate 0 ls) p = Inr p'"
    "U = (let T3 = touch (put_page T2 i (p'\<lparr>filled := max (filled p') (bidx k st pos mod page_size T + 1)\<rparr>)) i
          in if pos = n then set_sequence_len T3 s (n + 1) else T3)"
proof -
  from w obtain n st k where nsk: "sequence_lengths T s = Some n" "sequence_starts T s = Some st"
    "sequence_sink_lens T s = Some k" "\<not> (k \<le> pos \<and> pos < st)" "pos \<le> n"
    by (auto simp: write_token_kv_def seq_len_def retained_start_def sink_len_def split: if_splits)
  note bi = buffer_index_ok [OF nsk(3,2,4)]
  from w nsk bi P that [OF nsk(1-3) _ nsk(5)] show thesis
    by (auto simp: write_token_kv_def seq_len_def retained_start_def sink_len_def div_or_panic_def find_page_def Let_def
        split: if_splits simp del: validate_layers.simps)
qed

lemma set_sequence_len_fields:
  "pt_inv ext (set_sequence_len T s n) = pt_inv ext T" "get_page (set_sequence_len T s n) = get_page T"
  "get_sequence (set_sequence_len T s n) = get_sequence T" "page_size (set_sequence_len T s n) = page_size T"
  "layer_configs (set_sequence_len T s n) = layer_configs T" "next_page_id (set_sequence_len T s n) = next_page_id T"
  "sequence_starts (set_sequence_len T s n) = sequence_starts T"
  "sequence_sink_lens (set_sequence_len T s n) = sequence_sink_lens T"
  "page_content (set_sequence_len T s n) = page_content T"
  "sequence_lengths T s = Some m \<Longrightarrow> sequence_lengths (set_sequence_len T s n) = (sequence_lengths T)(s \<mapsto> n)"
  by (auto simp: set_sequence_len_def get_sequence_def page_content_def fun_eq_iff split: option.split)

lemma page_written:
  assumes inv: "pt_inv ext T" and p: "get_page T i = Some p" "ref_count p = 1"
    and seq: "get_sequence T s = Some ps" "k < length ps" "ps ! k = i"
    and shape: "shape_of T = component_list P gs q" and wr: "written P gs q F t row p D p'"
    and U: "U = touch (put_page T i (p'\<lparr>filled := m\<rparr>)) i"
  shows "pt_inv ext U" "meta U = meta T" "get_sequence U = get_sequence T" "next_page_id U = next_page_id T"
    "\<And>s' k'. (s', k') \<noteq> (s, k) \<Longrightarrow> page_content U s' k' = page_content T s' k'"
    "\<exists>r. get_page U i = Some r \<and> value_at_slot F r = value_at_slot F p'"
proof -
  let ?V = "put_page T i (p'\<lparr>filled := m\<rparr>)"
  note w = wr [unfolded written_def]
  have invV: "pt_inv ext ?V" by (rule pt_inv_write [OF inv p(1)]) (use w shape in auto)
  note t = touch_tier [of ?V i, folded U, unfolded tier_step_def]
  have v: "seq_view U = seq_view T" and kp: "keeps ?V U" using t by simp_all
  show "pt_inv ext U" unfolding U by (rule touch_inv [OF invV])
  show "meta U = meta T" "get_sequence U = get_sequence T" "next_page_id U = next_page_id T"
    using seq_view_meta [OF v] seq_viewD(9) [OF v] t by auto
  show "page_content U s' k' = page_content T s' k'" if ne: "(s', k') \<noteq> (s, k)" for s' k'
  proof -
    have "page_content U s' k' = page_content ?V s' k'"
      by (rule page_content_keeps [OF invV kp]) (use v in \<open>auto dest: seq_viewD\<close>)
    moreover have "ps' ! k' \<noteq> i" if "get_sequence T s' = Some ps'" "k' < length ps'" for ps'
      using exclusive_place [OF inv p seq that] ne by auto
    ultimately show ?thesis by (auto simp: page_content_def split: option.split)
  qed
  have "ref_count (p'\<lparr>filled := m\<rparr>) > 0" "get_page ?V i = Some (p'\<lparr>filled := m\<rparr>)" using w p by simp_all
  with kp have "\<exists>r. get_page U i = Some r \<and> content r = content (p'\<lparr>filled := m\<rparr>)" unfolding keeps_def by blast
  then show "\<exists>r. get_page U i = Some r \<and> value_at_slot F r = value_at_slot F p'"
    by (metis content_simps(4) value_at_slot_content)
qed

text \<open>
  The state after a successful write, before the length is updated: page \<open>kk\<close> of \<open>s\<close> holds the
  new rows in slot \<open>t\<close>, all other pages are those of \<open>T\<close>.
\<close>

lemma write_token_effect:
  assumes inv: "pt_inv ext T" and ids: "next_page_id T < u32_max" and P: "page_size T > 0"
    and tc: "quant_config T = Some q" "layer_configs T \<noteq> []"
    and val: "validate_layers (layer_configs T) ls = Inr u"
    and e: "ensure_page_for_write F T s kk = (T1, Inr i)" and pr: "promote_to_hot T1 i = (T2, r)"
    and p: "get_page T2 i = Some p" and t: "t < page_size T"
    and wl: "write_layers F (page_size T) (layer_configs T) t (enumerate 0 ls) p = Inr p'"
    and U: "U = touch (put_page T2 i (p'\<lparr>filled := m\<rparr>)) i"
  shows "pt_inv ext U" "meta U = meta T" "next_page_id U \<le> next_page_id T + 1"
    "\<And>s'. s' \<noteq> s \<Longrightarrow> get_sequence U s' = get_sequence T s'"
    "\<exists>ps ps'. get_sequence T s = Some ps \<and> kk \<le> length ps \<and> get_sequence U s = Some ps' \<and>
       kk < length ps' \<and> length ps \<le> length ps' \<and> ps' ! kk = i"
    "\<And>s' k'. (s', k') \<noteq> (s, kk) \<Longrightarrow> page_content T s' k' \<noteq> None \<Longrightarrow> page_content U s' k' = page_content T s' k'"
    "\<exists>r. get_page U i = Some r \<and> value_at_slot F r = value_at_slot F p'"
    "written (page_size T) (layer_configs T) q F t (token_row (layer_configs T) ls) p
       {(l, kd, h). l < length (layer_configs T) \<and> h < num_kv_heads (layer_configs T ! l)} p'"
    "page_content T s kk \<noteq> None \<Longrightarrow> page_content T s kk = Some (content p)"
proof -
  note pw = prepare_write [OF inv ids e pr]
  note q2 = pw(1) [unfolded quiet_def]
  have m: "page_size T2 = page_size T" "layer_configs T2 = layer_configs T" "quant_config T2 = quant_config T"
    using metaD [of T2 T] q2 by auto
  have shape: "shape_of T2 = component_list (page_size T) (layer_configs T) q"
    using tc m by (simp add: shape_of_def page_components_def)
  from pw(2) p obtain ps where ps: "get_sequence T s = Some ps" "kk \<le> length ps"
    and ps2: "get_sequence T2 s = Some (if kk < length ps then ps[kk := i] else ps @ [i])" and one: "ref_count p = 1" by auto
  let ?ps = "if kk < length ps then ps[kk := i] else ps @ [i]"
  have kk: "kk < length ?ps" "?ps ! kk = i" using ps by (auto simp: nth_append)
  have inv2: "pt_inv ext T2" using q2 by simp
  have "page_shape (component_list (page_size T) (layer_configs T) q) p"
    using pt_invD(3) [OF inv2 p] shape by (simp add: page_ok_def)
  from write_token_page [OF this val t, of F] wl show wr:
    "written (page_size T) (layer_configs T) q F t (token_row (layer_configs T) ls) p
       {(l, kd, h). l < length (layer_configs T) \<and> h < num_kv_heads (layer_configs T ! l)} p'" by auto
  note w = page_written [OF inv2 p one ps2 kk shape wr U]
  show "pt_inv ext U" "meta U = meta T" "next_page_id U \<le> next_page_id T + 1" using w q2 by simp_all
  show "get_sequence U s' = get_sequence T s'" if "s' \<noteq> s" for s' using w(3) pw(3) that by simp
  show "\<exists>ps ps'. get_sequence T s = Some ps \<and> kk \<le> length ps \<and> get_sequence U s = Some ps' \<and>
       kk < length ps' \<and> length ps \<le> length ps' \<and> ps' ! kk = i" using w(3) ps ps2 kk by auto
  have same: "page_content T2 s' k' = page_content T s' k'" if "page_content T s' k' \<noteq> None" for s' k'
    using q2 that by (simp add: same_reads_def)
  show "page_content U s' k' = page_content T s' k'" if "(s', k') \<noteq> (s, kk)" "page_content T s' k' \<noteq> None" for s' k'
    using w(5) [OF that(1)] same [OF that(2)] by simp
  show "\<exists>r. get_page U i = Some r \<and> value_at_slot F r = value_at_slot F p'" by (rule w(6))
  show "page_content T s kk = Some (content p)" if "page_content T s kk \<noteq> None"
    using same [OF that] ps2 kk p by (simp add: page_content_def)
qed

definition valid_slot :: "'f PageTable \<Rightarrow> nat \<Rightarrow> nat \<Rightarrow> nat \<Rightarrow> bool" where
  "valid_slot T l h x \<longleftrightarrow>
     l < length (layer_configs T) \<and> h < num_kv_heads (layer_configs T ! l) \<and> x < head_dim (layer_configs T ! l)"

lemma token_value_at:
  assumes "slot_of T s pos = Some b" "get_sequence T s = Some ps" "b div page_size T < length ps"
    and "get_page T (ps ! (b div page_size T)) = Some p"
  shows "token_value F T s l kd h pos x =
    (case value_at_slot F p (page_size T) (head_dim (layer_configs T ! l)) (component_index l kd) h (b mod page_size T) x of
       Inl _ \<Rightarrow> None | Inr v \<Rightarrow> Some v)"
  using assms by (simp add: token_value_def)

lemma written_tokens:
  assumes inv: "pt_inv ext T" and wf: "cache_wf T" and P: "P = page_size T" and gs: "gs = layer_configs T"
    and nsk: "sequence_lengths T s = Some n" "sequence_starts T s = Some st" "sequence_sink_lens T s = Some k"
    and pos: "pos < k \<or> st \<le> pos" "pos \<le> n" and b: "b = bidx k st pos"
    and V: "sequence_lengths V = (sequence_lengths T)(s \<mapsto> max n (pos + 1))" "sequence_starts V = sequence_starts T"
      "sequence_sink_lens V = sequence_sink_lens T" "page_size V = P" "layer_configs V = gs"
    and seqV: "get_sequence V s = Some ps'" "b div P < length ps'" "ps' ! (b div P) = i"
    and others: "\<And>s' k'. (s', k') \<noteq> (s, b div P) \<Longrightarrow> page_content T s' k' \<noteq> None \<Longrightarrow> page_content V s' k' = page_content T s' k'"
    and pg: "get_page V i = Some r" "value_at_slot F r = value_at_slot F p'"
    and wr: "written P gs q F (b mod P) (token_row gs ls) p {(l, kd, h). l < length gs \<and> h < num_kv_heads (gs ! l)} p'"
    and old: "page_content T s (b div P) \<noteq> None \<Longrightarrow> page_content T s (b div P) = Some (content p)"
    and slot: "valid_slot T l h x"
  shows "token_value F V s l kd h pos x = Some (stored_value F (quant_dtype q l kd) (token_row gs ls l kd h) x)"
    "(s', pos') \<noteq> (s, pos) \<Longrightarrow> token_value F V s' l kd h pos' x = token_value F T s' l kd h pos' x"
proof -
  have Ppos: "P > 0" using wf P by (simp add: cache_wf_def)
  have valid: "l < length gs" "h < num_kv_heads (gs ! l)" "x < head_dim (gs ! l)" using slot gs by (simp_all add: valid_slot_def)
  have new: "value_at_slot F p' P (head_dim (gs ! l)) (component_index l kd) h t x =
      (if t = b mod P then Inr (stored_value F (quant_dtype q l kd) (token_row gs ls l kd h) x)
       else value_at_slot F p P (head_dim (gs ! l)) (component_index l kd) h t x)" if "t < P" for t
    using wr valid that by (auto simp: written_def)
  have at: "slot_of V s pos = Some b" using V nsk pos b by (auto simp: slot_of_def)
  from token_value_at [OF at seqV(1), of r F l kd h x] seqV pg V new [of "b mod P"] Ppos
  show "token_value F V s l kd h pos x = Some (stored_value F (quant_dtype q l kd) (token_row gs ls l kd h) x)" by simp
  assume ne: "(s', pos') \<noteq> (s, pos)"
  have slots: "slot_of V s' pos' = slot_of T s' pos'"
    using V nsk ne pos by (cases "s' = s") (auto simp: slot_of_def split: option.splits)
  show "token_value F V s' l kd h pos' x = token_value F T s' l kd h pos' x"
  proof (cases "\<exists>b'. slot_of T s' pos' = Some b' \<and> (s', b' div P) = (s, b div P)")
    case False
    then show ?thesis
      using slots V P gs others slot_content [OF inv wf] by (intro token_value_cong) auto
  next
    case True
    then obtain b' where b': "slot_of T s pos' = Some b'" "b' div P = b div P" "s' = s" by auto
    have "b' \<noteq> b" using b' nsk b ne pos bidx_inj [of k st pos' pos] by (auto simp: slot_of_def split: if_splits)
    then have mod: "b' mod P \<noteq> b mod P" using b'(2) by (metis div_mult_mod_eq)
    have "page_content T s (b div P) = Some (content p)" using old slot_content [OF inv wf b'(1)] b'(2) P by simp
    then obtain ps p0 where T: "get_sequence T s = Some ps" "b div P < length ps" "get_page T (ps ! (b div P)) = Some p0"
      "content p0 = content p" by (auto simp: page_content_def split: option.splits if_splits)
    have "value_at_slot F p0 = value_at_slot F p" by (rule value_at_slot_content [OF T(4)])
    moreover have "slot_of V s pos' = Some b'" using slots b' by simp
    ultimately show ?thesis
      using token_value_at [OF b'(1) T(1), of p0 F l kd h x] token_value_at [of V s pos' b' ps' r F l kd h x]
        T seqV pg V P gs b' new [of "b' mod P"] mod Ppos by simp
  qed
qed

lemma written_wf:
  assumes wf: "cache_wf T" and P: "P = page_size T"
    and nsk: "sequence_lengths T s = Some n" "sequence_starts T s = Some st" "sequence_sink_lens T s = Some k"
    and pos: "pos < k \<or> st \<le> pos" "pos \<le> n" and b: "b = bidx k st pos"
    and V: "sequence_lengths V = (sequence_lengths T)(s \<mapsto> max n (pos + 1))" "sequence_starts V = sequence_starts T"
      "sequence_sink_lens V = sequence_sink_lens T" "page_size V = P"
    and ps: "get_sequence T s = Some ps" "get_sequence V s = Some ps'" "b div P < length ps'" "length ps \<le> length ps'"
    and others: "\<And>s'. s' \<noteq> s \<Longrightarrow> get_sequence V s' = get_sequence T s'"
  shows "cache_wf V"
proof -
  have Ppos: "P > 0" and ok: "\<And>s. seq_ok T s" using wf P by (simp_all add: cache_wf_def)
  have bounds: "st \<le> n" "k + (n - st) \<le> length ps * P" "k \<le> st" "P dvd k" "P dvd st"
    using ok [of s] nsk ps(1) P by (auto simp: seq_ok_def)
  have "length ps * P \<le> length ps' * P" using ps(4) by (rule mult_le_mono1)
  with bounds(2) have old: "k + (n - st) \<le> length ps' * P" by (rule le_trans)
  have "b < length ps' * P" using ps(3) Ppos by (simp add: div_less_iff_less_mult)
  have "k + (max n (pos + 1) - st) \<le> length ps' * P"
  proof (cases "pos = n")
    case True
    then have "b = k + (n - st)" using b bounds by (simp add: bidx_def)
    with \<open>b < length ps' * P\<close> True bounds show ?thesis by simp
  next
    case False
    with pos have "max n (pos + 1) = n" by simp
    with old show ?thesis by simp
  qed
  then have "seq_ok V s" using bounds V nsk ps by (simp add: seq_ok_def)
  moreover have "seq_ok V s'" if "s' \<noteq> s" for s'
    using ok [of s'] that V others [OF that] P seq_ok_cong [of V s' T] by simp
  ultimately show ?thesis using V Ppos by (metis cache_wf_def)
qed

lemma write_token_state:
  assumes inv: "pt_inv ext T" and wf: "cache_wf T" and ids: "next_page_id T < u32_max"
    and tc: "quant_config T = Some q" "layer_configs T \<noteq> []"
    and w: "write_token_kv F T s pos ls = (U, r)"
  shows "cache_step 1 ext T U \<and>
    (\<forall>s' pos' l kd h x. (s', pos') \<noteq> (s, pos) \<and> valid_slot T l h x \<longrightarrow>
       token_value F U s' l kd h pos' x = token_value F T s' l kd h pos' x) \<and>
    (r = Inr () \<longrightarrow>
       (\<exists>n. sequence_lengths T s = Some n \<and> sequence_lengths U = (sequence_lengths T)(s \<mapsto> max n (pos + 1))) \<and>
       (\<forall>l kd h x. valid_slot T l h x \<longrightarrow>
          token_value F U s l kd h pos x =
            Some (stored_value F (quant_dtype q l kd) (token_row (layer_configs T) ls l kd h) x)))"
proof (cases r)
  case (Inl e)
  note q1 = write_token_failed [OF inv ids w [unfolded Inl]]
  with quiet_step [OF q1 wf] quiet_token_value [OF inv wf q1] Inl show ?thesis by simp
next
  case (Inr u)
  have P: "page_size T > 0" using wf by (simp add: cache_wf_def)
  from write_token_ok [OF w [unfolded Inr] P] obtain n st k T1 i T2 p p' where
    nsk: "sequence_lengths T s = Some n" "sequence_starts T s = Some st" "sequence_sink_lens T s = Some k"
    and pos: "pos < k \<or> st \<le> pos" "pos \<le> n" and val: "validate_layers (layer_configs T) ls = Inr ()"
    and e: "ensure_page_for_write F T s (bidx k st pos div page_size T) = (T1, Inr i)"
    and pr: "promote_to_hot T1 i = (T2, Inr ())" and p: "get_page T2 i = Some p"
    and wl: "write_layers F (page_size T) (layer_configs T) (bidx k st pos mod page_size T) (enumerate 0 ls) p = Inr p'"
    and U: "U = (let T3 = touch (put_page T2 i (p'\<lparr>filled := max (filled p') (bidx k st pos mod page_size T + 1)\<rparr>)) i
          in if pos = n then set_sequence_len T3 s (n + 1) else T3)" .
  let ?T3 = "touch (put_page T2 i (p'\<lparr>filled := max (filled p') (bidx k st pos mod page_size T + 1)\<rparr>)) i"
  have t: "bidx k st pos mod page_size T < page_size T" using P by simp
  note ef = write_token_effect [where m = "max (filled p') (bidx k st pos mod page_size T + 1)",
      OF inv ids P tc val e pr p t wl refl]
  note m = metaD [OF ef(2)]
  have Ueq: "sequence_lengths U = (sequence_lengths T)(s \<mapsto> max n (pos + 1))" "sequence_starts U = sequence_starts T"
    "sequence_sink_lens U = sequence_sink_lens T" "page_size U = page_size T" "layer_configs U = layer_configs T"
    "get_sequence U = get_sequence ?T3" "page_content U = page_content ?T3" "get_page U = get_page ?T3" "pt_inv ext U"
    using m nsk pos ef(1) by (auto simp: U Let_def set_sequence_len_fields max_def)
  from ef(5) obtain ps ps' where ps: "get_sequence T s = Some ps" "bidx k st pos div page_size T \<le> length ps"
    and ps': "get_sequence ?T3 s = Some ps'" "bidx k st pos div page_size T < length ps'" "length ps \<le> length ps'"
      "ps' ! (bidx k st pos div page_size T) = i" by blast
  from ef(7) obtain rr where rr: "get_page ?T3 i = Some rr" "value_at_slot F rr = value_at_slot F p'" by blast
  note tok = written_tokens [OF inv wf refl refl nsk pos refl Ueq(1-5) _ ps'(2,4) _ _ rr(2) ef(8) ef(9)]
  have wfU: "cache_wf U"
    by (rule written_wf [OF wf refl nsk pos refl Ueq(1-4) ps(1) _ ps'(2,3)]) (use ef(4) ps' Ueq in auto)
  have "get_sequence U s' = None" if "get_sequence T s' = None" for s'
    using ef(4) [of s'] that ps(1) Ueq(6) by (cases "s' = s") auto
  moreover have "geometry U = geometry ?T3 \<and> next_page_id U = next_page_id ?T3"
    unfolding U Let_def by (simp add: geometry_def set_sequence_len_def split: option.split)
  with m ef(3) have "geometry U = geometry T" "next_page_id U \<le> next_page_id T + 1"
    by (simp_all add: geometry_def)
  ultimately have "cache_step 1 ext T U" using wfU Ueq by (simp add: cache_step_def)
  with tok Ueq nsk ps' rr ef(6) Inr show ?thesis by auto
qed

text \<open>
  C11. Writing one token of one sequence is isolated. Whatever the call returns, page
  ownership and the cache's geometry are kept, and every other token of every sequence,
  also one that shares the page by a fork, reads back the values it had: the page is
  copied first when it is shared, possibly evicting other pages. When the write succeeds,
  the written token reads back as the quantisation of the given rows, in every layer and
  head, and the sequence ends at or after it.
\<close>

theorem write_token_is_isolated:
  assumes inv: "pt_inv ext T" and wf: "cache_wf T" and ids: "next_page_id T < u32_max"
    and tc: "quant_config T = Some q" "layer_configs T \<noteq> []"
    and w: "write_token_kv F T s pos ls = (U, r)"
  shows "pt_inv ext U \<and> cache_wf U \<and>
    (\<forall>s' pos' l kd h x. (s', pos') \<noteq> (s, pos) \<and> valid_slot T l h x \<longrightarrow>
       token_value F U s' l kd h pos' x = token_value F T s' l kd h pos' x) \<and>
    (r = Inr () \<longrightarrow>
       (\<exists>n. sequence_lengths T s = Some n \<and> sequence_lengths U = (sequence_lengths T)(s \<mapsto> max n (pos + 1))) \<and>
       (\<forall>l kd h x. valid_slot T l h x \<longrightarrow>
          token_value F U s l kd h pos x =
            Some (stored_value F (quant_dtype q l kd) (token_row (layer_configs T) ls l kd h) x)))"
  using write_token_state [OF assms] by (simp add: cache_step_def)

lemma cache_wf_no_sequences:
  "page_size T > 0 \<Longrightarrow> sequences T = [] \<Longrightarrow> sequence_lengths T = Map.empty \<Longrightarrow>
     sequence_starts T = Map.empty \<Longrightarrow> sequence_sink_lens T = Map.empty \<Longrightarrow> cache_wf T"
  by (simp add: cache_wf_def seq_ok_def get_sequence_def)

lemma create_sequence_wf:
  assumes "cache_wf T" "get_sequence T s = None"
  shows "cache_wf (pt_create_sequence T s)"
proof -
  have "seq_ok (pt_create_sequence T s) s'" for s'
  proof (cases "s' = s")
    case False
    then show ?thesis
      using assms(1) seq_ok_cong [of "pt_create_sequence T s" s' T]
      by (simp add: cache_wf_def pt_create_sequence_def get_sequence_def)
  qed (simp add: seq_ok_def pt_create_sequence_def get_sequence_def)
  with assms(1) show ?thesis by (simp add: cache_wf_def pt_create_sequence_def)
qed

text \<open>A pool of three pages of two tokens, with one empty sequence.\<close>

definition demo_table :: "int PageTable" where
  "demo_table = pt_create_sequence
     (pt_build int_ops (ledger_new 1 0 0 0) 2 3
        (Some \<lparr>tc_num_layers = 1, tc_num_kv_heads = 2, tc_head_dim = 3, tc_page_size = 2, tc_dtype = F32\<rparr>)
        example_layers (Some example_quant)) 0"

definition demo_token :: "int LayerKv list" where
  "demo_token = [\<lparr>lkv_key = [127, 254, 0, 5, 6, 7], lkv_value = [1, 2, 3, 4, 5, 6]\<rparr>]"

lemma demo_table_ok: "pt_inv (\<lambda>_. 0) demo_table" "cache_wf demo_table"
proof -
  let ?B = "pt_build int_ops (ledger_new 1 0 0 0) 2 3
        (Some \<lparr>tc_num_layers = 1, tc_num_kv_heads = 2, tc_head_dim = 3, tc_page_size = 2, tc_dtype = F32\<rparr>)
        example_layers (Some example_quant)"
  have none: "get_sequence ?B 0 = None" by (simp add: pt_build_def get_sequence_def)
  show "pt_inv (\<lambda>_. 0) demo_table" unfolding demo_table_def
    by (rule create_sequence_inv [OF pt_build_inv none]) simp
  show "cache_wf demo_table" unfolding demo_table_def
    by (rule create_sequence_wf [OF cache_wf_no_sequences none]) (simp_all add: pt_build_def)
qed

theorem write_token_is_isolated_witness:
  "snd (write_token_kv int_ops demo_table 0 0 demo_token) = Inr () \<and>
   token_value int_ops (fst (write_token_kv int_ops demo_table 0 0 demo_token)) 0 0 Value 1 0 2 = Some 6 \<and>
   cache_wf (fst (write_token_kv int_ops demo_table 0 0 demo_token))"
proof -
  have ok: "snd (write_token_kv int_ops demo_table 0 0 demo_token) = Inr ()" "next_page_id demo_table = 3"
    "quant_config demo_table = Some example_quant" "layer_configs demo_table \<noteq> []" "valid_slot demo_table 0 1 2"
    "stored_value int_ops (quant_dtype example_quant 0 Value) (token_row (layer_configs demo_table) demo_token 0 Value 1) 2 = 6"
    by code_simp+
  from write_token_is_isolated [OF demo_table_ok _ ok(3,4), of int_ops 0 0 demo_token
      "fst (write_token_kv int_ops demo_table 0 0 demo_token)" "Inr ()"] ok
  show ?thesis by (auto simp: u32_max_def prod_eq_iff)
qed

end
