(* ===== verification/CacheOps.thy ===== *)
theory CacheOps
  imports CacheIsolation
begin

text \<open>
  Rewinds, forks, sliding windows, tiering, appends and removals: each keeps the ownership
  invariant and the geometry of the cache, and each says which tokens it keeps.

  The locale \<open>ref_pool\<close> is the contract between a pool of reference-counted pages and the
  operations that give up several references at once (a rewind, a window, a removal, an
  evicted prefix); the page table provides it.
\<close>

section \<open>Giving references back\<close>

locale ref_pool =
  fixes inv :: "(nat \<Rightarrow> nat) \<Rightarrow> 't \<Rightarrow> bool"
    and rel :: "'t \<Rightarrow> nat \<Rightarrow> 't"
    and obs :: "'t \<Rightarrow> 'o"
  assumes rel_inv: "inv ext T \<Longrightarrow> 0 < ext i \<Longrightarrow> inv (ext(i := ext i - 1)) (rel T i)"
    and rel_obs: "inv ext T \<Longrightarrow> 0 < ext i \<Longrightarrow> obs (rel T i) = obs T"
begin

lemma release_each:
  assumes "inv (\<lambda>i. ext i + count_list is i) T"
  shows "inv ext (foldl rel T is) \<and> obs (foldl rel T is) = obs T"
  using assms
proof (induction "is" arbitrary: T)
  case (Cons i "is")
  let ?e = "\<lambda>j. ext j + count_list (i # is) j"
  have "inv (?e(i := ?e i - 1)) (rel T i)" "obs (rel T i) = obs T"
    by (rule rel_inv [OF Cons.prems] rel_obs [OF Cons.prems], simp)+
  moreover have "?e(i := ?e i - 1) = (\<lambda>j. ext j + count_list is j)" by auto
  ultimately show ?case using Cons.IH [of "rel T i"] by simp
qed simp

text \<open>The order in which the references are given up does not matter for what remains.\<close>

lemma release_in_any_order:
  assumes "inv (\<lambda>i. ext i + count_list is i) T" "\<And>i. count_list js i = count_list is i"
  shows "inv ext (foldl rel T js) \<and> obs (foldl rel T js) = obs (foldl rel T is)"
  using release_each [OF assms(1)] release_each [of ext js T] assms by simp

end

text \<open>What releases keep of the page table: contents behind every sequence, sequences, ids.\<close>

definition release_view ::
  "'f PageTable \<Rightarrow> (nat \<Rightarrow> nat \<Rightarrow> ('f list \<times> int list \<times> nat list \<times> 'f list \<times> ComponentStorage list) option) \<times>
     ((nat \<times> nat list) list \<times> (nat \<rightharpoonup> nat) \<times> (nat \<rightharpoonup> nat) \<times> (nat \<rightharpoonup> nat) \<times>
     nat \<times> LayerTensorConfig list \<times> KvQuantConfig option \<times> PageTensorConfig option) \<times> nat" where
  "release_view T = (page_content T, seq_view T, next_page_id T)"

interpretation pool: ref_pool pt_inv "free_page F" release_view for F
proof
  fix ext i and T :: "'a PageTable"
  assume inv: "pt_inv ext T" and held: "0 < ext i"
  show "pt_inv (ext(i := ext i - 1)) (free_page F T i)" by (rule free_page_inv [OF inv held])
  show "release_view (free_page F T i) = release_view T"
    by (simp add: release_view_def free_page_content [OF inv held] fun_eq_iff)
qed

lemma free_all_foldl: "free_all F T is = foldl (free_page F) T is"
  by (induction "is" arbitrary: T) simp_all

lemma free_all_inv:
  assumes "pt_inv (\<lambda>i. ext i + count_list is i) T"
  shows "pt_inv ext (free_all F T is)" "page_content (free_all F T is) = page_content T"
    "seq_view (free_all F T is) = seq_view T" "next_page_id (free_all F T is) = next_page_id T"
  using pool.release_each [OF assms, of F] by (simp_all add: free_all_foldl release_view_def)

lemma free_page_sequences:
  "free_page F (T\<lparr>sequences := S\<rparr>) i = (free_page F T i)\<lparr>sequences := S\<rparr>"
  by (simp add: free_page_def get_page_def put_page_def Let_def split: option.split)

lemma free_all_sequences: "free_all F (T\<lparr>sequences := S\<rparr>) is = (free_all F T is)\<lparr>sequences := S\<rparr>"
  by (induction "is" arbitrary: T) (simp_all add: free_page_sequences)

section \<open>Replacing the pages of a sequence\<close>

lemma free_all_set_pages:
  "set_sequence_pages (free_all F T is) s qs = free_all F (set_sequence_pages T s qs) is"
proof -
  have "sequences (free_all F T is) = sequences T"
  proof (induction "is" arbitrary: T)
    case (Cons i "is")
    then show ?case using seq_viewD(1) [OF free_page_view(1), of F T i] by simp
  qed simp
  then show ?thesis by (simp add: set_sequence_pages_def free_all_sequences)
qed

lemma set_sequence_pages_fields [simp]:
  "get_sequence (set_sequence_pages T s qs) = (get_sequence T)(s \<mapsto> qs)"
  "meta (set_sequence_pages T s qs) = meta T" "next_page_id (set_sequence_pages T s qs) = next_page_id T"
  "get_page (set_sequence_pages T s qs) = get_page T"
  by (simp_all add: set_sequence_pages_def get_sequence_def meta_def fun_eq_iff)

text \<open>
  A sequence gives up the pages \<open>rs\<close> and keeps \<open>qs\<close>: the common core of rewinds, windows and
  removals. Contents are those behind the new page list.
\<close>

lemma drop_pages:
  assumes inv: "pt_inv ext T" and ps: "get_sequence T s = Some ps"
    and parts: "\<And>i. count_list qs i + count_list rs i = count_list ps i"
    and U: "U = free_all F (set_sequence_pages T s qs) rs"
  shows "pt_inv ext U" "meta U = meta T" "next_page_id U = next_page_id T"
    "get_sequence U = (get_sequence T)(s \<mapsto> qs)"
    "\<And>s' k'. s' \<noteq> s \<Longrightarrow> page_content U s' k' = page_content T s' k'"
    "\<And>k' j. k' < length qs \<Longrightarrow> j < length ps \<Longrightarrow> qs ! k' = ps ! j \<Longrightarrow> page_content U s k' = page_content T s j"
proof -
  let ?V = "set_sequence_pages T s qs"
  have V: "pt_inv (\<lambda>i. ext i + count_list rs i) ?V"
    unfolding set_sequence_pages_def by (rule set_sequences_inv [OF inv ps]) (use parts in \<open>simp add: ac_simps\<close>)
  note f = free_all_inv [OF V, of F, folded U]
  show "pt_inv ext U" "next_page_id U = next_page_id T" using f by simp_all
  show "meta U = meta T" using seq_view_meta [OF f(3)] by simp
  show "get_sequence U = (get_sequence T)(s \<mapsto> qs)" using seq_viewD(9) [OF f(3)] by simp
  show "page_content U s' k' = page_content T s' k'" if "s' \<noteq> s" for s' k'
    unfolding f(2) using that by (simp add: page_content_def split: option.split)
  show "page_content U s k' = page_content T s j" if "k' < length qs" "j < length ps" "qs ! k' = ps ! j" for k' j
    unfolding f(2) using that ps by (simp add: page_content_def)
qed

section \<open>Rewind\<close>

lemma set_last_filled_quiet:
  assumes "pt_inv ext T"
  shows "quiet 0 ext T (set_last_filled T s n)"
proof (cases "\<exists>i is. get_sequence T s = Some (i # is)")
  case True
  then obtain i "is" where ps: "get_sequence T s = Some (i # is)" by blast
  have "last (i # is) \<in> set (i # is)" by (rule last_in_set) simp
  from sequence_page_live [OF assms ps this] obtain p where p: "get_page T (last (i # is)) = Some p"
    "page_ok T ext (last (i # is)) p" by blast
  have eq: "set_last_filled T s n = put_page T (last (i # is)) (p\<lparr>filled := n\<rparr>)"
    using ps p(1) by (simp add: set_last_filled_def Let_def del: last.simps)
  have "pt_inv ext (set_last_filled T s n)"
    unfolding eq by (rule pt_inv_write [OF assms p(1)]) (use p(2) in \<open>auto simp: page_ok_def\<close>)
  moreover have "tier_step T (set_last_filled T s n)" unfolding eq by (rule tier_step_put [OF p(1)]) simp_all
  ultimately show ?thesis by (rule tier_quiet [OF assms])
next
  case False
  then have "set_last_filled T s n = T" by (auto simp: set_last_filled_def split: option.splits list.splits)
  with quiet_refl [OF assms] show ?thesis by simp
qed

lemma set_last_filled_view: "seq_view (set_last_filled T s n) = seq_view T"
  by (simp add: set_last_filled_def Let_def split: option.split list.split)

lemma length_table_transparent [simp]:
  "get_sequence (T\<lparr>sequence_lengths := a\<rparr>) = get_sequence T" "get_sequence (T\<lparr>sequence_starts := a\<rparr>) = get_sequence T"
  "get_sequence (T\<lparr>sequence_sink_lens := a\<rparr>) = get_sequence T"
  "page_content (T\<lparr>sequence_lengths := a\<rparr>) = page_content T" "page_content (T\<lparr>sequence_starts := a\<rparr>) = page_content T"
  "page_content (T\<lparr>sequence_sink_lens := a\<rparr>) = page_content T"
  by (simp_all add: get_sequence_def page_content_def fun_eq_iff split: option.split)

lemma set_sequence_fields [simp]:
  "pt_inv ext (set_sequence_start T s n) = pt_inv ext T" "pt_inv ext (set_sequence_sink_len T s n) = pt_inv ext T"
  "get_sequence (set_sequence_start T s n) = get_sequence T" "get_sequence (set_sequence_sink_len T s n) = get_sequence T"
  "page_content (set_sequence_start T s n) = page_content T" "page_content (set_sequence_sink_len T s n) = page_content T"
  "page_size (set_sequence_start T s n) = page_size T" "page_size (set_sequence_sink_len T s n) = page_size T"
  "layer_configs (set_sequence_start T s n) = layer_configs T" "layer_configs (set_sequence_sink_len T s n) = layer_configs T"
  "quant_config (set_sequence_start T s n) = quant_config T" "quant_config (set_sequence_sink_len T s n) = quant_config T"
  "quant_config (set_sequence_len T s n) = quant_config T"
  "next_page_id (set_sequence_start T s n) = next_page_id T" "next_page_id (set_sequence_sink_len T s n) = next_page_id T"
  "get_page (set_sequence_start T s n) = get_page T" "get_page (set_sequence_sink_len T s n) = get_page T"
  "sequence_lengths (set_sequence_start T s n) = sequence_lengths T"
  "sequence_lengths (set_sequence_sink_len T s n) = sequence_lengths T"
  "sequence_starts (set_sequence_sink_len T s n) = sequence_starts T"
  "sequence_sink_lens (set_sequence_start T s n) = sequence_sink_lens T"
  "sequence_starts T s = Some a \<Longrightarrow> sequence_starts (set_sequence_start T s n) = (sequence_starts T)(s \<mapsto> n)"
  "sequence_sink_lens T s = Some b \<Longrightarrow> sequence_sink_lens (set_sequence_sink_len T s n) = (sequence_sink_lens T)(s \<mapsto> n)"
  by (auto simp: set_sequence_start_def set_sequence_sink_len_def set_sequence_len_def get_sequence_def
      page_content_def fun_eq_iff split: option.split)

lemmas set_len_fields [simp] = set_sequence_len_fields

lemma validate_rewind_ok:
  "validate_rewind_to T s pos = Inr u \<longleftrightarrow>
     (\<exists>rs sink n ps. sequence_starts T s = Some rs \<and> sequence_sink_lens T s = Some sink \<and>
        sequence_lengths T s = Some n \<and> get_sequence T s = Some ps \<and>
        (rs \<le> pos \<or> pos < sink) \<and> pos \<le> n)"
  by (cases "sequence_starts T s"; cases "sequence_sink_lens T s"; cases "sequence_lengths T s"; cases "get_sequence T s")
    (auto simp: validate_rewind_to_def retained_start_def sink_len_def seq_len_def find_sequence_def)

text \<open>The common shape of a state change that only drops pages of \<open>s\<close> and moves its window.\<close>

lemma trimmed_wf:
  assumes wf: "cache_wf T" and P: "page_size U = page_size T"
    and U: "sequence_lengths U = (sequence_lengths T)(s \<mapsto> n')" "sequence_starts U = (sequence_starts T)(s \<mapsto> st')"
      "sequence_sink_lens U = (sequence_sink_lens T)(s \<mapsto> k')" "get_sequence U = (get_sequence T)(s \<mapsto> qs)"
    and fit: "st' \<le> n'" "k' + (n' - st') \<le> length qs * page_size T" "k' \<le> st'" "page_size T dvd k'" "page_size T dvd st'"
  shows "cache_wf U"
proof -
  have "seq_ok U s'" for s'
    using wf P U fit seq_ok_cong [of U s' T] by (cases "s' = s") (auto simp: cache_wf_def seq_ok_def)
  with wf P show ?thesis by (simp add: cache_wf_def)
qed

lemma rewind_ok:
  assumes "rewind_to F T s pos = (U, Inr u)" "page_size T > 0"
  obtains st k n ps m where "sequence_starts T s = Some st" "sequence_sink_lens T s = Some k" "sequence_lengths T s = Some n"
    "get_sequence T s = Some ps" "st \<le> pos \<or> pos < k" "pos \<le> n" "m = div_ceil (bidx k st pos) (page_size T)"
    "U = (let T2 = free_all F (set_sequence_pages T s (take m ps)) (drop m ps);
              T3 = (if bidx k st pos > 0 then set_last_filled T2 s ((bidx k st pos - 1) mod page_size T + 1) else T2);
              T4 = set_sequence_len T3 s pos in
          if pos < k then set_sequence_start (set_sequence_sink_len T4 s 0) s 0 else T4)"
proof -
  from assms(1) obtain st k n ps where nsk: "sequence_starts T s = Some st" "sequence_sink_lens T s = Some k"
    "sequence_lengths T s = Some n" "get_sequence T s = Some ps" "st \<le> pos \<or> pos < k" "pos \<le> n"
    by (auto simp: rewind_to_def validate_rewind_ok)
  have "buffer_index T s pos = Inr (bidx k st pos)" by (rule buffer_index_ok) (use nsk in auto)
  with assms nsk that show thesis
    by (auto simp: rewind_to_def validate_rewind_ok sink_len_def ceil_or_panic_def find_sequence_def Let_def
        free_all_set_pages [symmetric])
qed

lemma rewind_failed:
  assumes "rewind_to F T s pos = (U, Inl e)"
  shows "U = T"
  using assms by (auto simp: rewind_to_def Let_def elim!: st_lift_cases)

lemma count_list_take_drop: "count_list (take m ps) i + count_list (drop m ps) i = count_list ps i"
  by (metis append_take_drop_id count_list_append)

text \<open>A token whose page moved inside the page list, or did not.\<close>

lemma token_value_moved:
  assumes "slot_of U r pos = Some b'" "slot_of T s pos = Some b" "b' mod page_size T = b mod page_size T"
    and "page_content U r (b' div page_size T) = page_content T s (b div page_size T)"
    and U: "page_size U = page_size T" "layer_configs U = layer_configs T"
  shows "token_value F U r l kd h pos x = token_value F T s l kd h pos x"
proof (cases "page_content T s (b div page_size T)")
  case None
  with assms show ?thesis by (auto simp: token_value_def page_content_def split: option.splits if_splits)
next
  case (Some c)
  obtain ps p where T: "get_sequence T s = Some ps" "b div page_size T < length ps"
      "get_page T (ps ! (b div page_size T)) = Some p" "content p = c"
    using Some by (auto simp: page_content_def split: option.splits if_splits)
  obtain ps' p' where U': "get_sequence U r = Some ps'" "b' div page_size T < length ps'"
      "get_page U (ps' ! (b' div page_size T)) = Some p'" "content p' = c"
    using Some assms(4) by (auto simp: page_content_def split: option.splits if_splits)
  have "value_at_slot F p' = value_at_slot F p" using T U' by (intro value_at_slot_content) simp
  with T U' U assms(1-3) show ?thesis by (simp add: token_value_def)
qed

lemma token_value_other_sequence:
  assumes "sequence_lengths U s = sequence_lengths T s" "sequence_starts U s = sequence_starts T s"
    "sequence_sink_lens U s = sequence_sink_lens T s" "\<And>k. page_content U s k = page_content T s k"
    "page_size U = page_size T" "layer_configs U = layer_configs T"
  shows "token_value F U s l kd h pos x = token_value F T s l kd h pos x"
  using assms by (intro token_value_cong) (simp_all add: slot_of_def)

lemma quiet_content:
  assumes "pt_inv ext T" "quiet n ext T U" "seq_view U = seq_view T"
  shows "page_content U s k = page_content T s k"
proof (cases "page_content T s k")
  case None
  have seq: "get_sequence U = get_sequence T" by (rule seq_viewD(9) [OF assms(3)])
  have "get_page T (ps ! k) \<noteq> None" if "get_sequence T s = Some ps" "k < length ps" for ps
    using sequence_page_live [OF assms(1) that(1) nth_mem [OF that(2)]] by auto
  with None seq show ?thesis by (auto simp: page_content_def split: option.splits if_splits)
next
  case (Some c)
  then have "page_content T s k \<noteq> None" by simp
  with assms(2) show ?thesis unfolding quiet_def same_reads_def by blast
qed

lemma set_last_filled_ids: "next_page_id (set_last_filled T s n) = next_page_id T"
  by (simp add: set_last_filled_def Let_def split: option.split list.split)

lemma trim_fields:
  assumes "sequence_lengths V s = Some n" "sequence_starts V s = Some st" "sequence_sink_lens V s = Some k"
    and "U = (if c then set_sequence_start (set_sequence_sink_len (set_sequence_len V s pos) s 0) s 0
              else set_sequence_len V s pos)"
  shows "page_size U = page_size V" "layer_configs U = layer_configs V" "quant_config U = quant_config V"
    "sequence_lengths U = (sequence_lengths V)(s \<mapsto> pos)"
    "sequence_starts U = (sequence_starts V)(s \<mapsto> (if c then 0 else st))"
    "sequence_sink_lens U = (sequence_sink_lens V)(s \<mapsto> (if c then 0 else k))"
    "get_sequence U = get_sequence V" "page_content U = page_content V"
    "next_page_id U = next_page_id V" "pt_inv ext U = pt_inv ext V" "tensor_config U = tensor_config V"
  using assms by (auto simp: fun_upd_idem set_sequence_start_def set_sequence_sink_len_def set_sequence_len_def)

lemma rewind_state:
  assumes inv: "pt_inv ext T" and wf: "cache_wf T" and r: "rewind_to F T s pos = (U, Inr u)"
  shows "pt_inv ext U \<and> cache_wf U \<and> next_page_id U = next_page_id T \<and>
    sequence_lengths U = (sequence_lengths T)(s \<mapsto> pos) \<and>
    geometry U = geometry T \<and>
    (\<forall>s' pos' l kd h x. s' \<noteq> s \<or> pos' < pos \<longrightarrow> token_value F U s' l kd h pos' x = token_value F T s' l kd h pos' x) \<and>
    (\<exists>qs. get_sequence U = (get_sequence T)(s \<mapsto> qs))"
proof -
  have P: "page_size T > 0" using wf by (simp add: cache_wf_def)
  from rewind_ok [OF r P] obtain st k n ps m where nsk: "sequence_starts T s = Some st" "sequence_sink_lens T s = Some k"
      "sequence_lengths T s = Some n" and ps: "get_sequence T s = Some ps" and pos: "st \<le> pos \<or> pos < k" "pos \<le> n"
    and m: "m = div_ceil (bidx k st pos) (page_size T)"
    and Ueq: "U = (let T2 = free_all F (set_sequence_pages T s (take m ps)) (drop m ps);
              T3 = (if bidx k st pos > 0 then set_last_filled T2 s ((bidx k st pos - 1) mod page_size T + 1) else T2);
              T4 = set_sequence_len T3 s pos in
          if pos < k then set_sequence_start (set_sequence_sink_len T4 s 0) s 0 else T4)" .
  have fit: "st \<le> n" "k + (n - st) \<le> length ps * page_size T" "k \<le> st" "page_size T dvd k" "page_size T dvd st"
    using wf nsk ps by (auto simp: cache_wf_def seq_ok_def dest!: spec [of _ s])
  let ?T2 = "free_all F (set_sequence_pages T s (take m ps)) (drop m ps)"
  let ?T3 = "if bidx k st pos > 0 then set_last_filled ?T2 s ((bidx k st pos - 1) mod page_size T + 1) else ?T2"
  note d = drop_pages [OF inv ps, where qs = "take m ps" and rs = "drop m ps" and F = F, OF count_list_take_drop refl]
  have q: "quiet 0 ext ?T2 ?T3" using set_last_filled_quiet [OF d(1)] quiet_refl [OF d(1)] by simp
  have v: "seq_view ?T3 = seq_view ?T2" by (simp add: set_last_filled_view)
  have m3: "meta ?T3 = meta T" using seq_view_meta [OF v] d(2) by simp
  note f3 = metaD [OF m3]
  have g3: "get_sequence ?T3 = (get_sequence T)(s \<mapsto> take m ps)" using seq_viewD(9) [OF v] d(4) by simp
  have U: "page_size U = page_size T" "layer_configs U = layer_configs T" "quant_config U = quant_config T"
    "sequence_lengths U = (sequence_lengths T)(s \<mapsto> pos)"
    "sequence_starts U = (sequence_starts T)(s \<mapsto> (if pos < k then 0 else st))"
    "sequence_sink_lens U = (sequence_sink_lens T)(s \<mapsto> (if pos < k then 0 else k))"
    "get_sequence U = (get_sequence T)(s \<mapsto> take m ps)" "page_content U = page_content ?T3"
    "next_page_id U = next_page_id ?T3" "pt_inv ext U" "tensor_config U = tensor_config T"
    using trim_fields [where V = ?T3 and n = n and st = st and k = k, OF _ _ _ Ueq [unfolded Let_def]] f3 g3 q nsk
    by (simp_all add: quiet_def)
  have rp: "bidx k st pos \<le> length ps * page_size T" using fit pos by (auto simp: bidx_def)
  have len: "length (take m ps) = m" using rp P by (simp add: m div_ceil_le_iff)
  have big: "bidx k st pos \<le> m * page_size T" using div_ceil_mult_ge [OF P] m by simp
  have wfU: "cache_wf U"
    by (rule trimmed_wf [OF wf U(1,4-7)]) (use fit pos big len in \<open>auto simp: bidx_def split: if_splits\<close>)
  have contents: "page_content U s' k' = page_content T s' k'" if "s' \<noteq> s \<or> k' < m" for s' k'
  proof -
    have "page_content ?T2 s' k' = page_content T s' k'"
      using that d(5) [of s' k'] d(6) [of k' k'] len by (cases "s' = s") auto
    moreover have "page_content ?T2 = page_content ?T3"
      using quiet_content [OF d(1) q v] by (intro ext) simp
    ultimately show ?thesis by (simp add: U)
  qed
  have tokens: "token_value F U s' l kd h pos' x = token_value F T s' l kd h pos' x"
    if keep: "s' \<noteq> s \<or> pos' < pos" for s' pos' l kd h x
  proof (cases "s' = s")
    case False
    then show ?thesis using U contents by (intro token_value_other_sequence) auto
  next
    case True
    with keep have lt: "pos' < pos" by simp
    show ?thesis
    proof (cases "pos' < k \<or> st \<le> pos'")
      case True
      have "slot_of T s pos' = Some (bidx k st pos')" using True lt pos nsk by (auto simp: slot_of_def)
      moreover have "slot_of U s pos' = Some (bidx k st pos')" using True lt pos nsk U by (auto simp: slot_of_def bidx_def)
      moreover have "bidx k st pos' < bidx k st pos" using True lt pos fit by (auto simp: bidx_def)
      then have "bidx k st pos' div page_size T < m" using big P by (simp add: div_less_iff_less_mult)
      ultimately show ?thesis using contents U \<open>s' = s\<close> by (intro token_value_moved) auto
    next
      case False
      with lt nsk U \<open>s' = s\<close> fit pos show ?thesis by (auto simp: token_value_def slot_of_def)
    qed
  qed
  have "next_page_id U = next_page_id T" "geometry U = geometry T"
    using U(1-3,9,11) d(3) by (simp_all add: set_last_filled_ids geometry_def)
  with U wfU tokens show ?thesis by blast
qed

definition rewindable :: "'f PageTable \<Rightarrow> nat \<Rightarrow> nat \<Rightarrow> bool" where
  "rewindable T s pos \<longleftrightarrow>
     (case (sequence_lengths T s, sequence_starts T s, sequence_sink_lens T s) of
        (Some n, Some st, Some k) \<Rightarrow> pos \<le> n \<and> (st \<le> pos \<or> pos < k)
      | _ \<Rightarrow> False)"

lemma rewindable_ok:
  assumes "cache_wf T" "rewindable T s pos"
  shows "is_ok (snd (rewind_to F T s pos))"
proof -
  have P: "page_size T > 0" and ok: "seq_ok T s" using assms(1) by (simp_all add: cache_wf_def)
  from ok assms(2) obtain ps n st k where "get_sequence T s = Some ps" "sequence_lengths T s = Some n"
    "sequence_starts T s = Some st" "sequence_sink_lens T s = Some k" "pos \<le> n" "st \<le> pos \<or> pos < k"
    by (elim seq_ok_cases) (auto simp: rewindable_def)
  then have "validate_rewind_to T s pos = Inr ()" "sink_len T s = Inr k" "find_sequence T s = Inr ps"
    "buffer_index T s pos = Inr (bidx k st pos)"
    by (auto simp: validate_rewind_ok sink_len_def find_sequence_def intro!: buffer_index_ok)
  with P show ?thesis by (simp add: rewind_to_def ceil_or_panic_def Let_def)
qed

text \<open>
  C12. A rewind succeeds exactly for positions inside the retained tokens (the window, its
  end, or the pinned sinks), and a refused rewind changes nothing. After a successful one
  the sequence ends at the position, every token before it and every token of every other
  sequence reads as before, and the pages beyond it went back to their free lists.
\<close>

theorem rewind_keeps_the_prefix:
  assumes inv: "pt_inv ext T" and wf: "cache_wf T"
  shows "(is_ok (snd (rewind_to F T s pos)) \<longleftrightarrow> rewindable T s pos) \<and>
    (case rewind_to F T s pos of
       (U, Inl e) \<Rightarrow> U = T
     | (U, Inr _) \<Rightarrow>
         sequence_lengths U = (sequence_lengths T)(s \<mapsto> pos) \<and> pt_inv ext U \<and> cache_wf U \<and>
         (\<forall>s' pos' l kd h x. s' \<noteq> s \<or> pos' < pos \<longrightarrow>
            token_value F U s' l kd h pos' x = token_value F T s' l kd h pos' x))"
proof -
  obtain U r where r: "rewind_to F T s pos = (U, r)" by (cases "rewind_to F T s pos")
  have P: "page_size T > 0" using wf by (simp add: cache_wf_def)
  show ?thesis
  proof (cases r)
    case (Inl e)
    with rewind_failed r have "U = T" by blast
    moreover have "\<not> rewindable T s pos" using rewindable_ok [OF wf, of s pos F] r Inl by auto
    ultimately show ?thesis using r Inl by simp
  next
    case (Inr u)
    have "rewindable T s pos" by (rule rewind_ok [OF r [unfolded Inr] P]) (simp add: rewindable_def)
    with rewind_state [OF inv wf r [unfolded Inr]] show ?thesis
      by (simp only: r Inr prod.case sum.case is_ok.simps snd_conv simp_thms) blast
  qed
qed

theorem rewind_keeps_the_prefix_witness:
  "is_ok (snd (rewind_to int_ops demo_table 0 0)) \<and> \<not> is_ok (snd (rewind_to int_ops demo_table 0 1)) \<and>
   cache_wf (fst (rewind_to int_ops demo_table 0 0))"
proof -
  have "rewindable demo_table 0 0" "\<not> rewindable demo_table 0 1" by code_simp+
  with rewind_keeps_the_prefix [OF demo_table_ok, where F = int_ops and s = 0 and pos = 0]
    rewind_keeps_the_prefix [OF demo_table_ok, where F = int_ops and s = 0 and pos = 1]
  show ?thesis by (cases "rewind_to int_ops demo_table 0 0"; cases "snd (rewind_to int_ops demo_table 0 0)") auto
qed

section \<open>Fork\<close>

lemma retain_live:
  assumes "pt_inv ext T" "get_page T i = Some p" "0 < ref_count p" "ref_count p < u32_max"
  shows "retain T i = (fst (retain T i), True)" "pt_inv (ext(i := ext i + 1)) (fst (retain T i))"
    "keeps T (fst (retain T i))" "seq_view (fst (retain T i)) = seq_view T" "next_page_id (fst (retain T i)) = next_page_id T"
    "get_page (fst (retain T i)) j = (if j = i then Some (p\<lparr>ref_count := ref_count p + 1, last_access := clock T + 1\<rparr>) else get_page T j)"
proof -
  have eq: "retain T i = (stamp T i (p\<lparr>ref_count := ref_count p + 1\<rparr>), True)"
    using assms by (simp add: retain_def sat_add_u32_def)
  then show r: "retain T i = (fst (retain T i), True)" by simp
  show "pt_inv (ext(i := ext i + 1)) (fst (retain T i))" by (rule retain_inv [OF assms(1) r assms(2-4)])
  show "keeps T (fst (retain T i))" "seq_view (fst (retain T i)) = seq_view T" "next_page_id (fst (retain T i)) = next_page_id T"
    "get_page (fst (retain T i)) j = (if j = i then Some (p\<lparr>ref_count := ref_count p + 1, last_access := clock T + 1\<rparr>) else get_page T j)"
    using assms(2) by (auto simp: eq stamp_def keeps_def)
qed

lemma keeps_push: "keeps T (push_page U s i) = keeps T U"
  by (simp add: push_page_def split: option.split)

lemma share_pages_inv:
  assumes "pt_inv ext T" "get_sequence T s = Some qs"
    and "\<forall>i \<in> set is. \<exists>p. get_page T i = Some p \<and> 0 < ref_count p \<and> ref_count p + length is \<le> u32_max"
  shows "pt_inv ext (share_pages T s is) \<and> get_sequence (share_pages T s is) = (get_sequence T)(s \<mapsto> qs @ is) \<and>
    keeps T (share_pages T s is) \<and> meta (share_pages T s is) = meta T \<and>
    next_page_id (share_pages T s is) = next_page_id T"
  using assms
proof (induction "is" arbitrary: T qs)
  case Nil
  then show ?case by (simp add: fun_upd_idem)
next
  case (Cons i "is")
  from Cons.prems(3) obtain p where p: "get_page T i = Some p" "0 < ref_count p" "ref_count p < u32_max" by auto
  let ?R = "fst (retain T i)" and ?U = "push_page (fst (retain T i)) s i"
  note r = retain_live [OF Cons.prems(1) p]
  have seqR: "get_sequence ?R = get_sequence T" "meta ?R = meta T" using seq_viewD(9) [OF r(4)] seq_view_meta [OF r(4)] by auto
  then have qsR: "get_sequence ?R s = Some qs" using Cons.prems(2) by simp
  note pv = push_page_view [OF qsR, of i]
  have "pt_inv ((ext(i := ext i + 1))(i := (ext(i := ext i + 1)) i - 1)) ?U" by (rule push_page_inv [OF r(2) qsR]) simp
  moreover have "(ext(i := ext i + 1))(i := (ext(i := ext i + 1)) i - 1) = ext" by auto
  ultimately have invU: "pt_inv ext ?U" by simp
  have "\<forall>j \<in> set is. \<exists>p. get_page ?U j = Some p \<and> 0 < ref_count p \<and> ref_count p + length is \<le> u32_max"
  proof
    fix j assume "j \<in> set is"
    with Cons.prems(3) obtain q where q: "get_page T j = Some q" "0 < ref_count q" "ref_count q + length (i # is) \<le> u32_max"
      by auto
    then show "\<exists>p. get_page ?U j = Some p \<and> 0 < ref_count p \<and> ref_count p + length is \<le> u32_max"
      using p by (auto simp: pv(4) r(6))
  qed
  with Cons.IH [OF invU, of "qs @ [i]"] pv seqR r have
    "pt_inv ext (share_pages ?U s is)" "get_sequence (share_pages ?U s is) = (get_sequence T)(s \<mapsto> qs @ i # is)"
    "keeps ?U (share_pages ?U s is)" "meta (share_pages ?U s is) = meta T"
    "next_page_id (share_pages ?U s is) = next_page_id T" by auto
  moreover have "keeps T ?U" using r(3) by (simp add: keeps_push)
  ultimately show ?case by (auto intro: keeps_trans)
qed

definition cache_inv :: "(nat \<Rightarrow> nat) \<Rightarrow> 'f PagedKvCache \<Rightarrow> bool" where
  "cache_inv ext C \<longleftrightarrow> pt_inv ext (page_table C) \<and> cache_wf (page_table C) \<and>
     (\<forall>s \<ge> next_seq_id C. get_sequence (page_table C) s = None)"

text \<open>Room in the 32-bit reference counts for \<open>n\<close> more references to any page.\<close>

definition ref_room :: "'f PageTable \<Rightarrow> nat \<Rightarrow> bool" where
  "ref_room T n \<longleftrightarrow> (\<forall>(i, p) \<in> set (pages T). ref_count p + n \<le> u32_max)"

definition forkable :: "'f PageTable \<Rightarrow> nat \<Rightarrow> nat \<Rightarrow> bool" where
  "forkable T s pos \<longleftrightarrow>
     (case (sequence_lengths T s, sequence_starts T s) of
        (Some n, Some st) \<Rightarrow> st \<le> pos \<and> pos \<le> n | _ \<Rightarrow> False)"

lemma fork_outcome:
  assumes wf: "cache_wf (page_table C)"
  shows "is_ok (snd (fork C src pos)) \<longleftrightarrow> forkable (page_table C) src pos"
    "\<not> is_ok (snd (fork C src pos)) \<Longrightarrow> fst (fork C src pos) = C"
    "sequence_lengths (page_table C) src = Some n \<Longrightarrow> sequence_starts (page_table C) src = Some st \<Longrightarrow>
     sequence_sink_lens (page_table C) src = Some k \<Longrightarrow> get_sequence (page_table C) src = Some ps \<Longrightarrow> st \<le> pos \<Longrightarrow> pos \<le> n \<Longrightarrow>
     fork C src pos =
       (C\<lparr>page_table := set_sequence_len (share_pages
             (set_sequence_sink_len (set_sequence_start (pt_create_sequence (page_table C) (next_seq_id C)) (next_seq_id C) st)
                (next_seq_id C) k)
             (next_seq_id C) (take (div_ceil (bidx k st pos) (page_size (page_table C))) ps)) (next_seq_id C) pos,
          next_seq_id := next_seq_id C + 1\<rparr>, Inr (next_seq_id C))"
proof -
  let ?T = "page_table C"
  have P: "page_size ?T > 0" and ok: "seq_ok ?T src" using wf by (simp_all add: cache_wf_def)
  show eq: "fork C src pos =
       (C\<lparr>page_table := set_sequence_len (share_pages
             (set_sequence_sink_len (set_sequence_start (pt_create_sequence (page_table C) (next_seq_id C)) (next_seq_id C) st)
                (next_seq_id C) k)
             (next_seq_id C) (take (div_ceil (bidx k st pos) (page_size (page_table C))) ps)) (next_seq_id C) pos,
          next_seq_id := next_seq_id C + 1\<rparr>, Inr (next_seq_id C))"
    if "sequence_lengths ?T src = Some n" "sequence_starts ?T src = Some st" "sequence_sink_lens ?T src = Some k"
      "get_sequence ?T src = Some ps" "st \<le> pos" "pos \<le> n" for n st k ps
  proof -
    have "buffer_index ?T src pos = Inr (bidx k st pos)" by (rule buffer_index_ok) (use that in auto)
    with that P show ?thesis
      by (simp add: fork_def validate_fork_def retained_start_def seq_len_def sink_len_def find_sequence_def
          ceil_or_panic_def create_sequence_def Let_def)
  qed
  have "is_ok (snd (fork C src pos)) = forkable ?T src pos \<and> (\<not> is_ok (snd (fork C src pos)) \<longrightarrow> fst (fork C src pos) = C)"
    using ok
  proof (cases rule: seq_ok_cases)
    case absent
    then show ?thesis by (simp add: fork_def validate_fork_def retained_start_def forkable_def Let_def)
  next
    case (present ps n st k)
    then show ?thesis using eq [OF present(2-4,1)]
      by (cases "st \<le> pos \<and> pos \<le> n")
        (auto simp: forkable_def fork_def validate_fork_def retained_start_def seq_len_def Let_def)
  qed
  then show "is_ok (snd (fork C src pos)) \<longleftrightarrow> forkable ?T src pos"
    "\<not> is_ok (snd (fork C src pos)) \<Longrightarrow> fst (fork C src pos) = C" by simp_all
qed

lemma fork_state:
  assumes inv: "cache_inv ext C" and room: "ref_room (page_table C) (length ps)"
    and nsk: "sequence_lengths (page_table C) src = Some n" "sequence_starts (page_table C) src = Some st"
      "sequence_sink_lens (page_table C) src = Some k" "get_sequence (page_table C) src = Some ps" "st \<le> pos" "pos \<le> n"
    and U: "U = page_table (fst (fork C src pos))" and new: "new = next_seq_id C"
  shows "cache_inv ext (fst (fork C src pos))" "sequence_lengths U = (sequence_lengths (page_table C))(new \<mapsto> pos)"
    "\<And>s' pos' l kd h x. s' \<noteq> new \<Longrightarrow> token_value F U s' l kd h pos' x = token_value F (page_table C) s' l kd h pos' x"
    "\<And>pos' l kd h x. pos' < pos \<Longrightarrow> token_value F U new l kd h pos' x = token_value F (page_table C) src l kd h pos' x"
    "next_page_id U = next_page_id (page_table C)" "geometry U = geometry (page_table C)"
proof -
  let ?T = "page_table C"
  have pt: "pt_inv ext ?T" and wf: "cache_wf ?T" and fresh: "get_sequence ?T new = None"
    using inv by (auto simp: cache_inv_def new)
  have P: "page_size ?T > 0" and ok: "\<And>s. seq_ok ?T s" using wf by (simp_all add: cache_wf_def)
  let ?m = "div_ceil (bidx k st pos) (page_size ?T)"
  let ?T1 = "set_sequence_sink_len (set_sequence_start (pt_create_sequence ?T new) new st) new k"
  let ?S = "share_pages ?T1 new (take ?m ps)"
  note eq = fork_outcome(3) [OF wf nsk, folded new]
  have T1: "pt_inv ext ?T1" "get_sequence ?T1 = (get_sequence ?T)(new \<mapsto> [])" "get_page ?T1 = get_page ?T"
    "page_size ?T1 = page_size ?T" "layer_configs ?T1 = layer_configs ?T" "next_page_id ?T1 = next_page_id ?T"
    "sequence_lengths ?T1 = (sequence_lengths ?T)(new \<mapsto> 0)" "sequence_starts ?T1 = (sequence_starts ?T)(new \<mapsto> st)"
    "sequence_sink_lens ?T1 = (sequence_sink_lens ?T)(new \<mapsto> k)"
    using create_sequence_inv [OF pt fresh]
    by (simp_all add: pt_create_sequence_def set_sequence_start_def set_sequence_sink_len_def get_sequence_def get_page_def fun_eq_iff)
  have fit: "st \<le> n" "k + (n - st) \<le> length ps * page_size ?T" "k \<le> st" "page_size ?T dvd k" "page_size ?T dvd st"
    using ok [of src] nsk by (auto simp: seq_ok_def)
  have rp: "bidx k st pos = k + (pos - st)" using nsk fit by (auto simp: bidx_def)
  have len: "length (take ?m ps) = ?m" using fit nsk P by (simp add: rp div_ceil_le_iff)
  have room': "\<forall>i \<in> set (take ?m ps). \<exists>p. get_page ?T1 i = Some p \<and> 0 < ref_count p \<and> ref_count p + length (take ?m ps) \<le> u32_max"
  proof
    fix i assume "i \<in> set (take ?m ps)"
    then have "i \<in> set ps" by (rule in_set_takeD)
    from sequence_page_live [OF pt nsk(4) this] obtain p where p: "get_page ?T i = Some p" "ref_count p > 0" by blast
    with room have "ref_count p + length ps \<le> u32_max" using pages_iff [OF pt, of i p] by (auto simp: ref_room_def)
    with p T1(3) show "\<exists>p. get_page ?T1 i = Some p \<and> 0 < ref_count p \<and> ref_count p + length (take ?m ps) \<le> u32_max" by auto
  qed
  have sh: "pt_inv ext ?S" "get_sequence ?S = (get_sequence ?T)(new \<mapsto> take ?m ps)" "keeps ?T1 ?S" "meta ?S = meta ?T1"
    "next_page_id ?S = next_page_id ?T"
    using share_pages_inv [OF T1(1) _ room', of new "[]"] T1(2,6) by simp_all
  note ms = metaD [OF sh(4)]
  have Ueq: "U = set_sequence_len ?S new pos" using U eq by simp
  have Uf: "sequence_lengths U = (sequence_lengths ?T)(new \<mapsto> pos)" "sequence_starts U = (sequence_starts ?T)(new \<mapsto> st)"
    "sequence_sink_lens U = (sequence_sink_lens ?T)(new \<mapsto> k)" "page_size U = page_size ?T" "layer_configs U = layer_configs ?T"
    "get_sequence U = (get_sequence ?T)(new \<mapsto> take ?m ps)" "pt_inv ext U" "page_content U = page_content ?S"
    "next_page_id U = next_page_id ?T"
    using ms T1 sh by (simp_all add: Ueq set_sequence_len_def)
  show "sequence_lengths U = (sequence_lengths ?T)(new \<mapsto> pos)" "next_page_id U = next_page_id ?T" by (fact Uf)+
  have "geometry ?T1 = geometry ?T"
    by (simp add: geometry_def pt_create_sequence_def set_sequence_start_def set_sequence_sink_len_def)
  then show "geometry U = geometry ?T" using ms by (simp add: geometry_def Ueq set_sequence_len_def)
  have "cache_wf U"
    by (rule trimmed_wf [OF wf Uf(4,1-3,6)]) (use fit nsk len div_ceil_mult_ge [OF P, of "bidx k st pos"] in \<open>simp_all add: rp\<close>)
  with Uf(6,7) inv eq show "cache_inv ext (fst (fork C src pos))" by (simp add: cache_inv_def new U)
  have live: "\<exists>p. get_page ?T i = Some p \<and> map_option content (get_page ?S i) = Some (content p)"
    if "get_sequence ?T s' = Some qs" "i \<in> set qs" for s' qs i
  proof -
    from sequence_page_live [OF pt that] obtain p where "get_page ?T i = Some p" "ref_count p > 0" by blast
    with sh(3) T1(3) show ?thesis by (auto simp: keeps_def)
  qed
  have old: "page_content U s' k' = page_content ?T s' k'" if "s' \<noteq> new" for s' k'
  proof (cases "get_sequence ?T s'")
    case None
    then show ?thesis using that by (simp add: Uf(8) page_content_def sh(2))
  next
    case (Some qs)
    then show ?thesis
      using that live [OF Some nth_mem, of k'] by (cases "k' < length qs") (auto simp: Uf(8) page_content_def sh(2))
  qed
  have child: "page_content U new k' = page_content ?T src k'" if "k' < ?m" for k'
  proof -
    have "k' < length ps" "k' < length (take ?m ps)" using that len by simp_all
    moreover from live [OF nsk(4) nth_mem [OF this(1)]] obtain p where "get_page ?T (ps ! k') = Some p"
      "map_option content (get_page ?S (ps ! k')) = Some (content p)" by blast
    ultimately show ?thesis using that nsk(4) by (simp add: Uf(8) page_content_def sh(2))
  qed
  show "token_value F U s' l kd h pos' x = token_value F ?T s' l kd h pos' x" if "s' \<noteq> new" for s' pos' l kd h x
    using that Uf old by (intro token_value_other_sequence) auto
  show "token_value F U new l kd h pos' x = token_value F ?T src l kd h pos' x" if "pos' < pos" for pos' l kd h x
  proof (cases "pos' < k \<or> st \<le> pos'")
    case True
    have "slot_of ?T src pos' = Some (bidx k st pos')" "slot_of U new pos' = Some (bidx k st pos')"
      using True that nsk Uf by (auto simp: slot_of_def)
    moreover have "bidx k st pos' < bidx k st pos" using True that nsk fit by (auto simp: bidx_def)
    then have "bidx k st pos' div page_size ?T < ?m"
      using div_ceil_mult_ge [OF P, of "bidx k st pos"] P by (simp add: div_less_iff_less_mult)
    ultimately show ?thesis using child Uf by (intro token_value_moved) auto
  next
    case False
    with that nsk Uf show ?thesis by (auto simp: token_value_def slot_of_def)
  qed
qed

text \<open>
  C13. A fork succeeds exactly for positions of the retained window of a known sequence,
  and a refused one changes nothing. A successful fork returns an unused sequence id, and
  the child ends at the position and reads back, below it, exactly the tokens of its
  source, while every token of every existing sequence keeps its value; ownership of the
  shared pages and the geometry of the cache are kept.
\<close>

theorem fork_shares_the_prefix:
  assumes inv: "cache_inv ext C"
    and room: "\<And>ps. get_sequence (page_table C) src = Some ps \<Longrightarrow> ref_room (page_table C) (length ps)"
  shows "(is_ok (snd (fork C src pos)) \<longleftrightarrow> forkable (page_table C) src pos) \<and>
    (case fork C src pos of
       (C', Inl e) \<Rightarrow> C' = C
     | (C', Inr child) \<Rightarrow>
         get_sequence (page_table C) child = None \<and> cache_inv ext C' \<and>
         sequence_lengths (page_table C') = (sequence_lengths (page_table C))(child \<mapsto> pos) \<and>
         (\<forall>s' pos' l kd h x. s' \<noteq> child \<longrightarrow>
            token_value F (page_table C') s' l kd h pos' x = token_value F (page_table C) s' l kd h pos' x) \<and>
         (\<forall>pos' l kd h x. pos' < pos \<longrightarrow>
            token_value F (page_table C') child l kd h pos' x = token_value F (page_table C) src l kd h pos' x))"
proof (cases "forkable (page_table C) src pos")
  case False
  have wf: "cache_wf (page_table C)" using inv by (simp add: cache_inv_def)
  from False fork_outcome(1,2) [OF wf, of src pos] show ?thesis
    by (cases "fork C src pos"; cases "snd (fork C src pos)") auto
next
  case True
  have wf: "cache_wf (page_table C)" and fresh: "get_sequence (page_table C) (next_seq_id C) = None"
    using inv by (simp_all add: cache_inv_def)
  have "seq_ok (page_table C) src" using wf by (simp add: cache_wf_def)
  then obtain ps n st k where nsk: "sequence_lengths (page_table C) src = Some n" "sequence_starts (page_table C) src = Some st"
      "sequence_sink_lens (page_table C) src = Some k" "get_sequence (page_table C) src = Some ps" "st \<le> pos" "pos \<le> n"
    using True by (cases rule: seq_ok_cases) (auto simp: forkable_def)
  note st = fork_state [OF inv room [OF nsk(4)] nsk refl refl]
  have eq: "fork C src pos = (fst (fork C src pos), Inr (next_seq_id C))" using fork_outcome(3) [OF wf nsk] by simp
  show ?thesis
    by (subst (2) eq) (use True fork_outcome(1) [OF wf] st(1-4) fresh in \<open>simp only: prod.case sum.case; blast\<close>)
qed

definition demo_cache :: "int PagedKvCache" where
  "demo_cache = \<lparr>page_table = fst (write_token_kv int_ops demo_table 0 0 demo_token), next_seq_id = 1\<rparr>"

lemma demo_cache_step: "cache_step 1 (\<lambda>_. 0) demo_table (page_table demo_cache)"
proof -
  have ok: "next_page_id demo_table = 3" "quant_config demo_table = Some example_quant" "layer_configs demo_table \<noteq> []"
    by code_simp+
  show ?thesis
    using write_token_state [OF demo_table_ok _ ok(2,3), of int_ops 0 0 demo_token "page_table demo_cache"
      "snd (write_token_kv int_ops demo_table 0 0 demo_token)"] ok(1)
    by (simp add: demo_cache_def u32_max_def)
qed

lemma demo_cache_ok: "cache_inv (\<lambda>_. 0) demo_cache"
proof -
  have "get_sequence demo_table s = None" if "s \<ge> 1" for s
    using that by (simp add: demo_table_def pt_create_sequence_def pt_build_def get_sequence_def)
  with demo_cache_step show ?thesis by (auto simp: cache_inv_def cache_step_def demo_cache_def)
qed

theorem fork_shares_the_prefix_witness:
  "is_ok (snd (fork demo_cache 0 1)) \<and> \<not> is_ok (snd (fork demo_cache 0 2)) \<and>
   token_value int_ops (page_table (fst (fork demo_cache 0 1))) 1 0 Value 1 0 2 = Some 6"
proof -
  have ev: "forkable (page_table demo_cache) 0 1" "\<not> forkable (page_table demo_cache) 0 2"
    "ref_room (page_table demo_cache) 1" "map_option length (get_sequence (page_table demo_cache) 0) = Some 1"
    "token_value int_ops (page_table demo_cache) 0 0 Value 1 0 2 = Some 6" "snd (fork demo_cache 0 1) = Inr 1"
    by code_simp+
  have room: "ref_room (page_table demo_cache) (length ps)" if "get_sequence (page_table demo_cache) 0 = Some ps" for ps
    using that ev by simp
  from fork_shares_the_prefix [where src = 0 and pos = 1 and F = int_ops, OF demo_cache_ok room]
    fork_shares_the_prefix [where src = 0 and pos = 2 and F = int_ops, OF demo_cache_ok room] ev
  show ?thesis by (cases "fork demo_cache 0 1") simp
qed

end
