(* ===== verification/CacheWindow.thy ===== *)
theory CacheWindow
  imports CacheOps
begin

text \<open>
  Sliding windows with and without attention sinks (\<open>apply_sliding_window\<close>,
  \<open>apply_sliding_window_with_sinks\<close>): which pages go, which tokens stay, and the bound on what
  remains.
\<close>

section \<open>Dropping pages behind the sinks\<close>

lemma count_list_cut:
  "count_list (take a ps @ drop (a + e) ps) i + count_list (take e (drop a ps)) i = count_list ps i"
proof -
  have "drop a ps = take e (drop a ps) @ drop (a + e) ps" by (metis append_take_drop_id drop_drop add.commute)
  then have "count_list (drop a ps) i = count_list (take e (drop a ps)) i + count_list (drop (a + e) ps) i"
    by (metis count_list_append)
  with count_list_take_drop [of a ps i] show ?thesis by (simp add: count_list_append)
qed

lemma cut_nth:
  assumes "a + e \<le> length ps"
  shows "length (take a ps @ drop (a + e) ps) = length ps - e"
    "j < a \<Longrightarrow> (take a ps @ drop (a + e) ps) ! j = ps ! j"
    "a \<le> j \<Longrightarrow> j < length ps - e \<Longrightarrow> (take a ps @ drop (a + e) ps) ! j = ps ! (j + e)"
  using assms by (auto simp: nth_append ac_simps)

text \<open>
  The sequence \<open>s\<close> is laid out as \<open>a\<close> sink pages followed by the window from \<open>cur\<close> (\<open>view\<close>), and
  gives up \<open>e\<close> pages of the window.
\<close>

definition window_cut ::
  "'f f32_ops \<Rightarrow> (nat \<Rightarrow> nat) \<Rightarrow> 'f PageTable \<Rightarrow> nat \<Rightarrow> nat \<Rightarrow> nat \<Rightarrow> nat \<Rightarrow> nat \<Rightarrow> nat \<Rightarrow> nat \<Rightarrow> nat list \<Rightarrow> 'f PageTable \<Rightarrow> bool" where
  "window_cut F ext T s n st k a cur e ps U \<longleftrightarrow>
     pt_inv ext T \<and> cache_wf T \<and>
     sequence_lengths T s = Some n \<and> sequence_starts T s = Some st \<and> sequence_sink_lens T s = Some k \<and>
     get_sequence T s = Some ps \<and>
     a * page_size T \<le> cur \<and> page_size T dvd cur \<and> a * page_size T + (n - cur) \<le> length ps * page_size T \<and>
     cur + e * page_size T \<le> n \<and>
     (\<forall>pos. (pos < a * page_size T \<or> cur \<le> pos) \<and> pos < n \<longrightarrow>
        (pos < k \<or> st \<le> pos) \<and> bidx k st pos = bidx (a * page_size T) cur pos) \<and>
     U = set_sequence_start (set_sequence_sink_len
        (free_all F (set_sequence_pages T s (take a ps @ drop (a + e) ps)) (take e (drop a ps))) s (a * page_size T)) s
        (cur + e * page_size T)"

lemma cut_room: "window_cut F ext T s n st k a cur e ps U \<Longrightarrow> a + e \<le> length ps"
proof -
  assume w: "window_cut F ext T s n st k a cur e ps U"
  have "a * page_size T + (n - cur) \<le> length ps * page_size T" "cur + e * page_size T \<le> n"
    using w unfolding window_cut_def by blast+
  then have "(a + e) * page_size T \<le> length ps * page_size T" by (simp add: add_mult_distrib)
  moreover have "page_size T > 0" using w by (simp add: window_cut_def cache_wf_def)
  ultimately show ?thesis by simp
qed

lemma cut_fields:
  assumes "window_cut F ext T s n st k a cur e ps U"
  shows "sequence_lengths U = sequence_lengths T" "sequence_starts U = (sequence_starts T)(s \<mapsto> cur + e * page_size T)"
    "sequence_sink_lens U = (sequence_sink_lens T)(s \<mapsto> a * page_size T)" "geometry U = geometry T"
    "get_sequence U = (get_sequence T)(s \<mapsto> take a ps @ drop (a + e) ps)" "pt_inv ext U" "next_page_id U = next_page_id T"
    "\<And>s' j. s' \<noteq> s \<Longrightarrow> page_content U s' j = page_content T s' j"
    "\<And>j. j < a \<Longrightarrow> page_content U s j = page_content T s j"
    "\<And>j. a \<le> j \<Longrightarrow> j + e < length ps \<Longrightarrow> page_content U s j = page_content T s (j + e)"
proof -
  let ?V = "free_all F (set_sequence_pages T s (take a ps @ drop (a + e) ps)) (take e (drop a ps))"
  have w: "pt_inv ext T" "get_sequence T s = Some ps" "sequence_starts T s = Some st" "sequence_sink_lens T s = Some k"
    and U: "U = set_sequence_start (set_sequence_sink_len ?V s (a * page_size T)) s (cur + e * page_size T)"
    using assms by (simp_all add: window_cut_def)
  note room = cut_room [OF assms]
  note d = drop_pages [OF w(1,2), where F = F, OF count_list_cut [of a ps e] refl]
  show "sequence_lengths U = sequence_lengths T" "sequence_starts U = (sequence_starts T)(s \<mapsto> cur + e * page_size T)"
    "sequence_sink_lens U = (sequence_sink_lens T)(s \<mapsto> a * page_size T)" "geometry U = geometry T"
    "get_sequence U = (get_sequence T)(s \<mapsto> take a ps @ drop (a + e) ps)" "pt_inv ext U" "next_page_id U = next_page_id T"
    using metaD [OF d(2)] d(1,3,4) w(3,4)
    by (simp_all add: U geometry_def set_sequence_start_def set_sequence_sink_len_def)
  have eq: "page_content U = page_content ?V" by (simp add: U)
  show "s' \<noteq> s \<Longrightarrow> page_content U s' j = page_content T s' j" for s' j unfolding eq by (rule d(5))
  show "page_content U s j = page_content T s j" if "j < a" for j
    unfolding eq by (rule d(6)) (use that room in \<open>simp_all add: nth_append\<close>)
  show "page_content U s j = page_content T s (j + e)" if "a \<le> j" "j + e < length ps" for j
    unfolding eq by (rule d(6)) (use that room in \<open>simp_all add: nth_append ac_simps\<close>)
qed

lemma cut_step:
  assumes w: "window_cut F ext T s n st k a cur e ps U"
  shows "cache_step 0 ext T U"
proof -
  note f = cut_fields [OF w]
  have wf: "cache_wf T" and cur: "a * page_size T \<le> cur" "page_size T dvd cur" "cur + e * page_size T \<le> n"
      "a * page_size T + (n - cur) \<le> length ps * page_size T"
    and seq: "sequence_lengths T s = Some n" "get_sequence T s = Some ps"
    using w unfolding window_cut_def by blast+
  have "cache_wf U"
  proof (rule trimmed_wf [OF wf _ _ f(2,3,5)])
    show "a * page_size T + (n - (cur + e * page_size T)) \<le> length (take a ps @ drop (a + e) ps) * page_size T"
      using cur cut_room [OF w] cut_nth(1) [OF cut_room [OF w]] by (simp add: diff_mult_distrib)
  qed (use f cur seq in \<open>auto simp: geometry_def fun_upd_idem\<close>)
  with f seq show ?thesis by (simp add: cache_step_def)
qed

text \<open>Sinks and window keep their values, the tokens in between are gone, other sequences are untouched.\<close>

lemma cut_tokens:
  assumes w: "window_cut F ext T s n st k a cur e ps U"
  shows "s' \<noteq> s \<Longrightarrow> token_value F' U s' l kd h pos x = token_value F' T s' l kd h pos x"
    "a * page_size T \<le> pos \<Longrightarrow> pos < cur + e * page_size T \<Longrightarrow> token_value F' U s l kd h pos x = None"
    "pos < a * page_size T \<or> cur + e * page_size T \<le> pos \<Longrightarrow>
       token_value F' U s l kd h pos x = token_value F' T s l kd h pos x"
proof -
  note f = cut_fields [OF w]
  let ?P = "page_size T"
  have P: "?P > 0" and nsk: "sequence_lengths T s = Some n" "sequence_starts T s = Some st" "sequence_sink_lens T s = Some k"
    and fit: "a * ?P + (n - cur) \<le> length ps * ?P" "cur + e * ?P \<le> n"
    and view: "\<And>pos. pos < a * ?P \<or> cur \<le> pos \<Longrightarrow> pos < n \<Longrightarrow>
        (pos < k \<or> st \<le> pos) \<and> bidx k st pos = bidx (a * ?P) cur pos"
    using w unfolding window_cut_def cache_wf_def by blast+
  show "s' \<noteq> s \<Longrightarrow> token_value F' U s' l kd h pos x = token_value F' T s' l kd h pos x"
    using f(1-4,8) by (intro token_value_other_sequence) (auto simp: geometry_def)
  show "a * ?P \<le> pos \<Longrightarrow> pos < cur + e * ?P \<Longrightarrow> token_value F' U s l kd h pos x = None"
    using f(1-3) nsk by (simp add: token_value_def slot_of_def)
  assume p: "pos < a * ?P \<or> cur + e * ?P \<le> pos"
  show "token_value F' U s l kd h pos x = token_value F' T s l kd h pos x"
  proof (cases "pos < n")
    case False
    with f(1-3) nsk show ?thesis by (simp add: token_value_def slot_of_def)
  next
    case True
    let ?b = "bidx (a * ?P) cur pos" and ?b' = "bidx (a * ?P) (cur + e * ?P) pos"
    have T: "slot_of T s pos = Some ?b" using view [of pos] p True nsk by (auto simp: slot_of_def)
    have UU: "slot_of U s pos = Some ?b'" using p True nsk f(1-3) by (auto simp: slot_of_def)
    have "?b' mod ?P = ?b mod ?P \<and> page_content U s (?b' div ?P) = page_content T s (?b div ?P)"
    proof (cases "pos < a * ?P")
      case True
      then have "pos div ?P < a" by (rule less_mult_imp_div_less)
      with True show ?thesis using f(9) by (simp add: bidx_def)
    next
      case False
      with p have b: "?b = ?b' + e * ?P" "a * ?P \<le> ?b'" using True by (auto simp: bidx_def)
      have "?b < length ps * ?P" using False p fit True by (auto simp: bidx_def)
      then have "?b div ?P < length ps" by (rule less_mult_imp_div_less)
      moreover have "a \<le> ?b' div ?P" "?b div ?P = ?b' div ?P + e"
        using b P by (simp_all add: less_eq_div_iff_mult_less_eq)
      ultimately show ?thesis using b f(10) [of "?b' div ?P"] by simp
    qed
    with T UU f(4) show ?thesis by (intro token_value_moved [OF UU T]) (auto simp: geometry_def)
  qed
qed

section \<open>The two operations\<close>

lemma set_same:
  "get_sequence T s = Some ps \<Longrightarrow> set_sequence_pages T s ps = T"
  "sequence_starts T s = Some a \<Longrightarrow> set_sequence_start T s a = T"
  "sequence_sink_lens T s = Some b \<Longrightarrow> set_sequence_sink_len T s b = T"
proof -
  have "AList.update s ps al = al" if "map_of al s = Some ps" for al
    using that by (induction al) (auto split: if_splits)
  then show "get_sequence T s = Some ps \<Longrightarrow> set_sequence_pages T s ps = T"
    by (simp add: set_sequence_pages_def get_sequence_def)
qed (simp_all add: set_sequence_start_def set_sequence_sink_len_def fun_upd_idem)

text \<open>
  The pinned prefix of \<open>sink_tokens\<close>, in tokens, and the states the window operation may be called
  in: the prefix is pinned already, or nothing was dropped yet.
\<close>

definition sink_target :: "'f PageTable \<Rightarrow> nat \<Rightarrow> nat" where
  "sink_target T sink_tokens = div_ceil sink_tokens (page_size T) * page_size T"

definition window_layout :: "'f PageTable \<Rightarrow> nat \<Rightarrow> nat \<Rightarrow> bool" where
  "window_layout T s sink_tokens \<longleftrightarrow>
     (case (sequence_starts T s, sequence_sink_lens T s) of
        (Some st, Some k) \<Rightarrow> k = sink_target T sink_tokens \<or> st = 0 \<and> k = 0
      | _ \<Rightarrow> False)"

lemma plain_window_cut:
  assumes inv: "pt_inv ext T" "cache_wf T"
    and seq: "sequence_lengths T s = Some n" "sequence_starts T s = Some st" "sequence_sink_lens T s = Some 0"
      "get_sequence T s = Some ps" and w: "w > 0" and e: "e = (n - w - st) div page_size T"
  shows "\<exists>U. apply_sliding_window F T s w = (U, Inr e) \<and> window_cut F ext T s n st 0 0 st e ps U"
proof -
  let ?P = "page_size T"
  let ?V = "free_all F (set_sequence_pages T s (drop e ps)) (take e ps)"
  have P: "?P > 0" and fit: "st \<le> n" "n - st \<le> length ps * ?P" "?P dvd st"
    using inv(2) seq by (auto simp: cache_wf_def seq_ok_def dest!: spec [of _ s])
  have eP: "e * ?P \<le> n - w - st" unfolding e by simp
  then have ok: "st + e * ?P \<le> n" using fit by linarith
  have "e * ?P \<le> length ps * ?P" using eP fit by linarith
  then have len: "e \<le> length ps" using P by simp
  note d = drop_pages [OF inv(1) seq(4), where F = F and qs = "drop e ps" and rs = "take e ps", OF _ refl]
  have "count_list (drop e ps) i + count_list (take e ps) i = count_list ps i" for i
    using count_list_take_drop [of e ps i] by simp
  from d(2) [OF this] seq(3) have k0: "sequence_sink_lens ?V s = Some 0" by (auto dest: metaD)
  have cut: "window_cut F ext T s n st 0 0 st e ps (set_sequence_start ?V s (st + e * ?P))"
    using inv seq fit ok set_same(3) [OF k0] by (auto simp: window_cut_def bidx_def)
  moreover have "e = 0 \<Longrightarrow> set_sequence_start ?V s (st + e * ?P) = T"
    using set_same(1) [OF seq(4)] set_same(2) [OF seq(2)] by simp
  moreover have "apply_sliding_window F T s w = (if e = 0 then (T, Inr 0) else (set_sequence_start ?V s (st + e * ?P), Inr e))"
    using w P seq len
    by (simp add: apply_sliding_window_def retained_start_def seq_len_def find_sequence_def Let_def e [simplified diff_diff_left, symmetric] min_absorb1)
  ultimately show ?thesis by (cases "e = 0") auto
qed

lemma sink_window_cut:
  assumes inv: "pt_inv ext T" "cache_wf T"
    and seq: "sequence_lengths T s = Some n" "sequence_starts T s = Some st" "sequence_sink_lens T s = Some k"
      "get_sequence T s = Some ps" and w: "w > 0" and sinks: "sink_tokens > 0" and lay: "window_layout T s sink_tokens"
    and gap: "sink_target T sink_tokens < n - w" and a: "a = div_ceil sink_tokens (page_size T)"
    and cur: "cur = (if k > 0 then st else sink_target T sink_tokens)"
    and e: "e = (n - w) div page_size T - cur div page_size T"
  shows "\<exists>U. apply_sliding_window_with_sinks F T s w sink_tokens = (U, Inr e) \<and> window_cut F ext T s n st k a cur e ps U"
proof -
  let ?P = "page_size T"
  let ?V = "free_all F (set_sequence_pages T s (take a ps @ drop (a + e) ps)) (take e (drop a ps))"
  let ?U = "set_sequence_start (set_sequence_sink_len ?V s (a * ?P)) s (cur + e * ?P)"
  have P: "?P > 0" and fit: "st \<le> n" "k + (n - st) \<le> length ps * ?P" "k \<le> st" "?P dvd k" "?P dvd st"
    using inv(2) seq by (auto simp: cache_wf_def seq_ok_def dest!: spec [of _ s])
  have tgt: "sink_target T sink_tokens = a * ?P" by (simp add: sink_target_def a)
  have a0: "a > 0" using sinks P by (auto simp: a div_ceil_def div_greater_zero_iff dvd_imp_le mod_0_imp_dvd)
  from lay seq have lay': "k = a * ?P \<or> st = 0 \<and> k = 0" by (simp add: window_layout_def tgt)
  have dvd: "?P dvd cur" using fit by (simp add: cur tgt)
  then obtain c where c: "cur = c * ?P" by (metis dvd_def mult.commute)
  have e': "e = ((n - w) div ?P * ?P - cur) div ?P"
    using P by (simp add: e c diff_mult_distrib [symmetric])
  have "cur \<le> n" "a * ?P \<le> cur" and room: "a * ?P + (n - cur) \<le> length ps * ?P"
    and view: "\<And>pos. pos < a * ?P \<or> cur \<le> pos \<Longrightarrow> (pos < k \<or> st \<le> pos) \<and> bidx k st pos = bidx (a * ?P) cur pos"
    using lay' fit gap a0 P by (auto simp: cur tgt bidx_def)
  moreover have "e * ?P = (n - w) div ?P * ?P - cur" using P by (simp add: e c diff_mult_distrib)
  then have eP: "e * ?P \<le> n - w - cur" using div_times_less_eq_dividend [of "n - w" ?P] by linarith
  moreover have le: "cur + e * ?P \<le> n" using eP \<open>cur \<le> n\<close> by linarith
  ultimately have cut: "window_cut F ext T s n st k a cur e ps ?U"
    using inv seq dvd by (simp add: window_cut_def)
  have same: "e = 0 \<Longrightarrow> ?V = T" using set_same(1) [OF seq(4)] by simp
  have run: "ceil_or_panic sink_tokens ?P = Inr a" "seq_len T s = Inr n" "sink_len T s = Inr k" "find_sequence T s = Inr ps"
    "\<not> n - w \<le> a * ?P" "(if 0 < k then retained_start T s else Inr (a * ?P)) = Inr cur" "w \<noteq> 0" "sink_tokens \<noteq> 0"
    using P seq gap w sinks
    by (simp_all add: ceil_or_panic_def a seq_len_def sink_len_def find_sequence_def retained_start_def cur sink_target_def)
  have "apply_sliding_window_with_sinks F T s w sink_tokens = (?U, Inr e)"
  proof (cases "(n - w) div ?P * ?P \<le> cur")
    case True
    then have "e = 0" using e' by simp
    with same True show ?thesis by (simp add: apply_sliding_window_with_sinks_def run Let_def)
  next
    case False
    with div_times_less_eq_dividend [of "n - w" ?P] have "cur < n - w" by linarith
    then have "a * ?P + e * ?P < length ps * ?P" using eP w room by linarith
    then have "a + e < length ps" by (simp add: add_mult_distrib [symmetric])
    with False show ?thesis
      by (simp add: apply_sliding_window_with_sinks_def run Let_def e' [symmetric] min_absorb1)
  qed
  with cut show ?thesis by blast
qed

lemma diff_mult_div: "(P::nat) > 0 \<Longrightarrow> (a - c * P) div P = a div P - c"
proof (cases "c * P \<le> a")
  case True
  then obtain d where "a = d + c * P" by (metis le_add_diff_inverse2)
  then show "P > 0 \<Longrightarrow> ?thesis" by simp
next
  case False
  then have "a div P < c" by (simp add: less_mult_imp_div_less)
  with False show "P > 0 \<Longrightarrow> ?thesis" by simp
qed

lemma window_outcome:
  assumes inv: "pt_inv ext T" "cache_wf T"
    and seq: "sequence_lengths T s = Some n" "sequence_starts T s = Some st" "sequence_sink_lens T s = Some k"
      "get_sequence T s = Some ps" and w: "w > 0" and lay: "window_layout T s sink_tokens"
  obtains (unchanged) "apply_sliding_window_with_sinks F T s w sink_tokens = (T, Inr 0)" "n - w \<le> sink_target T sink_tokens"
  | (cut) U e a cur where "apply_sliding_window_with_sinks F T s w sink_tokens = (U, Inr e)"
      "window_cut F ext T s n st k a cur e ps U" "a * page_size T = sink_target T sink_tokens"
      "k = sink_target T sink_tokens \<and> cur = st \<and> e = 0 \<or> cur + e * page_size T \<le> n - w" "n - (cur + e * page_size T) < w + page_size T"
proof -
  let ?P = "page_size T" and ?t = "sink_target T sink_tokens"
  have P: "?P > 0" and dvd: "?P dvd st" using inv(2) seq by (auto simp: cache_wf_def seq_ok_def dest!: spec [of _ s])
  have rest: "n - (cur + e * ?P) < w + ?P" if "?P dvd cur" "e = (n - w) div ?P - cur div ?P" for cur e
  proof -
    from that(1) obtain c where c: "cur = c * ?P" by (metis dvd_def mult.commute)
    then have "cur + e * ?P = max c ((n - w) div ?P) * ?P" using that(2) P by (simp add: algebra_simps diff_mult_distrib max_def)
    moreover have "n - w < (n - w) div ?P * ?P + ?P" using P dividend_less_div_times by (metis add.commute)
    moreover have "(n - w) div ?P * ?P \<le> max c ((n - w) div ?P) * ?P" by (simp add: mult_le_mono1)
    ultimately show ?thesis using P by linarith
  qed
  have stop: "e = 0 \<or> cur + e * ?P \<le> n - w" if "?P dvd cur" "e = (n - w) div ?P - cur div ?P" for cur e
  proof -
    from that have "e * ?P = (n - w) div ?P * ?P - cur" by (auto simp: diff_mult_distrib)
    moreover have "e = 0 \<or> 0 < e * ?P" using P by (cases e) simp_all
    ultimately show ?thesis using div_times_less_eq_dividend [of "n - w" ?P] by linarith
  qed
  consider (plain) "sink_tokens = 0" | (near) "sink_tokens > 0" "n - w \<le> ?t" | (gap) "sink_tokens > 0" "?t < n - w" by linarith
  then show thesis
  proof cases
    case plain
    then have k: "?t = 0" "k = 0" using lay seq P by (auto simp: window_layout_def sink_target_def)
    obtain c where c: "st = c * ?P" using dvd by (metis dvd_def mult.commute)
    have e: "(n - w - st) div ?P = (n - w) div ?P - st div ?P" using diff_mult_div [OF P, of "n - w" c] P by (simp add: c)
    from plain_window_cut [OF inv seq(1,2) _ seq(4) w refl, of F] k seq obtain U where
      "apply_sliding_window F T s w = (U, Inr ((n - w - st) div ?P))" "window_cut F ext T s n st 0 0 st ((n - w - st) div ?P) ps U" by blast
    with cut [of U _ 0 st] k plain rest [OF dvd e] stop [OF dvd e] w show thesis by (simp add: apply_sliding_window_with_sinks_def)
  next
    case near
    then show thesis using unchanged w P seq
      by (simp add: apply_sliding_window_with_sinks_def ceil_or_panic_def seq_len_def Let_def sink_target_def)
  next
    case gap
    define cur where "cur = (if k > 0 then st else ?t)"
    have dvd': "?P dvd cur" using dvd by (simp add: cur_def sink_target_def)
    from sink_window_cut [OF inv seq w gap(1) lay gap(2) refl cur_def refl, of F] obtain U where
      U: "apply_sliding_window_with_sinks F T s w sink_tokens = (U, Inr ((n - w) div ?P - cur div ?P))"
        "window_cut F ext T s n st k (div_ceil sink_tokens ?P) cur ((n - w) div ?P - cur div ?P) ps U" by blast
    have "k = ?t \<and> cur = st \<and> (n - w) div ?P - cur div ?P = 0 \<or> cur + ((n - w) div ?P - cur div ?P) * ?P \<le> n - w"
      using lay seq gap stop [OF dvd' refl] by (auto simp: window_layout_def cur_def)
    with cut [OF U] rest [OF dvd' refl] show thesis by (simp add: sink_target_def)
  qed
qed



end
