(* ===== verification/CacheReach.thy ===== *)
theory CacheReach
  imports CacheWindow
begin

text \<open>
  The remaining operations (tiering, appends, removals) and the cache as a state machine:
  every cache reachable by the public operations, in any order and whether or not they
  fail, owns its pages exactly and has a consistent geometry.
\<close>

section \<open>Tiering changes no token\<close>

lemma evict_times_inv: "evict_times T n k = (U, m) \<Longrightarrow> pt_inv ext T \<Longrightarrow> pt_inv ext U"
proof (induction T n k rule: evict_times.induct)
  case (2 T n k)
  obtain T1 r1 where e: "evict_lru_hot T None = (T1, r1)" by (cases "evict_lru_hot T None")
  with 2 evict_lru_hot_inv [OF e 2(3)] show ?case by (auto split: sum.splits)
qed simp

lemma evict_quiet: "pt_inv ext T \<Longrightarrow> evict T policy target = (U, m) \<Longrightarrow> quiet 0 ext T U"
  unfolding evict_def by (rule tier_quiet [OF _ evict_times_inv evict_times_tier])

lemma promote_all_inv:
  "promote_all T is n = (U, r) \<Longrightarrow> pt_inv ext T \<Longrightarrow> \<forall>i \<in> set is. refs_in (sequences T) i + ext i > 0 \<Longrightarrow> pt_inv ext U"
proof (induction "is" arbitrary: T n)
  case (Cons i "is")
  obtain T1 r1 where p: "promote_to_hot T i = (T1, r1)" by (cases "promote_to_hot T i")
  have inv1: "pt_inv ext T1"
    by (rule promote_to_hot_inv [OF p Cons.prems(2)]) (use pt_invD(3) [OF Cons.prems(2)] Cons.prems(3) in \<open>auto simp: page_ok_def\<close>)
  have "sequences T1 = sequences T" using promote_to_hot_tier [OF p] by (auto simp: tier_step_def dest: seq_viewD)
  with Cons p inv1 show ?case by (auto simp: Let_def split: sum.splits elim!: st_bind_cases)
qed simp

lemma prefetch_quiet:
  assumes "pt_inv ext T" "prefetch T s a b = (U, r)"
  shows "quiet 0 ext T U"
proof -
  have "U = T \<or> (\<exists>ps qs. get_sequence T s = Some ps \<and> set qs \<subseteq> set ps \<and> promote_all T qs 0 = (U, r))"
    using assms(2)
    by (auto simp: prefetch_def find_sequence_def elim!: st_lift_cases split: if_splits option.splits)
      (metis (no_types, opaque_lifting) in_set_dropD in_set_takeD subsetI)+
  then show ?thesis
  proof (elim disjE exE conjE)
    fix ps qs assume ps: "get_sequence T s = Some ps" "set qs \<subseteq> set ps" and p: "promote_all T qs 0 = (U, r)"
    have "\<forall>i \<in> set qs. refs_in (sequences T) i + ext i > 0"
      using ps(2) sequence_page_live [OF assms(1) ps(1)] by (fastforce simp: page_ok_def)
    from promote_all_inv [OF p assms(1) this] promote_all_tier [OF p] show ?thesis by (intro tier_quiet [OF assms(1)])
  qed (use quiet_refl [OF assms(1)] in simp)
qed

lemma preempt_quiet: "pt_inv ext T \<Longrightarrow> preempt_sequence T s = (U, r) \<Longrightarrow> quiet 0 ext T U"
  unfolding preempt_sequence_def
  by (erule st_lift_cases)
    (auto intro: quiet_refl tier_quiet evict_sequence_to_cold_inv evict_sequence_to_cold_tier)

lemma restore_sequence_quiet: "pt_inv ext T \<Longrightarrow> restore_sequence T s = (U, r) \<Longrightarrow> quiet 0 ext T U"
  unfolding restore_sequence_def
  by (elim st_lift_cases) (auto intro: quiet_refl prefetch_quiet)

lemma promoting_quiet: "pt_inv ext T \<Longrightarrow> materialize_sequence_promoting F T s = (U, r) \<Longrightarrow> quiet 0 ext T U"
  unfolding materialize_sequence_promoting_def
  by (elim st_lift_cases st_bind_cases) (auto intro: quiet_refl prefetch_quiet)

section \<open>Appending positions\<close>

lemma append_positions_quiet:
  "append_positions F T s ns = (U, r) \<Longrightarrow> pt_inv ext T \<Longrightarrow> next_page_id T + length ns \<le> u32_max \<Longrightarrow>
     quiet (length ns) ext T U"
proof (induction ns arbitrary: T)
  case Nil
  then show ?case by (auto intro: quiet_refl)
next
  case (Cons pos ns)
  have ids: "next_page_id T < u32_max" using Cons.prems(3) by simp
  have stop: "quiet (Suc (length ns)) ext T V" if "quiet 1 ext T V" for V by (rule quiet_mono [OF that]) simp
  have ens: "quiet 1 ext T T1" if "ensure_page_for_write F T s j = (T1, rr)" for j T1 rr
    by (rule ensured_quiet [OF ensure_page_for_write_ensured [OF Cons.prems(2) ids that]])
  have here: "quiet 1 ext T T" using quiet_mono [OF quiet_refl [OF Cons.prems(2)]] by simp
  from Cons.prems(1) show ?case
    unfolding append_positions.simps
  proof (elim st_lift_cases st_bind_cases)
    fix rp j T1 i T2 a
    assume e: "ensure_page_for_write F T s j = (T1, Inr i)" and p: "promote_to_hot T1 i = (T2, Inr a)"
    let ?T3 = "case get_page T2 i of None \<Rightarrow> T2 | Some p \<Rightarrow> put_page T2 i (p\<lparr>filled := max (filled p) (rp mod page_size T + 1)\<rparr>)"
    assume rest: "(let T3 = ?T3 in append_positions F T3 s ns) = (U, r)"
    note pw = prepare_write [OF Cons.prems(2) ids e p]
    have inv2: "pt_inv ext T2" using pw(1) by (simp add: quiet_def)
    from pw(2) obtain q where q: "get_page T2 i = Some q" by blast
    have T3: "?T3 = put_page T2 i (q\<lparr>filled := max (filled q) (rp mod page_size T + 1)\<rparr>)" using q by simp
    have inv3: "pt_inv ext ?T3" unfolding T3
      by (rule pt_inv_write [OF inv2 q]) (use pt_invD(3) [OF inv2 q] in \<open>auto simp: page_ok_def\<close>)
    have "tier_step T2 ?T3" unfolding T3 by (rule tier_step_put [OF q]) simp_all
    from quiet_trans [OF pw(1) tier_quiet [OF inv2 inv3 this]] have q3: "quiet 1 ext T ?T3" by simp
    then have "next_page_id ?T3 + length ns \<le> u32_max" using Cons.prems(3) by (simp add: quiet_def)
    with Cons.IH [OF _ inv3] rest have "quiet (length ns) ext ?T3 U" by (simp add: Let_def)
    with quiet_trans [OF q3 this] show ?thesis by simp
  next
    fix rp j T1 i e
    assume "ensure_page_for_write F T s j = (T1, Inr i)" "promote_to_hot T1 i = (U, Inl e)"
    from stop [OF prepare_write(1) [OF Cons.prems(2) ids this]] show ?thesis by simp
  qed (auto intro: stop ens here)
qed

lemma append_positions_cover:
  "append_positions F T s ns = (U, Inr u) \<Longrightarrow> pt_inv ext T \<Longrightarrow> next_page_id T + length ns \<le> u32_max \<Longrightarrow>
     sequence_starts T s = Some st \<Longrightarrow> sequence_sink_lens T s = Some k \<Longrightarrow> page_size T > 0 \<Longrightarrow>
     \<forall>pos \<in> set ns. st \<le> pos \<Longrightarrow> get_sequence T s = Some ps \<Longrightarrow>
     \<exists>ps'. get_sequence U s = Some ps' \<and> length ps \<le> length ps' \<and> (\<forall>pos \<in> set ns. bidx k st pos div page_size T < length ps')"
proof (induction ns arbitrary: T ps)
  case (Cons pos ns)
  have ids: "next_page_id T < u32_max" using Cons.prems(3) by simp
  have "buffer_index T s pos = Inr (bidx k st pos)" by (rule buffer_index_ok) (use Cons.prems in auto)
  with Cons.prems(1,6) obtain T1 i T2 where e: "ensure_page_for_write F T s (bidx k st pos div page_size T) = (T1, Inr i)"
    and p: "promote_to_hot T1 i = (T2, Inr ())"
    and rest: "append_positions F (case get_page T2 i of None \<Rightarrow> T2
        | Some p \<Rightarrow> put_page T2 i (p\<lparr>filled := max (filled p) (bidx k st pos mod page_size T + 1)\<rparr>)) s ns = (U, Inr u)"
    (is "append_positions F ?T3 s ns = _") by (auto simp: div_or_panic_def Let_def)
  note pw = prepare_write [OF Cons.prems(2) ids e p]
  have inv2: "pt_inv ext T2" and m2: "meta T2 = meta T" and id2: "next_page_id T2 \<le> next_page_id T + 1"
    using pw(1) by (simp_all add: quiet_def)
  from pw(2) Cons.prems(8) obtain q where q: "get_page T2 i = Some q" and cov: "bidx k st pos div page_size T \<le> length ps"
    and ps2: "get_sequence T2 s = Some (if bidx k st pos div page_size T < length ps then ps[bidx k st pos div page_size T := i] else ps @ [i])"
    by auto
  let ?ps2 = "if bidx k st pos div page_size T < length ps then ps[bidx k st pos div page_size T := i] else ps @ [i]"
  have inv3: "pt_inv ext ?T3" unfolding q option.case
    by (rule pt_inv_write [OF inv2 q]) (use pt_invD(3) [OF inv2 q] in \<open>auto simp: page_ok_def\<close>)
  have T3: "sequence_starts ?T3 s = Some st" "sequence_sink_lens ?T3 s = Some k" "page_size ?T3 = page_size T"
    "get_sequence ?T3 s = Some ?ps2" "next_page_id ?T3 + length ns \<le> u32_max"
    using metaD [OF m2] Cons.prems id2 ps2 q by (simp_all add: get_sequence_def)
  from Cons.IH [OF rest inv3 T3(5,1,2) _ _ T3(4)] T3(3) Cons.prems(6,7) obtain ps' where
    ps': "get_sequence U s = Some ps'" "length ?ps2 \<le> length ps'" "\<forall>pos \<in> set ns. bidx k st pos div page_size T < length ps'"
    by auto
  moreover have "length ps \<le> length ?ps2" "bidx k st pos div page_size T < length ?ps2" using cov by auto
  ultimately show ?case by (intro exI [of _ ps']) auto
qed auto

text \<open>
  An append leaves every token unchanged (new positions read the pages' zero fill or
  stale slots until they are written), and only a successful one moves the end.
\<close>

lemma append_tokens_cases:
  assumes inv: "pt_inv ext T" and ids: "next_page_id T + m \<le> u32_max" and a: "append_tokens F T s m = (U, r)"
  obtains (refused) e where "r = Inl e" "quiet m ext T U"
  | (appended) n V where "sequence_lengths T s = Some n" "append_positions F T s [n..<n + m] = (V, Inr ())"
      "U = set_sequence_len V s (n + m)" "r = Inr ()" "quiet m ext T V"
proof -
  have stop: "quiet m ext T T" using quiet_mono [OF quiet_refl [OF inv], of m] by simp
  have q: "quiet m ext T V" if "append_positions F T s [n..<n + m] = (V, rr)" for n V rr
    using append_positions_quiet [OF that inv] ids by simp
  show thesis
  proof (cases "sequence_lengths T s")
    case None
    with a have "r = Inl (SequenceNotFound s)" "U = T" by (simp_all add: append_tokens_def seq_len_def)
    with refused stop show ?thesis by simp
  next
    case (Some n)
    obtain V rr where v: "append_positions F T s [n..<n + m] = (V, rr)" by (cases "append_positions F T s [n..<n + m]")
    show ?thesis
    proof (cases rr)
      case (Inl e)
      with a Some v have "r = Inl e" "U = V" by (simp_all add: append_tokens_def seq_len_def)
      with refused q [OF v] show ?thesis by simp
    next
      case (Inr u)
      with a Some v have "r = Inr ()" "U = set_sequence_len V s (n + m)" by (simp_all add: append_tokens_def seq_len_def)
      with appended [OF Some _ _ _ q [OF v]] v Inr show ?thesis by simp
    qed
  qed
qed

lemma append_tokens_state:
  assumes inv: "pt_inv ext T" and wf: "cache_wf T" and ids: "next_page_id T + m \<le> u32_max"
    and a: "append_tokens F T s m = (U, r)"
  shows "cache_step m ext T U \<and>
    (\<forall>s' l kd h pos x. s' \<noteq> s \<or> (\<exists>n. sequence_lengths T s = Some n \<and> pos < n) \<longrightarrow>
       token_value F' U s' l kd h pos x = token_value F' T s' l kd h pos x) \<and>
    (case r of Inl _ \<Rightarrow> sequence_lengths U = sequence_lengths T
     | Inr _ \<Rightarrow> (\<exists>n. sequence_lengths T s = Some n \<and> sequence_lengths U = (sequence_lengths T)(s \<mapsto> n + m)))"
proof (cases rule: append_tokens_cases [OF inv ids a, case_names refused appended])
  case (refused e)
  with quiet_step [OF _ wf] quiet_token_value [OF inv wf refused(2)] show ?thesis by (auto simp: quiet_def dest: metaD)
next
  case (appended n V)
  let ?P = "page_size T"
  have P: "?P > 0" and ok: "seq_ok T s" using wf by (simp_all add: cache_wf_def)
  from ok appended(1) obtain ps st k where sq: "get_sequence T s = Some ps" "sequence_starts T s = Some st"
    "sequence_sink_lens T s = Some k" "st \<le> n" "k + (n - st) \<le> length ps * ?P" "k \<le> st" "?P dvd k" "?P dvd st"
    by (cases rule: seq_ok_cases) auto
  have mV: "meta V = meta T" and invV: "pt_inv ext V" using appended(5) by (simp_all add: quiet_def)
  note f = metaD [OF mV] and wfV = quiet_wf [OF appended(5) wf] and tokV = quiet_token_value [OF inv wf appended(5), where F = F']
  have U: "sequence_lengths U = (sequence_lengths T)(s \<mapsto> n + m)" "sequence_starts U = sequence_starts V"
    "sequence_sink_lens U = sequence_sink_lens V" "get_sequence U = get_sequence V" "page_content U = page_content V"
    "page_size U = page_size V" "layer_configs U = layer_configs V" "pt_inv ext U" "geometry U = geometry T"
    "next_page_id U = next_page_id V"
    using f invV appended(1,3) by (simp_all add: geometry_def set_sequence_len_def)
  from append_positions_cover [OF appended(2) inv _ sq(2,3) P _ sq(1)] ids sq(4) obtain ps' where
    ps': "get_sequence V s = Some ps'" "length ps \<le> length ps'" "\<forall>pos \<in> {n..<n + m}. bidx k st pos div ?P < length ps'" by auto
  have "k + (n + m - st) \<le> length ps' * ?P"
  proof (cases m)
    case 0
    with le_trans [OF sq(5) mult_le_mono1 [OF ps'(2)]] show ?thesis by simp
  next
    case (Suc j)
    then have "bidx k st (n + j) div ?P < length ps'" using ps'(3) by simp
    then have "bidx k st (n + j) < length ps' * ?P" using P by (simp add: div_less_iff_less_mult)
    then show ?thesis using Suc sq(4,6) by (simp add: bidx_def split: if_splits)
  qed
  then have "cache_wf U"
    by (intro trimmed_wf [OF wfV, where n' = "n + m" and st' = st and k' = k and qs = ps'])
      (use U f sq ps' in \<open>auto simp: fun_upd_idem\<close>)
  moreover have "\<forall>s. get_sequence T s = None \<longrightarrow> get_sequence U s = None" using appended(5) U(4) by (simp add: quiet_def)
  ultimately have "cache_step m ext T U" using U appended(5) by (simp add: cache_step_def quiet_def)
  moreover have "token_value F' U s' l kd h pos x = token_value F' T s' l kd h pos x"
    if "s' \<noteq> s \<or> (\<exists>n. sequence_lengths T s = Some n \<and> pos < n)" for s' l kd h pos x
  proof -
    have "slot_of U s' pos = slot_of V s' pos" using that U f appended(1) sq by (auto simp: slot_of_def)
    then have "token_value F' U s' l kd h pos x = token_value F' V s' l kd h pos x" using U by (intro token_value_cong) auto
    then show ?thesis using tokV by simp
  qed
  ultimately show ?thesis using appended(1,4) U(1) by auto
qed

section \<open>Removal\<close>

lemma remove_state:
  assumes inv: "pt_inv ext T" and wf: "cache_wf T" and r: "remove F T s = (U, res)"
  shows "cache_step 0 ext T U" "get_sequence U s = None" "res = Inr ()"
    "s' \<noteq> s \<Longrightarrow> token_value F' U s' l kd h pos x = token_value F' T s' l kd h pos x"
proof -
  obtain V ps where v: "remove_sequence T s = (V, ps)" by (cases "remove_sequence T s")
  note invV = remove_sequence_inv [OF inv v]
  note f = free_all_inv [OF invV, of F]
  have U: "U = free_all F V ps" "res = Inr ()" using r v by (simp_all add: remove_def)
  have V: "get_sequence V = (get_sequence T)(s := None)" "sequence_lengths V = (sequence_lengths T)(s := None)"
    "sequence_starts V = (sequence_starts T)(s := None)" "sequence_sink_lens V = (sequence_sink_lens T)(s := None)"
    "geometry V = geometry T" "next_page_id V = next_page_id T" "get_page V = get_page T"
    using v by (auto simp: remove_sequence_def geometry_def get_sequence_def fun_eq_iff delete_conv split: option.splits)
  have m: "meta U = meta V" using seq_view_meta [OF f(3)] U by simp
  have g: "get_sequence U = get_sequence V" using seq_viewD(9) [OF f(3)] U by simp
  note mf = metaD [OF m]
  have geo: "geometry U = geometry T" using mf V(5) by (simp add: geometry_def)
  have "seq_ok U s'" for s'
    using wf seq_ok_cong [of U s' T] V g mf geo by (cases "s' = s") (auto simp: cache_wf_def seq_ok_def geometry_def)
  with wf geo have "cache_wf U" by (simp add: cache_wf_def geometry_def)
  with f(1,4) geo U V(6) g V(1) show "cache_step 0 ext T U" by (simp add: cache_step_def)
  show "get_sequence U s = None" "res = Inr ()" using g V(1) U(2) by simp_all
  show "token_value F' U s' l kd h pos x = token_value F' T s' l kd h pos x" if "s' \<noteq> s"
  proof (rule token_value_other_sequence)
    show "page_content U s' k = page_content T s' k" for k
      using that f(2) U(1) V(1,7) by (simp add: page_content_def split: option.split)
  qed (use that mf V geo in \<open>simp_all add: geometry_def\<close>)
qed

section \<open>Tokens survive tiering, appends and removals\<close>

text \<open>
  C15. Moving pages between the tiers never changes what is stored. Whatever eviction,
  prefetch, preemption, restore or promoting materialisation return, also when they stop
  half way, every token of every sequence keeps its value, no sequence changes its length
  or window, and ownership and geometry are kept.
\<close>

theorem tiering_keeps_every_token:
  assumes inv: "pt_inv ext T" and wf: "cache_wf T"
    and U: "U \<in> {fst (evict T policy target), fst (prefetch T s a b), fst (preempt_sequence T s),
      fst (restore_sequence T s), fst (materialize_sequence_promoting F T s)}"
  shows "pt_inv ext U \<and> cache_wf U \<and> sequence_lengths U = sequence_lengths T \<and>
    sequence_starts U = sequence_starts T \<and> sequence_sink_lens U = sequence_sink_lens T \<and>
    (\<forall>s' l kd h pos x. token_value F U s' l kd h pos x = token_value F T s' l kd h pos x)"
proof -
  have q: "quiet 0 ext T U"
    using U evict_quiet [OF inv] prefetch_quiet [OF inv] preempt_quiet [OF inv] restore_sequence_quiet [OF inv]
      promoting_quiet [OF inv] by (auto simp: prod_eq_iff)
  with quiet_wf [OF q wf] quiet_token_value [OF inv wf q] show ?thesis by (auto simp: quiet_def dest: metaD)
qed

theorem tiering_keeps_every_token_witness:
  "cache_wf (fst (preempt_sequence (page_table demo_cache) 0)) \<and>
   (\<forall>x. token_value int_ops (fst (preempt_sequence (page_table demo_cache) 0)) 0 0 Value 1 0 x =
        token_value int_ops (page_table demo_cache) 0 0 Value 1 0 x)"
proof -
  have "pt_inv (\<lambda>_. 0) (page_table demo_cache)" "cache_wf (page_table demo_cache)"
    using demo_cache_ok by (simp_all add: cache_inv_def)
  from tiering_keeps_every_token [OF this, where s = 0 and F = int_ops
      and U = "fst (preempt_sequence (page_table demo_cache) 0)"] show ?thesis by simp
qed

section \<open>The cache as a state machine\<close>

text \<open>
  One call of a public operation. Page ids are 32-bit and saturate, and so do reference
  counts: the calls that take new ids or references are steps while there is room, and the
  window is called in one of its two layouts.
\<close>

inductive cache_next :: "'f f32_ops \<Rightarrow> 'f PagedKvCache \<Rightarrow> 'f PagedKvCache \<Rightarrow> bool" for F where
  create: "cache_next F C (fst (create_sequence C))"
| forked: "(\<And>ps. get_sequence (page_table C) src = Some ps \<Longrightarrow> ref_room (page_table C) (length ps)) \<Longrightarrow>
    cache_next F C (fst (fork C src pos))"
| put: "next_page_id (page_table C) < u32_max \<Longrightarrow>
    cache_next F C (C\<lparr>page_table := fst (write_token_kv F (page_table C) s pos ls)\<rparr>)"
| append_token: "next_page_id (page_table C) < u32_max \<Longrightarrow>
    cache_next F C (C\<lparr>page_table := fst (append_token_kv F (page_table C) s ls)\<rparr>)"
| append: "next_page_id (page_table C) + m \<le> u32_max \<Longrightarrow>
    cache_next F C (C\<lparr>page_table := fst (append_tokens F (page_table C) s m)\<rparr>)"
| rewind: "cache_next F C (C\<lparr>page_table := fst (rewind_to F (page_table C) s pos)\<rparr>)"
| restored: "cache_next F C (C\<lparr>page_table := fst (restore F (page_table C) s cc)\<rparr>)"
| window: "window_layout (page_table C) s sinks \<Longrightarrow>
    cache_next F C (C\<lparr>page_table := fst (apply_sliding_window_with_sinks F (page_table C) s w sinks)\<rparr>)"
| removed: "cache_next F C (C\<lparr>page_table := fst (remove F (page_table C) s)\<rparr>)"
| tiering: "U \<in> {fst (evict (page_table C) policy target), fst (prefetch (page_table C) s a b),
      fst (preempt_sequence (page_table C) s), fst (restore_sequence (page_table C) s),
      fst (materialize_sequence_promoting F (page_table C) s)} \<Longrightarrow> cache_next F C (C\<lparr>page_table := U\<rparr>)"

inductive cache_reachable :: "'f f32_ops \<Rightarrow> 'f PagedKvCache \<Rightarrow> bool" for F where
  plain: "cache_new F L ps n = Inr C \<Longrightarrow> ps > 0 \<Longrightarrow> n < 2 ^ 32 \<Longrightarrow> cache_reachable F C"
| quantised: "cache_new_with_layer_quant_config F L ps d gs q n = Inr C \<Longrightarrow> ps > 0 \<Longrightarrow> n < 2 ^ 32 \<Longrightarrow> cache_reachable F C"
| leased: "cache_new_leased F L ps d gs n tier holder = (L', Inr C) \<Longrightarrow> ps > 0 \<Longrightarrow> n < 2 ^ 32 \<Longrightarrow> cache_reachable F C"
| step: "cache_reachable F C \<Longrightarrow> cache_next F C C' \<Longrightarrow> cache_reachable F C'"

definition storage_ready :: "'f PageTable \<Rightarrow> bool" where
  "storage_ready T \<longleftrightarrow> tensor_config T = None \<or> quant_config T \<noteq> None \<and> layer_configs T \<noteq> []"

lemma start_ok:
  assumes "ps > 0" "n < 2 ^ 32" "tc = None \<or> q \<noteq> None \<and> gs \<noteq> []"
  shows "cache_inv (\<lambda>_. 0) \<lparr>page_table = pt_build F L ps n tc gs q, next_seq_id = 0\<rparr>"
    "storage_ready (pt_build F L ps n tc gs q)"
proof -
  have "cache_wf (pt_build F L ps n tc gs q)" by (rule cache_wf_no_sequences) (simp_all add: pt_build_def assms)
  then show "cache_inv (\<lambda>_. 0) \<lparr>page_table = pt_build F L ps n tc gs q, next_seq_id = 0\<rparr>"
    using pt_build_inv [OF assms(2)] by (simp add: cache_inv_def) (simp add: pt_build_def get_sequence_def)
  show "storage_ready (pt_build F L ps n tc gs q)" using assms(3) by (simp add: storage_ready_def pt_build_def)
qed

lemma lease_field [simp]: "cache_inv ext (C\<lparr>page_table := (page_table C)\<lparr>pool_lease := m\<rparr>\<rparr>) = cache_inv ext C"
proof -
  have "cache_wf ((page_table C)\<lparr>pool_lease := m\<rparr>) = cache_wf (page_table C)"
    using seq_ok_cong [of "(page_table C)\<lparr>pool_lease := m\<rparr>" _ "page_table C"] by (simp add: cache_wf_def get_sequence_def)
  then show ?thesis by (simp add: cache_inv_def get_sequence_def)
qed

lemma step_keeps:
  assumes "cache_inv ext C" "storage_ready (page_table C)" "cache_step n ext (page_table C) U"
  shows "cache_inv ext (C\<lparr>page_table := U\<rparr>) \<and> storage_ready U"
  using assms by (auto simp: cache_inv_def cache_step_def storage_ready_def geometry_def)

lemma write_step:
  assumes "cache_inv ext C" "storage_ready (page_table C)" "next_page_id (page_table C) < u32_max"
    and "write_token_kv F (page_table C) s pos ls = (U, r)"
  shows "cache_step 1 ext (page_table C) U"
proof (cases "tensor_config (page_table C)")
  case None
  with assms(1,4) show ?thesis by (auto simp: write_token_kv_def cache_inv_def intro: cache_step_refl)
next
  case (Some tc)
  with assms(2) obtain q where "quant_config (page_table C) = Some q" "layer_configs (page_table C) \<noteq> []"
    by (auto simp: storage_ready_def)
  with write_token_state [OF _ _ assms(3) this assms(4)] assms(1) show ?thesis by (simp add: cache_inv_def)
qed

lemma rewind_step:
  assumes "pt_inv ext T" "cache_wf T" "rewind_to F T s pos = (U, r)"
  shows "cache_step 0 ext T U"
proof (cases r)
  case (Inl e)
  with rewind_failed assms show ?thesis by (metis cache_step_refl)
next
  case (Inr u)
  note st = rewind_state [OF assms(1,2) assms(3) [unfolded Inr]]
  have "page_size T > 0" using assms(2) by (simp add: cache_wf_def)
  from rewind_ok [OF assms(3) [unfolded Inr] this] have "get_sequence T s \<noteq> None" by blast
  with st show ?thesis by (auto simp: cache_step_def)
qed

lemma restore_step:
  assumes "pt_inv ext T" "cache_wf T" "restore F T s cc = (U, r)"
  shows "cache_step 0 ext T U"
proof -
  have "U = T \<or> rewind_to F T s (cc_position cc) = (U, r)"
    using assms(3) unfolding restore_def by (elim st_lift_cases) (auto split: if_splits)
  then show ?thesis using cache_step_refl [OF assms(1,2)] rewind_step [OF assms(1,2)] by blast
qed

lemma window_step:
  assumes "pt_inv ext T" "cache_wf T" "window_layout T s sinks" "apply_sliding_window_with_sinks F T s w sinks = (U, r)"
  shows "cache_step 0 ext T U"
proof (cases "w = 0")
  case True
  with assms show ?thesis by (auto simp: apply_sliding_window_with_sinks_def intro: cache_step_refl)
next
  case False
  have "seq_ok T s" using assms(2) by (simp add: cache_wf_def)
  then obtain ps n st k where sq: "get_sequence T s = Some ps" "sequence_lengths T s = Some n" "sequence_starts T s = Some st"
    "sequence_sink_lens T s = Some k" using assms(3) by (cases rule: seq_ok_cases) (auto simp: window_layout_def)
  have w: "w > 0" using False by simp
  show ?thesis
    using assms(1,2) sq(2-4,1) w assms(3)
  proof (cases rule: window_outcome [where F = F, case_names unchanged cut])
    case unchanged
    with assms show ?thesis by (auto intro: cache_step_refl)
  next
    case (cut U' e a cur)
    with assms(4) cut_step [OF cut(2)] show ?thesis by simp
  qed
qed

lemma append_token_step:
  assumes "cache_inv ext C" "storage_ready (page_table C)" "next_page_id (page_table C) < u32_max"
    and "append_token_kv F (page_table C) s ls = (U, r)"
  shows "cache_step 1 ext (page_table C) U"
  using assms(4) unfolding append_token_kv_def
  by (elim st_lift_cases st_bind_cases)
    (use write_step [OF assms(1-3)] assms(1) in \<open>auto simp: cache_inv_def intro: cache_step_refl\<close>)

lemma cache_next_keeps:
  assumes "cache_next F C C'" "cache_inv ext C" "storage_ready (page_table C)"
  shows "cache_inv ext C' \<and> storage_ready (page_table C')"
proof -
  have inv: "pt_inv ext (page_table C)" and wf: "cache_wf (page_table C)" using assms(2) by (simp_all add: cache_inv_def)
  have upd: "cache_inv ext (C\<lparr>page_table := U\<rparr>) \<and> storage_ready (page_table (C\<lparr>page_table := U\<rparr>))"
    if "cache_step n ext (page_table C) U" for n U
    using step_keeps [OF assms(2,3) that] by simp
  from assms(1) show ?thesis
  proof (cases rule: cache_next.cases)
    case create
    have fresh: "get_sequence (page_table C) (next_seq_id C) = None" using assms(2) by (simp add: cache_inv_def)
    from create_sequence_inv [OF inv fresh] create_sequence_wf [OF wf fresh] assms(2,3) create show ?thesis
      by (auto simp: create_sequence_def cache_inv_def storage_ready_def pt_create_sequence_def get_sequence_def)
  next
    case (forked src pos)
    show ?thesis
    proof (cases "is_ok (snd (fork C src pos))")
      case False
      with fork_outcome(2) [OF wf] forked assms show ?thesis by simp
    next
      case True
      have "seq_ok (page_table C) src" using wf by (simp add: cache_wf_def)
      with True fork_outcome(1) [OF wf] obtain ps n st k where nsk: "sequence_lengths (page_table C) src = Some n"
          "sequence_starts (page_table C) src = Some st" "sequence_sink_lens (page_table C) src = Some k"
          "get_sequence (page_table C) src = Some ps" "st \<le> pos" "pos \<le> n"
        by (elim seq_ok_cases) (auto simp: forkable_def)
      have "storage_ready (page_table (fst (fork C src pos))) = storage_ready (page_table C)"
        using fork_state(6) [OF assms(2) forked(2) [OF nsk(4)] nsk refl refl] by (simp add: storage_ready_def geometry_def)
      with fork_state(1) [OF assms(2) forked(2) [OF nsk(4)] nsk refl refl] forked(1) assms(3) show ?thesis by simp
    qed
  next
    case (put s pos ls)
    with upd [OF write_step [OF assms(2,3) put(2)]] show ?thesis by (metis prod.collapse)
  next
    case (append_token s ls)
    with upd [OF append_token_step [OF assms(2,3) append_token(2)]] show ?thesis by (metis prod.collapse)
  next
    case (append m s)
    then show ?thesis using append_tokens_state [OF inv wf append(2)] upd by (metis prod.collapse)
  next
    case (rewind s pos)
    then show ?thesis using upd [OF rewind_step [OF inv wf]] by (metis prod.collapse)
  next
    case (restored s cc)
    then show ?thesis using upd [OF restore_step [OF inv wf]] by (metis prod.collapse)
  next
    case (window s sinks w)
    then show ?thesis using upd [OF window_step [OF inv wf window(2)]] by (metis prod.collapse)
  next
    case (removed s)
    then show ?thesis using upd [OF remove_state(1) [OF inv wf]] by (metis prod.collapse)
  next
    case (tiering U policy target s a b)
    then have "quiet 0 ext (page_table C) U"
      using evict_quiet [OF inv] prefetch_quiet [OF inv] preempt_quiet [OF inv] restore_sequence_quiet [OF inv]
        promoting_quiet [OF inv] by (auto simp: prod_eq_iff)
    with upd quiet_step [OF _ wf] tiering(1) show ?thesis by blast
  qed
qed

lemma layer_storage_start:
  assumes "new_with_layer_storage F L ps n d gs q = Inr T" "ps > 0" "n < 2 ^ 32"
  shows "cache_inv (\<lambda>_. 0) \<lparr>page_table = T, next_seq_id = 0\<rparr> \<and> storage_ready T"
proof (cases gs)
  case Nil
  with assms show ?thesis by (simp add: new_with_layer_storage_def)
next
  case (Cons g gs')
  with assms(1) obtain tc where "T = pt_build F L ps n (Some tc) gs (Some q)"
    by (auto simp: new_with_layer_storage_def split: if_splits)
  with start_ok [OF assms(2,3), where F = F and tc = "Some tc" and q = "Some q" and gs = gs and L = L] Cons show ?thesis by simp
qed

lemma reachable_inv: "cache_reachable F C \<Longrightarrow> cache_inv (\<lambda>_. 0) C \<and> storage_ready (page_table C)"
proof (induction rule: cache_reachable.induct)
  case (plain L ps n C)
  then have "C = \<lparr>page_table = pt_build F L ps n None [] None, next_seq_id = 0\<rparr>"
    by (simp add: cache_new_def pt_new_def new_with_storage_def)
  with start_ok [OF plain(2,3), where F = F] show ?case by simp
next
  case (quantised L ps d gs q n C)
  then show ?case
    using layer_storage_start [OF _ quantised(2,3), where F = F]
    by (auto simp: cache_new_with_layer_quant_config_def new_with_layer_quant_config_def split: if_splits)
next
  case (leased L ps d gs n tier holder L' C)
  then obtain T m L1 where C: "C = \<lparr>page_table = T\<lparr>pool_lease := m\<rparr>, next_seq_id = 0\<rparr>"
    and T: "new_with_layer_storage F L1 ps n d gs (homogeneous d (length gs)) = Inr T"
    by (auto simp: cache_new_leased_def new_leased_def Let_def split: prod.splits sum.splits if_splits)
  from layer_storage_start [OF T leased(2,3)] lease_field [where C = "\<lparr>page_table = T, next_seq_id = 0\<rparr>" and m = m]
  show ?case by (simp add: C storage_ready_def)
next
  case (step C C')
  then show ?case using cache_next_keeps by blast
qed



end
