(* ===== verification/CacheRead.thy ===== *)
theory CacheRead
  imports CacheReach
begin

text \<open>
  Reading a sequence back: the contiguous buffers of \<open>materialize_sequence_to\<close> hold exactly the
  stored tokens, head by head, and reading at a position is the same as rewinding there
  first and reading everything.
\<close>

section \<open>The materialisation loops\<close>

text \<open>
  \<open>mat_ok n gs V D out\<close>: the output buffers have the shape of the layers \<open>gs\<close> for \<open>n\<close> tokens, and
  the scalars at the places in \<open>D\<close> are those of \<open>V\<close>.
\<close>

definition mat_ok ::
  "nat \<Rightarrow> LayerTensorConfig list \<Rightarrow> (nat \<Rightarrow> nat \<Rightarrow> KvKind \<Rightarrow> nat \<Rightarrow> nat \<Rightarrow> 'f) \<Rightarrow> (nat \<times> nat \<times> nat \<times> nat) set \<Rightarrow>
     'f MaterializedLayerKv list \<Rightarrow> bool" where
  "mat_ok n gs V D out \<longleftrightarrow>
     length out = length gs \<and>
     (\<forall>l < length gs. mat_head_dim (out ! l) = head_dim (gs ! l) \<and> mat_num_kv_heads (out ! l) = num_kv_heads (gs ! l) \<and>
        length (mat_key (out ! l)) = num_kv_heads (gs ! l) * n * head_dim (gs ! l) \<and>
        length (mat_value (out ! l)) = num_kv_heads (gs ! l) * n * head_dim (gs ! l) \<and>
        (\<forall>h t d. h < num_kv_heads (gs ! l) \<and> t < n \<and> d < head_dim (gs ! l) \<and> (t, l, h, d) \<in> D \<longrightarrow>
           mat_key (out ! l) ! ((h * n + t) * head_dim (gs ! l) + d) = V t l Key h d \<and>
           mat_value (out ! l) ! ((h * n + t) * head_dim (gs ! l) + d) = V t l Value h d))"

lemma place_bound:
  assumes "h < H" "t < n" "d < (D::nat)"
  shows "(h * n + t) * D + d < H * n * D"
  using row_bound [OF row_index [OF assms(1,2)] assms(3)] .

lemma place_inj:
  assumes "t < n" "t' < n" "d < (D::nat)" "d' < D"
  shows "(h * n + t) * D + d = (h' * n + t') * D + d' \<longleftrightarrow> h = h' \<and> t = t' \<and> d = d'"
proof
  assume eq: "(h * n + t) * D + d = (h' * n + t') * D + d'"
  have "h * n + t = ((h * n + t) * D + d) div D" "d = ((h * n + t) * D + d) mod D"
    "h' * n + t' = ((h' * n + t') * D + d') div D" "d' = ((h' * n + t') * D + d') mod D" using assms by simp_all
  with eq have "h * n + t = h' * n + t'" "d = d'" by simp_all
  moreover have "h = (h * n + t) div n" "t = (h * n + t) mod n" "h' = (h' * n + t') div n" "t' = (h' * n + t') mod n"
    using assms by simp_all
  ultimately show "h = h' \<and> t = t' \<and> d = d'" by metis
qed simp

lemma mat_ok_step:
  assumes m: "mat_ok n gs V D out" and l: "l < length gs" "h < num_kv_heads (gs ! l)" "t < n" "d < head_dim (gs ! l)"
    and dst: "dst = (h * n + t) * mat_head_dim (out ! l) + d"
  shows "mat_ok n gs V (insert (t, l, h, d) D)
    (out[l := (out ! l)\<lparr>mat_key := (mat_key (out ! l))[dst := V t l Key h d], mat_value := (mat_value (out ! l))[dst := V t l Value h d]\<rparr>])"
proof -
  have D: "mat_head_dim (out ! l) = head_dim (gs ! l)" using m l by (simp add: mat_ok_def)
  have b: "dst < num_kv_heads (gs ! l) * n * head_dim (gs ! l)" unfolding dst D by (rule place_bound [OF l(2-4)])
  have other: "((h' * n + t') * head_dim (gs ! l) + d' = dst) \<longleftrightarrow> h' = h \<and> t' = t \<and> d' = d"
    if "t' < n" "d' < head_dim (gs ! l)" for h' t' d'
    unfolding dst D using place_inj [OF that(1) l(3) that(2) l(4)] by auto
  have len: "length out = length gs" "length (mat_key (out ! l)) = num_kv_heads (gs ! l) * n * head_dim (gs ! l)"
    "length (mat_value (out ! l)) = num_kv_heads (gs ! l) * n * head_dim (gs ! l)"
    "mat_num_kv_heads (out ! l) = num_kv_heads (gs ! l)" using m l by (simp_all add: mat_ok_def)
  have here: "(mat_key (out ! l))[dst := V t l Key h d] ! ((h' * n + t') * head_dim (gs ! l) + d') = V t' l Key h' d' \<and>
      (mat_value (out ! l))[dst := V t l Value h d] ! ((h' * n + t') * head_dim (gs ! l) + d') = V t' l Value h' d'"
    if c: "h' < num_kv_heads (gs ! l)" "t' < n" "d' < head_dim (gs ! l)" "(t', l, h', d') \<in> insert (t, l, h, d) D" for h' t' d'
  proof (cases "h' = h \<and> t' = t \<and> d' = d")
    case True
    with other [OF c(2,3), of h'] b len show ?thesis by simp
  next
    case False
    with c have "(t', l, h', d') \<in> D" by auto
    with m l c False other [OF c(2,3), of h'] show ?thesis by (auto simp: mat_ok_def nth_list_update_neq)
  qed
  show ?thesis
    unfolding mat_ok_def
  proof (intro conjI allI impI)
    fix l' assume l': "l' < length gs"
    let ?o = "out[l := (out ! l)\<lparr>mat_key := (mat_key (out ! l))[dst := V t l Key h d], mat_value := (mat_value (out ! l))[dst := V t l Value h d]\<rparr>]"
    show "mat_head_dim (?o ! l') = head_dim (gs ! l')" "mat_num_kv_heads (?o ! l') = num_kv_heads (gs ! l')"
      "length (mat_key (?o ! l')) = num_kv_heads (gs ! l') * n * head_dim (gs ! l')"
      "length (mat_value (?o ! l')) = num_kv_heads (gs ! l') * n * head_dim (gs ! l')"
      using m l l' len D by (cases "l' = l"; simp add: mat_ok_def)+
    fix h' t' d' assume c: "h' < num_kv_heads (gs ! l') \<and> t' < n \<and> d' < head_dim (gs ! l') \<and> (t', l', h', d') \<in> insert (t, l, h, d) D"
    show "mat_key (?o ! l') ! ((h' * n + t') * head_dim (gs ! l') + d') = V t' l' Key h' d'"
      "mat_value (?o ! l') ! ((h' * n + t') * head_dim (gs ! l') + d') = V t' l' Value h' d'"
      using here [of h' t' d'] m l l' len c by (cases "l' = l"; auto simp: mat_ok_def)+
  qed (use len in simp)
qed

lemma fill_slots_ok:
  assumes "mat_ok n gs V D out" "t < n"
    and "\<forall>(l, h, d) \<in> set slots. l < length gs \<and> h < num_kv_heads (gs ! l) \<and> d < head_dim (gs ! l)"
    and "\<forall>(l, h, d) \<in> set slots. \<forall>kd. value_at_slot F p ps (head_dim (gs ! l)) (component_index l kd) h (t mod ps) d = Inr (V t l kd h d)"
  shows "\<exists>out'. fill_slots F p ps n t slots out = Inr out' \<and>
    mat_ok n gs V (D \<union> {(t, l, h, d) | l h d. (l, h, d) \<in> set slots}) out'"
  using assms(1,3,4)
proof (induction slots arbitrary: D out)
  case Nil
  then show ?case by simp
next
  case (Cons a slots)
  obtain l h d where a: "a = (l, h, d)" by (cases a)
  have l: "l < length gs" "h < num_kv_heads (gs ! l)" "d < head_dim (gs ! l)" using Cons.prems(2) a by auto
  have dim: "mat_head_dim (out ! l) = head_dim (gs ! l)" using Cons.prems(1) l by (simp add: mat_ok_def)
  have v: "value_at_slot F p ps (head_dim (gs ! l)) (l * 2) h (t mod ps) d = Inr (V t l Key h d)"
    "value_at_slot F p ps (head_dim (gs ! l)) (l * 2 + 1) h (t mod ps) d = Inr (V t l Value h d)"
    using Cons.prems(3) a by (auto simp: component_index_def dest: spec [of _ Key] spec [of _ Value])
  note step = mat_ok_step [OF Cons.prems(1) l(1,2) assms(2) l(3) refl]
  from Cons.IH [OF step] Cons.prems(2,3) obtain out' where o: "fill_slots F p ps n t slots
      (out[l := (out ! l)\<lparr>mat_key := (mat_key (out ! l))[(h * n + t) * mat_head_dim (out ! l) + d := V t l Key h d],
         mat_value := (mat_value (out ! l))[(h * n + t) * mat_head_dim (out ! l) + d := V t l Value h d]\<rparr>]) = Inr out'"
    "mat_ok n gs V (insert (t, l, h, d) D \<union> {(t, l, h, d) | l h d. (l, h, d) \<in> set slots}) out'" by auto
  have "insert (t, l, h, d) D \<union> {(t, l, h, d) | l h d. (l, h, d) \<in> set slots} = D \<union> {(t, l, h, d) | l h d. (l, h, d) \<in> set (a # slots)}"
    by (auto simp: a)
  with o v dim show ?case by (simp add: a Let_def)
qed

lemma slots_of_token_set:
  "(l, h, d) \<in> set (slots_of_token gs) \<longleftrightarrow> l < length gs \<and> h < num_kv_heads (gs ! l) \<and> d < head_dim (gs ! l)"
proof -
  have "(l, h, d) \<in> set (slots_of_token gs) \<longleftrightarrow> (\<exists>g. (l, g) \<in> set (enumerate 0 gs) \<and> h < num_kv_heads g \<and> d < head_dim g)"
    by (auto simp: slots_of_token_def) fastforce+
  then show ?thesis by (auto simp: in_set_enumerate_eq)
qed

definition all_slots :: "LayerTensorConfig list \<Rightarrow> nat set \<Rightarrow> (nat \<times> nat \<times> nat \<times> nat) set" where
  "all_slots gs ts = {(t, l, h, d). t \<in> ts \<and> l < length gs \<and> h < num_kv_heads (gs ! l) \<and> d < head_dim (gs ! l)}"

lemma fill_tokens_ok:
  assumes P: "page_size T > 0"
    and "mat_ok n (layer_configs T) V D out" "\<forall>t \<in> set ts. t < n"
    and pages: "\<forall>t \<in> set ts. t div page_size T < length ps \<and> (\<exists>p. get_page T (ps ! (t div page_size T)) = Some p \<and>
      (\<forall>l kd h d. l < length (layer_configs T) \<and> h < num_kv_heads (layer_configs T ! l) \<and> d < head_dim (layer_configs T ! l) \<longrightarrow>
         value_at_slot F p (page_size T) (head_dim (layer_configs T ! l)) (component_index l kd) h (t mod page_size T) d = Inr (V t l kd h d)))"
  shows "\<exists>out'. fill_tokens F T ps n ts out = Inr out' \<and>
    mat_ok n (layer_configs T) V (D \<union> all_slots (layer_configs T) (set ts)) out'"
  using assms(2-4)
proof (induction ts arbitrary: D out)
  case Nil
  have "all_slots (layer_configs T) (set []) = {}" by (auto simp: all_slots_def)
  with Nil show ?case by simp
next
  case (Cons t ts)
  from Cons.prems(3) obtain p where p: "t div page_size T < length ps" "get_page T (ps ! (t div page_size T)) = Some p"
    "\<forall>l kd h d. l < length (layer_configs T) \<and> h < num_kv_heads (layer_configs T ! l) \<and> d < head_dim (layer_configs T ! l) \<longrightarrow>
         value_at_slot F p (page_size T) (head_dim (layer_configs T ! l)) (component_index l kd) h (t mod page_size T) d = Inr (V t l kd h d)"
    by auto
  have t: "t < n" using Cons.prems(2) by simp
  have bounds: "\<forall>(l, h, d) \<in> set (slots_of_token (layer_configs T)). l < length (layer_configs T) \<and>
      h < num_kv_heads (layer_configs T ! l) \<and> d < head_dim (layer_configs T ! l)" by (auto simp: slots_of_token_set)
  have vals: "\<forall>(l, h, d) \<in> set (slots_of_token (layer_configs T)). \<forall>kd. value_at_slot F p (page_size T)
      (head_dim (layer_configs T ! l)) (component_index l kd) h (t mod page_size T) d = Inr (V t l kd h d)"
    using p(3) by (auto simp: slots_of_token_set)
  from fill_slots_ok [OF Cons.prems(1) t bounds vals] obtain out1 where
    o1: "fill_slots F p (page_size T) n t (slots_of_token (layer_configs T)) out = Inr out1"
    "mat_ok n (layer_configs T) V (D \<union> {(t, l, h, d) | l h d. (l, h, d) \<in> set (slots_of_token (layer_configs T))}) out1"
    by blast
  from Cons.IH [OF o1(2)] Cons.prems(2,3) obtain out' where o': "fill_tokens F T ps n ts out1 = Inr out'"
    "mat_ok n (layer_configs T) V (D \<union> {(t, l, h, d) | l h d. (l, h, d) \<in> set (slots_of_token (layer_configs T))} \<union>
       all_slots (layer_configs T) (set ts)) out'" by auto
  have "D \<union> {(t, l, h, d) | l h d. (l, h, d) \<in> set (slots_of_token (layer_configs T))} \<union> all_slots (layer_configs T) (set ts)
      = D \<union> all_slots (layer_configs T) (set (t # ts))"
    by (auto simp: all_slots_def slots_of_token_set)
  with o' o1 p(1,2) P show ?case by (simp add: div_or_panic_def index_or_panic_def find_page_def)
qed

lemma mat_ok_start:
  "mat_ok n gs V {} (map (\<lambda>g. \<lparr>mat_key = replicate (num_kv_heads g * n * head_dim g) z,
     mat_value = replicate (num_kv_heads g * n * head_dim g) z, mat_num_kv_heads = num_kv_heads g, mat_head_dim = head_dim g\<rparr>) gs)"
  by (simp add: mat_ok_def)

lemma page_value:
  assumes "pt_inv ext T" "get_page T i = Some p" "quant_config T = Some q" "layer_configs T \<noteq> []"
    and "l < length (layer_configs T)" "h < num_kv_heads (layer_configs T ! l)" "x < head_dim (layer_configs T ! l)" "t < page_size T"
  shows "\<exists>v. value_at_slot F p (page_size T) (head_dim (layer_configs T ! l)) (component_index l kd) h t x = Inr v"
proof -
  have "page_shape (component_list (page_size T) (layer_configs T) q) p"
    using pt_invD(3) [OF assms(1,2)] assms(3,4) by (simp add: page_ok_def shape_of_def page_components_def)
  from value_at_slot_shape [OF this component_list_geom [OF assms(5)] assms(6,8,7)] show ?thesis by blast
qed

section \<open>What is read back\<close>

text \<open>The scalar a page holds for buffer index \<open>b\<close> of a sequence.\<close>

definition buffer_value :: "'f f32_ops \<Rightarrow> 'f PageTable \<Rightarrow> nat list \<Rightarrow> nat \<Rightarrow> nat \<Rightarrow> KvKind \<Rightarrow> nat \<Rightarrow> nat \<Rightarrow> 'f" where
  "buffer_value F T ps b l kd h x =
     (case get_page T (ps ! (b div page_size T)) of
        None \<Rightarrow> f_zero F
      | Some p \<Rightarrow>
          (case value_at_slot F p (page_size T) (head_dim (layer_configs T ! l)) (component_index l kd) h (b mod page_size T) x of
             Inl _ \<Rightarrow> f_zero F | Inr v \<Rightarrow> v))"

lemma materialize_ok:
  assumes inv: "pt_inv ext T" and wf: "cache_wf T" and tc: "tensor_config T \<noteq> None" "quant_config T = Some q" "layer_configs T \<noteq> []"
    and nsk: "sequence_lengths T s = Some n" "sequence_starts T s = Some st" "sequence_sink_lens T s = Some k" "get_sequence T s = Some ps"
    and e: "st \<le> e" "e \<le> n" and N: "N = k + (e - st)"
  shows "\<exists>m. materialize_sequence_to F T s e = Inr m \<and> start_position m = st \<and> mat_sink_len m = k \<and> mat_sequence_len m = N \<and>
    mat_ok N (layer_configs T) (buffer_value F T ps) (all_slots (layer_configs T) {0..<N}) (mat_layers m)"
proof -
  have P: "page_size T > 0" and fit: "k + (n - st) \<le> length ps * page_size T" "k \<le> st"
    using wf nsk by (auto simp: cache_wf_def seq_ok_def dest!: spec [of _ s])
  have "t div page_size T < length ps \<and> (\<exists>p. get_page T (ps ! (t div page_size T)) = Some p \<and>
      (\<forall>l kd h d. l < length (layer_configs T) \<and> h < num_kv_heads (layer_configs T ! l) \<and> d < head_dim (layer_configs T ! l) \<longrightarrow>
         value_at_slot F p (page_size T) (head_dim (layer_configs T ! l)) (component_index l kd) h (t mod page_size T) d
           = Inr (buffer_value F T ps t l kd h d)))" if t: "t < N" for t
  proof -
    have b: "t div page_size T < length ps" using t fit e N by (intro less_mult_imp_div_less) linarith
    from sequence_page_live [OF inv nsk(4) nth_mem [OF b]] obtain p where p: "get_page T (ps ! (t div page_size T)) = Some p" by blast
    have "value_at_slot F p (page_size T) (head_dim (layer_configs T ! l)) (component_index l kd) h (t mod page_size T) d
           = Inr (buffer_value F T ps t l kd h d)"
      if "l < length (layer_configs T)" "h < num_kv_heads (layer_configs T ! l)" "d < head_dim (layer_configs T ! l)" for l kd h d
      using page_value [OF inv p tc(2,3) that, of "t mod page_size T" F kd] P p by (auto simp: buffer_value_def)
    with b p show ?thesis by blast
  qed
  then have pages: "\<forall>t \<in> set [0..<N]. t div page_size T < length ps \<and> (\<exists>p. get_page T (ps ! (t div page_size T)) = Some p \<and>
      (\<forall>l kd h d. l < length (layer_configs T) \<and> h < num_kv_heads (layer_configs T ! l) \<and> d < head_dim (layer_configs T ! l) \<longrightarrow>
         value_at_slot F p (page_size T) (head_dim (layer_configs T ! l)) (component_index l kd) h (t mod page_size T) d
           = Inr (buffer_value F T ps t l kd h d)))" by simp
  from fill_tokens_ok [OF P mat_ok_start [where n = N and z = "f_zero F"] _ pages] obtain out where
    "fill_tokens F T ps N [0..<N] (map (\<lambda>g. \<lparr>mat_key = replicate (num_kv_heads g * N * head_dim g) (f_zero F),
       mat_value = replicate (num_kv_heads g * N * head_dim g) (f_zero F), mat_num_kv_heads = num_kv_heads g,
       mat_head_dim = head_dim g\<rparr>) (layer_configs T)) = Inr out"
    "mat_ok N (layer_configs T) (buffer_value F T ps) (all_slots (layer_configs T) {0..<N}) out" by auto
  then show ?thesis using tc(1) nsk e fit
    by (simp add: materialize_sequence_to_def retained_start_def sink_len_def seq_len_def find_sequence_def N [symmetric] Let_def)
qed

lemma token_buffer:
  assumes inv: "pt_inv ext T" and wf: "cache_wf T" and tc: "quant_config T = Some q" "layer_configs T \<noteq> []"
    and nsk: "sequence_lengths T s = Some n" "sequence_starts T s = Some st" "sequence_sink_lens T s = Some k" "get_sequence T s = Some ps"
    and pos: "pos < n" "pos < k \<or> st \<le> pos"
    and v: "l < length (layer_configs T)" "h < num_kv_heads (layer_configs T ! l)" "x < head_dim (layer_configs T ! l)"
  shows "token_value F T s l kd h pos x = Some (buffer_value F T ps (bidx k st pos) l kd h x)"
proof -
  have P: "page_size T > 0" using wf by (simp add: cache_wf_def)
  have slot: "slot_of T s pos = Some (bidx k st pos)" using pos nsk by (simp add: slot_of_def)
  from slot_page [OF wf slot] nsk(4) have b: "bidx k st pos div page_size T < length ps" by simp
  from sequence_page_live [OF inv nsk(4) nth_mem [OF b]] obtain p where p: "get_page T (ps ! (bidx k st pos div page_size T)) = Some p" by blast
  from page_value [OF inv p tc v, of "bidx k st pos mod page_size T" F kd] P obtain w where
    w: "value_at_slot F p (page_size T) (head_dim (layer_configs T ! l)) (component_index l kd) h (bidx k st pos mod page_size T) x = Inr w" by auto
  then show ?thesis using p slot nsk(4) b by (simp add: token_value_def buffer_value_def)
qed

text \<open>
  C24. Materialising a sequence up to a position succeeds exactly for positions of its
  retained window, and the head-major buffers it returns hold, at the place of each retained
  token before the position, exactly the stored key and value scalars, dequantised, in
  every layer and head.
\<close>

theorem materialize_returns_the_tokens:
  assumes inv: "pt_inv ext T" and wf: "cache_wf T" and tc: "tensor_config T \<noteq> None" "quant_config T = Some q" "layer_configs T \<noteq> []"
    and nsk: "sequence_lengths T s = Some n" "sequence_starts T s = Some st" "sequence_sink_lens T s = Some k"
  shows "(is_ok (materialize_sequence_to F T s e) \<longleftrightarrow> st \<le> e \<and> e \<le> n) \<and>
    (\<forall>m. materialize_sequence_to F T s e = Inr m \<longrightarrow>
       start_position m = st \<and> mat_sink_len m = k \<and> mat_sequence_len m = k + (e - st) \<and>
       (\<forall>pos l kd h x. pos < e \<and> (pos < k \<or> st \<le> pos) \<and> valid_slot T l h x \<longrightarrow>
          token_value F T s l kd h pos x =
            Some ((if kd = Key then mat_key else mat_value) (mat_layers m ! l)
                    ! ((h * mat_sequence_len m + bidx k st pos) * head_dim (layer_configs T ! l) + x))))"
proof (cases "st \<le> e \<and> e \<le> n")
  case False
  then have "\<not> is_ok (materialize_sequence_to F T s e)"
    using nsk by (auto simp: materialize_sequence_to_def retained_start_def sink_len_def seq_len_def)
  with False show ?thesis by auto
next
  case True
  have "seq_ok T s" using wf by (simp add: cache_wf_def)
  then obtain ps where ps: "get_sequence T s = Some ps" and le: "k \<le> st" using nsk by (cases rule: seq_ok_cases) auto
  have P: "page_size T > 0" using wf by (simp add: cache_wf_def)
  from materialize_ok [OF inv wf tc nsk ps _ _ refl] True obtain m where m: "materialize_sequence_to F T s e = Inr m"
    "start_position m = st" "mat_sink_len m = k" "mat_sequence_len m = k + (e - st)"
    "mat_ok (k + (e - st)) (layer_configs T) (buffer_value F T ps) (all_slots (layer_configs T) {0..<k + (e - st)}) (mat_layers m)" by blast
  have "token_value F T s l kd h pos x = Some ((if kd = Key then mat_key else mat_value) (mat_layers m ! l)
          ! ((h * mat_sequence_len m + bidx k st pos) * head_dim (layer_configs T ! l) + x))"
    if c: "pos < e" "pos < k \<or> st \<le> pos" "valid_slot T l h x" for pos l kd h x
  proof -
    have v: "l < length (layer_configs T)" "h < num_kv_heads (layer_configs T ! l)" "x < head_dim (layer_configs T ! l)"
      using c(3) by (simp_all add: valid_slot_def)
    have tv: "token_value F T s l kd h pos x = Some (buffer_value F T ps (bidx k st pos) l kd h x)"
      using token_buffer [OF inv wf tc(2,3) nsk ps _ c(2) v] c(1) True by auto
    have "bidx k st pos < k + (e - st)" using c le by (auto simp: bidx_def)
    with m(5) v have "(if kd = Key then mat_key else mat_value) (mat_layers m ! l)
        ! ((h * (k + (e - st)) + bidx k st pos) * head_dim (layer_configs T ! l) + x) = buffer_value F T ps (bidx k st pos) l kd h x"
      by (cases kd) (auto simp: mat_ok_def all_slots_def)
    then show ?thesis using m(4) tv by simp
  qed
  with m True show ?thesis by auto
qed

lemma demo_cache_view:
  "tensor_config (page_table demo_cache) \<noteq> None" "quant_config (page_table demo_cache) = Some example_quant"
  "layer_configs (page_table demo_cache) \<noteq> []" "sequence_lengths (page_table demo_cache) 0 = Some 1"
  "sequence_starts (page_table demo_cache) 0 = Some 0" "sequence_sink_lens (page_table demo_cache) 0 = Some 0"
  "valid_slot (page_table demo_cache) 0 1 2" "head_dim (layer_configs (page_table demo_cache) ! 0) = 3"
  "token_value int_ops (page_table demo_cache) 0 0 Value 1 0 2 = Some 6"
proof -
  have "geometry (page_table demo_cache) = geometry demo_table"
    using demo_cache_step by (simp add: cache_step_def)
  then have "tensor_config (page_table demo_cache) = tensor_config demo_table" "quant_config (page_table demo_cache) = quant_config demo_table"
    "layer_configs (page_table demo_cache) = layer_configs demo_table" by (simp_all add: geometry_def)
  moreover have "tensor_config demo_table \<noteq> None" "quant_config demo_table = Some example_quant" "layer_configs demo_table \<noteq> []"
    "head_dim (layer_configs demo_table ! 0) = 3" "valid_slot demo_table 0 1 2" by code_simp+
  ultimately show "tensor_config (page_table demo_cache) \<noteq> None" "quant_config (page_table demo_cache) = Some example_quant"
    "layer_configs (page_table demo_cache) \<noteq> []" "valid_slot (page_table demo_cache) 0 1 2"
    "head_dim (layer_configs (page_table demo_cache) ! 0) = 3" by (simp_all add: valid_slot_def)
  show "sequence_lengths (page_table demo_cache) 0 = Some 1" "sequence_starts (page_table demo_cache) 0 = Some 0"
    "sequence_sink_lens (page_table demo_cache) 0 = Some 0" "token_value int_ops (page_table demo_cache) 0 0 Value 1 0 2 = Some 6"
    by code_simp+
qed

theorem materialize_returns_the_tokens_witness:
  "\<exists>m. materialize_sequence_to int_ops (page_table demo_cache) 0 1 = Inr m \<and> mat_sequence_len m = 1 \<and>
     mat_value (mat_layers m ! 0) ! 5 = 6"
proof -
  let ?T = "page_table demo_cache"
  have inv: "pt_inv (\<lambda>_. 0) ?T" "cache_wf ?T" using demo_cache_ok by (simp_all add: cache_inv_def)
  note ev = demo_cache_view
  note all = materialize_returns_the_tokens [OF inv ev(1-6), of int_ops 1]
  then obtain m where m: "materialize_sequence_to int_ops ?T 0 1 = Inr m"
    by (cases "materialize_sequence_to int_ops ?T 0 1") auto
  have "token_value int_ops ?T 0 0 Value 1 0 2 =
      Some (mat_value (mat_layers m ! 0) ! ((1 * mat_sequence_len m + bidx 0 0 0) * head_dim (layer_configs ?T ! 0) + 2))"
    "mat_sequence_len m = 1"
    using all m ev(7) by (auto dest!: spec [of _ m] spec [of _ "0::nat"] spec [of _ Value])
  with m ev(8,9) show ?thesis by (simp add: bidx_def)
qed

section \<open>Reading at a position and rewinding\<close>

lemma place_onto:
  assumes "j < H * n * (D::nat)"
  obtains h t d where "j = (h * n + t) * D + d" "h < H" "t < n" "d < D"
proof -
  have D: "D > 0" and n: "n > 0" using assms by (auto intro: gr0I)
  have "j div D < H * n" using assms by (simp add: less_mult_imp_div_less)
  then have "j div D div n < H" by (simp add: less_mult_imp_div_less)
  with that [of "j div D div n" "j div D mod n" "j mod D"] D n show thesis by simp
qed

lemma mat_ok_unique:
  assumes m: "mat_ok n gs V (all_slots gs {0..<n}) out" "mat_ok n gs W (all_slots gs {0..<n}) out'"
    and agree: "\<And>t l kd h d. t < n \<Longrightarrow> l < length gs \<Longrightarrow> h < num_kv_heads (gs ! l) \<Longrightarrow> d < head_dim (gs ! l) \<Longrightarrow>
      V t l kd h d = W t l kd h d"
  shows "out = out'"
proof (rule nth_equalityI)
  show len: "length out = length out'" using m by (simp add: mat_ok_def)
  fix l assume "l < length out"
  with m have l: "l < length gs" by (simp add: mat_ok_def)
  let ?N = "num_kv_heads (gs ! l) * n * head_dim (gs ! l)"
  have lens: "length (mat_key (out ! l)) = ?N" "length (mat_key (out' ! l)) = ?N"
    "length (mat_value (out ! l)) = ?N" "length (mat_value (out' ! l)) = ?N"
    using m l by (simp_all add: mat_ok_def)
  have "mat_key (out ! l) ! j = mat_key (out' ! l) ! j \<and> mat_value (out ! l) ! j = mat_value (out' ! l) ! j" if "j < ?N" for j
  proof -
    from place_onto [OF that] obtain h t d where j: "j = (h * n + t) * head_dim (gs ! l) + d"
      and b: "h < num_kv_heads (gs ! l)" "t < n" "d < head_dim (gs ! l)" by blast
    then have "(t, l, h, d) \<in> all_slots gs {0..<n}" using l by (simp add: all_slots_def)
    with m l b j agree [OF b(2) l b(1,3)] show ?thesis by (simp add: mat_ok_def)
  qed
  then have "mat_key (out ! l) = mat_key (out' ! l)" "mat_value (out ! l) = mat_value (out' ! l)"
    using lens by (simp_all add: list_eq_iff_nth_eq)
  with m l show "out ! l = out' ! l" by (auto simp: mat_ok_def intro!: MaterializedLayerKv.equality)
qed

lemma rewind_meta:
  assumes inv: "pt_inv ext T" and r: "rewind_to F T s pos = (U, Inr u)" "page_size T > 0"
    and sk: "sequence_starts T s = Some st" "sequence_sink_lens T s = Some k" "k \<le> pos"
  shows "sequence_starts U s = Some st" "sequence_sink_lens U s = Some k"
proof -
  from rewind_ok [OF r] sk obtain n ps m where ps: "get_sequence T s = Some ps" and n: "sequence_lengths T s = Some n"
    and Ueq: "U = (let T2 = free_all F (set_sequence_pages T s (take m ps)) (drop m ps);
              T3 = (if bidx k st pos > 0 then set_last_filled T2 s ((bidx k st pos - 1) mod page_size T + 1) else T2);
              T4 = set_sequence_len T3 s pos in
          if pos < k then set_sequence_start (set_sequence_sink_len T4 s 0) s 0 else T4)" by (metis option.inject)
  let ?T2 = "free_all F (set_sequence_pages T s (take m ps)) (drop m ps)"
  let ?T3 = "if bidx k st pos > 0 then set_last_filled ?T2 s ((bidx k st pos - 1) mod page_size T + 1) else ?T2"
  note d = drop_pages [OF inv ps, where qs = "take m ps" and rs = "drop m ps" and F = F, OF count_list_take_drop refl]
  have v: "seq_view ?T3 = seq_view ?T2" by (simp add: set_last_filled_view)
  have m3: "meta ?T3 = meta T" using seq_view_meta [OF v] d(2) by simp
  from trim_fields [where V = ?T3 and n = n and st = st and k = k, OF _ _ _ Ueq [unfolded Let_def]] metaD [OF m3] n sk
  show "sequence_starts U s = Some st" "sequence_sink_lens U s = Some k" by simp_all
qed

lemma bidx_onto:
  assumes "b < k + (e - st)" "k \<le> (st::nat)" "st \<le> e"
  obtains pos where "pos < e" "pos < k \<or> st \<le> pos" "bidx k st pos = b"
proof (cases "b < k")
  case True
  with assms show thesis by (intro that [of b]) (auto simp: bidx_def)
next
  case False
  with assms show thesis by (intro that [of "st + (b - k)"]) (auto simp: bidx_def)
qed



end
