(* ===== verification/PagedIndex.thy ===== *)
theory PagedIndex
  imports CacheReach
begin

text \<open>
  The index tensors of paged attention (\<open>paged_index.rs\<close>): a read-only translation of the
  page table into block tables, slot mappings and cumulative lengths, and the canonical
  element offset of a token-major cache. \<open>i32\<close> values are integers below \<open>2 ^ 31\<close>; conversions
  that do not fit are the typed errors of the source. Error texts are given without the
  numbers the source formats into them.
\<close>

section \<open>Geometry\<close>

definition MIN_PAGED_BLOCK_SIZE :: nat where
  "MIN_PAGED_BLOCK_SIZE = 16"

definition PAGED_BLOCK_TABLE_PAD :: int where
  "PAGED_BLOCK_TABLE_PAD = 0"

definition i32_max :: nat where
  "i32_max = 2 ^ 31 - 1"

definition is_power_of_two :: "nat \<Rightarrow> bool" where
  "is_power_of_two n \<longleftrightarrow> n \<in> set (map (\<lambda>k. 2 ^ k) [0..<64])"

definition is_valid_paged_block_size :: "nat \<Rightarrow> bool" where
  "is_valid_paged_block_size bs \<longleftrightarrow> MIN_PAGED_BLOCK_SIZE \<le> bs \<and> is_power_of_two bs"

record LatentCacheGeometry =
  lg_block_size :: nat
  latent_dim :: nat
  v_head_size :: nat
  rotary_dim :: nat
  rotary_offset :: nat

definition latent_validate :: "LatentCacheGeometry \<Rightarrow> KvError + unit" where
  "latent_validate g =
     (if \<not> is_valid_paged_block_size (lg_block_size g) then Inl (PagedInvalidBlockSize (lg_block_size g))
      else if latent_dim g = 0 then Inl (LatentGeometryInvalid ''latent_dim must be greater than zero'')
      else if \<not> 8 dvd latent_dim g then Inl (LatentGeometryInvalid ''latent_dim must be a multiple of 8'')
      else if v_head_size g = 0 \<or> v_head_size g > latent_dim g
      then Inl (LatentGeometryInvalid ''v_head_size must be in 1..=latent_dim'')
      else if rotary_dim g \<noteq> 0 \<and> \<not> 16 dvd rotary_dim g
      then Inl (LatentGeometryInvalid ''rotary_dim must be a multiple of 16'')
      else if \<not> 8 dvd rotary_offset g then Inl (LatentGeometryInvalid ''rotary_offset must be a multiple of 8'')
      else if rotary_offset g + rotary_dim g > latent_dim g
      then Inl (LatentGeometryInvalid ''rotary suffix exceeds latent_dim'')
      else Inr ())"

definition token_major_element_offset :: "nat \<Rightarrow> nat \<Rightarrow> nat \<Rightarrow> nat \<Rightarrow> nat \<Rightarrow> nat \<Rightarrow> nat \<Rightarrow> nat" where
  "token_major_element_offset bs heads head_size block_id off kv_head channel =
     ((block_id * bs + off) * heads + kv_head) * head_size + channel"

definition latent_element_offset :: "LatentCacheGeometry \<Rightarrow> nat \<Rightarrow> nat \<Rightarrow> nat \<Rightarrow> nat" where
  "latent_element_offset g block_id off channel =
     token_major_element_offset (lg_block_size g) 1 (latent_dim g) block_id off 0 channel"

section \<open>The index plan\<close>

record PagedRequest =
  pr_seq :: nat
  query_len :: nat

record PagedIndexPlan =
  block_table :: "int list"
  slot_mapping :: "int list"
  cumulative_sequence_length :: "int list"
  past_seqlens :: "int list"
  context_lens :: "int list"
  num_seqs :: nat
  plan_block_size :: nat
  max_num_blocks_per_seq :: nat
  token_count :: nat

definition i32_from_usize :: "nat \<Rightarrow> KvError \<Rightarrow> KvError + int" where
  "i32_from_usize v e = (if v \<le> i32_max then Inr (int v) else Inl e)"

definition i32_try_from :: "int \<Rightarrow> KvError \<Rightarrow> KvError + int" where
  "i32_try_from v e = (if v \<le> int i32_max then Inr v else Inl e)"

text \<open>One iteration of the first pass up to the conversions: the checks of a request.\<close>

definition check_request :: "'f PageTable \<Rightarrow> PagedRequest \<Rightarrow> KvError + nat list \<times> nat \<times> nat" where
  "check_request T r =
     (let s = pr_seq r in
      res_bind (ok_or (get_sequence T s) (SequenceNotFound s)) (\<lambda>ps.
      res_bind (ok_or (sequence_lengths T s) (SequenceNotFound s)) (\<lambda>context_len.
      let start = (case sequence_starts T s of None \<Rightarrow> 0 | Some a \<Rightarrow> a);
          sink = (case sequence_sink_lens T s of None \<Rightarrow> 0 | Some a \<Rightarrow> a);
          blocks_needed = div_ceil context_len (page_size T) in
      if start \<noteq> 0 \<or> sink \<noteq> 0 then Inl (PagedNonContiguousSequence s start sink)
      else if query_len r > context_len then Inl (PagedQueryExceedsContext s (query_len r) context_len)
      else if length ps < blocks_needed then Inl (PagedMissingPages s blocks_needed (length ps))
      else Inr (ps, context_len, context_len - query_len r))))"

record Gather =
  g_past :: "int list"
  g_context :: "int list"
  g_cumulative :: "int list"
  g_max_blocks :: nat
  g_tokens :: nat
  g_per_seq :: "(nat list \<times> nat \<times> nat) list"

fun gather :: "'f PageTable \<Rightarrow> PagedRequest list \<Rightarrow> Gather \<Rightarrow> KvError + Gather" where
  "gather T [] g = Inr g"
| "gather T (r # rs) g =
     res_bind (check_request T r) (\<lambda>(ps, context_len, past).
     res_bind (i32_from_usize past (PagedSlotOverflow (int past))) (\<lambda>past'.
     res_bind (i32_from_usize context_len (PagedSlotOverflow (int context_len))) (\<lambda>context'.
     let tokens = g_tokens g + query_len r in
     res_bind (i32_from_usize tokens (PagedSlotOverflow (int tokens))) (\<lambda>tokens'.
     gather T rs
       \<lparr>g_past = g_past g @ [past'], g_context = g_context g @ [context'],
        g_cumulative = g_cumulative g @ [tokens'],
        g_max_blocks = max (g_max_blocks g) (div_ceil context_len (page_size T)),
        g_tokens = tokens, g_per_seq = g_per_seq g @ [(ps, context_len, past)]\<rparr>))))"

fun fill_blocks :: "nat list \<Rightarrow> nat \<Rightarrow> nat list \<Rightarrow> int list \<Rightarrow> KvError + int list" where
  "fill_blocks ps row [] table = Inr table"
| "fill_blocks ps row (b # bs) table =
     res_bind (index_or_panic ps b) (\<lambda>page_id.
     res_bind (i32_try_from (int page_id) (PagedBlockIdOverflow page_id)) (\<lambda>entry.
     if row + b < length table then fill_blocks ps row bs (table[row + b := entry])
     else Inl (RustPanic ''index out of bounds'')))"

fun fill_positions :: "nat list \<Rightarrow> nat \<Rightarrow> nat list \<Rightarrow> int list \<Rightarrow> KvError + int list" where
  "fill_positions ps bs [] slots = Inr slots"
| "fill_positions ps bs (pos # rest) slots =
     res_bind (index_or_panic ps (pos div bs)) (\<lambda>page_id.
     let slot = int page_id * int bs + int (pos mod bs) in
     res_bind (i32_try_from slot (PagedSlotOverflow slot)) (\<lambda>slot'.
     fill_positions ps bs rest (slots @ [slot'])))"

fun fill_plan ::
  "nat \<Rightarrow> nat \<Rightarrow> nat \<Rightarrow> (nat list \<times> nat \<times> nat) list \<Rightarrow> int list \<Rightarrow> int list \<Rightarrow> KvError + int list \<times> int list" where
  "fill_plan bs width seq_idx [] table slots = Inr (table, slots)"
| "fill_plan bs width seq_idx ((ps, context_len, past) # rest) table slots =
     res_bind (fill_blocks ps (seq_idx * width) [0..<div_ceil context_len bs] table) (\<lambda>table'.
     res_bind (fill_positions ps bs [past..<context_len] slots) (\<lambda>slots'.
     fill_plan bs width (seq_idx + 1) rest table' slots'))"

definition plan_build :: "'f PageTable \<Rightarrow> PagedRequest list \<Rightarrow> KvError + PagedIndexPlan" where
  "plan_build T requests =
     (if \<not> is_valid_paged_block_size (page_size T) then Inl (PagedInvalidBlockSize (page_size T))
      else
       res_bind (gather T requests \<lparr>g_past = [], g_context = [], g_cumulative = [0], g_max_blocks = 0,
                                   g_tokens = 0, g_per_seq = []\<rparr>) (\<lambda>g.
       res_bind (fill_plan (page_size T) (g_max_blocks g) 0 (g_per_seq g)
                   (replicate (length requests * g_max_blocks g) PAGED_BLOCK_TABLE_PAD) []) (\<lambda>(table, slots).
       Inr \<lparr>block_table = table, slot_mapping = slots, cumulative_sequence_length = g_cumulative g,
            past_seqlens = g_past g, context_lens = g_context g, num_seqs = length requests,
            plan_block_size = page_size T, max_num_blocks_per_seq = g_max_blocks g, token_count = g_tokens g\<rparr>)))"

definition block_table_row :: "PagedIndexPlan \<Rightarrow> nat \<Rightarrow> KvError + int list" where
  "block_table_row p seq_index =
     (let start = seq_index * max_num_blocks_per_seq p in
      if start + max_num_blocks_per_seq p \<le> length (block_table p)
      then Inr (take (max_num_blocks_per_seq p) (drop start (block_table p)))
      else Inl (RustPanic ''range end index out of range''))"

definition emit_paged_index_plan :: "'f PagedKvCache \<Rightarrow> PagedRequest list \<Rightarrow> KvError + PagedIndexPlan" where
  "emit_paged_index_plan C requests = plan_build (page_table C) requests"

section \<open>The passes in closed form\<close>

lemma i32_from_usize_ok [simp]: "i32_from_usize v e = Inr x \<longleftrightarrow> v \<le> i32_max \<and> x = int v"
  by (auto simp: i32_from_usize_def)

lemma i32_try_from_ok [simp]: "i32_try_from v e = Inr x \<longleftrightarrow> v \<le> int i32_max \<and> x = v"
  by (auto simp: i32_try_from_def)

lemma index_ok [simp]: "index_or_panic xs i = Inr x \<longleftrightarrow> i < length xs \<and> x = xs ! i"
  by (auto simp: index_or_panic_def)

lemma check_request_ok:
  "check_request T r = Inr (ps, n, past) \<longleftrightarrow>
     get_sequence T (pr_seq r) = Some ps \<and> sequence_lengths T (pr_seq r) = Some n \<and>
     (case sequence_starts T (pr_seq r) of None \<Rightarrow> True | Some a \<Rightarrow> a = 0) \<and>
     (case sequence_sink_lens T (pr_seq r) of None \<Rightarrow> True | Some a \<Rightarrow> a = 0) \<and>
     query_len r \<le> n \<and> div_ceil n (page_size T) \<le> length ps \<and> past = n - query_len r"
  by (cases "get_sequence T (pr_seq r)"; cases "sequence_lengths T (pr_seq r)")
    (auto simp: check_request_def Let_def split: option.splits)

lemma gather_ok:
  "gather T rs g = Inr g' \<Longrightarrow>
     \<exists>xs. list_all2 (\<lambda>r x. check_request T r = Inr x) rs xs \<and> g_per_seq g' = g_per_seq g @ xs \<and>
       g_past g' = g_past g @ map (\<lambda>(_, _, past). int past) xs \<and>
       g_context g' = g_context g @ map (\<lambda>(_, n, _). int n) xs \<and>
       g_tokens g' = g_tokens g + sum_list (map query_len rs) \<and>
       g_cumulative g' = g_cumulative g @ map (\<lambda>j. int (g_tokens g + sum_list (map query_len (take (Suc j) rs)))) [0..<length rs] \<and>
       g_max_blocks g \<le> g_max_blocks g' \<and> (\<forall>(_, n, _) \<in> set xs. div_ceil n (page_size T) \<le> g_max_blocks g')"
proof (induction rs arbitrary: g)
  case (Cons r rs)
  from Cons.prems obtain ps n past where c: "check_request T r = Inr (ps, n, past)" and
    rest: "gather T rs \<lparr>g_past = g_past g @ [int past], g_context = g_context g @ [int n],
        g_cumulative = g_cumulative g @ [int (g_tokens g + query_len r)],
        g_max_blocks = max (g_max_blocks g) (div_ceil n (page_size T)),
        g_tokens = g_tokens g + query_len r, g_per_seq = g_per_seq g @ [(ps, n, past)]\<rparr> = Inr g'"
    by (auto simp: Let_def)
  have upt: "[0..<Suc (length rs)] = 0 # map Suc [0..<length rs]" by (simp add: upt_conv_Cons map_Suc_upt del: upt_Suc)
  from Cons.IH [OF rest] obtain xs where xs: "list_all2 (\<lambda>r x. check_request T r = Inr x) rs xs"
    "g_per_seq g' = g_per_seq g @ (ps, n, past) # xs" "g_past g' = g_past g @ int past # map (\<lambda>(_, _, past). int past) xs"
    "g_context g' = g_context g @ int n # map (\<lambda>(_, n, _). int n) xs"
    "g_tokens g' = g_tokens g + query_len r + sum_list (map query_len rs)"
    "g_cumulative g' = g_cumulative g @ int (g_tokens g + query_len r) #
        map (\<lambda>j. int (g_tokens g + query_len r + sum_list (map query_len (take (Suc j) rs)))) [0..<length rs]"
    "max (g_max_blocks g) (div_ceil n (page_size T)) \<le> g_max_blocks g'"
    "\<forall>(_, n, _) \<in> set xs. div_ceil n (page_size T) \<le> g_max_blocks g'" by auto
  then show ?case using c by (intro exI [of _ "(ps, n, past) # xs"]) (simp add: upt comp_def algebra_simps del: upt_Suc)
qed simp

lemma fill_blocks_ok:
  "fill_blocks ps row bs table = Inr table' \<Longrightarrow>
     length table' = length table \<and>
     (\<forall>i. table' ! i = (if row \<le> i \<and> i - row \<in> set bs then int (ps ! (i - row)) else table ! i))"
proof (induction bs arbitrary: table)
  case (Cons b bs)
  from Cons.prems have "b < length ps" "row + b < length table"
    and rest: "fill_blocks ps row bs (table[row + b := int (ps ! b)]) = Inr table'" by (auto split: if_splits)
  with Cons.IH [OF rest] show ?case by (auto simp: nth_list_update)
qed simp

definition page_slot :: "nat list \<Rightarrow> nat \<Rightarrow> nat \<Rightarrow> int" where
  "page_slot ps bs pos = int (ps ! (pos div bs)) * int bs + int (pos mod bs)"

lemma fill_positions_ok:
  "fill_positions ps bs ns slots = Inr slots' \<longleftrightarrow>
     slots' = slots @ map (page_slot ps bs) ns \<and>
     (\<forall>pos \<in> set ns. pos div bs < length ps \<and> page_slot ps bs pos \<le> int i32_max)"
  by (induction ns arbitrary: slots) (auto simp: Let_def page_slot_def)

lemma fill_plan_ok:
  "fill_plan bs width k xs table slots = Inr (table', slots') \<Longrightarrow> \<forall>(_, n, _) \<in> set xs. div_ceil n bs \<le> width \<Longrightarrow>
     length table' = length table \<and>
     slots' = slots @ concat (map (\<lambda>(ps, n, past). map (page_slot ps bs) [past..<n]) xs) \<and>
     (\<forall>i < k * width. table' ! i = table ! i) \<and>
     (\<forall>j < length xs. \<forall>b < width. table' ! ((k + j) * width + b) =
        (case xs ! j of (ps, n, _) \<Rightarrow> if b < div_ceil n bs then int (ps ! b) else table ! ((k + j) * width + b)))"
proof (induction xs arbitrary: k table slots)
  case (Cons x xs)
  obtain ps n past where x: "x = (ps, n, past)" by (cases x) auto
  from Cons.prems(1) obtain t1 where t1: "fill_blocks ps (k * width) [0..<div_ceil n bs] table = Inr t1"
    and rest: "fill_plan bs width (Suc k) xs t1 (slots @ map (page_slot ps bs) [past..<n]) = Inr (table', slots')"
    unfolding x by (auto simp: fill_positions_ok)
  have fits: "div_ceil n bs \<le> width" "\<forall>(_, n, _) \<in> set xs. div_ceil n bs \<le> width" using Cons.prems(2) x by auto
  note f1 = fill_blocks_ok [OF t1]
  note ih = Cons.IH [OF rest fits(2)]
  have low: "t1 ! i = table ! i" if "i < k * width \<or> Suc k * width \<le> i" for i
    using f1 that fits(1) by auto
  have rows: "table' ! ((k + j) * width + b) =
        (case (x # xs) ! j of (ps, n, _) \<Rightarrow> if b < div_ceil n bs then int (ps ! b) else table ! ((k + j) * width + b))"
    if "j < length (x # xs)" "b < width" for j b
  proof (cases j)
    case 0
    have "k * width + b < Suc k * width" using that by simp
    then have "table' ! (k * width + b) = t1 ! (k * width + b)" using ih by blast
    then show ?thesis using f1 0 x by simp
  next
    case (Suc j')
    have "t1 ! ((Suc k + j') * width + b) = table ! ((Suc k + j') * width + b)" by (rule low) (simp add: algebra_simps)
    with ih that Suc show ?thesis by (auto split: prod.split)
  qed
  have "table' ! i = table ! i" if "i < k * width" for i
    using that ih low [of i] by (simp add: trans_less_add2)
  with ih f1 rows x show ?case by simp
qed simp

section \<open>Addresses of tokens\<close>

definition seq_length :: "'f PageTable \<Rightarrow> nat \<Rightarrow> nat" where
  "seq_length T s = (case sequence_lengths T s of None \<Rightarrow> 0 | Some n \<Rightarrow> n)"

definition seq_pages :: "'f PageTable \<Rightarrow> nat \<Rightarrow> nat list" where
  "seq_pages T s = (case get_sequence T s of None \<Rightarrow> [] | Some ps \<Rightarrow> ps)"

definition query_range :: "'f PageTable \<Rightarrow> PagedRequest \<Rightarrow> nat list" where
  "query_range T r = [seq_length T (pr_seq r) - query_len r..<seq_length T (pr_seq r)]"

text \<open>What a kernel reads at a physical slot.\<close>

definition read_slot :: "'f f32_ops \<Rightarrow> 'f PageTable \<Rightarrow> int \<Rightarrow> nat \<Rightarrow> KvKind \<Rightarrow> nat \<Rightarrow> nat \<Rightarrow> 'f option" where
  "read_slot F T slot l kd h x =
     (case get_page T (nat slot div page_size T) of
        None \<Rightarrow> None
      | Some p \<Rightarrow>
          (case value_at_slot F p (page_size T) (head_dim (layer_configs T ! l)) (component_index l kd)
                  h (nat slot mod page_size T) x of
             Inl _ \<Rightarrow> None | Inr v \<Rightarrow> Some v))"

lemma page_slot_parts:
  assumes "bs > 0"
  shows "nat (page_slot ps bs pos) div bs = ps ! (pos div bs)" "nat (page_slot ps bs pos) mod bs = pos mod bs"
proof -
  have "nat (page_slot ps bs pos) = ps ! (pos div bs) * bs + pos mod bs"
    unfolding page_slot_def by (simp flip: of_nat_mult of_nat_add)
  with assms show "nat (page_slot ps bs pos) div bs = ps ! (pos div bs)" "nat (page_slot ps bs pos) mod bs = pos mod bs"
    by simp_all
qed

lemma plan_ok:
  assumes "plan_build T rs = Inr p"
  obtains xs where "list_all2 (\<lambda>r x. check_request T r = Inr x) rs xs" "is_valid_paged_block_size (page_size T)"
    "slot_mapping p = concat (map (\<lambda>(ps, n, past). map (page_slot ps (page_size T)) [past..<n]) xs)"
    "past_seqlens p = map (\<lambda>(_, _, past). int past) xs" "context_lens p = map (\<lambda>(_, n, _). int n) xs"
    "cumulative_sequence_length p = map (\<lambda>j. int (sum_list (map query_len (take j rs)))) [0..<length rs + 1]"
    "token_count p = sum_list (map query_len rs)" "length (block_table p) = length rs * max_num_blocks_per_seq p"
    "\<forall>j < length xs. case xs ! j of (ps, n, _) \<Rightarrow> div_ceil n (page_size T) \<le> max_num_blocks_per_seq p \<and>
       (\<forall>b < div_ceil n (page_size T). block_table p ! (j * max_num_blocks_per_seq p + b) = int (ps ! b))"
proof -
  let ?g0 = "\<lparr>g_past = [], g_context = [], g_cumulative = [0], g_max_blocks = 0, g_tokens = 0, g_per_seq = []\<rparr>"
  from assms obtain g table slots where valid: "is_valid_paged_block_size (page_size T)" and g: "gather T rs ?g0 = Inr g"
    and f: "fill_plan (page_size T) (g_max_blocks g) 0 (g_per_seq g)
       (replicate (length rs * g_max_blocks g) PAGED_BLOCK_TABLE_PAD) [] = Inr (table, slots)"
    and p: "p = \<lparr>block_table = table, slot_mapping = slots, cumulative_sequence_length = g_cumulative g,
            past_seqlens = g_past g, context_lens = g_context g, num_seqs = length rs,
            plan_block_size = page_size T, max_num_blocks_per_seq = g_max_blocks g, token_count = g_tokens g\<rparr>"
    by (auto simp: plan_build_def split: if_splits)
  from gather_ok [OF g] obtain xs where xs: "list_all2 (\<lambda>r x. check_request T r = Inr x) rs xs" "g_per_seq g = xs"
    "g_past g = map (\<lambda>(_, _, past). int past) xs" "g_context g = map (\<lambda>(_, n, _). int n) xs"
    "g_tokens g = sum_list (map query_len rs)"
    "g_cumulative g = 0 # map (\<lambda>j. int (sum_list (map query_len (take (Suc j) rs)))) [0..<length rs]"
    "\<forall>(_, n, _) \<in> set xs. div_ceil n (page_size T) \<le> g_max_blocks g" by auto
  have upt: "[0..<length rs + 1] = 0 # map Suc [0..<length rs]" by (simp add: upt_conv_Cons map_Suc_upt del: upt_Suc)
  note fp = fill_plan_ok [OF f, unfolded xs(2), OF xs(7)]
  have "\<forall>j < length xs. case xs ! j of (ps, n, _) \<Rightarrow> div_ceil n (page_size T) \<le> max_num_blocks_per_seq p \<and>
       (\<forall>b < div_ceil n (page_size T). block_table p ! (j * max_num_blocks_per_seq p + b) = int (ps ! b))"
  proof (intro allI impI)
    fix j assume j: "j < length xs"
    obtain ps n past where x: "xs ! j = (ps, n, past)" by (cases "xs ! j") auto
    with xs(7) nth_mem [OF j] have "div_ceil n (page_size T) \<le> g_max_blocks g" by fastforce
    with fp j x show "case xs ! j of (ps, n, _) \<Rightarrow> div_ceil n (page_size T) \<le> max_num_blocks_per_seq p \<and>
       (\<forall>b < div_ceil n (page_size T). block_table p ! (j * max_num_blocks_per_seq p + b) = int (ps ! b))"
      by (auto simp: p)
  qed
  with that [of xs] xs valid fp p upt show thesis by (simp add: comp_def del: upt_Suc)
qed

definition request_view :: "'f PageTable \<Rightarrow> PagedRequest \<Rightarrow> nat list \<times> nat \<times> nat" where
  "request_view T r = (seq_pages T (pr_seq r), seq_length T (pr_seq r), seq_length T (pr_seq r) - query_len r)"

lemma check_request_view: "check_request T r = Inr x \<Longrightarrow> x = request_view T r"
  by (cases x) (simp add: check_request_ok request_view_def seq_pages_def seq_length_def)

lemma all_checked: "list_all2 (\<lambda>r x. check_request T r = Inr x) rs xs \<Longrightarrow> xs = map (request_view T) rs"
  by (induction rs xs rule: list_all2_induct) (auto dest: check_request_view)

text \<open>
  C17. The emitted index tensors address exactly the cache's tokens. The slot mapping lists,
  request by request, the physical slot of every query token; the block-table row of a
  request names the pages of its sequence; lengths and running totals are those of the
  requests; and a kernel that reads the slot of any token of a requested sequence finds the
  value the cache has stored for it.
\<close>

theorem plan_addresses_every_token:
  assumes wf: "cache_wf T" and p: "plan_build T rs = Inr p"
  shows "slot_mapping p = concat (map (\<lambda>r. map (page_slot (seq_pages T (pr_seq r)) (page_size T)) (query_range T r)) rs) \<and>
    past_seqlens p = map (\<lambda>r. int (seq_length T (pr_seq r) - query_len r)) rs \<and>
    context_lens p = map (\<lambda>r. int (seq_length T (pr_seq r))) rs \<and>
    cumulative_sequence_length p = map (\<lambda>j. int (sum_list (map query_len (take j rs)))) [0..<length rs + 1] \<and>
    token_count p = length (slot_mapping p) \<and>
    (\<forall>j b. j < length rs \<and> b * page_size T < seq_length T (pr_seq (rs ! j)) \<longrightarrow>
       block_table p ! (j * max_num_blocks_per_seq p + b) = int (seq_pages T (pr_seq (rs ! j)) ! b)) \<and>
    (\<forall>r \<in> set rs. \<forall>pos < seq_length T (pr_seq r). \<forall>l kd h x.
       read_slot F T (page_slot (seq_pages T (pr_seq r)) (page_size T) pos) l kd h x = token_value F T (pr_seq r) l kd h pos x)"
proof -
  have P: "page_size T > 0" using wf by (simp add: cache_wf_def)
  obtain xs where xs: "list_all2 (\<lambda>r x. check_request T r = Inr x) rs xs" 
    "slot_mapping p = concat (map (\<lambda>(ps, n, past). map (page_slot ps (page_size T)) [past..<n]) xs)"
    "past_seqlens p = map (\<lambda>(_, _, past). int past) xs" "context_lens p = map (\<lambda>(_, n, _). int n) xs"
    "cumulative_sequence_length p = map (\<lambda>j. int (sum_list (map query_len (take j rs)))) [0..<length rs + 1]"
    "token_count p = sum_list (map query_len rs)"
    "\<forall>j < length xs. case xs ! j of (ps, n, _) \<Rightarrow> div_ceil n (page_size T) \<le> max_num_blocks_per_seq p \<and>
       (\<forall>b < div_ceil n (page_size T). block_table p ! (j * max_num_blocks_per_seq p + b) = int (ps ! b))"
    by (rule plan_ok [OF p])
  note view = all_checked [OF xs(1)]
  have req: "check_request T r = Inr (request_view T r)" if "r \<in> set rs" for r
    using xs(1) that unfolding view by (induction rs) auto
  have slots: "slot_mapping p = concat (map (\<lambda>r. map (page_slot (seq_pages T (pr_seq r)) (page_size T)) (query_range T r)) rs)"
    using xs(2) by (simp add: view request_view_def query_range_def comp_def)
  have "query_len r \<le> seq_length T (pr_seq r)" if "r \<in> set rs" for r
    using req [OF that] by (simp add: request_view_def check_request_ok)
  then have "\<forall>r \<in> set rs. length (query_range T r) = query_len r" by (simp add: query_range_def)
  then have "sum_list (map (\<lambda>r. length (query_range T r)) rs) = sum_list (map query_len rs)"
    by (intro arg_cong [where f = sum_list] map_cong) simp_all
  then have count: "token_count p = length (slot_mapping p)" by (simp add: xs(6) slots length_concat comp_def)
  have blocks: "block_table p ! (j * max_num_blocks_per_seq p + b) = int (seq_pages T (pr_seq (rs ! j)) ! b)"
    if "j < length rs" "b * page_size T < seq_length T (pr_seq (rs ! j))" for j b
  proof -
    have "b < div_ceil (seq_length T (pr_seq (rs ! j))) (page_size T)"
      using that(2) div_ceil_le_iff [OF P, of "seq_length T (pr_seq (rs ! j))" b] by simp
    with xs(7) that(1) show ?thesis by (auto simp: view request_view_def)
  qed
  have reads: "read_slot F T (page_slot (seq_pages T (pr_seq r)) (page_size T) pos) l kd h x = token_value F T (pr_seq r) l kd h pos x"
    if r: "r \<in> set rs" and pos: "pos < seq_length T (pr_seq r)" for r pos l kd h x
  proof -
    let ?s = "pr_seq r"
    have c: "get_sequence T ?s = Some (seq_pages T ?s)" "sequence_lengths T ?s = Some (seq_length T ?s)"
      "case sequence_starts T ?s of None \<Rightarrow> True | Some a \<Rightarrow> a = 0" "case sequence_sink_lens T ?s of None \<Rightarrow> True | Some a \<Rightarrow> a = 0"
      using req [OF r] by (auto simp: request_view_def check_request_ok)
    have "seq_ok T ?s" using wf by (simp add: cache_wf_def)
    with c have slot: "slot_of T ?s pos = Some pos"
      using pos by (auto simp: slot_of_def bidx_def seq_ok_def split: option.splits)
    with slot_page [OF wf slot] c(1) show ?thesis
      unfolding read_slot_def page_slot_parts [OF P] by (auto simp: token_value_def)
  qed
  show ?thesis using slots xs(3-5) count blocks reads by (simp add: view request_view_def comp_def)
qed

text \<open>
  C18. When the requests are for different sequences and every page a query token falls in
  is owned by its sequence alone (what copy-on-write establishes before a write), no two
  query tokens of the batch are given the same slot.
\<close>

theorem plan_slots_are_distinct:
  assumes inv: "pt_inv ext T" and wf: "cache_wf T" and p: "plan_build T rs = Inr p"
    and different: "distinct (map pr_seq rs)"
    and owned: "\<And>r pos. r \<in> set rs \<Longrightarrow> pos \<in> set (query_range T r) \<Longrightarrow>
      map_option ref_count (get_page T (seq_pages T (pr_seq r) ! (pos div page_size T))) = Some 1"
  shows "distinct (slot_mapping p)"
proof -
  let ?P = "page_size T"
  have P: "?P > 0" using wf by (simp add: cache_wf_def)
  obtain xs where xs: "list_all2 (\<lambda>r x. check_request T r = Inr x) rs xs" 
    "slot_mapping p = concat (map (\<lambda>(ps, n, past). map (page_slot ps ?P) [past..<n]) xs)"
    by (rule plan_ok [OF p])
  note view = all_checked [OF xs(1)]
  have req: "check_request T r = Inr (request_view T r)" if "r \<in> set rs" for r
    using xs(1) that unfolding view by (induction rs) auto
  have place: "pr_seq r' = pr_seq r \<and> pos' = pos"
    if r: "r \<in> set rs" "pos \<in> set (query_range T r)" and r': "r' \<in> set rs" "pos' \<in> set (query_range T r')"
      and eq: "page_slot (seq_pages T (pr_seq r)) ?P pos = page_slot (seq_pages T (pr_seq r')) ?P pos'" for r r' pos pos'
  proof -
    have in_pages: "get_sequence T (pr_seq q) = Some (seq_pages T (pr_seq q)) \<and> k div ?P < length (seq_pages T (pr_seq q))"
      if "q \<in> set rs" "k \<in> set (query_range T q)" for q k
    proof -
      have c: "get_sequence T (pr_seq q) = Some (seq_pages T (pr_seq q))"
        "div_ceil (seq_length T (pr_seq q)) ?P \<le> length (seq_pages T (pr_seq q))"
        using req [OF that(1)] by (auto simp: request_view_def check_request_ok)
      then have "k < length (seq_pages T (pr_seq q)) * ?P"
        using that(2) div_ceil_le_iff [OF P] by (auto simp: query_range_def intro: less_le_trans)
      with c show ?thesis by (simp add: less_mult_imp_div_less)
    qed
    have same: "seq_pages T (pr_seq r') ! (pos' div ?P) = seq_pages T (pr_seq r) ! (pos div ?P)" "pos' mod ?P = pos mod ?P"
      using arg_cong [OF eq, of nat] page_slot_parts [OF P] by metis+
    obtain q where "get_page T (seq_pages T (pr_seq r) ! (pos div ?P)) = Some q" "ref_count q = 1"
      using owned [OF r] by auto
    from exclusive_place [OF inv this _ _ refl _ _ same(1)] in_pages [OF r] in_pages [OF r']
    have "pr_seq r' = pr_seq r" "pos' div ?P = pos div ?P" by blast+
    with same(2) show ?thesis by (metis div_mult_mod_eq)
  qed
  have "slot_mapping p = concat (map (\<lambda>r. map (page_slot (seq_pages T (pr_seq r)) ?P) (query_range T r)) rs)"
    using xs(2) by (simp add: view request_view_def query_range_def comp_def)
  moreover have "distinct (concat (map (\<lambda>r. map (page_slot (seq_pages T (pr_seq r)) ?P) (query_range T r)) rs))"
    using different place
  proof (induction rs)
    case (Cons r rs)
    have "inj_on (page_slot (seq_pages T (pr_seq r)) ?P) (set (query_range T r))"
      using Cons.prems(2) [of r _ r] by (intro inj_onI) auto
    then have "distinct (map (page_slot (seq_pages T (pr_seq r)) ?P) (query_range T r))"
      by (simp add: distinct_map query_range_def)
    moreover have "page_slot (seq_pages T (pr_seq r)) ?P a \<noteq> page_slot (seq_pages T (pr_seq r')) ?P b"
      if "a \<in> set (query_range T r)" "r' \<in> set rs" "b \<in> set (query_range T r')" for a r' b
    proof
      assume "page_slot (seq_pages T (pr_seq r)) ?P a = page_slot (seq_pages T (pr_seq r')) ?P b"
      with Cons.prems(2) [of r a r' b] that have "pr_seq r' = pr_seq r" by simp
      with Cons.prems(1) that(2) show False by (metis distinct.simps(2) image_eqI list.set_map list.simps(9))
    qed
    moreover have "distinct (concat (map (\<lambda>r. map (page_slot (seq_pages T (pr_seq r)) ?P) (query_range T r)) rs))"
      using Cons by auto
    ultimately show ?case by fastforce
  qed simp
  ultimately show ?thesis by simp
qed

section \<open>Success and addressing\<close>

text \<open>A request on an unwindowed sequence, whose tokens and slots fit 32-bit integers.\<close>

definition plannable :: "'f PageTable \<Rightarrow> PagedRequest \<Rightarrow> bool" where
  "plannable T r \<longleftrightarrow>
     sequence_starts T (pr_seq r) = Some 0 \<and> sequence_sink_lens T (pr_seq r) = Some 0 \<and>
     query_len r \<le> seq_length T (pr_seq r) \<and> seq_length T (pr_seq r) \<le> i32_max"

lemma plannable_check:
  assumes "cache_wf T" "plannable T r"
  shows "check_request T r = Inr (request_view T r)"
proof -
  have P: "page_size T > 0" and "seq_ok T (pr_seq r)" using assms(1) by (simp_all add: cache_wf_def)
  with assms(2) show ?thesis
    by (auto simp: plannable_def seq_ok_def request_view_def check_request_ok seq_pages_def seq_length_def div_ceil_le_iff
        split: option.splits)
qed

lemma gather_succeeds:
  "cache_wf T \<Longrightarrow> \<forall>r \<in> set rs. plannable T r \<Longrightarrow> g_tokens g + sum_list (map query_len rs) \<le> i32_max \<Longrightarrow>
     is_ok (gather T rs g)"
proof (induction rs arbitrary: g)
  case (Cons r rs)
  have c: "check_request T r = Inr (request_view T r)" by (rule plannable_check) (use Cons.prems in auto)
  have "seq_length T (pr_seq r) \<le> i32_max" "g_tokens g + query_len r \<le> i32_max" using Cons.prems by (auto simp: plannable_def)
  with Cons c show ?case by (simp add: request_view_def i32_from_usize_def Let_def)
qed simp

lemma fill_blocks_succeeds:
  "\<forall>b \<in> set bs. b < length ps \<and> row + b < length table \<Longrightarrow> \<forall>i \<in> set ps. i \<le> i32_max \<Longrightarrow>
     is_ok (fill_blocks ps row bs table)"
  by (induction bs arbitrary: table) (auto simp: index_or_panic_def i32_try_from_def)

lemma fill_plan_succeeds:
  assumes "bs > 0"
  shows "\<forall>(ps, n, past) \<in> set xs. div_ceil n bs \<le> width \<and> div_ceil n bs \<le> length ps \<and> (\<forall>i \<in> set ps. (i + 1) * bs \<le> i32_max) \<Longrightarrow>
     length table = (k + length xs) * width \<Longrightarrow> is_ok (fill_plan bs width k xs table slots)"
proof (induction xs arbitrary: k table slots)
  case (Cons x xs)
  obtain ps n past where x: "x = (ps, n, past)" by (cases x) auto
  have fit: "div_ceil n bs \<le> width" "div_ceil n bs \<le> length ps" "\<forall>i \<in> set ps. (i + 1) * bs \<le> i32_max"
    using Cons.prems(1) x by auto
  have small: "i \<le> i32_max" if "i \<in> set ps" for i
  proof -
    have "i * 1 \<le> (i + 1) * bs" using assms by (intro mult_le_mono) simp_all
    with fit(3) that show ?thesis by (metis le_trans mult.right_neutral)
  qed
  have "is_ok (fill_blocks ps (k * width) [0..<div_ceil n bs] table)"
  proof (rule fill_blocks_succeeds)
    show "\<forall>b \<in> set [0..<div_ceil n bs]. b < length ps \<and> k * width + b < length table"
      using fit Cons.prems(2) by (auto simp: algebra_simps)
  qed (use small in blast)
  then obtain t1 where t1: "fill_blocks ps (k * width) [0..<div_ceil n bs] table = Inr t1" by (auto elim: is_ok.elims)
  have "page_slot ps bs pos \<le> int i32_max \<and> pos div bs < length ps" if "pos < n" for pos
  proof -
    have "n \<le> length ps * bs" using fit(2) div_ceil_le_iff [OF assms] by simp
    then have d: "pos div bs < length ps" using that by (simp add: less_mult_imp_div_less)
    have "ps ! (pos div bs) * bs + pos mod bs \<le> (ps ! (pos div bs) + 1) * bs" using assms by (simp add: less_imp_le)
    also have "\<dots> \<le> i32_max" using fit(3) nth_mem [OF d] by blast
    finally show ?thesis using d by (simp add: page_slot_def flip: of_nat_mult of_nat_add)
  qed
  then have "fill_positions ps bs [past..<n] slots = Inr (slots @ map (page_slot ps bs) [past..<n])" by (simp add: fill_positions_ok)
  moreover have "length t1 = (Suc k + length xs) * width" using fill_blocks_ok [OF t1] Cons.prems(2) by simp
  ultimately show ?case using Cons t1 x by simp
qed simp

text \<open>
  C19. Plans are always emitted for well-formed input: on a consistent cache with a valid
  block size, requests on sequences without a window, with no more query tokens than
  tokens, succeed when the totals and the physical slots of the pool fit 32 bits. In
  particular the page lists are never too short and no index is out of range.
\<close>

theorem plan_succeeds:
  assumes inv: "pt_inv ext T" and wf: "cache_wf T" and bs: "is_valid_paged_block_size (page_size T)"
    and rs: "\<forall>r \<in> set rs. plannable T r" and total: "sum_list (map query_len rs) \<le> i32_max"
    and pool: "next_page_id T * page_size T \<le> i32_max"
  shows "is_ok (plan_build T rs)"
proof -
  let ?g0 = "\<lparr>g_past = [], g_context = [], g_cumulative = [0], g_max_blocks = 0, g_tokens = 0, g_per_seq = []\<rparr>"
  have P: "page_size T > 0" using wf by (simp add: cache_wf_def)
  from gather_succeeds [OF wf rs, of ?g0] total obtain g where g: "gather T rs ?g0 = Inr g" by (auto elim: is_ok.elims)
  from gather_ok [OF g] obtain xs where xs: "list_all2 (\<lambda>r x. check_request T r = Inr x) rs xs" "g_per_seq g = xs"
    "\<forall>(_, n, _) \<in> set xs. div_ceil n (page_size T) \<le> g_max_blocks g" by auto
  have "div_ceil n (page_size T) \<le> length ps \<and> (\<forall>i \<in> set ps. (i + 1) * page_size T \<le> i32_max)"
    if x: "(ps, n, past) \<in> set xs" for ps n past
  proof -
    from x obtain r where r: "r \<in> set rs" "request_view T r = (ps, n, past)" by (auto simp: all_checked [OF xs(1)])
    with plannable_check [OF wf] rs have c: "get_sequence T (pr_seq r) = Some ps" "div_ceil n (page_size T) \<le> length ps"
      by (fastforce simp: check_request_ok)+
    have "(i + 1) * page_size T \<le> i32_max" if "i \<in> set ps" for i
    proof -
      from sequence_page_live [OF inv c(1) that] have "i < next_page_id T" by (auto simp: page_ok_def)
      then have "(i + 1) * page_size T \<le> next_page_id T * page_size T" by (intro mult_le_mono1) simp
      with pool show ?thesis by simp
    qed
    with c(2) show ?thesis by blast
  qed
  with xs(3) have "\<forall>(ps, n, past) \<in> set xs. div_ceil n (page_size T) \<le> g_max_blocks g \<and>
      div_ceil n (page_size T) \<le> length ps \<and> (\<forall>i \<in> set ps. (i + 1) * page_size T \<le> i32_max)" by fastforce
  from fill_plan_succeeds [OF P this, of "replicate (length rs * g_max_blocks g) PAGED_BLOCK_TABLE_PAD" 0 "[]"]
  have "is_ok (fill_plan (page_size T) (g_max_blocks g) 0 xs (replicate (length rs * g_max_blocks g) PAGED_BLOCK_TABLE_PAD) [])"
    using xs(1) by (simp add: list_all2_lengthD)
  then show ?thesis using bs g xs(2) by (auto simp: plan_build_def elim!: is_ok.elims split: prod.split)
qed

text \<open>
  The element offset of a token-major cache is an injection of the in-range
  coordinates into the cache's elements: two coordinates share an offset only when they are
  the same, and every offset lies inside the \<open>blocks * block_size * heads * head_size\<close> buffer.
\<close>

lemma element_offset_is_injective:
  assumes "off < bs" "h < heads" "c < hs" "off' < bs" "h' < heads" "c' < hs" "b < blocks"
  shows "(token_major_element_offset bs heads hs b off h c = token_major_element_offset bs heads hs b' off' h' c' \<longleftrightarrow>
      (b, off, h, c) = (b', off', h', c')) \<and>
    token_major_element_offset bs heads hs b off h c < blocks * bs * heads * hs"
proof -
  have inj: "x * m + y = x' * m + y' \<longleftrightarrow> x = x' \<and> y = y'" if "y < m" "y' < m" for x x' y y' m :: nat
    using that by (metis div_mult_self3 div_less add.commute add_0 mod_mult_self3 mod_less add_left_cancel not_less0 gr_implies_not0)
  have step: "x * m + y < n * m" if "x < n" "y < m" for x y n m :: nat
  proof -
    have "x * m + y < Suc x * m" using that by simp
    also have "\<dots> \<le> n * m" using that by (intro mult_le_mono1) simp
    finally show ?thesis .
  qed
  show ?thesis unfolding token_major_element_offset_def
    using inj [OF assms(3,6)] inj [OF assms(2,5)] inj [OF assms(1,4)] step [OF step [OF step [OF assms(7,1)] assms(2)] assms(3)]
    by simp
qed

text \<open>One sequence of one token in blocks of sixteen.\<close>

definition paged_table :: "int PageTable" where
  "paged_table = fst (append_tokens int_ops (pt_create_sequence (pt_build int_ops (ledger_new 1 0 0 0) 16 2 None [] None) 0) 0 1)"

lemma paged_table_ok: "pt_inv (\<lambda>_. 0) paged_table" "cache_wf paged_table"
proof -
  let ?B = "pt_build int_ops (ledger_new 1 0 0 0) 16 2 None [] None"
  let ?T = "pt_create_sequence ?B 0"
  have none: "get_sequence ?B 0 = None" by (simp add: pt_build_def get_sequence_def)
  have inv: "pt_inv (\<lambda>_. 0) ?T" by (rule create_sequence_inv [OF pt_build_inv none]) simp
  have wf: "cache_wf ?T" by (rule create_sequence_wf [OF cache_wf_no_sequences none]) (simp_all add: pt_build_def)
  have "next_page_id ?T + 1 \<le> u32_max" by (simp add: pt_create_sequence_def pt_build_def wrap_u32_def u32_max_def)
  from append_tokens_state [OF inv wf this, where U = paged_table and s = 0 and F = int_ops]
  have "cache_step 1 (\<lambda>_. 0) ?T paged_table" by (simp add: paged_table_def prod_eq_iff)
  then show "pt_inv (\<lambda>_. 0) paged_table" "cache_wf paged_table" by (simp_all add: cache_step_def)
qed

definition paged_request :: PagedRequest where
  "paged_request = \<lparr>pr_seq = 0, query_len = 1\<rparr>"

lemma paged_table_plan: "is_ok (plan_build paged_table [paged_request])"
  by code_simp

theorem plan_succeeds_witness: "is_ok (plan_build paged_table [paged_request])"
proof -
  have "is_valid_paged_block_size (page_size paged_table)" "plannable paged_table paged_request"
    "sum_list (map query_len [paged_request]) \<le> i32_max" "next_page_id paged_table * page_size paged_table \<le> i32_max"
    by code_simp+
  with plan_succeeds [OF paged_table_ok, of "[paged_request]"] show ?thesis by simp
qed

theorem plan_addresses_every_token_witness:
  "\<exists>p. plan_build paged_table [paged_request] = Inr p \<and> length (slot_mapping p) = token_count p"
proof -
  obtain p where p: "plan_build paged_table [paged_request] = Inr p"
    using paged_table_plan by (auto elim: is_ok.elims)
  with plan_addresses_every_token [OF paged_table_ok(2) p] show ?thesis by auto
qed

theorem plan_slots_are_distinct_witness:
  "\<exists>p. plan_build paged_table [paged_request] = Inr p \<and> distinct (slot_mapping p)"
proof -
  obtain p where p: "plan_build paged_table [paged_request] = Inr p"
    using paged_table_plan by (auto elim: is_ok.elims)
  have "query_range paged_table paged_request = [0]"
    "map_option ref_count (get_page paged_table (seq_pages paged_table (pr_seq paged_request) ! (0 div page_size paged_table))) = Some 1"
    by code_simp+
  with plan_slots_are_distinct [OF paged_table_ok p] have "distinct (slot_mapping p)" by simp
  with p show ?thesis by blast
qed

end
