(* ===== verification/PrefixCache.thy ===== *)
theory PrefixCache
  imports CacheReach
begin

text \<open>
  The prefix cache (\<open>prefix_cache.rs\<close>): a trie over token ids whose nodes hold references to
  pages of the page table, shared out by \<open>lookup_shared\<close> and reclaimed least recently used
  first. Children are an association list (the hash map in one iteration order); the
  eviction walk visits them in token order as the source sorts them. The opaque snapshot
  of a node is a value of the type parameter \<open>'s\<close>; a lookup asks for it through the test
  \<open>as_t\<close>, which stands for \<open>Arc::downcast\<close>.
\<close>

section \<open>The trie\<close>

datatype 's TrieNode =
  TrieNode (children: "(nat \<times> 's TrieNode) list") (node_pages: "nat list") (snapshot: "'s option")
    (node_refs: nat) (node_access: nat)

record 's PrefixCache =
  root :: "'s TrieNode"
  pc_clock :: nat

record PrefixMatch =
  matched_tokens :: nat
  match_pages :: "nat list"

definition trie_new :: "nat \<Rightarrow> 's TrieNode" where
  "trie_new access = TrieNode [] [] None 0 access"

definition prefix_new :: "'s PrefixCache" where
  "prefix_new = \<lparr>root = trie_new 0, pc_clock = 0\<rparr>"

fun lookup_from :: "'s TrieNode \<Rightarrow> nat list \<Rightarrow> nat \<Rightarrow> nat \<times> nat list \<Rightarrow> nat \<times> nat list" where
  "lookup_from nd [] idx best = best"
| "lookup_from nd (t # ts) idx best =
     (case map_of (children nd) t of
        None \<Rightarrow> best
      | Some child \<Rightarrow>
          lookup_from child ts (idx + 1) (if node_pages child \<noteq> [] then (idx + 1, node_pages child) else best))"

definition lookup :: "'s PrefixCache \<Rightarrow> nat list \<Rightarrow> nat \<times> nat list" where
  "lookup C toks = lookup_from (root C) toks 0 (0, [])"

fun find_node :: "'s TrieNode \<Rightarrow> nat list \<Rightarrow> 's TrieNode option" where
  "find_node nd [] = Some nd"
| "find_node nd (t # ts) =
     (case map_of (children nd) t of None \<Rightarrow> None | Some child \<Rightarrow> find_node child ts)"

text \<open>
  A change through the \<open>&mut\<close> node that \<open>find_node_mut\<close> returns: the node at the path is
  replaced, the rest of the trie stays.
\<close>

fun modify_node :: "('s TrieNode \<Rightarrow> 's TrieNode) \<Rightarrow> nat list \<Rightarrow> 's TrieNode \<Rightarrow> 's TrieNode" where
  "modify_node f [] nd = f nd"
| "modify_node f (t # ts) (TrieNode cs ps sn rc la) =
     (case map_of cs t of
        None \<Rightarrow> TrieNode cs ps sn rc la
      | Some child \<Rightarrow> TrieNode (AList.update t (modify_node f ts child) cs) ps sn rc la)"

text \<open>The descent of the insertions: missing nodes are created, the path is stamped.\<close>

fun insert_path :: "nat \<Rightarrow> ('s TrieNode \<Rightarrow> 's TrieNode) \<Rightarrow> nat list \<Rightarrow> 's TrieNode \<Rightarrow> 's TrieNode" where
  "insert_path now f [] nd = f nd"
| "insert_path now f (t # ts) (TrieNode cs ps sn rc la) =
     (let child = (case map_of cs t of None \<Rightarrow> trie_new now | Some c \<Rightarrow> c);
          stamped = (case child of TrieNode cs' ps' sn' rc' la' \<Rightarrow> TrieNode cs' ps' sn' rc' now) in
      TrieNode (AList.update t (insert_path now f ts stamped) cs) ps sn rc la)"

fun set_pages :: "nat list \<Rightarrow> 's TrieNode \<Rightarrow> 's TrieNode" where
  "set_pages ps' (TrieNode cs ps sn rc la) = TrieNode cs ps' sn rc la"

fun set_snapshot :: "'s option \<Rightarrow> 's TrieNode \<Rightarrow> 's TrieNode" where
  "set_snapshot sn' (TrieNode cs ps sn rc la) = TrieNode cs ps sn' rc la"

fun set_refs :: "nat \<Rightarrow> 's TrieNode \<Rightarrow> 's TrieNode" where
  "set_refs rc' (TrieNode cs ps sn rc la) = TrieNode cs ps sn rc' la"

definition insert_inner :: "'s PrefixCache \<Rightarrow> nat list \<Rightarrow> nat list \<Rightarrow> 's PrefixCache \<times> PrefixMatch" where
  "insert_inner C toks ps =
     (let c = pc_clock C + 1 in
      (\<lparr>root = insert_path c (set_pages ps) toks (root C), pc_clock = c\<rparr>,
       \<lparr>matched_tokens = length toks, match_pages = ps\<rparr>))"

definition prefix_insert :: "'s PrefixCache \<Rightarrow> nat list \<Rightarrow> nat list \<Rightarrow> 's PrefixCache" where
  "prefix_insert C toks ps = fst (insert_inner C toks ps)"

fun retain_all :: "'f PageTable \<Rightarrow> nat list \<Rightarrow> 'f PageTable" where
  "retain_all T [] = T"
| "retain_all T (i # is) = retain_all (fst (retain T i)) is"

definition insert_pages ::
  "'s PrefixCache \<Rightarrow> nat list \<Rightarrow> nat list \<Rightarrow> 'f PageTable \<Rightarrow> 's PrefixCache \<times> 'f PageTable \<times> PrefixMatch" where
  "insert_pages C toks ps T =
     (case insert_inner C toks ps of (C', m) \<Rightarrow> (C', retain_all T ps, m))"

definition insert_snapshot :: "'s PrefixCache \<Rightarrow> nat list \<Rightarrow> 's \<Rightarrow> 's PrefixCache \<times> PrefixMatch" where
  "insert_snapshot C toks sn =
     (let c = pc_clock C + 1; r = insert_path c (set_snapshot (Some sn)) toks (root C) in
      (\<lparr>root = r, pc_clock = c\<rparr>,
       \<lparr>matched_tokens = length toks,
        match_pages = (case find_node r toks of None \<Rightarrow> [] | Some nd \<Rightarrow> node_pages nd)\<rparr>))"

text \<open>The mutable descents of the lookups stamp every node they pass.\<close>

fun stamp_path :: "nat \<Rightarrow> nat list \<Rightarrow> 's TrieNode \<Rightarrow> 's TrieNode" where
  "stamp_path now [] nd = nd"
| "stamp_path now (t # ts) (TrieNode cs ps sn rc la) =
     (case map_of cs t of
        None \<Rightarrow> TrieNode cs ps sn rc la
      | Some (TrieNode cs' ps' sn' rc' la') \<Rightarrow>
          TrieNode (AList.update t (stamp_path now ts (TrieNode cs' ps' sn' rc' now)) cs) ps sn rc la)"

fun best_snapshot :: "'s TrieNode \<Rightarrow> nat list \<Rightarrow> nat \<Rightarrow> (nat \<times> 's) option \<Rightarrow> (nat \<times> 's) option" where
  "best_snapshot nd [] idx best = best"
| "best_snapshot nd (t # ts) idx best =
     (case map_of (children nd) t of
        None \<Rightarrow> best
      | Some child \<Rightarrow>
          best_snapshot child ts (idx + 1)
            (case snapshot child of None \<Rightarrow> best | Some sn \<Rightarrow> Some (idx + 1, sn)))"

definition lookup_snapshot ::
  "('s \<Rightarrow> 't option) \<Rightarrow> 's PrefixCache \<Rightarrow> nat list \<Rightarrow> 's PrefixCache \<times> (nat \<times> 't) option" where
  "lookup_snapshot as_t C toks =
     (let c = pc_clock C + 1 in
      (\<lparr>root = stamp_path c toks (root C), pc_clock = c\<rparr>,
       case best_snapshot (root C) toks 0 None of
         None \<Rightarrow> None
       | Some (d, sn) \<Rightarrow> map_option (\<lambda>x. (d, x)) (as_t sn)))"

definition lookup_shared ::
  "'s PrefixCache \<Rightarrow> nat list \<Rightarrow> 'f PageTable \<Rightarrow> 's PrefixCache \<times> 'f PageTable \<times> PrefixMatch" where
  "lookup_shared C toks T =
     (let c = pc_clock C + 1;
          (best_depth, best_pages) = lookup_from (root C) toks 0 (0, []);
          r = stamp_path c toks (root C) in
      if best_depth > 0
      then (\<lparr>root = modify_node (\<lambda>nd. set_refs (node_refs nd + 1) nd) (take best_depth toks) r, pc_clock = c\<rparr>,
            retain_all T best_pages, \<lparr>matched_tokens = best_depth, match_pages = best_pages\<rparr>)
      else (\<lparr>root = r, pc_clock = c\<rparr>, T, \<lparr>matched_tokens = 0, match_pages = best_pages\<rparr>))"

definition release_shared ::
  "'f f32_ops \<Rightarrow> 's PrefixCache \<Rightarrow> nat list \<Rightarrow> nat \<Rightarrow> 'f PageTable \<Rightarrow> 's PrefixCache \<times> 'f PageTable \<times> nat list" where
  "release_shared F C toks matched T =
     (if matched = 0 \<or> matched > length toks then (C, T, [])
      else (case find_node (root C) (take matched toks) of
              None \<Rightarrow> (C, T, [])
            | Some nd \<Rightarrow>
                if node_refs nd > 0
                then (C\<lparr>root := modify_node (set_refs (node_refs nd - 1)) (take matched toks) (root C)\<rparr>,
                      free_all F T (node_pages nd), node_pages nd)
                else (C, T, node_pages nd)))"

section \<open>Reclaiming\<close>

text \<open>
  The walk of \<open>visit_evictable\<close> and \<open>visit_snapshot_evictable\<close>, which differ in the test on a
  node: nodes before children, children in token order, a strictly older node replaces the
  best so far.
\<close>

lemma node_child_size [termination_simp]:
  "x \<in> set cs \<Longrightarrow> size (snd x) < Suc (size_list (\<lambda>x. Suc (size (snd x))) cs)"
  by (induction cs) auto

fun visit_best ::
  "('s TrieNode \<Rightarrow> bool) \<Rightarrow> 's TrieNode \<Rightarrow> nat list \<Rightarrow> (nat \<times> nat list) option \<Rightarrow> (nat \<times> nat list) option" where
  "visit_best ok (TrieNode cs ps sn rc la) path best =
     (let nd = TrieNode cs ps sn rc la;
          best1 = (if ok nd \<and> rc = 0 \<and> (case best of None \<Rightarrow> True | Some (a, _) \<Rightarrow> la < a)
                   then Some (la, path) else best) in
      fold (\<lambda>x b. visit_best ok (snd x) (path @ [fst x]) b) (sort_key fst cs) best1)"

definition find_lru_evictable_path :: "'s PrefixCache \<Rightarrow> nat list option" where
  "find_lru_evictable_path C = map_option snd (visit_best (\<lambda>nd. node_pages nd \<noteq> []) (root C) [] None)"

definition find_lru_snapshot_path :: "'s PrefixCache \<Rightarrow> nat list option" where
  "find_lru_snapshot_path C = map_option snd (visit_best (\<lambda>nd. snapshot nd \<noteq> None) (root C) [] None)"

definition clear_node :: "'s TrieNode \<Rightarrow> 's TrieNode" where
  "clear_node nd = set_snapshot None (set_pages [] nd)"

text \<open>A sum over the nodes of a trie of a quantity of their pages and reference counts.\<close>

fun node_sum :: "(nat list \<Rightarrow> nat \<Rightarrow> nat) \<Rightarrow> 's TrieNode \<Rightarrow> nat" where
  "node_sum g (TrieNode cs ps sn rc la) = g ps rc + weight (\<lambda>x. node_sum g (snd x)) cs"

lemma weight_update_first:
  "map_of al k = Some v \<Longrightarrow> weight f (AList.update k v' al) + f (k, v) = weight f al + f (k, v')"
  by (induction al) (auto split: if_splits)

lemma node_sum_setters [simp]:
  "node_sum g (set_pages ps' nd) + g (node_pages nd) (node_refs nd) = node_sum g nd + g ps' (node_refs nd)"
  "node_sum g (set_refs rc' nd) + g (node_pages nd) (node_refs nd) = node_sum g nd + g (node_pages nd) rc'"
  "node_sum g (set_snapshot sn' nd) = node_sum g nd"
  by (cases nd; simp)+

lemma modify_sum:
  "find_node nd path = Some x \<Longrightarrow>
     node_sum g (modify_node f path nd) + node_sum g x = node_sum g nd + node_sum g (f x)"
proof (induction path arbitrary: nd)
  case (Cons t ts)
  obtain cs ps sn rc la where nd: "nd = TrieNode cs ps sn rc la" by (cases nd)
  with Cons.prems obtain c where c: "map_of cs t = Some c" "find_node c ts = Some x" by (auto split: option.splits)
  from Cons.IH [OF c(2)] weight_update_first [OF c(1), of "\<lambda>x. node_sum g (snd x)" "modify_node f ts c"] show ?case
    by (simp add: nd c)
qed simp

definition pages_held :: "nat list \<Rightarrow> nat \<Rightarrow> nat" where
  "pages_held ps rc = (if ps = [] then 0 else 1)"

text \<open>
  The loop of \<open>evict_lru\<close>. Every round clears one node that held pages, so the number of such
  nodes bounds the rounds.
\<close>

function (sequential) evict_loop ::
  "'f f32_ops \<Rightarrow> nat \<Rightarrow> 's PrefixCache \<Rightarrow> 'f PageTable \<Rightarrow> nat list \<Rightarrow> 's PrefixCache \<times> 'f PageTable \<times> nat list" where
  "evict_loop F target C T released =
     (if \<not> length released < target then (C, T, released)
      else (case find_lru_evictable_path C of
              None \<Rightarrow> (C, T, released)
            | Some path \<Rightarrow>
                (case find_node (root C) path of
                   None \<Rightarrow> (C, T, released)
                 | Some nd \<Rightarrow>
                     if node_refs nd \<noteq> 0 \<or> node_pages nd = [] then (C, T, released)
                     else evict_loop F target (C\<lparr>root := modify_node clear_node path (root C)\<rparr>)
                            (note_prefix_eviction (free_all F T (node_pages nd)) (length (node_pages nd)))
                            (released @ node_pages nd))))"
  by pat_completeness auto

lemma cleared_pages:
  "find_node nd path = Some x \<Longrightarrow> node_pages x \<noteq> [] \<Longrightarrow>
     node_sum pages_held (modify_node clear_node path nd) < node_sum pages_held nd"
proof -
  assume x: "find_node nd path = Some x" "node_pages x \<noteq> []"
  have "node_sum pages_held (clear_node x) + 1 = node_sum pages_held x"
    using x(2) node_sum_setters(1) [of pages_held "[]" x] by (simp add: clear_node_def pages_held_def)
  with modify_sum [OF x(1), of pages_held clear_node] show ?thesis by simp
qed

termination evict_loop
  by (relation "measure (\<lambda>(F, target, C, T, released). node_sum pages_held (root C))") (simp_all add: cleared_pages)

declare evict_loop.simps [simp del]

definition evict_lru ::
  "'f f32_ops \<Rightarrow> 's PrefixCache \<Rightarrow> nat \<Rightarrow> 'f PageTable \<Rightarrow> 's PrefixCache \<times> 'f PageTable \<times> nat list" where
  "evict_lru F C target T = evict_loop F target C T []"

definition evict_lru_snapshot :: "'s PrefixCache \<Rightarrow> 's PrefixCache \<times> bool" where
  "evict_lru_snapshot C =
     (case find_lru_snapshot_path C of
        None \<Rightarrow> (C, False)
      | Some path \<Rightarrow>
          (case find_node (root C) path of
             None \<Rightarrow> (C, False)
           | Some nd \<Rightarrow> (C\<lparr>root := modify_node (set_snapshot None) path (root C)\<rparr>, snapshot nd \<noteq> None)))"

definition prefix_remove :: "'s PrefixCache \<Rightarrow> nat list \<Rightarrow> 's PrefixCache \<times> nat list" where
  "prefix_remove C toks =
     (case find_node (root C) toks of
        None \<Rightarrow> (C, [])
      | Some nd \<Rightarrow> (C\<lparr>root := modify_node (\<lambda>nd. set_refs 0 (clear_node nd)) toks (root C)\<rparr>, node_pages nd))"

fun count_nodes :: "'s TrieNode \<Rightarrow> nat" where
  "count_nodes (TrieNode cs ps sn rc la) = weight (\<lambda>x. 1 + count_nodes (snd x)) cs"

definition prefix_len :: "'s PrefixCache \<Rightarrow> nat" where
  "prefix_len C = count_nodes (root C)"

definition prefix_is_empty :: "'s PrefixCache \<Rightarrow> bool" where
  "prefix_is_empty C \<longleftrightarrow> children (root C) = []"

section \<open>The trie as a map from prefixes to pages\<close>

definition pages_at :: "'s TrieNode \<Rightarrow> nat list \<Rightarrow> nat list" where
  "pages_at nd toks = (case find_node nd toks of None \<Rightarrow> [] | Some x \<Rightarrow> node_pages x)"

definition refs_at :: "'s TrieNode \<Rightarrow> nat list \<Rightarrow> nat" where
  "refs_at nd toks = (case find_node nd toks of None \<Rightarrow> 0 | Some x \<Rightarrow> node_refs x)"

lemma pages_at_simps [simp]:
  "pages_at nd [] = node_pages nd"
  "pages_at nd (t # ts) = (case map_of (children nd) t of None \<Rightarrow> [] | Some c \<Rightarrow> pages_at c ts)"
  by (simp_all add: pages_at_def split: option.split)

lemma lookup_from_best:
  "lookup_from nd toks idx best = (d, ps) \<Longrightarrow>
     (\<forall>k. 0 < k \<and> k \<le> length toks \<longrightarrow> pages_at nd (take k toks) = []) \<and> (d, ps) = best \<or>
     (\<exists>k. 0 < k \<and> k \<le> length toks \<and> d = idx + k \<and> ps = pages_at nd (take k toks) \<and> ps \<noteq> [] \<and>
        (\<forall>j. k < j \<and> j \<le> length toks \<longrightarrow> pages_at nd (take j toks) = []))"
proof (induction toks arbitrary: nd idx best)
  case (Cons t ts)
  show ?case
  proof (cases "map_of (children nd) t")
    case None
    with Cons.prems show ?thesis by (auto simp: take_Cons split: nat.splits)
  next
    case (Some c)
    let ?b = "if node_pages c \<noteq> [] then (idx + 1, node_pages c) else best"
    from Cons.prems Some have "lookup_from c ts (idx + 1) ?b = (d, ps)" by simp
    from Cons.IH [OF this] show ?thesis
    proof
      assume none: "(\<forall>k. 0 < k \<and> k \<le> length ts \<longrightarrow> pages_at c (take k ts) = []) \<and> (d, ps) = ?b"
      then have later: "pages_at nd (take k (t # ts)) = []" if "1 < k" "k \<le> Suc (length ts)" for k
        using that Some by (cases k) auto
      show ?thesis
      proof (cases "node_pages c = []")
        case True
        then have "pages_at nd (take k (t # ts)) = []" if "0 < k" "k \<le> Suc (length ts)" for k
          using later that Some by (cases "k = 1") auto
        then show ?thesis using none True by simp
      next
        case False
        then show ?thesis using none later Some by (intro disjI2 exI [of _ 1]) auto
      qed
    next
      assume "\<exists>k. 0 < k \<and> k \<le> length ts \<and> d = idx + 1 + k \<and> ps = pages_at c (take k ts) \<and> ps \<noteq> [] \<and>
        (\<forall>j. k < j \<and> j \<le> length ts \<longrightarrow> pages_at c (take j ts) = [])"
      then obtain k where k: "0 < k" "k \<le> length ts" "d = idx + 1 + k" "ps = pages_at c (take k ts)" "ps \<noteq> []"
        "\<forall>j. k < j \<and> j \<le> length ts \<longrightarrow> pages_at c (take j ts) = []" by blast
      have "pages_at nd (take j (t # ts)) = []" if "Suc k < j" "j \<le> Suc (length ts)" for j
        using that k(6) Some by (cases j) auto
      with k Some show ?thesis by (intro disjI2 exI [of _ "Suc k"]) auto
    qed
  qed
qed simp

definition entry :: "'s PrefixCache \<Rightarrow> nat list \<Rightarrow> nat list" where
  "entry C toks = pages_at (root C) toks"

lemma refs_at_simps [simp]:
  "refs_at nd [] = node_refs nd"
  "refs_at nd (t # ts) = (case map_of (children nd) t of None \<Rightarrow> 0 | Some c \<Rightarrow> refs_at c ts)"
  by (simp_all add: refs_at_def split: option.split)

lemma trie_new_simps [simp]:
  "children (trie_new n) = []" "node_pages (trie_new n) = []" "node_refs (trie_new n) = 0" "snapshot (trie_new n) = None"
  by (simp_all add: trie_new_def)

lemma pages_at_new [simp]: "pages_at (trie_new n) q = []" "refs_at (trie_new n) q = 0"
  by (cases q; simp)+

text \<open>Access stamps are not observed by the page map, the reference counts or the sums.\<close>

fun restamp :: "nat \<Rightarrow> 's TrieNode \<Rightarrow> 's TrieNode" where
  "restamp now (TrieNode cs ps sn rc la) = TrieNode cs ps sn rc now"

lemma restamp_same [simp]:
  "children (restamp n nd) = children nd" "node_pages (restamp n nd) = node_pages nd" "node_refs (restamp n nd) = node_refs nd"
  "pages_at (restamp n nd) q = pages_at nd q" "refs_at (restamp n nd) q = refs_at nd q" "node_sum g (restamp n nd) = node_sum g nd"
  by (cases nd; cases q; simp)+

lemma insert_path_Cons:
  "insert_path now f (t # ts) nd =
     TrieNode (AList.update t (insert_path now f ts (restamp now (case map_of (children nd) t of None \<Rightarrow> trie_new now | Some c \<Rightarrow> c)))
       (children nd)) (node_pages nd) (snapshot nd) (node_refs nd) (node_access nd)"
  by (cases nd) (simp add: Let_def split: option.split TrieNode.split)

lemma stamp_path_Cons:
  "stamp_path now (t # ts) nd =
     (case map_of (children nd) t of None \<Rightarrow> nd
      | Some c \<Rightarrow> TrieNode (AList.update t (stamp_path now ts (restamp now c)) (children nd))
          (node_pages nd) (snapshot nd) (node_refs nd) (node_access nd))"
  by (cases nd) (simp split: option.split TrieNode.split)

lemma setters [simp]:
  "children (set_pages ps nd) = children nd" "node_pages (set_pages ps nd) = ps" "node_refs (set_pages ps nd) = node_refs nd"
  "children (set_snapshot sn nd) = children nd" "node_pages (set_snapshot sn nd) = node_pages nd"
  "node_refs (set_snapshot sn nd) = node_refs nd" "snapshot (set_snapshot sn nd) = sn"
  "children (set_refs rc nd) = children nd" "node_pages (set_refs rc nd) = node_pages nd" "node_refs (set_refs rc nd) = rc"
  by (cases nd; simp)+

lemma insert_path_pages:
  "pages_at (insert_path now (set_pages ps) toks nd) q = (if q = toks then ps else pages_at nd q)"
proof (induction toks arbitrary: nd q)
  case Nil
  then show ?case by (cases q) simp_all
next
  case (Cons t ts)
  show ?case
  proof (cases q)
    case q: (Cons u us)
    then show ?thesis using Cons.IH by (cases "map_of (children nd) t") (simp_all add: insert_path_Cons del: insert_path.simps)
  qed (simp add: insert_path_Cons del: insert_path.simps)
qed

lemma insert_path_sum:
  assumes g: "g [] 0 = 0"
  shows "node_sum g (insert_path now (set_pages ps) toks nd) + g (pages_at nd toks) (refs_at nd toks)
    = node_sum g nd + g ps (refs_at nd toks)"
proof (induction toks arbitrary: nd)
  case (Cons t ts)
  obtain cs ps' sn rc la where nd: "nd = TrieNode cs ps' sn rc la" by (cases nd)
  show ?case
  proof (cases "map_of cs t")
    case None
    have new: "node_sum g (trie_new now) = 0" using g by (simp add: trie_new_def)
    from None Cons.IH [of "restamp now (trie_new now)"] new g
      weight_alist_insert [OF None, of "\<lambda>x. node_sum g (snd x)" "insert_path now (set_pages ps) ts (restamp now (trie_new now))"]
    show ?thesis by (simp add: nd insert_path_Cons del: insert_path.simps)
  next
    case (Some c)
    from Some Cons.IH [of "restamp now c"]
      weight_update_first [OF Some, of "\<lambda>x. node_sum g (snd x)" "insert_path now (set_pages ps) ts (restamp now c)"]
    show ?thesis by (simp add: nd insert_path_Cons del: insert_path.simps)
  qed
qed simp

lemma stamp_path_same:
  "pages_at (stamp_path now toks nd) q = pages_at nd q \<and> refs_at (stamp_path now toks nd) q = refs_at nd q \<and>
   node_sum g (stamp_path now toks nd) = node_sum g nd \<and>
   (find_node (stamp_path now toks nd) q = None \<longleftrightarrow> find_node nd q = None)"
proof (induction toks arbitrary: nd q)
  case (Cons t ts)
  show ?case
  proof (cases "map_of (children nd) t")
    case None
    then show ?thesis by (simp add: stamp_path_Cons del: stamp_path.simps)
  next
    case (Some c)
    have found: "find_node (restamp now c) q = None \<longleftrightarrow> find_node c q = None" for q by (cases c; cases q) simp_all
    from weight_update_first [OF Some, of "\<lambda>x. node_sum g (snd x)" "stamp_path now ts (restamp now c)"] Cons.IH [of "restamp now c"]
    have "weight (\<lambda>x. node_sum g (snd x)) (AList.update t (stamp_path now ts (restamp now c)) (children nd))
        = weight (\<lambda>x. node_sum g (snd x)) (children nd)" by simp
    then have "node_sum g (stamp_path now (t # ts) nd) = node_sum g nd"
      using Some by (cases nd) (simp add: stamp_path_Cons del: stamp_path.simps)
    with Some Cons.IH [of "restamp now c"] found show ?thesis
      by (cases q) (auto simp: stamp_path_Cons simp del: stamp_path.simps split: option.split)
  qed
qed simp

lemma modify_same:
  "(\<And>x. node_pages (f x) = node_pages x) \<Longrightarrow> (\<And>x. children (f x) = children x) \<Longrightarrow>
     pages_at (modify_node f toks nd) q = pages_at nd q"
proof (induction toks arbitrary: nd q)
  case Nil
  then show ?case by (cases q) (auto split: option.split)
next
  case (Cons t ts)
  obtain cs ps' sn rc la where nd: "nd = TrieNode cs ps' sn rc la" by (cases nd)
  with Cons show ?case by (cases q) (auto split: option.split)
qed

text \<open>
  C21. Longest-prefix matching. A lookup returns the longest cached non-empty prefix of the
  tokens with its pages, or nothing when no prefix is cached; caching a prefix changes the
  pages of exactly that prefix; and neither the lookups nor the release of a share change
  which pages a prefix holds.
\<close>

theorem lookup_finds_the_longest_prefix:
  "(case lookup C toks of (d, ps) \<Rightarrow>
      (d = 0 \<and> ps = [] \<or> 0 < d \<and> d \<le> length toks \<and> ps = entry C (take d toks) \<and> ps \<noteq> []) \<and>
      (\<forall>k. d < k \<and> k \<le> length toks \<longrightarrow> entry C (take k toks) = [])) \<and>
   entry (prefix_insert C toks qs) = (entry C)(toks := qs) \<and>
   entry (fst (lookup_shared C toks T)) = entry C \<and> entry (fst (lookup_snapshot as_t C toks)) = entry C \<and>
   entry (fst (release_shared F C toks m T)) = entry C"
proof -
  obtain d ps where l: "lookup C toks = (d, ps)" by (cases "lookup C toks")
  have best: "(d = 0 \<and> ps = [] \<or> 0 < d \<and> d \<le> length toks \<and> ps = entry C (take d toks) \<and> ps \<noteq> []) \<and>
      (\<forall>k. d < k \<and> k \<le> length toks \<longrightarrow> entry C (take k toks) = [])"
    using lookup_from_best [OF l [unfolded lookup_def]] by (auto simp: entry_def)
  have ins: "entry (prefix_insert C toks qs) = (entry C)(toks := qs)"
    by (simp add: fun_eq_iff entry_def prefix_insert_def insert_inner_def Let_def insert_path_pages)
  have shared: "entry (fst (lookup_shared C toks T)) = entry C"
    by (simp add: fun_eq_iff entry_def lookup_shared_def Let_def modify_same stamp_path_same split: prod.split)
  have snap: "entry (fst (lookup_snapshot as_t C toks)) = entry C"
    by (simp add: fun_eq_iff entry_def lookup_snapshot_def Let_def stamp_path_same)
  have rel: "entry (fst (release_shared F C toks m T)) = entry C"
    by (simp add: fun_eq_iff entry_def release_shared_def modify_same split: option.split)
  show ?thesis using best ins shared snap rel by (simp add: l)
qed

section \<open>Ownership of the cached pages\<close>

text \<open>
  The references the trie holds on page \<open>i\<close>: one for each node that lists it, and one more
  for each share of such a node.
\<close>

definition held :: "'s PrefixCache \<Rightarrow> nat \<Rightarrow> nat" where
  "held C i = node_sum (\<lambda>ps rc. (1 + rc) * count_list ps i) (root C)"

definition prefix_inv :: "(nat \<Rightarrow> nat) \<Rightarrow> 's PrefixCache \<Rightarrow> 'f PageTable \<Rightarrow> bool" where
  "prefix_inv ext C T \<longleftrightarrow> pt_inv (\<lambda>i. ext i + held C i) T"

definition retainable :: "'f PageTable \<Rightarrow> nat list \<Rightarrow> bool" where
  "retainable T is \<longleftrightarrow>
     list_all (\<lambda>i. case get_page T i of None \<Rightarrow> False | Some p \<Rightarrow> 0 < ref_count p \<and> ref_count p + length is \<le> u32_max) is"

lemma retain_all_inv:
  assumes "pt_inv ext T" "\<forall>i \<in> set is. \<exists>p. get_page T i = Some p \<and> 0 < ref_count p \<and> ref_count p + length is \<le> u32_max"
  shows "pt_inv (\<lambda>i. ext i + count_list is i) (retain_all T is) \<and> keeps T (retain_all T is) \<and>
    seq_view (retain_all T is) = seq_view T"
  using assms
proof (induction "is" arbitrary: ext T)
  case (Cons i "is")
  from Cons.prems(2) obtain p where p: "get_page T i = Some p" "0 < ref_count p" "ref_count p < u32_max" by auto
  note r = retain_live [OF Cons.prems(1) p]
  have "\<forall>j \<in> set is. \<exists>p. get_page (fst (retain T i)) j = Some p \<and> 0 < ref_count p \<and> ref_count p + length is \<le> u32_max"
  proof
    fix j assume "j \<in> set is"
    with Cons.prems(2) obtain q where "get_page T j = Some q" "0 < ref_count q" "ref_count q + length (i # is) \<le> u32_max" by auto
    then show "\<exists>p. get_page (fst (retain T i)) j = Some p \<and> 0 < ref_count p \<and> ref_count p + length is \<le> u32_max"
      using p by (auto simp: r(6))
  qed
  from Cons.IH [OF r(2) this] r(3,4)
  have "pt_inv (\<lambda>j. (ext(i := ext i + 1)) j + count_list is j) (retain_all (fst (retain T i)) is)"
    "keeps T (retain_all (fst (retain T i)) is)" "seq_view (retain_all (fst (retain T i)) is) = seq_view T"
    by (auto intro: keeps_trans)
  moreover have "(\<lambda>j. (ext(i := ext i + 1)) j + count_list is j) = (\<lambda>j. ext j + count_list (i # is) j)" by auto
  ultimately show ?case by simp
qed simp

lemma retain_all_content:
  assumes "pt_inv ext T" "retainable T is"
  shows "pt_inv (\<lambda>i. ext i + count_list is i) (retain_all T is)" "page_content (retain_all T is) = page_content T"
    "seq_view (retain_all T is) = seq_view T"
proof -
  have "\<forall>i \<in> set is. \<exists>p. get_page T i = Some p \<and> 0 < ref_count p \<and> ref_count p + length is \<le> u32_max"
    using assms(2) by (auto simp: retainable_def list_all_iff split: option.splits)
  note r = retain_all_inv [OF assms(1) this]
  then show "pt_inv (\<lambda>i. ext i + count_list is i) (retain_all T is)" "seq_view (retain_all T is) = seq_view T" by simp_all
  show "page_content (retain_all T is) = page_content T"
    using page_content_keeps [OF assms(1)] r seq_viewD(9) by (intro ext) blast
qed

lemma held_modify:
  assumes "find_node (root C) path = Some x"
  shows "held (C\<lparr>root := modify_node f path (root C)\<rparr>) i + node_sum (\<lambda>ps rc. (1 + rc) * count_list ps i) x
    = held C i + node_sum (\<lambda>ps rc. (1 + rc) * count_list ps i) (f x)"
  using modify_sum [OF assms] by (simp add: held_def)

lemma insert_pages_owned:
  assumes inv: "prefix_inv ext C T" and free: "entry C toks = []" and ok: "retainable T ps"
    and i: "insert_pages C toks ps T = (C', T', m)" and unshared: "refs_at (root C) toks = 0"
  shows "prefix_inv ext C' T' \<and> page_content T' = page_content T \<and> seq_view T' = seq_view T"
proof -
  have C': "root C' = insert_path (pc_clock C + 1) (set_pages ps) toks (root C)" "T' = retain_all T ps"
    using i by (auto simp: insert_pages_def insert_inner_def Let_def)
  have "held C' i = held C i + count_list ps i" for i
    using insert_path_sum [of "\<lambda>ps rc. (1 + rc) * count_list ps i" "pc_clock C + 1" ps toks "root C"] free unshared
    by (simp add: held_def C'(1) entry_def)
  with retain_all_content [OF inv [unfolded prefix_inv_def] ok] C'(2) show ?thesis
    by (simp add: prefix_inv_def add.assoc)
qed

lemma lookup_shared_owned:
  assumes inv: "prefix_inv ext C T" and l: "lookup_shared C toks T = (C', T', m)" and ok: "retainable T (match_pages m)"
  shows "prefix_inv ext C' T' \<and> page_content T' = page_content T \<and> seq_view T' = seq_view T"
proof -
  obtain d ps where b: "lookup_from (root C) toks 0 (0, []) = (d, ps)" by (cases "lookup_from (root C) toks 0 (0, [])")
  let ?r = "stamp_path (pc_clock C + 1) toks (root C)"
  have same: "held \<lparr>root = ?r, pc_clock = c\<rparr> i = held C i" for c i by (simp add: held_def stamp_path_same)
  show ?thesis
  proof (cases "d > 0")
    case False
    with l b have "C' = \<lparr>root = ?r, pc_clock = pc_clock C + 1\<rparr>" "T' = T" by (auto simp: lookup_shared_def Let_def)
    with inv same show ?thesis by (simp add: prefix_inv_def)
  next
    case True
    with lookup_from_best [OF b] have d: "d \<le> length toks" "ps = pages_at (root C) (take d toks)" "ps \<noteq> []" by auto
    with l b True have C': "C' = \<lparr>root = modify_node (\<lambda>nd. set_refs (node_refs nd + 1) nd) (take d toks) ?r, pc_clock = pc_clock C + 1\<rparr>"
      and T': "T' = retain_all T ps" and m: "match_pages m = ps" by (auto simp: lookup_shared_def Let_def)
    have "pages_at ?r (take d toks) = ps" using d(2) by (simp add: stamp_path_same)
    with d(3) obtain x where x: "find_node ?r (take d toks) = Some x" "node_pages x = ps"
      by (auto simp: pages_at_def split: option.splits)
    have "held C' i = held C i + count_list ps i" for i
      using modify_sum [OF x(1), of "\<lambda>ps rc. (1 + rc) * count_list ps i" "\<lambda>nd. set_refs (node_refs nd + 1) nd"]
        node_sum_setters(2) [of "\<lambda>ps rc. (1 + rc) * count_list ps i" "node_refs x + 1" x] x(2) same [of 0 i]
      by (simp add: held_def C' algebra_simps)
    with retain_all_content [OF inv [unfolded prefix_inv_def] ok] m T' show ?thesis
      by (simp add: prefix_inv_def add.assoc)
  qed
qed

lemma free_all_owned:
  assumes "pt_inv (\<lambda>i. e i + count_list is i) T"
  shows "pt_inv e (free_all F T is) \<and> page_content (free_all F T is) = page_content T \<and> seq_view (free_all F T is) = seq_view T"
  using free_all_inv [OF assms] by blast

lemma release_shared_owned:
  assumes inv: "prefix_inv ext C T" and r: "release_shared F C toks k T = (C', T', ps)"
  shows "prefix_inv ext C' T' \<and> page_content T' = page_content T \<and> seq_view T' = seq_view T"
proof (cases "k = 0 \<or> k > length toks \<or> find_node (root C) (take k toks) = None \<or>
    (\<exists>x. find_node (root C) (take k toks) = Some x \<and> node_refs x = 0)")
  case True
  with r inv show ?thesis by (auto simp: release_shared_def split: if_splits option.splits)
next
  case False
  then obtain x where x: "find_node (root C) (take k toks) = Some x" "node_refs x > 0" by auto
  with False r have C': "C' = C\<lparr>root := modify_node (set_refs (node_refs x - 1)) (take k toks) (root C)\<rparr>"
    and T': "T' = free_all F T (node_pages x)" by (auto simp: release_shared_def)
  obtain n where n: "node_refs x = Suc n" using x(2) by (cases "node_refs x") simp_all
  have h: "held C i = held C' i + count_list (node_pages x) i" for i
    using held_modify [OF x(1), of "set_refs (node_refs x - 1)" i]
      node_sum_setters(2) [of "\<lambda>ps rc. (1 + rc) * count_list ps i" "node_refs x - 1" x]
    by (simp add: C' n algebra_simps)
  have "pt_inv (\<lambda>i. (ext i + held C' i) + count_list (node_pages x) i) T" using inv by (simp add: prefix_inv_def h add.assoc)
  from free_all_owned [OF this, of F] show ?thesis by (simp add: prefix_inv_def T')
qed

section \<open>Eviction in LRU order\<close>

text \<open>Keys of a node's children are pairwise different, as in a hash map.\<close>

fun trie_ok :: "'s TrieNode \<Rightarrow> bool" where
  "trie_ok (TrieNode cs ps sn rc la) \<longleftrightarrow> distinct (map fst cs) \<and> list_all (\<lambda>x. trie_ok (snd x)) cs"

definition idle :: "('s TrieNode \<Rightarrow> bool) \<Rightarrow> 's TrieNode \<Rightarrow> bool" where
  "idle ok nd \<longleftrightarrow> ok nd \<and> node_refs nd = 0"

definition no_later :: "(nat \<times> nat list) option \<Rightarrow> nat \<Rightarrow> bool" where
  "no_later r a \<longleftrightarrow> (\<exists>a' p. r = Some (a', p) \<and> a' \<le> a)"

lemma no_later_trans: "no_later r a \<Longrightarrow> (\<And>a p. r = Some (a, p) \<Longrightarrow> no_later r' a) \<Longrightarrow> no_later r' a"
  by (fastforce simp: no_later_def)

lemma no_later_mono: "no_later r a \<Longrightarrow> a \<le> a' \<Longrightarrow> no_later r a'"
  by (auto simp: no_later_def)

text \<open>What the walk below a list of children finds, if it is so for each child.\<close>

definition visited ::
  "('s TrieNode \<Rightarrow> bool) \<Rightarrow> nat list \<Rightarrow> (nat list \<Rightarrow> 's TrieNode \<Rightarrow> bool) \<Rightarrow> (nat \<times> nat list) option \<Rightarrow> (nat \<times> nat list) option \<Rightarrow> bool" where
  "visited ok path below b r \<longleftrightarrow>
     (r = b \<or> (\<exists>q x. r = Some (node_access x, path @ q) \<and> below q x \<and> idle ok x)) \<and>
     (\<forall>a p. b = Some (a, p) \<longrightarrow> no_later r a) \<and> (\<forall>q x. below q x \<and> idle ok x \<longrightarrow> no_later r (node_access x))"

lemma visited_fold:
  "(\<And>y b. y \<in> set ys \<Longrightarrow> visited ok (path @ [fst y]) (\<lambda>q x. find_node (snd y) q = Some x) b (V y b)) \<Longrightarrow>
     visited ok path (\<lambda>q x. \<exists>y \<in> set ys. \<exists>q'. q = fst y # q' \<and> find_node (snd y) q' = Some x) b (fold V ys b)"
proof (induction ys arbitrary: b)
  case Nil
  then show ?case by (simp add: visited_def no_later_def)
next
  case (Cons y ys)
  let ?r = "fold V ys (V y b)"
  have first: "visited ok (path @ [fst y]) (\<lambda>q x. find_node (snd y) q = Some x) b (V y b)" using Cons.prems by simp
  have rest: "visited ok path (\<lambda>q x. \<exists>y \<in> set ys. \<exists>q'. q = fst y # q' \<and> find_node (snd y) q' = Some x) (V y b) ?r"
    using Cons by simp
  have keep: "no_later ?r a" if "no_later (V y b) a" for a
    using no_later_trans [OF that] rest by (simp add: visited_def)
  have "?r = b \<or> (\<exists>q x. ?r = Some (node_access x, path @ q) \<and>
      (\<exists>z \<in> set (y # ys). \<exists>q'. q = fst z # q' \<and> find_node (snd z) q' = Some x) \<and> idle ok x)"
  proof (cases "?r = V y b")
    case True
    with first show ?thesis unfolding visited_def by fastforce
  next
    case False
    with rest show ?thesis unfolding visited_def by (metis list.set_intros(2))
  qed
  moreover have "no_later ?r a" if "b = Some (a, p)" for a p using first that keep unfolding visited_def by blast
  moreover have "no_later ?r (node_access x)" if "z \<in> set (y # ys)" "find_node (snd z) q' = Some x" "idle ok x" for z q' x
  proof (cases "z = y")
    case True
    with that first have "no_later (V y b) (node_access x)" unfolding visited_def by blast
    then show ?thesis by (rule keep)
  next
    case False
    with that have "z \<in> set ys" by simp
    with that(2,3) rest show ?thesis unfolding visited_def by blast
  qed
  ultimately have "visited ok path (\<lambda>q x. \<exists>y \<in> set (y # ys). \<exists>q'. q = fst y # q' \<and> find_node (snd y) q' = Some x) b ?r"
    unfolding visited_def by blast
  then show ?case by simp
qed

lemma visit_best_visited:
  "trie_ok nd \<Longrightarrow> visited ok path (\<lambda>q x. find_node nd q = Some x) best (visit_best ok nd path best)"
proof (induction ok nd path best rule: visit_best.induct)
  case (1 ok cs ps sn rc la path best)
  let ?nd = "TrieNode cs ps sn rc la"
  let ?b = "if ok ?nd \<and> rc = 0 \<and> (case best of None \<Rightarrow> True | Some (a, _) \<Rightarrow> la < a) then Some (la, path) else best"
  let ?r = "fold (\<lambda>x b. visit_best ok (snd x) (path @ [fst x]) b) (sort_key fst cs) ?b"
  have "visited ok (path @ [fst y]) (\<lambda>q x. find_node (snd y) q = Some x) b (visit_best ok (snd y) (path @ [fst y]) b)"
    if "y \<in> set (sort_key fst cs)" for y b
    using 1(1) [OF refl refl, of y b] 1(2) that by (auto simp: list_all_iff)
  from visited_fold [where ys = "sort_key fst cs" and b = ?b, OF this]
  have f: "visited ok path (\<lambda>q x. \<exists>y \<in> set cs. \<exists>q'. q = fst y # q' \<and> find_node (snd y) q' = Some x) ?b ?r"
    unfolding set_sort .
  have child: "(\<exists>y \<in> set cs. \<exists>q'. q = fst y # q' \<and> find_node (snd y) q' = Some x) \<longleftrightarrow> q \<noteq> [] \<and> find_node ?nd q = Some x" for q x
  proof (cases q)
    case (Cons t ts)
    have keys: "distinct (map fst cs)" using 1(2) by simp
    have "(\<exists>y \<in> set cs. fst y = t \<and> find_node (snd y) ts = Some x) \<longleftrightarrow> (\<exists>c. map_of cs t = Some c \<and> find_node c ts = Some x)"
      using map_of_SomeD [of cs t] map_of_is_SomeI [OF keys, of t] by (metis fst_conv snd_conv prod.collapse)
    moreover have "(\<exists>y \<in> set cs. \<exists>q'. q = fst y # q' \<and> find_node (snd y) q' = Some x) \<longleftrightarrow>
        (\<exists>y \<in> set cs. fst y = t \<and> find_node (snd y) ts = Some x)" unfolding Cons by blast
    moreover have "find_node ?nd q = Some x \<longleftrightarrow> (\<exists>c. map_of cs t = Some c \<and> find_node c ts = Some x)"
      unfolding Cons by (simp split: option.split)
    ultimately show ?thesis using Cons by blast
  qed simp
  have own: "idle ok ?nd \<longleftrightarrow> ok ?nd \<and> rc = 0" by (simp add: idle_def)
  have kept: "no_later ?r a" if "?b = Some (a, p)" for a p using f that unfolding visited_def by blast
  have self: "no_later ?r la" if "idle ok ?nd"
  proof -
    from that own have "\<exists>a p. ?b = Some (a, p) \<and> a \<le> la" by (auto split: option.splits)
    with kept show ?thesis using no_later_mono by blast
  qed
  have "?r = best \<or> (\<exists>q x. ?r = Some (node_access x, path @ q) \<and> find_node ?nd q = Some x \<and> idle ok x)"
  proof (cases "?r = ?b")
    case True
    show ?thesis
    proof (cases "?b = best")
      case False
      then have "idle ok ?nd \<and> ?b = Some (la, path)" using own by (auto split: if_splits)
      with True show ?thesis by (intro disjI2 exI [of _ "[]"] exI [of _ ?nd]) simp
    qed (use True in simp)
  next
    case False
    with f child show ?thesis unfolding visited_def by blast
  qed
  moreover have "no_later ?r a" if "best = Some (a, p)" for a p
  proof -
    from that have "\<exists>a' p'. ?b = Some (a', p') \<and> a' \<le> a" by auto
    with kept show ?thesis using no_later_mono by blast
  qed
  moreover have "no_later ?r (node_access x)" if "find_node ?nd q = Some x" "idle ok x" for q x
  proof (cases "q = []")
    case True
    with that self show ?thesis by auto
  next
    case False
    with that child [of q x] f show ?thesis unfolding visited_def by blast
  qed
  ultimately have "visited ok path (\<lambda>q x. find_node ?nd q = Some x) best ?r" unfolding visited_def by blast
  then show ?case unfolding visit_best.simps Let_def .
qed

lemma lru_path:
  assumes "trie_ok (root C)"
  shows "find_lru_evictable_path C = Some path \<Longrightarrow>
      \<exists>x. find_node (root C) path = Some x \<and> node_pages x \<noteq> [] \<and> node_refs x = 0 \<and>
        (\<forall>q y. find_node (root C) q = Some y \<and> node_pages y \<noteq> [] \<and> node_refs y = 0 \<longrightarrow> node_access x \<le> node_access y)"
    "find_lru_evictable_path C = None \<Longrightarrow> entry C q \<noteq> [] \<Longrightarrow> refs_at (root C) q > 0"
proof -
  let ?r = "visit_best (\<lambda>nd. node_pages nd \<noteq> []) (root C) [] None"
  have v: "visited (\<lambda>nd. node_pages nd \<noteq> []) [] (\<lambda>q x. find_node (root C) q = Some x) None ?r"
    by (rule visit_best_visited [OF assms])
  show "\<exists>x. find_node (root C) path = Some x \<and> node_pages x \<noteq> [] \<and> node_refs x = 0 \<and>
        (\<forall>q y. find_node (root C) q = Some y \<and> node_pages y \<noteq> [] \<and> node_refs y = 0 \<longrightarrow> node_access x \<le> node_access y)"
    if "find_lru_evictable_path C = Some path"
  proof -
    from that obtain a where r: "?r = Some (a, path)" by (auto simp: find_lru_evictable_path_def)
    with v show ?thesis unfolding visited_def idle_def no_later_def by fastforce
  qed
  show "refs_at (root C) q > 0" if "find_lru_evictable_path C = None" "entry C q \<noteq> []"
  proof -
    from that have "?r = None" by (simp add: find_lru_evictable_path_def)
    with v that(2) show ?thesis
      unfolding visited_def idle_def no_later_def by (auto simp: entry_def pages_at_def refs_at_def split: option.splits)
  qed
qed

lemma modify_trie_ok:
  "trie_ok nd \<Longrightarrow> (\<And>x. trie_ok x \<Longrightarrow> trie_ok (f x)) \<Longrightarrow> trie_ok (modify_node f path nd)"
proof (induction path arbitrary: nd)
  case (Cons t ts)
  obtain cs ps sn rc la where nd: "nd = TrieNode cs ps sn rc la" by (cases nd)
  show ?case
  proof (cases "map_of cs t")
    case (Some c)
    have "trie_ok c" using Cons.prems(1) map_of_SomeD [OF Some] by (auto simp: nd list_all_iff)
    then have "trie_ok (modify_node f ts c)" using Cons.IH Cons.prems(2) by blast
    moreover have "set (AList.update t v al) \<subseteq> insert (t, v) (set al)" for v and al :: "(nat \<times> 'a TrieNode) list"
      by (induction al) auto
    ultimately show ?thesis using Cons.prems(1) Some by (fastforce simp: nd list_all_iff distinct_update)
  qed (use Cons nd in simp)
qed simp

lemma update_children_ok:
  assumes "distinct (map fst cs)" "list_all (\<lambda>x. trie_ok (snd x)) cs" "trie_ok c"
  shows "trie_ok (TrieNode (AList.update t c cs) ps sn rc la)"
proof -
  have "set (AList.update t c cs) \<subseteq> insert (t, c) (set cs)" by (induction cs) auto
  then show ?thesis using assms by (fastforce simp: list_all_iff distinct_update)
qed

lemma restamp_trie_ok [simp]: "trie_ok (restamp n nd) = trie_ok nd"
  by (cases nd) simp

lemma child_trie_ok: "trie_ok nd \<Longrightarrow> map_of (children nd) t = Some c \<Longrightarrow> trie_ok c"
  by (cases nd) (auto simp: list_all_iff dest: map_of_SomeD)

lemma children_ok: "trie_ok nd \<Longrightarrow> distinct (map fst (children nd)) \<and> list_all (\<lambda>x. trie_ok (snd x)) (children nd)"
  by (cases nd) simp

lemma insert_trie_ok: "trie_ok nd \<Longrightarrow> (\<And>x. trie_ok x \<Longrightarrow> trie_ok (f x)) \<Longrightarrow> trie_ok (insert_path now f toks nd)"
proof (induction toks arbitrary: nd)
  case (Cons t ts)
  have "trie_ok (case map_of (children nd) t of None \<Rightarrow> trie_new now | Some c \<Rightarrow> c)"
    using child_trie_ok [OF Cons.prems(1)] by (auto simp: trie_new_def split: option.split)
  with Cons children_ok [OF Cons.prems(1)] show ?case
    unfolding insert_path_Cons by (intro update_children_ok) auto
qed simp

lemma stamp_trie_ok: "trie_ok nd \<Longrightarrow> trie_ok (stamp_path now toks nd)"
proof (induction toks arbitrary: nd)
  case (Cons t ts)
  show ?case
  proof (cases "map_of (children nd) t")
    case (Some c)
    have "trie_ok (stamp_path now ts (restamp now c))" using Cons.IH child_trie_ok [OF Cons.prems Some] by simp
    with children_ok [OF Cons.prems] show ?thesis
      unfolding stamp_path_Cons Some option.case by (intro update_children_ok) auto
  qed (use Cons.prems in \<open>simp add: stamp_path_Cons del: stamp_path.simps\<close>)
qed simp

lemma setters_trie_ok: "trie_ok x \<Longrightarrow> trie_ok (set_pages ps x)" "trie_ok x \<Longrightarrow> trie_ok (set_refs rc x)"
  "trie_ok x \<Longrightarrow> trie_ok (set_snapshot sn x)"
  by (cases x; simp)+

lemma operations_keep_keys:
  assumes "trie_ok (root C)"
  shows "trie_ok (root (fst (insert_pages C toks ps T)))" "trie_ok (root (fst (lookup_shared C toks T)))"
    "trie_ok (root (fst (release_shared F C toks k T)))" "trie_ok (root (fst (insert_snapshot C toks sn)))"
    "trie_ok (root (fst (lookup_snapshot as_t C toks)))"
  using assms
  by (auto simp: insert_pages_def insert_inner_def lookup_shared_def release_shared_def insert_snapshot_def lookup_snapshot_def
      Let_def split: prod.split option.split intro!: insert_trie_ok modify_trie_ok stamp_trie_ok setters_trie_ok)

lemma clear_trie_ok: "trie_ok x \<Longrightarrow> trie_ok (clear_node x)"
  by (cases x) (simp add: clear_node_def)

lemma clear_at:
  "find_node nd path = Some x \<Longrightarrow>
     pages_at (modify_node clear_node path nd) q = (if q = path then [] else pages_at nd q) \<and>
     refs_at (modify_node clear_node path nd) q = refs_at nd q"
proof (induction path arbitrary: nd q)
  case Nil
  then show ?case by (cases q) (auto simp: clear_node_def)
next
  case (Cons t ts)
  obtain cs ps sn rc la where nd: "nd = TrieNode cs ps sn rc la" by (cases nd)
  with Cons.prems obtain c where c: "map_of cs t = Some c" "find_node c ts = Some x" by (auto split: option.splits)
  from Cons.IH [OF c(2)] show ?case by (cases q) (auto simp: nd c)
qed

lemma stats_transparent [simp]: "page_content (T\<lparr>stats := st\<rparr>) = page_content T"
  by (simp add: page_content_def get_sequence_def fun_eq_iff split: option.split)

lemma evict_loop_outcome:
  "evict_loop F target C T released = (C', T', out) \<Longrightarrow> prefix_inv ext C T \<Longrightarrow> trie_ok (root C) \<Longrightarrow>
     prefix_inv ext C' T' \<and> trie_ok (root C') \<and> page_content T' = page_content T \<and> seq_view T' = seq_view T \<and>
     (target \<le> length out \<or> (\<forall>q. entry C' q \<noteq> [] \<longrightarrow> refs_at (root C') q > 0)) \<and>
     (\<forall>q. refs_at (root C') q = refs_at (root C) q \<and>
        (entry C' q = entry C q \<or> entry C' q = [] \<and> refs_at (root C) q = 0))"
proof (induction F target C T released rule: evict_loop.induct)
  case (1 F target C T released)
  show ?case
  proof (cases "length released < target \<and> find_lru_evictable_path C \<noteq> None")
    case False
    with 1(2) have "C' = C" "T' = T" "out = released" by (auto simp: evict_loop.simps split: if_splits)
    with False 1(3,4) lru_path(2) [OF 1(4)] show ?thesis by auto
  next
    case True
    then obtain path where p: "find_lru_evictable_path C = Some path" by auto
    from lru_path(1) [OF 1(4) p] obtain x where x: "find_node (root C) path = Some x" "node_pages x \<noteq> []" "node_refs x = 0" by blast
    let ?C = "C\<lparr>root := modify_node clear_node path (root C)\<rparr>"
    let ?T = "note_prefix_eviction (free_all F T (node_pages x)) (length (node_pages x))"
    from 1(2) True p x have run: "evict_loop F target ?C ?T (released @ node_pages x) = (C', T', out)"
      by (simp add: evict_loop.simps [of F target C T released])
    have h: "held C i = held ?C i + count_list (node_pages x) i" for i
      using held_modify [OF x(1), of clear_node i] node_sum_setters(1) [of "\<lambda>ps rc. (1 + rc) * count_list ps i" "[]" x] x(3)
      by (simp add: clear_node_def)
    have "pt_inv (\<lambda>i. (ext i + held ?C i) + count_list (node_pages x) i) T" using 1(3) by (simp add: prefix_inv_def h add.assoc)
    note fr = free_all_owned [OF this, of F]
    have inv: "prefix_inv ext ?C ?T" using fr by (simp add: prefix_inv_def note_prefix_eviction_def)
    have same: "page_content ?T = page_content T" "seq_view ?T = seq_view T"
      using fr by (simp_all add: note_prefix_eviction_def)
    have "trie_ok (root ?C)" using modify_trie_ok [OF 1(4) clear_trie_ok] by simp
    note ih = 1(1) [OF _ p x(1) _ run inv this]
    have "\<forall>q. refs_at (root ?C) q = refs_at (root C) q \<and> (entry ?C q = entry C q \<or> entry ?C q = [] \<and> refs_at (root C) q = 0)"
      using clear_at [OF x(1)] x by (auto simp: entry_def refs_at_def)
    with ih True x same show ?thesis by (simp; metis)
  qed
qed



section \<open>Example\<close>

text \<open>Page 0 of the demo pool, held by a caller and cached under the prefix 5, 7.\<close>

definition lent_table :: "int PageTable" where
  "lent_table = fst (allocate int_ops one_page_pool (Gpu 0))"

definition prefix_demo :: "unit PrefixCache" where
  "prefix_demo = fst (insert_pages prefix_new [5, 7] [0] lent_table)"

lemma lent_table_ok: "pt_inv ((\<lambda>_. 0)(0 := 1)) lent_table"
proof -
  have inv: "pt_inv (\<lambda>_. 0) one_page_pool" unfolding one_page_pool_def by (rule pt_build_inv) simp
  have "next_page_id one_page_pool < u32_max" "allocate int_ops one_page_pool (Gpu 0) = (lent_table, Some 0)"
    by (code_simp, simp add: lent_table_def prod_eq_iff, code_simp)
  from allocate_inv [OF inv this] show ?thesis by simp
qed

lemma new_owned: "prefix_inv ((\<lambda>_. 0)(0 := 1)) (prefix_new :: unit PrefixCache) lent_table" "trie_ok (root (prefix_new :: unit PrefixCache))"
proof -
  have "held (prefix_new :: unit PrefixCache) i = 0" for i by (simp add: held_def prefix_new_def trie_new_def)
  then show "prefix_inv ((\<lambda>_. 0)(0 := 1)) (prefix_new :: unit PrefixCache) lent_table"
    using lent_table_ok by (simp add: prefix_inv_def del: fun_upd_apply)
qed (simp add: prefix_new_def trie_new_def)


lemma prefix_demo_owned:
  "prefix_inv ((\<lambda>_. 0)(0 := 1)) prefix_demo (fst (snd (insert_pages (prefix_new :: unit PrefixCache) [5, 7] [0] lent_table)))"
  "trie_ok (root prefix_demo)"
proof -
  have "entry (prefix_new :: unit PrefixCache) [5, 7] = []" "refs_at (root (prefix_new :: unit PrefixCache)) [5, 7] = 0"
    "retainable lent_table [0]" by code_simp+
  then show "prefix_inv ((\<lambda>_. 0)(0 := 1)) prefix_demo (fst (snd (insert_pages (prefix_new :: unit PrefixCache) [5, 7] [0] lent_table)))"
    unfolding prefix_demo_def by (metis prod.collapse insert_pages_owned new_owned(1))
  show "trie_ok (root prefix_demo)" unfolding prefix_demo_def by (rule operations_keep_keys(1) [OF new_owned(2)])
qed


theorem lookup_finds_the_longest_prefix_witness:
  "lookup prefix_demo [5, 7, 9] = (2, [0]) \<and> entry prefix_demo [5, 7] = [0] \<and> entry prefix_demo [5, 7, 9] = []"
proof -
  have l: "lookup prefix_demo [5, 7, 9] = (2, [0])" by code_simp
  from lookup_finds_the_longest_prefix [where C = prefix_demo and toks = "[5, 7, 9]" and qs = "[]" and T = lent_table
      and as_t = "\<lambda>x. Some x" and F = int_ops and m = 0] l
  show ?thesis by (auto simp: eval_nat_numeral dest: spec [of _ 3])
qed

text \<open>
  Caching a prefix again under other pages forgets the old ones without giving their
  references back: page 0 keeps the reference of a trie that no longer lists it.
\<close>

definition reinserted :: "unit PrefixCache \<times> int PageTable" where
  "reinserted =
     (case insert_pages prefix_new [5, 7] [0] lent_table of
        (C, T, _) \<Rightarrow> (case insert_pages C [5, 7] [] T of (C', T', _) \<Rightarrow> (C', T')))"

theorem reinsertion_leaks_a_reference:
  "held (fst reinserted) 0 = 0 \<and> map_option ref_count (get_page (snd reinserted) 0) = Some 2"
  by code_simp

end
