(* ===== verification/AdmissionBudget.thy ===== *)
theory AdmissionBudget
  imports ByteAccount
begin

text \<open>
  The shared KV byte budget of \<open>onnx-genai-scheduler/src/byte_budget.rs\<close>. The budget is one
  cell behind a cloneable handle; every method is one critical section on it, so a method
  is a function on the cell. The live ceiling is foreign code that may answer differently
  every time it is asked: the cell carries an arbitrary sequence of answers and how many
  were read.
\<close>

section \<open>The cell and its operations\<close>

record ByteBudgetError =
  be_requested :: nat
  be_used :: nat
  be_limit :: nat
  be_available :: nat
  be_shortfall :: nat

record ByteBudgetReservation =
  reserved :: nat
  available_before :: nat

record BudgetSnapshot =
  snap_limit :: nat
  snap_used :: nat
  snap_available :: nat

record ReconfigureOutcome =
  old_limit :: nat
  new_limit :: nat
  rc_used :: nat
  overage :: nat

record ByteBudget =
  bb_limit :: nat
  bb_used :: nat
  ceiling :: "(nat \<Rightarrow> nat) option"
  readings :: nat

definition budget_new :: "nat \<Rightarrow> ByteBudget" where
  "budget_new limit_bytes = \<lparr>bb_limit = limit_bytes, bb_used = 0, ceiling = None, readings = 0\<rparr>"

definition with_ceiling :: "ByteBudget \<Rightarrow> (nat \<Rightarrow> nat) \<Rightarrow> ByteBudget" where
  "with_ceiling b c = b\<lparr>ceiling := Some c\<rparr>"

definition live_ceiling :: "ByteBudget \<Rightarrow> ByteBudget \<times> nat option" where
  "live_ceiling b =
     (case ceiling b of
        None \<Rightarrow> (b, None)
      | Some c \<Rightarrow> (b\<lparr>readings := readings b + 1\<rparr>, Some (c (readings b))))"

definition tighten :: "nat \<Rightarrow> nat option \<Rightarrow> nat" where
  "tighten limit live = (case live of None \<Rightarrow> limit | Some c \<Rightarrow> min limit c)"

definition try_reserve :: "ByteBudget \<Rightarrow> nat \<Rightarrow> ByteBudget \<times> (ByteBudgetError + unit)" where
  "try_reserve b bytes =
     (case live_ceiling b of
        (b', live) \<Rightarrow>
          (let limit = tighten (bb_limit b) live; available = limit - bb_used b in
           if bytes > available
           then (b', Inl \<lparr>be_requested = bytes, be_used = bb_used b, be_limit = limit,
                         be_available = available, be_shortfall = bytes - available\<rparr>)
           else (b'\<lparr>bb_used := bb_used b + bytes\<rparr>, Inr ())))"

definition try_reserve_at_most ::
  "ByteBudget \<Rightarrow> nat \<Rightarrow> nat \<Rightarrow> nat \<Rightarrow> ByteBudget \<times> (ByteBudgetError + ByteBudgetReservation)" where
  "try_reserve_at_most b requested minimum unit =
     (case live_ceiling b of
        (b', live) \<Rightarrow>
          (let limit = tighten (bb_limit b) live; available = limit - bb_used b;
               r = (if requested \<le> available then requested
                    else if unit = 0 then 0 else available - available mod unit) in
           if r < minimum
           then (b', Inl \<lparr>be_requested = requested, be_used = bb_used b, be_limit = limit,
                         be_available = available, be_shortfall = minimum - available\<rparr>)
           else (b'\<lparr>bb_used := bb_used b + r\<rparr>, Inr \<lparr>reserved = r, available_before = available\<rparr>)))"

definition budget_release :: "ByteBudget \<Rightarrow> nat \<Rightarrow> ByteBudget" where
  "budget_release b bytes = b\<lparr>bb_used := bb_used b - bytes\<rparr>"

definition reconfigure :: "ByteBudget \<Rightarrow> nat \<Rightarrow> ByteBudget \<times> ReconfigureOutcome" where
  "reconfigure b new_limit_bytes =
     (case live_ceiling b of
        (b', live) \<Rightarrow>
          (b'\<lparr>bb_limit := new_limit_bytes\<rparr>,
           \<lparr>old_limit = bb_limit b, new_limit = new_limit_bytes, rc_used = bb_used b,
            overage = bb_used b - tighten new_limit_bytes live\<rparr>))"

definition budget_limit :: "ByteBudget \<Rightarrow> ByteBudget \<times> nat" where
  "budget_limit b = (case live_ceiling b of (b', live) \<Rightarrow> (b', tighten (bb_limit b) live))"

definition budget_available :: "ByteBudget \<Rightarrow> ByteBudget \<times> nat" where
  "budget_available b = (case live_ceiling b of (b', live) \<Rightarrow> (b', tighten (bb_limit b) live - bb_used b))"

definition budget_snapshot :: "ByteBudget \<Rightarrow> ByteBudget \<times> BudgetSnapshot" where
  "budget_snapshot b =
     (case live_ceiling b of
        (b', live) \<Rightarrow>
          (b', \<lparr>snap_limit = tighten (bb_limit b) live, snap_used = bb_used b,
                snap_available = tighten (bb_limit b) live - bb_used b\<rparr>))"

section \<open>What the operations do to the cell\<close>

lemma live_ceiling_cell [simp]:
  "bb_limit (fst (live_ceiling b)) = bb_limit b" "bb_used (fst (live_ceiling b)) = bb_used b"
  "ceiling (fst (live_ceiling b)) = ceiling b" "ceiling b = None \<Longrightarrow> fst (live_ceiling b) = b"
  by (simp_all add: live_ceiling_def split: option.split)

lemma tighten_le [simp]: "tighten limit live \<le> limit"
  by (simp add: tighten_def split: option.split)

lemma try_reserve_cases:
  assumes "try_reserve b n = (b', r)"
  obtains (refused) e where "r = Inl e" "bb_used b' = bb_used b" "bb_limit b' = bb_limit b"
      "be_available e < n" "be_used e = bb_used b" "be_limit e \<le> bb_limit b" "be_available e = be_limit e - bb_used b"
      "be_shortfall e = n - be_available e" "ceiling b' = ceiling b" "ceiling b = None \<Longrightarrow> b' = b"
  | (granted) "r = Inr ()" "bb_used b' = bb_used b + n" "bb_limit b' = bb_limit b" "ceiling b' = ceiling b" "n = 0 \<or> bb_used b + n \<le> bb_limit b"
proof -
  obtain c live where l: "live_ceiling b = (c, live)" by (cases "live_ceiling b")
  then have c: "bb_limit c = bb_limit b" "bb_used c = bb_used b" "ceiling c = ceiling b" "ceiling b = None \<Longrightarrow> c = b"
    using live_ceiling_cell [of b] by simp_all
  show thesis
  proof (cases "n > tighten (bb_limit b) live - bb_used b")
    case True
    with assms l c show thesis by (intro refused) (auto simp: try_reserve_def Let_def)
  next
    case False
    with tighten_le [of "bb_limit b" live] have "n = 0 \<or> bb_used b + n \<le> bb_limit b" by linarith
    with False assms l c show thesis by (intro granted) (auto simp: try_reserve_def Let_def)
  qed
qed

lemma try_reserve_at_most_cases:
  assumes "try_reserve_at_most b req least unit = (b', r)"
  obtains (refused) e where "r = Inl e" "bb_used b' = bb_used b" "bb_limit b' = bb_limit b"
      "be_used e = bb_used b" "be_limit e \<le> bb_limit b" "be_available e = be_limit e - bb_used b"
      "req \<le> be_available e \<Longrightarrow> req < least" "unit dvd least \<Longrightarrow> 0 < unit \<Longrightarrow> req > be_available e \<Longrightarrow> be_available e < least"
      "ceiling b' = ceiling b" "ceiling b = None \<Longrightarrow> b' = b" "be_available e = snd (budget_available b)"
  | (granted) v where "r = Inr v" "bb_used b' = bb_used b + reserved v" "bb_limit b' = bb_limit b"
      "least \<le> reserved v" "reserved v \<le> req" "reserved v = 0 \<or> bb_used b + reserved v \<le> bb_limit b"
      "reserved v = req \<or> (unit dvd reserved v \<and> available_before v < req \<and> (0 < unit \<longrightarrow> available_before v < reserved v + unit))"
      "reserved v \<le> available_before v" "ceiling b' = ceiling b" "available_before v = snd (budget_available b)"
proof -
  obtain c live where l: "live_ceiling b = (c, live)" by (cases "live_ceiling b")
  then have c: "bb_limit c = bb_limit b" "bb_used c = bb_used b" "ceiling c = ceiling b" "ceiling b = None \<Longrightarrow> c = b"
    using live_ceiling_cell [of b] by simp_all
  define av where av: "av = tighten (bb_limit b) live - bb_used b"
  have read: "snd (budget_available b) = av" by (simp add: budget_available_def l av)
  define m where m: "m = (if req \<le> av then req else if unit = 0 then 0 else av - av mod unit)"
  have eq: "try_reserve_at_most b req least unit =
      (if m < least then (c, Inl \<lparr>be_requested = req, be_used = bb_used b, be_limit = tighten (bb_limit b) live,
          be_available = av, be_shortfall = least - av\<rparr>)
       else (c\<lparr>bb_used := bb_used b + m\<rparr>, Inr \<lparr>reserved = m, available_before = av\<rparr>))"
    by (simp only: try_reserve_at_most_def l prod.case Let_def av m)
  have dvd: "req \<le> av \<or> unit dvd m" by (simp add: m dvd_minus_mod)
  have near: "av < m + unit" if "\<not> req \<le> av" "0 < unit"
  proof -
    have "av mod unit < unit" "av mod unit \<le> av" using that by simp_all
    with that show ?thesis unfolding m by simp
  qed
  have le: "m \<le> req" "m \<le> av" by (auto simp: m)
  show thesis
  proof (cases "m < least")
    case True
    have "av < least" if "unit dvd least" "0 < unit" "req > av"
    proof (rule ccontr)
      assume no: "\<not> av < least"
      from that(1) obtain k where "least = unit * k" by (rule dvdE)
      with no have k: "least = unit * k" "unit * k \<le> av" by simp_all
      have "unit * k \<le> unit * (av div unit)" using k(2) that(2) by (simp add: less_eq_div_iff_mult_less_eq mult.commute)
      also have "unit * (av div unit) = m" using that by (simp add: m minus_mod_eq_mult_div)
      finally show False using True k(1) by simp
    qed
    moreover have "req < least" if "req \<le> av" using True that by (simp add: m)
    ultimately show thesis using True assms c eq
      by (intro refused [of "\<lparr>be_requested = req, be_used = bb_used b, be_limit = tighten (bb_limit b) live,
            be_available = av, be_shortfall = least - av\<rparr>"]) (auto simp: av read)
  next
    case False
    have "m = 0 \<or> bb_used b + m \<le> bb_limit b" using le(2) tighten_le [of "bb_limit b" live] unfolding av by linarith
    moreover have "m = req \<or> unit dvd m \<and> av < req \<and> (0 < unit \<longrightarrow> av < m + unit)"
      using dvd near by (cases "req \<le> av") (auto simp: m)
    ultimately show thesis using False assms c eq le
      by (intro granted [of "\<lparr>reserved = m, available_before = av\<rparr>"]) (auto simp: read)
  qed
qed

interpretation kv_bytes: byte_account bb_used bb_limit try_reserve budget_release
proof unfold_locales
  fix b b' :: ByteBudget and n
  show "bb_used b' = bb_used b + n \<and> bb_limit b' = bb_limit b \<and> (n = 0 \<or> bb_used b + n \<le> bb_limit b)"
    if "try_reserve b n = (b', Inr u)" for u
    using that by (rule try_reserve_cases) auto
  show "bb_used b' = bb_used b \<and> bb_limit b' = bb_limit b" if "try_reserve b n = (b', Inl e)" for e
    using that by (rule try_reserve_cases) auto
  show "bb_used (budget_release b n) = bb_used b - n \<and> bb_limit (budget_release b n) = bb_limit b"
    by (simp add: budget_release_def)
qed

end
