(* ===== verification/FairShare.thy ===== *)
theory FairShare
  imports Prelude
begin

text \<open>
  The deficit-weighted round robin of \<open>onnx-genai-scheduler/src/policy.rs\<close>: request priorities,
  the policy's state and \<open>select\<close>, the bounds its deficits never leave, and what follows from
  them: no backlogged class starves and every backlogged class gets its weighted share.
\<close>

section \<open>Priorities\<close>

datatype Priority = Low | Normal | High

definition class_index :: "Priority \<Rightarrow> nat" where
  "class_index p = (case p of Low \<Rightarrow> 0 | Normal \<Rightarrow> 1 | High \<Rightarrow> 2)"

definition priority_from_index :: "nat \<Rightarrow> Priority" where
  "priority_from_index i = (if i = 0 then Low else if i = 1 then Normal else High)"

instantiation Priority :: linorder
begin

definition less_eq_Priority :: "Priority \<Rightarrow> Priority \<Rightarrow> bool" where
  "less_eq_Priority a b \<longleftrightarrow> class_index a \<le> class_index b"

definition less_Priority :: "Priority \<Rightarrow> Priority \<Rightarrow> bool" where
  "less_Priority a b \<longleftrightarrow> class_index a < class_index b"

instance
  by standard (auto simp: less_eq_Priority_def less_Priority_def class_index_def split: Priority.splits)

end

lemma class_index_less [simp]: "class_index p < 3"
  by (cases p) (simp_all add: class_index_def)

lemma priority_from_class_index [simp]: "priority_from_index (class_index p) = p"
  by (cases p) (simp_all add: class_index_def priority_from_index_def)

lemma class_index_from [simp]: "i < 3 \<Longrightarrow> class_index (priority_from_index i) = i"
  by (auto simp: class_index_def priority_from_index_def)

section \<open>The policy\<close>

definition CLASS_COUNT :: nat where
  "CLASS_COUNT = 3"

definition i128_max :: int where
  "i128_max = 2 ^ 127 - 1"

definition sat_i128 :: "int \<Rightarrow> int" where
  "sat_i128 x = max (- i128_max - 1) (min i128_max x)"

record FairSharePolicy =
  weights :: "nat list"
  deficits :: "int list"
  tie_cursor :: nat

text \<open>The constructor's assertion is the \<open>None\<close> of the result.\<close>

definition with_weights :: "nat \<Rightarrow> nat \<Rightarrow> nat \<Rightarrow> FairSharePolicy option" where
  "with_weights low normal high =
     (if low > 0 \<and> normal > 0 \<and> high > 0
      then Some \<lparr>weights = [low, normal, high], deficits = replicate CLASS_COUNT 0, tie_cursor = 0\<rparr>
      else None)"

definition fair_share_new :: FairSharePolicy where
  "fair_share_new = \<lparr>weights = [1, 1, 1], deficits = replicate CLASS_COUNT 0, tie_cursor = 0\<rparr>"

definition set_weight :: "FairSharePolicy \<Rightarrow> Priority \<Rightarrow> nat \<Rightarrow> FairSharePolicy option" where
  "set_weight P p w =
     (if w > 0
      then Some (P\<lparr>weights := (weights P)[class_index p := w], deficits := replicate CLASS_COUNT 0\<rparr>)
      else None)"

text \<open>Credit of the backlogged classes; idle classes lose theirs.\<close>

fun accrue :: "nat list \<Rightarrow> bool list \<Rightarrow> int list \<Rightarrow> int \<Rightarrow> int list \<times> int" where
  "accrue (w # ws) (a # as) (d # ds) sum_w =
     (if a
      then (case accrue ws as ds (sat_i128 (sum_w + int w)) of (ds', t) \<Rightarrow> (sat_i128 (d + int w) # ds', t))
      else (case accrue ws as ds sum_w of (ds', t) \<Rightarrow> (0 # ds', t)))"
| "accrue _ _ _ sum_w = ([], sum_w)"

fun pick :: "bool list \<Rightarrow> int list \<Rightarrow> nat \<Rightarrow> nat list \<Rightarrow> nat option \<Rightarrow> nat option" where
  "pick active ds cursor [] selected = selected"
| "pick active ds cursor (offset # os) selected =
     (let index = (cursor + offset) mod CLASS_COUNT in
      if \<not> active ! index then pick active ds cursor os selected
      else pick active ds cursor os
             (case selected of
                Some current \<Rightarrow> if ds ! current \<ge> ds ! index then Some current else Some index
              | None \<Rightarrow> Some index))"

definition active_classes :: "Priority list \<Rightarrow> bool list" where
  "active_classes ps = foldl (\<lambda>active p. active[class_index p := True]) (replicate CLASS_COUNT False) ps"

definition select_class :: "FairSharePolicy \<Rightarrow> Priority list \<Rightarrow> FairSharePolicy \<times> Priority option" where
  "select_class P ps =
     (let active = active_classes ps in
      if \<not> list_ex id active then (P\<lparr>deficits := replicate CLASS_COUNT 0\<rparr>, None)
      else
        (case accrue (weights P) active (deficits P) 0 of
           (ds, sum_w) \<Rightarrow>
             (case pick active ds (tie_cursor P) [0..<CLASS_COUNT] None of
                None \<Rightarrow> (P\<lparr>deficits := ds\<rparr>, None)
              | Some i \<Rightarrow>
                  (P\<lparr>deficits := ds[i := sat_i128 (ds ! i - sum_w)], tie_cursor := (i + 1) mod CLASS_COUNT\<rparr>,
                   Some (priority_from_index i)))))"

section \<open>Deficits stay bounded\<close>

text \<open>
  With \<open>W\<close> the sum of the weights: no class is ever more than \<open>3 W / 2\<close> ahead or \<open>2 W\<close>
  behind, no two classes more than \<open>2 W\<close> or \<open>3 W\<close>, nor all three.
\<close>

definition bounded_credit :: "int \<Rightarrow> int \<Rightarrow> int \<Rightarrow> int \<Rightarrow> bool" where
  "bounded_credit W x y z \<longleftrightarrow>
     2 * x \<le> 3 * W \<and> 2 * y \<le> 3 * W \<and> 2 * z \<le> 3 * W \<and> x + y \<le> 2 * W \<and> x + z \<le> 2 * W \<and> y + z \<le> 2 * W \<and> x + y + z \<le> 2 * W \<and>
     - 2 * W \<le> x \<and> - 2 * W \<le> y \<and> - 2 * W \<le> z \<and> - 3 * W \<le> x + y \<and> - 3 * W \<le> x + z \<and> - 3 * W \<le> y + z \<and> - 3 * W \<le> x + y + z"

lemma bounded_credit_perm:
  "bounded_credit W x y z \<Longrightarrow> bounded_credit W y x z" "bounded_credit W x y z \<Longrightarrow> bounded_credit W z x y"
  "bounded_credit W x y z \<Longrightarrow> bounded_credit W y z x"
  by (auto simp: bounded_credit_def)

lemma credit_step:
  assumes "bounded_credit W x y z" "W = a + b + c" "0 < a" "0 < b" "0 < c"
    and "p \<Longrightarrow> y + b \<le> x + a" "q \<Longrightarrow> z + c \<le> x + a"
  shows "bounded_credit W (x + a - (a + (if p then b else 0) + (if q then c else 0)))
           (if p then y + b else 0) (if q then z + c else 0)"
  using assms unfolding bounded_credit_def by (cases p; cases q; simp; linarith)

definition fair_inv :: "FairSharePolicy \<Rightarrow> bool" where
  "fair_inv P \<longleftrightarrow>
     (\<exists>a b c x y z. weights P = [a, b, c] \<and> deficits P = [x, y, z] \<and> 0 < a \<and> 0 < b \<and> 0 < c \<and>
        a \<le> u32_max \<and> b \<le> u32_max \<and> c \<le> u32_max \<and> tie_cursor P < 3 \<and>
        bounded_credit (int a + int b + int c) x y z)"

lemma fair_invI:
  assumes "weights P = [a, b, c]" "deficits P = [x, y, z]" "0 < a" "0 < b" "0 < c"
    "a \<le> u32_max" "b \<le> u32_max" "c \<le> u32_max" "tie_cursor P < 3" "bounded_credit (int a + int b + int c) x y z"
  shows "fair_inv P"
  using assms unfolding fair_inv_def by blast

lemma less_3: "(i::nat) < 3 \<longleftrightarrow> i = 0 \<or> i = 1 \<or> i = 2"
  by auto

lemma ex_less_3: "(\<exists>i < 3. P i) \<longleftrightarrow> P (0::nat) \<or> P 1 \<or> P 2"
  by (auto simp: less_3)

lemma all_less_3: "(\<forall>i < 3. P i) \<longleftrightarrow> P (0::nat) \<and> P 1 \<and> P 2"
  by (auto simp: less_3)

lemma class_range: "[0..<CLASS_COUNT] = [0, 1, 2]"
  by (simp add: CLASS_COUNT_def upt_rec)

lemma pick_max:
  assumes "cursor < 3" "p \<or> q \<or> r"
  shows "\<exists>m < 3. pick [p, q, r] [x, y, z] cursor [0..<CLASS_COUNT] None = Some m \<and> [p, q, r] ! m \<and>
    (\<forall>j < 3. [p, q, r] ! j \<longrightarrow> [x, y, z] ! j \<le> [x, y, z] ! m)"
  using assms unfolding less_3 class_range ex_less_3 all_less_3
  by (elim disjE; cases p; cases q; cases r; simp add: CLASS_COUNT_def; linarith?)

definition share :: "FairSharePolicy \<Rightarrow> Priority \<Rightarrow> int" where
  "share P c = int (weights P ! class_index c)"

definition credit :: "FairSharePolicy \<Rightarrow> Priority \<Rightarrow> int" where
  "credit P c = deficits P ! class_index c"

definition all_shares :: "FairSharePolicy \<Rightarrow> int" where
  "all_shares P = share P Low + share P Normal + share P High"

definition backlog_shares :: "FairSharePolicy \<Rightarrow> Priority list \<Rightarrow> int" where
  "backlog_shares P ps =
     (if Low \<in> set ps then share P Low else 0) + (if Normal \<in> set ps then share P Normal else 0) +
     (if High \<in> set ps then share P High else 0)"

lemma active_classes_eq: "active_classes ps = [Low \<in> set ps, Normal \<in> set ps, High \<in> set ps]"
proof (induction ps rule: rev_induct)
  case Nil
  then show ?case by (simp add: active_classes_def CLASS_COUNT_def numeral_3_eq_3)
next
  case (snoc p ps)
  then have "active_classes (ps @ [p]) = [Low \<in> set ps, Normal \<in> set ps, High \<in> set ps][class_index p := True]"
    by (simp add: active_classes_def)
  then show ?case by (cases p) (simp_all add: class_index_def numeral_2_eq_2)
qed

lemma active_some: "list_ex id (active_classes ps) \<longleftrightarrow> ps \<noteq> []"
proof -
  have "(Low \<in> set ps \<or> Normal \<in> set ps \<or> High \<in> set ps) \<longleftrightarrow> ps \<noteq> []"
    by (cases ps; cases "hd ps") auto
  then show ?thesis by (simp add: active_classes_eq)
qed

lemma sat_i128_id: "\<bar>x\<bar> \<le> 2 ^ 40 \<Longrightarrow> sat_i128 x = x"
  by (simp add: sat_i128_def i128_max_def)

lemma bounded_small:
  assumes "bounded_credit (int a + int b + int c) x y z" "a \<le> u32_max" "b \<le> u32_max" "c \<le> u32_max"
  shows "\<bar>x\<bar> \<le> 2 ^ 36" "\<bar>y\<bar> \<le> 2 ^ 36" "\<bar>z\<bar> \<le> 2 ^ 36" "int a \<le> 2 ^ 32" "int b \<le> 2 ^ 32" "int c \<le> 2 ^ 32"
  using assms by (auto simp: bounded_credit_def u32_max_def)

lemma accrue_exact:
  assumes "bounded_credit (int a + int b + int c) x y z" "a \<le> u32_max" "b \<le> u32_max" "c \<le> u32_max"
  shows "accrue [a, b, c] [p, q, r] [x, y, z] 0 =
    ([if p then x + int a else 0, if q then y + int b else 0, if r then z + int c else 0],
     (if p then int a else 0) + (if q then int b else 0) + (if r then int c else 0))"
  using bounded_small [OF assms] by (simp add: sat_i128_id)

lemma credit_step_at:
  assumes b: "bounded_credit (int a + int b + int c) x y z" "0 < a" "0 < b" "0 < c" and m: "m < 3" "[p, q, r] ! m"
    and D: "ds = [if p then x + int a else 0, if q then y + int b else 0, if r then z + int c else 0]"
    and t: "t = (if p then int a else 0) + (if q then int b else 0) + (if r then int c else 0)"
    and best: "\<forall>j < 3. [p, q, r] ! j \<longrightarrow> ds ! j \<le> ds ! m"
  shows "bounded_credit (int a + int b + int c) (ds[m := ds ! m - t] ! 0) (ds[m := ds ! m - t] ! 1) (ds[m := ds ! m - t] ! 2)"
proof -
  have best': "p \<longrightarrow> x + int a \<le> ds ! m" "q \<longrightarrow> y + int b \<le> ds ! m" "r \<longrightarrow> z + int c \<le> ds ! m"
    using best by (auto simp: all_less_3 D numeral_2_eq_2)
  from m(1) consider "m = 0" | "m = 1" | "m = 2" by (auto simp: less_3)
  then show ?thesis
  proof cases
    case 1
    with credit_step [OF b(1) refl, of q r] b best' m show ?thesis by (simp add: D t numeral_2_eq_2 algebra_simps)
  next
    case 2
    with credit_step [OF bounded_credit_perm(1) [OF b(1)], of "int b" "int a" "int c" p r] b best' m
    have "bounded_credit (int a + int b + int c) (y + int b - (int b + (if p then int a else 0) + (if r then int c else 0)))
       (if p then x + int a else 0) (if r then z + int c else 0)" by (simp add: D)
    from bounded_credit_perm(1) [OF this] 2 m show ?thesis by (simp add: D t numeral_2_eq_2 algebra_simps)
  next
    case 3
    with credit_step [OF bounded_credit_perm(2) [OF b(1)], of "int c" "int a" "int b" p q] b best' m
    have "bounded_credit (int a + int b + int c) (z + int c - (int c + (if p then int a else 0) + (if q then int b else 0)))
       (if p then x + int a else 0) (if q then y + int b else 0)" by (simp add: D numeral_2_eq_2)
    from bounded_credit_perm(3) [OF this] 3 m show ?thesis by (simp add: D t algebra_simps numeral_2_eq_2)
  qed
qed

lemma three_elements: "length xs = 3 \<Longrightarrow> xs = [xs ! 0, xs ! 1, xs ! 2]"
  by (auto simp: numeral_3_eq_3 numeral_2_eq_2 length_Suc_conv)

lemma select_spec:
  assumes inv: "fair_inv P" and ps: "ps \<noteq> []"
  shows "\<exists>p Q. select_class P ps = (Q, Some p) \<and> p \<in> set ps \<and> fair_inv Q \<and> weights Q = weights P \<and>
    (\<forall>c. credit Q c = (if c \<in> set ps then credit P c + share P c - (if c = p then backlog_shares P ps else 0) else 0))"
proof -
  from inv obtain a b c x y z where P: "weights P = [a, b, c]" "deficits P = [x, y, z]" "0 < a" "0 < b" "0 < c"
    "a \<le> u32_max" "b \<le> u32_max" "c \<le> u32_max" "tie_cursor P < 3" "bounded_credit (int a + int b + int c) x y z"
    unfolding fair_inv_def by blast
  let ?p = "Low \<in> set ps" and ?q = "Normal \<in> set ps" and ?r = "High \<in> set ps"
  define ds where ds: "ds = [if ?p then x + int a else 0, if ?q then y + int b else 0, if ?r then z + int c else 0]"
  define t where t: "t = (if ?p then int a else 0) + (if ?q then int b else 0) + (if ?r then int c else 0)"
  have some: "?p \<or> ?q \<or> ?r" using active_some [of ps] ps by (simp add: active_classes_eq)
  have acc: "accrue (weights P) (active_classes ps) (deficits P) 0 = (ds, t)"
    unfolding P(1,2) active_classes_eq ds t by (rule accrue_exact [OF P(10,6-8)])
  from pick_max [OF P(9) some] obtain m where m: "m < 3" "[?p, ?q, ?r] ! m"
    "pick (active_classes ps) ds (tie_cursor P) [0..<CLASS_COUNT] None = Some m"
    "\<forall>j < 3. [?p, ?q, ?r] ! j \<longrightarrow> ds ! j \<le> ds ! m" unfolding active_classes_eq ds by blast
  have small: "\<bar>ds ! m - t\<bar> \<le> 2 ^ 40"
    using bounded_small [OF P(10,6-8)] m(1) by (auto simp: ds t less_3 numeral_2_eq_2)
  let ?Q = "P\<lparr>deficits := ds[m := ds ! m - t], tie_cursor := (m + 1) mod CLASS_COUNT\<rparr>"
  have sel: "select_class P ps = (?Q, Some (priority_from_index m))"
    unfolding select_class_def Let_def acc prod.case m(3) option.case sat_i128_id [OF small] using active_some [of ps] ps by simp
  have "length ds = 3" by (simp add: ds)
  then have len: "length (ds[m := ds ! m - t]) = 3" by simp
  have "fair_inv ?Q"
    by (rule fair_invI [of _ a b c, OF _ _ P(3-8) _ credit_step_at [OF P(10,3-5) m(1,2) ds t m(4)]])
      (use P(1) three_elements [OF len] in \<open>simp_all add: CLASS_COUNT_def\<close>)
  moreover have "priority_from_index m \<in> set ps"
    using m(1,2) by (auto simp: less_3 priority_from_index_def numeral_2_eq_2)
  moreover have "credit ?Q d = (if d \<in> set ps then credit P d + share P d - (if d = priority_from_index m then backlog_shares P ps else 0) else 0)" for d
    using m(1,2) by (cases d) (auto simp: less_3 ds t credit_def share_def backlog_shares_def class_index_def priority_from_index_def P(1,2) numeral_2_eq_2)
  moreover have "weights ?Q = weights P" by simp
  ultimately show ?thesis using sel by blast
qed

lemma fair_inv_credit:
  assumes "fair_inv P"
  shows "2 * credit P c \<le> 3 * all_shares P" "- 2 * all_shares P \<le> credit P c" "0 < share P c" "0 < all_shares P"
proof -
  from assms obtain a b d x y z where P: "weights P = [a, b, d]" "deficits P = [x, y, z]" "0 < a" "0 < b" "0 < d"
    "bounded_credit (int a + int b + int d) x y z" unfolding fair_inv_def by blast
  have all: "all_shares P = int a + int b + int d"
    by (simp add: all_shares_def share_def class_index_def P(1) numeral_2_eq_2)
  show "2 * credit P c \<le> 3 * all_shares P" "- 2 * all_shares P \<le> credit P c"
    using P(6) unfolding bounded_credit_def all by (cases c; simp add: credit_def class_index_def P(2) numeral_2_eq_2)+
  show "0 < share P c" using P(3-5) by (cases c) (simp_all add: share_def class_index_def P(1) numeral_2_eq_2)
  show "0 < all_shares P" using P(3-5) by (simp add: all)
qed

section \<open>No starvation, fair shares\<close>

text \<open>A run: the classes backlogged in each round, and the class each round selects.\<close>

fun select_run :: "FairSharePolicy \<Rightarrow> Priority list list \<Rightarrow> FairSharePolicy \<times> Priority option list" where
  "select_run P [] = (P, [])"
| "select_run P (ps # rounds) =
     (case select_class P ps of (Q, p) \<Rightarrow> (case select_run Q rounds of (R, sel) \<Rightarrow> (R, p # sel)))"

inductive fair_reachable :: "FairSharePolicy \<Rightarrow> bool" where
  fresh: "fair_reachable fair_share_new"
| weighted: "\<lbrakk>with_weights low normal high = Some P; low \<le> u32_max; normal \<le> u32_max; high \<le> u32_max\<rbrakk> \<Longrightarrow> fair_reachable P"
| reweighted: "\<lbrakk>fair_reachable P; set_weight P p w = Some Q; w \<le> u32_max\<rbrakk> \<Longrightarrow> fair_reachable Q"
| selected: "\<lbrakk>fair_reachable P; select_class P ps = (Q, r)\<rbrakk> \<Longrightarrow> fair_reachable Q"

lemma fair_inv_reset:
  "fair_inv P \<Longrightarrow> fair_inv (P\<lparr>deficits := replicate CLASS_COUNT 0\<rparr>)"
  by (auto simp: fair_inv_def bounded_credit_def CLASS_COUNT_def numeral_3_eq_3)

lemma set_weight_inv:
  assumes "fair_inv P" "set_weight P p w = Some Q" "w \<le> u32_max"
  shows "fair_inv Q"
proof -
  from assms(1) obtain a b c where P: "weights P = [a, b, c]" "0 < a" "0 < b" "0 < c"
    "a \<le> u32_max" "b \<le> u32_max" "c \<le> u32_max" "tie_cursor P < 3" unfolding fair_inv_def by blast
  from assms(2) have Q: "0 < w" "Q = P\<lparr>weights := [a, b, c][class_index p := w], deficits := [0, 0, 0]\<rparr>"
    by (auto simp: set_weight_def P(1) CLASS_COUNT_def numeral_3_eq_3 split: if_splits)
  show ?thesis
    using P Q(1) assms(3) unfolding Q(2) fair_inv_def
    by (cases p) (auto simp: class_index_def bounded_credit_def numeral_2_eq_2)
qed

lemma select_inv:
  assumes "fair_inv P" "select_class P ps = (Q, r)"
  shows "fair_inv Q"
proof (cases "ps = []")
  case True
  with assms active_some [of ps] fair_inv_reset show ?thesis by (auto simp: select_class_def)
next
  case False
  from select_spec [OF assms(1) False] assms(2) show ?thesis by auto
qed

lemma fair_reachable_inv: "fair_reachable P \<Longrightarrow> fair_inv P"
proof (induction rule: fair_reachable.induct)
  case fresh
  then show ?case
    by (simp add: fair_inv_def fair_share_new_def bounded_credit_def CLASS_COUNT_def numeral_3_eq_3 u32_max_def)
next
  case (weighted low normal high P)
  then show ?case
    by (auto simp: fair_inv_def with_weights_def bounded_credit_def CLASS_COUNT_def numeral_3_eq_3 split: if_splits)
qed (auto intro: set_weight_inv select_inv)

lemma run_credit:
  assumes "fair_inv P" "\<forall>ps \<in> set rounds. c \<in> set ps \<and> backlog_shares P ps = W" "select_run P rounds = (Q, sel)"
  shows "fair_inv Q \<and> weights Q = weights P \<and> length sel = length rounds \<and>
    credit Q c = credit P c + int (length rounds) * share P c - int (count_list sel (Some c)) * W"
  using assms
proof (induction rounds arbitrary: P sel)
  case (Cons ps rounds)
  have "c \<in> set ps" "ps \<noteq> []" using Cons.prems(2) by auto
  with select_spec [OF Cons.prems(1), of ps] obtain p R where R: "select_class P ps = (R, Some p)" "fair_inv R" "weights R = weights P"
    "credit R c = credit P c + share P c - (if c = p then backlog_shares P ps else 0)" by auto
  obtain sel' where run: "select_run R rounds = (Q, sel')" and sel: "sel = Some p # sel'"
    using Cons.prems(3) R(1) by (auto split: prod.splits)
  have "backlog_shares R qs = backlog_shares P qs" "share R d = share P d" for qs d
    by (simp_all add: backlog_shares_def share_def R(3))
  with Cons.IH [OF R(2) _ run] Cons.prems(2) R(3,4) show ?case by (auto simp: sel algebra_simps)
qed simp

lemma unselected_credit:
  assumes "fair_inv P" "\<forall>ps \<in> set rounds. c \<in> set ps" "select_run P rounds = (Q, sel)" "Some c \<notin> set sel"
  shows "fair_inv Q \<and> weights Q = weights P \<and> credit Q c = credit P c + int (length rounds) * share P c"
  using assms
proof (induction rounds arbitrary: P sel)
  case (Cons ps rounds)
  have "c \<in> set ps" "ps \<noteq> []" using Cons.prems(2) by auto
  with select_spec [OF Cons.prems(1), of ps] obtain p R where R: "select_class P ps = (R, Some p)" "fair_inv R" "weights R = weights P"
    "credit R c = credit P c + share P c - (if c = p then backlog_shares P ps else 0)" by auto
  obtain sel' where run: "select_run R rounds = (Q, sel')" and sel: "sel = Some p # sel'"
    using Cons.prems(3) R(1) by (auto split: prod.splits)
  have "share R d = share P d" for d by (simp add: share_def R(3))
  with Cons.IH [OF R(2) _ run] Cons.prems(2,4) R(3,4) show ?case by (auto simp: sel algebra_simps)
qed simp

text \<open>
  C26. No class starves. From any state the policy can be in, a class that stays backlogged
  is selected before \<open>n\<close> rounds have passed as soon as \<open>n\<close> times its weight exceeds four times
  the sum of the weights, whatever the other classes do in the meantime.
\<close>

theorem backlogged_class_is_selected:
  assumes "fair_reachable P" "\<forall>ps \<in> set rounds. c \<in> set ps"
    and "4 * all_shares P < int (length rounds) * share P c"
  shows "Some c \<in> set (snd (select_run P rounds))"
proof (rule ccontr)
  assume no: "Some c \<notin> set (snd (select_run P rounds))"
  have inv: "fair_inv P" using assms(1) by (rule fair_reachable_inv)
  obtain Q sel where run: "select_run P rounds = (Q, sel)" by (cases "select_run P rounds")
  from unselected_credit [OF inv assms(2) run] no run
  have Q: "fair_inv Q" "weights Q = weights P" "credit Q c = credit P c + int (length rounds) * share P c" by auto
  have "all_shares Q = all_shares P" by (simp add: all_shares_def share_def Q(2))
  with fair_inv_credit(1) [OF Q(1), of c] fair_inv_credit(2) [OF inv, of c] fair_inv_credit(4) [OF inv] Q(3) assms(3)
  show False by linarith
qed

text \<open>
  C27. Service follows the weights. While the same classes stay backlogged, the number of
  times a class is selected in \<open>n\<close> rounds differs from its exact share \<open>n * weight / backlog\<close> by
  at most a constant that does not depend on \<open>n\<close>: three and a half times the sum of all
  weights over the backlogged weight.
\<close>

theorem selections_follow_the_weights:
  assumes "fair_reachable P" "\<forall>ps \<in> set rounds. c \<in> set ps \<and> backlog_shares P ps = W"
  shows "2 * \<bar>int (length rounds) * share P c - int (count_list (snd (select_run P rounds)) (Some c)) * W\<bar> \<le> 7 * all_shares P"
proof -
  have inv: "fair_inv P" using assms(1) by (rule fair_reachable_inv)
  obtain Q sel where run: "select_run P rounds = (Q, sel)" by (cases "select_run P rounds")
  from run_credit [OF inv assms(2) run] have Q: "fair_inv Q" "weights Q = weights P"
    "credit Q c = credit P c + int (length rounds) * share P c - int (count_list sel (Some c)) * W" by auto
  have "all_shares Q = all_shares P" by (simp add: all_shares_def share_def Q(2))
  with fair_inv_credit(1,2) [OF Q(1), of c] fair_inv_credit(1,2) [OF inv, of c]
  have "2 * (credit Q c - credit P c) \<le> 7 * all_shares P \<and> - 7 * all_shares P \<le> 2 * (credit Q c - credit P c)"
    by presburger
  then have "2 * \<bar>credit Q c - credit P c\<bar> \<le> 7 * all_shares P" by linarith
  then show ?thesis using Q(3) run by simp
qed

theorem backlogged_class_is_selected_witness:
  "Some Low \<in> set (snd (select_run fair_share_new (replicate 13 [High, Low])))"
  by (rule backlogged_class_is_selected [OF fair_reachable.fresh])
    (simp_all add: all_shares_def share_def fair_share_new_def class_index_def)

theorem selections_follow_the_weights_witness:
  "2 * \<bar>int 20 - int (count_list (snd (select_run fair_share_new (replicate 20 [High, Low]))) (Some Low)) * 2\<bar> \<le> 21"
proof -
  have "share fair_share_new Low = 1" "all_shares fair_share_new = 3" "backlog_shares fair_share_new [High, Low] = 2" by code_simp+
  with selections_follow_the_weights [OF fair_reachable.fresh, of "replicate 20 [High, Low]" Low 2] show ?thesis by simp
qed

end
