(* ===== verification/Scheduler.thy ===== *)
theory Scheduler
  imports AdmissionBudget FairShare
begin

text \<open>
  The continuous-batching scheduler of \<open>onnx-genai-scheduler/src/lib.rs\<close>. The byte budget is
  shared with other schedulers, so it is not part of a scheduler's record: every operation
  that touches it takes the cell and returns it (\<open>None\<close> for a scheduler without a budget).
  Request numbers and the arrival clock are counters that are never reset; they are natural
  numbers here.
\<close>

section \<open>Data\<close>

record Request =
  rq_id :: nat
  rq_seq_id :: nat
  rq_priority :: Priority
  rq_prompt_tokens :: nat
  rq_max_tokens :: nat
  rq_arrived_at :: nat

record ScheduledBudgetCap =
  requested_max_tokens :: nat
  admitted_max_tokens :: nat
  requested_bytes :: nat
  admitted_bytes :: nat
  available_bytes :: nat

record ScheduledRequest =
  sr_request_id :: nat
  sr_seq_id :: nat
  sr_max_tokens :: nat
  sr_budget_cap :: "ScheduledBudgetCap option"

record ByteBudgetRefusal =
  rf_request_id :: nat
  rf_seq_id :: nat
  rf_prompt_tokens :: nat
  rf_max_tokens :: nat
  rf_bytes_per_token :: nat
  rf_requested :: nat
  rf_minimum_required :: nat
  rf_used :: nat
  rf_limit :: nat
  rf_available :: nat
  rf_shortfall :: nat
  rf_running :: nat
  rf_max_batch_size :: nat

datatype SchedulerAdmissionError =
  BatchFull nat nat
| ByteBudgetExceeded ByteBudgetRefusal

record RunningSequence =
  seq_id :: nat
  request_id :: nat
  prompt_tokens :: nat
  generated_tokens :: nat
  max_tokens :: nat
  rs_priority :: Priority
  arrived_at :: nat
  reserved_bytes :: nat
  budget_cap :: "ScheduledBudgetCap option"

record ScheduleDecision =
  prefill :: "nat list"
  decode :: "nat list"
  preempt :: "nat list"
  swap_in :: "nat list"

datatype PriorityPolicy = Fcfs | PriorityFirst | FairShares

datatype PreemptionPolicy = Disabled | Swap | Recompute

record SchedulerConfig =
  max_batch_size :: nat
  max_total_tokens :: nat
  priority_policy :: PriorityPolicy
  preemption_policy :: PreemptionPolicy
  bytes_per_token :: "nat option"

definition default_config :: SchedulerConfig where
  "default_config = \<lparr>max_batch_size = 32, max_total_tokens = 65536, priority_policy = Fcfs,
     preemption_policy = Swap, bytes_per_token = None\<rparr>"

record Scheduler =
  config :: SchedulerConfig
  waiting :: "Request list"
  running :: "RunningSequence list"
  swapped :: "RunningSequence list"
  next_request_id :: nat
  sched_clock :: nat
  fair_share :: FairSharePolicy

type_synonym budget_cell = "ByteBudget option"

definition scheduler_new :: "SchedulerConfig \<Rightarrow> Scheduler" where
  "scheduler_new cfg = \<lparr>config = cfg, waiting = [], running = [], swapped = [], next_request_id = 0,
     sched_clock = 0, fair_share = fair_share_new\<rparr>"

definition with_fair_share_weights :: "Scheduler \<Rightarrow> nat \<Rightarrow> nat \<Rightarrow> nat \<Rightarrow> Scheduler option" where
  "with_fair_share_weights S low normal high =
     map_option (\<lambda>P. S\<lparr>fair_share := P\<rparr>) (with_weights low normal high)"

definition add_request :: "Scheduler \<Rightarrow> nat \<Rightarrow> nat \<Rightarrow> nat \<Rightarrow> Priority \<Rightarrow> Scheduler \<times> nat" where
  "add_request S sid prompt maxt prio =
     (S\<lparr>next_request_id := next_request_id S + 1, sched_clock := sched_clock S + 1,
        waiting := waiting S @ [\<lparr>rq_id = next_request_id S, rq_seq_id = sid, rq_priority = prio,
          rq_prompt_tokens = prompt, rq_max_tokens = maxt, rq_arrived_at = sched_clock S + 1\<rparr>]\<rparr>,
      next_request_id S)"

definition enqueue_generate_request :: "Scheduler \<Rightarrow> nat \<Rightarrow> nat \<Rightarrow> nat \<Rightarrow> Priority \<Rightarrow> Scheduler \<times> nat" where
  "enqueue_generate_request S sid prompt maxt prio = add_request S sid prompt maxt prio"

section \<open>Byte accounting\<close>

definition estimated_bytes :: "Scheduler \<Rightarrow> nat \<Rightarrow> nat \<Rightarrow> nat" where
  "estimated_bytes S prompt maxt =
     (case bytes_per_token (config S) of
        Some b \<Rightarrow> sat_mul_u64 (sat_add_u64 prompt maxt) b
      | None \<Rightarrow> 0)"

definition try_reserve_bytes :: "budget_cell \<Rightarrow> nat \<Rightarrow> budget_cell \<times> (ByteBudgetError + unit)" where
  "try_reserve_bytes B bytes =
     (case B of
        Some b \<Rightarrow> (case try_reserve b bytes of (b', r) \<Rightarrow> (Some b', r))
      | None \<Rightarrow> (None, Inr ()))"

definition release_bytes :: "budget_cell \<Rightarrow> nat \<Rightarrow> budget_cell" where
  "release_bytes B bytes = map_option (\<lambda>b. budget_release b bytes) B"

definition max_tokens_for_reserved_bytes :: "Scheduler \<Rightarrow> nat \<Rightarrow> nat \<Rightarrow> nat option" where
  "max_tokens_for_reserved_bytes S prompt bytes =
     (case bytes_per_token (config S) of
        None \<Rightarrow> None
      | Some b \<Rightarrow>
          if b = 0 then None
          else (let n = bytes div b in
                if prompt \<le> n \<and> n - prompt > 0 then Some (n - prompt) else None))"

definition admission_byte_error :: "Scheduler \<Rightarrow> Request \<Rightarrow> nat \<Rightarrow> ByteBudgetError \<Rightarrow> SchedulerAdmissionError" where
  "admission_byte_error S rq req e =
     ByteBudgetExceeded
       \<lparr>rf_request_id = rq_id rq, rf_seq_id = rq_seq_id rq, rf_prompt_tokens = rq_prompt_tokens rq,
        rf_max_tokens = rq_max_tokens rq,
        rf_bytes_per_token = (case bytes_per_token (config S) of None \<Rightarrow> 0 | Some b \<Rightarrow> b),
        rf_requested = req, rf_minimum_required = estimated_bytes S (rq_prompt_tokens rq) 1,
        rf_used = be_used e, rf_limit = be_limit e, rf_available = be_available e,
        rf_shortfall = estimated_bytes S (rq_prompt_tokens rq) 1 - be_available e,
        rf_running = length (running S), rf_max_batch_size = max_batch_size (config S)\<rparr>"

definition reserve_or_cap_request ::
  "budget_cell \<Rightarrow> Scheduler \<Rightarrow> Request \<Rightarrow>
     budget_cell \<times> (SchedulerAdmissionError + Request \<times> nat \<times> ScheduledBudgetCap option)" where
  "reserve_or_cap_request B S rq =
     (let req = estimated_bytes S (rq_prompt_tokens rq) (rq_max_tokens rq) in
      case B of
        None \<Rightarrow> (None, Inr (rq, req, None))
      | Some b \<Rightarrow>
          (case bytes_per_token (config S) of
             Some (Suc u) \<Rightarrow>
               (case try_reserve_at_most b req (estimated_bytes S (rq_prompt_tokens rq) 1) (Suc u) of
                  (b1, Inl e) \<Rightarrow> (Some b1, Inl (admission_byte_error S rq req e))
                | (b1, Inr v) \<Rightarrow>
                    if reserved v = req then (Some b1, Inr (rq, req, None))
                    else
                      (case max_tokens_for_reserved_bytes S (rq_prompt_tokens rq) (reserved v) of
                         None \<Rightarrow>
                           (let b2 = budget_release b1 (reserved v) in
                            case budget_limit b2 of
                              (b3, l) \<Rightarrow>
                                (Some b3, Inl (admission_byte_error S rq req
                                   \<lparr>be_requested = req, be_used = bb_used b2, be_limit = l,
                                    be_available = available_before v,
                                    be_shortfall = estimated_bytes S (rq_prompt_tokens rq) 1 - available_before v\<rparr>)))
                       | Some n \<Rightarrow>
                           (Some b1, Inr (rq\<lparr>rq_max_tokens := min n (rq_max_tokens rq)\<rparr>, reserved v,
                              Some \<lparr>requested_max_tokens = rq_max_tokens rq,
                                   admitted_max_tokens = min n (rq_max_tokens rq), requested_bytes = req,
                                   admitted_bytes = reserved v, available_bytes = available_before v\<rparr>))))
           | _ \<Rightarrow>
               (case try_reserve b req of
                  (b1, Inl e) \<Rightarrow> (Some b1, Inl (admission_byte_error S rq req e))
                | (b1, Inr _) \<Rightarrow> (Some b1, Inr (rq, req, None)))))"

definition push_admitted_request ::
  "Scheduler \<Rightarrow> Request \<Rightarrow> nat \<Rightarrow> ScheduledBudgetCap option \<Rightarrow> Scheduler" where
  "push_admitted_request S rq bytes cap =
     S\<lparr>running := running S @ [\<lparr>seq_id = rq_seq_id rq, request_id = rq_id rq, prompt_tokens = rq_prompt_tokens rq,
        generated_tokens = 0, max_tokens = rq_max_tokens rq, rs_priority = rq_priority rq,
        arrived_at = rq_arrived_at rq, reserved_bytes = bytes, budget_cap = cap\<rparr>]\<rparr>"

definition drive_next_fcfs_result ::
  "budget_cell \<Rightarrow> Scheduler \<Rightarrow> budget_cell \<times> Scheduler \<times> (SchedulerAdmissionError + ScheduledRequest option)" where
  "drive_next_fcfs_result B S =
     (if length (running S) \<ge> max_batch_size (config S)
      then (B, S, Inl (BatchFull (length (running S)) (max_batch_size (config S))))
      else (case waiting S of
              [] \<Rightarrow> (B, S, Inr None)
            | rq # rest \<Rightarrow>
                (case reserve_or_cap_request B (S\<lparr>waiting := rest\<rparr>) rq of
                   (B', Inl e) \<Rightarrow> (B', S, Inl e)
                 | (B', Inr (rq', bytes, cap)) \<Rightarrow>
                     (B', push_admitted_request (S\<lparr>waiting := rest\<rparr>) rq' bytes cap,
                      Inr (Some \<lparr>sr_request_id = rq_id rq', sr_seq_id = rq_seq_id rq',
                                sr_max_tokens = rq_max_tokens rq', sr_budget_cap = cap\<rparr>)))))"

definition drive_next_fcfs :: "budget_cell \<Rightarrow> Scheduler \<Rightarrow> budget_cell \<times> Scheduler \<times> ScheduledRequest option" where
  "drive_next_fcfs B S =
     (case drive_next_fcfs_result B S of (B', S', r) \<Rightarrow> (B', S', case r of Inl _ \<Rightarrow> None | Inr x \<Rightarrow> x))"

section \<open>Choosing a candidate\<close>

datatype Ordering = Less | Equal | Greater

definition cmp :: "'a::linorder \<Rightarrow> 'a \<Rightarrow> Ordering" where
  "cmp a b = (if a < b then Less else if a = b then Equal else Greater)"

definition then_with :: "Ordering \<Rightarrow> Ordering \<Rightarrow> Ordering" where
  "then_with a b = (case a of Equal \<Rightarrow> b | _ \<Rightarrow> a)"

record CandidateKey =
  ck_priority :: Priority
  ck_arrived_at :: nat
  ck_request_id :: nat

definition from_request :: "Request \<Rightarrow> CandidateKey" where
  "from_request rq = \<lparr>ck_priority = rq_priority rq, ck_arrived_at = rq_arrived_at rq, ck_request_id = rq_id rq\<rparr>"

definition from_running :: "RunningSequence \<Rightarrow> CandidateKey" where
  "from_running s = \<lparr>ck_priority = rs_priority s, ck_arrived_at = arrived_at s, ck_request_id = request_id s\<rparr>"

definition cmp_candidate_key :: "PriorityPolicy \<Rightarrow> CandidateKey \<Rightarrow> CandidateKey \<Rightarrow> Ordering" where
  "cmp_candidate_key pol a b =
     then_with
       (case pol of
          Fcfs \<Rightarrow> cmp (ck_arrived_at a) (ck_arrived_at b)
        | PriorityFirst \<Rightarrow> then_with (cmp (ck_priority b) (ck_priority a)) (cmp (ck_arrived_at a) (ck_arrived_at b))
        | FairShares \<Rightarrow> cmp (ck_arrived_at a) (ck_arrived_at b))
       (cmp (ck_request_id a) (ck_request_id b))"

text \<open>\<open>enumerate().min_by(..)\<close>: the index of the first minimum.\<close>

fun min_by_from :: "('a \<Rightarrow> 'a \<Rightarrow> Ordering) \<Rightarrow> nat \<Rightarrow> 'a list \<Rightarrow> (nat \<times> 'a) option \<Rightarrow> (nat \<times> 'a) option" where
  "min_by_from c i [] best = best"
| "min_by_from c i (x # xs) best =
     min_by_from c (Suc i) xs
       (case best of None \<Rightarrow> Some (i, x) | Some (j, y) \<Rightarrow> if c y x = Greater then Some (i, x) else Some (j, y))"

definition min_by :: "('a \<Rightarrow> 'a \<Rightarrow> Ordering) \<Rightarrow> 'a list \<Rightarrow> nat option" where
  "min_by c xs = map_option fst (min_by_from c 0 xs None)"

definition best_waiting_index :: "Scheduler \<Rightarrow> nat option" where
  "best_waiting_index S =
     min_by (\<lambda>a b. cmp_candidate_key (priority_policy (config S)) (from_request a) (from_request b)) (waiting S)"

definition best_swapped_index :: "Scheduler \<Rightarrow> nat option" where
  "best_swapped_index S =
     min_by (\<lambda>a b. cmp_candidate_key (priority_policy (config S)) (from_running a) (from_running b)) (swapped S)"

definition lowest_priority_running_index :: "Scheduler \<Rightarrow> nat option" where
  "lowest_priority_running_index S =
     min_by (\<lambda>a b. then_with (then_with (cmp (rs_priority a) (rs_priority b)) (cmp (arrived_at b) (arrived_at a)))
                     (cmp (request_id b) (request_id a))) (running S)"

datatype Candidate = WaitingCandidate Request | SwappedCandidate RunningSequence

definition take_waiting :: "Scheduler \<Rightarrow> nat \<Rightarrow> Scheduler \<times> Candidate option" where
  "take_waiting S i = (S\<lparr>waiting := remove_nth i (waiting S)\<rparr>, Some (WaitingCandidate (waiting S ! i)))"

definition take_swapped :: "Scheduler \<Rightarrow> nat \<Rightarrow> Scheduler \<times> Candidate option" where
  "take_swapped S i = (S\<lparr>swapped := remove_nth i (swapped S)\<rparr>, Some (SwappedCandidate (swapped S ! i)))"

text \<open>\<open>filter(..).min_by_key(..)\<close> over an enumeration, keeping the original indices.\<close>

definition oldest_of_class :: "('a \<Rightarrow> CandidateKey) \<Rightarrow> Priority \<Rightarrow> 'a list \<Rightarrow> (nat \<times> nat \<times> nat) option" where
  "oldest_of_class key p xs =
     map_option (\<lambda>(_, i, x). (i, ck_arrived_at (key x), ck_request_id (key x)))
       (min_by_from
          (\<lambda>a b. then_with (cmp (ck_arrived_at (key (snd a))) (ck_arrived_at (key (snd b))))
                   (cmp (ck_request_id (key (snd a))) (ck_request_id (key (snd b)))))
          0 (filter (\<lambda>(i, x). ck_priority (key x) = p) (enumerate 0 xs)) None)"

text \<open>
  The selected class always has a candidate, so the last arm, a panic in the source, is never
  taken (\<open>fair_share_has_candidate\<close>).
\<close>

definition pop_next_fair_share_candidate :: "Scheduler \<Rightarrow> Scheduler \<times> Candidate option" where
  "pop_next_fair_share_candidate S =
     (case select_class (fair_share S) (map rq_priority (waiting S) @ map rs_priority (swapped S)) of
        (P, sel) \<Rightarrow>
          (let S1 = S\<lparr>fair_share := P\<rparr> in
           case sel of
             None \<Rightarrow> (S1, None)
           | Some p \<Rightarrow>
               (case (oldest_of_class from_request p (waiting S1), oldest_of_class from_running p (swapped S1)) of
                  (Some (i, _, _), None) \<Rightarrow> take_waiting S1 i
                | (None, Some (i, _, _)) \<Rightarrow> take_swapped S1 i
                | (Some (i, wa, wid), Some (j, sa, sid)) \<Rightarrow>
                    if wa < sa \<or> wa = sa \<and> wid < sid then take_waiting S1 i else take_swapped S1 j
                | (None, None) \<Rightarrow> (S1, None))))"

definition pop_next_candidate :: "Scheduler \<Rightarrow> Scheduler \<times> Candidate option" where
  "pop_next_candidate S =
     (if priority_policy (config S) = FairShares then pop_next_fair_share_candidate S
      else (case (best_waiting_index S, best_swapped_index S) of
              (None, None) \<Rightarrow> (S, None)
            | (Some i, None) \<Rightarrow> take_waiting S i
            | (None, Some j) \<Rightarrow> take_swapped S j
            | (Some i, Some j) \<Rightarrow>
                if cmp_candidate_key (priority_policy (config S)) (from_request (waiting S ! i)) (from_running (swapped S ! j)) = Less
                then take_waiting S i else take_swapped S j))"

section \<open>One iteration\<close>

definition running_token_budget :: "Scheduler \<Rightarrow> nat" where
  "running_token_budget S = sum_list (map (\<lambda>s. prompt_tokens s + generated_tokens s) (running S))"

definition has_capacity_for_candidate :: "Scheduler \<Rightarrow> bool" where
  "has_capacity_for_candidate S \<longleftrightarrow>
     length (running S) < max_batch_size (config S) \<and> running_token_budget S < max_total_tokens (config S)"

fun reap :: "budget_cell \<Rightarrow> RunningSequence list \<Rightarrow> budget_cell \<times> RunningSequence list" where
  "reap B [] = (B, [])"
| "reap B (s # ss) =
     (if generated_tokens s < max_tokens s
      then (case reap B ss of (B', kept) \<Rightarrow> (B', s # kept))
      else reap (release_bytes B (reserved_bytes s)) ss)"

lemma min_by_from_bound:
  assumes "min_by_from c i xs best = Some (j, y)" "\<And>k z. best = Some (k, z) \<Longrightarrow> k < i + length xs"
  shows "j < i + length xs"
  using assms
proof (induction xs arbitrary: i best)
  case (Cons x xs)
  show ?case using Cons.IH [OF Cons.prems(1) [simplified]] Cons.prems(2) by (fastforce split: option.splits if_splits)
qed auto

lemma min_by_bound: "min_by c xs = Some j \<Longrightarrow> j < length xs"
  using min_by_from_bound [of c 0 xs None] by (auto simp: min_by_def)

function (sequential) preempt_loop ::
  "budget_cell \<Rightarrow> Scheduler \<Rightarrow> ScheduleDecision \<Rightarrow> budget_cell \<times> Scheduler \<times> ScheduleDecision" where
  "preempt_loop B S D =
     (if has_capacity_for_candidate S then (B, S, D)
      else (case best_waiting_index S of
              None \<Rightarrow> (B, S, D)
            | Some i \<Rightarrow>
                (case lowest_priority_running_index S of
                   None \<Rightarrow> (B, S, D)
                 | Some v \<Rightarrow>
                     if rq_priority (waiting S ! i) \<le> rs_priority (running S ! v) then (B, S, D)
                     else (let victim = running S ! v in
                           preempt_loop (release_bytes B (reserved_bytes victim))
                             (S\<lparr>running := remove_nth v (running S),
                                swapped := swapped S @ [victim\<lparr>reserved_bytes := 0\<rparr>]\<rparr>)
                             (D\<lparr>preempt := preempt D @ [seq_id victim]\<rparr>)))))"
  by pat_completeness auto

lemma victim_bound: "lowest_priority_running_index S = Some v \<Longrightarrow> v < length (running S)"
  by (auto simp: lowest_priority_running_index_def dest: min_by_bound)

termination preempt_loop
proof (relation "measure (\<lambda>(B, S, D). length (running S))", simp)
  fix S :: Scheduler and v assume "lowest_priority_running_index S = Some v"
  then have "v < length (running S)" by (rule victim_bound)
  then have "length (remove_nth v (running S)) < length (running S)" by simp
  then show "((B', S\<lparr>running := remove_nth v (running S), swapped := W\<rparr>, D'), (B, S, D)) \<in> measure (\<lambda>(B, S, D). length (running S))"
    for B' B D' D W by simp
qed

declare preempt_loop.simps [simp del]

definition apply_preemption ::
  "budget_cell \<Rightarrow> Scheduler \<Rightarrow> ScheduleDecision \<Rightarrow> budget_cell \<times> Scheduler \<times> ScheduleDecision" where
  "apply_preemption B S D =
     (if preemption_policy (config S) = Disabled \<or> priority_policy (config S) = FairShares \<or>
         running S = [] \<or> waiting S = []
      then (B, S, D) else preempt_loop B S D)"

lemma take_keeps [simp]:
  "config (fst (take_waiting S i)) = config S" "running (fst (take_waiting S i)) = running S"
  "config (fst (take_swapped S i)) = config S" "running (fst (take_swapped S i)) = running S"
  by (simp_all add: take_waiting_def take_swapped_def)

lemma pop_keeps [simp]:
  "config (fst (pop_next_candidate S)) = config S" "running (fst (pop_next_candidate S)) = running S"
  by (simp_all add: pop_next_candidate_def pop_next_fair_share_candidate_def Let_def split: option.split prod.split)

function (sequential) admit_loop ::
  "budget_cell \<Rightarrow> Scheduler \<Rightarrow> ScheduleDecision \<Rightarrow> budget_cell \<times> Scheduler \<times> ScheduleDecision" where
  "admit_loop B S D =
     (if \<not> has_capacity_for_candidate S then (B, S, D)
      else (case pop_next_candidate S of
              (S1, None) \<Rightarrow> (B, S1, D)
            | (S1, Some (WaitingCandidate rq)) \<Rightarrow>
                (case reserve_or_cap_request B S1 rq of
                   (B', Inl _) \<Rightarrow> (B', S1\<lparr>waiting := waiting S1 @ [rq]\<rparr>, D)
                 | (B', Inr (rq', bytes, cap)) \<Rightarrow>
                     admit_loop B' (push_admitted_request S1 rq' bytes cap)
                       (D\<lparr>prefill := prefill D @ [rq_seq_id rq']\<rparr>))
            | (S1, Some (SwappedCandidate s)) \<Rightarrow>
                (let bytes = estimated_bytes S1 (prompt_tokens s) (max_tokens s) in
                 case try_reserve_bytes B bytes of
                   (B', Inl _) \<Rightarrow> (B', S1\<lparr>swapped := swapped S1 @ [s]\<rparr>, D)
                 | (B', Inr _) \<Rightarrow>
                     admit_loop B' (S1\<lparr>running := running S1 @ [s\<lparr>reserved_bytes := bytes\<rparr>]\<rparr>)
                       (D\<lparr>swap_in := swap_in D @ [seq_id s]\<rparr>))))"
  by pat_completeness auto

termination admit_loop
proof (relation "measure (\<lambda>(B, S, D). max_batch_size (config S) - length (running S))", simp)
  fix S S1 :: Scheduler and c assume cap: "\<not> \<not> has_capacity_for_candidate S" and pop: "(S1, c) = pop_next_candidate S"
  have keep: "config S1 = config S" "running S1 = running S" using pop_keeps [of S] by (simp_all flip: pop)
  from cap have "length (running S) < max_batch_size (config S)" by (simp add: has_capacity_for_candidate_def)
  with keep show "((B', push_admitted_request S1 rq bytes cp, D'), (B, S, D)) \<in> measure (\<lambda>(B, S, D). max_batch_size (config S) - length (running S))"
    "((B', S1\<lparr>running := running S1 @ [s]\<rparr>, D'), (B, S, D)) \<in> measure (\<lambda>(B, S, D). max_batch_size (config S) - length (running S))"
    for B' B D' D rq bytes cp s by (auto simp: push_admitted_request_def)
qed

declare admit_loop.simps [simp del]

definition schedule :: "budget_cell \<Rightarrow> Scheduler \<Rightarrow> budget_cell \<times> Scheduler \<times> ScheduleDecision" where
  "schedule B S =
     (case reap B (running S) of
        (B1, still_running) \<Rightarrow>
          (let S1 = S\<lparr>running := still_running\<rparr>;
               previously_running = map seq_id still_running in
           case apply_preemption B1 S1 \<lparr>prefill = [], decode = [], preempt = [], swap_in = []\<rparr> of
             (B2, S2, D2) \<Rightarrow>
               (case admit_loop B2 S2 D2 of
                  (B3, S3, D3) \<Rightarrow>
                    (B3, S3, D3\<lparr>decode := filter (\<lambda>s. s \<in> set previously_running) (map seq_id (running S3))\<rparr>))))"

section \<open>The other operations\<close>

fun position :: "('a \<Rightarrow> bool) \<Rightarrow> 'a list \<Rightarrow> nat option" where
  "position p [] = None"
| "position p (x # xs) = (if p x then Some 0 else map_option Suc (position p xs))"

definition advance :: "Scheduler \<Rightarrow> nat \<Rightarrow> Scheduler" where
  "advance S sid =
     (case position (\<lambda>s. seq_id s = sid) (running S) of
        None \<Rightarrow> S
      | Some i \<Rightarrow>
          S\<lparr>running := (running S)[i := (running S ! i)\<lparr>generated_tokens := generated_tokens (running S ! i) + 1\<rparr>]\<rparr>)"

definition drop_running :: "(RunningSequence \<Rightarrow> bool) \<Rightarrow> budget_cell \<Rightarrow> Scheduler \<Rightarrow> budget_cell \<times> Scheduler" where
  "drop_running p B S =
     (case position p (running S) of
        None \<Rightarrow> (B, S)
      | Some i \<Rightarrow> (release_bytes B (reserved_bytes (running S ! i)), S\<lparr>running := remove_nth i (running S)\<rparr>))"

definition complete :: "budget_cell \<Rightarrow> Scheduler \<Rightarrow> nat \<Rightarrow> budget_cell \<times> Scheduler" where
  "complete B S sid =
     (case drop_running (\<lambda>s. seq_id s = sid) B S of
        (B1, S1) \<Rightarrow> (B1, S1\<lparr>swapped := filter (\<lambda>s. seq_id s \<noteq> sid) (swapped S1)\<rparr>))"

definition cancel_request :: "budget_cell \<Rightarrow> Scheduler \<Rightarrow> nat \<Rightarrow> budget_cell \<times> Scheduler" where
  "cancel_request B S rid =
     (case drop_running (\<lambda>s. request_id s = rid) B (S\<lparr>waiting := filter (\<lambda>r. rq_id r \<noteq> rid) (waiting S)\<rparr>) of
        (B1, S1) \<Rightarrow> (B1, S1\<lparr>swapped := filter (\<lambda>s. request_id s \<noteq> rid) (swapped S1)\<rparr>))"

definition running_max_tokens :: "Scheduler \<Rightarrow> nat \<Rightarrow> nat option" where
  "running_max_tokens S sid = map_option max_tokens (find (\<lambda>s. seq_id s = sid) (running S))"

definition running_budget_cap :: "Scheduler \<Rightarrow> nat \<Rightarrow> ScheduledBudgetCap option" where
  "running_budget_cap S sid = Option.bind (find (\<lambda>s. seq_id s = sid) (running S)) budget_cap"

end
