(* ===== verification/SchedulerInv.thy ===== *)
theory SchedulerInv
  imports Scheduler "HOL-Library.Multiset" "HOL-Library.Product_Lexorder"
begin

text \<open>
  What the scheduler guarantees: every byte charged to the shared budget is held by a running
  sequence, batches stay within their bounds, no request is lost, candidates are taken in
  policy order, and an iteration leaves no admissible work behind.
\<close>

section \<open>Byte accounting of one scheduler\<close>

definition charge :: "Scheduler \<Rightarrow> nat" where
  "charge S = weight reserved_bytes (running S)"

definition sched_ok :: "Scheduler \<Rightarrow> bool" where
  "sched_ok S \<longleftrightarrow>
     (\<forall>s \<in> set (running S). reserved_bytes s = estimated_bytes S (prompt_tokens s) (max_tokens s)) \<and>
     (\<forall>s \<in> set (swapped S). reserved_bytes s = 0) \<and>
     length (running S) \<le> max_batch_size (config S) \<and> fair_inv (fair_share S)"

text \<open>\<open>books B S rest\<close>: the cell charges exactly what this scheduler and the others (\<open>rest\<close>) hold.\<close>

definition books :: "budget_cell \<Rightarrow> Scheduler \<Rightarrow> nat \<Rightarrow> bool" where
  "books B S rest \<longleftrightarrow> (case B of None \<Rightarrow> True | Some b \<Rightarrow> bb_used b = charge S + rest)"

text \<open>\<open>within B B'\<close>: the same cell later, its counter within the limit or no higher than before.\<close>

definition within :: "budget_cell \<Rightarrow> budget_cell \<Rightarrow> bool" where
  "within B B' \<longleftrightarrow>
     (case (B, B') of
        (None, None) \<Rightarrow> True
      | (Some b, Some b') \<Rightarrow> bb_limit b' = bb_limit b \<and> ceiling b' = ceiling b \<and> bb_used b' \<le> max (bb_used b) (bb_limit b)
      | _ \<Rightarrow> False)"

lemma within_refl [simp]: "within B B"
  by (simp add: within_def split: option.split)

lemma within_trans: "within A B \<Longrightarrow> within B C \<Longrightarrow> within A C"
  by (auto simp: within_def max_def split: option.splits if_splits)

text \<open>\<open>charged B B' n\<close>: \<open>n\<close> more bytes were reserved.\<close>

definition charged :: "budget_cell \<Rightarrow> budget_cell \<Rightarrow> nat \<Rightarrow> bool" where
  "charged B B' n \<longleftrightarrow>
     (case (B, B') of
        (None, None) \<Rightarrow> True
      | (Some b, Some b') \<Rightarrow>
          bb_limit b' = bb_limit b \<and> ceiling b' = ceiling b \<and> bb_used b' = bb_used b + n \<and> (n = 0 \<or> bb_used b' \<le> bb_limit b)
      | _ \<Rightarrow> False)"

definition has_ceiling :: "budget_cell \<Rightarrow> bool" where
  "has_ceiling B \<longleftrightarrow> (case B of None \<Rightarrow> False | Some b \<Rightarrow> ceiling b \<noteq> None)"

lemma within_ceiling: "within B B' \<Longrightarrow> has_ceiling B' = has_ceiling B"
  by (auto simp: within_def has_ceiling_def split: option.splits)

lemma charged_within: "charged B B' n \<Longrightarrow> within B B'"
  by (auto simp: charged_def within_def split: option.splits)

lemma estimated_config: "config S' = config S \<Longrightarrow> estimated_bytes S' = estimated_bytes S"
  by (simp add: estimated_bytes_def fun_eq_iff)

lemma try_reserve_bytes_cases:
  assumes "try_reserve_bytes B n = (B', r)"
  obtains (refused) e where "r = Inl e" "charged B B' 0" "B \<noteq> None" "\<not> has_ceiling B \<Longrightarrow> B' = B" | (granted) "r = Inr ()" "charged B B' n"
proof (cases B)
  case None
  with assms granted show thesis by (simp add: try_reserve_bytes_def charged_def)
next
  case (Some b)
  with assms obtain b' where b': "try_reserve b n = (b', r)" "B' = Some b'"
    by (auto simp: try_reserve_bytes_def split: prod.splits)
  from b'(1) show thesis
    by (cases rule: try_reserve_cases) (use Some b'(2) refused granted in \<open>auto simp: charged_def has_ceiling_def\<close>)
qed

lemma cell_release_within: "within B (release_bytes B n)"
  by (auto simp: within_def release_bytes_def budget_release_def split: option.split)

lemma books_release:
  assumes "books B S rest" "charge S = charge S' + n"
  shows "books (release_bytes B n) S' rest"
  using assms by (auto simp: books_def release_bytes_def budget_release_def split: option.splits)

lemma books_charged:
  assumes "books B S rest" "charged B B' n" "charge S' = charge S + n"
  shows "books B' S' rest"
  using assms by (auto simp: books_def charged_def split: option.splits)

lemma books_same: "books B S rest \<Longrightarrow> charge S' = charge S \<Longrightarrow> books B S' rest"
  by (simp add: books_def split: option.splits)

section \<open>Admission with a cap\<close>

text \<open>A partial reservation is exactly the footprint of the tokens it admits.\<close>

lemma capped_footprint:
  assumes "0 < u" "u dvd r" "sat_mul_u64 (sat_add_u64 p 1) u \<le> r" "r < sat_mul_u64 (sat_add_u64 p m) u" "r \<le> u64_max"
  shows "p < r div u" "r div u - p < m" "sat_mul_u64 (sat_add_u64 p (r div u - p)) u = r"
proof -
  have r: "r div u * u = r" using assms(2) by simp
  have "sat_mul_u64 (sat_add_u64 p m) u \<le> sat_add_u64 p m * u" "sat_add_u64 p m \<le> p + m"
    by (simp_all add: sat_mul_u64_def sat_add_u64_def)
  then have "sat_mul_u64 (sat_add_u64 p m) u \<le> (p + m) * u" by (meson le_trans mult_le_mono1)
  with assms(4) have "r < (p + m) * u" by simp
  then have lt: "r div u < p + m" using assms(1) by (simp add: div_less_iff_less_mult)
  have le: "sat_mul_u64 (sat_add_u64 p 1) u = (p + 1) * u"
  proof (rule ccontr)
    assume "\<not> ?thesis"
    moreover have "(p + 1) * 1 \<le> (p + 1) * u" by (rule mult_le_mono2) (use assms(1) in simp)
    ultimately have "sat_mul_u64 (sat_add_u64 p 1) u = u64_max"
      using assms(1) by (auto simp: sat_mul_u64_def sat_add_u64_def min_def split: if_splits)
    with assms(3,4) show False by (simp add: sat_mul_u64_def)
  qed
  then have "p + 1 \<le> r div u" using assms(1,3) by (simp add: less_eq_div_iff_mult_less_eq)
  then show p: "p < r div u" by simp
  with lt show "r div u - p < m" by simp
  have "r div u \<le> u64_max" using assms(5) div_le_dividend [of r u] by linarith
  with p assms(5) r show "sat_mul_u64 (sat_add_u64 p (r div u - p)) u = r" by (simp add: sat_mul_u64_def sat_add_u64_def)
qed

lemma estimated_le [simp]: "estimated_bytes S p m \<le> u64_max"
  by (simp add: estimated_bytes_def sat_mul_u64_def split: option.split)

lemma reserve_granted:
  fixes S rq
  defines "req \<equiv> estimated_bytes S (rq_prompt_tokens rq) (rq_max_tokens rq)"
  assumes unit: "bytes_per_token (config S) = Some (Suc u)"
    and x: "try_reserve_at_most b req (estimated_bytes S (rq_prompt_tokens rq) 1) (Suc u) = (b1, Inr v)"
  shows "\<exists>n cap. reserve_or_cap_request (Some b) S rq = (Some b1, Inr (rq\<lparr>rq_max_tokens := n\<rparr>, reserved v, cap)) \<and>
    reserved v = estimated_bytes S (rq_prompt_tokens rq) n \<and> n \<le> rq_max_tokens rq \<and> (cap = None \<longrightarrow> n = rq_max_tokens rq) \<and>
    (cap \<noteq> None \<longrightarrow> 0 < n \<and> n < rq_max_tokens rq \<and> reserved v < req)"
proof (cases "reserved v = req")
  case True
  with unit x have "reserve_or_cap_request (Some b) S rq = (Some b1, Inr (rq\<lparr>rq_max_tokens := rq_max_tokens rq\<rparr>, reserved v, None))"
    by (simp add: reserve_or_cap_request_def Let_def req_def)
  with True show ?thesis by (intro exI [of _ "rq_max_tokens rq"] exI [of _ None]) (simp add: req_def)
next
  case False
  from x obtain g: "estimated_bytes S (rq_prompt_tokens rq) 1 \<le> reserved v" "reserved v \<le> req" "Suc u dvd reserved v"
    using False by (cases rule: try_reserve_at_most_cases) auto
  have est: "estimated_bytes S p m = sat_mul_u64 (sat_add_u64 p m) (Suc u)" for p m by (simp add: estimated_bytes_def unit)
  have le: "reserved v \<le> u64_max" using g(2) estimated_le le_trans unfolding req_def by blast
  have lt: "reserved v < req" using g(2) False by simp
  from capped_footprint [of "Suc u" "reserved v" "rq_prompt_tokens rq" "rq_max_tokens rq", OF _ g(3) g(1) [unfolded est] _ le] lt
  have fit: "rq_prompt_tokens rq < reserved v div Suc u" "reserved v div Suc u - rq_prompt_tokens rq < rq_max_tokens rq"
    "estimated_bytes S (rq_prompt_tokens rq) (reserved v div Suc u - rq_prompt_tokens rq) = reserved v"
    by (auto simp: est req_def)
  let ?n = "reserved v div Suc u - rq_prompt_tokens rq"
  let ?cap = "\<lparr>requested_max_tokens = rq_max_tokens rq, admitted_max_tokens = ?n, requested_bytes = req,
               admitted_bytes = reserved v, available_bytes = available_before v\<rparr>"
  have "max_tokens_for_reserved_bytes S (rq_prompt_tokens rq) (reserved v) = Some ?n"
    using fit(1) by (simp add: max_tokens_for_reserved_bytes_def unit Let_def)
  with unit x False fit(2) have "reserve_or_cap_request (Some b) S rq = (Some b1, Inr (rq\<lparr>rq_max_tokens := ?n\<rparr>, reserved v, Some ?cap))"
    by (auto simp: reserve_or_cap_request_def Let_def min_def req_def)
  with fit lt show ?thesis by (intro exI [of _ ?n] exI [of _ "Some ?cap"]) simp
qed

lemma reserve_cases:
  assumes "reserve_or_cap_request B S rq = (B', r)"
  obtains (refused) e where "r = Inl e" "charged B B' 0" "B \<noteq> None" "\<not> has_ceiling B \<Longrightarrow> B' = B"
  | (granted) rq' bytes cap where "r = Inr (rq', bytes, cap)" "charged B B' bytes"
      "bytes = estimated_bytes S (rq_prompt_tokens rq') (rq_max_tokens rq')"
      "rq' = rq\<lparr>rq_max_tokens := rq_max_tokens rq'\<rparr>" "rq_max_tokens rq' \<le> rq_max_tokens rq"
      "cap = None \<Longrightarrow> rq' = rq" "B = None \<Longrightarrow> cap = None"
      "cap \<noteq> None \<Longrightarrow> 0 < rq_max_tokens rq' \<and> rq_max_tokens rq' < rq_max_tokens rq"
proof (cases B)
  case None
  with assms show thesis by (intro granted [of rq "estimated_bytes S (rq_prompt_tokens rq) (rq_max_tokens rq)" None])
    (auto simp: reserve_or_cap_request_def Let_def charged_def)
next
  case (Some b)
  let ?req = "estimated_bytes S (rq_prompt_tokens rq) (rq_max_tokens rq)"
  consider (unit) u where "bytes_per_token (config S) = Some (Suc u)"
    | (free) "bytes_per_token (config S) = None \<or> bytes_per_token (config S) = Some 0"
    by (metis not0_implies_Suc option.exhaust)
  then show thesis
  proof cases
    case free
    with assms Some obtain b1 x where x: "try_reserve b ?req = (b1, x)" and B': "B' = Some b1"
      and r: "r = (case x of Inl e \<Rightarrow> Inl (admission_byte_error S rq ?req e) | Inr _ \<Rightarrow> Inr (rq, ?req, None))"
      by (auto simp: reserve_or_cap_request_def Let_def split: prod.splits sum.splits)
    from x show thesis
      by (cases rule: try_reserve_cases) (use Some B' r refused granted [of rq ?req None] in \<open>auto simp: charged_def has_ceiling_def\<close>)
  next
    case (unit u)
    obtain b1 x where x: "try_reserve_at_most b ?req (estimated_bytes S (rq_prompt_tokens rq) 1) (Suc u) = (b1, x)" by fastforce
    from x show thesis
    proof (cases rule: try_reserve_at_most_cases)
      case (refused e)
      with assms Some unit x that(1) show thesis
        by (auto simp: reserve_or_cap_request_def Let_def charged_def has_ceiling_def)
    next
      case (granted v)
      from reserve_granted [OF unit, of b rq b1 v] x granted(1) obtain n cap where
        "reserve_or_cap_request (Some b) S rq = (Some b1, Inr (rq\<lparr>rq_max_tokens := n\<rparr>, reserved v, cap))"
        "reserved v = estimated_bytes S (rq_prompt_tokens rq) n" "n \<le> rq_max_tokens rq" "cap = None \<longrightarrow> n = rq_max_tokens rq"
        "cap \<noteq> None \<longrightarrow> 0 < n \<and> n < rq_max_tokens rq" by auto
      with assms Some granted that(2) [of "rq\<lparr>rq_max_tokens := n\<rparr>" "reserved v" cap] show thesis by (auto simp: charged_def)
    qed
  qed
qed

section \<open>Candidates in order\<close>

lemma then_with_cmp: "then_with (cmp a b) (cmp c d) = cmp (a, c) (b, d)"
  by (auto simp: then_with_def cmp_def less_prod_def)

definition rank :: "PriorityPolicy \<Rightarrow> CandidateKey \<Rightarrow> nat \<times> nat \<times> nat" where
  "rank pol k = (if pol = PriorityFirst then 2 - class_index (ck_priority k) else 0, ck_arrived_at k, ck_request_id k)"

lemma cmp_candidate_key_rank: "cmp_candidate_key pol a b = cmp (rank pol a) (rank pol b)"
proof -
  have "cmp (ck_priority b) (ck_priority a) = cmp (2 - class_index (ck_priority a)) (2 - class_index (ck_priority b))"
    using class_index_less [of "ck_priority a"] class_index_less [of "ck_priority b"]
    by (cases "ck_priority a"; cases "ck_priority b"; simp add: cmp_def less_Priority_def class_index_def)
  then show ?thesis
    by (cases pol) (auto simp: cmp_candidate_key_def rank_def then_with_cmp cmp_def then_with_def less_prod_def)
qed

lemma cmp_Greater [simp]: "cmp a b = Greater \<longleftrightarrow> b < a"
  by (auto simp: cmp_def)

lemma cmp_Less [simp]: "cmp a b = Less \<longleftrightarrow> a < b"
  by (auto simp: cmp_def)

lemma min_by_from_min:
  fixes f :: "'a \<Rightarrow> 'k::linorder"
  assumes "\<And>x y. c x y = cmp (f x) (f y)" "min_by_from c i xs best = Some (j, y)"
  shows "(best = Some (j, y) \<or> i \<le> j \<and> j < i + length xs \<and> xs ! (j - i) = y) \<and>
    (\<forall>x \<in> set xs. f y \<le> f x) \<and> (\<forall>k z. best = Some (k, z) \<longrightarrow> f y \<le> f z)"
  using assms(2)
proof (induction xs arbitrary: i best)
  case (Cons x xs)
  let ?b = "case best of None \<Rightarrow> Some (i, x) | Some (j, y) \<Rightarrow> if c y x = Greater then Some (i, x) else Some (j, y)"
  from Cons.IH [of "Suc i" ?b] Cons.prems have IH: "?b = Some (j, y) \<or> Suc i \<le> j \<and> j < Suc i + length xs \<and> xs ! (j - Suc i) = y"
    "\<forall>x \<in> set xs. f y \<le> f x" "\<forall>k z. ?b = Some (k, z) \<longrightarrow> f y \<le> f z" by simp_all
  have nth: "i \<le> j \<and> j < i + length (x # xs) \<and> (x # xs) ! (j - i) = y" if "Suc i \<le> j" "j < Suc i + length xs" "xs ! (j - Suc i) = y"
  proof -
    have "j - i = Suc (j - Suc i)" using that by simp
    with that show ?thesis by simp
  qed
  show ?case
  proof (cases best)
    case None
    with IH nth show ?thesis by auto
  next
    case (Some kz)
    obtain k z where kz: "kz = (k, z)" by (cases kz)
    show ?thesis
    proof (cases "f x < f z")
      case True
      with IH nth Some kz assms(1) show ?thesis by fastforce
    next
      case False
      with IH nth Some kz assms(1) show ?thesis by fastforce
    qed
  qed
qed simp

lemma min_by_from_None: "min_by_from c i xs best = None \<longleftrightarrow> xs = [] \<and> best = None"
proof (induction xs arbitrary: i best)
  case (Cons x xs)
  show ?case by (simp only: min_by_from.simps Cons.IH) (auto split: option.splits if_splits prod.splits)
qed simp

lemma min_by_min:
  fixes f :: "'a \<Rightarrow> 'k::linorder"
  assumes "\<And>x y. c x y = cmp (f x) (f y)" "min_by c xs = Some j"
  shows "j < length xs" "\<And>x. x \<in> set xs \<Longrightarrow> f (xs ! j) \<le> f x"
proof -
  from assms(2) obtain y where "min_by_from c 0 xs None = Some (j, y)" by (auto simp: min_by_def)
  from min_by_from_min [of c f, OF assms(1) this] show "j < length xs" "\<And>x. x \<in> set xs \<Longrightarrow> f (xs ! j) \<le> f x" by auto
qed

lemma min_by_None: "min_by c xs = None \<longleftrightarrow> xs = []"
  by (simp add: min_by_def min_by_from_None)

lemma oldest_cases:
  assumes "oldest_of_class key p xs = Some (i, a, r)"
  shows "i < length xs" "ck_priority (key (xs ! i)) = p" "a = ck_arrived_at (key (xs ! i))" "r = ck_request_id (key (xs ! i))"
    "\<And>x. x \<in> set xs \<Longrightarrow> ck_priority (key x) = p \<Longrightarrow> (a, r) \<le> (ck_arrived_at (key x), ck_request_id (key x))"
proof -
  let ?es = "filter (\<lambda>(i, x). ck_priority (key x) = p) (enumerate 0 xs)"
  let ?f = "\<lambda>e. (ck_arrived_at (key (snd e)), ck_request_id (key (snd e)))"
  from assms obtain j x where m: "min_by_from
          (\<lambda>a b. then_with (cmp (ck_arrived_at (key (snd a))) (ck_arrived_at (key (snd b))))
                   (cmp (ck_request_id (key (snd a))) (ck_request_id (key (snd b))))) 0 ?es None = Some (j, i, x)"
    and x: "a = ck_arrived_at (key x)" "r = ck_request_id (key x)" by (auto simp: oldest_of_class_def)
  note best = min_by_from_min [of _ ?f, OF then_with_cmp m]
  then have "(i, x) \<in> set ?es" using nth_mem [of j ?es] by auto
  then have i: "i < length xs" "x = xs ! i" "ck_priority (key x) = p" by (auto simp: in_set_enumerate_eq)
  then show "i < length xs" "ck_priority (key (xs ! i)) = p" "a = ck_arrived_at (key (xs ! i))" "r = ck_request_id (key (xs ! i))"
    using x by auto
  show "(a, r) \<le> (ck_arrived_at (key y), ck_request_id (key y))" if "y \<in> set xs" "ck_priority (key y) = p" for y
  proof -
    from that obtain k where "k < length xs" "y = xs ! k" by (auto simp: in_set_conv_nth)
    with that have "(k, y) \<in> set ?es" by (auto simp: in_set_enumerate_eq)
    with best x show ?thesis by fastforce
  qed
qed

lemma oldest_None: "oldest_of_class key p xs = None \<longleftrightarrow> (\<forall>x \<in> set xs. ck_priority (key x) \<noteq> p)"
proof -
  have "oldest_of_class key p xs = None \<longleftrightarrow> filter (\<lambda>(i, x). ck_priority (key x) = p) (enumerate 0 xs) = []"
    by (simp add: oldest_of_class_def min_by_from_None)
  also have "\<dots> \<longleftrightarrow> (\<forall>x \<in> set xs. ck_priority (key x) \<noteq> p)"
  proof -
    have "set xs = snd ` set (enumerate 0 xs)" by (metis map_snd_enumerate set_map)
    then show ?thesis by (auto simp: filter_empty_conv)
  qed
  finally show ?thesis .
qed

text \<open>Taking a candidate removes exactly it from its queue.\<close>

definition pops :: "Scheduler \<Rightarrow> Scheduler \<Rightarrow> Candidate option \<Rightarrow> bool" where
  "pops S S1 c \<longleftrightarrow>
     config S1 = config S \<and> running S1 = running S \<and> fair_inv (fair_share S1) \<and>
     (case c of
        None \<Rightarrow> waiting S = [] \<and> swapped S = [] \<and> waiting S1 = [] \<and> swapped S1 = []
      | Some (WaitingCandidate rq) \<Rightarrow>
          swapped S1 = swapped S \<and> (\<exists>i < length (waiting S). rq = waiting S ! i \<and> waiting S1 = remove_nth i (waiting S))
      | Some (SwappedCandidate s) \<Rightarrow>
          waiting S1 = waiting S \<and> (\<exists>i < length (swapped S). s = swapped S ! i \<and> swapped S1 = remove_nth i (swapped S)))"

lemma pops_taken:
  assumes "fair_inv (fair_share S1)" "config S1 = config S" "running S1 = running S" "waiting S1 = waiting S" "swapped S1 = swapped S"
  shows "i < length (waiting S) \<Longrightarrow> pops S (fst (take_waiting S1 i)) (snd (take_waiting S1 i))"
    "i < length (swapped S) \<Longrightarrow> pops S (fst (take_swapped S1 i)) (snd (take_swapped S1 i))"
  using assms by (auto simp: pops_def take_waiting_def take_swapped_def)

lemma fair_share_has_candidate:
  assumes "fair_inv (fair_share S)"
    and sel: "select_class (fair_share S) (map rq_priority (waiting S) @ map rs_priority (swapped S)) = (P, r)"
  shows "fair_inv P" "r = None \<longleftrightarrow> waiting S = [] \<and> swapped S = []"
    "r = Some p \<Longrightarrow> oldest_of_class from_request p (waiting S) \<noteq> None \<or> oldest_of_class from_running p (swapped S) \<noteq> None"
proof -
  let ?ps = "map rq_priority (waiting S) @ map rs_priority (swapped S)"
  show "fair_inv P" by (rule select_inv [OF assms])
  show "r = None \<longleftrightarrow> waiting S = [] \<and> swapped S = []"
    using select_spec [OF assms(1), of ?ps] sel active_some [of ?ps] by (cases "?ps = []") (auto simp: select_class_def)
  show "oldest_of_class from_request p (waiting S) \<noteq> None \<or> oldest_of_class from_running p (swapped S) \<noteq> None" if "r = Some p"
  proof -
    from that select_spec [OF assms(1), of ?ps] sel active_some [of ?ps] have "p \<in> set ?ps"
      by (cases "?ps = []") (auto simp: select_class_def)
    then show ?thesis unfolding oldest_None by (auto simp: from_request_def from_running_def)
  qed
qed

lemma best_index:
  "best_waiting_index S = None \<longleftrightarrow> waiting S = []" "best_swapped_index S = None \<longleftrightarrow> swapped S = []"
  "best_waiting_index S = Some i \<Longrightarrow> i < length (waiting S)" "best_swapped_index S = Some i \<Longrightarrow> i < length (swapped S)"
  by (auto simp: best_waiting_index_def best_swapped_index_def min_by_None dest: min_by_bound)

lemma pop_pops:
  assumes "fair_inv (fair_share S)"
  shows "pops S (fst (pop_next_candidate S)) (snd (pop_next_candidate S))"
proof (cases "priority_policy (config S) = FairShares")
  case False
  note taken = pops_taken [OF assms refl refl refl refl]
  show ?thesis
  proof (cases "best_waiting_index S = None \<and> best_swapped_index S = None")
    case True
    with best_index(1,2) [of S] have "waiting S = []" "swapped S = []" by simp_all
    with True False assms show ?thesis by (simp add: pop_next_candidate_def pops_def)
  next
    case some: False
    with False taken best_index(3,4) [of S] show ?thesis
      by (auto simp: pop_next_candidate_def split: option.splits)
  qed
next
  case True
  obtain P r where sel: "select_class (fair_share S) (map rq_priority (waiting S) @ map rs_priority (swapped S)) = (P, r)" by fastforce
  note h = fair_share_has_candidate [OF assms sel]
  let ?S1 = "S\<lparr>fair_share := P\<rparr>"
  have taken: "i < length (waiting S) \<Longrightarrow> pops S (fst (take_waiting ?S1 i)) (snd (take_waiting ?S1 i))"
    "i < length (swapped S) \<Longrightarrow> pops S (fst (take_swapped ?S1 i)) (snd (take_swapped ?S1 i))" for i
    by (rule pops_taken; use h(1) in simp)+
  show ?thesis
  proof (cases r)
    case None
    with h(1,2) True sel show ?thesis by (simp add: pop_next_candidate_def pop_next_fair_share_candidate_def pops_def Let_def)
  next
    case (Some p)
    show ?thesis
      using True sel Some h(3) [OF Some] oldest_cases(1) [of from_request p "waiting S"] oldest_cases(1) [of from_running p "swapped S"] taken
      by (auto simp: pop_next_candidate_def pop_next_fair_share_candidate_def Let_def split: option.splits prod.splits)
  qed
qed

end
