(* ===== verification/SchedulerRun.thy ===== *)
theory SchedulerRun
  imports SchedulerInv
begin

text \<open>
  One iteration of the scheduler and the system of schedulers that share a budget: the
  loops keep the books, no request is lost, a finished iteration leaves no admissible work,
  and in every reachable system the budget's counter is exactly what the running sequences
  hold.
\<close>

section \<open>The loops\<close>

definition ids :: "Scheduler \<Rightarrow> nat multiset" where
  "ids S = mset (map rq_id (waiting S)) + mset (map request_id (running S)) + mset (map request_id (swapped S))"

text \<open>\<open>sched_step rest B S D B' S' D'\<close>: what every part of an iteration keeps.\<close>

definition sched_step ::
  "nat \<Rightarrow> budget_cell \<Rightarrow> Scheduler \<Rightarrow> ScheduleDecision \<Rightarrow> budget_cell \<Rightarrow> Scheduler \<Rightarrow> ScheduleDecision \<Rightarrow> bool" where
  "sched_step rest B S D B' S' D' \<longleftrightarrow>
     config S' = config S \<and> sched_ok S' \<and> books B' S' rest \<and> within B B' \<and> ids S' = ids S \<and> decode D' = decode D \<and>
     mset (map seq_id (running S')) + mset (preempt D') + mset (prefill D) + mset (swap_in D) =
       mset (map seq_id (running S)) + mset (preempt D) + mset (prefill D') + mset (swap_in D')"

lemma mset_balance_trans:
  fixes r0 r1 r2 :: "'a multiset"
  assumes "r1 + p1 + f0 + s0 = r0 + p0 + f1 + s1" "r2 + p2 + f1 + s1 = r1 + p1 + f2 + s2"
  shows "r2 + p2 + f0 + s0 = r0 + p0 + f2 + s2"
proof (rule multiset_eqI)
  fix x
  show "count (r2 + p2 + f0 + s0) x = count (r0 + p0 + f2 + s2) x"
    using arg_cong [OF assms(1), of "\<lambda>M. count M x"] arg_cong [OF assms(2), of "\<lambda>M. count M x"] by simp
qed

lemma sched_step_trans:
  assumes "sched_step rest B S D B1 S1 D1" "sched_step rest B1 S1 D1 B2 S2 D2"
  shows "sched_step rest B S D B2 S2 D2"
  using assms mset_balance_trans [of "mset (map seq_id (running S1))" "mset (preempt D1)" "mset (prefill D)" "mset (swap_in D)"
    "mset (map seq_id (running S))" "mset (preempt D)" "mset (prefill D1)" "mset (swap_in D1)"
    "mset (map seq_id (running S2))" "mset (preempt D2)" "mset (prefill D2)" "mset (swap_in D2)"]
  unfolding sched_step_def by (metis within_trans)

lemma sched_step_refl: "sched_ok S \<Longrightarrow> books B S rest \<Longrightarrow> sched_step rest B S D B S D"
  by (simp add: sched_step_def)

lemma mset_remove_nth: "i < length xs \<Longrightarrow> add_mset (f (xs ! i)) (mset (map f (remove_nth i xs))) = mset (map f xs)"
proof -
  assume i: "i < length xs"
  have "mset (map f xs) = mset (map f (take i xs @ xs ! i # drop (Suc i) xs))" using id_take_nth_drop [OF i] by simp
  then show ?thesis by (simp add: remove_nth_def)
qed

lemma preempt_one:
  assumes "sched_ok S" "books B S rest" and v: "v < length (running S)"
  shows "sched_step rest B S D (release_bytes B (reserved_bytes (running S ! v)))
     (S\<lparr>running := remove_nth v (running S), swapped := swapped S @ [(running S ! v)\<lparr>reserved_bytes := 0\<rparr>]\<rparr>)
     (D\<lparr>preempt := preempt D @ [seq_id (running S ! v)]\<rparr>)"
    (is "sched_step rest B S D ?B ?S ?D")
proof -
  have "charge S = charge ?S + reserved_bytes (running S ! v)" using v by (simp add: charge_def weight_split)
  then have "books ?B ?S rest" by (rule books_release [OF assms(2)])
  moreover have "sched_ok ?S"
    using assms(1) set_remove_nth [of v "running S"] v by (auto simp: sched_ok_def estimated_config [of ?S S])
  moreover have "ids ?S = ids S" using mset_remove_nth [OF v, of request_id] by (simp add: ids_def)
  moreover have "mset (map seq_id (running ?S)) + mset (preempt ?D) = mset (map seq_id (running S)) + mset (preempt D)"
    using mset_remove_nth [OF v, of seq_id] by simp
  ultimately show ?thesis by (simp add: sched_step_def cell_release_within)
qed

lemma preempt_loop_step:
  assumes "sched_ok S" "books B S rest"
  shows "(case preempt_loop B S D of (B', S', D') \<Rightarrow> sched_step rest B S D B' S' D')"
  using assms
proof (induction B S D rule: preempt_loop.induct)
  case (1 B S D)
  show ?case
  proof (cases "\<exists>i v. \<not> has_capacity_for_candidate S \<and> best_waiting_index S = Some i \<and> lowest_priority_running_index S = Some v \<and>
      \<not> rq_priority (waiting S ! i) \<le> rs_priority (running S ! v)")
    case False
    then have "preempt_loop B S D = (B, S, D)" by (subst preempt_loop.simps) (auto split: option.split)
    with 1(2,3) show ?thesis by (simp add: sched_step_refl)
  next
    case True
    then obtain i v where c: "\<not> has_capacity_for_candidate S" "best_waiting_index S = Some i" "lowest_priority_running_index S = Some v"
      "\<not> rq_priority (waiting S ! i) \<le> rs_priority (running S ! v)" by blast
    note step = preempt_one [OF 1(2,3) victim_bound [OF c(3)], of D]
    then have "sched_ok (S\<lparr>running := remove_nth v (running S), swapped := swapped S @ [(running S ! v)\<lparr>reserved_bytes := 0\<rparr>]\<rparr>)"
      "books (release_bytes B (reserved_bytes (running S ! v)))
        (S\<lparr>running := remove_nth v (running S), swapped := swapped S @ [(running S ! v)\<lparr>reserved_bytes := 0\<rparr>]\<rparr>) rest"
      by (simp_all add: sched_step_def)
    from 1(1) [OF c(1-4) refl this] sched_step_trans [OF step] show ?thesis
      by (subst preempt_loop.simps) (auto simp: c Let_def split: prod.splits)
  qed
qed

lemma pop_step:
  assumes ok: "sched_ok S" "books B S rest" and pop: "pop_next_candidate S = (S1, c)"
  shows "sched_ok S1" "books B S1 rest" "config S1 = config S" "running S1 = running S"
    "ids S = ids S1 + (case c of None \<Rightarrow> {#} | Some (WaitingCandidate rq) \<Rightarrow> {#rq_id rq#} | Some (SwappedCandidate s) \<Rightarrow> {#request_id s#})"
    "c = Some (SwappedCandidate s) \<Longrightarrow> reserved_bytes s = 0"
    "c = None \<Longrightarrow> waiting S1 = [] \<and> swapped S1 = []"
proof -
  have p: "pops S S1 c" using pop_pops [of S] ok(1) pop by (simp add: sched_ok_def)
  then have f: "config S1 = config S" "running S1 = running S" "fair_inv (fair_share S1)" by (simp_all add: pops_def)
  then show "config S1 = config S" "running S1 = running S" by simp_all
  have "set (swapped S1) \<subseteq> set (swapped S)"
    using p set_remove_nth by (fastforce simp: pops_def split: option.splits Candidate.splits)
  then show "sched_ok S1" using ok(1) f by (auto simp: sched_ok_def estimated_config [of S1 S])
  show "books B S1 rest" using ok(2) by (rule books_same) (simp add: charge_def f)
  show "ids S = ids S1 + (case c of None \<Rightarrow> {#} | Some (WaitingCandidate rq) \<Rightarrow> {#rq_id rq#} | Some (SwappedCandidate s) \<Rightarrow> {#request_id s#})"
    using p mset_remove_nth [of _ "waiting S" rq_id] mset_remove_nth [of _ "swapped S" request_id]
    by (auto simp: pops_def ids_def split: option.splits Candidate.splits)
  show "reserved_bytes s = 0" if "c = Some (SwappedCandidate s)"
    using that p ok(1) by (auto simp: pops_def sched_ok_def)
  show "waiting S1 = [] \<and> swapped S1 = []" if "c = None" using that p by (auto simp: pops_def)
qed

text \<open>What an iteration may leave behind: a full batch, empty queues, or a refusal of the budget.\<close>

definition blocked :: "budget_cell \<Rightarrow> Scheduler \<Rightarrow> bool" where
  "blocked B S \<longleftrightarrow>
     (\<exists>rq \<in> set (waiting S). \<not> is_ok (snd (reserve_or_cap_request B S rq))) \<or>
     (\<exists>s \<in> set (swapped S). \<not> is_ok (snd (try_reserve_bytes B (estimated_bytes S (prompt_tokens s) (max_tokens s)))))"

definition settled :: "budget_cell \<Rightarrow> Scheduler \<Rightarrow> bool" where
  "settled B S \<longleftrightarrow>
     \<not> has_capacity_for_candidate S \<or> (waiting S = [] \<and> swapped S = []) \<or> (B \<noteq> None \<and> (\<not> has_ceiling B \<longrightarrow> blocked B S))"

lemma refusal_config:
  assumes "config S' = config S"
  shows "is_ok (snd (reserve_or_cap_request B S' rq)) = is_ok (snd (reserve_or_cap_request B S rq))"
  unfolding reserve_or_cap_request_def estimated_config [OF assms] max_tokens_for_reserved_bytes_def assms Let_def
  by (simp split: option.split prod.split sum.split nat.split)

lemma admit_waiting:
  assumes ok: "sched_ok S1" "books B S1 rest" and room: "length (running S1) < max_batch_size (config S1)"
    and r: "reserve_or_cap_request B S1 rq = (B', Inr (rq', bytes, cap))"
  shows "sched_ok (push_admitted_request S1 rq' bytes cap)" "books B' (push_admitted_request S1 rq' bytes cap) rest"
    "within B B'" "ids (push_admitted_request S1 rq' bytes cap) = ids S1 + {#rq_id rq#}" "rq_seq_id rq' = rq_seq_id rq"
    "mset (map seq_id (running (push_admitted_request S1 rq' bytes cap))) = mset (map seq_id (running S1)) + {#rq_seq_id rq#}"
proof -
  let ?S = "push_admitted_request S1 rq' bytes cap"
  from r obtain g: "charged B B' bytes" "bytes = estimated_bytes S1 (rq_prompt_tokens rq') (rq_max_tokens rq')"
    "rq' = rq\<lparr>rq_max_tokens := rq_max_tokens rq'\<rparr>" by (elim reserve_cases) auto
  have same: "rq_id rq' = rq_id rq" "rq_seq_id rq' = rq_seq_id rq"
    using arg_cong [OF g(3), of rq_id] arg_cong [OF g(3), of rq_seq_id] by simp_all
  have f: "config ?S = config S1" "swapped ?S = swapped S1" "fair_share ?S = fair_share S1"
    by (simp_all add: push_admitted_request_def)
  show "sched_ok ?S" using ok(1) room g(2)
    unfolding sched_ok_def estimated_config [OF f(1)] f by (auto simp: push_admitted_request_def)
  show "books B' ?S rest" by (rule books_charged [OF ok(2) g(1)]) (simp add: charge_def push_admitted_request_def)
  show "within B B'" using g(1) by (rule charged_within)
  show "ids ?S = ids S1 + {#rq_id rq#}" "mset (map seq_id (running ?S)) = mset (map seq_id (running S1)) + {#rq_seq_id rq#}"
    using same by (simp_all add: ids_def push_admitted_request_def)
  show "rq_seq_id rq' = rq_seq_id rq" by (rule same)
qed

lemma admit_swapped:
  assumes ok: "sched_ok S1" "books B S1 rest" and room: "length (running S1) < max_batch_size (config S1)"
    and r: "try_reserve_bytes B (estimated_bytes S1 (prompt_tokens s) (max_tokens s)) = (B', Inr u)"
  defines "S2 \<equiv> S1\<lparr>running := running S1 @ [s\<lparr>reserved_bytes := estimated_bytes S1 (prompt_tokens s) (max_tokens s)\<rparr>]\<rparr>"
  shows "sched_ok S2" "books B' S2 rest" "within B B'" "ids S2 = ids S1 + {#request_id s#}"
    "mset (map seq_id (running S2)) = mset (map seq_id (running S1)) + {#seq_id s#}"
proof -
  from r have g: "charged B B' (estimated_bytes S1 (prompt_tokens s) (max_tokens s))" by (elim try_reserve_bytes_cases) auto
  have f: "config S2 = config S1" "swapped S2 = swapped S1" "fair_share S2 = fair_share S1" by (simp_all add: S2_def)
  show "sched_ok S2" using ok(1) room
    unfolding sched_ok_def estimated_config [OF f(1)] f by (auto simp: S2_def)
  show "books B' S2 rest" by (rule books_charged [OF ok(2) g]) (simp add: charge_def S2_def)
  show "within B B'" using g by (rule charged_within)
  show "ids S2 = ids S1 + {#request_id s#}" "mset (map seq_id (running S2)) = mset (map seq_id (running S1)) + {#seq_id s#}"
    by (simp_all add: ids_def S2_def)
qed

lemma charged_0:
  assumes "charged B B' 0" "books B S rest" "charge S' = charge S"
  shows "books B' S' rest" "within B B'"
  using books_charged [OF assms(2,1)] assms(3) charged_within [OF assms(1)] by simp_all

lemma admit_loop_step:
  assumes "sched_ok S" "books B S rest"
  shows "(case admit_loop B S D of (B', S', D') \<Rightarrow> sched_step rest B S D B' S' D' \<and> settled B' S')"
  using assms
proof (induction B S D rule: admit_loop.induct)
  case (1 B S D)
  show ?case
  proof (cases "has_capacity_for_candidate S")
    case False
    with "1.prems" show ?thesis by (subst admit_loop.simps) (simp add: sched_step_refl settled_def)
  next
    case True
    obtain S1 c where pop: "pop_next_candidate S = (S1, c)" by fastforce
    note s1 = pop_step [OF "1.prems" pop]
    have room: "length (running S1) < max_batch_size (config S1)" using True s1(3,4) by (simp add: has_capacity_for_candidate_def)
    consider (none) "c = None" | (waiting) rq where "c = Some (WaitingCandidate rq)" | (swapped) s where "c = Some (SwappedCandidate s)"
      by (metis Candidate.exhaust option.exhaust)
    then show ?thesis
    proof cases
      case none
      with True s1 show ?thesis by (subst admit_loop.simps) (simp add: pop sched_step_def settled_def)
    next
      case (waiting rq)
      obtain B1 r where r: "reserve_or_cap_request B S1 rq = (B1, r)" by fastforce
      show ?thesis
      proof (cases r)
        case (Inl e)
        from r Inl have ref: "charged B B1 0" "B \<noteq> None" "\<not> has_ceiling B \<Longrightarrow> B1 = B" by (auto elim: reserve_cases)
        let ?S = "S1\<lparr>waiting := waiting S1 @ [rq]\<rparr>"
        have "blocked B1 ?S" if "\<not> has_ceiling B1"
          using that ref(3) within_ceiling [OF charged_within [OF ref(1)]] refusal_config [of ?S S1 B rq] r Inl by (auto simp: blocked_def)
        moreover have "B1 \<noteq> None" using ref(1,2) by (auto simp: charged_def split: option.splits)
        ultimately have "settled B1 ?S" by (simp add: settled_def)
        moreover have "sched_step rest B S D B1 ?S D"
          using s1 charged_0 [OF ref(1) s1(2), of ?S] waiting
          by (simp add: sched_step_def sched_ok_def estimated_config [of ?S S1] charge_def ids_def)
        ultimately show ?thesis using True by (subst admit_loop.simps) (simp add: pop waiting r Inl)
      next
        case (Inr x)
        obtain rq' bytes cap where x: "x = (rq', bytes, cap)" by (cases x)
        let ?S = "push_admitted_request S1 rq' bytes cap" and ?D = "D\<lparr>prefill := prefill D @ [rq_seq_id rq']\<rparr>"
        note a = admit_waiting [OF s1(1,2) room r [unfolded Inr x]]
        have step: "sched_step rest B S D B1 ?S ?D" using a s1(3,4,5) waiting by (simp add: sched_step_def push_admitted_request_def)
        have "admit_loop B S D = admit_loop B1 ?S ?D" using True by (subst admit_loop.simps) (simp add: pop waiting r Inr x)
        moreover note "1.IH"(1) [OF _ pop [symmetric] waiting refl r [symmetric] Inr x [symmetric] refl a(1,2)] sched_step_trans [OF step]
        ultimately show ?thesis using True by (auto split: prod.splits)
      qed
    next
      case (swapped s)
      let ?n = "estimated_bytes S1 (prompt_tokens s) (max_tokens s)"
      obtain B1 r where r: "try_reserve_bytes B ?n = (B1, r)" by fastforce
      show ?thesis
      proof (cases r)
        case (Inl e)
        from r Inl have ref: "charged B B1 0" "B \<noteq> None" "\<not> has_ceiling B \<Longrightarrow> B1 = B" by (auto elim: try_reserve_bytes_cases)
        let ?S = "S1\<lparr>swapped := swapped S1 @ [s]\<rparr>"
        have "blocked B1 ?S" if "\<not> has_ceiling B1"
          using that ref(3) within_ceiling [OF charged_within [OF ref(1)]] r Inl estimated_config [of ?S S1] by (auto simp: blocked_def)
        moreover have "B1 \<noteq> None" using ref(1,2) by (auto simp: charged_def split: option.splits)
        ultimately have "settled B1 ?S" by (simp add: settled_def)
        moreover have "sched_step rest B S D B1 ?S D"
          using s1 charged_0 [OF ref(1) s1(2), of ?S] swapped
          by (simp add: sched_step_def sched_ok_def estimated_config [of ?S S1] charge_def ids_def)
        ultimately show ?thesis using True by (subst admit_loop.simps) (simp add: pop swapped r Inl Let_def)
      next
        case (Inr u)
        let ?S = "S1\<lparr>running := running S1 @ [s\<lparr>reserved_bytes := ?n\<rparr>]\<rparr>" and ?D = "D\<lparr>swap_in := swap_in D @ [seq_id s]\<rparr>"
        note a = admit_swapped [OF s1(1,2) room r [unfolded Inr]]
        have step: "sched_step rest B S D B1 ?S ?D" using a s1(3,4,5) swapped by (simp add: sched_step_def)
        have "admit_loop B S D = admit_loop B1 ?S ?D" using True by (subst admit_loop.simps) (simp add: pop swapped r Inr Let_def)
        moreover note "1.IH"(2) [OF _ pop [symmetric] swapped refl refl r [symmetric] Inr a(1,2)] sched_step_trans [OF step]
        ultimately show ?thesis using True by (auto split: prod.splits)
      qed
    qed
  qed
qed

section \<open>One iteration\<close>

lemma reap_outcome:
  assumes "reap B ss = (B', kept)"
  shows "kept = filter (\<lambda>s. generated_tokens s < max_tokens s) ss" "within B B'"
    "(case B of None \<Rightarrow> True | Some b \<Rightarrow> bb_used b = weight reserved_bytes ss + c) \<Longrightarrow>
     (case B' of None \<Rightarrow> True | Some b \<Rightarrow> bb_used b = weight reserved_bytes kept + c)"
proof -
  have "kept = filter (\<lambda>s. generated_tokens s < max_tokens s) ss \<and> within B B' \<and>
    (\<forall>c. (case B of None \<Rightarrow> True | Some b \<Rightarrow> bb_used b = weight reserved_bytes ss + c) \<longrightarrow>
     (case B' of None \<Rightarrow> True | Some b \<Rightarrow> bb_used b = weight reserved_bytes kept + c))"
    using assms
  proof (induction ss arbitrary: B kept)
    case (Cons s ss)
    show ?case
    proof (cases "generated_tokens s < max_tokens s")
      case True
      with Cons.prems obtain kept1 where k: "reap B ss = (B', kept1)" "kept = s # kept1" by (auto split: prod.splits)
      from Cons.IH [OF k(1)] have IH: "kept1 = filter (\<lambda>s. generated_tokens s < max_tokens s) ss" "within B B'"
        "\<And>c. (case B of None \<Rightarrow> True | Some b \<Rightarrow> bb_used b = weight reserved_bytes ss + c) \<Longrightarrow>
         (case B' of None \<Rightarrow> True | Some b \<Rightarrow> bb_used b = weight reserved_bytes kept1 + c)" by blast+
      show ?thesis using IH(1,2) IH(3) [of "reserved_bytes s + _"] k(2) True
        by (auto simp: algebra_simps split: option.splits)
    next
      case False
      with Cons.prems have k: "reap (release_bytes B (reserved_bytes s)) ss = (B', kept)" by simp
      from Cons.IH [OF k] False show ?thesis
        by (auto simp: release_bytes_def budget_release_def within_def split: option.splits)
    qed
  qed simp
  then show "kept = filter (\<lambda>s. generated_tokens s < max_tokens s) ss" "within B B'"
    "(case B of None \<Rightarrow> True | Some b \<Rightarrow> bb_used b = weight reserved_bytes ss + c) \<Longrightarrow>
     (case B' of None \<Rightarrow> True | Some b \<Rightarrow> bb_used b = weight reserved_bytes kept + c)" by blast+
qed

lemma mset_filter_split: "mset (map f (filter (\<lambda>x. \<not> P x) xs)) + mset (map f (filter P xs)) = mset (map f xs)"
  by (induction xs) simp_all

definition finished :: "RunningSequence \<Rightarrow> bool" where
  "finished s \<longleftrightarrow> \<not> generated_tokens s < max_tokens s"

lemma schedule_outcome:
  assumes ok: "sched_ok S" "books B S rest" and r: "schedule B S = (B', S', D)"
  shows "config S' = config S" "sched_ok S'" "books B' S' rest" "within B B'" "settled B' S'"
    "ids S' + mset (map request_id (filter finished (running S))) = ids S"
    "mset (map seq_id (running S')) + mset (preempt D) =
       mset (map seq_id (filter (\<lambda>s. \<not> finished s) (running S))) + mset (prefill D) + mset (swap_in D)"
    "decode D = filter (\<lambda>i. i \<in> seq_id ` set (filter (\<lambda>s. \<not> finished s) (running S))) (map seq_id (running S'))"
proof -
  obtain B1 kept where reap: "reap B (running S) = (B1, kept)" by fastforce
  let ?S1 = "S\<lparr>running := kept\<rparr>" and ?D0 = "\<lparr>prefill = [], decode = [], preempt = [], swap_in = []\<rparr>"
  note k = reap_outcome [OF reap]
  have kept: "kept = filter (\<lambda>s. \<not> finished s) (running S)" using k(1) by (simp add: finished_def)
  have b1: "books B1 ?S1 rest" using k(3) [of rest] ok(2) unfolding books_def charge_def by (auto split: option.splits)
  have ok1: "sched_ok ?S1" using ok(1) le_trans [OF length_filter_le]
    unfolding sched_ok_def estimated_config [of ?S1 S, simplified] by (auto simp: kept)
  obtain B2 S2 D2 where pre: "apply_preemption B1 ?S1 ?D0 = (B2, S2, D2)" by (cases "apply_preemption B1 ?S1 ?D0")
  obtain D3 where adm: "admit_loop B2 S2 D2 = (B', S', D3)"
    and D: "D = D3\<lparr>decode := filter (\<lambda>s. s \<in> set (map seq_id kept)) (map seq_id (running S'))\<rparr>"
    using r reap pre by (auto simp: schedule_def Let_def split: prod.splits)
  have s2: "sched_step rest B1 ?S1 ?D0 B2 S2 D2"
    using pre preempt_loop_step [OF ok1 b1, of ?D0] sched_step_refl [OF ok1 b1, of ?D0]
    by (auto simp: apply_preemption_def split: if_splits prod.splits)
  then have "sched_ok S2" "books B2 S2 rest" by (simp_all add: sched_step_def)
  from admit_loop_step [OF this, of D2] adm have s3: "sched_step rest B2 S2 D2 B' S' D3" "settled B' S'" by simp_all
  note all = sched_step_trans [OF s2 s3(1)]
  from all show "config S' = config S" "sched_ok S'" "books B' S' rest" by (simp_all add: sched_step_def)
  from all k(2) show "within B B'" by (auto simp: sched_step_def intro: within_trans)
  show "settled B' S'" by (rule s3(2))
  have "mset (map request_id kept) + mset (map request_id (filter finished (running S))) = mset (map request_id (running S))"
    unfolding kept by (rule mset_filter_split)
  with all show "ids S' + mset (map request_id (filter finished (running S))) = ids S"
    by (simp add: sched_step_def ids_def ac_simps)
  from all show "mset (map seq_id (running S')) + mset (preempt D) =
       mset (map seq_id (filter (\<lambda>s. \<not> finished s) (running S))) + mset (prefill D) + mset (swap_in D)"
    by (simp add: sched_step_def D kept)
  show "decode D = filter (\<lambda>i. i \<in> seq_id ` set (filter (\<lambda>s. \<not> finished s) (running S))) (map seq_id (running S'))"
    by (simp add: D kept)
qed

section \<open>The other operations\<close>

lemma position_bound: "position p xs = Some i \<Longrightarrow> i < length xs \<and> p (xs ! i)"
  by (induction xs arbitrary: i) (auto split: if_splits)

lemma sched_ok_same:
  assumes "sched_ok S" "config S' = config S" "fair_share S' = fair_share S" "length (running S') \<le> length (running S)"
    and "\<And>s. s \<in> set (running S') \<Longrightarrow> \<exists>t \<in> set (running S). reserved_bytes s = reserved_bytes t \<and> prompt_tokens s = prompt_tokens t \<and> max_tokens s = max_tokens t"
    and "set (swapped S') \<subseteq> set (swapped S)"
  shows "sched_ok S'"
proof -
  have "reserved_bytes s = estimated_bytes S (prompt_tokens s) (max_tokens s)" if "s \<in> set (running S')" for s
    using assms(5) [OF that] assms(1) by (auto simp: sched_ok_def)
  with assms(1-4,6) show ?thesis unfolding sched_ok_def estimated_config [OF assms(2)] by auto
qed

lemma drop_running_step:
  assumes ok: "sched_ok S" "books B S rest" and d: "drop_running p B S = (B', S')"
  shows "sched_ok S'" "books B' S' rest" "within B B'" "config S' = config S" "swapped S' = swapped S" "waiting S' = waiting S"
proof -
  have "sched_ok S' \<and> books B' S' rest \<and> within B B' \<and> config S' = config S \<and> swapped S' = swapped S \<and> waiting S' = waiting S"
  proof (cases "position p (running S)")
    case None
    with ok d show ?thesis by (simp add: drop_running_def)
  next
    case (Some i)
    then have i: "i < length (running S)" using position_bound by blast
    from d Some have S': "S' = S\<lparr>running := remove_nth i (running S)\<rparr>" "B' = release_bytes B (reserved_bytes (running S ! i))"
      by (auto simp: drop_running_def)
    have "charge S = charge S' + reserved_bytes (running S ! i)" using i by (simp add: charge_def S' weight_split)
    with ok(2) S'(2) have "books B' S' rest" by (simp add: books_release)
    moreover have "sched_ok S'" by (rule sched_ok_same [OF ok(1)]) (use i set_remove_nth [of i "running S"] in \<open>auto simp: S'\<close>)
    ultimately show ?thesis by (simp add: S' cell_release_within)
  qed
  then show "sched_ok S'" "books B' S' rest" "within B B'" "config S' = config S" "swapped S' = swapped S" "waiting S' = waiting S" by simp_all
qed

lemma books_queues:
  "books B (S\<lparr>swapped := xs\<rparr>) rest = books B S rest" "books B (S\<lparr>waiting := ws\<rparr>) rest = books B S rest"
  by (simp_all add: books_def charge_def split: option.split)

lemma sched_ok_queues:
  "sched_ok S \<Longrightarrow> set xs \<subseteq> set (swapped S) \<Longrightarrow> sched_ok (S\<lparr>swapped := xs\<rparr>)" "sched_ok S \<Longrightarrow> sched_ok (S\<lparr>waiting := ws\<rparr>)"
  by (rule sched_ok_same; auto)+

lemma complete_step:
  assumes "sched_ok S" "books B S rest" "complete B S sid = (B', S')"
  shows "sched_ok S' \<and> books B' S' rest \<and> within B B'"
proof -
  obtain B1 S1 where d: "drop_running (\<lambda>s. seq_id s = sid) B S = (B1, S1)" by fastforce
  from drop_running_step [OF assms(1,2) d] assms(3) d show ?thesis
    by (auto simp: complete_def books_queues intro: sched_ok_queues)
qed

lemma cancel_step:
  assumes "sched_ok S" "books B S rest" "cancel_request B S rid = (B', S')"
  shows "sched_ok S' \<and> books B' S' rest \<and> within B B'"
proof -
  let ?S = "S\<lparr>waiting := filter (\<lambda>r. rq_id r \<noteq> rid) (waiting S)\<rparr>"
  obtain B1 S1 where d: "drop_running (\<lambda>s. request_id s = rid) B ?S = (B1, S1)" by fastforce
  have "sched_ok ?S" "books B ?S rest" using assms(1,2) by (simp_all add: books_queues sched_ok_queues)
  from drop_running_step [OF this d] assms(3) d show ?thesis
    by (auto simp: cancel_request_def books_queues intro: sched_ok_queues)
qed

lemma advance_step:
  assumes "sched_ok S" "books B S rest"
  shows "sched_ok (advance S sid) \<and> books B (advance S sid) rest"
proof (cases "position (\<lambda>s. seq_id s = sid) (running S)")
  case None
  with assms show ?thesis by (simp add: advance_def)
next
  case (Some i)
  then have i: "i < length (running S)" using position_bound by blast
  let ?s = "(running S ! i)\<lparr>generated_tokens := generated_tokens (running S ! i) + 1\<rparr>"
  have S': "advance S sid = S\<lparr>running := (running S)[i := ?s]\<rparr>" by (simp add: advance_def Some)
  have "charge (advance S sid) = charge S" using i by (simp add: charge_def S' weight_update weight_split [of i "running S"])
  moreover have "sched_ok (advance S sid)"
    by (rule sched_ok_same [OF assms(1)]) (use i nth_mem [OF i] in \<open>auto simp: S' dest!: set_update_subset_insert [THEN subsetD]\<close>)
  ultimately show ?thesis using books_same [OF assms(2)] by simp
qed

lemma add_request_step:
  assumes "sched_ok S" "books B S rest"
  shows "sched_ok (fst (add_request S sid p m prio)) \<and> books B (fst (add_request S sid p m prio)) rest"
  using sched_ok_same [OF assms(1), of "fst (add_request S sid p m prio)"] books_same [OF assms(2), of "fst (add_request S sid p m prio)"]
  by (auto simp: add_request_def charge_def)

lemma drive_step:
  assumes ok: "sched_ok S" "books B S rest" and d: "drive_next_fcfs_result B S = (B', S', r)"
  shows "sched_ok S' \<and> books B' S' rest \<and> within B B'"
proof (cases "length (running S) \<ge> max_batch_size (config S) \<or> waiting S = []")
  case True
  with ok d show ?thesis by (auto simp: drive_next_fcfs_result_def split: if_splits)
next
  case False
  then obtain rq rest' where w: "waiting S = rq # rest'" by (cases "waiting S") auto
  let ?S = "S\<lparr>waiting := rest'\<rparr>"
  have ok': "sched_ok ?S" "books B ?S rest" using ok by (simp_all add: books_queues sched_ok_queues)
  obtain B1 x where x: "reserve_or_cap_request B ?S rq = (B1, x)" by fastforce
  show ?thesis
  proof (cases x)
    case (Inl e)
    with x have "charged B B1 0" by (auto elim: reserve_cases)
    with charged_0 [OF this ok(2) refl] ok(1) False w x Inl d show ?thesis by (auto simp: drive_next_fcfs_result_def)
  next
    case (Inr y)
    obtain rq' bytes cap where y: "y = (rq', bytes, cap)" by (cases y)
    from admit_waiting [OF ok' _ x [unfolded Inr y]] False w x Inr y d show ?thesis by (auto simp: drive_next_fcfs_result_def)
  qed
qed

end
