(* ===== verification/Sessions.thy ===== *)
theory Sessions
  imports SchedulerRun
begin

text \<open>
  Several schedulers on one shared byte budget, as the server runs them: every operation of
  any scheduler is one step on the shared cell, in any order. The properties of admission
  and scheduling are stated here.
\<close>

section \<open>The system\<close>

record Sessions =
  cell :: ByteBudget
  scheds :: "Scheduler list"

definition put_sched :: "Sessions \<Rightarrow> nat \<Rightarrow> budget_cell \<Rightarrow> Scheduler \<Rightarrow> Sessions" where
  "put_sched X i B S = \<lparr>cell = (case B of None \<Rightarrow> cell X | Some b \<Rightarrow> b), scheds = (scheds X)[i := S]\<rparr>"

inductive sessions_next :: "Sessions \<Rightarrow> Sessions \<Rightarrow> bool" where
  join: "sessions_next X (X\<lparr>scheds := scheds X @ [scheduler_new cfg]\<rparr>)"
| join_weighted: "\<lbrakk>with_fair_share_weights (scheduler_new cfg) low normal high = Some S; low \<le> u32_max; normal \<le> u32_max; high \<le> u32_max\<rbrakk>
    \<Longrightarrow> sessions_next X (X\<lparr>scheds := scheds X @ [S]\<rparr>)"
| submit: "i < length (scheds X) \<Longrightarrow> sessions_next X (put_sched X i None (fst (add_request (scheds X ! i) sid p m prio)))"
| iterate: "\<lbrakk>i < length (scheds X); schedule (Some (cell X)) (scheds X ! i) = (B, S, D)\<rbrakk> \<Longrightarrow> sessions_next X (put_sched X i B S)"
| drive: "\<lbrakk>i < length (scheds X); drive_next_fcfs_result (Some (cell X)) (scheds X ! i) = (B, S, r)\<rbrakk> \<Longrightarrow> sessions_next X (put_sched X i B S)"
| token: "i < length (scheds X) \<Longrightarrow> sessions_next X (put_sched X i None (advance (scheds X ! i) sid))"
| finish: "\<lbrakk>i < length (scheds X); complete (Some (cell X)) (scheds X ! i) sid = (B, S)\<rbrakk> \<Longrightarrow> sessions_next X (put_sched X i B S)"
| cancel: "\<lbrakk>i < length (scheds X); cancel_request (Some (cell X)) (scheds X ! i) rid = (B, S)\<rbrakk> \<Longrightarrow> sessions_next X (put_sched X i B S)"
| relimit: "sessions_next X (X\<lparr>cell := fst (reconfigure (cell X) n)\<rparr>)"

inductive sessions_reachable :: "ByteBudget \<Rightarrow> Sessions \<Rightarrow> bool" for b where
  start: "bb_used b = 0 \<Longrightarrow> sessions_reachable b \<lparr>cell = b, scheds = []\<rparr>"
| step: "\<lbrakk>sessions_reachable b X; sessions_next X Y\<rbrakk> \<Longrightarrow> sessions_reachable b Y"

definition sessions_inv :: "Sessions \<Rightarrow> bool" where
  "sessions_inv X \<longleftrightarrow> (\<forall>S \<in> set (scheds X). sched_ok S) \<and> bb_used (cell X) = weight charge (scheds X)"

lemma sched_new_ok: "fair_inv P \<Longrightarrow> sched_ok ((scheduler_new cfg)\<lparr>fair_share := P\<rparr>)" "sched_ok (scheduler_new cfg)"
  "charge ((scheduler_new cfg)\<lparr>fair_share := P\<rparr>) = 0" "charge (scheduler_new cfg) = 0"
  using fair_reachable_inv [OF fair_reachable.fresh] by (simp_all add: sched_ok_def scheduler_new_def charge_def)

lemma put_sched_inv:
  assumes inv: "sessions_inv X" and i: "i < length (scheds X)"
    and S: "sched_ok S" "books (case B of None \<Rightarrow> Some (cell X) | Some b \<Rightarrow> B) S (weight charge (remove_nth i (scheds X)))"
  shows "sessions_inv (put_sched X i B S)"
proof -
  have "\<forall>S' \<in> set ((scheds X)[i := S]). sched_ok S'"
    using inv S(1) set_update_subset_insert [of "scheds X" i S] by (auto simp: sessions_inv_def)
  moreover have "weight charge ((scheds X)[i := S]) = charge S + weight charge (remove_nth i (scheds X))"
    using i by (rule weight_update)
  ultimately show ?thesis using S(2) by (auto simp: sessions_inv_def put_sched_def books_def split: option.splits)
qed

lemma sessions_member:
  assumes "sessions_inv X" "i < length (scheds X)"
  shows "sched_ok (scheds X ! i)" "books (Some (cell X)) (scheds X ! i) (weight charge (remove_nth i (scheds X)))"
  using assms weight_split [OF assms(2), of charge] by (auto simp: sessions_inv_def books_def)

lemma within_Some: "within (Some b) B \<Longrightarrow> \<exists>b'. B = Some b' \<and> bb_limit b' = bb_limit b \<and> bb_used b' \<le> max (bb_used b) (bb_limit b)"
  by (auto simp: within_def split: option.splits)

text \<open>Every step keeps the invariant, and only raises the counter within the limit.\<close>

lemma sessions_step:
  assumes "sessions_next X Y" "sessions_inv X"
  shows "sessions_inv Y \<and> (bb_used (cell X) < bb_used (cell Y) \<longrightarrow> bb_used (cell Y) \<le> bb_limit (cell Y))"
  using assms
proof cases
  case (join cfg)
  with assms(2) show ?thesis by (simp add: sessions_inv_def sched_new_ok)
next
  case (join_weighted cfg low normal high S)
  then obtain P where P: "with_weights low normal high = Some P" "S = (scheduler_new cfg)\<lparr>fair_share := P\<rparr>"
    by (auto simp: with_fair_share_weights_def)
  have "fair_inv P" by (rule fair_reachable_inv [OF fair_reachable.weighted [OF P(1)]]) (use join_weighted in auto)
  with assms(2) join_weighted P(2) show ?thesis by (simp add: sessions_inv_def sched_new_ok)
next
  case (submit i sid p m prio)
  from add_request_step [OF sessions_member [OF assms(2) submit(2)]] put_sched_inv [OF assms(2) submit(2), of _ None] submit(1) show ?thesis
    by (simp add: put_sched_def)
next
  case (iterate i B S D)
  note s = schedule_outcome [OF sessions_member [OF assms(2) iterate(2)] iterate(3)]
  from within_Some [OF s(4)] put_sched_inv [OF assms(2) iterate(2) s(2), of B] s(3) iterate(1) show ?thesis
    by (auto simp: put_sched_def)
next
  case (drive i B S r)
  note s = drive_step [OF sessions_member [OF assms(2) drive(2)] drive(3)]
  from within_Some s put_sched_inv [OF assms(2) drive(2), of S B] drive(1) show ?thesis by (fastforce simp: put_sched_def)
next
  case (token i sid)
  from advance_step [OF sessions_member [OF assms(2) token(2)]] put_sched_inv [OF assms(2) token(2), of _ None] token(1) show ?thesis
    by (simp add: put_sched_def)
next
  case (finish i sid B S)
  note s = complete_step [OF sessions_member [OF assms(2) finish(2)] finish(3)]
  from within_Some s put_sched_inv [OF assms(2) finish(2), of S B] finish(1) show ?thesis by (fastforce simp: put_sched_def)
next
  case (cancel i rid B S)
  note s = cancel_step [OF sessions_member [OF assms(2) cancel(2)] cancel(3)]
  from within_Some s put_sched_inv [OF assms(2) cancel(2), of S B] cancel(1) show ?thesis by (fastforce simp: put_sched_def)
next
  case (relimit n)
  have "bb_used (cell Y) = bb_used (cell X)" "scheds Y = scheds X"
    using relimit by (simp_all add: reconfigure_def case_prod_beta)
  with assms(2) show ?thesis by (simp add: sessions_inv_def)
qed

lemma sessions_reachable_inv: "sessions_reachable b X \<Longrightarrow> sessions_inv X"
  by (induction rule: sessions_reachable.induct) (simp_all add: sessions_inv_def sessions_step [unfolded sessions_inv_def])

section \<open>Properties of admission\<close>

text \<open>
  C28. One budget, many sessions. In every state that any interleaving of the sessions'
  operations reaches, the shared counter is exactly the sum of what the running sequences
  of all sessions hold: nothing is charged twice, nothing leaks when a sequence completes,
  is cancelled or is preempted, and each running sequence holds its worst-case footprint.
  Batches never exceed their size.
\<close>

theorem budget_is_what_running_sequences_hold:
  assumes "sessions_reachable b X"
  shows "bb_used (cell X) = weight charge (scheds X) \<and>
    (\<forall>S \<in> set (scheds X). length (running S) \<le> max_batch_size (config S) \<and>
       (\<forall>s \<in> set (running S). reserved_bytes s = estimated_bytes S (prompt_tokens s) (max_tokens s)) \<and>
       (\<forall>s \<in> set (swapped S). reserved_bytes s = 0))"
  using sessions_reachable_inv [OF assms] by (simp add: sessions_inv_def sched_ok_def)

text \<open>
  C29. The ceiling holds. No step of any session raises the shared counter above the
  budget's limit; it can only be above after the limit itself was lowered, and then no step
  makes it worse.
\<close>

theorem admission_respects_the_ceiling:
  assumes "sessions_reachable b X" "sessions_next X Y"
  shows "bb_used (cell Y) \<le> max (bb_used (cell X)) (bb_limit (cell Y))"
  using sessions_step [OF assms(2) sessions_reachable_inv [OF assms(1)]] by (auto simp: max_def)

text \<open>
  C30. An iteration loses nobody. On a consistent scheduler (\<open>sched_ok\<close> and \<open>books\<close>, which C28
  shows for every reachable one), after \<open>schedule\<close> the requests known to the scheduler are
  those known before without the finished sequences, each exactly once; the running batch is
  the unfinished part of the old one, without the preempted sequences and with the prefilled
  and swapped-in ones; and the decoded sequences are those of the batch that ran before.
\<close>

theorem schedule_accounts_for_every_request:
  assumes "sched_ok S" "books B S rest" "schedule B S = (B', S', D)"
  shows "ids S' + mset (map request_id (filter finished (running S))) = ids S \<and>
    mset (map seq_id (running S')) + mset (preempt D) =
      mset (map seq_id (filter (\<lambda>s. \<not> finished s) (running S))) + mset (prefill D) + mset (swap_in D) \<and>
    decode D = filter (\<lambda>i. i \<in> seq_id ` set (filter (\<lambda>s. \<not> finished s) (running S))) (map seq_id (running S'))"
  using schedule_outcome [OF assms] by blast


definition candidate_key :: "Candidate \<Rightarrow> CandidateKey" where
  "candidate_key c = (case c of WaitingCandidate rq \<Rightarrow> from_request rq | SwappedCandidate s \<Rightarrow> from_running s)"

definition queued_keys :: "Scheduler \<Rightarrow> CandidateKey list" where
  "queued_keys S = map from_request (waiting S) @ map from_running (swapped S)"

definition age :: "CandidateKey \<Rightarrow> nat \<times> nat" where
  "age k = (ck_arrived_at k, ck_request_id k)"

lemma oldest_age:
  assumes "oldest_of_class key p xs = Some (i, a, r)"
  shows "ck_priority (key (xs ! i)) = p" "(a, r) = age (key (xs ! i))"
    "\<And>x. x \<in> set xs \<Longrightarrow> ck_priority (key x) = p \<Longrightarrow> age (key (xs ! i)) \<le> age (key x)"
  using oldest_cases [OF assms] by (simp_all add: age_def)

lemma ranked_pop:
  assumes "priority_policy (config S) \<noteq> FairShares" "pop_next_candidate S = (S1, Some c)" "k \<in> set (queued_keys S)"
  shows "rank (priority_policy (config S)) (candidate_key c) \<le> rank (priority_policy (config S)) k"
proof -
  let ?r = "rank (priority_policy (config S))"
  have w: "?r (from_request (waiting S ! i)) \<le> ?r (from_request rq)" if "best_waiting_index S = Some i" "rq \<in> set (waiting S)" for i rq
    using min_by_min(2) [where f = "\<lambda>a. ?r (from_request a)", OF cmp_candidate_key_rank that(1) [unfolded best_waiting_index_def] that(2)] .
  have sw: "?r (from_running (swapped S ! i)) \<le> ?r (from_running s)" if "best_swapped_index S = Some i" "s \<in> set (swapped S)" for i s
    using min_by_min(2) [where f = "\<lambda>a. ?r (from_running a)", OF cmp_candidate_key_rank that(1) [unfolded best_swapped_index_def] that(2)] .
  have empty: "best_waiting_index S = None \<Longrightarrow> waiting S = []" "best_swapped_index S = None \<Longrightarrow> swapped S = []"
    using best_index [of S] by simp_all
  show ?thesis
  proof (cases "best_waiting_index S"; cases "best_swapped_index S")
    fix i j assume ij: "best_waiting_index S = Some i" "best_swapped_index S = Some j"
    let ?w = "?r (from_request (waiting S ! i))" and ?s = "?r (from_running (swapped S ! j))"
    have "?r (candidate_key c) = min ?w ?s"
      using assms(1,2) ij by (auto simp: pop_next_candidate_def take_waiting_def take_swapped_def candidate_key_def
          cmp_candidate_key_rank min_def split: if_splits)
    moreover have "?w \<le> ?r k \<or> ?s \<le> ?r k" using assms(3) w [OF ij(1)] sw [OF ij(2)] by (auto simp: queued_keys_def)
    ultimately show ?thesis by (auto simp: min_le_iff_disj)
  qed (use assms w sw empty in \<open>auto simp: pop_next_candidate_def take_waiting_def take_swapped_def candidate_key_def queued_keys_def\<close>)
qed

lemma fair_pop:
  assumes "priority_policy (config S) = FairShares" "pop_next_candidate S = (S1, Some c)" "k \<in> set (queued_keys S)"
    and "ck_priority k = ck_priority (candidate_key c)"
  shows "snd (select_class (fair_share S) (map ck_priority (queued_keys S))) = Some (ck_priority (candidate_key c)) \<and>
    age (candidate_key c) \<le> age k"
proof -
  have keys: "map ck_priority (queued_keys S) = map rq_priority (waiting S) @ map rs_priority (swapped S)"
    by (simp add: queued_keys_def from_request_def from_running_def comp_def)
  obtain P r where sel: "select_class (fair_share S) (map rq_priority (waiting S) @ map rs_priority (swapped S)) = (P, r)" by fastforce
  with assms(1,2) obtain p where r: "r = Some p"
    by (cases r) (auto simp: pop_next_candidate_def pop_next_fair_share_candidate_def Let_def)
  let ?wo = "oldest_of_class from_request p (waiting S)" and ?so = "oldest_of_class from_running p (swapped S)"
  have pop: "(S1, Some c) = (case (?wo, ?so) of
       (Some (i, _, _), None) \<Rightarrow> take_waiting (S\<lparr>fair_share := P\<rparr>) i
     | (None, Some (i, _, _)) \<Rightarrow> take_swapped (S\<lparr>fair_share := P\<rparr>) i
     | (Some (i, wa, wid), Some (j, sa, sid)) \<Rightarrow>
         if wa < sa \<or> wa = sa \<and> wid < sid then take_waiting (S\<lparr>fair_share := P\<rparr>) i else take_swapped (S\<lparr>fair_share := P\<rparr>) j
     | (None, None) \<Rightarrow> (S\<lparr>fair_share := P\<rparr>, None))"
    using assms(1,2) sel r by (simp add: pop_next_candidate_def pop_next_fair_share_candidate_def Let_def)
  note wo = oldest_age [of from_request p "waiting S"] and so = oldest_age [of from_running p "swapped S"]
  have "ck_priority (candidate_key c) = p \<and> (\<forall>k \<in> set (queued_keys S). ck_priority k = p \<longrightarrow> age (candidate_key c) \<le> age k)"
  proof (cases ?wo; cases ?so)
    fix x y assume xy: "?wo = Some x" "?so = Some y"
    obtain i wa wid j sa sid where e: "x = (i, wa, wid)" "y = (j, sa, sid)" by (cases x; cases y)
    note w = wo [OF xy(1) [unfolded e]] and s = so [OF xy(2) [unfolded e]]
    have "candidate_key c = (if age (from_request (waiting S ! i)) < age (from_running (swapped S ! j)) then from_request (waiting S ! i) else from_running (swapped S ! j))"
      unfolding w(2) [symmetric] s(2) [symmetric]
      using pop xy e by (auto simp: take_waiting_def take_swapped_def candidate_key_def less_prod_def split: if_splits)
    with w s show ?thesis by (auto simp: queued_keys_def not_less intro: order_trans less_imp_le)
  next
    fix x assume xy: "?wo = Some x" "?so = None"
    obtain i wa wid where e: "x = (i, wa, wid)" by (cases x)
    from wo [OF xy(1) [unfolded e]] xy(2) [unfolded oldest_None] pop xy e show ?thesis
      by (auto simp: take_waiting_def candidate_key_def queued_keys_def)
  next
    fix y assume xy: "?wo = None" "?so = Some y"
    obtain j sa sid where e: "y = (j, sa, sid)" by (cases y)
    from so [OF xy(2) [unfolded e]] xy(1) [unfolded oldest_None] pop xy e show ?thesis
      by (auto simp: take_swapped_def candidate_key_def queued_keys_def)
  qed (use pop in auto)
  with assms(3,4) sel r keys show ?thesis by simp
qed

text \<open>
  C32. Candidates are taken in policy order. Under the first-come and the priority policy the
  candidate popped has the least key of all queued work: waiting and swapped together, by
  arrival, with higher priority first when the policy says so, ties by request number. Under
  fair sharing it is the oldest work of the class the policy selected. Nothing is popped only
  when nothing is queued.
\<close>

theorem candidates_are_taken_in_policy_order:
  assumes "sched_ok S"
  shows "(case pop_next_candidate S of
      (S1, None) \<Rightarrow> queued_keys S = []
    | (S1, Some c) \<Rightarrow>
        candidate_key c \<in> set (queued_keys S) \<and>
        (\<forall>k \<in> set (queued_keys S).
           if priority_policy (config S) = FairShares
           then ck_priority k = ck_priority (candidate_key c) \<longrightarrow>
             snd (select_class (fair_share S) (map ck_priority (queued_keys S))) = Some (ck_priority (candidate_key c)) \<and>
             age (candidate_key c) \<le> age k
           else rank (priority_policy (config S)) (candidate_key c) \<le> rank (priority_policy (config S)) k))"
proof -
  obtain S1 c where pop: "pop_next_candidate S = (S1, c)" by fastforce
  have p: "pops S S1 c" using pop_pops [of S] assms pop by (simp add: sched_ok_def)
  show ?thesis
  proof (cases c)
    case None
    with p pop show ?thesis by (simp add: pops_def queued_keys_def)
  next
    case (Some d)
    have "candidate_key d \<in> set (queued_keys S)"
      using p Some by (auto simp: pops_def candidate_key_def queued_keys_def split: Candidate.splits)
    with ranked_pop [OF _ pop [unfolded Some]] fair_pop [OF _ pop [unfolded Some]] pop Some show ?thesis by simp
  qed
qed

lemma footprint_mono: "m \<le> n \<Longrightarrow> estimated_bytes S p m \<le> estimated_bytes S p n"
proof -
  assume "m \<le> n"
  then have "sat_add_u64 p m * b \<le> sat_add_u64 p n * b" for b by (intro mult_le_mono1) (simp add: sat_add_u64_def)
  then have "sat_mul_u64 (sat_add_u64 p m) b \<le> sat_mul_u64 (sat_add_u64 p n) b" for b
    unfolding sat_mul_u64_def by (rule min.mono [OF _ order_refl])
  then show ?thesis by (simp add: estimated_bytes_def split: option.split)
qed

lemma footprint_next:
  assumes "bytes_per_token (config S) = Some u" "0 < u" "estimated_bytes S p n = r" "r < u64_max" "av < r + u" "av < u64_max"
  shows "av < estimated_bytes S p (n + 1)"
proof -
  have e: "estimated_bytes S p m = sat_mul_u64 (sat_add_u64 p m) u" for m by (simp add: estimated_bytes_def assms(1))
  have r: "r = sat_add_u64 p n * u" using assms(3,4) unfolding e by (simp add: sat_mul_u64_def min_def split: if_splits)
  have "sat_add_u64 p n * 1 \<le> sat_add_u64 p n * u" by (rule mult_le_mono2) (use assms(2) in simp)
  with r assms(4) have "sat_add_u64 p n < u64_max" by linarith
  then have "sat_add_u64 p (n + 1) = sat_add_u64 p n + 1" by (simp add: sat_add_u64_def min_def split: if_splits)
  with r assms(5,6) show ?thesis unfolding e by (simp add: sat_mul_u64_def)
qed


section \<open>Examples\<close>

text \<open>One session of two-byte tokens on a budget of 100 bytes; its request for 60 tokens is capped.\<close>

definition demo_config :: SchedulerConfig where
  "demo_config = default_config\<lparr>max_batch_size := 1, bytes_per_token := Some 2\<rparr>"

definition queued_session :: Scheduler where
  "queued_session = fst (add_request (scheduler_new demo_config) 7 10 60 Normal)"

definition queued_sessions :: Sessions where
  "queued_sessions = \<lparr>cell = budget_new 100, scheds = [queued_session]\<rparr>"

definition iterated_sessions :: Sessions where
  "iterated_sessions =
     (case schedule (Some (budget_new 100)) queued_session of (B, S, D) \<Rightarrow> put_sched queued_sessions 0 B S)"

lemma queued_reachable: "sessions_reachable (budget_new 100) queued_sessions"
proof -
  let ?X = "\<lparr>cell = budget_new 100, scheds = [scheduler_new demo_config]\<rparr>"
  have "sessions_reachable (budget_new 100) \<lparr>cell = budget_new 100, scheds = []\<rparr>" by (rule sessions_reachable.start) (simp add: budget_new_def)
  from sessions_reachable.step [OF this sessions_next.join, of demo_config] have "sessions_reachable (budget_new 100) ?X" by simp
  from sessions_reachable.step [OF this sessions_next.submit [of 0 ?X 7 10 60 Normal]] show ?thesis
    by (simp add: queued_sessions_def queued_session_def put_sched_def)
qed

lemma iterated_next: "sessions_next queued_sessions iterated_sessions"
proof -
  obtain B S D where s: "schedule (Some (budget_new 100)) queued_session = (B, S, D)" by (cases "schedule (Some (budget_new 100)) queued_session")
  then have "sessions_next queued_sessions (put_sched queued_sessions 0 B S)"
    by (intro sessions_next.iterate) (simp_all add: queued_sessions_def)
  with s show ?thesis by (simp add: iterated_sessions_def)
qed

lemma queued_session_ok: "sched_ok queued_session" "books (Some (budget_new 100)) queued_session 0"
  using sessions_member [OF sessions_reachable_inv [OF queued_reachable], of 0]
  by (simp_all add: queued_sessions_def remove_nth_def)

theorem budget_is_what_running_sequences_hold_witness:
  "bb_used (cell iterated_sessions) = weight charge (scheds iterated_sessions) \<and> bb_used (cell iterated_sessions) = 100"
proof -
  have "bb_used (cell iterated_sessions) = 100" by code_simp
  with budget_is_what_running_sequences_hold [OF sessions_reachable.step [OF queued_reachable iterated_next]] show ?thesis by simp
qed

theorem admission_respects_the_ceiling_witness:
  "bb_used (cell iterated_sessions) \<le> max (bb_used (cell queued_sessions)) (bb_limit (cell iterated_sessions))"
  by (rule admission_respects_the_ceiling [OF queued_reachable iterated_next])

theorem schedule_accounts_for_every_request_witness:
  "case schedule (Some (budget_new 100)) queued_session of (B', S', D) \<Rightarrow> ids S' = ids queued_session \<and> prefill D = [7]"
proof -
  obtain B' S' D where s: "schedule (Some (budget_new 100)) queued_session = (B', S', D)" by (cases "schedule (Some (budget_new 100)) queued_session")
  have "running queued_session = []" "prefill (snd (snd (schedule (Some (budget_new 100)) queued_session))) = [7]" by code_simp+
  with schedule_accounts_for_every_request [OF queued_session_ok s] s show ?thesis by simp
qed

definition roomy_session :: Scheduler where
  "roomy_session = fst (add_request (scheduler_new default_config) 7 10 60 Normal)"


theorem candidates_are_taken_in_policy_order_witness:
  "case pop_next_candidate queued_session of
     (S1, None) \<Rightarrow> False | (S1, Some c) \<Rightarrow> candidate_key c \<in> set (queued_keys queued_session)"
proof -
  have "queued_keys queued_session \<noteq> []" by code_simp
  with candidates_are_taken_in_policy_order [OF queued_session_ok(1)] show ?thesis by (auto split: prod.splits option.splits)
qed


text \<open>
  Under the default policies (first come first served, swap preemption) a full batch that a
  higher-priority request could displace is preempted and swapped straight back in, every
  iteration, and the request keeps waiting: the victim arrived earlier.
\<close>

definition thrashing :: Scheduler where
  "thrashing = fst (add_request
     (fst (snd (schedule None (fst (add_request (scheduler_new (default_config\<lparr>max_batch_size := 1\<rparr>)) 10 4 8 Low))))) 20 4 8 High)"

theorem fcfs_preemption_readmits_its_victim:
  "case schedule None thrashing of
     (B, S, D) \<Rightarrow> preempt D = [10] \<and> swap_in D = [10] \<and> decode D = [10] \<and> prefill D = [] \<and> map rq_seq_id (waiting S) = [20]"
  by code_simp

text \<open>
  A request for zero tokens is never admitted under byte accounting, however much is free,
  and under first-come order everything behind it waits.
\<close>

theorem zero_token_request_blocks_the_queue:
  "case schedule (Some (budget_new 1000))
      (fst (add_request (fst (add_request (scheduler_new demo_config) 1 4 0 Normal)) 2 4 8 Normal)) of
     (B, S, D) \<Rightarrow> running S = [] \<and> length (waiting S) = 2 \<and> prefill D = []"
  by code_simp

text \<open>
  A refusal inside \<open>schedule\<close> puts the request at the end of the queue, so the next call of
  \<open>drive_next_fcfs_result\<close>, which takes the head, admits a later arrival first.
\<close>

theorem refusal_reorders_the_fcfs_queue:
  "case schedule (Some (budget_new 30))
      (fst (add_request (fst (add_request (scheduler_new demo_config) 1 20 8 Normal)) 2 4 8 Normal)) of
     (B, S, D) \<Rightarrow> map rq_arrived_at (waiting S) = [2, 1] \<and>
       (case drive_next_fcfs B S of (B', S', r) \<Rightarrow> map_option sr_seq_id r = Some 2)"
  by code_simp

end
