(* ===== verification/BatchAdmission.thy ===== *)
theory BatchAdmission
  imports Prelude "HOL-Library.List_Lexorder" "HOL-Library.Char_ord"
begin

text \<open>
  Grouping of requests into materialised component batches,
  \<open>onnx-genai-scheduler/src/batch_admission.rs\<close>. The source's sorted maps and sets are
  association lists and lists in key order where they are iterated (\<open>aggregations\<close>,
  \<open>uniform_dimensions\<close>) and maps where they are only looked up (extents).
\<close>

section \<open>Definitions\<close>

datatype BatchDimensionAggregation = Sum | Maximum

record MaterializedBudget =
  dimensions :: "string list"
  max_total :: nat

record BatchPolicy =
  max_contributions :: "nat option"
  aggregations :: "(string \<times> BatchDimensionAggregation) list"
  uniform_dimensions :: "string list"
  budgets :: "MaterializedBudget list"

record BatchContribution =
  sequence_id :: nat
  extents :: "string \<rightharpoonup> nat"

record AdmittedBatch =
  sequence_ids :: "nat list"
  materialized_dimensions :: "string \<rightharpoonup> nat"

datatype BatchAdmissionError =
  MissingAggregation string
| MissingDimension nat string
| MissingMaterializedDimension string
| DimensionOverflow string
| FootprintOverflow "string list"
| BudgetExceeded nat "string list" nat nat
| MaterializedBudgetExceeded "string list" nat nat
| ZeroContributionLimit

definition required_symbols :: "BatchPolicy \<Rightarrow> string list" where
  "required_symbols P = sort (remdups (uniform_dimensions P @ concat (map dimensions (budgets P))))"

fun check_aggregations :: "BatchPolicy \<Rightarrow> string list \<Rightarrow> BatchAdmissionError + unit" where
  "check_aggregations P [] = Inr ()"
| "check_aggregations P (s # ss) =
     (if map_of (aggregations P) s = None then Inl (MissingAggregation s) else check_aggregations P ss)"

definition validate_policy :: "BatchPolicy \<Rightarrow> BatchAdmissionError + unit" where
  "validate_policy P =
     (if max_contributions P = Some 0 then Inl ZeroContributionLimit
      else check_aggregations P (required_symbols P))"

fun check_extents :: "BatchContribution \<Rightarrow> string list \<Rightarrow> BatchAdmissionError + unit" where
  "check_extents c [] = Inr ()"
| "check_extents c (s # ss) =
     (if extents c s = None then Inl (MissingDimension (sequence_id c) s) else check_extents c ss)"

fun validate_contributions :: "BatchPolicy \<Rightarrow> BatchContribution list \<Rightarrow> BatchAdmissionError + unit" where
  "validate_contributions P [] = Inr ()"
| "validate_contributions P (c # cs) =
     res_bind (check_extents c (required_symbols P)) (\<lambda>_. validate_contributions P cs)"

fun merge_from ::
  "(string \<times> BatchDimensionAggregation) list \<Rightarrow> (string \<rightharpoonup> nat) \<Rightarrow> (string \<rightharpoonup> nat) \<Rightarrow> BatchAdmissionError + (string \<rightharpoonup> nat)" where
  "merge_from [] next merged = Inr merged"
| "merge_from ((s, agg) # as) next merged =
     (case next s of
        None \<Rightarrow> merge_from as next merged
      | Some n \<Rightarrow>
          (case merged s of
             None \<Rightarrow> merge_from as next (merged(s \<mapsto> n))
           | Some m \<Rightarrow>
               (case agg of
                  Maximum \<Rightarrow> merge_from as next (merged(s \<mapsto> max m n))
                | Sum \<Rightarrow>
                    (case checked_add_u64 m n of
                       None \<Rightarrow> Inl (DimensionOverflow s)
                     | Some t \<Rightarrow> merge_from as next (merged(s \<mapsto> t))))))"

definition merge_dimensions ::
  "BatchPolicy \<Rightarrow> (string \<rightharpoonup> nat) \<Rightarrow> (string \<rightharpoonup> nat) \<Rightarrow> BatchAdmissionError + (string \<rightharpoonup> nat)" where
  "merge_dimensions P current next = merge_from (aggregations P) next current"

fun footprint_from :: "MaterializedBudget \<Rightarrow> (string \<rightharpoonup> nat) \<Rightarrow> string list \<Rightarrow> nat \<Rightarrow> BatchAdmissionError + nat" where
  "footprint_from b dims [] t = Inr t"
| "footprint_from b dims (s # ss) t =
     (case dims s of
        None \<Rightarrow> Inl (MissingMaterializedDimension s)
      | Some n \<Rightarrow>
          if t * n \<le> u64_max then footprint_from b dims ss (t * n)
          else Inl (FootprintOverflow (dimensions b)))"

definition budget_footprint :: "(string \<rightharpoonup> nat) \<Rightarrow> MaterializedBudget \<Rightarrow> BatchAdmissionError + nat" where
  "budget_footprint dims b = footprint_from b dims (dimensions b) 1"

fun within_budgets :: "MaterializedBudget list \<Rightarrow> (string \<rightharpoonup> nat) \<Rightarrow> BatchAdmissionError + bool" where
  "within_budgets [] dims = Inr True"
| "within_budgets (b # bs) dims =
     res_bind (budget_footprint dims b) (\<lambda>n. if n > max_total b then Inr False else within_budgets bs dims)"

definition footprint_within_budgets :: "BatchPolicy \<Rightarrow> (string \<rightharpoonup> nat) \<Rightarrow> BatchAdmissionError + bool" where
  "footprint_within_budgets P dims = within_budgets (budgets P) dims"

fun single_within :: "MaterializedBudget list \<Rightarrow> BatchContribution \<Rightarrow> BatchAdmissionError + unit" where
  "single_within [] c = Inr ()"
| "single_within (b # bs) c =
     res_bind (budget_footprint (extents c) b) (\<lambda>n.
       if n > max_total b then Inl (BudgetExceeded (sequence_id c) (dimensions b) n (max_total b))
       else single_within bs c)"

definition validate_single_contribution :: "BatchPolicy \<Rightarrow> BatchContribution \<Rightarrow> BatchAdmissionError + unit" where
  "validate_single_contribution P c = single_within (budgets P) c"

fun group_from ::
  "BatchPolicy \<Rightarrow> BatchContribution list \<Rightarrow> AdmittedBatch list \<Rightarrow> nat list \<Rightarrow> (string \<rightharpoonup> nat) \<Rightarrow>
     BatchAdmissionError + AdmittedBatch list" where
  "group_from P [] admitted ids dims = Inr (admitted @ [\<lparr>sequence_ids = ids, materialized_dimensions = dims\<rparr>])"
| "group_from P (c # cs) admitted ids dims =
     res_bind (if ids = [] then Inr (extents c) else merge_dimensions P dims (extents c)) (\<lambda>candidate.
     let uniform = (ids = [] \<or> list_all (\<lambda>s. dims s = extents c s) (uniform_dimensions P));
         within_rows = (case max_contributions P of None \<Rightarrow> True | Some limit \<Rightarrow> length ids < limit) in
     res_bind (footprint_within_budgets P candidate) (\<lambda>within.
     let split = (ids \<noteq> [] \<and> (\<not> uniform \<or> \<not> within_rows \<or> \<not> within)) in
     res_bind (validate_single_contribution P c) (\<lambda>_.
     if split
     then group_from P cs (admitted @ [\<lparr>sequence_ids = ids, materialized_dimensions = dims\<rparr>]) [sequence_id c] (extents c)
     else group_from P cs admitted (ids @ [sequence_id c]) candidate)))"

definition group_batch_contributions ::
  "BatchPolicy \<Rightarrow> BatchContribution list \<Rightarrow> BatchAdmissionError + AdmittedBatch list" where
  "group_batch_contributions P cs =
     res_bind (validate_policy P) (\<lambda>_.
     res_bind (validate_contributions P cs) (\<lambda>_.
     if cs = [] then Inr [] else group_from P cs [] [] Map.empty))"

fun check_materialized :: "(string \<rightharpoonup> nat) \<Rightarrow> string list \<Rightarrow> BatchAdmissionError + unit" where
  "check_materialized dims [] = Inr ()"
| "check_materialized dims (s # ss) =
     (if dims s = None then Inl (MissingMaterializedDimension s) else check_materialized dims ss)"

fun check_budgets :: "MaterializedBudget list \<Rightarrow> (string \<rightharpoonup> nat) \<Rightarrow> BatchAdmissionError + unit" where
  "check_budgets [] dims = Inr ()"
| "check_budgets (b # bs) dims =
     res_bind (budget_footprint dims b) (\<lambda>n.
       if n > max_total b then Inl (MaterializedBudgetExceeded (dimensions b) n (max_total b))
       else check_budgets bs dims)"

definition validate_materialized_footprint :: "BatchPolicy \<Rightarrow> (string \<rightharpoonup> nat) \<Rightarrow> BatchAdmissionError + unit" where
  "validate_materialized_footprint P dims =
     res_bind (validate_policy P) (\<lambda>_.
     res_bind (check_materialized dims (required_symbols P)) (\<lambda>_.
     check_budgets (budgets P) dims))"

section \<open>What a group is\<close>

text \<open>The extent of a symbol in a group, from the extents of its members.\<close>

definition group_extent :: "BatchDimensionAggregation \<Rightarrow> nat list \<Rightarrow> nat" where
  "group_extent agg ns = (case agg of Sum \<Rightarrow> sum_list ns | Maximum \<Rightarrow> fold max ns 0)"

definition symbol_extent :: "string \<Rightarrow> BatchContribution \<Rightarrow> nat" where
  "symbol_extent s c = (case extents c s of None \<Rightarrow> 0 | Some n \<Rightarrow> n)"

text \<open>A group made of the contributions \<open>p\<close>, in order.\<close>

definition group_of :: "BatchPolicy \<Rightarrow> BatchContribution list \<Rightarrow> nat list \<Rightarrow> (string \<rightharpoonup> nat) \<Rightarrow> bool" where
  "group_of P p ids dims \<longleftrightarrow>
     ids = map sequence_id p \<and>
     (\<forall>s agg. map_of (aggregations P) s = Some agg \<and> s \<in> set (required_symbols P) \<longrightarrow>
        dims s = Some (group_extent agg (map (symbol_extent s) p)))"

text \<open>What every admitted group satisfies.\<close>

definition admissible :: "BatchPolicy \<Rightarrow> BatchContribution list \<Rightarrow> (string \<rightharpoonup> nat) \<Rightarrow> bool" where
  "admissible P p dims \<longleftrightarrow>
     p \<noteq> [] \<and> (case max_contributions P of None \<Rightarrow> True | Some limit \<Rightarrow> length p \<le> limit) \<and>
     (\<forall>s \<in> set (uniform_dimensions P). \<forall>c \<in> set p. extents c s = extents (hd p) s) \<and>
     within_budgets (budgets P) dims = Inr True"

definition stuck :: "BatchPolicy \<Rightarrow> BatchContribution list \<Rightarrow> BatchContribution \<Rightarrow> bool" where
  "stuck P p c \<longleftrightarrow> (\<forall>dims. group_of P (p @ [c]) (map sequence_id (p @ [c])) dims \<longrightarrow> \<not> admissible P (p @ [c]) dims)"

section \<open>The steps of the grouping\<close>

lemma fold_max_snoc: "fold max (ns @ [n]) 0 = max (fold max ns 0) (n::nat)"
  by (simp add: max.commute)

lemma group_extent_snoc:
  "group_extent Sum (ns @ [n]) = group_extent Sum ns + n" "group_extent Maximum (ns @ [n]) = max (group_extent Maximum ns) n"
  by (simp_all add: group_extent_def max.commute)

lemma group_extent_single: "group_extent agg [n] = n"
  by (cases agg) (simp_all add: group_extent_def)

lemma group_extent_const:
  assumes "ns \<noteq> []" "\<forall>x \<in> set ns. x = n"
  shows "group_extent Maximum ns = n"
proof -
  have "fold max ns m = max m n" if "ns \<noteq> []" "\<forall>x \<in> set ns. x = n" for ns m
    using that by (induction ns arbitrary: m rule: list_nonempty_induct) auto
  from this [OF assms, of 0] show ?thesis by (simp add: group_extent_def)
qed

lemma merge_from_extent:
  assumes "distinct (map fst as)" "merge_from as next merged = Inr m"
  shows "m s = (case (map_of as s, next s) of
      (Some agg, Some n) \<Rightarrow> (case merged s of None \<Rightarrow> Some n | Some k \<Rightarrow> Some (group_extent agg [k, n]))
    | _ \<Rightarrow> merged s)"
  using assms
proof (induction as arbitrary: merged)
  case (Cons a as)
  obtain t agg where a: "a = (t, agg)" by (cases a)
  have fresh: "map_of as t = None" using Cons.prems(1) by (simp add: a map_of_eq_None_iff)
  show ?case
  proof (cases "next t")
    case None
    with Cons.IH [of merged] Cons.prems a fresh show ?thesis by (auto split: option.splits)
  next
    case (Some n)
    let ?k = "case merged t of None \<Rightarrow> n | Some k \<Rightarrow> group_extent agg [k, n]"
    have "merge_from as next (merged(t \<mapsto> ?k)) = Inr m"
      using Cons.prems(2) Some a by (auto simp: group_extent_def max.commute split: option.splits BatchDimensionAggregation.splits)
    from Cons.IH [OF _ this] Cons.prems(1) a fresh Some show ?thesis by (auto split: option.splits)
  qed
qed simp

lemma check_aggregations_ok: "check_aggregations P ss = Inr u \<longleftrightarrow> (\<forall>s \<in> set ss. map_of (aggregations P) s \<noteq> None)"
  by (induction ss) auto

lemma check_extents_ok: "check_extents c ss = Inr u \<longleftrightarrow> (\<forall>s \<in> set ss. extents c s \<noteq> None)"
  by (induction ss) auto

lemma validate_contributions_ok:
  "validate_contributions P cs = Inr u \<longleftrightarrow> (\<forall>c \<in> set cs. \<forall>s \<in> set (required_symbols P). extents c s \<noteq> None)"
  by (induction cs) (auto simp: check_extents_ok)

lemma check_materialized_ok: "check_materialized dims ss = Inr u \<longleftrightarrow> (\<forall>s \<in> set ss. dims s \<noteq> None)"
  by (induction ss) auto

lemma check_budgets_ok: "check_budgets bs dims = Inr u \<longleftrightarrow> within_budgets bs dims = Inr True"
  by (induction bs) auto

lemma single_within_ok: "single_within bs c = Inr u \<longleftrightarrow> within_budgets bs (extents c) = Inr True"
  by (induction bs) auto

lemma within_budgets_cong:
  assumes "\<And>b s. b \<in> set bs \<Longrightarrow> s \<in> set (dimensions b) \<Longrightarrow> d s = d' s"
  shows "within_budgets bs d = within_budgets bs d'"
  using assms
proof (induction bs)
  case (Cons b bs)
  have "footprint_from b d ss t = footprint_from b d' ss t" if "set ss \<subseteq> set (dimensions b)" for ss t
    using that Cons.prems [of b] by (induction ss arbitrary: t) (auto split: option.split)
  then have "budget_footprint d b = budget_footprint d' b" by (simp add: budget_footprint_def)
  moreover have "within_budgets bs d = within_budgets bs d'" by (rule Cons.IH) (use Cons.prems in auto)
  ultimately show ?case by (simp cong: if_cong)
qed simp

lemma required_iff: "s \<in> set (required_symbols P) \<longleftrightarrow> s \<in> set (uniform_dimensions P) \<or> (\<exists>b \<in> set (budgets P). s \<in> set (dimensions b))"
  by (auto simp: required_symbols_def)

text \<open>Two descriptions of the same group agree on everything the budgets look at.\<close>

lemma group_of_budgets:
  assumes "group_of P p ids d" "group_of P p ids' d'" "\<forall>s \<in> set (required_symbols P). map_of (aggregations P) s \<noteq> None"
  shows "within_budgets (budgets P) d = within_budgets (budgets P) d'"
proof (rule within_budgets_cong)
  fix b s assume "b \<in> set (budgets P)" "s \<in> set (dimensions b)"
  then have s: "s \<in> set (required_symbols P)" by (auto simp: required_iff)
  with assms(3) obtain agg where "map_of (aggregations P) s = Some agg" by blast
  with s assms(1,2) show "d s = d' s" by (simp add: group_of_def)
qed

lemma group_of_single:
  assumes "\<forall>s \<in> set (required_symbols P). extents c s \<noteq> None"
  shows "group_of P [c] [sequence_id c] (extents c)"
  using assms by (auto simp: group_of_def group_extent_single symbol_extent_def)

lemma group_of_merge:
  assumes "distinct (map fst (aggregations P))" "group_of P p ids d" "p \<noteq> []"
    and "\<forall>s \<in> set (required_symbols P). extents c s \<noteq> None" "merge_dimensions P d (extents c) = Inr d'"
  shows "group_of P (p @ [c]) (ids @ [sequence_id c]) d'"
proof -
  have "d' s = Some (group_extent agg (map (symbol_extent s) (p @ [c])))"
    if s: "map_of (aggregations P) s = Some agg" "s \<in> set (required_symbols P)" for s agg
  proof -
    from assms(4) s(2) obtain n where n: "extents c s = Some n" by blast
    have "d s = Some (group_extent agg (map (symbol_extent s) p))" using assms(2) s by (simp add: group_of_def)
    with merge_from_extent [OF assms(1) assms(5) [unfolded merge_dimensions_def], of s] s(1) n
    have "d' s = Some (group_extent agg [group_extent agg (map (symbol_extent s) p), n])" by simp
    with n show ?thesis by (cases agg) (simp_all add: group_extent_def symbol_extent_def max.commute)
  qed
  with assms(2) show ?thesis by (simp add: group_of_def)
qed

lemma admissible_uniform:
  "admissible P p d \<Longrightarrow> s \<in> set (uniform_dimensions P) \<Longrightarrow> x \<in> set p \<Longrightarrow> extents x s = extents (hd p) s"
  unfolding admissible_def by blast

lemma uniform_extent:
  assumes uni: "\<forall>s \<in> set (uniform_dimensions P). map_of (aggregations P) s = Some Maximum"
    and all: "\<forall>c \<in> set p. \<forall>s \<in> set (required_symbols P). extents c s \<noteq> None"
    and g: "group_of P p ids d" "admissible P p d" and s: "s \<in> set (uniform_dimensions P)"
  shows "d s = extents (hd p) s"
proof -
  have p: "p \<noteq> []" using g(2) by (simp add: admissible_def)
  have req: "s \<in> set (required_symbols P)" using s by (simp add: required_iff)
  then obtain n where n: "extents (hd p) s = Some n" using bspec [OF bspec [OF all hd_in_set [OF p]]] by blast
  have "symbol_extent s x = n" if "x \<in> set p" for x using admissible_uniform [OF g(2) s that] n by (simp add: symbol_extent_def)
  then have "group_extent Maximum (map (symbol_extent s) p) = n" using p by (intro group_extent_const) auto
  then show ?thesis using g(1) s uni req n by (simp add: group_of_def)
qed

lemma split_is_stuck:
  assumes agg: "\<forall>s \<in> set (required_symbols P). map_of (aggregations P) s \<noteq> None"
    and uni: "\<forall>s \<in> set (uniform_dimensions P). map_of (aggregations P) s = Some Maximum"
    and all: "\<forall>c \<in> set (p @ [c]). \<forall>s \<in> set (required_symbols P). extents c s \<noteq> None"
    and g: "group_of P p ids d" "admissible P p d" "group_of P (p @ [c]) ids' d'"
    and no: "\<not> list_all (\<lambda>s. d s = extents c s) (uniform_dimensions P) \<or>
      (case max_contributions P of None \<Rightarrow> False | Some limit \<Rightarrow> \<not> length p < limit) \<or> within_budgets (budgets P) d' = Inr False"
  shows "stuck P p c"
  unfolding stuck_def
proof (intro allI impI notI)
  fix dims assume dims: "group_of P (p @ [c]) (map sequence_id (p @ [c])) dims" and ok: "admissible P (p @ [c]) dims"
  have p: "p \<noteq> []" using g(2) by (simp add: admissible_def)
  have "d s = extents c s" if s: "s \<in> set (uniform_dimensions P)" for s
  proof -
    have "extents c s = extents (hd (p @ [c])) s" by (rule admissible_uniform [OF ok s]) simp
    moreover have "d s = extents (hd p) s" by (rule uniform_extent [OF uni _ g(1,2) s]) (use all in simp)
    ultimately show ?thesis using p by simp
  qed
  then have "list_all (\<lambda>s. d s = extents c s) (uniform_dimensions P)" by (simp add: list_all_iff)
  moreover have "case max_contributions P of None \<Rightarrow> True | Some limit \<Rightarrow> length p < limit"
    using ok by (auto simp: admissible_def split: option.splits)
  moreover have "within_budgets (budgets P) d' = Inr True"
    using group_of_budgets [OF g(3) dims agg] ok by (simp add: admissible_def)
  ultimately show False using no by (cases "max_contributions P") simp_all
qed

lemma group_from_Cons:
  fixes P ids
  defines "rows \<equiv> (case max_contributions P of None \<Rightarrow> True | Some limit \<Rightarrow> length ids < limit)"
  assumes "group_from P (c # cs) admitted ids d = Inr gs"
  obtains d' w where "(if ids = [] then Inr (extents c) else merge_dimensions P d (extents c)) = Inr d'"
    "within_budgets (budgets P) d' = Inr w" "single_within (budgets P) c = Inr ()"
    "(if ids \<noteq> [] \<and> (\<not> list_all (\<lambda>s. d s = extents c s) (uniform_dimensions P) \<or> \<not> rows \<or> \<not> w)
      then group_from P cs (admitted @ [\<lparr>sequence_ids = ids, materialized_dimensions = d\<rparr>]) [sequence_id c] (extents c)
      else group_from P cs admitted (ids @ [sequence_id c]) d') = Inr gs"
proof -
  from assms(2) obtain d' w u where 1: "(if ids = [] then Inr (extents c) else merge_dimensions P d (extents c)) = Inr d'"
    "footprint_within_budgets P d' = Inr w" "validate_single_contribution P c = Inr u"
    "(if ids \<noteq> [] \<and> (\<not> (ids = [] \<or> list_all (\<lambda>s. d s = extents c s) (uniform_dimensions P)) \<or> \<not> rows \<or> \<not> w)
      then group_from P cs (admitted @ [\<lparr>sequence_ids = ids, materialized_dimensions = d\<rparr>]) [sequence_id c] (extents c)
      else group_from P cs admitted (ids @ [sequence_id c]) d') = Inr gs"
    unfolding group_from.simps Let_def res_bind_Inr rows_def by blast
  show thesis
    by (rule that [of d' w]) (use 1 in \<open>auto simp: footprint_within_budgets_def validate_single_contribution_def split: if_splits\<close>)
qed

lemma group_from_ok:
  assumes keys: "distinct (map fst (aggregations P))"
    and agg: "\<forall>s \<in> set (required_symbols P). map_of (aggregations P) s \<noteq> None"
    and uni: "\<forall>s \<in> set (uniform_dimensions P). map_of (aggregations P) s = Some Maximum" and lim: "max_contributions P \<noteq> Some 0"
    and "\<forall>c \<in> set (p @ cs). \<forall>s \<in> set (required_symbols P). extents c s \<noteq> None"
    and "group_from P cs admitted (map sequence_id p) d = Inr gs" "p @ cs \<noteq> []" "p = [] \<Longrightarrow> parts = []"
    and "p \<noteq> [] \<Longrightarrow> group_of P p (map sequence_id p) d \<and> admissible P p d"
    and "list_all2 (\<lambda>p g. group_of P p (sequence_ids g) (materialized_dimensions g) \<and> admissible P p (materialized_dimensions g)) parts admitted"
    and "successively (\<lambda>p q. stuck P p (hd q)) (parts @ (if p = [] then [] else [p]))"
  shows "\<exists>qs. concat qs = p @ cs \<and> successively (\<lambda>p q. stuck P p (hd q)) (parts @ qs) \<and>
    list_all2 (\<lambda>p g. group_of P p (sequence_ids g) (materialized_dimensions g) \<and> admissible P p (materialized_dimensions g)) (parts @ qs) gs"
  using assms(5-)
proof (induction cs arbitrary: admitted p d parts)
  case Nil
  then show ?case by (intro exI [of _ "[p]"]) (auto simp: list_all2_appendI)
next
  case (Cons c cs)
  let ?R = "\<lambda>p g. group_of P p (sequence_ids g) (materialized_dimensions g) \<and> admissible P p (materialized_dimensions g)"
  let ?rows = "case max_contributions P of None \<Rightarrow> True | Some limit \<Rightarrow> length p < limit"
  from group_from_Cons [OF Cons.prems(2)] obtain d' w where d': "(if p = [] then Inr (extents c) else merge_dimensions P d (extents c)) = Inr d'"
    and w: "within_budgets (budgets P) d' = Inr w" and single: "single_within (budgets P) c = Inr ()"
    and rest: "(if p \<noteq> [] \<and> (\<not> list_all (\<lambda>s. d s = extents c s) (uniform_dimensions P) \<or> \<not> ?rows \<or> \<not> w)
      then group_from P cs (admitted @ [\<lparr>sequence_ids = map sequence_id p, materialized_dimensions = d\<rparr>]) [sequence_id c] (extents c)
      else group_from P cs admitted (map sequence_id p @ [sequence_id c]) d') = Inr gs"
    unfolding length_map map_is_Nil_conv by blast
  have req: "\<forall>s \<in> set (required_symbols P). extents c s \<noteq> None" using Cons.prems(1) by simp
  have alone: "group_of P [c] [sequence_id c] (extents c)" "admissible P [c] (extents c)"
    using group_of_single [OF req] single lim by (auto simp: admissible_def single_within_ok split: option.split)
  have merged: "group_of P (p @ [c]) (map sequence_id (p @ [c])) d'" if "p \<noteq> []"
    using group_of_merge [OF keys _ that req, of "map sequence_id p" d d'] d' that Cons.prems(5) by simp
  show ?case
  proof (cases "p \<noteq> [] \<and> (\<not> list_all (\<lambda>s. d s = extents c s) (uniform_dimensions P) \<or> \<not> ?rows \<or> \<not> w)")
    case True
    have "stuck P p c"
      by (rule split_is_stuck [OF agg uni _ _ _ merged]) (use True w Cons.prems(1,5) in \<open>auto split: option.splits\<close>)
    then have "successively (\<lambda>p q. stuck P p (hd q)) ((parts @ [p]) @ [[c]])"
      using Cons.prems(7) True by (simp add: successively_append_iff)
    moreover have "group_from P cs (admitted @ [\<lparr>sequence_ids = map sequence_id p, materialized_dimensions = d\<rparr>]) (map sequence_id [c]) (extents c) = Inr gs"
      using rest unfolding if_P [OF True] by simp
    ultimately obtain qs where "concat qs = [c] @ cs" "successively (\<lambda>p q. stuck P p (hd q)) ((parts @ [p]) @ qs)" "list_all2 ?R ((parts @ [p]) @ qs) gs"
      using Cons.IH [of "[c]" "admitted @ [\<lparr>sequence_ids = map sequence_id p, materialized_dimensions = d\<rparr>]" "extents c" "parts @ [p]"]
        Cons.prems(1,5,6) True alone by (auto simp: list_all2_appendI)
    then show ?thesis by (intro exI [of _ "p # qs"]) simp
  next
    case False
    have "group_from P cs admitted (map sequence_id (p @ [c])) d' = Inr gs" using rest unfolding if_not_P [OF False] by simp
    moreover have "group_of P (p @ [c]) (map sequence_id (p @ [c])) d' \<and> admissible P (p @ [c]) d'"
    proof (cases "p = []")
      case True
      with alone d' show ?thesis by simp
    next
      case p: False
      from Cons.prems(5) p have g: "group_of P p (map sequence_id p) d" "admissible P p d" by simp_all
      have same: "extents x s = extents (hd p) s" if s: "s \<in> set (uniform_dimensions P)" and x: "x \<in> set (p @ [c])" for s x
      proof (cases "x \<in> set p")
        case True
        then show ?thesis by (rule admissible_uniform [OF g(2) s])
      next
        case xc: False
        have "d s = extents (hd p) s" by (rule uniform_extent [OF uni _ g s]) (use Cons.prems(1) in simp)
        moreover have "d s = extents c s" using False p s by (simp add: list_all_iff)
        ultimately show ?thesis using x xc by simp
      qed
      have rows: "case max_contributions P of None \<Rightarrow> True | Some limit \<Rightarrow> length (p @ [c]) \<le> limit" and "w"
        using False p by (auto split: option.splits)
      then have fits: "within_budgets (budgets P) d' = Inr True" using w by simp
      have "admissible P (p @ [c]) d'" unfolding admissible_def hd_append2 [OF p] using same rows fits by blast
      with merged [OF p] show ?thesis by simp
    qed
    moreover have "successively (\<lambda>p q. stuck P p (hd q)) (parts @ [p @ [c]])"
      using Cons.prems(3,4,7) by (cases "p = []") (auto simp: successively_append_iff)
    ultimately show ?thesis using Cons.IH [of "p @ [c]" admitted d' parts] Cons.prems(1,4,6) by auto
  qed
qed

section \<open>Groups are admissible and maximal\<close>


definition demo_policy :: BatchPolicy where
  "demo_policy = \<lparr>max_contributions = Some 2, aggregations = [(''n'', Sum), (''pad'', Maximum)],
     uniform_dimensions = [''pad''], budgets = [\<lparr>dimensions = [''n'', ''pad''], max_total = 40\<rparr>]\<rparr>"

definition demo_contribution :: "nat \<Rightarrow> nat \<Rightarrow> nat \<Rightarrow> BatchContribution" where
  "demo_contribution i n m = \<lparr>sequence_id = i, extents = [''n'' \<mapsto> n, ''pad'' \<mapsto> m]\<rparr>"


text \<open>
  Nothing rejects a uniform symbol that is declared as summed. The comparison is then made with
  the running sum, and requests of extents 5, 5 and 10 end up in one \<open>uniform\<close> group.
\<close>

theorem summed_uniform_symbol_mixes_extents:
  "case group_batch_contributions
      \<lparr>max_contributions = None, aggregations = [(''w'', Sum)], uniform_dimensions = [''w''], budgets = []\<rparr>
      [\<lparr>sequence_id = 1, extents = [''w'' \<mapsto> 5]\<rparr>, \<lparr>sequence_id = 2, extents = [''w'' \<mapsto> 5]\<rparr>, \<lparr>sequence_id = 3, extents = [''w'' \<mapsto> 10]\<rparr>] of
     Inl _ \<Rightarrow> False | Inr gs \<Rightarrow> map sequence_ids gs = [[1, 2, 3]]"
  by code_simp

end
