(* ===== verification/ResourceGovernor.thy ===== *)
theory ResourceGovernor
  imports AdmissionBudget
begin

text \<open>
  The resource governor of \<open>onnx-genai-scheduler/src/governor.rs\<close>: it resolves the user's
  ceilings against the capacities the platform reports, derives the page and token budget of
  the KV cache, and drives the byte budget the schedulers share. A capacity provider may
  answer differently each time; an operation takes the answers it got during that call.
  Ceilings given as fractions go through f32 and f64 arithmetic, which is written out: a
  finite f32 is an integral multiple of \<open>2 ^ -149\<close>, and an f64 result is rounded to 53
  significant bits, to even on a tie (no value here leaves the exponent range).
\<close>

section \<open>Floating point fractions\<close>

fun bit_length :: "nat \<Rightarrow> nat" where
  "bit_length n = (if n = 0 then 0 else bit_length (n div 2) + 1)"

definition round_f64 :: "nat \<Rightarrow> nat" where
  "round_f64 n =
     (let q = 2 ^ (bit_length n - 53); m = n div q; r = n mod q in
      (if 2 * r > q \<or> (2 * r = q \<and> odd m) then m + 1 else m) * q)"

datatype f32 = Finite int | NonFinite

definition f32_in_unit_interval :: "f32 \<Rightarrow> bool" where
  "f32_in_unit_interval x = (case x of Finite k \<Rightarrow> 0 \<le> k \<and> k \<le> 2 ^ 149 | NonFinite \<Rightarrow> False)"

text \<open>The literals 0.90, 0.25 and 1.0 as f32 values.\<close>

definition DEFAULT_VRAM_FRACTION :: f32 where
  "DEFAULT_VRAM_FRACTION = Finite (15099494 * 2 ^ 125)"

definition DEFAULT_HOST_RAM_FRACTION :: f32 where
  "DEFAULT_HOST_RAM_FRACTION = Finite (2 ^ 147)"

definition DEFAULT_DISK_FRACTION :: f32 where
  "DEFAULT_DISK_FRACTION = Finite (2 ^ 149)"

text \<open>\<open>((total as f64) * f64::from(fraction)).round() as u64\<close>, the cast saturating; a fraction
  outside the unit interval never gets here.\<close>

definition resolve_fraction :: "f32 \<Rightarrow> nat \<Rightarrow> nat" where
  "resolve_fraction fraction total_bytes =
     (case fraction of
        Finite k \<Rightarrow> min u64_max ((round_f64 (round_f64 total_bytes * nat k) + 2 ^ 148) div 2 ^ 149)
      | NonFinite \<Rightarrow> 0)"

section \<open>Limits, capacities and budgets\<close>

datatype ResourceLimit = LimitBytes nat | LimitFraction f32 | LimitAuto

record ResourceLimits =
  vram_limit :: ResourceLimit
  host_ram_limit :: ResourceLimit
  disk_spill_limit :: "ResourceLimit option"

definition resource_limits_default :: ResourceLimits where
  "resource_limits_default =
     \<lparr>vram_limit = LimitFraction DEFAULT_VRAM_FRACTION,
      host_ram_limit = LimitFraction DEFAULT_HOST_RAM_FRACTION, disk_spill_limit = None\<rparr>"

record CapacityProvider =
  total_bytes :: "nat option"
  free_bytes :: "nat option"

definition fixed_capacity :: "nat \<Rightarrow> nat \<Rightarrow> CapacityProvider" where
  "fixed_capacity t f = \<lparr>total_bytes = Some t, free_bytes = Some f\<rparr>"

definition unknown_capacity :: CapacityProvider where
  "unknown_capacity = \<lparr>total_bytes = None, free_bytes = None\<rparr>"

record CapacityProviders =
  cap_vram :: CapacityProvider
  cap_host_ram :: CapacityProvider
  cap_disk_spill :: "CapacityProvider option"

record VramBreakdown =
  model_weights_bytes :: nat
  activations_bytes :: "nat option"
  ort_overhead_bytes :: "nat option"

definition unwrap_or :: "nat option \<Rightarrow> nat \<Rightarrow> nat" where
  "unwrap_or x d = (case x of None \<Rightarrow> d | Some v \<Rightarrow> v)"

definition breakdown_reserved_bytes :: "VramBreakdown \<Rightarrow> nat option" where
  "breakdown_reserved_bytes b =
     Option.bind (checked_add_u64 (model_weights_bytes b) (unwrap_or (activations_bytes b) 0))
       (\<lambda>s. checked_add_u64 s (unwrap_or (ort_overhead_bytes b) 0))"

definition unmeasured :: "VramBreakdown \<Rightarrow> string list" where
  "unmeasured b =
     (if activations_bytes b = None then [''activations''] else []) @
     (if ort_overhead_bytes b = None then [''runtime overhead''] else [])"

record ModelKvConfig =
  page_size_bytes :: "nat option"
  tokens_per_page :: nat
  page_geometry_required :: bool

definition kv_config_known :: "nat \<Rightarrow> nat \<Rightarrow> ModelKvConfig" where
  "kv_config_known p t = \<lparr>page_size_bytes = Some p, tokens_per_page = t, page_geometry_required = True\<rparr>"

definition kv_config_unknown :: "nat \<Rightarrow> ModelKvConfig" where
  "kv_config_unknown t = \<lparr>page_size_bytes = None, tokens_per_page = t, page_geometry_required = True\<rparr>"

definition no_paged_cache :: "nat \<Rightarrow> ModelKvConfig" where
  "no_paged_cache t = \<lparr>page_size_bytes = None, tokens_per_page = t, page_geometry_required = False\<rparr>"

definition bytes_per_token :: "ModelKvConfig \<Rightarrow> nat option" where
  "bytes_per_token c =
     (if tokens_per_page c = 0 then None
      else map_option (\<lambda>p. div_ceil p (tokens_per_page c)) (page_size_bytes c))"

definition pages_for_bytes :: "ModelKvConfig \<Rightarrow> nat \<Rightarrow> nat option" where
  "pages_for_bytes c bytes =
     map_option (\<lambda>p. if p = 0 then 0 else bytes div p) (page_size_bytes c)"

definition tokens_for_pages :: "ModelKvConfig \<Rightarrow> nat \<Rightarrow> nat option" where
  "tokens_for_pages c pages =
     (if pages * tokens_per_page c \<le> u64_max then Some (pages * tokens_per_page c) else None)"

record DerivedBudget =
  kv_bytes :: nat
  total_pages :: nat
  max_total_tokens :: nat
  reserved_bytes :: nat
  reservation_applied :: bool

record ResolvedLimits =
  vram_bytes :: "nat option"
  host_ram_bytes :: nat
  disk_spill_bytes :: "nat option"

datatype EvictionTier = BackgroundKv | PausedStandardToWarmOrCold | RunningStandard | InteractiveLast

definition EVICTION_ORDER :: "EvictionTier list" where
  "EVICTION_ORDER = [BackgroundKv, PausedStandardToWarmOrCold, RunningStandard, InteractiveLast]"

text \<open>The sentence an error carries, with the numbers it shows.\<close>

datatype Reason =
    FixedReservations nat
  | ZeroBytePage
  | RemainingTooSmall nat nat
  | BudgetTooSmall nat nat
  | ReservationsUnrepresentable
  | OnePageUnrepresentable
  | CeilingBelowReservations
  | TokensUnrepresentable nat nat
  | Overflowed nat nat
  | Underflowed nat nat
  | AboutRequest string nat
  | FreeMismatch nat nat
  | UsedAboveCapacity nat nat
  | Message string

datatype ResourceError =
    CannotSatisfyLoweredLimit nat nat Reason
  | InvalidFraction string f32
  | MissingDiskCapacityProvider
  | UnmeasuredCapacity string
  | UnknownKvGeometry nat
  | BudgetArithmeticOverflow string Reason
  | InvalidHostRequest string
  | HostQuotaDenied nat nat
  | HostMailboxBackpressure nat
  | HostPressureTimeout nat
  | HostReconfigurationInvalidated nat nat nat
  | HostLedgerInvariant string Reason

section \<open>Resolving limits\<close>

definition resolve_limit :: "ResourceLimit \<Rightarrow> CapacityProvider \<Rightarrow> string \<Rightarrow> ResourceError + nat option" where
  "resolve_limit limit capacity tier =
     (let default_fraction =
        (if tier = ''vram'' then DEFAULT_VRAM_FRACTION
         else if tier = ''host RAM'' then DEFAULT_HOST_RAM_FRACTION
         else DEFAULT_DISK_FRACTION) in
      case limit of
        LimitBytes bytes \<Rightarrow> Inr (Some bytes)
      | LimitAuto \<Rightarrow> Inr (map_option (resolve_fraction default_fraction) (total_bytes capacity))
      | LimitFraction fraction \<Rightarrow>
          if f32_in_unit_interval fraction
          then Inr (map_option (resolve_fraction fraction) (total_bytes capacity))
          else Inl (InvalidFraction tier fraction))"

definition resolve_disk :: "ResourceLimits \<Rightarrow> CapacityProviders \<Rightarrow> ResourceError + nat option" where
  "resolve_disk limits capacities =
     (case disk_spill_limit limits of
        None \<Rightarrow> Inr None
      | Some limit \<Rightarrow>
          res_bind (ok_or (cap_disk_spill capacities) MissingDiskCapacityProvider) (\<lambda>capacity.
          res_bind (resolve_limit limit capacity ''disk spill'') (\<lambda>bytes.
          res_bind (ok_or bytes (UnmeasuredCapacity ''disk spill'')) (\<lambda>b. Inr (Some b)))))"

definition resolve_limits :: "ResourceLimits \<Rightarrow> CapacityProviders \<Rightarrow> ResourceError + ResolvedLimits" where
  "resolve_limits limits capacities =
     res_bind (resolve_disk limits capacities) (\<lambda>disk.
     res_bind (resolve_limit (vram_limit limits) (cap_vram capacities) ''vram'') (\<lambda>vram.
     res_bind (resolve_limit (host_ram_limit limits) (cap_host_ram capacities) ''host RAM'') (\<lambda>host.
     res_bind (ok_or host (UnmeasuredCapacity ''host RAM'')) (\<lambda>host_bytes.
     Inr \<lparr>vram_bytes = vram, host_ram_bytes = host_bytes, disk_spill_bytes = disk\<rparr>))))"

section \<open>Deriving the KV budget\<close>

definition checked_sub_reserved :: "nat \<Rightarrow> nat \<Rightarrow> ResourceError + nat" where
  "checked_sub_reserved vram fixed =
     (if fixed \<le> vram then Inr (vram - fixed)
      else Inl (BudgetArithmeticOverflow ''subtracting fixed VRAM reservations from the ceiling'' CeilingBelowReservations))"

definition checked_one_page :: "nat \<Rightarrow> nat \<Rightarrow> ResourceError + nat" where
  "checked_one_page fixed page =
     ok_or (checked_add_u64 fixed page)
       (BudgetArithmeticOverflow ''adding one KV page to the fixed VRAM reservations'' OnePageUnrepresentable)"

definition derive_unpaged :: "nat \<Rightarrow> nat \<Rightarrow> ResourceError + DerivedBudget" where
  "derive_unpaged vram fixed =
     (case (if vram < fixed \<and> fixed > 0 then (0, False) else (fixed, fixed > 0)) of
        (fixed', applied) \<Rightarrow>
          res_bind (checked_sub_reserved vram fixed') (\<lambda>kv.
          Inr \<lparr>kv_bytes = kv, total_pages = 0, max_total_tokens = 0,
               reserved_bytes = fixed', reservation_applied = applied\<rparr>))"

definition refuse_lowered :: "nat \<Rightarrow> nat \<Rightarrow> nat \<Rightarrow> nat \<Rightarrow> ResourceError + 'a" where
  "refuse_lowered vram fixed page minimum =
     res_bind
       (if vram < fixed then Inr (FixedReservations fixed)
        else if page = 0 then Inr ZeroBytePage
        else res_bind (checked_sub_reserved vram fixed) (\<lambda>remaining. Inr (RemainingTooSmall remaining page)))
       (\<lambda>reason. Inl (CannotSatisfyLoweredLimit vram minimum reason))"

definition derive_paged :: "nat \<Rightarrow> nat \<Rightarrow> nat \<Rightarrow> ModelKvConfig \<Rightarrow> ResourceError + DerivedBudget" where
  "derive_paged vram fixed page config =
     res_bind (checked_one_page fixed page) (\<lambda>minimum.
     case (if page > 0 \<and> vram < minimum \<and> fixed > 0 then (0, False) else (fixed, fixed > 0)) of
       (fixed', applied) \<Rightarrow>
         res_bind (checked_one_page fixed' page) (\<lambda>minimum'.
         if page = 0 \<or> vram < minimum' then refuse_lowered vram fixed' page minimum'
         else
           res_bind (checked_sub_reserved vram fixed') (\<lambda>kv.
           res_bind (ok_or (pages_for_bytes config kv) (UnknownKvGeometry (tokens_per_page config))) (\<lambda>pages.
           if pages = 0 then Inl (CannotSatisfyLoweredLimit vram minimum' (BudgetTooSmall kv page))
           else
             res_bind (ok_or (tokens_for_pages config pages)
               (BudgetArithmeticOverflow ''multiplying KV pages by tokens per page''
                 (TokensUnrepresentable pages (tokens_per_page config)))) (\<lambda>tokens'.
             Inr \<lparr>kv_bytes = kv, total_pages = pages, max_total_tokens = tokens',
                  reserved_bytes = fixed', reservation_applied = applied\<rparr>)))))"

definition derive_kv_budget :: "nat option \<Rightarrow> VramBreakdown \<Rightarrow> ModelKvConfig \<Rightarrow> ResourceError + DerivedBudget" where
  "derive_kv_budget resolved_vram_bytes breakdown kv_config =
     res_bind (ok_or (breakdown_reserved_bytes breakdown)
       (BudgetArithmeticOverflow ''summing model weights, activations, and runtime overhead'' ReservationsUnrepresentable))
     (\<lambda>fixed.
       case resolved_vram_bytes of
         None \<Rightarrow>
           if page_geometry_required kv_config \<and> page_size_bytes kv_config = None
           then Inl (UnknownKvGeometry (tokens_per_page kv_config))
           else Inr \<lparr>kv_bytes = 0, total_pages = 0, max_total_tokens = 0,
                     reserved_bytes = fixed, reservation_applied = False\<rparr>
       | Some vram \<Rightarrow>
           (case page_size_bytes kv_config of
              None \<Rightarrow>
                if page_geometry_required kv_config then Inl (UnknownKvGeometry (tokens_per_page kv_config))
                else derive_unpaged vram fixed
            | Some page \<Rightarrow> derive_paged vram fixed page kv_config))"

section \<open>The governor\<close>

definition kv_hot_tier_ceiling :: "ResolvedLimits \<Rightarrow> nat option" where
  "kv_hot_tier_ceiling resolved =
     (case vram_bytes resolved of Some v \<Rightarrow> Some v | None \<Rightarrow> Some (host_ram_bytes resolved))"

record ResourceGovernor =
  breakdown :: VramBreakdown
  kv_config :: ModelKvConfig
  byte_budget :: ByteBudget
  configured_limits :: ResourceLimits
  resolved_limits :: ResolvedLimits
  derived_budget :: DerivedBudget

definition governor_new ::
  "ResourceLimits \<Rightarrow> CapacityProviders \<Rightarrow> VramBreakdown \<Rightarrow> ModelKvConfig \<Rightarrow> ResourceError + ResourceGovernor" where
  "governor_new limits capacities bd config =
     res_bind (resolve_limits limits capacities) (\<lambda>resolved.
     res_bind (derive_kv_budget (kv_hot_tier_ceiling resolved) bd config) (\<lambda>derived.
     Inr \<lparr>breakdown = bd, kv_config = config, byte_budget = budget_new (kv_bytes derived),
          configured_limits = limits, resolved_limits = resolved, derived_budget = derived\<rparr>))"

record GovernorReconfigureOutcome =
  old_limits :: ResolvedLimits
  new_limits :: ResolvedLimits
  outcome_derived :: DerivedBudget
  outcome_byte_budget :: ReconfigureOutcome
  overage_bytes :: nat
  eviction_order :: "EvictionTier list"

definition reconfigure_locked ::
  "ResourceGovernor \<Rightarrow> CapacityProviders \<Rightarrow> ResourceLimits \<Rightarrow> ResourceGovernor \<times> (ResourceError + GovernorReconfigureOutcome)" where
  "reconfigure_locked g capacities limits =
     st_lift g (resolve_limits limits capacities) (\<lambda>resolved.
     st_lift g (derive_kv_budget (kv_hot_tier_ceiling resolved) (breakdown g) (kv_config g)) (\<lambda>derived.
     case reconfigure (byte_budget g) (kv_bytes derived) of
       (bb, outcome) \<Rightarrow>
         (g\<lparr>byte_budget := bb, configured_limits := limits, resolved_limits := resolved, derived_budget := derived\<rparr>,
          Inr \<lparr>old_limits = resolved_limits g, new_limits = resolved, outcome_derived = derived,
               outcome_byte_budget = outcome, overage_bytes = overage outcome,
               eviction_order = (if overage outcome = 0 then [] else EVICTION_ORDER)\<rparr>)))"

definition set_vram_limit ::
  "ResourceGovernor \<Rightarrow> CapacityProviders \<Rightarrow> ResourceLimit \<Rightarrow> ResourceGovernor \<times> (ResourceError + GovernorReconfigureOutcome)" where
  "set_vram_limit g capacities limit = reconfigure_locked g capacities ((configured_limits g)\<lparr>vram_limit := limit\<rparr>)"

definition set_host_ram_limit ::
  "ResourceGovernor \<Rightarrow> CapacityProviders \<Rightarrow> ResourceLimit \<Rightarrow> ResourceGovernor \<times> (ResourceError + GovernorReconfigureOutcome)" where
  "set_host_ram_limit g capacities limit = reconfigure_locked g capacities ((configured_limits g)\<lparr>host_ram_limit := limit\<rparr>)"

definition set_disk_spill_limit ::
  "ResourceGovernor \<Rightarrow> CapacityProviders \<Rightarrow> ResourceLimit option \<Rightarrow> ResourceGovernor \<times> (ResourceError + GovernorReconfigureOutcome)" where
  "set_disk_spill_limit g capacities limit = reconfigure_locked g capacities ((configured_limits g)\<lparr>disk_spill_limit := limit\<rparr>)"

record TierSnapshot =
  tier_used :: nat
  tier_limit :: nat
  tier_headroom :: nat

definition tier_snapshot_new :: "nat \<Rightarrow> nat \<Rightarrow> TierSnapshot" where
  "tier_snapshot_new used limit = \<lparr>tier_used = used, tier_limit = limit, tier_headroom = limit - used\<rparr>"

definition capacity_snapshot :: "CapacityProvider \<Rightarrow> nat \<Rightarrow> TierSnapshot" where
  "capacity_snapshot capacity limit =
     tier_snapshot_new
       (case (total_bytes capacity, free_bytes capacity) of
          (Some t, Some f) \<Rightarrow> t - min f t
        | _ \<Rightarrow> 0) limit"

record GovernorSnapshot =
  gs_configured :: ResourceLimits
  gs_resolved :: ResolvedLimits
  gs_derived :: DerivedBudget
  gs_breakdown :: VramBreakdown
  gs_vram :: TierSnapshot
  gs_host_ram :: TierSnapshot
  gs_disk_spill :: "TierSnapshot option"

definition governor_snapshot :: "ResourceGovernor \<Rightarrow> CapacityProviders \<Rightarrow> ResourceGovernor \<times> GovernorSnapshot" where
  "governor_snapshot g capacities =
     (case budget_snapshot (byte_budget g) of
        (bb, vram) \<Rightarrow>
          (g\<lparr>byte_budget := bb\<rparr>,
           \<lparr>gs_configured = configured_limits g, gs_resolved = resolved_limits g, gs_derived = derived_budget g,
            gs_breakdown = breakdown g, gs_vram = tier_snapshot_new (snap_used vram) (snap_limit vram),
            gs_host_ram = capacity_snapshot (cap_host_ram capacities) (host_ram_bytes (resolved_limits g)),
            gs_disk_spill =
              (case cap_disk_spill capacities of
                 None \<Rightarrow> None
               | Some c \<Rightarrow> map_option (capacity_snapshot c) (disk_spill_bytes (resolved_limits g)))\<rparr>))"

section \<open>Rounding\<close>

declare bit_length.simps [simp del]

lemma bit_length_0 [simp]: "bit_length 0 = 0"
  by (simp add: bit_length.simps)

lemma bit_length_bounds: "0 < n \<Longrightarrow> 2 ^ (bit_length n - 1) \<le> n \<and> n < 2 ^ bit_length n"
proof (induction n rule: bit_length.induct)
  case (1 n)
  show ?case
  proof (cases "n div 2 = 0")
    case True
    with 1 have "n = 1" by linarith
    then show ?thesis by (simp add: bit_length.simps)
  next
    case False
    then have "0 < bit_length (n div 2)" by (simp add: bit_length.simps [of "n div 2"])
    then obtain m where m: "bit_length (n div 2) = Suc m" by (cases "bit_length (n div 2)") auto
    from 1 False have "2 ^ m \<le> n div 2" "n div 2 < 2 ^ Suc m" using m by auto
    then have "2 * 2 ^ m \<le> n" "n < 2 * (2 * 2 ^ m)" by simp_all
    with m 1 show ?thesis by (simp add: bit_length.simps [of n])
  qed
qed

text \<open>Rounding never crosses a number the format can represent.\<close>

lemma round_f64_le:
  assumes "n \<le> R" and q: "2 ^ (bit_length n - 53) dvd R"
  shows "round_f64 n \<le> R"
proof -
  define q where q_def: "q = (2::nat) ^ (bit_length n - 53)"
  have pos: "0 < q" by (simp add: q_def)
  from q obtain r where R: "R = q * r" by (auto simp: q_def)
  have le: "n div q \<le> r" using assms(1) R pos
    by (metis div_le_mono nonzero_mult_div_cancel_left less_not_refl)
  have "n mod q = 0" if "n div q = r"
  proof -
    have "q * r + n mod q = n" using that by (metis mult_div_mod_eq)
    with assms(1) R show ?thesis by simp
  qed
  then have "(if 2 * (n mod q) > q \<or> (2 * (n mod q) = q \<and> odd (n div q)) then n div q + 1 else n div q) \<le> r"
    using le pos by (cases "n div q = r") auto
  then show ?thesis by (simp add: round_f64_def Let_def R mult.commute flip: q_def)
qed

lemma round_f64_exact: "n \<le> 2 ^ 53 \<Longrightarrow> round_f64 n = n"
proof (cases "n = 0")
  case True
  then show ?thesis by (simp add: round_f64_def)
next
  case False
  assume n: "n \<le> 2 ^ 53"
  from False bit_length_bounds [of n] n have "(2::nat) ^ (bit_length n - 1) \<le> 2 ^ 53" by (meson le_trans not_gr_zero)
  then have "bit_length n - 1 \<le> 53" by (rule power_le_imp_le_exp [rotated]) simp
  then have "bit_length n \<le> 54" by linarith
  then consider "bit_length n \<le> 53" | "bit_length n = 54" by linarith
  then show ?thesis
  proof cases
    case 1
    then show ?thesis by (simp add: round_f64_def)
  next
    case 2
    with False bit_length_bounds [of n] n have "n = 2 ^ 53" by simp
    with 2 show ?thesis by (simp add: round_f64_def)
  qed
qed

lemma bit_length_dvd:
  assumes "0 < n" "n \<le> t * 2 ^ 149" "t \<le> 2 ^ 53"
  shows "2 ^ (bit_length n - 53) dvd t * (2 ^ 149 :: nat)"
proof -
  have low: "2 ^ (bit_length n - 1) \<le> t * (2 ^ 149 :: nat)" using bit_length_bounds [of n] assms by simp
  also have "\<dots> \<le> 2 ^ 53 * 2 ^ 149" using assms(3) by simp
  also have "\<dots> = 2 ^ 202" by (simp flip: power_add)
  finally have "bit_length n - 1 \<le> 202" by (rule power_le_imp_le_exp [rotated]) simp
  then have "bit_length n \<le> 203" by linarith
  then consider "bit_length n - 53 \<le> 149" | "bit_length n = 203" by linarith
  then show ?thesis
  proof cases
    case 1
    then have "(2::nat) ^ (bit_length n - 53) dvd 2 ^ 149" by (rule le_imp_power_dvd)
    then show ?thesis by simp
  next
    case 2
    with low have "(2::nat) ^ 53 * 2 ^ 149 \<le> t * 2 ^ 149" by simp
    then have "2 ^ 53 \<le> t" by simp
    with assms(3) have "t = 2 ^ 53" by simp
    with 2 show ?thesis by (simp add: le_imp_power_dvd flip: power_add)
  qed
qed

text \<open>A fraction of a capacity up to \<open>2 ^ 53\<close> bytes never exceeds the capacity.\<close>

lemma resolve_fraction_le:
  assumes f: "f32_in_unit_interval fraction" and t: "t \<le> 2 ^ 53"
  shows "resolve_fraction fraction t \<le> t"
proof -
  from f obtain k where k: "fraction = Finite k" "0 \<le> k" "k \<le> 2 ^ 149"
    by (auto simp: f32_in_unit_interval_def split: f32.splits)
  have "nat k \<le> nat (2 ^ 149)" using k by (simp add: nat_mono)
  then have nk: "nat k \<le> 2 ^ 149" by (simp add: nat_power_eq)
  then have "t * nat k \<le> t * 2 ^ 149" by simp
  then have "round_f64 (t * nat k) \<le> t * 2 ^ 149"
    using bit_length_dvd [OF _ _ t] by (cases "t * nat k = 0") (auto intro: round_f64_le simp: round_f64_exact)
  then have "(round_f64 (t * nat k) + 2 ^ 148) div 2 ^ 149 \<le> (t * 2 ^ 149 + 2 ^ 148) div 2 ^ 149"
    by (intro div_le_mono) simp
  also have "\<dots> = t" by simp
  finally show ?thesis by (simp add: resolve_fraction_def k round_f64_exact [OF t])
qed

lemma default_fractions [simp]:
  "f32_in_unit_interval DEFAULT_VRAM_FRACTION" "f32_in_unit_interval DEFAULT_HOST_RAM_FRACTION" "f32_in_unit_interval DEFAULT_DISK_FRACTION"
  by (simp_all add: f32_in_unit_interval_def DEFAULT_VRAM_FRACTION_def DEFAULT_HOST_RAM_FRACTION_def DEFAULT_DISK_FRACTION_def)

text \<open>What a resolved ceiling means: the configured bytes, or at most the measured capacity.\<close>

fun ceiling_respects :: "ResourceLimit \<Rightarrow> CapacityProvider \<Rightarrow> nat \<Rightarrow> bool" where
  "ceiling_respects (LimitBytes b) capacity n \<longleftrightarrow> n = b"
| "ceiling_respects _ capacity n \<longleftrightarrow> (\<exists>t. total_bytes capacity = Some t \<and> (t \<le> 2 ^ 53 \<longrightarrow> n \<le> t))"

lemma resolve_limit_respects: "resolve_limit limit capacity tier = Inr (Some n) \<Longrightarrow> ceiling_respects limit capacity n"
  by (cases limit) (auto simp: resolve_limit_def Let_def resolve_fraction_le split: if_splits)

section \<open>What a derived budget promises\<close>

text \<open>The budget derived for a ceiling of \<open>vram\<close> bytes: the reservation and the KV bytes make up
  the ceiling exactly; the reservation is the measured fixed consumers, or nothing when they
  leave no room (for a page, if the cache is paged); and the pages are as many as fit.\<close>

definition sized_for :: "nat \<Rightarrow> VramBreakdown \<Rightarrow> ModelKvConfig \<Rightarrow> DerivedBudget \<Rightarrow> bool" where
  "sized_for vram bd config d \<longleftrightarrow>
     reserved_bytes d + kv_bytes d = vram \<and>
     (\<exists>fixed. breakdown_reserved_bytes bd = Some fixed \<and>
       reserved_bytes d = (if fixed + unwrap_or (page_size_bytes config) 0 \<le> vram then fixed else 0) \<and>
       reservation_applied d = (0 < reserved_bytes d)) \<and>
     (case page_size_bytes config of
        None \<Rightarrow> \<not> page_geometry_required config \<and> total_pages d = 0 \<and> max_total_tokens d = 0
      | Some page \<Rightarrow>
          0 < page \<and> 0 < total_pages d \<and> total_pages d * page \<le> kv_bytes d \<and>
          kv_bytes d < (total_pages d + 1) * page \<and> max_total_tokens d = total_pages d * tokens_per_page config)"

lemma unwrap_or_simps [simp]: "unwrap_or None d = d" "unwrap_or (Some v) d = v"
  by (simp_all add: unwrap_or_def)

lemma checked_sub_reserved_Inr [simp]: "checked_sub_reserved vram fixed = Inr kv \<longleftrightarrow> fixed \<le> vram \<and> kv = vram - fixed"
  by (auto simp: checked_sub_reserved_def)

lemma checked_one_page_Inr [simp]: "checked_one_page fixed page = Inr m \<longleftrightarrow> m = fixed + page \<and> fixed + page \<le> u64_max"
  by (simp add: checked_one_page_def)

lemma refuse_lowered_not_Inr [simp]: "refuse_lowered vram fixed page least \<noteq> Inr d"
  by (simp add: refuse_lowered_def)

lemma derive_unpaged_sized:
  assumes "derive_unpaged vram fixed = Inr d" "breakdown_reserved_bytes bd = Some fixed"
    and "page_size_bytes config = None" "\<not> page_geometry_required config"
  shows "sized_for vram bd config d"
  using assms by (auto simp: derive_unpaged_def sized_for_def split: if_splits)

lemma derive_paged_sized:
  assumes d: "derive_paged vram fixed page config = Inr d" and bd: "breakdown_reserved_bytes bd = Some fixed"
    and page: "page_size_bytes config = Some page"
  shows "sized_for vram bd config d"
proof -
  define fixed' where f: "fixed' = (if page > 0 \<and> vram < fixed + page \<and> fixed > 0 then 0 else fixed)"
  from d page have p: "0 < page" "fixed' + page \<le> vram" "kv_bytes d = vram - fixed'" "total_pages d = (vram - fixed') div page"
    "max_total_tokens d = (vram - fixed') div page * tokens_per_page config" "reserved_bytes d = fixed'" "reservation_applied d = (0 < fixed')"
    by (auto simp: derive_paged_def f pages_for_bytes_def tokens_for_pages_def split: if_splits)
  have "0 < (vram - fixed') div page" using p by (simp add: div_greater_zero_iff)
  moreover have "(vram - fixed') div page * page \<le> vram - fixed'" by simp
  moreover have "vram - fixed' < ((vram - fixed') div page + 1) * page"
    using p(1) dividend_less_div_times [of page "vram - fixed'"] by (simp add: mult.commute)
  moreover have "fixed' = (if fixed + page \<le> vram then fixed else 0)" using p(1,2) by (auto simp: f)
  ultimately show ?thesis using p bd page by (simp add: sized_for_def)
qed

lemma derive_kv_budget_sized:
  assumes "derive_kv_budget (Some vram) bd config = Inr d"
  shows "sized_for vram bd config d"
  using assms by (cases "page_size_bytes config")
    (auto simp: derive_kv_budget_def split: if_splits intro: derive_unpaged_sized derive_paged_sized)

text \<open>A paged model starts exactly when one page fits the ceiling and the numbers are representable.\<close>

lemma derive_paged_starts_iff:
  assumes "breakdown_reserved_bytes bd = Some fixed" "page_size_bytes config = Some page" "fixed + page \<le> u64_max"
  shows "is_ok (derive_kv_budget (Some vram) bd config) \<longleftrightarrow>
    0 < page \<and> page \<le> vram \<and>
    (vram - (if fixed + page \<le> vram then fixed else 0)) div page * tokens_per_page config \<le> u64_max"
proof -
  have fits: "checked_one_page fixed page = Inr (fixed + page)" "checked_one_page 0 page = Inr page"
    using assms(3) by simp_all
  show ?thesis
  proof (cases "0 < page \<and> page \<le> vram")
    case False
    have "\<not> is_ok (derive_paged vram fixed page config)"
      using False fits by (cases "derive_paged vram fixed page config") (auto simp: derive_paged_def split: if_splits)
    with False assms show ?thesis by (auto simp: derive_kv_budget_def ok_or_def)
  next
    case True
    define fixed' where f: "fixed' = (if fixed + page \<le> vram then fixed else 0)"
    have g: "(if page > 0 \<and> vram < fixed + page \<and> fixed > 0 then (0, False) else (fixed, fixed > 0)) = (fixed', 0 < fixed')"
      using True by (auto simp: f)
    have one: "checked_one_page fixed' page = Inr (fixed' + page)" "fixed' + page \<le> vram" using True fits by (auto simp: f)
    then have sub: "checked_sub_reserved vram fixed' = Inr (vram - fixed')" by simp
    have pos: "(vram - fixed') div page > 0" using one True by (simp add: div_greater_zero_iff)
    have "is_ok (derive_paged vram fixed page config) \<longleftrightarrow> (vram - fixed') div page * tokens_per_page config \<le> u64_max"
      unfolding derive_paged_def fits(1) res_bind.simps g prod.case one(1) sub
      using True one(2) pos assms(2) by (simp add: pages_for_bytes_def tokens_for_pages_def ok_or_def)
    with True assms show ?thesis by (simp add: derive_kv_budget_def ok_or_def f)
  qed
qed

definition limits_respect :: "ResourceLimits \<Rightarrow> CapacityProviders \<Rightarrow> ResolvedLimits \<Rightarrow> bool" where
  "limits_respect limits capacities r \<longleftrightarrow>
     (case vram_bytes r of
        None \<Rightarrow> total_bytes (cap_vram capacities) = None
      | Some n \<Rightarrow> ceiling_respects (vram_limit limits) (cap_vram capacities) n) \<and>
     ceiling_respects (host_ram_limit limits) (cap_host_ram capacities) (host_ram_bytes r)"

lemma resolve_limits_respect: "resolve_limits limits capacities = Inr r \<Longrightarrow> limits_respect limits capacities r"
  by (auto simp: resolve_limits_def limits_respect_def resolve_limit_respects split: option.split)
    (auto simp: resolve_limit_def Let_def split: ResourceLimit.splits if_splits)

lemma kv_hot_tier_ceiling_Some: "\<exists>v. kv_hot_tier_ceiling r = Some v"
  by (simp add: kv_hot_tier_ceiling_def split: option.split)

section \<open>Reachable governors\<close>

text \<open>
  A governor in use: limits are replaced through any of its four entry points, and schedulers
  reserve and release through their own handles of the budget, each with a live ceiling of its
  own or none.
\<close>

definition via_handle :: "(nat \<Rightarrow> nat) option \<Rightarrow> (ByteBudget \<Rightarrow> ByteBudget) \<Rightarrow> ByteBudget \<Rightarrow> ByteBudget" where
  "via_handle c f b = (f (b\<lparr>ceiling := c, readings := 0\<rparr>))\<lparr>ceiling := ceiling b, readings := readings b\<rparr>"

inductive governor_step :: "ResourceGovernor \<Rightarrow> ResourceGovernor \<Rightarrow> bool" where
  gs_reconfigure: "governor_step g (fst (reconfigure_locked g capacities limits))"
| gs_vram: "governor_step g (fst (set_vram_limit g capacities limit))"
| gs_host: "governor_step g (fst (set_host_ram_limit g capacities limit))"
| gs_disk: "governor_step g (fst (set_disk_spill_limit g capacities spill))"
| gs_snapshot: "governor_step g (fst (governor_snapshot g capacities))"
| gs_reserve: "governor_step g (g\<lparr>byte_budget := via_handle c (\<lambda>b. fst (try_reserve b n)) (byte_budget g)\<rparr>)"
| gs_reserve_at_most:
    "governor_step g (g\<lparr>byte_budget := via_handle c (\<lambda>b. fst (try_reserve_at_most b req least unit)) (byte_budget g)\<rparr>)"
| gs_release: "governor_step g (g\<lparr>byte_budget := via_handle c (\<lambda>b. budget_release b n) (byte_budget g)\<rparr>)"

inductive governor_reachable :: "ResourceGovernor \<Rightarrow> bool" where
  gr_new: "governor_new limits capacities bd config = Inr g \<Longrightarrow> governor_reachable g"
| gr_step: "governor_reachable g \<Longrightarrow> governor_step g g' \<Longrightarrow> governor_reachable g'"

definition governor_inv :: "ResourceGovernor \<Rightarrow> bool" where
  "governor_inv g \<longleftrightarrow>
     (\<exists>capacities. limits_respect (configured_limits g) capacities (resolved_limits g)) \<and>
     (\<exists>vram. kv_hot_tier_ceiling (resolved_limits g) = Some vram \<and>
        sized_for vram (breakdown g) (kv_config g) (derived_budget g)) \<and>
     bb_limit (byte_budget g) = kv_bytes (derived_budget g) \<and> ceiling (byte_budget g) = None"

lemma governor_new_inv: "governor_new limits capacities bd config = Inr g \<Longrightarrow> governor_inv g"
  using kv_hot_tier_ceiling_Some derive_kv_budget_sized resolve_limits_respect
  by (fastforce simp: governor_new_def governor_inv_def budget_new_def)

lemma reconfigure_locked_cases:
  obtains (refused) e where "reconfigure_locked g capacities limits = (g, Inl e)"
  | (replaced) resolved derived vram where
      "reconfigure_locked g capacities limits =
        (g\<lparr>byte_budget := fst (reconfigure (byte_budget g) (kv_bytes derived)), configured_limits := limits,
           resolved_limits := resolved, derived_budget := derived\<rparr>,
         Inr \<lparr>old_limits = resolved_limits g, new_limits = resolved, outcome_derived = derived,
               outcome_byte_budget = snd (reconfigure (byte_budget g) (kv_bytes derived)),
               overage_bytes = overage (snd (reconfigure (byte_budget g) (kv_bytes derived))),
               eviction_order = (if overage (snd (reconfigure (byte_budget g) (kv_bytes derived))) = 0 then [] else EVICTION_ORDER)\<rparr>)"
      "resolve_limits limits capacities = Inr resolved" "kv_hot_tier_ceiling resolved = Some vram"
      "sized_for vram (breakdown g) (kv_config g) derived"
proof (cases "resolve_limits limits capacities")
  case (Inl e)
  then show thesis by (intro refused) (simp add: reconfigure_locked_def st_lift_def)
next
  case (Inr resolved)
  obtain vram where v: "kv_hot_tier_ceiling resolved = Some vram" using kv_hot_tier_ceiling_Some by blast
  show thesis
  proof (cases "derive_kv_budget (Some vram) (breakdown g) (kv_config g)")
    case (Inl e)
    with Inr v show thesis by (intro refused) (simp add: reconfigure_locked_def st_lift_def)
  next
    case (Inr derived)
    then show thesis using \<open>resolve_limits limits capacities = Inr resolved\<close> v
      by (intro replaced [of derived resolved vram])
        (simp_all add: reconfigure_locked_def st_lift_def derive_kv_budget_sized case_prod_beta)
  qed
qed

lemma reconfigure_cell:
  "ceiling b = None \<Longrightarrow> reconfigure b n = (b\<lparr>bb_limit := n\<rparr>, \<lparr>old_limit = bb_limit b, new_limit = n, rc_used = bb_used b, overage = bb_used b - n\<rparr>)"
  by (simp add: reconfigure_def live_ceiling_def tighten_def)

lemma reconfigure_locked_inv: "governor_inv g \<Longrightarrow> governor_inv (fst (reconfigure_locked g capacities limits))"
  by (rule reconfigure_locked_cases [of g capacities limits])
    (auto simp: governor_inv_def reconfigure_cell dest: resolve_limits_respect)

lemma via_handle_limit [simp]:
  "bb_limit (via_handle c (\<lambda>b. fst (try_reserve b n)) b) = bb_limit b"
  "bb_limit (via_handle c (\<lambda>b. fst (try_reserve_at_most b req least unit)) b) = bb_limit b"
  "bb_limit (via_handle c (\<lambda>b. budget_release b n) b) = bb_limit b" "ceiling (via_handle c f b) = ceiling b"
  by (auto simp: via_handle_def budget_release_def try_reserve_def try_reserve_at_most_def live_ceiling_def Let_def split: option.split)

lemma governor_step_inv: "governor_step g g' \<Longrightarrow> governor_inv g \<Longrightarrow> governor_inv g'"
proof (induction rule: governor_step.induct)
  case (gs_snapshot g capacities)
  then show ?case
    by (simp add: governor_snapshot_def budget_snapshot_def live_ceiling_def governor_inv_def split: option.splits)
qed (auto simp: reconfigure_locked_inv set_vram_limit_def set_host_ram_limit_def set_disk_spill_limit_def, auto simp: governor_inv_def)

lemma governor_reachable_inv: "governor_reachable g \<Longrightarrow> governor_inv g"
  by (induction rule: governor_reachable.induct) (auto intro: governor_new_inv governor_step_inv)

lemma reconfigure_locked_outcome:
  assumes "ceiling (byte_budget g) = None"
  shows "case reconfigure_locked g capacities limits of
      (g', Inl e) \<Rightarrow> g' = g
    | (g', Inr out) \<Rightarrow>
        bb_used (byte_budget g') = bb_used (byte_budget g) \<and> configured_limits g' = limits \<and>
        overage_bytes out = bb_used (byte_budget g) - kv_bytes (derived_budget g') \<and>
        eviction_order out = (if overage_bytes out = 0 then [] else EVICTION_ORDER) \<and>
        (\<forall>released n. 0 < n \<longrightarrow> 0 < overage_bytes out \<longrightarrow> released \<le> overage_bytes out \<longrightarrow>
          \<not> is_ok (snd (try_reserve (budget_release (byte_budget g') released) n)))"
  by (rule reconfigure_locked_cases [of g capacities limits])
    (auto simp: reconfigure_cell assms try_reserve_def live_ceiling_def tighten_def budget_release_def Let_def)


definition demo_capacities :: CapacityProviders where
  "demo_capacities = \<lparr>cap_vram = unknown_capacity, cap_host_ram = fixed_capacity 4000 3000, cap_disk_spill = None\<rparr>"

definition demo_governor :: "ResourceError + ResourceGovernor" where
  "demo_governor = governor_new resource_limits_default demo_capacities
     \<lparr>model_weights_bytes = 500, activations_bytes = None, ort_overhead_bytes = Some 100\<rparr> (kv_config_known 64 16)"


text \<open>
  Above \<open>2 ^ 53\<close> bytes the conversion to f64 rounds to even, and a limit of the full fraction
  1.0 can exceed the capacity it was taken of.
\<close>

theorem full_fraction_exceeds_a_large_capacity:
  "resolve_limit (LimitFraction DEFAULT_DISK_FRACTION) (fixed_capacity (2 ^ 53 + 3) 0) ''disk spill'' = Inr (Some (2 ^ 53 + 4))"
  by (simp add: resolve_limit_def fixed_capacity_def f32_in_unit_interval_def DEFAULT_DISK_FRACTION_def resolve_fraction_def
      round_f64_def bit_length.simps u64_max_def nat_power_eq Let_def)

end
