(* ===== verification/ProtocolTrace.thy ===== *)
theory ProtocolTrace
  imports Prelude
begin

text \<open>
  The protocol trace crate \<open>onnx-runtime-protocol-trace\<close>: the events protocols emit, the
  envelopes around them, the bounded collector and the two replay checkers. A checker is
  generic in the protocol's independent reducer (the trait \<open>AbstractProtocol\<close>, respectively
  \<open>ReplayReducer\<close>), which is an argument here. Identities are numbers.
\<close>

section \<open>Events\<close>

datatype PressureEvent =
    Submit nat nat nat nat          \<comment> \<open>request, generation, owner, extent\<close>
  | Grant nat nat nat nat           \<comment> \<open>request, allocation, owner, extent\<close>
  | Claim nat nat nat               \<comment> \<open>request, allocation, extent\<close>
  | CancelPending nat
  | CancelGranted nat nat nat
  | TimeoutPending nat
  | TimeoutGranted nat nat nat
  | Release nat nat nat
  | Reconfigure nat
  | Reclaim nat nat                 \<comment> \<open>owner, bytes\<close>

datatype BufferOwnershipEvent =
    BufferSubmit nat "nat list" "nat list"
  | Detach nat
  | BeginAbort nat
  | CompleteSuccess nat "nat list"
  | QuiesceAbort nat "nat list"
  | FreeBuffer nat

datatype CollectiveDecision = Admitted | Skipped

datatype CollectiveKind = AllReduce | AllToAll | AllToAllV | AllGather | Broadcast | ReduceScatter

datatype CollectiveOrderingEvent =
    Decide nat CollectiveDecision
  | CollectiveSubmit nat "nat list" nat nat nat nat CollectiveKind nat
  | ObserveSkip nat "nat list" nat nat nat nat
  | CompleteLocal nat "nat list" nat nat nat nat bool
  | Abort

datatype ProtocolEvent =
    Pressure PressureEvent
  | BufferOwnership BufferOwnershipEvent
  | CollectiveOrdering CollectiveOrderingEvent

record ProtocolTraceEvent =
  contract_revision :: nat
  topology_epoch :: nat
  event_source :: nat
  source_sequence :: nat
  event_kind :: ProtocolEvent

definition CONTRACT_REVISION :: nat where
  "CONTRACT_REVISION = 2"

section \<open>The bounded collector\<close>

datatype TraceIntegrityError = BufferOverflow nat | SerializationFailure nat

record TraceSnapshot =
  snapshot_events :: "ProtocolTraceEvent list"
  integrity :: "TraceIntegrityError + unit"

record BoundedTraceCollector =
  col_capacity :: nat
  col_events :: "ProtocolTraceEvent list"
  overflow_at :: "nat option"

definition collector_new :: "nat \<Rightarrow> BoundedTraceCollector" where
  "collector_new capacity = \<lparr>col_capacity = capacity, col_events = [], overflow_at = None\<rparr>"

definition collector_record :: "BoundedTraceCollector \<Rightarrow> ProtocolTraceEvent \<Rightarrow> BoundedTraceCollector" where
  "collector_record c e =
     (if length (col_events c) \<ge> col_capacity c
      then c\<lparr>overflow_at := (case overflow_at c of None \<Rightarrow> Some (length (col_events c)) | Some a \<Rightarrow> Some a)\<rparr>
      else c\<lparr>col_events := col_events c @ [e]\<rparr>)"

definition collector_snapshot :: "BoundedTraceCollector \<Rightarrow> TraceSnapshot" where
  "collector_snapshot c =
     \<lparr>snapshot_events = col_events c,
      integrity = (case overflow_at c of Some a \<Rightarrow> Inl (BufferOverflow a) | None \<Rightarrow> Inr ())\<rparr>"

section \<open>The replay checker\<close>

datatype 'a ActionResolution = Enabled 'a | NotEnabled string | Ambiguous string

datatype TraceEnd = Clean | CrashBoundary

datatype FailureReason =
    TraceIntegrity TraceIntegrityError
  | UnknownContractRevision nat nat
  | DuplicateSourceSequence nat nat
  | NonMonotonicSourceSequence nat nat nat
  | NoEnabledAction string
  | AmbiguousAction string
  | ApplyRejected string
  | InvariantViolated string
  | LeftoverActive "string list"

record ConformanceFailure =
  prefix_len :: nat
  reason :: FailureReason

record ('s, 'a) AbstractProtocol =
  resolve :: "'s \<Rightarrow> ProtocolEvent \<Rightarrow> 'a ActionResolution"
  apply_action :: "'s \<Rightarrow> 'a \<Rightarrow> string + 's"
  check_invariants :: "'s \<Rightarrow> string + unit"
  active_entries :: "'s \<Rightarrow> string list"

definition check_sequence :: "(nat \<rightharpoonup> nat) \<Rightarrow> ProtocolTraceEvent \<Rightarrow> FailureReason + unit" where
  "check_sequence last_seq e =
     (case last_seq (event_source e) of
        None \<Rightarrow> Inr ()
      | Some prev \<Rightarrow>
          if source_sequence e = prev then Inl (DuplicateSourceSequence (event_source e) (source_sequence e))
          else if source_sequence e < prev then Inl (NonMonotonicSourceSequence (event_source e) (source_sequence e) prev)
          else Inr ())"

definition check_event :: "('s, 'a) AbstractProtocol \<Rightarrow> 's \<Rightarrow> ProtocolEvent \<Rightarrow> FailureReason + 's" where
  "check_event P s kind =
     (case resolve P s kind of
        Enabled a \<Rightarrow>
          (case apply_action P s a of
             Inl d \<Rightarrow> Inl (ApplyRejected d)
           | Inr s' \<Rightarrow>
               (case check_invariants P s' of Inl d \<Rightarrow> Inl (InvariantViolated d) | Inr _ \<Rightarrow> Inr s'))
      | NotEnabled d \<Rightarrow> Inl (NoEnabledAction d)
      | Ambiguous d \<Rightarrow> Inl (AmbiguousAction d))"

fun checker_loop ::
  "('s, 'a) AbstractProtocol \<Rightarrow> nat \<Rightarrow> (nat \<rightharpoonup> nat) \<Rightarrow> nat \<Rightarrow> 's \<Rightarrow> ProtocolTraceEvent list \<Rightarrow> ConformanceFailure + 's" where
  "checker_loop P revision last_seq index s [] = Inr s"
| "checker_loop P revision last_seq index s (e # es) =
     (if contract_revision e \<noteq> revision
      then Inl \<lparr>prefix_len = index + 1, reason = UnknownContractRevision (contract_revision e) revision\<rparr>
      else case check_sequence last_seq e of
        Inl r \<Rightarrow> Inl \<lparr>prefix_len = index + 1, reason = r\<rparr>
      | Inr _ \<Rightarrow>
          (case check_event P s (event_kind e) of
             Inl r \<Rightarrow> Inl \<lparr>prefix_len = index + 1, reason = r\<rparr>
           | Inr s' \<Rightarrow>
               checker_loop P revision (last_seq(event_source e \<mapsto> source_sequence e)) (index + 1) s' es))"

definition checker_run ::
  "('s, 'a) AbstractProtocol \<Rightarrow> nat \<Rightarrow> 's \<Rightarrow> TraceSnapshot \<Rightarrow> TraceEnd \<Rightarrow> ConformanceFailure + nat" where
  "checker_run P revision s snapshot end_mark =
     (case integrity snapshot of
        Inl (BufferOverflow a) \<Rightarrow> Inl \<lparr>prefix_len = a, reason = TraceIntegrity (BufferOverflow a)\<rparr>
      | Inl (SerializationFailure a) \<Rightarrow> Inl \<lparr>prefix_len = a, reason = TraceIntegrity (SerializationFailure a)\<rparr>
      | Inr _ \<Rightarrow>
          res_bind (checker_loop P revision Map.empty 0 s (snapshot_events snapshot)) (\<lambda>s'.
          if end_mark = Clean \<and> active_entries P s' \<noteq> []
          then Inl \<lparr>prefix_len = 0, reason = LeftoverActive (active_entries P s')\<rparr>
          else Inr (length (snapshot_events snapshot))))"

section \<open>Envelopes and the replay harness\<close>

datatype LedgerOperationKind = OpSubmit | OpClaim | OpCancel | OpTimeout | OpRelease | OpReconfigure | OpReclaim

record LedgerOperation =
  op_kind :: LedgerOperationKind
  op_request_id :: "nat option"
  op_allocation_id :: "nat option"
  op_owner :: "nat option"
  op_generation :: nat
  op_bytes :: nat

record TicketGrant =
  tg_request_id :: nat
  tg_allocation_id :: nat
  tg_owner :: nat
  tg_generation :: nat
  tg_bytes :: nat

datatype MailboxMessage = MailCancel nat | MailReclaim nat nat

record MailboxSend =
  ms_mailbox_id :: nat
  ms_message :: MailboxMessage

record PressureSnapshot =
  ps_generation :: nat
  ps_capacity_bytes :: nat
  ps_free_bytes :: nat
  ps_reserved_bytes :: nat
  ps_claimed_bytes :: nat
  ps_reclaimable_bytes :: nat
  ps_fixed_bytes :: nat

datatype PressurePayload =
    PayloadOperation LedgerOperation
  | PayloadGrant TicketGrant
  | PayloadSend MailboxSend
  | PayloadSnapshot PressureSnapshot

record 'p EventEnvelope =
  event_id :: nat
  env_sequence :: nat
  env_host :: nat
  env_actor :: nat
  logical_timestamp :: nat
  payload :: 'p

datatype 'v ReplayViolationKind =
    DuplicateEventId nat
  | NonMonotonicSequence nat nat nat nat
  | NonMonotonicLogicalTimestamp nat nat nat nat
  | Reducer 'v
  | Invariant 'v
  | Finish 'v

record 'v ReplayViolation =
  viol_prefix_len :: nat
  viol_event_id :: "nat option"
  viol_kind :: "'v ReplayViolationKind"

record ('s, 'p, 'v) ReplayReducer =
  reducer_apply :: "'s \<Rightarrow> 'p EventEnvelope \<Rightarrow> 'v + 's"
  reducer_invariants :: "'s \<Rightarrow> 'v + unit"
  reducer_finish :: "'s \<Rightarrow> 'v + unit"

definition check_envelope_order :: "(nat \<times> nat \<rightharpoonup> nat \<times> nat) \<Rightarrow> 'p EventEnvelope \<Rightarrow> 'v ReplayViolationKind option" where
  "check_envelope_order actor_order e =
     (case actor_order (env_host e, env_actor e) of
        None \<Rightarrow> None
      | Some (previous_sequence, previous_timestamp) \<Rightarrow>
          if env_sequence e \<le> previous_sequence
          then Some (NonMonotonicSequence (env_host e) (env_actor e) previous_sequence (env_sequence e))
          else if logical_timestamp e < previous_timestamp
          then Some (NonMonotonicLogicalTimestamp (env_host e) (env_actor e) previous_timestamp (logical_timestamp e))
          else None)"

fun harness_loop ::
  "('s, 'p, 'v) ReplayReducer \<Rightarrow> nat set \<Rightarrow> (nat \<times> nat \<rightharpoonup> nat \<times> nat) \<Rightarrow> nat \<Rightarrow> 's \<Rightarrow> 'p EventEnvelope list \<Rightarrow>
   'v ReplayViolation + nat \<times> 's" where
  "harness_loop R ids order n s [] = Inr (n, s)"
| "harness_loop R ids order n s (e # es) =
     (let fail = (\<lambda>k. Inl \<lparr>viol_prefix_len = n + 1, viol_event_id = Some (event_id e), viol_kind = k\<rparr>) in
      if event_id e \<in> ids then fail (DuplicateEventId (event_id e))
      else case check_envelope_order order e of
        Some k \<Rightarrow> fail k
      | None \<Rightarrow>
          (case reducer_apply R s e of
             Inl v \<Rightarrow> fail (Reducer v)
           | Inr s' \<Rightarrow>
               (case reducer_invariants R s' of
                  Inl v \<Rightarrow> fail (Invariant v)
                | Inr _ \<Rightarrow>
                    harness_loop R (insert (event_id e) ids)
                      (order((env_host e, env_actor e) \<mapsto> (env_sequence e, logical_timestamp e))) (n + 1) s' es)))"

definition harness_check :: "('s, 'p, 'v) ReplayReducer \<Rightarrow> 's \<Rightarrow> 'p EventEnvelope list \<Rightarrow> 'v ReplayViolation + nat" where
  "harness_check R s es =
     res_bind (harness_loop R {} Map.empty 0 s es) (\<lambda>(n, s').
     case reducer_finish R s' of
       Inl v \<Rightarrow> Inl \<lparr>viol_prefix_len = n, viol_event_id = None, viol_kind = Finish v\<rparr>
     | Inr _ \<Rightarrow> Inr n)"

section \<open>Replaying a trace that grows\<close>

text \<open>The abstract state after a list of events, when every one is accepted.\<close>

fun replay :: "('s, 'a) AbstractProtocol \<Rightarrow> 's \<Rightarrow> ProtocolEvent list \<Rightarrow> FailureReason + 's" where
  "replay P s [] = Inr s"
| "replay P s (k # ks) = res_bind (check_event P s k) (\<lambda>s'. replay P s' ks)"

lemma replay_append: "replay P s (ks @ ks') = res_bind (replay P s ks) (\<lambda>s'. replay P s' ks')"
proof (induction ks arbitrary: s)
  case (Cons k ks)
  then show ?case by (cases "check_event P s k") simp_all
qed simp

lemma replay_snoc: "replay P s ks = Inr s' \<Longrightarrow> check_event P s' k = Inr s'' \<Longrightarrow> replay P s (ks @ [k]) = Inr s''"
  by (simp add: replay_append)

text \<open>One source whose numbers strictly increase: the envelope checks never fail.\<close>

lemma checker_loop_replay:
  assumes "\<forall>e \<in> set es. contract_revision e = revision \<and> event_source e = src"
    and "sorted_wrt (<) (map source_sequence es)"
    and "\<forall>prev e. last_seq src = Some prev \<longrightarrow> e \<in> set es \<longrightarrow> prev < source_sequence e"
    and "replay P s (map event_kind es) = Inr s'"
  shows "checker_loop P revision last_seq index s es = Inr s'"
  using assms
proof (induction es arbitrary: last_seq index s)
  case (Cons e es)
  from Cons.prems obtain s1 where s1: "check_event P s (event_kind e) = Inr s1" "replay P s1 (map event_kind es) = Inr s'" by auto
  from Cons.prems(1,3) have "\<forall>prev. last_seq (event_source e) = Some prev \<longrightarrow> prev < source_sequence e" by simp
  then have "check_sequence last_seq e = Inr ()" by (auto simp: check_sequence_def split: option.split)
  moreover have "checker_loop P revision (last_seq(src \<mapsto> source_sequence e)) (index + 1) s1 es = Inr s'"
    using Cons.prems s1 by (intro Cons.IH) auto
  ultimately show ?case using Cons.prems(1) s1 by simp
qed simp

lemma checker_run_replay:
  assumes "\<forall>e \<in> set es. contract_revision e = revision \<and> event_source e = src"
    and "sorted_wrt (<) (map source_sequence es)"
    and "replay P s (map event_kind es) = Inr s'"
  shows "checker_run P revision s \<lparr>snapshot_events = es, integrity = Inr ()\<rparr> end_mark =
    (if end_mark = Clean \<and> active_entries P s' \<noteq> []
     then Inl \<lparr>prefix_len = 0, reason = LeftoverActive (active_entries P s')\<rparr> else Inr (length es))"
  using checker_loop_replay [OF assms(1,2) _ assms(3), of Map.empty 0] by (simp add: checker_run_def)

text \<open>A collector that is large enough keeps the whole trace.\<close>

lemma collector_keeps_the_trace:
  assumes "length es \<le> capacity"
  shows "collector_snapshot (fold (\<lambda>e c. collector_record c e) es (collector_new capacity)) = \<lparr>snapshot_events = es, integrity = Inr ()\<rparr>"
proof -
  have "fold (\<lambda>e c. collector_record c e) es \<lparr>col_capacity = capacity, col_events = xs, overflow_at = None\<rparr> =
      \<lparr>col_capacity = capacity, col_events = xs @ es, overflow_at = None\<rparr>" if "length xs + length es \<le> capacity" for xs
    using that by (induction es arbitrary: xs) (auto simp: collector_record_def)
  from this [of "[]"] assms show ?thesis by (simp add: collector_new_def collector_snapshot_def)
qed

section \<open>What an implementation owes its reducer\<close>

text \<open>An implementation whose steps emit at most one event each, and a relation to the reducer's
  state that every step carries over, with the reducer accepting the event.\<close>

locale trace_simulation =
  fixes protocol :: "('s, 'a) AbstractProtocol"
    and step :: "'g \<Rightarrow> 'g \<Rightarrow> bool"
    and trace_of :: "'g \<Rightarrow> ProtocolTraceEvent list"
    and inv :: "'g \<Rightarrow> bool"
    and rel :: "'g \<Rightarrow> 's \<Rightarrow> bool"
  assumes step_inv: "step g g' \<Longrightarrow> inv g \<Longrightarrow> inv g'"
    and step_sim: "step g g' \<Longrightarrow> inv g \<Longrightarrow> rel g s \<Longrightarrow>
      (trace_of g' = trace_of g \<and> rel g' s) \<or>
      (\<exists>r s'. trace_of g' = trace_of g @ [r] \<and> check_event protocol s (event_kind r) = Inr s' \<and> rel g' s')"
begin

lemma steps_inv: "step\<^sup>*\<^sup>* g g' \<Longrightarrow> inv g \<Longrightarrow> inv g'"
  by (induction rule: rtranclp_induct) (auto intro: step_inv)

lemma steps_accepted:
  assumes "step\<^sup>*\<^sup>* g g'" "inv g" "replay protocol s0 (map event_kind (trace_of g)) = Inr s" "rel g s"
  shows "\<exists>s'. replay protocol s0 (map event_kind (trace_of g')) = Inr s' \<and> rel g' s'"
  using assms
proof (induction rule: rtranclp_induct)
  case (step g' g'')
  then obtain s1 where s1: "replay protocol s0 (map event_kind (trace_of g')) = Inr s1" "rel g' s1" by blast
  from step_sim [OF step.hyps(2) steps_inv [OF step.hyps(1) step.prems(1)] s1(2)] s1(1) show ?case
    by (auto simp: replay_append)
qed blast

end

end
