(* ===== verification/HostPressure.thy ===== *)
theory HostPressure
  imports ResourceGovernor ProtocolTrace "HOL-Library.Product_Lexorder"
begin

text \<open>
  The ticketed pressure protocol of \<open>onnx-genai-scheduler/src/pressure.rs\<close>: the host governor's
  ledger of machine-wide host memory, its cancellation mailbox, the two trace streams it
  emits, and the tickets requests are represented by. A method is one critical section on the
  ledger; the tickets it leaves to be woken are returned beside its result and are woken after
  the lock is released. A ticket's notifier is named by its request. Ordered maps are
  association lists: request numbers only grow, so inserting at the end keeps the order.
\<close>

section \<open>Requests, allocations, tickets\<close>

definition AGING_CAP :: nat where "AGING_CAP = 8"

definition DEFAULT_MAILBOX_CAPACITY :: nat where "DEFAULT_MAILBOX_CAPACITY = 1024"

record HostPageRequest =
  rq_owner :: nat
  rq_bytes :: nat
  rq_priority :: nat
  rq_pinned :: bool

definition pageable :: "nat \<Rightarrow> nat \<Rightarrow> nat \<Rightarrow> HostPageRequest" where
  "pageable owner bytes priority = \<lparr>rq_owner = owner, rq_bytes = bytes, rq_priority = priority, rq_pinned = False\<rparr>"

record HostAllocation =
  ha_id :: nat
  ha_request_id :: nat
  ha_owner :: nat
  ha_bytes :: nat
  ha_generation :: nat
  ha_pinned :: bool

datatype PressureState =
    Pending HostPageRequest
  | Granted HostAllocation
  | Claimed HostAllocation
  | Cancelled
  | Failed ResourceError

datatype TicketPoll = PollPending | PollGranted HostAllocation | PollCancelled | PollFailed ResourceError

record HostGovernorConfig =
  cfg_capacity_bytes :: nat
  cfg_fixed_charge_bytes :: nat
  initial_reclaimable :: "(nat \<times> nat) list"
  cfg_source :: nat
  cfg_topology_epoch :: nat
  cfg_host_id :: nat
  cfg_actor_id :: nat
  cfg_mailbox_id :: nat
  mailbox_capacity :: nat

definition host_config_new :: "nat \<Rightarrow> HostGovernorConfig" where
  "host_config_new capacity_bytes =
     \<lparr>cfg_capacity_bytes = capacity_bytes, cfg_fixed_charge_bytes = 0, initial_reclaimable = [],
      cfg_source = 1, cfg_topology_epoch = 0, cfg_host_id = 1, cfg_actor_id = 1, cfg_mailbox_id = 1,
      mailbox_capacity = DEFAULT_MAILBOX_CAPACITY\<rparr>"

datatype TimeoutOutcome = TimedOutPending | TimedOutGranted | TimeoutNoOp

record HostLedgerSnapshot =
  hs_capacity_bytes :: nat
  hs_fixed_charge_bytes :: nat
  hs_free_bytes :: nat
  hs_reclaimable_bytes :: nat
  hs_reserved_bytes :: nat
  hs_claimed_bytes :: nat
  hs_host_ram_used :: nat
  hs_generation :: nat
  hs_pending :: nat

section \<open>Ledger and mailbox\<close>

record LedgerEntry =
  le_owner :: nat
  le_bytes :: nat
  le_priority :: nat
  le_pinned :: bool
  le_generation :: nat
  le_submit_seq :: nat
  le_age :: nat
  le_state :: PressureState

definition entry_reserved_bytes :: "LedgerEntry \<Rightarrow> nat" where
  "entry_reserved_bytes e = (case le_state e of Granted _ \<Rightarrow> le_bytes e | _ \<Rightarrow> 0)"

definition entry_claimed_bytes :: "LedgerEntry \<Rightarrow> nat" where
  "entry_claimed_bytes e = (case le_state e of Claimed _ \<Rightarrow> le_bytes e | _ \<Rightarrow> 0)"

definition is_pending :: "LedgerEntry \<Rightarrow> bool" where
  "is_pending e = (case le_state e of Pending _ \<Rightarrow> True | _ \<Rightarrow> False)"

record CancelCommand =
  cc_request_id :: nat
  cc_generation :: nat

record CancelMailbox =
  mb_queue :: "CancelCommand list"
  mb_reserved :: nat
  mb_capacity :: nat

definition mailbox_new :: "nat \<Rightarrow> ResourceError + CancelMailbox" where
  "mailbox_new capacity =
     (if capacity = 0 then Inl (InvalidHostRequest ''cancellation mailbox capacity must be non-zero'')
      else Inr \<lparr>mb_queue = [], mb_reserved = 0, mb_capacity = capacity\<rparr>)"

definition reserve_slot :: "CancelMailbox \<Rightarrow> ResourceError + CancelMailbox" where
  "reserve_slot m =
     (if mb_reserved m = mb_capacity m then Inl (HostMailboxBackpressure (mb_capacity m))
      else Inr (m\<lparr>mb_reserved := mb_reserved m + 1\<rparr>))"

definition release_slot :: "CancelMailbox \<Rightarrow> CancelMailbox" where
  "release_slot m = m\<lparr>mb_reserved := mb_reserved m - 1\<rparr>"

definition mailbox_drain :: "CancelMailbox \<Rightarrow> CancelMailbox \<times> CancelCommand list" where
  "mailbox_drain m = (m\<lparr>mb_queue := [], mb_reserved := mb_reserved m - length (mb_queue m)\<rparr>, mb_queue m)"

record HostGovernor =
  capacity :: nat
  fixed_charge :: nat
  free :: nat
  reclaimable :: "(nat \<times> nat) list"
  generation :: nat
  entries :: "(nat \<times> LedgerEntry) list"
  next_request :: nat
  next_alloc :: nat
  next_submit_seq :: nat
  next_source_sequence :: nat
  reclaim_shortfall :: bool
  mailbox :: CancelMailbox
  trace :: "ProtocolTraceEvent list"
  envelopes :: "PressurePayload EventEnvelope list"
  next_sequence :: nat
  governor_source :: nat
  governor_epoch :: nat
  governor_host :: nat
  governor_actor :: nat
  governor_mailbox :: nat

definition host_checked_add :: "nat \<Rightarrow> nat \<Rightarrow> string \<Rightarrow> ResourceError + nat" where
  "host_checked_add a b op = ok_or (checked_add_u64 a b) (HostLedgerInvariant op (Overflowed a b))"

definition host_checked_sub :: "nat \<Rightarrow> nat \<Rightarrow> string \<Rightarrow> ResourceError + nat" where
  "host_checked_sub a b op = (if b \<le> a then Inr (a - b) else Inl (HostLedgerInvariant op (Underflowed a b)))"

fun checked_total :: "string \<Rightarrow> nat \<Rightarrow> nat list \<Rightarrow> ResourceError + nat" where
  "checked_total op acc [] = Inr acc"
| "checked_total op acc (n # ns) = res_bind (host_checked_add acc n op) (\<lambda>t. checked_total op t ns)"

definition reclaimable_total :: "HostGovernor \<Rightarrow> ResourceError + nat" where
  "reclaimable_total g = checked_total ''reclaimable total'' 0 (map snd (reclaimable g))"

definition reserved_total :: "HostGovernor \<Rightarrow> ResourceError + nat" where
  "reserved_total g = checked_total ''reserved total'' 0 (map (entry_reserved_bytes \<circ> snd) (entries g))"

definition claimed_total :: "HostGovernor \<Rightarrow> ResourceError + nat" where
  "claimed_total g = checked_total ''claimed total'' 0 (map (entry_claimed_bytes \<circ> snd) (entries g))"

definition max_satisfiable :: "HostGovernor \<Rightarrow> nat" where
  "max_satisfiable g = capacity g - fixed_charge g"

fun init_reclaimable :: "(nat \<times> nat) list \<Rightarrow> (nat \<times> nat) list \<Rightarrow> nat \<Rightarrow> ResourceError + (nat \<times> nat) list \<times> nat" where
  "init_reclaimable [] m acc = Inr (m, acc)"
| "init_reclaimable ((device, bytes) # ds) m acc =
     res_bind (host_checked_add (unwrap_or (map_of m device) 0) bytes ''init reclaimable'') (\<lambda>slot.
     res_bind (host_checked_add acc bytes ''init reclaimable total'') (\<lambda>acc'.
     init_reclaimable ds (AList.update device slot m) acc'))"

definition with_sinks :: "HostGovernorConfig \<Rightarrow> ResourceError + HostGovernor" where
  "with_sinks config =
     res_bind (init_reclaimable (initial_reclaimable config) [] 0) (\<lambda>(recl, acc).
     res_bind (host_checked_add (cfg_fixed_charge_bytes config) acc ''init charge'') (\<lambda>charged.
     res_bind (host_checked_sub (cfg_capacity_bytes config) charged ''init free'') (\<lambda>f.
     res_bind (mailbox_new (mailbox_capacity config)) (\<lambda>mb.
     Inr \<lparr>capacity = cfg_capacity_bytes config, fixed_charge = cfg_fixed_charge_bytes config, free = f,
          reclaimable = recl, generation = 0, entries = [], next_request = 1, next_alloc = 1,
          next_submit_seq = 0, next_source_sequence = 0, reclaim_shortfall = False, mailbox = mb,
          trace = [], envelopes = [], next_sequence = 0, governor_source = cfg_source config,
          governor_epoch = cfg_topology_epoch config, governor_host = cfg_host_id config,
          governor_actor = cfg_actor_id config, governor_mailbox = cfg_mailbox_id config\<rparr>))))"

section \<open>Emitting events\<close>

definition emit_payload :: "HostGovernor \<Rightarrow> PressurePayload \<Rightarrow> HostGovernor" where
  "emit_payload g p =
     (case checked_add_u64 (next_sequence g) 1 of
        None \<Rightarrow> g
      | Some n \<Rightarrow>
          g\<lparr>next_sequence := n,
            envelopes := envelopes g @
              [\<lparr>event_id = governor_source g * 2 ^ 64 + next_sequence g, env_sequence = next_sequence g,
                env_host = governor_host g, env_actor = governor_actor g,
                logical_timestamp = next_sequence g, payload = p\<rparr>]\<rparr>)"

definition entry_owner :: "HostGovernor \<Rightarrow> nat \<Rightarrow> nat option" where
  "entry_owner g request = map_option le_owner (map_of (entries g) request)"

definition entry_generation :: "HostGovernor \<Rightarrow> nat \<Rightarrow> nat" where
  "entry_generation g request = unwrap_or (map_option le_generation (map_of (entries g) request)) (generation g)"

definition entry_operation :: "HostGovernor \<Rightarrow> LedgerOperationKind \<Rightarrow> nat \<Rightarrow> nat option \<Rightarrow> nat \<Rightarrow> PressurePayload" where
  "entry_operation g kind request allocation bytes =
     PayloadOperation \<lparr>op_kind = kind, op_request_id = Some request, op_allocation_id = allocation,
       op_owner = entry_owner g request, op_generation = entry_generation g request, op_bytes = bytes\<rparr>"

fun payload_for_event :: "HostGovernor \<Rightarrow> PressureEvent \<Rightarrow> PressurePayload" where
  "payload_for_event g (Submit request gen owner extent) =
     PayloadOperation \<lparr>op_kind = OpSubmit, op_request_id = Some request, op_allocation_id = None,
       op_owner = Some owner, op_generation = gen, op_bytes = extent\<rparr>"
| "payload_for_event g (Grant request allocation owner extent) =
     PayloadGrant \<lparr>tg_request_id = request, tg_allocation_id = allocation, tg_owner = owner,
       tg_generation = entry_generation g request, tg_bytes = extent\<rparr>"
| "payload_for_event g (Claim request allocation extent) = entry_operation g OpClaim request (Some allocation) extent"
| "payload_for_event g (CancelPending request) = entry_operation g OpCancel request None 0"
| "payload_for_event g (CancelGranted request allocation extent) = entry_operation g OpCancel request (Some allocation) extent"
| "payload_for_event g (TimeoutPending request) = entry_operation g OpTimeout request None 0"
| "payload_for_event g (TimeoutGranted request allocation extent) = entry_operation g OpTimeout request (Some allocation) extent"
| "payload_for_event g (Release request allocation extent) = entry_operation g OpRelease request (Some allocation) extent"
| "payload_for_event g (Reconfigure new_generation) =
     PayloadOperation \<lparr>op_kind = OpReconfigure, op_request_id = None, op_allocation_id = None,
       op_owner = None, op_generation = new_generation, op_bytes = 0\<rparr>"
| "payload_for_event g (Reclaim owner bytes) =
     PayloadOperation \<lparr>op_kind = OpReclaim, op_request_id = None, op_allocation_id = None,
       op_owner = Some owner, op_generation = generation g, op_bytes = bytes\<rparr>"

definition emit_locked :: "HostGovernor \<Rightarrow> PressureEvent \<Rightarrow> HostGovernor" where
  "emit_locked g kind =
     emit_payload
       (g\<lparr>next_source_sequence := sat_add_u64 (next_source_sequence g) 1,
          trace := trace g @
            [\<lparr>contract_revision = CONTRACT_REVISION, topology_epoch = governor_epoch g,
              event_source = governor_source g, source_sequence = next_source_sequence g,
              event_kind = Pressure kind\<rparr>]\<rparr>)
       (payload_for_event g kind)"

definition emit_mailbox_send :: "HostGovernor \<Rightarrow> nat \<Rightarrow> HostGovernor" where
  "emit_mailbox_send g request_id =
     emit_payload g (PayloadSend \<lparr>ms_mailbox_id = governor_mailbox g, ms_message = MailCancel request_id\<rparr>)"

definition publish_cancel :: "HostGovernor \<Rightarrow> CancelCommand \<Rightarrow> HostGovernor \<times> bool" where
  "publish_cancel g command =
     (if length (mb_queue (mailbox g)) \<ge> mb_reserved (mailbox g) then (g, False)
      else
        (let g' = emit_mailbox_send g (cc_request_id command) in
         (g'\<lparr>mailbox := (mailbox g')\<lparr>mb_queue := mb_queue (mailbox g') @ [command]\<rparr>\<rparr>, True)))"

definition enqueue_reclaim_notices_locked :: "HostGovernor \<Rightarrow> HostGovernor" where
  "enqueue_reclaim_notices_locked g =
     g\<lparr>reclaim_shortfall := (\<exists>(_, e) \<in> set (entries g). is_pending e \<and> le_bytes e > free g)\<rparr>"

section \<open>Arbitration\<close>

definition set_state :: "HostGovernor \<Rightarrow> nat \<Rightarrow> LedgerEntry \<Rightarrow> PressureState \<Rightarrow> HostGovernor" where
  "set_state g request e st = g\<lparr>entries := AList.update request (e\<lparr>le_state := st\<rparr>) (entries g)\<rparr>"

definition age_entry :: "nat \<Rightarrow> LedgerEntry \<Rightarrow> LedgerEntry" where
  "age_entry current_gen e =
     (if is_pending e \<and> le_generation e = current_gen then e\<lparr>le_age := min (le_age e + 1) AGING_CAP\<rparr> else e)"

text \<open>A candidate: request, whether it has matured, priority, submission number.\<close>

type_synonym candidate = "nat \<times> bool \<times> nat \<times> nat"

definition candidates :: "HostGovernor \<Rightarrow> candidate list" where
  "candidates g =
     map (\<lambda>(id, e). (id, le_age e \<ge> AGING_CAP, le_priority e, le_submit_seq e))
       (filter (\<lambda>(_, e). is_pending e \<and> le_generation e = generation g) (entries g))"

text \<open>The comparison of the sort: matured candidates first and in order of submission, the
  others by falling priority and then by submission.\<close>

fun candidate_less :: "candidate \<Rightarrow> candidate \<Rightarrow> bool" where
  "candidate_less (_, ma, pa, sa) (_, mb, pb, sb) =
     (if ma \<noteq> mb then ma
      else if ma then sa < sb
      else pb < pa \<or> (pa = pb \<and> sa < sb))"

fun insert_candidate :: "candidate \<Rightarrow> candidate list \<Rightarrow> candidate list" where
  "insert_candidate c [] = [c]"
| "insert_candidate c (d # ds) = (if candidate_less d c then d # insert_candidate c ds else c # d # ds)"

definition sort_candidates :: "candidate list \<Rightarrow> candidate list" where
  "sort_candidates cs = foldr insert_candidate cs []"

fun grant_loop :: "HostGovernor \<Rightarrow> candidate list \<Rightarrow> nat list \<Rightarrow> HostGovernor \<times> (ResourceError + nat list)" where
  "grant_loop g [] wakeups = (g, Inr wakeups)"
| "grant_loop g ((rid, matured, _, _) # cs) wakeups =
     (case map_of (entries g) rid of
        None \<Rightarrow> (g, Inl (HostLedgerInvariant ''grant'' (AboutRequest ''disappeared during arbitration'' rid)))
      | Some e \<Rightarrow>
          if free g < le_bytes e
          then (if matured then (g, Inr wakeups) else grant_loop g cs wakeups)
          else
            st_lift g (host_checked_sub (free g) (le_bytes e) ''grant reserve'') (\<lambda>f.
              let a = \<lparr>ha_id = next_alloc g, ha_request_id = rid, ha_owner = le_owner e, ha_bytes = le_bytes e,
                       ha_generation = le_generation e, ha_pinned = le_pinned e\<rparr>;
                  g1 = set_state (g\<lparr>free := f, next_alloc := next_alloc g + 1\<rparr>) rid e (Granted a) in
              grant_loop (emit_locked g1 (Grant rid (next_alloc g) (le_owner e) (le_bytes e))) cs (wakeups @ [rid])))"

definition arbitrate_locked :: "HostGovernor \<Rightarrow> HostGovernor \<times> (ResourceError + nat list)" where
  "arbitrate_locked g =
     (let g1 = g\<lparr>entries := map (\<lambda>(id, e). (id, age_entry (generation g) e)) (entries g)\<rparr> in
      grant_loop g1 (sort_candidates (candidates g1)) [])"

section \<open>Cancellations\<close>

definition remove_terminal_locked :: "HostGovernor \<Rightarrow> nat \<Rightarrow> HostGovernor" where
  "remove_terminal_locked g request = g\<lparr>entries := AList.delete request (entries g)\<rparr>"

definition apply_cancel_locked :: "HostGovernor \<Rightarrow> CancelCommand \<Rightarrow> HostGovernor \<times> (ResourceError + nat list)" where
  "apply_cancel_locked g command =
     (let request = cc_request_id command in
      case map_of (entries g) request of
        None \<Rightarrow> (g, Inr [])
      | Some e \<Rightarrow>
          if le_generation e \<noteq> cc_generation command then (g, Inr [])
          else
            (case le_state e of
               Pending _ \<Rightarrow>
                 (remove_terminal_locked (emit_locked (set_state g request e Cancelled) (CancelPending request)) request, Inr [])
             | Granted a \<Rightarrow>
                 st_lift g (host_checked_add (free g) (le_bytes e) ''cancel granted credit'') (\<lambda>f.
                 arbitrate_locked
                   (remove_terminal_locked
                     (emit_locked (set_state (g\<lparr>free := f\<rparr>) request e Cancelled) (CancelGranted request (ha_id a) (le_bytes e)))
                     request))
             | Claimed _ \<Rightarrow> (g, Inr [])
             | Cancelled \<Rightarrow> (remove_terminal_locked g request, Inr [])
             | Failed _ \<Rightarrow> (remove_terminal_locked g request, Inr [])))"

fun apply_cancels :: "HostGovernor \<Rightarrow> CancelCommand list \<Rightarrow> nat list \<Rightarrow> HostGovernor \<times> (ResourceError + nat list)" where
  "apply_cancels g [] wakeups = (g, Inr wakeups)"
| "apply_cancels g (c # cs) wakeups =
     st_bind (apply_cancel_locked g c) (\<lambda>g' w. apply_cancels g' cs (wakeups @ w))"

definition drain_cancellations_locked :: "HostGovernor \<Rightarrow> HostGovernor \<times> (ResourceError + nat list)" where
  "drain_cancellations_locked g =
     (case mailbox_drain (mailbox g) of (mb, commands) \<Rightarrow> apply_cancels (g\<lparr>mailbox := mb\<rparr>) commands [])"

section \<open>The public operations\<close>

text \<open>Each returns the new governor, the requests to wake, and its result.\<close>

type_synonym 'a outcome = "HostGovernor \<times> nat list \<times> (ResourceError + 'a)"

record PressureTicket =
  tk_request_id :: nat
  tk_generation :: nat
  tk_resolved :: bool

definition after_drain :: "HostGovernor \<Rightarrow> (HostGovernor \<Rightarrow> nat list \<Rightarrow> 'a outcome) \<Rightarrow> 'a outcome" where
  "after_drain g k =
     (case drain_cancellations_locked g of
        (g', Inl e) \<Rightarrow> (g', [], Inl e)
      | (g', Inr wakeups) \<Rightarrow> k g' wakeups)"

definition then_arbitrate :: "HostGovernor \<Rightarrow> nat list \<Rightarrow> (HostGovernor \<Rightarrow> nat list \<Rightarrow> 'a outcome) \<Rightarrow> 'a outcome" where
  "then_arbitrate g wakeups k =
     (case arbitrate_locked g of
        (g', Inl e) \<Rightarrow> (g', wakeups, Inl e)
      | (g', Inr w) \<Rightarrow> k g' (wakeups @ w))"

definition request_host_pages :: "HostGovernor \<Rightarrow> HostPageRequest \<Rightarrow> PressureTicket outcome" where
  "request_host_pages g request =
     (if rq_bytes request = 0 then (g, [], Inl (InvalidHostRequest ''requested zero bytes''))
      else after_drain g (\<lambda>g wakeups.
        if rq_bytes request > max_satisfiable g
        then (g, wakeups, Inl (HostQuotaDenied (rq_bytes request) (max_satisfiable g)))
        else
          (let rid = next_request g;
               g1 = g\<lparr>next_request := next_request g + 1, next_submit_seq := next_submit_seq g + 1\<rparr> in
           case reserve_slot (mailbox g1) of
             Inl err \<Rightarrow> (g1, wakeups, Inl err)
           | Inr mb \<Rightarrow>
               (let e = \<lparr>le_owner = rq_owner request, le_bytes = rq_bytes request, le_priority = rq_priority request,
                         le_pinned = rq_pinned request, le_generation = generation g1, le_submit_seq = next_submit_seq g,
                         le_age = 0, le_state = Pending request\<rparr>;
                    g2 = g1\<lparr>mailbox := mb, entries := AList.update rid e (entries g1)\<rparr>;
                    g3 = emit_locked g2 (Submit rid (generation g1) (rq_owner request) (rq_bytes request)) in
                then_arbitrate g3 wakeups (\<lambda>g4 wakeups'.
                  (enqueue_reclaim_notices_locked g4, wakeups',
                   Inr \<lparr>tk_request_id = rid, tk_generation = generation g1, tk_resolved = False\<rparr>))))))"

definition release_host_pages :: "HostGovernor \<Rightarrow> HostAllocation \<Rightarrow> unit outcome" where
  "release_host_pages g allocation =
     after_drain g (\<lambda>g wakeups.
       let fail = (\<lambda>r. (g, wakeups, Inl (HostLedgerInvariant ''release'' r))) in
       case map_of (entries g) (ha_request_id allocation) of
         None \<Rightarrow> fail (AboutRequest ''no ledger entry'' (ha_request_id allocation))
       | Some e \<Rightarrow>
           (case le_state e of
              Claimed recorded \<Rightarrow>
                if allocation \<noteq> recorded
                then fail (Message ''released allocation does not match the authoritative ledger charge'')
                else
                  (case host_checked_add (free g) (ha_bytes recorded) ''release credit'' of
                     Inl err \<Rightarrow> (g, wakeups, Inl err)
                   | Inr f \<Rightarrow>
                       (let g1 = emit_locked (g\<lparr>free := f\<rparr>) (Release (ha_request_id recorded) (ha_id recorded) (ha_bytes recorded));
                            g2 = g1\<lparr>entries := AList.delete (ha_request_id recorded) (entries g1)\<rparr> in
                        then_arbitrate g2 wakeups (\<lambda>g3 wakeups'. (enqueue_reclaim_notices_locked g3, wakeups', Inr ()))))
            | _ \<Rightarrow> fail (AboutRequest ''not in the Claimed state'' (ha_request_id allocation))))"

definition host_reclaim :: "HostGovernor \<Rightarrow> nat \<Rightarrow> nat \<Rightarrow> unit outcome" where
  "host_reclaim g device bytes =
     (if bytes = 0 then (g, [], Inr ())
      else after_drain g (\<lambda>g wakeups.
        case host_checked_sub (unwrap_or (map_of (reclaimable g) device) 0) bytes ''reclaim debit'' of
          Inl err \<Rightarrow> (g, wakeups, Inl err)
        | Inr remaining \<Rightarrow>
            (let g1 = g\<lparr>reclaimable := AList.update device remaining (reclaimable g)\<rparr> in
             case host_checked_add (free g1) bytes ''reclaim credit'' of
               Inl err \<Rightarrow> (g1, wakeups, Inl err)
             | Inr f \<Rightarrow>
                 then_arbitrate (emit_locked (g1\<lparr>free := f\<rparr>) (Reclaim device bytes)) wakeups (\<lambda>g3 wakeups'.
                   (enqueue_reclaim_notices_locked g3, wakeups', Inr ())))))"

definition is_stale :: "nat \<Rightarrow> LedgerEntry \<Rightarrow> bool" where
  "is_stale new_generation e \<longleftrightarrow> is_pending e \<and> le_generation e \<noteq> new_generation"

definition fail_stale :: "nat \<Rightarrow> nat \<times> LedgerEntry \<Rightarrow> nat \<times> LedgerEntry" where
  "fail_stale new_generation = (\<lambda>(rid, e).
     if is_stale new_generation e
     then (rid, e\<lparr>le_state := Failed (HostReconfigurationInvalidated rid (le_generation e) new_generation)\<rparr>)
     else (rid, e))"

definition host_reconfigure :: "HostGovernor \<Rightarrow> unit outcome" where
  "host_reconfigure g =
     after_drain g (\<lambda>g wakeups.
       let new_generation = generation g + 1;
           stale = map fst (filter (\<lambda>(_, e). is_stale new_generation e) (entries g));
           g1 = g\<lparr>generation := new_generation, entries := map (fail_stale new_generation) (entries g)\<rparr> in
       (emit_locked g1 (Reconfigure new_generation), wakeups @ stale, Inr ()))"

definition time_out :: "HostGovernor \<Rightarrow> nat \<Rightarrow> TimeoutOutcome outcome" where
  "time_out g rid =
     after_drain g (\<lambda>g wakeups.
       case map_of (entries g) rid of
         None \<Rightarrow> (g, wakeups, Inr TimeoutNoOp)
       | Some e \<Rightarrow>
           (case le_state e of
              Pending _ \<Rightarrow>
                (emit_locked (set_state g rid e (Failed (HostPressureTimeout rid))) (TimeoutPending rid),
                 wakeups @ [rid], Inr TimedOutPending)
            | Granted a \<Rightarrow>
                (case host_checked_add (free g) (le_bytes e) ''timeout granted credit'' of
                   Inl err \<Rightarrow> (g, wakeups, Inl err)
                 | Inr f \<Rightarrow>
                     then_arbitrate
                       (emit_locked (set_state (g\<lparr>free := f\<rparr>) rid e (Failed (HostPressureTimeout rid)))
                         (TimeoutGranted rid (ha_id a) (le_bytes e)))
                       wakeups (\<lambda>g' wakeups'. (g', wakeups' @ [rid], Inr TimedOutGranted)))
            | _ \<Rightarrow> (g, wakeups, Inr TimeoutNoOp)))"

definition snapshot_locked :: "HostGovernor \<Rightarrow> ResourceError + HostLedgerSnapshot" where
  "snapshot_locked g =
     res_bind (reclaimable_total g) (\<lambda>recl.
     res_bind (reserved_total g) (\<lambda>resv.
     res_bind (claimed_total g) (\<lambda>clm.
     res_bind (res_bind (res_bind (host_checked_add recl resv ''snapshot used'')
                 (\<lambda>u. host_checked_add u clm ''snapshot used''))
                 (\<lambda>u. host_checked_add u (fixed_charge g) ''snapshot used'')) (\<lambda>used.
     res_bind (host_checked_sub (capacity g) used ''snapshot free'') (\<lambda>recomputed.
     if recomputed \<noteq> free g then Inl (HostLedgerInvariant ''snapshot'' (FreeMismatch recomputed (free g)))
     else if used > capacity g then Inl (HostLedgerInvariant ''snapshot'' (UsedAboveCapacity used (capacity g)))
     else Inr \<lparr>hs_capacity_bytes = capacity g, hs_fixed_charge_bytes = fixed_charge g, hs_free_bytes = free g,
               hs_reclaimable_bytes = recl, hs_reserved_bytes = resv, hs_claimed_bytes = clm,
               hs_host_ram_used = used, hs_generation = generation g,
               hs_pending = length (filter (\<lambda>(_, e). is_pending e) (entries g))\<rparr>)))))"

definition host_snapshot :: "HostGovernor \<Rightarrow> HostLedgerSnapshot outcome" where
  "host_snapshot g =
     after_drain g (\<lambda>g wakeups.
       case snapshot_locked g of
         Inl err \<Rightarrow> (g, wakeups, Inl err)
       | Inr s \<Rightarrow>
           (emit_payload g (PayloadSnapshot \<lparr>ps_generation = hs_generation s, ps_capacity_bytes = hs_capacity_bytes s,
              ps_free_bytes = hs_free_bytes s, ps_reserved_bytes = hs_reserved_bytes s, ps_claimed_bytes = hs_claimed_bytes s,
              ps_reclaimable_bytes = hs_reclaimable_bytes s, ps_fixed_bytes = hs_fixed_charge_bytes s\<rparr>),
            wakeups, Inr s))"

definition process_cancellations :: "HostGovernor \<Rightarrow> unit outcome" where
  "process_cancellations g = after_drain g (\<lambda>g wakeups. (g, wakeups, Inr ()))"

definition governor_try_claim :: "HostGovernor \<Rightarrow> nat \<Rightarrow> HostGovernor \<times> nat list \<times> TicketPoll" where
  "governor_try_claim g rid =
     (case drain_cancellations_locked g of
        (g, Inl err) \<Rightarrow> (g, [], PollFailed err)
      | (g, Inr wakeups) \<Rightarrow>
          (case map_of (entries g) rid of
             None \<Rightarrow> (remove_terminal_locked g rid, wakeups, PollCancelled)
           | Some e \<Rightarrow>
               (case le_state e of
                  Pending _ \<Rightarrow> (g, wakeups, PollPending)
                | Granted a \<Rightarrow>
                    (emit_locked (set_state g rid e (Claimed a)) (Claim rid (ha_id a) (ha_bytes a)), wakeups, PollGranted a)
                | Claimed _ \<Rightarrow> (g, wakeups, PollCancelled)
                | Cancelled \<Rightarrow> (remove_terminal_locked g rid, wakeups, PollCancelled)
                | Failed err \<Rightarrow> (remove_terminal_locked g rid, wakeups, PollFailed err))))"

section \<open>Tickets\<close>

definition release_ticket_slot :: "HostGovernor \<Rightarrow> HostGovernor" where
  "release_ticket_slot g = g\<lparr>mailbox := release_slot (mailbox g)\<rparr>"

definition disarm :: "HostGovernor \<Rightarrow> PressureTicket \<Rightarrow> HostGovernor \<times> PressureTicket" where
  "disarm g t = (if tk_resolved t then (g, t) else (release_ticket_slot g, t\<lparr>tk_resolved := True\<rparr>))"

definition ticket_try_claim :: "HostGovernor \<Rightarrow> PressureTicket \<Rightarrow> HostGovernor \<times> PressureTicket \<times> nat list \<times> TicketPoll" where
  "ticket_try_claim g t =
     (if tk_resolved t then (g, t, [], PollCancelled)
      else case governor_try_claim g (tk_request_id t) of
        (g', wakeups, PollPending) \<Rightarrow> (g', t, wakeups, PollPending)
      | (g', wakeups, poll) \<Rightarrow> (case disarm g' t of (g'', t') \<Rightarrow> (g'', t', wakeups, poll)))"

text \<open>What \<open>wait\<close> returns after a poll; \<^const>\<open>None\<close> is parking on the notifier and polling again.\<close>

fun wait_result :: "TicketPoll \<Rightarrow> (ResourceError + HostAllocation) option" where
  "wait_result (PollGranted a) = Some (Inr a)"
| "wait_result (PollFailed err) = Some (Inl err)"
| "wait_result PollCancelled = Some (Inl (InvalidHostRequest ''ticket was cancelled''))"
| "wait_result PollPending = None"

definition ticket_drop :: "HostGovernor \<Rightarrow> PressureTicket \<Rightarrow> HostGovernor \<times> bool" where
  "ticket_drop g t =
     (if tk_resolved t then (g, True)
      else publish_cancel g \<lparr>cc_request_id = tk_request_id t, cc_generation = tk_generation t\<rparr>)"

end
