(* ===== verification/HostPressureInv.thy ===== *)
theory HostPressureInv
  imports HostPressure
begin

text \<open>
  The host governor's ledger, transition by transition. Every operation of the governor is a
  sequence of small steps, one for each event it emits and a few that emit none; the ledger's
  invariant is shown for the steps, and the operations inherit it.
\<close>

section \<open>What emitting leaves alone\<close>

lemma emit_payload_simps [simp]:
  "capacity (emit_payload g p) = capacity g" "fixed_charge (emit_payload g p) = fixed_charge g"
  "free (emit_payload g p) = free g" "reclaimable (emit_payload g p) = reclaimable g"
  "generation (emit_payload g p) = generation g" "entries (emit_payload g p) = entries g"
  "next_request (emit_payload g p) = next_request g" "next_alloc (emit_payload g p) = next_alloc g"
  "next_submit_seq (emit_payload g p) = next_submit_seq g" "mailbox (emit_payload g p) = mailbox g"
  "trace (emit_payload g p) = trace g" "next_source_sequence (emit_payload g p) = next_source_sequence g"
  "governor_source (emit_payload g p) = governor_source g" "governor_epoch (emit_payload g p) = governor_epoch g"
  "governor_host (emit_payload g p) = governor_host g" "governor_actor (emit_payload g p) = governor_actor g"
  by (simp_all add: emit_payload_def split: option.split)

lemma emit_locked_simps [simp]:
  "capacity (emit_locked g k) = capacity g" "fixed_charge (emit_locked g k) = fixed_charge g"
  "free (emit_locked g k) = free g" "reclaimable (emit_locked g k) = reclaimable g"
  "generation (emit_locked g k) = generation g" "entries (emit_locked g k) = entries g"
  "next_request (emit_locked g k) = next_request g" "next_alloc (emit_locked g k) = next_alloc g"
  "next_submit_seq (emit_locked g k) = next_submit_seq g" "mailbox (emit_locked g k) = mailbox g"
  "governor_source (emit_locked g k) = governor_source g" "governor_epoch (emit_locked g k) = governor_epoch g"
  "governor_host (emit_locked g k) = governor_host g" "governor_actor (emit_locked g k) = governor_actor g"
  "trace (emit_locked g k) = trace g @
     [\<lparr>contract_revision = CONTRACT_REVISION, topology_epoch = governor_epoch g,
       event_source = governor_source g, source_sequence = next_source_sequence g, event_kind = Pressure k\<rparr>]"
  "next_source_sequence (emit_locked g k) = sat_add_u64 (next_source_sequence g) 1"
  by (simp_all add: emit_locked_def)

lemma set_state_simps [simp]:
  "capacity (set_state g r e st) = capacity g" "fixed_charge (set_state g r e st) = fixed_charge g"
  "free (set_state g r e st) = free g" "reclaimable (set_state g r e st) = reclaimable g"
  "generation (set_state g r e st) = generation g" "next_request (set_state g r e st) = next_request g"
  "next_alloc (set_state g r e st) = next_alloc g" "next_submit_seq (set_state g r e st) = next_submit_seq g"
  "mailbox (set_state g r e st) = mailbox g" "trace (set_state g r e st) = trace g"
  "governor_source (set_state g r e st) = governor_source g" "governor_epoch (set_state g r e st) = governor_epoch g"
  "next_source_sequence (set_state g r e st) = next_source_sequence g"
  "entries (set_state g r e st) = AList.update r (e\<lparr>le_state := st\<rparr>) (entries g)"
  by (simp_all add: set_state_def)

lemma remove_terminal_simps [simp]:
  "capacity (remove_terminal_locked g r) = capacity g" "fixed_charge (remove_terminal_locked g r) = fixed_charge g"
  "free (remove_terminal_locked g r) = free g" "reclaimable (remove_terminal_locked g r) = reclaimable g"
  "generation (remove_terminal_locked g r) = generation g" "next_request (remove_terminal_locked g r) = next_request g"
  "next_alloc (remove_terminal_locked g r) = next_alloc g" "next_submit_seq (remove_terminal_locked g r) = next_submit_seq g"
  "mailbox (remove_terminal_locked g r) = mailbox g" "trace (remove_terminal_locked g r) = trace g"
  "governor_source (remove_terminal_locked g r) = governor_source g" "governor_epoch (remove_terminal_locked g r) = governor_epoch g"
  "next_source_sequence (remove_terminal_locked g r) = next_source_sequence g"
  "entries (remove_terminal_locked g r) = AList.delete r (entries g)"
  by (simp_all add: remove_terminal_locked_def)

section \<open>The steps of the ledger\<close>

text \<open>The allocation a grant creates for an entry.\<close>

definition allocation_of :: "nat \<Rightarrow> nat \<Rightarrow> LedgerEntry \<Rightarrow> HostAllocation" where
  "allocation_of a rid e =
     \<lparr>ha_id = a, ha_request_id = rid, ha_owner = le_owner e, ha_bytes = le_bytes e,
      ha_generation = le_generation e, ha_pinned = le_pinned e\<rparr>"

definition is_terminal :: "LedgerEntry \<Rightarrow> bool" where
  "is_terminal e = (case le_state e of Cancelled \<Rightarrow> True | Failed _ \<Rightarrow> True | _ \<Rightarrow> False)"

inductive quiet_step :: "HostGovernor \<Rightarrow> HostGovernor \<Rightarrow> bool" where
  qs_submit: "quiet_step g (emit_locked (g\<lparr>next_request := next_request g + 1, next_submit_seq := next_submit_seq g + 1,
      mailbox := mb, entries := AList.update (next_request g) e (entries g)\<rparr>)
      (Submit (next_request g) (generation g) (le_owner e) (le_bytes e)))"
    if "le_state e = Pending rq" "0 < le_bytes e" "le_bytes e \<le> max_satisfiable g" "le_generation e = generation g"
      "le_submit_seq e = next_submit_seq g" "le_age e = 0"
| qs_claim: "quiet_step g (emit_locked (set_state g rid e (Claimed a)) (Claim rid (ha_id a) (ha_bytes a)))"
    if "map_of (entries g) rid = Some e" "le_state e = Granted a"
| qs_cancel_pending: "quiet_step g (remove_terminal_locked (emit_locked (set_state g rid e Cancelled) (CancelPending rid)) rid)"
    if "map_of (entries g) rid = Some e" "is_pending e"
| qs_cancel_granted: "quiet_step g (remove_terminal_locked (emit_locked (set_state (g\<lparr>free := free g + le_bytes e\<rparr>) rid e Cancelled)
      (CancelGranted rid (ha_id a) (le_bytes e))) rid)"
    if "map_of (entries g) rid = Some e" "le_state e = Granted a"
| qs_timeout_pending: "quiet_step g (emit_locked (set_state g rid e (Failed err)) (TimeoutPending rid))"
    if "map_of (entries g) rid = Some e" "is_pending e"
| qs_timeout_granted: "quiet_step g (emit_locked (set_state (g\<lparr>free := free g + le_bytes e\<rparr>) rid e (Failed err))
      (TimeoutGranted rid (ha_id a) (le_bytes e)))"
    if "map_of (entries g) rid = Some e" "le_state e = Granted a"
| qs_release: "quiet_step g (remove_terminal_locked (emit_locked (g\<lparr>free := free g + ha_bytes a\<rparr>)
      (Release rid (ha_id a) (ha_bytes a))) rid)"
    if "map_of (entries g) rid = Some e" "le_state e = Claimed a"
| qs_reconfigure: "quiet_step g (emit_locked (g\<lparr>generation := generation g + 1,
      entries := map (fail_stale (generation g + 1)) (entries g)\<rparr>) (Reconfigure (generation g + 1)))"
| qs_reclaim: "quiet_step g (emit_locked (g\<lparr>reclaimable := AList.update d (r - n) (reclaimable g), free := free g + n\<rparr>) (Reclaim d n))"
    if "map_of (reclaimable g) d = Some r" "0 < n" "n \<le> r"
| qs_reap: "quiet_step g (remove_terminal_locked g rid)"
    if "map_of (entries g) rid = Some e" "is_terminal e"
| qs_age: "quiet_step g (g\<lparr>entries := map (\<lambda>(rid, e). (rid, age_entry (generation g) e)) (entries g)\<rparr>)"
| qs_mailbox: "quiet_step g (g\<lparr>mailbox := mb\<rparr>)"
| qs_skip_number: "quiet_step g (g\<lparr>next_request := next_request g + 1, next_submit_seq := next_submit_seq g + 1\<rparr>)"
| qs_shortfall: "quiet_step g (g\<lparr>reclaim_shortfall := b\<rparr>)"
| qs_payload: "quiet_step g (emit_payload g p)"

inductive grant_step :: "HostGovernor \<Rightarrow> HostGovernor \<Rightarrow> bool" where
  gs_grant: "grant_step g (emit_locked (set_state (g\<lparr>free := free g - le_bytes e, next_alloc := next_alloc g + 1\<rparr>) rid e
      (Granted (allocation_of (next_alloc g) rid e))) (Grant rid (next_alloc g) (le_owner e) (le_bytes e)))"
    if "map_of (entries g) rid = Some e" "is_pending e" "le_generation e = generation g" "le_bytes e \<le> free g"

definition ledger_step :: "HostGovernor \<Rightarrow> HostGovernor \<Rightarrow> bool" where
  "ledger_step g g' \<longleftrightarrow> quiet_step g g' \<or> grant_step g g'"

abbreviation ledger_steps :: "HostGovernor \<Rightarrow> HostGovernor \<Rightarrow> bool" where
  "ledger_steps \<equiv> ledger_step\<^sup>*\<^sup>*"

section \<open>The invariant\<close>

definition entry_ok :: "HostGovernor \<Rightarrow> nat \<Rightarrow> LedgerEntry \<Rightarrow> bool" where
  "entry_ok g rid e \<longleftrightarrow>
     0 < le_bytes e \<and> le_bytes e \<le> max_satisfiable g \<and> le_age e \<le> AGING_CAP \<and>
     rid < next_request g \<and> rid = le_submit_seq e + 1 \<and> le_generation e \<le> generation g \<and>
     (case le_state e of
        Pending _ \<Rightarrow> le_generation e = generation g
      | Granted a \<Rightarrow> a = allocation_of (ha_id a) rid e \<and> ha_id a < next_alloc g
      | Claimed a \<Rightarrow> a = allocation_of (ha_id a) rid e \<and> ha_id a < next_alloc g
      | Cancelled \<Rightarrow> False
      | Failed _ \<Rightarrow> True)"

fun allocation_id :: "LedgerEntry \<Rightarrow> nat option" where
  "allocation_id e = (case le_state e of Granted a \<Rightarrow> Some (ha_id a) | Claimed a \<Rightarrow> Some (ha_id a) | _ \<Rightarrow> None)"

definition ledger_ok :: "HostGovernor \<Rightarrow> bool" where
  "ledger_ok g \<longleftrightarrow>
     distinct (map fst (entries g)) \<and> distinct (map fst (reclaimable g)) \<and>
     (\<forall>rid e. map_of (entries g) rid = Some e \<longrightarrow> entry_ok g rid e) \<and>
     (\<forall>r1 r2 e1 e2 a. map_of (entries g) r1 = Some e1 \<longrightarrow> map_of (entries g) r2 = Some e2 \<longrightarrow>
        allocation_id e1 = Some a \<longrightarrow> allocation_id e2 = Some a \<longrightarrow> r1 = r2) \<and>
     next_request g = next_submit_seq g + 1 \<and> capacity g \<le> u64_max \<and>
     fixed_charge g + free g + weight snd (reclaimable g) +
       weight (entry_reserved_bytes \<circ> snd) (entries g) + weight (entry_claimed_bytes \<circ> snd) (entries g) = capacity g"

lemma entry_bytes_simps [simp]:
  "le_state e = Pending q \<Longrightarrow> entry_reserved_bytes e = 0" "le_state e = Pending q \<Longrightarrow> entry_claimed_bytes e = 0"
  "le_state e = Granted a \<Longrightarrow> entry_reserved_bytes e = le_bytes e" "le_state e = Granted a \<Longrightarrow> entry_claimed_bytes e = 0"
  "le_state e = Claimed a \<Longrightarrow> entry_reserved_bytes e = 0" "le_state e = Claimed a \<Longrightarrow> entry_claimed_bytes e = le_bytes e"
  "is_pending e \<Longrightarrow> entry_reserved_bytes e = 0" "is_pending e \<Longrightarrow> entry_claimed_bytes e = 0"
  "is_terminal e \<Longrightarrow> entry_reserved_bytes e = 0" "is_terminal e \<Longrightarrow> entry_claimed_bytes e = 0"
  "entry_reserved_bytes (e\<lparr>le_state := Granted a\<rparr>) = le_bytes e" "entry_claimed_bytes (e\<lparr>le_state := Granted a\<rparr>) = 0"
  "entry_reserved_bytes (e\<lparr>le_state := Claimed a\<rparr>) = 0" "entry_claimed_bytes (e\<lparr>le_state := Claimed a\<rparr>) = le_bytes e"
  "entry_reserved_bytes (e\<lparr>le_state := Cancelled\<rparr>) = 0" "entry_claimed_bytes (e\<lparr>le_state := Cancelled\<rparr>) = 0"
  "entry_reserved_bytes (e\<lparr>le_state := Failed err\<rparr>) = 0" "entry_claimed_bytes (e\<lparr>le_state := Failed err\<rparr>) = 0"
  by (auto simp: entry_reserved_bytes_def entry_claimed_bytes_def is_pending_def is_terminal_def split: PressureState.splits)

lemma allocation_of_simps [simp]:
  "ha_id (allocation_of a rid e) = a" "ha_request_id (allocation_of a rid e) = rid" "ha_bytes (allocation_of a rid e) = le_bytes e"
  "allocation_of a rid (e\<lparr>le_state := st\<rparr>) = allocation_of a rid e" "allocation_of a rid (e\<lparr>le_age := n\<rparr>) = allocation_of a rid e"
  by (simp_all add: allocation_of_def)

lemma ledger_okD:
  assumes "ledger_ok g"
  shows "distinct (map fst (entries g))" "distinct (map fst (reclaimable g))"
    "map_of (entries g) rid = Some e \<Longrightarrow> entry_ok g rid e"
    "map_of (entries g) r1 = Some e1 \<Longrightarrow> map_of (entries g) r2 = Some e2 \<Longrightarrow> allocation_id e1 = Some a \<Longrightarrow>
      allocation_id e2 = Some a \<Longrightarrow> r1 = r2"
    "next_request g = next_submit_seq g + 1" "capacity g \<le> u64_max"
    "fixed_charge g + free g + weight snd (reclaimable g) +
      weight (entry_reserved_bytes \<circ> snd) (entries g) + weight (entry_claimed_bytes \<circ> snd) (entries g) = capacity g"
  using assms unfolding ledger_ok_def by blast+

lemma entry_ok_mono:
  assumes "entry_ok g r e" "capacity g' = capacity g" "fixed_charge g' = fixed_charge g" "generation g' = generation g"
    "next_request g \<le> next_request g'" "next_alloc g \<le> next_alloc g'"
  shows "entry_ok g' r e"
  using assms by (auto simp: entry_ok_def max_satisfiable_def split: PressureState.splits)

lemma ledger_okI:
  assumes "distinct (map fst (entries g))" "distinct (map fst (reclaimable g))"
    "\<And>rid e. map_of (entries g) rid = Some e \<Longrightarrow> entry_ok g rid e"
    "\<And>r1 r2 e1 e2 a. map_of (entries g) r1 = Some e1 \<Longrightarrow> map_of (entries g) r2 = Some e2 \<Longrightarrow>
      allocation_id e1 = Some a \<Longrightarrow> allocation_id e2 = Some a \<Longrightarrow> r1 = r2"
    "next_request g = next_submit_seq g + 1" "capacity g \<le> u64_max"
    "fixed_charge g + free g + weight snd (reclaimable g) +
      weight (entry_reserved_bytes \<circ> snd) (entries g) + weight (entry_claimed_bytes \<circ> snd) (entries g) = capacity g"
  shows "ledger_ok g"
  using assms unfolding ledger_ok_def by blast

lemma allocation_id_less: "entry_ok g rid e \<Longrightarrow> allocation_id e = Some a \<Longrightarrow> a < next_alloc g"
  by (auto simp: entry_ok_def split: PressureState.splits)

lemma granted_allocation:
  assumes "ledger_ok g" "map_of (entries g) rid = Some e"
  shows "le_state e = Granted a \<Longrightarrow> a = allocation_of (ha_id a) rid e" "le_state e = Claimed a \<Longrightarrow> a = allocation_of (ha_id a) rid e"
    "le_state e = Granted a \<Longrightarrow> ha_bytes a = le_bytes e" "le_state e = Claimed a \<Longrightarrow> ha_bytes a = le_bytes e"
    "le_state e = Claimed a \<Longrightarrow> ha_request_id a = rid"
  using ledger_okD(3) [OF assms] by (auto simp: entry_ok_def) (metis allocation_of_simps(2,3))+

text \<open>Changing one entry.\<close>

lemma ledger_ok_update:
  assumes ok: "ledger_ok g" and e: "map_of (entries g) rid = Some e"
    and g': "entries g' = AList.update rid e' (entries g)" "reclaimable g' = reclaimable g" "generation g' = generation g"
      "next_request g' = next_request g" "next_submit_seq g' = next_submit_seq g" "capacity g' = capacity g"
      "fixed_charge g' = fixed_charge g" "next_alloc g \<le> next_alloc g'"
    and new: "entry_ok g' rid e'" "allocation_id e' \<in> {None, allocation_id e, Some (next_alloc g)}"
    and bytes: "free g' + entry_reserved_bytes e' + entry_claimed_bytes e' = free g + entry_reserved_bytes e + entry_claimed_bytes e"
  shows "ledger_ok g'"
proof -
  note D = ledger_okD [OF ok]
  have w: "weight (entry_reserved_bytes \<circ> snd) (entries g') + entry_reserved_bytes e = weight (entry_reserved_bytes \<circ> snd) (entries g) + entry_reserved_bytes e'"
    "weight (entry_claimed_bytes \<circ> snd) (entries g') + entry_claimed_bytes e = weight (entry_claimed_bytes \<circ> snd) (entries g) + entry_claimed_bytes e'"
    using weight_alist_update [OF D(1) e, of "entry_reserved_bytes \<circ> snd" e'] weight_alist_update [OF D(1) e, of "entry_claimed_bytes \<circ> snd" e']
    by (simp_all add: g')
  have ent: "entry_ok g' r x" if "map_of (entries g') r = Some x" for r x
    using that new(1) D(3) [of r x] g' by (auto simp: entry_ok_def max_satisfiable_def split: if_splits PressureState.splits)
  have uniq: "r1 = r2" if "map_of (entries g') r1 = Some x1" "map_of (entries g') r2 = Some x2"
      "allocation_id x1 = Some a" "allocation_id x2 = Some a" for r1 r2 x1 x2 a
  proof -
    have less: "a < next_alloc g" if "map_of (entries g) r = Some x" "allocation_id x = Some a" for r x
      using that by (blast intro: allocation_id_less D(3))
    have old: "r = rid" if "map_of (entries g) r = Some x" "allocation_id x = Some a" "allocation_id e' = Some a" for r x
      using that new(2) e D(4) less by (metis empty_iff insert_iff less_irrefl option.discI option.inject)
    show ?thesis using that D(4) old by (auto simp: g' simp del: allocation_id.simps split: if_splits)
  qed
  have fin: "fixed_charge g' + free g' + weight snd (reclaimable g') +
      weight (entry_reserved_bytes \<circ> snd) (entries g') + weight (entry_claimed_bytes \<circ> snd) (entries g') = capacity g'"
    using w bytes D(7) g' by simp
  have keys: "distinct (map fst (entries g'))" using D(1) by (simp add: g')
  have rest: "distinct (map fst (reclaimable g'))" "next_request g' = next_submit_seq g' + 1" "capacity g' \<le> u64_max"
    using D(2,5,6) by (simp_all add: g')
  show ?thesis by (rule ledger_okI) (fact fin ent uniq keys rest)+
qed

text \<open>Removing an entry.\<close>

lemma ledger_ok_delete:
  assumes ok: "ledger_ok g" and e: "map_of (entries g) rid = Some e"
    and g': "entries g' = AList.delete rid (entries g)" "reclaimable g' = reclaimable g" "generation g' = generation g"
      "next_request g' = next_request g" "next_submit_seq g' = next_submit_seq g" "capacity g' = capacity g"
      "fixed_charge g' = fixed_charge g" "next_alloc g' = next_alloc g"
    and bytes: "free g' = free g + entry_reserved_bytes e + entry_claimed_bytes e"
  shows "ledger_ok g'"
proof -
  note D = ledger_okD [OF ok]
  have w: "weight (entry_reserved_bytes \<circ> snd) (entries g') + entry_reserved_bytes e = weight (entry_reserved_bytes \<circ> snd) (entries g)"
    "weight (entry_claimed_bytes \<circ> snd) (entries g') + entry_claimed_bytes e = weight (entry_claimed_bytes \<circ> snd) (entries g)"
    using weight_alist_delete [OF D(1) e, of "entry_reserved_bytes \<circ> snd"] weight_alist_delete [OF D(1) e, of "entry_claimed_bytes \<circ> snd"]
    by (simp_all add: g')
  have sub: "map_of (entries g') r = Some x \<Longrightarrow> map_of (entries g) r = Some x" for r x
    by (auto simp: g' delete_conv' split: if_splits)
  have ent: "entry_ok g' r x" if "map_of (entries g') r = Some x" for r x
    by (rule entry_ok_mono [OF D(3) [OF sub [OF that]]]) (simp_all add: g')
  have keys: "distinct (map fst (entries g'))" using D(1) by (simp add: g' distinct_delete)
  have fin: "fixed_charge g' + free g' + weight snd (reclaimable g') +
      weight (entry_reserved_bytes \<circ> snd) (entries g') + weight (entry_claimed_bytes \<circ> snd) (entries g') = capacity g'"
    using w bytes D(7) g' by simp
  have uniq: "r1 = r2" if "map_of (entries g') r1 = Some x1" "map_of (entries g') r2 = Some x2"
      "allocation_id x1 = Some a" "allocation_id x2 = Some a" for r1 r2 x1 x2 a
    using D(4) sub that by blast
  have rest: "distinct (map fst (reclaimable g'))" "next_request g' = next_submit_seq g' + 1" "capacity g' \<le> u64_max"
    using D(2,5,6) by (simp_all add: g')
  show ?thesis by (rule ledger_okI) (fact fin ent uniq keys rest)+
qed

text \<open>Changing every entry in a way that moves no bytes.\<close>

lemma map_of_map_entries: "map_of (map (\<lambda>(r, e). (r, f r e)) xs) r = map_option (f r) (map_of xs r)"
  by (induction xs) auto

lemma ledger_ok_map:
  assumes ok: "ledger_ok g" and g': "entries g' = map (\<lambda>(r, e). (r, f r e)) (entries g)" "reclaimable g' = reclaimable g"
      "next_request g' = next_request g" "next_submit_seq g' = next_submit_seq g" "capacity g' = capacity g"
      "fixed_charge g' = fixed_charge g" "free g' = free g"
    and f: "\<And>r e. entry_reserved_bytes (f r e) = entry_reserved_bytes e" "\<And>r e. entry_claimed_bytes (f r e) = entry_claimed_bytes e"
      "\<And>r e. allocation_id (f r e) = allocation_id e" "\<And>r e. map_of (entries g) r = Some e \<Longrightarrow> entry_ok g' r (f r e)"
  shows "ledger_ok g'"
proof -
  note D = ledger_okD [OF ok]
  have m: "map_of (entries g') r = map_option (f r) (map_of (entries g) r)" for r
    by (simp add: g' map_of_map_entries)
  have ks: "map fst (entries g') = map fst (entries g)" unfolding g' by (induction "entries g") auto
  have w: "weight (entry_reserved_bytes \<circ> snd) (entries g') = weight (entry_reserved_bytes \<circ> snd) (entries g)"
    "weight (entry_claimed_bytes \<circ> snd) (entries g') = weight (entry_claimed_bytes \<circ> snd) (entries g)"
    unfolding weight_def g' by (auto simp: f case_prod_beta intro!: arg_cong [of _ _ sum_list])
  have uniq: "r1 = r2" if "map_of (entries g') r1 = Some x1" "map_of (entries g') r2 = Some x2"
      "allocation_id x1 = Some a" "allocation_id x2 = Some a" for r1 r2 x1 x2 a
  proof -
    from that obtain e1 e2 where "map_of (entries g) r1 = Some e1" "x1 = f r1 e1" "map_of (entries g) r2 = Some e2" "x2 = f r2 e2"
      by (auto simp: m simp del: allocation_id.simps)
    with that f(3) D(4) show ?thesis by metis
  qed
  have ent: "entry_ok g' r x" if "map_of (entries g') r = Some x" for r x
    using that f(4) by (auto simp: m)
  have fin: "fixed_charge g' + free g' + weight snd (reclaimable g') +
      weight (entry_reserved_bytes \<circ> snd) (entries g') + weight (entry_claimed_bytes \<circ> snd) (entries g') = capacity g'"
    using w D(7) g' by simp
  have keys: "distinct (map fst (entries g'))" using D(1) by (simp only: ks)
  have rest: "distinct (map fst (reclaimable g'))" "next_request g' = next_submit_seq g' + 1" "capacity g' \<le> u64_max"
    using D(2,5,6) by (simp_all add: g')
  show ?thesis by (rule ledger_okI) (fact fin ent uniq keys rest)+
qed

lemma is_pendingE:
  assumes "is_pending e"
  obtains q where "le_state e = Pending q"
  using assms by (auto simp: is_pending_def split: PressureState.splits)

lemma ledger_ok_insert:
  assumes ok: "ledger_ok g" and e: "le_state e = Pending rq" "0 < le_bytes e" "le_bytes e \<le> max_satisfiable g"
      "le_generation e = generation g" "le_submit_seq e = next_submit_seq g" "le_age e = 0"
    and g': "entries g' = AList.update (next_request g) e (entries g)" "reclaimable g' = reclaimable g" "generation g' = generation g"
      "next_request g' = next_request g + 1" "next_submit_seq g' = next_submit_seq g + 1" "capacity g' = capacity g"
      "fixed_charge g' = fixed_charge g" "next_alloc g' = next_alloc g" "free g' = free g"
  shows "ledger_ok g'"
proof -
  note D = ledger_okD [OF ok]
  have fresh: "map_of (entries g) (next_request g) = None"
  proof (cases "map_of (entries g) (next_request g)")
    case (Some x)
    with D(3) show ?thesis by (auto simp: entry_ok_def)
  qed simp
  have ent: "entry_ok g' r x" if "map_of (entries g') r = Some x" for r x
  proof (cases "r = next_request g")
    case True
    with that e D(5) show ?thesis by (simp add: g' entry_ok_def max_satisfiable_def)
  next
    case False
    show ?thesis by (rule entry_ok_mono [OF D(3)]) (use that False in \<open>simp_all add: g'\<close>)
  qed
  have none: "allocation_id e = None" by (simp add: e)
  have uniq: "r1 = r2" if "map_of (entries g') r1 = Some x1" "map_of (entries g') r2 = Some x2"
      "allocation_id x1 = Some a" "allocation_id x2 = Some a" for r1 r2 x1 x2 a
    using that none D(4) by (auto simp: g' simp del: allocation_id.simps split: if_splits)
  have fin: "fixed_charge g' + free g' + weight snd (reclaimable g') +
      weight (entry_reserved_bytes \<circ> snd) (entries g') + weight (entry_claimed_bytes \<circ> snd) (entries g') = capacity g'"
    using D(7) e by (simp add: g' weight_alist_insert [OF fresh])
  have keys: "distinct (map fst (entries g'))" using D(1) by (simp add: g')
  have rest: "distinct (map fst (reclaimable g'))" "next_request g' = next_submit_seq g' + 1" "capacity g' \<le> u64_max"
    using D(2,5,6) by (simp_all add: g')
  show ?thesis by (rule ledger_okI) (fact fin ent uniq keys rest)+
qed

lemma ledger_ok_reclaim:
  assumes ok: "ledger_ok g" and r: "map_of (reclaimable g) d = Some r" "n \<le> r"
  shows "ledger_ok (g\<lparr>reclaimable := AList.update d (r - n) (reclaimable g), free := free g + n\<rparr>)" (is "ledger_ok ?g")
proof -
  note D = ledger_okD [OF ok]
  have "weight snd (reclaimable ?g) + r = weight snd (reclaimable g) + (r - n)"
    using weight_alist_update [OF D(2) r(1), of snd "r - n"] by simp
  with r(2) D(7) have fin: "fixed_charge ?g + free ?g + weight snd (reclaimable ?g) +
      weight (entry_reserved_bytes \<circ> snd) (entries ?g) + weight (entry_claimed_bytes \<circ> snd) (entries ?g) = capacity ?g" by simp
  have ent: "entry_ok ?g r' x" if "map_of (entries ?g) r' = Some x" for r' x
    by (rule entry_ok_mono [OF D(3)]) (use that in simp_all)
  have uniq: "r1 = r2" if "map_of (entries ?g) r1 = Some x1" "map_of (entries ?g) r2 = Some x2"
      "allocation_id x1 = Some a" "allocation_id x2 = Some a" for r1 r2 x1 x2 a
    using that D(4) by (simp del: allocation_id.simps)
  have rest: "distinct (map fst (entries ?g))" "distinct (map fst (reclaimable ?g))" "next_request ?g = next_submit_seq ?g + 1"
    "capacity ?g \<le> u64_max"
    using D(1,2,5,6) by simp_all
  show ?thesis by (rule ledger_okI) (fact fin ent uniq rest)+
qed

text \<open>Fields the invariant does not look at.\<close>

lemma ledger_ok_cong:
  assumes "ledger_ok g" "entries g' = entries g" "reclaimable g' = reclaimable g" "generation g' = generation g"
    "next_request g' = next_request g" "next_submit_seq g' = next_submit_seq g" "capacity g' = capacity g"
    "fixed_charge g' = fixed_charge g" "next_alloc g' = next_alloc g" "free g' = free g"
  shows "ledger_ok g'"
proof -
  have ent: "entry_ok g' r e" if "map_of (entries g) r = Some e" for r e
    by (rule entry_ok_mono [OF ledger_okD(3) [OF assms(1) that]]) (simp_all add: assms)
  show ?thesis by (rule ledger_okI)
    (use ledger_okD [OF assms(1)] ent in \<open>simp_all add: assms(2-) del: allocation_id.simps\<close>)
qed

lemma ledger_ok_emit [simp]: "ledger_ok (emit_locked g k) = ledger_ok g" "ledger_ok (emit_payload g p) = ledger_ok g"
  by (auto intro: ledger_ok_cong [of "emit_locked g k"] ledger_ok_cong [of g "emit_locked g k"]
    ledger_ok_cong [of "emit_payload g p"] ledger_ok_cong [of g "emit_payload g p"])

lemma fail_stale_conv: "map (fail_stale n) xs = map (\<lambda>(r, e). (r, snd (fail_stale n (r, e)))) xs"
  by (auto simp: fail_stale_def)

lemma fail_stale_keeps:
  "entry_reserved_bytes (snd (fail_stale n (r, e))) = entry_reserved_bytes e"
  "entry_claimed_bytes (snd (fail_stale n (r, e))) = entry_claimed_bytes e"
  "allocation_id (snd (fail_stale n (r, e))) = allocation_id e"
  by (auto simp: fail_stale_def is_stale_def elim!: is_pendingE)

lemma age_entry_keeps [simp]:
  "le_state (age_entry n e) = le_state e" "le_bytes (age_entry n e) = le_bytes e" "le_generation (age_entry n e) = le_generation e"
  "le_owner (age_entry n e) = le_owner e" "le_pinned (age_entry n e) = le_pinned e" "le_submit_seq (age_entry n e) = le_submit_seq e"
  "le_priority (age_entry n e) = le_priority e" "is_pending (age_entry n e) = is_pending e"
  "entry_reserved_bytes (age_entry n e) = entry_reserved_bytes e" "entry_claimed_bytes (age_entry n e) = entry_claimed_bytes e"
  "allocation_id (age_entry n e) = allocation_id e" "allocation_of a rid (age_entry n e) = allocation_of a rid e"
  by (auto simp: age_entry_def entry_reserved_bytes_def entry_claimed_bytes_def is_pending_def allocation_of_def split: PressureState.splits)

lemma age_entry_age:
  "le_age e \<le> le_age (age_entry n e) \<or> AGING_CAP < le_age e" "le_age e \<le> AGING_CAP \<Longrightarrow> le_age (age_entry n e) \<le> AGING_CAP"
  by (auto simp: age_entry_def AGING_CAP_def)

lemma ledger_ok_quiet:
  assumes "quiet_step g g'" "ledger_ok g"
  shows "ledger_ok g'"
  using assms
proof (induction rule: quiet_step.induct)
  case (qs_submit e rq g mb)
  show ?case unfolding ledger_ok_emit
    by (rule ledger_ok_insert [OF qs_submit.prems qs_submit.hyps]) simp_all
next
  case (qs_claim g rid e a)
  have ok: "entry_ok g rid e" using qs_claim by (blast intro: ledger_okD(3))
  show ?case unfolding ledger_ok_emit
    by (rule ledger_ok_update [OF qs_claim.prems qs_claim.hyps(1), where e' = "e\<lparr>le_state := Claimed a\<rparr>"])
      (use ok qs_claim.hyps in \<open>auto simp: entry_ok_def max_satisfiable_def\<close>)
next
  case (qs_cancel_pending g rid e)
  then show ?case by (intro ledger_ok_delete [OF qs_cancel_pending.prems qs_cancel_pending.hyps(1)]) (simp_all add: delete_update_same)
next
  case (qs_cancel_granted g rid e a)
  then show ?case by (intro ledger_ok_delete [OF qs_cancel_granted.prems qs_cancel_granted.hyps(1)]) (simp_all add: delete_update_same)
next
  case (qs_timeout_pending g rid e err)
  from qs_timeout_pending have ok: "entry_ok g rid e" by (blast intro: ledger_okD(3))
  show ?case unfolding ledger_ok_emit
    by (rule ledger_ok_update [OF qs_timeout_pending.prems qs_timeout_pending.hyps(1), where e' = "e\<lparr>le_state := Failed err\<rparr>"])
      (use ok qs_timeout_pending.hyps in \<open>simp_all add: entry_ok_def max_satisfiable_def\<close>)
next
  case (qs_timeout_granted g rid e a err)
  have ok: "entry_ok g rid e" using qs_timeout_granted by (blast intro: ledger_okD(3))
  show ?case unfolding ledger_ok_emit
    by (rule ledger_ok_update [OF qs_timeout_granted.prems qs_timeout_granted.hyps(1), where e' = "e\<lparr>le_state := Failed err\<rparr>"])
      (use ok qs_timeout_granted.hyps in \<open>simp_all add: entry_ok_def max_satisfiable_def\<close>)
next
  case (qs_release g rid e a)
  have "ha_bytes a = le_bytes e" using qs_release by (intro granted_allocation(4))
  then show ?case
    by (intro ledger_ok_delete [OF qs_release.prems qs_release.hyps(1)]) (use qs_release.hyps in simp_all)
next
  case (qs_reconfigure g)
  show ?case unfolding ledger_ok_emit fail_stale_conv
    by (rule ledger_ok_map [OF qs_reconfigure, where f = "\<lambda>r e. snd (fail_stale (generation g + 1) (r, e))"])
      (auto simp: fail_stale_keeps fail_stale_def is_stale_def is_pending_def entry_ok_def max_satisfiable_def
        dest!: ledger_okD(3) [OF qs_reconfigure] split: PressureState.splits)
next
  case (qs_reclaim g d r n)
  show ?case unfolding ledger_ok_emit by (rule ledger_ok_reclaim [OF qs_reclaim.prems qs_reclaim.hyps(1,3)])
next
  case (qs_reap g rid e)
  then show ?case by (intro ledger_ok_delete [OF qs_reap.prems qs_reap.hyps(1)]) simp_all
next
  case (qs_age g)
  show ?case
    by (rule ledger_ok_map [OF qs_age, where f = "\<lambda>r e. age_entry (generation g) e"])
      (auto simp: entry_ok_def max_satisfiable_def age_entry_age(2)
        dest!: ledger_okD(3) [OF qs_age] simp del: allocation_id.simps split: PressureState.splits)
next
  case (qs_skip_number g)
  note D = ledger_okD [OF qs_skip_number]
  show ?case
  proof (rule ledger_okI)
    fix rid e
    assume "map_of (entries (g\<lparr>next_request := next_request g + 1, next_submit_seq := next_submit_seq g + 1\<rparr>)) rid = Some e"
    then show "entry_ok (g\<lparr>next_request := next_request g + 1, next_submit_seq := next_submit_seq g + 1\<rparr>) rid e"
      by (intro entry_ok_mono [OF D(3)]) simp_all
  qed (use D in \<open>simp_all del: allocation_id.simps\<close>)
qed (auto intro: ledger_ok_cong)

lemma ledger_ok_grant:
  assumes "grant_step g g'" "ledger_ok g"
  shows "ledger_ok g'"
  using assms
proof (induction rule: grant_step.induct)
  case (gs_grant g rid e)
  from gs_grant.hyps(2) obtain q where q: "le_state e = Pending q" by (rule is_pendingE)
  have ok: "entry_ok g rid e" using gs_grant by (blast intro: ledger_okD(3))
  show ?case unfolding ledger_ok_emit
    by (rule ledger_ok_update [OF gs_grant.prems gs_grant.hyps(1), where e' = "e\<lparr>le_state := Granted (allocation_of (next_alloc g) rid e)\<rparr>"])
      (use ok q gs_grant.hyps in \<open>simp_all add: entry_ok_def max_satisfiable_def\<close>)
qed

lemma ledger_ok_step: "ledger_step g g' \<Longrightarrow> ledger_ok g \<Longrightarrow> ledger_ok g'"
  by (auto simp: ledger_step_def intro: ledger_ok_quiet ledger_ok_grant)

lemma ledger_ok_steps: "ledger_steps g g' \<Longrightarrow> ledger_ok g \<Longrightarrow> ledger_ok g'"
  by (induction rule: rtranclp_induct) (auto intro: ledger_ok_step)

end
