(* ===== verification/HostPressureOps.thy ===== *)
theory HostPressureOps
  imports HostPressureInv
begin

text \<open>
  The governor's operations as runs of ledger steps. A run alternates steps that grant nothing
  with whole arbitration rounds and collects the requests to wake; on a consistent ledger every
  operation is such a run and none of its internal checks fails. What is shown of runs then
  holds of every operation: the invariant, who is woken, and the order of grants.
\<close>

section \<open>Arbitration\<close>

definition pending_at :: "HostGovernor \<Rightarrow> nat \<Rightarrow> bool" where
  "pending_at g rid \<longleftrightarrow> (\<exists>e. map_of (entries g) rid = Some e \<and> is_pending e)"

definition matured_at :: "HostGovernor \<Rightarrow> nat \<Rightarrow> bool" where
  "matured_at g rid \<longleftrightarrow> (\<exists>e. map_of (entries g) rid = Some e \<and> is_pending e \<and> AGING_CAP \<le> le_age e)"

text \<open>Requests granted by a piece of trace.\<close>

definition granted_in :: "ProtocolTraceEvent list \<Rightarrow> nat set" where
  "granted_in t = {rid. \<exists>a d n. Pressure (Grant rid a d n) \<in> event_kind ` set t}"

lemma granted_in_simps [simp]: "granted_in [] = {}" "granted_in (s @ t) = granted_in s \<union> granted_in t"
  unfolding granted_in_def set_append image_Un by (simp, blast)

text \<open>The outcome of granting along a list of candidates.\<close>

definition grants :: "candidate list \<Rightarrow> HostGovernor \<Rightarrow> nat list \<Rightarrow> HostGovernor \<Rightarrow> bool" where
  "grants cs g w g' \<longleftrightarrow>
     grant_step\<^sup>*\<^sup>* g g' \<and> set w \<subseteq> fst ` set cs \<and> generation g' = generation g \<and> mailbox g' = mailbox g \<and>
     next_request g' = next_request g \<and> free g' \<le> free g \<and>
     (\<exists>t. trace g' = trace g @ t \<and> granted_in t = set w) \<and>
     (\<forall>rid. rid \<notin> set w \<longrightarrow> map_of (entries g') rid = map_of (entries g) rid) \<and>
     (\<forall>rid \<in> set w. \<exists>e a. map_of (entries g) rid = Some e \<and> is_pending e \<and> map_of (entries g') rid = Some (e\<lparr>le_state := Granted a\<rparr>)) \<and>
     (\<forall>xs c ys. cs = xs @ c # ys \<longrightarrow> fst (snd c) \<longrightarrow> fst c \<notin> set w \<longrightarrow> set w \<inter> fst ` set ys = {}) \<and>
     (\<forall>c \<in> set cs. fst c \<notin> set w \<longrightarrow>
        (\<forall>e. map_of (entries g) (fst c) = Some e \<longrightarrow> free g' < le_bytes e) \<or> (\<exists>d \<in> set cs. fst (snd d) \<and> fst d \<notin> set w))"

lemma host_checked_sub_ok: "b \<le> a \<Longrightarrow> host_checked_sub a b op = Inr (a - b)"
  by (simp add: host_checked_sub_def)

lemma host_checked_add_ok: "a + b \<le> u64_max \<Longrightarrow> host_checked_add a b op = Inr (a + b)"
  by (simp add: host_checked_add_def)

lemma is_pending_state [simp]:
  "\<not> is_pending (e\<lparr>le_state := Granted a\<rparr>)" "\<not> is_pending (e\<lparr>le_state := Claimed a\<rparr>)"
  "\<not> is_pending (e\<lparr>le_state := Cancelled\<rparr>)" "\<not> is_pending (e\<lparr>le_state := Failed err\<rparr>)"
  by (simp_all add: is_pending_def)

lemma grants_Nil: "grants [] g [] g"
  by (simp add: grants_def)

lemma grants_skip:
  assumes gr: "grants cs g w g'" and c: "map_of (entries g) (fst c) = Some e" "free g < le_bytes e" "\<not> fst (snd c)"
  shows "grants (c # cs) g w g'"
proof -
  from gr have blk: "\<And>xs d ys. cs = xs @ d # ys \<Longrightarrow> fst (snd d) \<Longrightarrow> fst d \<notin> set w \<Longrightarrow> set w \<inter> fst ` set ys = {}"
    and wrk: "\<forall>c \<in> set cs. fst c \<notin> set w \<longrightarrow>
        (\<forall>e. map_of (entries g) (fst c) = Some e \<longrightarrow> free g' < le_bytes e) \<or> (\<exists>d \<in> set cs. fst (snd d) \<and> fst d \<notin> set w)"
    and le: "free g' \<le> free g"
    unfolding grants_def by blast+
  have blk': "set w \<inter> fst ` set ys = {}" if "c # cs = xs @ d # ys" "fst (snd d)" "fst d \<notin> set w" for xs d ys
    using that c(3) blk by (cases xs) auto
  have wrk': "\<forall>d \<in> set (c # cs). fst d \<notin> set w \<longrightarrow>
      (\<forall>e. map_of (entries g) (fst d) = Some e \<longrightarrow> free g' < le_bytes e) \<or> (\<exists>d \<in> set (c # cs). fst (snd d) \<and> fst d \<notin> set w)"
    using wrk c(1,2) le by auto
  have sub: "set w \<subseteq> fst ` set (c # cs)" using gr unfolding grants_def by auto
  from gr show ?thesis unfolding grants_def using blk' wrk' sub by (elim conjE) (intro conjI; blast)
qed

lemma grants_block:
  assumes "map_of (entries g) (fst c) = Some e" "free g < le_bytes e" "fst (snd c)"
  shows "grants (c # cs) g [] g"
  using assms unfolding grants_def by (auto intro!: bexI [of _ c])

lemma grants_grant:
  assumes step: "grant_step g g1" and rest: "grants cs g1 w g'"
    and g1: "map_of (entries g) rid = Some e" "is_pending e" "entries g1 = AList.update rid (e\<lparr>le_state := Granted a\<rparr>) (entries g)"
      "generation g1 = generation g" "mailbox g1 = mailbox g" "next_request g1 = next_request g" "free g1 \<le> free g"
      "trace g1 = trace g @ [ev]" "event_kind ev = Pressure (Grant rid x y z)"
    and fresh: "rid \<notin> fst ` set cs"
  shows "grants ((rid, m, p, s) # cs) g (rid # w) g'"
proof -
  from rest have r: "grant_step\<^sup>*\<^sup>* g1 g'" "set w \<subseteq> fst ` set cs" "generation g' = generation g1" "mailbox g' = mailbox g1"
    "next_request g' = next_request g1" "free g' \<le> free g1" "\<exists>t. trace g' = trace g1 @ t \<and> granted_in t = set w"
    and out: "\<forall>r. r \<notin> set w \<longrightarrow> map_of (entries g') r = map_of (entries g1) r"
    and inn: "\<forall>r \<in> set w. \<exists>e a. map_of (entries g1) r = Some e \<and> is_pending e \<and> map_of (entries g') r = Some (e\<lparr>le_state := Granted a\<rparr>)"
    and blk: "\<forall>xs c ys. cs = xs @ c # ys \<longrightarrow> fst (snd c) \<longrightarrow> fst c \<notin> set w \<longrightarrow> set w \<inter> fst ` set ys = {}"
    and wrk: "\<forall>c \<in> set cs. fst c \<notin> set w \<longrightarrow>
        (\<forall>e. map_of (entries g1) (fst c) = Some e \<longrightarrow> free g' < le_bytes e) \<or> (\<exists>d \<in> set cs. fst (snd d) \<and> fst d \<notin> set w)"
    unfolding grants_def by blast+
  have nw: "rid \<notin> set w" using r(2) fresh by blast
  have other: "map_of (entries g1) r = map_of (entries g) r" if "r \<noteq> rid" for r using that by (simp add: g1(3))
  obtain t where t: "trace g' = trace g1 @ t" "granted_in t = set w" using r(7) by blast
  have "granted_in [ev] = {rid}" by (auto simp: granted_in_def g1(9))
  then have tr: "\<exists>t. trace g' = trace g @ t \<and> granted_in t = set (rid # w)"
    by (intro exI [of _ "[ev] @ t"]) (simp add: t g1(8) del: append.simps)
  have inn': "\<exists>e a. map_of (entries g) r = Some e \<and> is_pending e \<and> map_of (entries g') r = Some (e\<lparr>le_state := Granted a\<rparr>)"
    if "r \<in> set (rid # w)" for r
  proof (cases "r = rid")
    case True
    then show ?thesis using out nw g1(1,2) by (auto simp: g1(3))
  next
    case False
    with that have "r \<in> set w" by simp
    with inn other [OF False] show ?thesis by metis
  qed
  have blk': "set (rid # w) \<inter> fst ` set ys = {}" if "(rid, m, p, s) # cs = xs @ c # ys" "fst (snd c)" "fst c \<notin> set (rid # w)" for xs c ys
  proof (cases xs)
    case Nil
    with that show ?thesis by auto
  next
    case (Cons x xs')
    with that have cs: "cs = xs' @ c # ys" by simp
    have "fst c \<notin> set w" using that(3) by simp
    with cs that(2) blk have "set w \<inter> fst ` set ys = {}" by blast
    with fresh cs show ?thesis by auto
  qed
  have wrk': "(\<forall>e. map_of (entries g) (fst c) = Some e \<longrightarrow> free g' < le_bytes e) \<or>
      (\<exists>d \<in> set ((rid, m, p, s) # cs). fst (snd d) \<and> fst d \<notin> set (rid # w))" if "c \<in> set ((rid, m, p, s) # cs)" "fst c \<notin> set (rid # w)" for c
  proof -
    from that have c: "c \<in> set cs" "fst c \<notin> set w" "fst c \<noteq> rid" by auto
    have "fst d \<noteq> rid" if "d \<in> set cs" for d using that fresh by auto
    with wrk c other show ?thesis by (metis list.set_intros(2) set_ConsD)
  qed
  have steps: "grant_step\<^sup>*\<^sup>* g g'" using step r(1) by (rule converse_rtranclp_into_rtranclp)
  have out': "map_of (entries g') r = map_of (entries g) r" if "r \<notin> set (rid # w)" for r
    using that out other by auto
  have flat: "set (rid # w) \<subseteq> fst ` set ((rid, m, p, s) # cs)" "generation g' = generation g" "mailbox g' = mailbox g"
    "next_request g' = next_request g" "free g' \<le> free g"
    using r g1 by auto
  show ?thesis unfolding grants_def
    by (intro conjI allI impI ballI steps flat tr) (fact out' inn' blk' wrk')+
qed

lemma grant_loop_grants:
  assumes "ledger_ok g" "\<forall>c \<in> set cs. \<exists>e. map_of (entries g) (fst c) = Some e \<and> is_pending e \<and> le_generation e = generation g"
    and "distinct (map fst cs)"
  shows "\<exists>w g'. grant_loop g cs ws = (g', Inr (ws @ w)) \<and> grants cs g w g'"
  using assms
proof (induction cs arbitrary: g ws)
  case Nil
  show ?case by (intro exI [of _ "[]"] exI [of _ g]) (simp add: grants_Nil)
next
  case (Cons c cs)
  obtain rid m p s where c: "c = (rid, m, p, s)" by (cases c)
  with Cons.prems(2) obtain e where e: "map_of (entries g) rid = Some e" "is_pending e" "le_generation e = generation g" by auto
  have rest: "\<forall>c \<in> set cs. \<exists>e. map_of (entries g) (fst c) = Some e \<and> is_pending e \<and> le_generation e = generation g"
    "distinct (map fst cs)" "rid \<notin> fst ` set cs" using Cons.prems c by auto
  consider (grant) "le_bytes e \<le> free g" | (skip) "free g < le_bytes e" "\<not> m" | (block) "free g < le_bytes e" m by linarith
  then show ?case
  proof cases
    case grant
    define a where "a = allocation_of (next_alloc g) rid e"
    define g1 where "g1 = emit_locked (set_state (g\<lparr>free := free g - le_bytes e, next_alloc := next_alloc g + 1\<rparr>) rid e (Granted a))
        (Grant rid (next_alloc g) (le_owner e) (le_bytes e))"
    have step: "grant_step g g1" unfolding g1_def a_def by (rule gs_grant [OF e grant])
    have "\<forall>c \<in> set cs. \<exists>e. map_of (entries g1) (fst c) = Some e \<and> is_pending e \<and> le_generation e = generation g1"
      using rest(1,3) by (auto simp: g1_def)
    from Cons.IH [OF ledger_ok_grant [OF step Cons.prems(1)] this rest(2), of "ws @ [rid]"]
    obtain w g' where w: "grant_loop g1 cs (ws @ [rid]) = (g', Inr ((ws @ [rid]) @ w))" "grants cs g1 w g'" by blast
    have "grant_loop g (c # cs) ws = grant_loop g1 cs (ws @ [rid])"
      using grant e by (simp add: c host_checked_sub_ok st_lift_def g1_def a_def allocation_of_def Let_def)
    moreover have "grants (c # cs) g (rid # w) g'" unfolding c
      by (rule grants_grant [OF step w(2) e(1,2), where a = a]) (use rest(3) in \<open>auto simp: g1_def\<close>)
    ultimately show ?thesis using w(1) by (intro exI [of _ "rid # w"] exI [of _ g']) simp
  next
    case skip
    from Cons.IH [OF Cons.prems(1) rest(1,2), of ws] obtain w g' where
      w: "grant_loop g cs ws = (g', Inr (ws @ w))" "grants cs g w g'" by blast
    moreover have "grant_loop g (c # cs) ws = grant_loop g cs ws" using skip e by (simp add: c)
    moreover have "grants (c # cs) g w g'" using skip e by (intro grants_skip [OF w(2)]) (simp_all add: c)
    ultimately show ?thesis by (intro exI [of _ w] exI [of _ g']) simp
  next
    case block
    have "grants (c # cs) g [] g" using block e by (intro grants_block) (simp_all add: c)
    moreover have "grant_loop g (c # cs) ws = (g, Inr (ws @ []))" using block e by (simp add: c)
    ultimately show ?thesis by blast
  qed
qed

subsection \<open>The order of candidates\<close>

lemma set_insert_candidate [simp]: "set (insert_candidate c cs) = insert c (set cs)"
  by (induction cs) auto

lemma mset_keys_insert_candidate: "distinct (map fst (insert_candidate c cs)) = distinct (map fst (c # cs))"
  by (induction cs) auto

lemma set_sort_candidates [simp]: "set (sort_candidates cs) = set cs"
  unfolding sort_candidates_def by (induction cs) auto

lemma distinct_sort_candidates: "distinct (map fst cs) \<Longrightarrow> distinct (map fst (sort_candidates cs))"
proof (induction cs)
  case (Cons c cs)
  have "fst ` set (sort_candidates cs) = fst ` set cs" by simp
  with Cons show ?case by (simp add: sort_candidates_def mset_keys_insert_candidate)
qed (simp add: sort_candidates_def)

lemma candidate_order_trans: "\<not> candidate_less b a \<Longrightarrow> \<not> candidate_less c b \<Longrightarrow> \<not> candidate_less c a"
  by (cases a; cases b; cases c) (auto split: if_splits)

lemma candidate_less_asym: "candidate_less a b \<Longrightarrow> \<not> candidate_less b a"
  by (cases a; cases b) (auto split: if_splits)

lemma insert_candidate_sorted:
  "sorted_wrt (\<lambda>a b. \<not> candidate_less b a) cs \<Longrightarrow> sorted_wrt (\<lambda>a b. \<not> candidate_less b a) (insert_candidate c cs)"
proof (induction cs)
  case (Cons d cs)
  show ?case
  proof (cases "candidate_less d c")
    case True
    with Cons show ?thesis by (auto dest: candidate_less_asym)
  next
    case False
    then have "\<not> candidate_less x c" if "x \<in> set cs" for x
      using that Cons.prems candidate_order_trans [of d c x] by simp
    with False Cons.prems show ?thesis by simp
  qed
qed simp

lemma sort_candidates_sorted: "sorted_wrt (\<lambda>a b. \<not> candidate_less b a) (sort_candidates cs)"
  unfolding sort_candidates_def by (induction cs) (auto intro: insert_candidate_sorted)

subsection \<open>A round of arbitration\<close>

definition aged :: "HostGovernor \<Rightarrow> HostGovernor" where
  "aged g = g\<lparr>entries := map (\<lambda>(rid, e). (rid, age_entry (generation g) e)) (entries g)\<rparr>"

lemma aged_simps [simp]:
  "generation (aged g) = generation g" "mailbox (aged g) = mailbox g" "next_request (aged g) = next_request g"
  "trace (aged g) = trace g" "free (aged g) = free g"
  "map_of (entries (aged g)) rid = map_option (age_entry (generation g)) (map_of (entries g) rid)"
  by (simp_all add: aged_def map_of_map_entries)

lemma aged_ok: "ledger_ok g \<Longrightarrow> ledger_ok (aged g)"
  unfolding aged_def by (erule ledger_ok_quiet [OF qs_age])

lemma candidates_conv:
  assumes "distinct (map fst (entries g))"
  shows "(rid, m, p, s) \<in> set (candidates g) \<longleftrightarrow>
    (\<exists>e. map_of (entries g) rid = Some e \<and> is_pending e \<and> le_generation e = generation g \<and>
      m = (AGING_CAP \<le> le_age e) \<and> p = le_priority e \<and> s = le_submit_seq e)"
  using assms by (auto simp: candidates_def image_iff map_of_eq_Some_iff)

lemma candidates_distinct: "distinct (map fst (entries g)) \<Longrightarrow> distinct (map fst (candidates g))"
  unfolding candidates_def by (induction "entries g") (auto simp: distinct_map inj_on_def case_prod_beta)

lemma arbitrate_grants:
  assumes "ledger_ok g"
  obtains w g' where "arbitrate_locked g = (g', Inr w)" "grants (sort_candidates (candidates (aged g))) (aged g) w g'"
proof -
  let ?cs = "sort_candidates (candidates (aged g))"
  have ok: "ledger_ok (aged g)" using assms by (rule aged_ok)
  note d = ledger_okD(1) [OF ok]
  have "\<forall>c \<in> set ?cs. \<exists>e. map_of (entries (aged g)) (fst c) = Some e \<and> is_pending e \<and> le_generation e = generation (aged g)"
    using candidates_conv [OF d] by (fastforce simp del: aged_simps)
  moreover have "distinct (map fst ?cs)" using candidates_distinct [OF d] by (rule distinct_sort_candidates)
  ultimately obtain w g' where "grant_loop (aged g) ?cs [] = (g', Inr ([] @ w))" "grants ?cs (aged g) w g'"
    using grant_loop_grants [OF ok] by blast
  then show thesis by (intro that) (simp_all add: arbitrate_locked_def Let_def flip: aged_def)
qed

text \<open>A matured request that stays pending lets nobody pass who was submitted later.\<close>

lemma arbitrate_order:
  assumes ok: "ledger_ok g" and arb: "arbitrate_locked g = (g', Inr w)"
    and x: "map_of (entries g) x = Some e" "is_pending e" "AGING_CAP \<le> le_age (age_entry (generation g) e)" "x \<notin> set w"
    and y: "y \<in> set w"
  shows "y < x"
proof -
  let ?cs = "sort_candidates (candidates (aged g))"
  from arbitrate_grants [OF ok] arb have gr: "grants ?cs (aged g) w g'" by (metis prod.inject sum.inject(2))
  have ok': "ledger_ok (aged g)" using ok by (rule aged_ok)
  note d = ledger_okD(1) [OF ok']
  have sub: "rid = le_submit_seq e + 1" "le_generation e = generation g \<or> \<not> is_pending e" if "map_of (entries g) rid = Some e" for rid e
    using ledger_okD(3) [OF ok that] by (auto simp: entry_ok_def is_pending_def split: PressureState.splits)
  have cx: "(x, True, le_priority e, le_submit_seq e) \<in> set ?cs"
    using x sub(2) [OF x(1)] by (simp add: candidates_conv [OF d])
  from gr y have "y \<in> fst ` set ?cs" unfolding grants_def by blast
  then obtain m p s where cy: "(y, m, p, s) \<in> set ?cs" by fastforce
  then obtain e' where e': "map_of (entries g) y = Some e'" "s = le_submit_seq e'" by (auto simp: candidates_conv [OF d])
  from cx obtain xs ys where split: "?cs = xs @ (x, True, le_priority e, le_submit_seq e) # ys" by (blast dest: split_list)
  from gr split x(4) have "set w \<inter> fst ` set ys = {}" unfolding grants_def by (metis fst_conv snd_conv)
  with y have "(y, m, p, s) \<notin> set ys" by force
  with cy split x(4) y have "(y, m, p, s) \<in> set xs" by auto
  then have "\<not> candidate_less (x, True, le_priority e, le_submit_seq e) (y, m, p, s)"
    using sort_candidates_sorted [of "candidates (aged g)"] unfolding split sorted_wrt_append by (metis list.set_intros(1))
  then have "s \<le> le_submit_seq e" by (auto split: if_splits)
  with sub(1) [OF x(1)] sub(1) [OF e'(1)] e'(2) x(4) y show ?thesis by (metis add_le_cancel_right le_neq_implies_less)
qed

section \<open>Runs\<close>

text \<open>Requests that stopped waiting and are still in the ledger: somebody has to wake them.\<close>

definition left_pending :: "HostGovernor \<Rightarrow> HostGovernor \<Rightarrow> nat set" where
  "left_pending g g' =
     {x. pending_at g x \<and> (\<exists>e. map_of (entries g') x = Some e \<and> \<not> is_pending e)}"

inductive op_run :: "HostGovernor \<Rightarrow> nat set \<Rightarrow> HostGovernor \<Rightarrow> bool" where
  or_refl: "op_run g {} g"
| or_quiet: "op_run g w g' \<Longrightarrow> quiet_step g' g'' \<Longrightarrow> left_pending g' g'' \<subseteq> w' \<Longrightarrow> op_run g (w \<union> w') g''"
| or_arbitrate: "op_run g w g' \<Longrightarrow> arbitrate_locked g' = (g'', Inr w') \<Longrightarrow> op_run g (w \<union> set w') g''"

lemma op_run_trans: "op_run g' w' g'' \<Longrightarrow> op_run g w g' \<Longrightarrow> op_run g (w \<union> w') g''"
proof (induction rule: op_run.induct)
  case (or_quiet g1 w1 g2 g3 w2)
  from op_run.or_quiet [OF or_quiet.IH [OF or_quiet.prems] or_quiet.hyps(2,3)] show ?case by (simp add: Un_assoc)
next
  case (or_arbitrate g1 w1 g2 g3 w2)
  from op_run.or_arbitrate [OF or_arbitrate.IH [OF or_arbitrate.prems] or_arbitrate.hyps(2)] show ?case by (simp add: Un_assoc)
qed simp

lemma grant_steps_ok: "grant_step\<^sup>*\<^sup>* g g' \<Longrightarrow> ledger_steps g g'"
  by (induction rule: rtranclp_induct) (auto simp: ledger_step_def intro: rtranclp.rtrancl_into_rtrancl)

lemma arbitrate_steps:
  assumes "ledger_ok g" "arbitrate_locked g = (g', Inr w)"
  shows "ledger_steps g g'"
proof -
  from arbitrate_grants [OF assms(1)] assms(2) have "grants (sort_candidates (candidates (aged g))) (aged g) w g'"
    by (metis prod.inject sum.inject(2))
  then have "grant_step\<^sup>*\<^sup>* (aged g) g'" unfolding grants_def by (elim conjE)
  then have "ledger_steps (aged g) g'" by (rule grant_steps_ok)
  moreover have "ledger_step g (aged g)" unfolding ledger_step_def aged_def by (blast intro: qs_age)
  ultimately show ?thesis by (rule converse_rtranclp_into_rtranclp [rotated])
qed

lemma op_run_steps: "op_run g w g' \<Longrightarrow> ledger_ok g \<Longrightarrow> ledger_steps g g' \<and> ledger_ok g'"
proof (induction rule: op_run.induct)
  case (or_quiet g w g' g'' w')
  then show ?case by (auto intro: ledger_ok_quiet rtranclp.rtrancl_into_rtrancl simp: ledger_step_def)
next
  case (or_arbitrate g w g' g'' w')
  then have ok: "ledger_steps g g'" "ledger_ok g'" by simp_all
  from arbitrate_steps [OF ok(2) or_arbitrate.hyps(2)] have s: "ledger_steps g' g''" .
  with ok show ?case using ledger_ok_steps rtranclp_trans by metis
qed simp

lemma op_run_ok: "op_run g w g' \<Longrightarrow> ledger_ok g \<Longrightarrow> ledger_ok g'"
  by (simp add: op_run_steps)

subsection \<open>Fairness of runs\<close>

definition fair :: "HostGovernor \<Rightarrow> HostGovernor \<Rightarrow> bool" where
  "fair g g' \<longleftrightarrow>
     next_request g \<le> next_request g' \<and>
     (\<forall>x. x < next_request g \<longrightarrow> pending_at g' x \<longrightarrow> pending_at g x) \<and>
     (\<exists>t. trace g' = trace g @ t \<and>
       (\<forall>x. matured_at g x \<longrightarrow> pending_at g' x \<longrightarrow> matured_at g' x \<and> (\<forall>y \<in> granted_in t. y < x)))"

lemma fair_refl: "fair g g"
  by (auto simp: fair_def)

lemma matured_known: "ledger_ok g \<Longrightarrow> matured_at g x \<Longrightarrow> x < next_request g"
  by (auto simp: matured_at_def entry_ok_def dest!: ledger_okD(3))

lemma fair_trans:
  assumes "ledger_ok g" and 1: "fair g g'" and 2: "fair g' g''"
  shows "fair g g''"
proof -
  from 1 obtain t1 where t1: "trace g' = trace g @ t1"
    "\<And>x. matured_at g x \<Longrightarrow> pending_at g' x \<Longrightarrow> matured_at g' x \<and> (\<forall>y \<in> granted_in t1. y < x)" by (auto simp: fair_def)
  from 2 obtain t2 where t2: "trace g'' = trace g' @ t2"
    "\<And>x. matured_at g' x \<Longrightarrow> pending_at g'' x \<Longrightarrow> matured_at g'' x \<and> (\<forall>y \<in> granted_in t2. y < x)" by (auto simp: fair_def)
  have n: "next_request g \<le> next_request g'" "next_request g' \<le> next_request g''"
    and p1: "\<And>x. x < next_request g \<Longrightarrow> pending_at g' x \<Longrightarrow> pending_at g x"
    and p2: "\<And>x. x < next_request g' \<Longrightarrow> pending_at g'' x \<Longrightarrow> pending_at g' x"
    using 1 2 by (simp_all add: fair_def)
  have "matured_at g'' x \<and> (\<forall>y \<in> granted_in (t1 @ t2). y < x)" if x: "matured_at g x" "pending_at g'' x" for x
  proof -
    have "pending_at g' x" using matured_known [OF assms(1) x(1)] n(1) by (intro p2 x(2)) simp
    with x t1(2) t2(2) show ?thesis by auto
  qed
  moreover have "pending_at g x" if "x < next_request g" "pending_at g'' x" for x
    using that n(1) by (intro p1 p2) simp_all
  ultimately show ?thesis using t1(1) t2(1) n unfolding fair_def by (auto intro!: exI [of _ "t1 @ t2"])
qed

lemma fair_silent:
  assumes "next_request g \<le> next_request g'" "trace g' = trace g @ t" "granted_in t = {}"
    and "\<And>x e'. x < next_request g \<Longrightarrow> map_of (entries g') x = Some e' \<Longrightarrow> is_pending e' \<Longrightarrow>
      \<exists>e. map_of (entries g) x = Some e \<and> is_pending e \<and> (AGING_CAP \<le> le_age e \<longrightarrow> AGING_CAP \<le> le_age e')"
    and "\<And>x. matured_at g x \<Longrightarrow> x < next_request g"
  shows "fair g g'"
proof -
  have "pending_at g x" if "x < next_request g" "pending_at g' x" for x
    using assms(4) that unfolding pending_at_def by blast
  moreover have "matured_at g' x \<and> (\<forall>y \<in> granted_in t. y < x)" if x: "matured_at g x" "pending_at g' x" for x
    using assms(3) assms(4) [OF assms(5) [OF x(1)]] x unfolding pending_at_def matured_at_def by fastforce
  ultimately show ?thesis using assms(1,2) unfolding fair_def by blast
qed

lemma granted_in_single [simp]: "granted_in [e] = {rid. \<exists>a d n. event_kind e = Pressure (Grant rid a d n)}"
  by (simp add: granted_in_def) metis

lemma map_of_fail_stale: "map_of (map (fail_stale n) xs) r = map_option (\<lambda>e. snd (fail_stale n (r, e))) (map_of xs r)"
  by (simp add: fail_stale_conv map_of_map_entries)

lemma fail_stale_age: "le_age (snd (fail_stale n (r, e))) = le_age e" "is_pending (snd (fail_stale n (r, e))) \<Longrightarrow> is_pending e"
  by (auto simp: fail_stale_def split: if_splits)

lemma fair_quiet:
  assumes "quiet_step g g'" "ledger_ok g"
  shows "fair g g'"
  using assms
proof (induction rule: quiet_step.induct)
  case (qs_reconfigure g)
  show ?case
    by (rule fair_silent) (auto simp: map_of_fail_stale fail_stale_age(1) intro: matured_known [OF qs_reconfigure] dest: fail_stale_age(2))
next
  case (qs_age g)
  show ?case
    by (rule fair_silent [where t = "[]"])
      (auto simp: map_of_map_entries age_entry_def AGING_CAP_def intro: matured_known [OF qs_age])
next
  case (qs_submit e rq g mb)
  show ?case by (rule fair_silent) (auto intro: matured_known [OF qs_submit.prems])
next
  case (qs_release g rid e a)
  show ?case by (rule fair_silent) (auto simp: delete_conv' intro: matured_known [OF qs_release.prems] split: if_splits)
next
  case (qs_reap g rid e)
  show ?case by (rule fair_silent [where t = "[]"]) (auto simp: delete_conv' intro: matured_known [OF qs_reap.prems] split: if_splits)
next
  case (qs_claim g rid e a)
  show ?case by (rule fair_silent) (auto intro: matured_known [OF qs_claim.prems] split: if_splits)
next
  case (qs_cancel_pending g rid e)
  show ?case by (rule fair_silent) (auto simp: delete_conv' intro: matured_known [OF qs_cancel_pending.prems] split: if_splits)
next
  case (qs_cancel_granted g rid e a)
  show ?case by (rule fair_silent) (auto simp: delete_conv' intro: matured_known [OF qs_cancel_granted.prems] split: if_splits)
next
  case (qs_timeout_pending g rid e err)
  show ?case by (rule fair_silent) (auto intro: matured_known [OF qs_timeout_pending.prems] split: if_splits)
next
  case (qs_timeout_granted g rid e a err)
  show ?case by (rule fair_silent) (auto intro: matured_known [OF qs_timeout_granted.prems] split: if_splits)
next
  case (qs_reclaim g d r n)
  show ?case by (rule fair_silent) (auto intro: matured_known [OF qs_reclaim.prems])
qed (rule fair_silent [where t = "[]"], auto intro: matured_known)+

lemma grants_aged:
  assumes "ledger_ok g" "arbitrate_locked g = (g', Inr w)"
  shows "grants (sort_candidates (candidates (aged g))) (aged g) w g'"
  using arbitrate_grants [OF assms(1)] assms(2) by (metis prod.inject sum.inject(2))

text \<open>What a round of arbitration does to each entry.\<close>

lemma arbitrate_entry:
  assumes "ledger_ok g" "arbitrate_locked g = (g', Inr w)"
  shows "rid \<notin> set w \<Longrightarrow> map_of (entries g') rid = map_option (age_entry (generation g)) (map_of (entries g) rid)"
    and "rid \<in> set w \<Longrightarrow> \<exists>e a. map_of (entries g) rid = Some e \<and> is_pending e \<and>
      map_of (entries g') rid = Some ((age_entry (generation g) e)\<lparr>le_state := Granted a\<rparr>)"
    and "next_request g' = next_request g" "mailbox g' = mailbox g" "generation g' = generation g"
    and "\<exists>t. trace g' = trace g @ t \<and> granted_in t = set w"
proof -
  from grants_aged [OF assms] have
    out: "\<forall>rid. rid \<notin> set w \<longrightarrow> map_of (entries g') rid = map_of (entries (aged g)) rid" and
    inn: "\<forall>rid \<in> set w. \<exists>e a. map_of (entries (aged g)) rid = Some e \<and> is_pending e \<and> map_of (entries g') rid = Some (e\<lparr>le_state := Granted a\<rparr>)" and
    rest: "generation g' = generation (aged g)" "mailbox g' = mailbox (aged g)" "next_request g' = next_request (aged g)"
      "\<exists>t. trace g' = trace (aged g) @ t \<and> granted_in t = set w"
    unfolding grants_def by blast+
  show "rid \<notin> set w \<Longrightarrow> map_of (entries g') rid = map_option (age_entry (generation g)) (map_of (entries g) rid)" using out by simp
  show "rid \<in> set w \<Longrightarrow> \<exists>e a. map_of (entries g) rid = Some e \<and> is_pending e \<and>
      map_of (entries g') rid = Some ((age_entry (generation g) e)\<lparr>le_state := Granted a\<rparr>)"
    using inn by fastforce
  show "next_request g' = next_request g" "mailbox g' = mailbox g" "generation g' = generation g"
    "\<exists>t. trace g' = trace g @ t \<and> granted_in t = set w"
    using rest by simp_all
qed

lemma fair_arbitrate:
  assumes ok: "ledger_ok g" and arb: "arbitrate_locked g = (g', Inr w)"
  shows "fair g g'"
proof -
  note A = arbitrate_entry [OF ok arb]
  obtain t where t: "trace g' = trace g @ t" "granted_in t = set w" using A(6) by blast
  have keep: "rid \<notin> set w \<and> (\<exists>e. map_of (entries g) rid = Some e \<and> is_pending e \<and> map_of (entries g') rid = Some (age_entry (generation g) e))"
    if "pending_at g' rid" for rid
  proof -
    from that obtain e' where e': "map_of (entries g') rid = Some e'" "is_pending e'" by (auto simp: pending_at_def)
    then have n: "rid \<notin> set w" using A(2) [of rid] by auto
    with e' A(1) [OF n] show ?thesis by auto
  qed
  have "matured_at g' x \<and> (\<forall>y \<in> granted_in t. y < x)" if x: "matured_at g x" "pending_at g' x" for x
  proof -
    from keep [OF x(2)] obtain e where e: "x \<notin> set w" "map_of (entries g) x = Some e" "is_pending e"
      "map_of (entries g') x = Some (age_entry (generation g) e)" by blast
    with x(1) have "AGING_CAP \<le> le_age (age_entry (generation g) e)" by (auto simp: matured_at_def age_entry_def AGING_CAP_def)
    with e arbitrate_order [OF ok arb e(2,3) this e(1)] show ?thesis by (auto simp: matured_at_def t)
  qed
  moreover have "pending_at g x" if "pending_at g' x" for x using keep [OF that] by (auto simp: pending_at_def)
  ultimately show ?thesis using t(1) A(3) unfolding fair_def by auto
qed

lemma op_run_fair: "op_run g w g' \<Longrightarrow> ledger_ok g \<Longrightarrow> fair g g'"
proof (induction rule: op_run.induct)
  case (or_quiet g w g' g'' w')
  then show ?case by (meson fair_quiet fair_trans op_run_ok)
next
  case (or_arbitrate g w g' g'' w')
  then show ?case by (meson fair_arbitrate fair_trans op_run_ok)
qed (rule fair_refl)

end
