(* ===== verification/HostPressureRuns.thy ===== *)
theory HostPressureRuns
  imports HostPressureOps
begin

text \<open>
  Every operation of the host governor, on a consistent ledger: it is a run, its internal checks
  all pass, and it touches only the ledger entries it is about.
\<close>

section \<open>Entries an operation leaves in place\<close>

definition claimed_as :: "LedgerEntry \<Rightarrow> HostAllocation option" where
  "claimed_as e = (case le_state e of Claimed a \<Rightarrow> Some a | _ \<Rightarrow> None)"

text \<open>Which requests are in the ledger, of which generation, and claimed as what.\<close>

definition shape :: "HostGovernor \<Rightarrow> nat \<rightharpoonup> nat \<times> HostAllocation option" where
  "shape g rid = map_option (\<lambda>e. (le_generation e, claimed_as e)) (map_of (entries g) rid)"

lemma claimed_as_simps [simp]:
  "claimed_as (e\<lparr>le_state := Claimed a\<rparr>) = Some a" "claimed_as (e\<lparr>le_state := Granted a\<rparr>) = None"
  "claimed_as (e\<lparr>le_state := Cancelled\<rparr>) = None" "claimed_as (e\<lparr>le_state := Failed err\<rparr>) = None"
  "is_pending e \<Longrightarrow> claimed_as e = None" "le_state e = Granted a \<Longrightarrow> claimed_as e = None"
  "claimed_as (age_entry n e) = claimed_as e" "is_terminal e \<Longrightarrow> claimed_as e = None"
  by (auto simp: claimed_as_def is_pending_def is_terminal_def split: PressureState.splits)

lemma shape_emit [simp]: "shape (emit_locked g k) = shape g" "shape (emit_payload g p) = shape g"
  by (simp_all add: shape_def fun_eq_iff)

lemma shape_set_state:
  "map_of (entries g) rid = Some e \<Longrightarrow> claimed_as e = None \<Longrightarrow> claimed_as (e\<lparr>le_state := st\<rparr>) = None \<Longrightarrow> shape (set_state g rid e st) = shape g"
  by (auto simp: shape_def fun_eq_iff)

lemma shape_remove: "shape (remove_terminal_locked g rid) = (shape g)(rid := None)"
  by (auto simp: shape_def fun_eq_iff delete_conv')

lemma shape_entries [simp]:
  "shape (g\<lparr>free := n\<rparr>) = shape g" "shape (g\<lparr>mailbox := m\<rparr>) = shape g" "shape (g\<lparr>reclaim_shortfall := b\<rparr>) = shape g"
  "shape (g\<lparr>reclaimable := r\<rparr>) = shape g" "shape (g\<lparr>next_request := n, next_submit_seq := k\<rparr>) = shape g"
  by (simp_all add: shape_def fun_eq_iff)

lemma shape_arbitrate:
  assumes "ledger_ok g" "arbitrate_locked g = (g', Inr w)"
  shows "shape g' = shape g"
proof
  fix rid
  show "shape g' rid = shape g rid"
  proof (cases "rid \<in> set w")
    case True
    then show ?thesis using arbitrate_entry(2) [OF assms, of rid] by (auto simp: shape_def)
  next
    case False
    then show ?thesis using arbitrate_entry(1) [OF assms False] by (simp add: shape_def option.map_comp comp_def)
  qed
qed

lemma arbitrate_reclaimable:
  assumes "ledger_ok g" "arbitrate_locked g = (g', Inr w)"
  shows "reclaimable g' = reclaimable g"
proof -
  have "grant_step\<^sup>*\<^sup>* (aged g) g'" using grants_aged [OF assms] unfolding grants_def by blast
  then have "reclaimable g' = reclaimable (aged g)" by (induction rule: rtranclp_induct) (auto elim!: grant_step.cases)
  then show ?thesis by (simp add: aged_def)
qed

lemma claimed_as_Some: "claimed_as e = Some a \<longleftrightarrow> le_state e = Claimed a"
  by (simp add: claimed_as_def split: PressureState.splits)

section \<open>Building runs\<close>

lemma ledger_step_const: "ledger_step g g' \<Longrightarrow> capacity g' = capacity g \<and> fixed_charge g' = fixed_charge g"
  unfolding ledger_step_def by (auto elim!: quiet_step.cases grant_step.cases)

lemma op_run_const: "op_run g w g' \<Longrightarrow> ledger_ok g \<Longrightarrow> capacity g' = capacity g \<and> fixed_charge g' = fixed_charge g"
proof -
  assume "op_run g w g'" "ledger_ok g"
  then have "ledger_steps g g'" by (simp add: op_run_steps)
  then show ?thesis by (induction rule: rtranclp_induct) (auto dest: ledger_step_const)
qed

lemma or_step: "quiet_step g g' \<Longrightarrow> left_pending g g' \<subseteq> w \<Longrightarrow> op_run g w g'"
  using or_quiet [OF or_refl, of g g' w] by simp

lemma or_arb: "arbitrate_locked g = (g', Inr w) \<Longrightarrow> op_run g (set w) g'"
  using or_arbitrate [OF or_refl, of g g' w] by simp

lemma left_pending_same: "entries g' = entries g \<Longrightarrow> left_pending g g' = {}"
  by (auto simp: left_pending_def pending_at_def)

lemma left_pending_one:
  "map_of (entries g) rid = Some e \<Longrightarrow> entries g' = AList.update rid e' (entries g) \<Longrightarrow> left_pending g g' \<subseteq> {rid}"
  by (auto simp: left_pending_def pending_at_def split: if_splits)

lemma left_pending_none:
  "map_of (entries g) rid = Some e \<Longrightarrow> entries g' = AList.update rid e' (entries g) \<Longrightarrow>
    \<not> is_pending e \<Longrightarrow> left_pending g g' = {}"
  by (auto simp: left_pending_def pending_at_def split: if_splits)

lemma not_pending [simp]: "le_state e = Granted a \<Longrightarrow> \<not> is_pending e" "le_state e = Claimed a \<Longrightarrow> \<not> is_pending e"
  "le_state e = Pending q \<Longrightarrow> is_pending e"
  by (simp_all add: is_pending_def)

lemma left_pending_delete: "entries g' = AList.delete rid (entries g) \<Longrightarrow> left_pending g g' = {}"
  by (auto simp: left_pending_def pending_at_def delete_conv' split: if_splits)

lemma left_pending_cancel: "entries g' = AList.delete rid (AList.update rid e (entries g)) \<Longrightarrow> left_pending g g' = {}"
  by (simp add: delete_update_same left_pending_delete)

text \<open>Credits never overflow: the bytes were part of the capacity.\<close>

lemma credit_fits:
  assumes "ledger_ok g" "map_of (entries g) rid = Some e" "le_state e = Granted a \<or> le_state e = Claimed a"
  shows "free g + le_bytes e \<le> u64_max"
proof -
  have "le_bytes e = entry_reserved_bytes e + entry_claimed_bytes e" using assms(3) by auto
  also have "\<dots> \<le> weight (entry_reserved_bytes \<circ> snd) (entries g) + weight (entry_claimed_bytes \<circ> snd) (entries g)"
    using weight_alist_member [OF assms(2), of "entry_reserved_bytes \<circ> snd"] weight_alist_member [OF assms(2), of "entry_claimed_bytes \<circ> snd"]
    by simp
  finally show ?thesis using ledger_okD(6,7) [OF assms(1)] by linarith
qed

section \<open>Cancellations\<close>

lemma cancel_effect:
  assumes ok: "ledger_ok g"
  obtains w g' where "apply_cancel_locked g c = (g', Inr w)" "op_run g (set w) g'" "mailbox g' = mailbox g" "generation g' = generation g"
    "next_request g' = next_request g" "reclaimable g' = reclaimable g" "shape g' = (case shape g (cc_request_id c) of
      Some (n, None) \<Rightarrow> if n = cc_generation c then (shape g)(cc_request_id c := None) else shape g | _ \<Rightarrow> shape g)"
proof (cases "map_of (entries g) (cc_request_id c)")
  case None
  then show thesis by (intro that [of g "[]"]) (simp_all add: apply_cancel_locked_def Let_def or_refl shape_def)
next
  case (Some e)
  let ?r = "cc_request_id c"
  show thesis
  proof (cases "le_generation e = cc_generation c")
    case False
    with Some show thesis
      by (intro that [of g "[]"]) (simp_all add: apply_cancel_locked_def Let_def or_refl shape_def split: option.split)
  next
    case gen: True
    have sh: "shape g ?r = Some (cc_generation c, claimed_as e)" by (simp add: shape_def Some gen)
    show thesis
    proof (cases "le_state e")
      case (Claimed a)
      with Some gen show thesis
        by (intro that [of g "[]"]) (simp_all add: apply_cancel_locked_def Let_def or_refl shape_def claimed_as_def)
    next
      case (Pending q)
      define g1 where "g1 = emit_locked (set_state g ?r e Cancelled) (CancelPending ?r)"
      have "op_run g {} (remove_terminal_locked g1 ?r)" unfolding g1_def
        by (rule or_step [OF qs_cancel_pending [OF Some]]) (use Pending in \<open>simp_all add: left_pending_cancel\<close>)
      moreover have "shape (remove_terminal_locked g1 ?r) = (shape g)(?r := None)"
        using Some Pending by (simp add: shape_remove g1_def shape_set_state claimed_as_def)
      moreover have "claimed_as e = None" using Pending by (simp add: claimed_as_def)
      ultimately show thesis using Some Pending gen sh
        by (intro that [of "remove_terminal_locked g1 ?r" "[]"]) (simp_all add: apply_cancel_locked_def Let_def g1_def)
    next
      case (Granted a)
      define g1 where "g1 = emit_locked (set_state (g\<lparr>free := free g + le_bytes e\<rparr>) ?r e Cancelled) (CancelGranted ?r (ha_id a) (le_bytes e))"
      have r: "op_run g {} (remove_terminal_locked g1 ?r)" unfolding g1_def
        by (rule or_step [OF qs_cancel_granted [OF Some Granted]]) (simp add: left_pending_cancel)
      have ok1: "ledger_ok (remove_terminal_locked g1 ?r)" using op_run_ok [OF r ok] .
      obtain w g' where a: "arbitrate_locked (remove_terminal_locked g1 ?r) = (g', Inr w)" using arbitrate_grants [OF ok1] by blast
      have "apply_cancel_locked g c = (g', Inr w)"
        using Some Granted gen a credit_fits [OF ok Some, of a]
        by (simp add: apply_cancel_locked_def Let_def host_checked_add_ok st_lift_def g1_def)
      moreover have "op_run g (set w) g'" using op_run_trans [OF or_arb [OF a] r] by simp
      moreover have "shape g' = (shape g)(?r := None)"
        using Some Granted shape_arbitrate [OF ok1 a] by (simp add: shape_remove g1_def shape_set_state [of "g\<lparr>free := _\<rparr>"])
      moreover have "claimed_as e = None" using Granted by (simp add: claimed_as_def)
      ultimately show thesis using sh arbitrate_entry(3-5) [OF ok1 a] arbitrate_reclaimable [OF ok1 a]
        by (intro that [of g' w]) (simp_all add: g1_def)
    next
      case Cancelled
      have "quiet_step g (remove_terminal_locked g ?r)" by (rule qs_reap [OF Some]) (simp add: is_terminal_def Cancelled)
      then have "op_run g {} (remove_terminal_locked g ?r)" by (rule or_step) (simp add: left_pending_delete)
      then show thesis using Some Cancelled gen sh
        by (intro that [of "remove_terminal_locked g ?r" "[]"]) (simp_all add: apply_cancel_locked_def Let_def shape_remove claimed_as_def)
    next
      case (Failed err)
      have "quiet_step g (remove_terminal_locked g ?r)" by (rule qs_reap [OF Some]) (simp add: is_terminal_def Failed)
      then have "op_run g {} (remove_terminal_locked g ?r)" by (rule or_step) (simp add: left_pending_delete)
      then show thesis using Some Failed gen sh
        by (intro that [of "remove_terminal_locked g ?r" "[]"]) (simp_all add: apply_cancel_locked_def Let_def shape_remove claimed_as_def)
    qed
  qed
qed

text \<open>The requests in the ledger after a list of cancellations.\<close>

definition cancel_shape :: "CancelCommand \<Rightarrow> (nat \<rightharpoonup> nat \<times> HostAllocation option) \<Rightarrow> (nat \<rightharpoonup> nat \<times> HostAllocation option)" where
  "cancel_shape c m =
     (case m (cc_request_id c) of
        Some (n, None) \<Rightarrow> if n = cc_generation c then m(cc_request_id c := None) else m
      | _ \<Rightarrow> m)"

lemma cancels_effect:
  assumes "ledger_ok g"
  shows "\<exists>w g'. apply_cancels g cs ws = (g', Inr (ws @ w)) \<and> op_run g (set w) g' \<and> mailbox g' = mailbox g \<and>
    generation g' = generation g \<and> next_request g' = next_request g \<and> reclaimable g' = reclaimable g \<and>
    shape g' = fold cancel_shape cs (shape g)"
  using assms
proof (induction cs arbitrary: g ws)
  case Nil
  show ?case by (intro exI [of _ "[]"] exI [of _ g]) (simp add: or_refl)
next
  case (Cons c cs)
  from cancel_effect [OF Cons.prems, of c] obtain w1 g1 where 1: "apply_cancel_locked g c = (g1, Inr w1)" "op_run g (set w1) g1"
    "mailbox g1 = mailbox g" "generation g1 = generation g" "next_request g1 = next_request g" "reclaimable g1 = reclaimable g" "shape g1 = cancel_shape c (shape g)"
    unfolding cancel_shape_def by metis
  from Cons.IH [OF op_run_ok [OF 1(2) Cons.prems], of "ws @ w1"] obtain w2 g2 where
    2: "apply_cancels g1 cs (ws @ w1) = (g2, Inr ((ws @ w1) @ w2))" "op_run g1 (set w2) g2"
    "mailbox g2 = mailbox g1" "generation g2 = generation g1" "next_request g2 = next_request g1" "reclaimable g2 = reclaimable g1" "shape g2 = fold cancel_shape cs (shape g1)" by blast
  have "op_run g (set (w1 @ w2)) g2" using op_run_trans [OF 2(2) 1(2)] by simp
  moreover have "apply_cancels g (c # cs) ws = (g2, Inr (ws @ w1 @ w2))" using 1(1) 2(1) by (simp add: st_bind_def)
  ultimately show ?case using 1 2 by (intro exI [of _ "w1 @ w2"] exI [of _ g2]) simp
qed

text \<open>Draining the mailbox: what every operation starts with.\<close>

definition drained :: "HostGovernor \<Rightarrow> nat list \<Rightarrow> HostGovernor \<Rightarrow> bool" where
  "drained g w g' \<longleftrightarrow>
     ledger_ok g' \<and> op_run g (set w) g' \<and> mailbox g' = fst (mailbox_drain (mailbox g)) \<and> generation g' = generation g \<and>
     next_request g' = next_request g \<and> reclaimable g' = reclaimable g \<and> shape g' = fold cancel_shape (mb_queue (mailbox g)) (shape g)"

lemma drain_effect:
  assumes ok: "ledger_ok g"
  obtains w g' where "drain_cancellations_locked g = (g', Inr w)" "drained g w g'"
proof -
  let ?g = "g\<lparr>mailbox := fst (mailbox_drain (mailbox g))\<rparr>"
  have q: "quiet_step g ?g" by (rule qs_mailbox)
  have ok': "ledger_ok ?g" using ledger_ok_quiet [OF q ok] .
  from cancels_effect [OF ok', of "mb_queue (mailbox g)" "[]"] obtain w g' where
    c: "apply_cancels ?g (mb_queue (mailbox g)) [] = (g', Inr ([] @ w))" "op_run ?g (set w) g'" "mailbox g' = mailbox ?g"
      "generation g' = generation ?g" "next_request g' = next_request ?g" "reclaimable g' = reclaimable ?g" "shape g' = fold cancel_shape (mb_queue (mailbox g)) (shape ?g)" by blast
  have d: "drain_cancellations_locked g = (g', Inr w)"
    using c(1) by (simp add: drain_cancellations_locked_def mailbox_drain_def)
  have "op_run g ({} \<union> {}) ?g" by (rule or_quiet [OF or_refl q]) (simp add: left_pending_same)
  from op_run_trans [OF c(2) this] have "op_run g (set w) g'" by simp
  then have "drained g w g'" unfolding drained_def using c op_run_ok [OF c(2) ok'] by simp
  then show thesis by (rule that [OF d])
qed

section \<open>The public operations\<close>

lemma shortfall_run: "op_run g {} (enqueue_reclaim_notices_locked g)"
  unfolding enqueue_reclaim_notices_locked_def by (rule or_step [OF qs_shortfall]) (simp add: left_pending_same)

lemma shortfall_simps [simp]:
  "mailbox (enqueue_reclaim_notices_locked g) = mailbox g" "shape (enqueue_reclaim_notices_locked g) = shape g"
  "generation (enqueue_reclaim_notices_locked g) = generation g" "next_request (enqueue_reclaim_notices_locked g) = next_request g"
  "entries (enqueue_reclaim_notices_locked g) = entries g"
  by (simp_all add: enqueue_reclaim_notices_locked_def)

text \<open>An operation that drains, makes one transition, arbitrates and notes the shortfall.\<close>

lemma run_after_drain:
  assumes d: "drained g w0 g0" and s: "quiet_step g0 g1" "left_pending g0 g1 \<subseteq> w1"
  obtains w g' where "arbitrate_locked g1 = (g', Inr w)" "op_run g (set w0 \<union> w1 \<union> set w) g'"
    "op_run g (set w0 \<union> w1 \<union> set w) (enqueue_reclaim_notices_locked g')"
    "shape g' = shape g1" "mailbox g' = mailbox g1" "generation g' = generation g1" "next_request g' = next_request g1"
proof -
  have r1: "op_run g (set w0 \<union> w1) g1" using d s unfolding drained_def by (blast intro: or_quiet)
  have ok: "ledger_ok g1" using d s(1) unfolding drained_def by (blast intro: ledger_ok_quiet)
  from arbitrate_grants [OF ok] obtain w g' where a: "arbitrate_locked g1 = (g', Inr w)" by blast
  have r: "op_run g (set w0 \<union> w1 \<union> set w) g'" using op_run_trans [OF or_arb [OF a] r1] .
  have "op_run g (set w0 \<union> w1 \<union> set w) (enqueue_reclaim_notices_locked g')" using op_run_trans [OF shortfall_run r] by simp
  with r show thesis using arbitrate_entry(3-5) [OF ok a] shape_arbitrate [OF ok a] by (intro that [OF a])
qed

text \<open>The ledger's requests once the mailbox is drained, and what the remaining operations share.\<close>

definition live :: "HostGovernor \<Rightarrow> nat \<rightharpoonup> nat \<times> HostAllocation option" where
  "live g = fold cancel_shape (mb_queue (mailbox g)) (shape g)"

definition op_done :: "HostGovernor \<Rightarrow> nat list \<Rightarrow> HostGovernor \<Rightarrow> (nat \<rightharpoonup> nat \<times> HostAllocation option) \<Rightarrow> bool" where
  "op_done g w g' m \<longleftrightarrow>
     op_run g (set w) g' \<and> mailbox g' = fst (mailbox_drain (mailbox g)) \<and> shape g' = m"

lemma op_done_drained: "drained g w g' \<Longrightarrow> op_done g w g' (live g)"
  by (simp add: drained_def op_done_def live_def)

lemma drainedD:
  assumes "drained g w g'"
  shows "ledger_ok g'" "op_run g (set w) g'" "mailbox g' = fst (mailbox_drain (mailbox g))" "generation g' = generation g"
    "next_request g' = next_request g" "shape g' = live g" "reclaimable g' = reclaimable g"
  using assms by (simp_all add: drained_def live_def)

lemma request_effect:
  assumes ok: "ledger_ok g"
  obtains (empty) "rq_bytes rq = 0" "request_host_pages g rq = (g, [], Inl (InvalidHostRequest ''requested zero bytes''))"
  | (refused) g' w err where "request_host_pages g rq = (g', w, Inl err)" "op_done g w g' (live g)" "0 < rq_bytes rq"
      "max_satisfiable g < rq_bytes rq \<and> err = HostQuotaDenied (rq_bytes rq) (max_satisfiable g) \<or>
       mb_reserved (mailbox g') = mb_capacity (mailbox g') \<and> err = HostMailboxBackpressure (mb_capacity (mailbox g'))"
  | (queued) g' w where "request_host_pages g rq = (g', w, Inr \<lparr>tk_request_id = next_request g, tk_generation = generation g, tk_resolved = False\<rparr>)"
      "op_run g (set w) g'" "shape g' = (live g)(next_request g \<mapsto> (generation g, None))"
      "reserve_slot (fst (mailbox_drain (mailbox g))) = Inr (mailbox g')"
      "map_option le_bytes (map_of (entries g') (next_request g)) = Some (rq_bytes rq)"
proof (cases "rq_bytes rq = 0")
  case True
  then show thesis by (intro empty) (simp_all add: request_host_pages_def)
next
  case pos: False
  obtain w0 g0 where dd: "drain_cancellations_locked g = (g0, Inr w0)" and d: "drained g w0 g0"
    by (rule drain_effect [OF ok])
  have d0: "op_run g (set w0) g0" "shape g0 = live g" "mailbox g0 = fst (mailbox_drain (mailbox g))"
    "generation g0 = generation g" "next_request g0 = next_request g" "ledger_ok g0" using drainedD [OF d] by simp_all
  show thesis
  proof (cases "rq_bytes rq > max_satisfiable g0")
    case True
    moreover have "max_satisfiable g0 = max_satisfiable g" using op_run_const [OF d0(1) ok] by (simp add: max_satisfiable_def)
    ultimately show thesis using pos op_done_drained [OF d]
      by (intro refused [of g0 w0 "HostQuotaDenied (rq_bytes rq) (max_satisfiable g)"]) (simp_all add: request_host_pages_def after_drain_def dd)
  next
    case fits: False
    let ?n = "g0\<lparr>next_request := next_request g0 + 1, next_submit_seq := next_submit_seq g0 + 1\<rparr>"
    show thesis
    proof (cases "reserve_slot (mailbox g0)")
      case (Inl err)
      have "op_run g (set w0 \<union> {}) ?n" by (rule or_quiet [OF d0(1) qs_skip_number]) (simp add: left_pending_same)
      moreover have "mb_reserved (mailbox g0) = mb_capacity (mailbox g0)" "err = HostMailboxBackpressure (mb_capacity (mailbox g0))"
        using Inl by (auto simp: reserve_slot_def split: if_splits)
      ultimately show thesis using pos fits Inl d0
        by (intro refused [of ?n w0 err]) (simp_all add: op_done_def request_host_pages_def after_drain_def dd)
    next
      case (Inr mb)
      define e where "e = \<lparr>le_owner = rq_owner rq, le_bytes = rq_bytes rq, le_priority = rq_priority rq, le_pinned = rq_pinned rq,
          le_generation = generation g0, le_submit_seq = next_submit_seq g0, le_age = 0, le_state = Pending rq\<rparr>"
      define g1 where "g1 = emit_locked (g0\<lparr>next_request := next_request g0 + 1, next_submit_seq := next_submit_seq g0 + 1,
          mailbox := mb, entries := AList.update (next_request g0) e (entries g0)\<rparr>) (Submit (next_request g0) (generation g0) (le_owner e) (le_bytes e))"
      have q: "quiet_step g0 g1" unfolding g1_def
        by (rule qs_submit [where rq = rq]) (use pos fits in \<open>simp_all add: e_def\<close>)
      have fresh: "map_of (entries g0) (next_request g0) = None"
      proof (cases "map_of (entries g0) (next_request g0)")
        case (Some x)
        with ledger_okD(3) [OF d0(6)] show ?thesis by (auto simp: entry_ok_def)
      qed simp
      have l: "left_pending g0 g1 \<subseteq> {}" using fresh by (auto simp: left_pending_def pending_at_def g1_def split: if_splits)
      from run_after_drain [OF d q l] obtain w g' where a: "arbitrate_locked g1 = (g', Inr w)"
        "op_run g (set w0 \<union> {} \<union> set w) (enqueue_reclaim_notices_locked g')" "shape g' = shape g1" "mailbox g' = mailbox g1"
        "generation g' = generation g1" "next_request g' = next_request g1" by metis
      have "shape g1 = (shape g0)(next_request g0 \<mapsto> (generation g0, None))"
        by (auto simp: g1_def shape_def fun_eq_iff e_def claimed_as_def)
      moreover have "map_option le_bytes (map_of (entries g') (next_request g0)) = Some (rq_bytes rq)"
        using arbitrate_entry(1,2) [OF ledger_ok_quiet [OF q d0(6)] a(1), of "next_request g0"]
        by (cases "next_request g0 \<in> set w") (auto simp: g1_def e_def)
      ultimately show thesis using pos fits Inr d0 a
        by (intro queued [of "enqueue_reclaim_notices_locked g'" "w0 @ w"])
          (simp_all add: request_host_pages_def after_drain_def dd then_arbitrate_def g1_def e_def Let_def)
    qed
  qed
qed

lemma release_effect:
  assumes ok: "ledger_ok g"
  obtains (released) g' w where "release_host_pages g a = (g', w, Inr ())" "op_done g w g' ((live g)(ha_request_id a := None))"
      "map_option snd (live g (ha_request_id a)) = Some (Some a)"
  | (refused) g' w r where "release_host_pages g a = (g', w, Inl (HostLedgerInvariant ''release'' r))" "op_done g w g' (live g)"
      "map_option snd (live g (ha_request_id a)) \<noteq> Some (Some a)"
proof -
  obtain w0 g0 where dd: "drain_cancellations_locked g = (g0, Inr w0)" and d: "drained g w0 g0" by (rule drain_effect [OF ok])
  note D = drainedD [OF d]
  let ?r = "ha_request_id a"
  have lv: "map_option snd (live g ?r) = map_option claimed_as (map_of (entries g0) ?r)"
    by (simp add: D(6) [symmetric] shape_def option.map_comp comp_def)
  show thesis
  proof (cases "map_option claimed_as (map_of (entries g0) ?r) = Some (Some a)")
    case False
    then obtain r where "release_host_pages g a = (g0, w0, Inl (HostLedgerInvariant ''release'' r))"
      by (cases "map_of (entries g0) ?r") (auto simp: release_host_pages_def after_drain_def dd claimed_as_def Let_def split: PressureState.splits)
    then show thesis using False op_done_drained [OF d] lv by (intro refused) simp_all
  next
    case True
    then obtain e where e: "map_of (entries g0) ?r = Some e" "le_state e = Claimed a"
      by (auto simp: claimed_as_Some)
    let ?g = "remove_terminal_locked (emit_locked (g0\<lparr>free := free g0 + ha_bytes a\<rparr>) (Release ?r (ha_id a) (ha_bytes a))) ?r"
    have q: "quiet_step g0 ?g" by (rule qs_release [OF e])
    have l: "left_pending g0 ?g \<subseteq> {}" by (simp add: left_pending_delete)
    obtain w g' where arb: "arbitrate_locked ?g = (g', Inr w)" and x: "op_run g (set w0 \<union> {} \<union> set w) g'"
      "op_run g (set w0 \<union> {} \<union> set w) (enqueue_reclaim_notices_locked g')"
      "shape g' = shape ?g" "mailbox g' = mailbox ?g" "generation g' = generation ?g" "next_request g' = next_request ?g"
      by (rule run_after_drain [OF d q l])
    have "release_host_pages g a = (enqueue_reclaim_notices_locked g', w0 @ w, Inr ())"
      using e arb credit_fits [OF D(1) e(1), of a] granted_allocation(4) [OF D(1) e]
      by (simp add: release_host_pages_def after_drain_def dd host_checked_add_ok then_arbitrate_def remove_terminal_locked_def Let_def)
    moreover have "op_done g (w0 @ w) (enqueue_reclaim_notices_locked g') ((live g)(?r := None))"
      using x D by (simp add: op_done_def shape_remove)
    ultimately show thesis using True lv by (intro released) simp_all
  qed
qed

lemma reclaim_effect:
  assumes ok: "ledger_ok g"
  obtains (zero) "n = 0" "host_reclaim g dev n = (g, [], Inr ())"
  | (reclaimed) g' w where "host_reclaim g dev n = (g', w, Inr ())" "op_done g w g' (live g)" "0 < n"
      "n \<le> unwrap_or (map_of (reclaimable g) dev) 0"
  | (refused) g' w err where "host_reclaim g dev n = (g', w, Inl err)" "op_done g w g' (live g)"
      "unwrap_or (map_of (reclaimable g) dev) 0 < n"
proof (cases "n = 0")
  case True
  then show thesis by (intro zero) (simp_all add: host_reclaim_def)
next
  case pos: False
  obtain w0 g0 where dd: "drain_cancellations_locked g = (g0, Inr w0)" and d: "drained g w0 g0" by (rule drain_effect [OF ok])
  note D = drainedD [OF d]
  note rcl = D(7)
  show thesis
  proof (cases "n \<le> unwrap_or (map_of (reclaimable g) dev) 0")
    case False
    then show thesis using pos op_done_drained [OF d] rcl
      by (intro refused) (simp_all add: host_reclaim_def after_drain_def dd host_checked_sub_def)
  next
    case True
    with pos obtain r where r: "map_of (reclaimable g0) dev = Some r" "n \<le> r" by (cases "map_of (reclaimable g) dev") (auto simp: rcl)
    let ?g = "emit_locked (g0\<lparr>reclaimable := AList.update dev (r - n) (reclaimable g0), free := free g0 + n\<rparr>) (Reclaim dev n)"
    have q: "quiet_step g0 ?g" using r pos by (intro qs_reclaim) simp_all
    have l: "left_pending g0 ?g \<subseteq> {}" by (simp add: left_pending_same)
    obtain w g' where arb: "arbitrate_locked ?g = (g', Inr w)" and x: "op_run g (set w0 \<union> {} \<union> set w) g'"
      "op_run g (set w0 \<union> {} \<union> set w) (enqueue_reclaim_notices_locked g')"
      "shape g' = shape ?g" "mailbox g' = mailbox ?g" "generation g' = generation ?g" "next_request g' = next_request ?g"
      by (rule run_after_drain [OF d q l])
    have "free g0 + n \<le> u64_max"
      using ledger_okD(6,7) [OF D(1)] weight_alist_member [OF r(1), of snd] r(2) by simp
    then have "host_reclaim g dev n = (enqueue_reclaim_notices_locked g', w0 @ w, Inr ())"
      using pos r arb by (simp add: host_reclaim_def after_drain_def dd host_checked_sub_def host_checked_add_ok then_arbitrate_def)
    moreover have "op_done g (w0 @ w) (enqueue_reclaim_notices_locked g') (live g)"
      using x D by (simp add: op_done_def shape_def fun_eq_iff)
    ultimately show thesis using True pos by (intro reclaimed) simp_all
  qed
qed

lemma fail_stale_shape:
  "le_generation (snd (fail_stale n (r, e))) = le_generation e" "claimed_as (snd (fail_stale n (r, e))) = claimed_as e"
  by (auto simp: fail_stale_def is_stale_def)

lemma reconfigure_effect:
  assumes ok: "ledger_ok g"
  obtains g' w where "host_reconfigure g = (g', w, Inr ())" "op_done g w g' (live g)"
proof -
  obtain w0 g0 where dd: "drain_cancellations_locked g = (g0, Inr w0)" and d: "drained g w0 g0" by (rule drain_effect [OF ok])
  note D = drainedD [OF d]
  let ?n = "generation g0 + 1"
  let ?g = "emit_locked (g0\<lparr>generation := ?n, entries := map (fail_stale ?n) (entries g0)\<rparr>) (Reconfigure ?n)"
  let ?w = "map fst (filter (\<lambda>(_, e). is_stale ?n e) (entries g0))"
  have "left_pending g0 ?g \<subseteq> set ?w"
  proof
    fix x
    assume "x \<in> left_pending g0 ?g"
    then obtain e where e: "map_of (entries g0) x = Some e" "is_pending e" "\<not> is_pending (snd (fail_stale ?n (x, e)))"
      by (auto simp: left_pending_def pending_at_def map_of_fail_stale)
    then have "is_stale ?n e" by (auto simp: fail_stale_def split: if_splits)
    with e(1) show "x \<in> set ?w" by (force dest: map_of_SomeD)
  qed
  from or_quiet [OF D(2) qs_reconfigure this] have "op_run g (set (w0 @ ?w)) ?g" by simp
  moreover have "shape ?g = live g"
  proof -
    have "map_option (\<lambda>e. (le_generation e, claimed_as e)) (map_of (map (fail_stale ?n) (entries g0)) x) = shape g0 x" for x
      by (simp only: map_of_fail_stale shape_def option.map_comp comp_def fail_stale_shape)
    then show ?thesis by (simp add: D(6) [symmetric] shape_def [of "_\<lparr>entries := _\<rparr>"] fun_eq_iff)
  qed
  ultimately have "op_done g (w0 @ ?w) ?g (live g)" using D by (simp add: op_done_def)
  moreover have "host_reconfigure g = (?g, w0 @ ?w, Inr ())" by (simp add: host_reconfigure_def after_drain_def dd Let_def)
  ultimately show thesis by (rule that [rotated])
qed

lemma time_out_effect:
  assumes ok: "ledger_ok g"
  obtains g' w out where "time_out g rid = (g', w, Inr out)" "op_done g w g' (live g)"
proof -
  obtain w0 g0 where dd: "drain_cancellations_locked g = (g0, Inr w0)" and d: "drained g w0 g0" by (rule drain_effect [OF ok])
  note D = drainedD [OF d]
  note unf = time_out_def after_drain_def dd
  show thesis
  proof (cases "map_of (entries g0) rid")
    case None
    then show thesis using op_done_drained [OF d] by (intro that) (simp_all add: unf)
  next
    case (Some e)
    show thesis
    proof (cases "le_state e")
      case (Pending q)
      let ?g = "emit_locked (set_state g0 rid e (Failed (HostPressureTimeout rid))) (TimeoutPending rid)"
      have "op_run g (set w0 \<union> {rid}) ?g"
        by (rule or_quiet [OF D(2) qs_timeout_pending [OF Some]]) (use Pending left_pending_one [OF Some] in simp_all)
      then have "op_done g (w0 @ [rid]) ?g (live g)"
        using D Some Pending by (simp add: op_done_def shape_set_state claimed_as_def insert_commute)
      then show thesis using Some Pending by (intro that) (simp_all add: unf)
    next
      case (Granted a)
      let ?g = "emit_locked (set_state (g0\<lparr>free := free g0 + le_bytes e\<rparr>) rid e (Failed (HostPressureTimeout rid))) (TimeoutGranted rid (ha_id a) (le_bytes e))"
      have q: "quiet_step g0 ?g" by (rule qs_timeout_granted [OF Some Granted])
      have l: "left_pending g0 ?g \<subseteq> {rid}" by (rule left_pending_one [OF Some]) simp
      obtain w g' where arb: "arbitrate_locked ?g = (g', Inr w)" and x: "op_run g (set w0 \<union> {rid} \<union> set w) g'"
        "op_run g (set w0 \<union> {rid} \<union> set w) (enqueue_reclaim_notices_locked g')"
        "shape g' = shape ?g" "mailbox g' = mailbox ?g" "generation g' = generation ?g" "next_request g' = next_request ?g"
        by (rule run_after_drain [OF d q l])
      have "set ((w0 @ w) @ [rid]) = set w0 \<union> {rid} \<union> set w" by auto
      moreover have "shape ?g = shape g0" using Some Granted by (simp add: shape_set_state [of "g0\<lparr>free := _\<rparr>"])
      ultimately have "op_done g ((w0 @ w) @ [rid]) g' (live g)" using x D by (simp add: op_done_def)
      moreover have "time_out g rid = (g', (w0 @ w) @ [rid], Inr TimedOutGranted)"
        using Some Granted arb credit_fits [OF D(1) Some, of a] by (simp add: unf host_checked_add_ok then_arbitrate_def)
      ultimately show thesis by (rule that [rotated])
    qed (rule that [of g0 w0 TimeoutNoOp], use Some op_done_drained [OF d] in \<open>simp_all add: unf\<close>)+
  qed
qed

lemma checked_total_ok: "acc + sum_list ns \<le> u64_max \<Longrightarrow> checked_total op acc ns = Inr (acc + sum_list ns)"
proof (induction ns arbitrary: acc)
  case (Cons n ns)
  then show ?case by (simp add: host_checked_add_ok add.assoc)
qed simp

lemma snapshot_ok:
  assumes "ledger_ok g"
  shows "snapshot_locked g = Inr \<lparr>hs_capacity_bytes = capacity g, hs_fixed_charge_bytes = fixed_charge g, hs_free_bytes = free g,
      hs_reclaimable_bytes = weight snd (reclaimable g), hs_reserved_bytes = weight (entry_reserved_bytes \<circ> snd) (entries g),
      hs_claimed_bytes = weight (entry_claimed_bytes \<circ> snd) (entries g), hs_host_ram_used = capacity g - free g, hs_generation = generation g,
      hs_pending = length (filter (\<lambda>(_, e). is_pending e) (entries g))\<rparr>"
proof -
  note D = ledger_okD(6,7) [OF assms]
  have t: "reclaimable_total g = Inr (weight snd (reclaimable g))" "reserved_total g = Inr (weight (entry_reserved_bytes \<circ> snd) (entries g))"
    "claimed_total g = Inr (weight (entry_claimed_bytes \<circ> snd) (entries g))"
    using D checked_total_ok [of 0 "map snd (reclaimable g)"] checked_total_ok [of 0 "map (entry_reserved_bytes \<circ> snd) (entries g)"]
      checked_total_ok [of 0 "map (entry_claimed_bytes \<circ> snd) (entries g)"]
    by (simp_all add: reclaimable_total_def reserved_total_def claimed_total_def weight_def)
  have "weight snd (reclaimable g) + weight (entry_reserved_bytes \<circ> snd) (entries g) + weight (entry_claimed_bytes \<circ> snd) (entries g) + fixed_charge g
      = capacity g - free g" "free g \<le> capacity g" using D by linarith+
  then show ?thesis using D by (simp add: snapshot_locked_def t host_checked_add_ok host_checked_sub_ok)
qed

lemma snapshot_effect:
  assumes ok: "ledger_ok g"
  obtains g' w s where "host_snapshot g = (g', w, Inr s)" "op_done g w g' (live g)" "snapshot_locked g' = Inr s"
proof -
  obtain w0 g0 where dd: "drain_cancellations_locked g = (g0, Inr w0)" and d: "drained g w0 g0" by (rule drain_effect [OF ok])
  note D = drainedD [OF d]
  obtain s where s: "snapshot_locked g0 = Inr s" using snapshot_ok [OF D(1)] by blast
  define g1 where "g1 = emit_payload g0 (PayloadSnapshot \<lparr>ps_generation = hs_generation s, ps_capacity_bytes = hs_capacity_bytes s,
      ps_free_bytes = hs_free_bytes s, ps_reserved_bytes = hs_reserved_bytes s, ps_claimed_bytes = hs_claimed_bytes s,
      ps_reclaimable_bytes = hs_reclaimable_bytes s, ps_fixed_bytes = hs_fixed_charge_bytes s\<rparr>)"
  have "op_run g (set w0 \<union> {}) g1" unfolding g1_def by (rule or_quiet [OF D(2) qs_payload]) (simp add: left_pending_same)
  then have "op_done g w0 g1 (live g)" using D by (simp add: op_done_def g1_def)
  moreover have "host_snapshot g = (g1, w0, Inr s)" by (simp add: host_snapshot_def after_drain_def dd s g1_def)
  moreover have "snapshot_locked g1 = Inr s" using s D(1) snapshot_ok [of g0] snapshot_ok [of g1] by (simp add: g1_def)
  ultimately show thesis by (blast intro: that)
qed

lemma process_effect:
  assumes ok: "ledger_ok g"
  obtains g' w where "process_cancellations g = (g', w, Inr ())" "op_done g w g' (live g)"
proof -
  obtain w0 g0 where dd: "drain_cancellations_locked g = (g0, Inr w0)" and d: "drained g w0 g0" by (rule drain_effect [OF ok])
  then show thesis by (intro that [of g0 w0] op_done_drained) (simp_all add: process_cancellations_def after_drain_def)
qed

lemma claim_effect:
  assumes ok: "ledger_ok g"
  obtains (pending) g' w where "governor_try_claim g rid = (g', w, PollPending)" "op_done g w g' (live g)" "pending_at g' rid"
  | (granted) g' w a n where "governor_try_claim g rid = (g', w, PollGranted a)" "live g rid = Some (n, None)" "ha_request_id a = rid" "ha_generation a = n"
      "op_done g w g' ((live g)(rid \<mapsto> (n, Some a)))"
  | (gone) g' w where "governor_try_claim g rid = (g', w, PollCancelled)" "op_done g w g' (live g)"
      "live g rid = None \<or> (\<exists>n a. live g rid = Some (n, Some a))"
  | (settled) g' w poll n where "governor_try_claim g rid = (g', w, poll)" "poll = PollCancelled \<or> (\<exists>err. poll = PollFailed err)"
      "live g rid = Some (n, None)" "op_done g w g' ((live g)(rid := None))"
proof -
  obtain w0 g0 where dd: "drain_cancellations_locked g = (g0, Inr w0)" and d: "drained g w0 g0" by (rule drain_effect [OF ok])
  note D = drainedD [OF d]
  note unf = governor_try_claim_def dd
  have lv: "live g rid = map_option (\<lambda>e. (le_generation e, claimed_as e)) (map_of (entries g0) rid)" by (simp add: D(6) [symmetric] shape_def)
  show thesis
  proof (cases "map_of (entries g0) rid")
    case None
    then have "remove_terminal_locked g0 rid = g0"
      by (simp add: remove_terminal_locked_def delete_idem map_of_eq_None_iff)
    then show thesis using None op_done_drained [OF d] lv by (intro gone) (simp_all add: unf)
  next
    case (Some e)
    have reap: "op_done g w0 (remove_terminal_locked g0 rid) ((live g)(rid := None))" if "is_terminal e"
    proof -
      have "op_run g (set w0 \<union> {}) (remove_terminal_locked g0 rid)"
        by (rule or_quiet [OF D(2) qs_reap [OF Some that]]) (simp add: left_pending_delete)
      then show ?thesis using D by (simp add: op_done_def shape_remove)
    qed
    show thesis
    proof (cases "le_state e")
      case (Pending q)
      then have "pending_at g0 rid" using Some by (simp add: pending_at_def is_pending_def)
      with Pending Some op_done_drained [OF d] show thesis by (intro pending) (simp_all add: unf)
    next
      case (Granted a)
      let ?g = "emit_locked (set_state g0 rid e (Claimed a)) (Claim rid (ha_id a) (ha_bytes a))"
      have "op_run g (set w0 \<union> {}) ?g"
        by (rule or_quiet [OF D(2) qs_claim [OF Some Granted]]) (use Granted in \<open>simp add: left_pending_none [OF Some]\<close>)
      moreover have "shape ?g = (live g)(rid \<mapsto> (le_generation e, Some a))"
        by (auto simp: D(6) [symmetric] shape_def fun_eq_iff)
      ultimately have "op_done g w0 ?g ((live g)(rid \<mapsto> (le_generation e, Some a)))" using D by (simp add: op_done_def)
      moreover have "a = allocation_of (ha_id a) rid e" using granted_allocation(1) [OF D(1) Some Granted] .
      then have "ha_request_id a = rid" "ha_generation a = le_generation e" by (metis allocation_of_simps(2), metis HostAllocation.select_convs(5) allocation_of_def)
      ultimately show thesis using Some Granted lv by (intro granted) (simp_all add: unf claimed_as_def)
    next
      case (Claimed a)
      then show thesis using Some op_done_drained [OF d] lv by (intro gone) (simp_all add: unf claimed_as_def)
    next
      case Cancelled
      then show thesis using Some reap lv by (intro settled [of "remove_terminal_locked g0 rid" w0 PollCancelled]) (simp_all add: unf is_terminal_def claimed_as_def)
    next
      case (Failed err)
      then show thesis using Some reap lv by (intro settled [of "remove_terminal_locked g0 rid" w0 "PollFailed err"]) (simp_all add: unf is_terminal_def claimed_as_def)
    qed
  qed
qed

end
