(* ===== verification/HostTickets.thy ===== *)
theory HostTickets
  imports HostPressureRuns "HOL-Library.Multiset"
begin

text \<open>
  The host governor with everything its clients hold: tickets not yet resolved, allocations
  claimed and not yet released, threads parked in \<open>wait\<close>, and wakeups not yet delivered. The
  step relation interleaves the operations of any number of threads, with the points where the
  code gives up the ledger lock as separate steps: the release of a resolved ticket's mailbox
  slot, the delivery of a wakeup, a parked thread resuming.
\<close>

section \<open>Wakeups of runs\<close>

lemma quiet_no_revival:
  assumes "quiet_step g g'" "x < next_request g" "map_of (entries g) x = None"
  shows "map_of (entries g') x = None"
  using assms by (cases rule: quiet_step.cases) (auto simp: delete_conv' map_of_fail_stale map_of_map_entries)

lemma quiet_next_request: "quiet_step g g' \<Longrightarrow> next_request g \<le> next_request g'"
  by (cases rule: quiet_step.cases) auto

lemma arbitrate_left:
  assumes "ledger_ok g" "arbitrate_locked g = (g', Inr w)"
  shows "left_pending g g' \<subseteq> set w" "map_of (entries g) x = None \<Longrightarrow> map_of (entries g') x = None"
proof -
  show "left_pending g g' \<subseteq> set w"
  proof
    fix y
    assume "y \<in> left_pending g g'"
    then show "y \<in> set w" using arbitrate_entry(1) [OF assms, of y] by (cases "y \<in> set w") (auto simp: left_pending_def pending_at_def)
  qed
  show "map_of (entries g') x = None" if "map_of (entries g) x = None"
    using that arbitrate_entry(1,2) [OF assms, of x] by (cases "x \<in> set w") auto
qed

lemma left_pending_trans:
  assumes "ledger_ok g" "left_pending g g' \<subseteq> w" "left_pending g' g'' \<subseteq> w'" "next_request g \<le> next_request g'"
    and "\<And>x. x < next_request g' \<Longrightarrow> map_of (entries g') x = None \<Longrightarrow> map_of (entries g'') x = None"
  shows "left_pending g g'' \<subseteq> w \<union> w'"
proof
  fix x
  assume x: "x \<in> left_pending g g''"
  then obtain e where e: "map_of (entries g) x = Some e" "is_pending e" by (auto simp: left_pending_def pending_at_def)
  have "x < next_request g'" using ledger_okD(3) [OF assms(1) e(1)] assms(4) by (simp add: entry_ok_def)
  with x assms(5) obtain e' where "map_of (entries g') x = Some e'" by (cases "map_of (entries g') x") (auto simp: left_pending_def)
  with x e assms(2,3) show "x \<in> w \<union> w'" by (cases "is_pending e'") (auto simp: left_pending_def pending_at_def)
qed

lemma op_run_wakes:
  "op_run g w g' \<Longrightarrow> ledger_ok g \<Longrightarrow> left_pending g g' \<subseteq> w \<and> next_request g \<le> next_request g' \<and>
    (\<forall>x < next_request g. map_of (entries g) x = None \<longrightarrow> map_of (entries g') x = None)"
proof (induction rule: op_run.induct)
  case (or_refl g)
  then show ?case by (simp add: left_pending_same)
next
  case (or_quiet g w g' g'' w')
  then have ok: "ledger_ok g'" by (blast intro: op_run_ok)
  show ?case using or_quiet quiet_next_request [OF or_quiet.hyps(2)] quiet_no_revival [OF or_quiet.hyps(2)]
    left_pending_trans [OF or_quiet.prems, of g' w g'' w'] by (meson le_trans less_le_trans)
next
  case (or_arbitrate g w g' g'' w')
  then have ok: "ledger_ok g'" by (blast intro: op_run_ok)
  note arb = arbitrate_left [OF ok or_arbitrate.hyps(2)] arbitrate_entry(3) [OF ok or_arbitrate.hyps(2)]
  show ?case using or_arbitrate arb left_pending_trans [OF or_arbitrate.prems, of g' w g'' "set w'"] by (metis less_le_trans)
qed

section \<open>The governor and its clients\<close>

record HostSystem =
  gov :: HostGovernor
  armed :: "(nat \<times> nat) list"
  settling :: nat
  held :: "HostAllocation list"
  parked :: "nat set"
  signaled :: "nat set"
  unwoken :: "nat set"

text \<open>Unresolved tickets are request and generation; \<open>settling\<close> counts resolved tickets whose slot is
  not released yet.\<close>

definition ticket :: "nat \<Rightarrow> nat \<Rightarrow> PressureTicket" where
  "ticket rid gen = \<lparr>tk_request_id = rid, tk_generation = gen, tk_resolved = False\<rparr>"

definition governed :: "HostSystem \<Rightarrow> HostGovernor \<Rightarrow> nat list \<Rightarrow> HostSystem" where
  "governed s g w = s\<lparr>gov := g, unwoken := unwoken s \<union> set w\<rparr>"

definition poll_held :: "TicketPoll \<Rightarrow> HostAllocation list \<Rightarrow> HostAllocation list" where
  "poll_held p as = (case p of PollGranted a \<Rightarrow> a # as | _ \<Rightarrow> as)"

inductive host_step :: "HostSystem \<Rightarrow> HostSystem \<Rightarrow> bool" where
  hs_request: "host_step s ((governed s g w)\<lparr>armed := armed s @ [(tk_request_id t, tk_generation t)]\<rparr>)"
    if "request_host_pages (gov s) rq = (g, w, Inr t)"
| hs_request_refused: "host_step s (governed s g w)" if "request_host_pages (gov s) rq = (g, w, Inl err)"
| hs_poll_pending: "host_step s (governed s g w)"
    if "(rid, gen) \<in> set (armed s)" "rid \<notin> parked s" "governor_try_claim (gov s) rid = (g, w, PollPending)"
| hs_wait: "host_step s ((governed s g w)\<lparr>parked := insert rid (parked s)\<rparr>)"
    if "(rid, gen) \<in> set (armed s)" "rid \<notin> parked s" "governor_try_claim (gov s) rid = (g, w, PollPending)"
| hs_poll_resolved: "host_step s ((governed s g w)\<lparr>armed := remove1 (rid, gen) (armed s), settling := settling s + 1, held := poll_held p (held s)\<rparr>)"
    if "(rid, gen) \<in> set (armed s)" "rid \<notin> parked s" "governor_try_claim (gov s) rid = (g, w, p)" "p \<noteq> PollPending"
| hs_disarm: "host_step s (s\<lparr>gov := release_ticket_slot (gov s), settling := settling s - 1\<rparr>)" if "0 < settling s"
| hs_drop: "host_step s (s\<lparr>gov := fst (ticket_drop (gov s) (ticket rid gen)), armed := remove1 (rid, gen) (armed s)\<rparr>)"
    if "(rid, gen) \<in> set (armed s)" "rid \<notin> parked s"
| hs_wake: "host_step s (s\<lparr>unwoken := unwoken s - {rid}, signaled := insert rid (signaled s)\<rparr>)" if "rid \<in> unwoken s"
| hs_resume: "host_step s (s\<lparr>parked := parked s - {rid}, signaled := signaled s - {rid}\<rparr>)" if "rid \<in> parked s" "rid \<in> signaled s"
| hs_release: "host_step s ((governed s g w)\<lparr>held := remove1 a (held s)\<rparr>)" if "release_host_pages (gov s) a = (g, w, Inr u)"
| hs_release_refused: "host_step s (governed s g w)" if "release_host_pages (gov s) a = (g, w, Inl err)"
| hs_reclaim: "host_step s (governed s g w)" if "host_reclaim (gov s) dev n = (g, w, r)"
| hs_reconfigure: "host_step s (governed s g w)" if "host_reconfigure (gov s) = (g, w, r)"
| hs_time_out: "host_step s (governed s g w)" if "time_out (gov s) rid = (g, w, r)"
| hs_snapshot: "host_step s (governed s g w)" if "host_snapshot (gov s) = (g, w, sn)"
| hs_process: "host_step s (governed s g w)" if "process_cancellations (gov s) = (g, w, r)"

definition host_initial :: "HostSystem \<Rightarrow> bool" where
  "host_initial s \<longleftrightarrow>
     (\<exists>config. with_sinks config = Inr (gov s) \<and> cfg_capacity_bytes config \<le> u64_max) \<and>
     armed s = [] \<and> settling s = 0 \<and> held s = [] \<and> parked s = {} \<and> signaled s = {} \<and> unwoken s = {}"

inductive host_reachable :: "HostSystem \<Rightarrow> bool" where
  hr_init: "host_initial s \<Longrightarrow> host_reachable s"
| hr_step: "host_reachable s \<Longrightarrow> host_step s s' \<Longrightarrow> host_reachable s'"

section \<open>Who owns what\<close>

text \<open>Every ledger entry belongs to a ticket, to a posted cancellation, or to a holder of the allocation.\<close>

definition owners :: "(nat \<times> nat) list \<Rightarrow> CancelCommand list \<Rightarrow> HostAllocation list \<Rightarrow> (nat \<times> nat \<times> HostAllocation option) list" where
  "owners ts cs as =
     map (\<lambda>(rid, gen). (rid, gen, None)) ts @ map (\<lambda>c. (cc_request_id c, cc_generation c, None)) cs @
     map (\<lambda>a. (ha_request_id a, ha_generation a, Some a)) as"

definition sys_inv :: "HostSystem \<Rightarrow> bool" where
  "sys_inv s \<longleftrightarrow>
     ledger_ok (gov s) \<and>
     distinct (map fst (owners (armed s) (mb_queue (mailbox (gov s))) (held s))) \<and>
     shape (gov s) = map_of (owners (armed s) (mb_queue (mailbox (gov s))) (held s)) \<and>
     length (mb_queue (mailbox (gov s))) + length (armed s) + settling s = mb_reserved (mailbox (gov s)) \<and>
     mb_reserved (mailbox (gov s)) \<le> mb_capacity (mailbox (gov s)) \<and>
     parked s \<subseteq> fst ` set (armed s) \<and>
     (\<forall>rid \<in> parked s. pending_at (gov s) rid \<or> rid \<in> signaled s \<union> unwoken s)"

lemma owners_keys: "fst ` set (owners ts cs as) = fst ` set ts \<union> cc_request_id ` set cs \<union> ha_request_id ` set as"
  by (force simp: owners_def)

lemma map_of_insert: "k \<notin> fst ` set (xs @ ys) \<Longrightarrow> map_of (xs @ (k, v) # ys) = (map_of (xs @ ys))(k \<mapsto> v)"
proof -
  assume "k \<notin> fst ` set (xs @ ys)"
  then have "map_of xs k = None" by (simp add: map_of_eq_None_iff image_Un)
  then show ?thesis by (auto simp: fun_eq_iff map_add_def split: option.splits)
qed

lemma owners_insert:
  assumes "k \<notin> fst ` set (owners ts [] as)" "os = map (\<lambda>(rid, gen). (rid, gen, None)) ts @ (k, v) # map (\<lambda>a. (ha_request_id a, ha_generation a, Some a)) as"
    and "distinct (map fst (owners ts [] as))"
  shows "map_of os = (map_of (owners ts [] as))(k \<mapsto> v)" "distinct (map fst os)"
proof -
  let ?xs = "map (\<lambda>(rid, gen). (rid, gen, None)) ts :: (nat \<times> nat \<times> HostAllocation option) list"
  let ?ys = "map (\<lambda>a. (ha_request_id a, ha_generation a, Some a)) as"
  have o: "owners ts [] as = ?xs @ ?ys" by (simp add: owners_def)
  from assms(1) have k: "k \<notin> fst ` set (?xs @ ?ys)" by (simp only: o not_False_eq_True)
  show "map_of os = (map_of (owners ts [] as))(k \<mapsto> v)" unfolding o assms(2) by (rule map_of_insert [OF k])
  have "k \<notin> set (map fst ?xs)" "k \<notin> set (map fst ?ys)" using k unfolding set_append image_Un set_map by blast+
  then show "distinct (map fst os)" using assms(3) unfolding o assms(2) map_append list.map(2) distinct_append distinct.simps set_simps(2) fst_conv by blast
qed

lemma map_of_drop: "distinct (map fst (xs @ (k, v) # ys)) \<Longrightarrow> (map_of (xs @ (k, v) # ys))(k := None) = map_of (xs @ ys)"
proof -
  assume d: "distinct (map fst (xs @ (k, v) # ys))"
  then have "map_of (xs @ ys) k = None" by (auto simp: map_of_eq_None_iff image_Un)
  with d show ?thesis by (auto simp: fun_eq_iff map_add_def split: option.splits)
qed

lemma live_owners:
  "distinct (map fst (owners ts cs as)) \<Longrightarrow> fold cancel_shape cs (map_of (owners ts cs as)) = map_of (owners ts [] as)"
proof (induction cs)
  case (Cons c cs)
  let ?xs = "map (\<lambda>(rid, gen). (rid, gen, None)) ts :: (nat \<times> nat \<times> HostAllocation option) list"
  let ?ys = "map (\<lambda>c. (cc_request_id c, cc_generation c, None)) cs @ map (\<lambda>a. (ha_request_id a, ha_generation a, Some a)) as"
  have o: "owners ts (c # cs) as = ?xs @ (cc_request_id c, cc_generation c, None) # ?ys" "owners ts cs as = ?xs @ ?ys"
    by (simp_all add: owners_def)
  from Cons.prems have d: "distinct (map fst (?xs @ (cc_request_id c, cc_generation c, None) # ?ys))" by (simp only: o)
  then have "map_of (owners ts (c # cs) as) (cc_request_id c) = Some (cc_generation c, None)"
    unfolding o by (intro map_of_is_SomeI) auto
  then have "cancel_shape c (map_of (owners ts (c # cs) as)) = map_of (owners ts cs as)"
    unfolding cancel_shape_def o using map_of_drop [OF d] by simp
  moreover have "distinct (map fst (owners ts cs as))" using d by (auto simp: o)
  ultimately show ?case using Cons.IH by simp
qed simp

lemma sys_invD:
  assumes "sys_inv s"
  shows "ledger_ok (gov s)" "distinct (map fst (owners (armed s) (mb_queue (mailbox (gov s))) (held s)))"
    "shape (gov s) = map_of (owners (armed s) (mb_queue (mailbox (gov s))) (held s))"
    "length (mb_queue (mailbox (gov s))) + length (armed s) + settling s = mb_reserved (mailbox (gov s))"
    "mb_reserved (mailbox (gov s)) \<le> mb_capacity (mailbox (gov s))" "parked s \<subseteq> fst ` set (armed s)"
    "rid \<in> parked s \<Longrightarrow> pending_at (gov s) rid \<or> rid \<in> signaled s \<union> unwoken s"
    "live (gov s) = map_of (owners (armed s) [] (held s))" "distinct (map fst (owners (armed s) [] (held s)))"
proof -
  show D: "ledger_ok (gov s)" "distinct (map fst (owners (armed s) (mb_queue (mailbox (gov s))) (held s)))"
    "shape (gov s) = map_of (owners (armed s) (mb_queue (mailbox (gov s))) (held s))"
    "length (mb_queue (mailbox (gov s))) + length (armed s) + settling s = mb_reserved (mailbox (gov s))"
    "mb_reserved (mailbox (gov s)) \<le> mb_capacity (mailbox (gov s))" "parked s \<subseteq> fst ` set (armed s)"
    "rid \<in> parked s \<Longrightarrow> pending_at (gov s) rid \<or> rid \<in> signaled s \<union> unwoken s"
    using assms unfolding sys_inv_def by blast+
  show "live (gov s) = map_of (owners (armed s) [] (held s))" unfolding live_def D(3) by (rule live_owners [OF D(2)])
  show "distinct (map fst (owners (armed s) [] (held s)))" using D(2) by (auto simp: owners_def)
qed

text \<open>A parked thread is still waiting for its request or has been woken.\<close>

lemma parked_woken:
  assumes "ledger_ok g" "op_run g (set w) g'" "pending_at g rid" "shape g' rid \<noteq> None"
  shows "pending_at g' rid \<or> rid \<in> set w"
proof -
  have "left_pending g g' \<subseteq> set w" using op_run_wakes [OF assms(2,1)] by blast
  with assms(3,4) show ?thesis by (auto simp: left_pending_def pending_at_def shape_def)
qed

text \<open>An operation that drained the mailbox and left the ledger owned by these tickets and holders.\<close>

lemma sys_inv_op:
  assumes inv: "sys_inv s" and op: "op_done (gov s) w g (map_of (owners ts [] as))"
    and own: "distinct (map fst (owners ts [] as))" "length ts + st = length (armed s) + settling s"
    and pk: "pk \<subseteq> fst ` set ts" "\<And>rid. rid \<in> pk \<Longrightarrow> rid \<in> parked s \<or> pending_at g rid"
  shows "sys_inv ((governed s g w)\<lparr>armed := ts, settling := st, held := as, parked := pk\<rparr>)" (is "sys_inv ?s")
proof -
  note D = sys_invD [OF inv]
  from op have o: "op_run (gov s) (set w) g" "mailbox g = fst (mailbox_drain (mailbox (gov s)))" "shape g = map_of (owners ts [] as)"
    by (simp_all add: op_done_def)
  have ok: "ledger_ok g" using op_run_ok [OF o(1) D(1)] .
  have q: "mb_queue (mailbox g) = []" "mb_capacity (mailbox g) = mb_capacity (mailbox (gov s))"
    "mb_reserved (mailbox g) = mb_reserved (mailbox (gov s)) - length (mb_queue (mailbox (gov s)))"
    by (simp_all add: o mailbox_drain_def)
  have "pending_at g rid \<or> rid \<in> signaled s \<union> (unwoken s \<union> set w)" if "rid \<in> pk" for rid
  proof -
    have "rid \<in> fst ` set (owners ts [] as)" using that pk(1) by (auto simp only: owners_keys)
    then have "shape g rid \<noteq> None" by (simp add: o(3) map_of_eq_None_iff)
    with pk(2) [OF that] D(7) [of rid] parked_woken [OF D(1) o(1), of rid] show ?thesis by blast
  qed
  moreover have "length ts + st = mb_reserved (mailbox g)" "mb_reserved (mailbox g) \<le> mb_capacity (mailbox g)"
    using own(2) D(4,5) by (simp_all add: q)
  ultimately show ?thesis using ok own(1) pk(1) o(3) by (simp add: sys_inv_def governed_def q(1))
qed

text \<open>A ticket leaves, an allocation is taken or given back.\<close>

lemma armed_split:
  assumes "(rid, gen) \<in> set ts" "distinct (map fst (owners ts [] as))"
  obtains xs ys where "ts = xs @ (rid, gen) # ys" "remove1 (rid, gen) ts = xs @ ys" "rid \<notin> fst ` set (xs @ ys)" "rid \<notin> ha_request_id ` set as"
    "map_of (owners ts [] as) rid = Some (gen, None)" "(map_of (owners ts [] as))(rid := None) = map_of (owners (xs @ ys) [] as)"
proof -
  from assms(1) obtain xs ys where ts: "ts = xs @ (rid, gen) # ys" "(rid, gen) \<notin> set xs" by (meson split_list_first)
  let ?f = "\<lambda>(rid, gen). (rid, gen, None) :: nat \<times> nat \<times> HostAllocation option"
  let ?as = "map (\<lambda>a. (ha_request_id a, ha_generation a, Some a)) as"
  have o: "owners ts [] as = map ?f xs @ (rid, gen, None) # (map ?f ys @ ?as)" "owners (xs @ ys) [] as = map ?f xs @ (map ?f ys @ ?as)"
    by (simp_all add: owners_def ts(1))
  have d: "distinct (map fst (map ?f xs @ (rid, gen, None) # (map ?f ys @ ?as)))" using assms(2) unfolding o .
  have "rid \<notin> fst ` set (xs @ ys)" "rid \<notin> ha_request_id ` set as" using d by (auto simp: image_iff)
  moreover have "map_of (owners ts [] as) rid = Some (gen, None)" unfolding o by (rule map_of_is_SomeI [OF d]) simp
  moreover have "(map_of (owners ts [] as))(rid := None) = map_of (owners (xs @ ys) [] as)" unfolding o by (rule map_of_drop [OF d])
  moreover have "remove1 (rid, gen) ts = xs @ ys" using ts by (simp add: remove1_append)
  ultimately show thesis using ts(1) by (intro that)
qed

lemma held_split:
  assumes "map_of (owners ts [] as) (ha_request_id a) = Some (n, Some a)" "distinct (map fst (owners ts [] as))"
  shows "(map_of (owners ts [] as))(ha_request_id a := None) = map_of (owners ts [] (remove1 a as))" "a \<in> set as"
    "distinct (map fst (owners ts [] (remove1 a as)))"
proof -
  from map_of_SomeD [OF assms(1)] show "a \<in> set as" by (auto simp: owners_def)
  then obtain xs ys where as: "as = xs @ a # ys" "a \<notin> set xs" by (meson split_list_first)
  let ?ts = "map (\<lambda>(rid, gen). (rid, gen, None)) ts :: (nat \<times> nat \<times> HostAllocation option) list"
  let ?f = "\<lambda>a. (ha_request_id a, ha_generation a, Some a)"
  have r: "remove1 a as = xs @ ys" using as by (simp add: remove1_append)
  have o: "owners ts [] as = (?ts @ map ?f xs) @ ?f a # map ?f ys" "owners ts [] (remove1 a as) = (?ts @ map ?f xs) @ map ?f ys"
    unfolding r by (simp_all add: owners_def as(1))
  have d: "distinct (map fst ((?ts @ map ?f xs) @ ?f a # map ?f ys))" using assms(2) unfolding o .
  show "(map_of (owners ts [] as))(ha_request_id a := None) = map_of (owners ts [] (remove1 a as))"
    unfolding o by (rule map_of_drop [OF d])
  show "distinct (map fst (owners ts [] (remove1 a as)))" using d unfolding o by auto
qed

section \<open>Every step keeps the invariant\<close>

lemma governed_id: "(governed s g w)\<lparr>armed := armed s, settling := settling s, held := held s, parked := parked s\<rparr> = governed s g w"
  by (simp add: governed_def)

lemma sys_inv_same:
  assumes inv: "sys_inv s" and op: "op_done (gov s) w g (live (gov s))"
  shows "sys_inv (governed s g w)"
proof -
  note D = sys_invD [OF inv]
  have "sys_inv ((governed s g w)\<lparr>armed := armed s, settling := settling s, held := held s, parked := parked s\<rparr>)"
    using op D(6,9) unfolding D(8) by (intro sys_inv_op [OF inv]) simp_all
  then show ?thesis by (simp only: governed_id)
qed

lemma sys_inv_nothing:
  assumes "sys_inv s"
  shows "sys_inv (governed s (gov s) [])"
  using assms by (simp add: governed_def)

lemma sys_inv_wait:
  assumes inv: "sys_inv s" and op: "op_done (gov s) w g (live (gov s))" "pending_at g rid" "rid \<in> fst ` set (armed s)"
  shows "sys_inv ((governed s g w)\<lparr>parked := insert rid (parked s)\<rparr>)"
proof -
  note D = sys_invD [OF inv]
  have "sys_inv ((governed s g w)\<lparr>armed := armed s, settling := settling s, held := held s, parked := insert rid (parked s)\<rparr>)"
    using op D(6,9) unfolding D(8) by (intro sys_inv_op [OF inv]) auto
  then show ?thesis by (simp add: governed_def)
qed

lemma sys_inv_poll:
  assumes inv: "sys_inv s" and t: "(rid, gen) \<in> set (armed s)" "rid \<notin> parked s"
    and poll: "governor_try_claim (gov s) rid = (g, w, p)" "p \<noteq> PollPending"
  shows "sys_inv ((governed s g w)\<lparr>armed := remove1 (rid, gen) (armed s), settling := settling s + 1, held := poll_held p (held s)\<rparr>)" (is "sys_inv ?s")
proof -
  note D = sys_invD [OF inv]
  obtain xs ys where sp: "armed s = xs @ (rid, gen) # ys" "remove1 (rid, gen) (armed s) = xs @ ys" "rid \<notin> fst ` set (xs @ ys)"
    "rid \<notin> ha_request_id ` set (held s)" "map_of (owners (armed s) [] (held s)) rid = Some (gen, None)"
    "(map_of (owners (armed s) [] (held s)))(rid := None) = map_of (owners (xs @ ys) [] (held s))"
    by (rule armed_split [OF t(1) D(9)])
  have lv: "live (gov s) rid = Some (gen, None)" "(live (gov s))(rid := None) = map_of (owners (xs @ ys) [] (held s))"
    unfolding D(8) using sp by simp_all
  have pk: "parked s \<subseteq> fst ` set (xs @ ys)" using D(6) t(2) sp(1) by auto
  have d: "distinct (map fst (owners (xs @ ys) [] (held s)))" using D(9) sp(1) by (auto simp: owners_def)
  have "op_done (gov s) w g (map_of (owners (xs @ ys) [] (poll_held p (held s)))) \<and> distinct (map fst (owners (xs @ ys) [] (poll_held p (held s))))"
  proof (rule claim_effect [OF D(1), of rid])
    fix g' w' a n
    assume c: "governor_try_claim (gov s) rid = (g', w', PollGranted a)" "live (gov s) rid = Some (n, None)" "ha_request_id a = rid"
      "ha_generation a = n" "op_done (gov s) w' g' ((live (gov s))(rid \<mapsto> (n, Some a)))"
    then have "n = gen" using lv by simp
    have gen: "ha_generation a = gen" using c(4) \<open>n = gen\<close> by simp
    have "rid \<notin> fst ` set (owners (xs @ ys) [] (held s))" using sp(3,4) by (simp add: owners_keys)
    then have ins: "map_of (owners (xs @ ys) [] (a # held s)) = (map_of (owners (xs @ ys) [] (held s)))(rid \<mapsto> (gen, Some a))"
      "distinct (map fst (owners (xs @ ys) [] (a # held s)))"
      using owners_insert [OF _ _ d, of rid "owners (xs @ ys) [] (a # held s)" "(gen, Some a)"] c(3) gen by (simp_all add: owners_def)
    have "map_of (owners (xs @ ys) [] (a # held s)) = (map_of (owners (xs @ ys) [] (held s)))(rid \<mapsto> (gen, Some a))" by (rule ins(1))
    also have "\<dots> = (live (gov s))(rid \<mapsto> (n, Some a))" using lv \<open>n = gen\<close> by (metis fun_upd_upd)
    finally have "map_of (owners (xs @ ys) [] (a # held s)) = (live (gov s))(rid \<mapsto> (n, Some a))" .
    with ins(2) show ?thesis using c poll by (simp add: poll_held_def)
  next
    fix g' w' p' n
    assume c: "governor_try_claim (gov s) rid = (g', w', p')" "p' = PollCancelled \<or> (\<exists>err. p' = PollFailed err)"
      "op_done (gov s) w' g' ((live (gov s))(rid := None))"
    then show ?thesis using poll d lv by (auto simp: poll_held_def)
  qed (use poll lv in auto)
  then have "sys_inv ((governed s g w)\<lparr>armed := xs @ ys, settling := settling s + 1, held := poll_held p (held s), parked := parked s\<rparr>)"
    using pk sp(1) by (intro sys_inv_op [OF inv]) auto
  then show ?thesis by (simp add: governed_def sp(2))
qed

lemma sys_inv_refused:
  assumes inv: "sys_inv s" and r: "request_host_pages (gov s) rq = (g, w, Inl err)"
  shows "sys_inv (governed s g w)"
  by (rule request_effect [OF sys_invD(1) [OF inv], of rq])
    (use r sys_inv_nothing [OF inv] in \<open>auto intro: sys_inv_same [OF inv]\<close>)

lemma sys_inv_request:
  assumes inv: "sys_inv s" and r: "request_host_pages (gov s) rq = (g, w, Inr t)"
  shows "sys_inv ((governed s g w)\<lparr>armed := armed s @ [(tk_request_id t, tk_generation t)]\<rparr>)" (is "sys_inv ?s")
proof (rule request_effect [OF sys_invD(1) [OF inv], of rq])
  note D = sys_invD [OF inv]
  let ?n = "next_request (gov s)" and ?k = "generation (gov s)"
  fix g' w'
  assume c: "request_host_pages (gov s) rq = (g', w', Inr \<lparr>tk_request_id = ?n, tk_generation = ?k, tk_resolved = False\<rparr>)"
    "op_run (gov s) (set w') g'" "shape g' = (live (gov s))(?n \<mapsto> (?k, None))"
    "reserve_slot (fst (mailbox_drain (mailbox (gov s)))) = Inr (mailbox g')"
  with r have t: "g = g'" "w = w'" "tk_request_id t = ?n" "tk_generation t = ?k" by auto
  let ?r = "mb_reserved (mailbox (gov s)) - length (mb_queue (mailbox (gov s)))"
  from c(4) have m: "mailbox g' = (mailbox (gov s))\<lparr>mb_queue := [], mb_reserved := ?r + 1\<rparr>" "?r \<noteq> mb_capacity (mailbox (gov s))"
    by (auto simp: reserve_slot_def mailbox_drain_def split: if_splits)
  have mb: "mb_queue (mailbox g') = []" "mb_reserved (mailbox g') = length (armed s) + settling s + 1"
    "mb_reserved (mailbox g') \<le> mb_capacity (mailbox g')"
    using m(2) D(4,5) by (simp_all add: m(1))
  have fresh: "?n \<notin> fst ` set (owners (armed s) [] (held s))"
  proof
    assume "?n \<in> fst ` set (owners (armed s) [] (held s))"
    then have "?n \<in> fst ` set (owners (armed s) (mb_queue (mailbox (gov s))) (held s))" by (auto simp: owners_keys)
    then have "shape (gov s) ?n \<noteq> None" by (simp add: D(3) map_of_eq_None_iff)
    then show False using ledger_okD(3) [OF D(1), of ?n] by (auto simp: shape_def entry_ok_def)
  qed
  have ins: "map_of (owners (armed s @ [(?n, ?k)]) [] (held s)) = (map_of (owners (armed s) [] (held s)))(?n \<mapsto> (?k, None))"
    and d: "distinct (map fst (owners (armed s @ [(?n, ?k)]) [] (held s)))"
    using owners_insert [OF fresh _ D(9), of "owners (armed s @ [(?n, ?k)]) [] (held s)" "(?k, None)"] by (simp_all add: owners_def)
  have sh: "shape g' = map_of (owners (armed s @ [(?n, ?k)]) [] (held s))" unfolding c(3) D(8) ins ..
  have "pending_at g' rid \<or> rid \<in> signaled s \<union> (unwoken s \<union> set w')" if "rid \<in> parked s" for rid
  proof -
    have "rid \<in> fst ` set (owners (armed s @ [(?n, ?k)]) [] (held s))" using that D(6) by (auto simp: owners_keys)
    then have "shape g' rid \<noteq> None" by (simp add: sh map_of_eq_None_iff)
    with that D(7) [of rid] parked_woken [OF D(1) c(2), of rid] show ?thesis by blast
  qed
  then show ?thesis using op_run_ok [OF c(2) D(1)] sh d mb D(6) by (auto simp: sys_inv_def governed_def t)
qed (use r in simp_all)

lemma sys_inv_drop:
  assumes inv: "sys_inv s" and t: "(rid, gen) \<in> set (armed s)" "rid \<notin> parked s"
  shows "snd (ticket_drop (gov s) (ticket rid gen))"
    and "sys_inv (s\<lparr>gov := fst (ticket_drop (gov s) (ticket rid gen)), armed := remove1 (rid, gen) (armed s)\<rparr>)"
proof -
  note D = sys_invD [OF inv]
  let ?c = "\<lparr>cc_request_id = rid, cc_generation = gen\<rparr>"
  have room: "length (mb_queue (mailbox (gov s))) < mb_reserved (mailbox (gov s))"
    using D(4) t(1) by (cases "armed s") auto
  let ?g = "emit_mailbox_send (gov s) rid"
  have g: "ticket_drop (gov s) (ticket rid gen) = (?g\<lparr>mailbox := (mailbox ?g)\<lparr>mb_queue := mb_queue (mailbox ?g) @ [?c]\<rparr>\<rparr>, True)"
    using room by (simp add: ticket_drop_def ticket_def publish_cancel_def Let_def)
  then show "snd (ticket_drop (gov s) (ticket rid gen))" by simp
  obtain xs ys where sp: "armed s = xs @ (rid, gen) # ys" "remove1 (rid, gen) (armed s) = xs @ ys"
    by (rule armed_split [OF t(1) D(9)])
  let ?q = "mb_queue (mailbox (gov s))"
  have perm: "mset (owners (xs @ ys) (?q @ [?c]) (held s)) = mset (owners (armed s) ?q (held s))"
    by (simp add: owners_def sp(1))
  then have d: "distinct (map fst (owners (xs @ ys) (?q @ [?c]) (held s)))"
    using D(2) by (metis mset_map mset_eq_imp_distinct_iff)
  then have "map_of (owners (xs @ ys) (?q @ [?c]) (held s)) = map_of (owners (armed s) ?q (held s))"
    using perm D(2) by (metis map_of_inject_set mset_eq_setD)
  moreover have "ledger_ok (?g\<lparr>mailbox := m\<rparr>)" for m
    using ledger_ok_quiet [OF qs_mailbox] D(1) by (simp add: emit_mailbox_send_def)
  moreover have "shape ?g = shape (gov s)" "mailbox ?g = mailbox (gov s)" "entries ?g = entries (gov s)" by (simp_all add: emit_mailbox_send_def)
  moreover have "parked s \<subseteq> fst ` set (xs @ ys)" using D(6) t(2) sp(1) by auto
  ultimately show "sys_inv (s\<lparr>gov := fst (ticket_drop (gov s) (ticket rid gen)), armed := remove1 (rid, gen) (armed s)\<rparr>)"
    using D d sp unfolding g by (auto simp: sys_inv_def pending_at_def)
qed

lemma sys_inv_release:
  assumes inv: "sys_inv s" and r: "release_host_pages (gov s) a = (g, w, Inr u)"
  shows "sys_inv ((governed s g w)\<lparr>held := remove1 a (held s)\<rparr>)"
proof (rule release_effect [OF sys_invD(1) [OF inv], of a])
  note D = sys_invD [OF inv]
  fix g' w'
  assume c: "release_host_pages (gov s) a = (g', w', Inr ())" "op_done (gov s) w' g' ((live (gov s))(ha_request_id a := None))"
    "map_option snd (live (gov s) (ha_request_id a)) = Some (Some a)"
  from c(3) obtain n where "map_of (owners (armed s) [] (held s)) (ha_request_id a) = Some (n, Some a)" unfolding D(8) by auto
  from held_split [OF this D(9)] c(2) D(6) have
    "sys_inv ((governed s g' w')\<lparr>armed := armed s, settling := settling s, held := remove1 a (held s), parked := parked s\<rparr>)"
    unfolding D(8) by (intro sys_inv_op [OF inv]) simp_all
  then show ?thesis using r c(1) by (simp add: governed_def)
qed (use r in simp)

lemma release_slot_inv:
  assumes inv: "sys_inv s" and "0 < settling s"
  shows "sys_inv (s\<lparr>gov := release_ticket_slot (gov s), settling := settling s - 1\<rparr>)"
proof -
  have "ledger_ok (release_ticket_slot (gov s))" unfolding release_ticket_slot_def
    using ledger_ok_quiet [OF qs_mailbox sys_invD(1) [OF inv]] .
  with assms show ?thesis
    by (auto simp: sys_inv_def release_ticket_slot_def release_slot_def pending_at_def)
qed

lemma host_step_inv:
  assumes "host_step s s'" "sys_inv s"
  shows "sys_inv s'"
  using assms
proof (cases rule: host_step.cases)
  case (hs_poll_pending rid gen g w)
  then show ?thesis using assms(2)
    by (cases rule: claim_effect [OF sys_invD(1) [OF assms(2)], of rid]) (auto intro: sys_inv_same)
next
  case (hs_wait rid gen g w)
  then have "rid \<in> fst ` set (armed s)" by force
  then show ?thesis using hs_wait assms(2)
    by (cases rule: claim_effect [OF sys_invD(1) [OF assms(2)], of rid]) (auto intro: sys_inv_wait)
next
  case (hs_resume rid)
  then show ?thesis using assms(2) by (auto simp: sys_inv_def)
next
  case (hs_wake rid)
  then show ?thesis using assms(2) by (auto simp: sys_inv_def)
next
  case (hs_release_refused a g w err)
  then show ?thesis using assms(2)
    by (cases rule: release_effect [OF sys_invD(1) [OF assms(2)], of a]) (auto intro: sys_inv_same)
next
  case (hs_reclaim dev n g w r)
  then show ?thesis using assms(2) sys_inv_nothing [OF assms(2)]
    by (cases rule: reclaim_effect [OF sys_invD(1) [OF assms(2)], of n dev]) (auto intro: sys_inv_same)
next
  case (hs_reconfigure g w r)
  then show ?thesis using assms(2)
    by (cases rule: reconfigure_effect [OF sys_invD(1) [OF assms(2)]]) (auto intro: sys_inv_same)
next
  case (hs_time_out rid g w r)
  then show ?thesis using assms(2)
    by (cases rule: time_out_effect [OF sys_invD(1) [OF assms(2)], of rid]) (auto intro: sys_inv_same)
next
  case (hs_snapshot g w sn)
  then show ?thesis using assms(2)
    by (cases rule: snapshot_effect [OF sys_invD(1) [OF assms(2)]]) (auto intro: sys_inv_same)
next
  case (hs_process g w r)
  then show ?thesis using assms(2)
    by (cases rule: process_effect [OF sys_invD(1) [OF assms(2)]]) (auto intro: sys_inv_same)
qed (use assms(2) in \<open>auto simp del: add_Suc_right One_nat_def simp flip: One_nat_def
  intro: sys_inv_request sys_inv_refused sys_inv_poll release_slot_inv sys_inv_drop sys_inv_release\<close>)

section \<open>Reachable systems\<close>

lemma init_reclaimable_sum:
  "init_reclaimable ds m acc = Inr (m', acc') \<Longrightarrow> distinct (map fst m) \<Longrightarrow>
    distinct (map fst m') \<and> weight snd m' + acc = weight snd m + acc'"
proof (induction ds m acc rule: init_reclaimable.induct)
  case (2 device bytes ds m acc)
  let ?v = "unwrap_or (map_of m device) 0"
  from 2 have "distinct (map fst m') \<and> weight snd m' + (acc + bytes) = weight snd (AList.update device (?v + bytes) m) + acc'"
    by (auto simp: host_checked_add_def ok_or_def checked_add_u64_def distinct_update split: option.splits if_splits sum.splits)
  moreover have "weight snd (AList.update device (?v + bytes) m) = weight snd m + bytes"
    using weight_alist_insert [of m device snd "?v + bytes"] weight_alist_update [OF 2(3), of device ?v snd "?v + bytes"]
    by (cases "map_of m device") auto
  ultimately show ?case by simp
qed simp

lemma with_sinks_ok:
  assumes "with_sinks config = Inr g" "cfg_capacity_bytes config \<le> u64_max"
  shows "ledger_ok g" "entries g = []" "mb_queue (mailbox g) = []" "mb_reserved (mailbox g) = 0" "trace g = []"
    "next_source_sequence g = 0"
proof -
  from assms(1) obtain recl acc where i: "init_reclaimable (initial_reclaimable config) [] 0 = Inr (recl, acc)"
    "cfg_fixed_charge_bytes config + acc \<le> cfg_capacity_bytes config"
    and g: "g = \<lparr>capacity = cfg_capacity_bytes config, fixed_charge = cfg_fixed_charge_bytes config,
      free = cfg_capacity_bytes config - (cfg_fixed_charge_bytes config + acc),
      reclaimable = recl, generation = 0, entries = [], next_request = 1, next_alloc = 1,
      next_submit_seq = 0, next_source_sequence = 0, reclaim_shortfall = False,
      mailbox = \<lparr>mb_queue = [], mb_reserved = 0, mb_capacity = mailbox_capacity config\<rparr>,
      trace = [], envelopes = [], next_sequence = 0, governor_source = cfg_source config,
      governor_epoch = cfg_topology_epoch config, governor_host = cfg_host_id config,
      governor_actor = cfg_actor_id config, governor_mailbox = cfg_mailbox_id config\<rparr>"
    by (auto simp: with_sinks_def host_checked_add_def host_checked_sub_def ok_or_def checked_add_u64_def mailbox_new_def
      split: option.splits if_splits sum.splits)
  show "ledger_ok g" using init_reclaimable_sum [OF i(1)] i(2) assms(2) by (simp add: ledger_ok_def g)
  show "entries g = []" "mb_queue (mailbox g) = []" "mb_reserved (mailbox g) = 0" "trace g = []" "next_source_sequence g = 0"
    by (simp_all add: g)
qed

lemma host_initial_inv:
  assumes "host_initial s"
  shows "sys_inv s"
proof -
  from assms obtain config where c: "with_sinks config = Inr (gov s)" "cfg_capacity_bytes config \<le> u64_max"
    and e: "armed s = []" "settling s = 0" "held s = []" "parked s = {}" by (auto simp: host_initial_def)
  from with_sinks_ok [OF c] e show ?thesis by (simp add: sys_inv_def owners_def shape_def fun_eq_iff)
qed

lemma host_reachable_inv: "host_reachable s \<Longrightarrow> sys_inv s"
  by (induction rule: host_reachable.induct) (auto intro: host_initial_inv host_step_inv)

text \<open>What one step does to the governor is a run, or leaves it alone.\<close>

lemma host_step_run:
  assumes "host_step s s'" "sys_inv s"
  shows "\<exists>w. op_run (gov s) w (gov s')"
  using assms
proof (cases rule: host_step.cases)
  case hs_disarm
  then show ?thesis using or_step [OF qs_mailbox, of "gov s" _ UNIV] by (auto simp: release_ticket_slot_def)
next
  case (hs_drop rid gen)
  have "op_run (gov s) UNIV ((emit_mailbox_send (gov s) rid)\<lparr>mailbox := m\<rparr>)" for m
    using or_quiet [OF or_step [OF qs_payload [of "gov s"], where w = UNIV] qs_mailbox, where w' = UNIV] by (auto simp: emit_mailbox_send_def)
  then show ?thesis using hs_drop or_refl by (auto simp: ticket_drop_def ticket_def publish_cancel_def Let_def)
next
  case (hs_request rq g w t)
  then show ?thesis
    by (cases rule: request_effect [OF sys_invD(1) [OF assms(2)], of rq]) (auto simp: governed_def op_done_def intro: or_refl)
next
  case (hs_request_refused rq g w err)
  then show ?thesis
    by (cases rule: request_effect [OF sys_invD(1) [OF assms(2)], of rq]) (auto simp: governed_def op_done_def intro: or_refl)
next
  case (hs_poll_pending rid gen g w)
  then show ?thesis by (cases rule: claim_effect [OF sys_invD(1) [OF assms(2)], of rid]) (auto simp: governed_def op_done_def)
next
  case (hs_wait rid gen g w)
  then show ?thesis by (cases rule: claim_effect [OF sys_invD(1) [OF assms(2)], of rid]) (auto simp: governed_def op_done_def)
next
  case (hs_poll_resolved rid gen g w p)
  then show ?thesis by (cases rule: claim_effect [OF sys_invD(1) [OF assms(2)], of rid]) (auto simp: governed_def op_done_def)
next
  case (hs_release a g w u)
  then show ?thesis by (cases rule: release_effect [OF sys_invD(1) [OF assms(2)], of a]) (auto simp: governed_def op_done_def)
next
  case (hs_release_refused a g w err)
  then show ?thesis by (cases rule: release_effect [OF sys_invD(1) [OF assms(2)], of a]) (auto simp: governed_def op_done_def)
next
  case (hs_reclaim dev n g w r)
  then show ?thesis
    by (cases rule: reclaim_effect [OF sys_invD(1) [OF assms(2)], of n dev]) (auto simp: governed_def op_done_def intro: or_refl)
next
  case (hs_reconfigure g w r)
  then show ?thesis by (cases rule: reconfigure_effect [OF sys_invD(1) [OF assms(2)]]) (auto simp: governed_def op_done_def)
next
  case (hs_time_out rid g w r)
  then show ?thesis by (cases rule: time_out_effect [OF sys_invD(1) [OF assms(2)], of rid]) (auto simp: governed_def op_done_def)
next
  case (hs_snapshot g w sn)
  then show ?thesis by (cases rule: snapshot_effect [OF sys_invD(1) [OF assms(2)]]) (auto simp: governed_def op_done_def)
next
  case (hs_process g w r)
  then show ?thesis by (cases rule: process_effect [OF sys_invD(1) [OF assms(2)]]) (auto simp: governed_def op_done_def)
qed (auto intro: or_refl)

lemma host_steps_fair: "host_step\<^sup>*\<^sup>* s s' \<Longrightarrow> host_reachable s \<Longrightarrow> fair (gov s) (gov s') \<and> host_reachable s'"
proof (induction rule: rtranclp_induct)
  case (step s' s'')
  then have r: "host_reachable s'" "fair (gov s) (gov s')" by simp_all
  note ok = sys_invD(1) [OF host_reachable_inv]
  from host_step_run [OF step.hyps(2) host_reachable_inv [OF r(1)]] obtain w where "op_run (gov s') w (gov s'')" by blast
  then have "fair (gov s') (gov s'')" using ok [OF r(1)] by (rule op_run_fair)
  with r(2) have "fair (gov s) (gov s'')" by (rule fair_trans [OF ok [OF step.prems]])
  with hr_step [OF r(1) step.hyps(2)] show ?case by blast
qed (simp add: fair_refl)

lemma drop_finds_slot:
  assumes "sys_inv s" "(rid, gen) \<in> set (armed s)"
  shows "snd (ticket_drop (gov s) (ticket rid gen))"
proof -
  have "length (mb_queue (mailbox (gov s))) < mb_reserved (mailbox (gov s))"
    using sys_invD(4) [OF assms(1)] assms(2) by (cases "armed s") auto
  then show ?thesis by (simp add: ticket_drop_def ticket_def publish_cancel_def Let_def)
qed

lemma held_released:
  assumes inv: "sys_inv s" and a: "a \<in> set (held s)"
  shows "\<exists>g w. release_host_pages (gov s) a = (g, w, Inr ())"
proof -
  note D = sys_invD [OF inv]
  have "map_of (owners (armed s) [] (held s)) (ha_request_id a) = Some (ha_generation a, Some a)"
    by (rule map_of_is_SomeI [OF D(9)]) (use a in \<open>simp add: owners_def\<close>)
  then have "map_option snd (live (gov s) (ha_request_id a)) = Some (Some a)" by (simp add: D(8))
  then show ?thesis by (cases rule: release_effect [OF D(1), of a]) auto
qed

lemma snapshot_totals:
  assumes "ledger_ok g0"
  shows "\<exists>g w sn. host_snapshot g0 = (g, w, Inr sn) \<and> hs_free_bytes sn = free g \<and> hs_capacity_bytes sn = capacity g0 \<and>
    hs_fixed_charge_bytes sn + hs_free_bytes sn + hs_reclaimable_bytes sn + hs_reserved_bytes sn + hs_claimed_bytes sn = hs_capacity_bytes sn"
proof -
  obtain g w sn where s: "host_snapshot g0 = (g, w, Inr sn)" "op_done g0 w g (live g0)" "snapshot_locked g = Inr sn"
    by (rule snapshot_effect [OF assms])
  then have r: "op_run g0 (set w) g" by (simp add: op_done_def)
  note ok = op_run_ok [OF r assms]
  from snapshot_ok [OF ok] s(3) ledger_okD(7) [OF ok] op_run_const [OF r assms] s(1) show ?thesis by auto
qed

text \<open>Two concrete systems: one where a client holds an allocation, one where a large request has waited
  behind small ones until it matured.\<close>

definition fresh_system :: "HostGovernor \<Rightarrow> HostSystem" where
  "fresh_system g = \<lparr>gov = g, armed = [], settling = 0, held = [], parked = {}, signaled = {}, unwoken = {}\<rparr>"

definition sample_governor :: HostGovernor where
  "sample_governor = (case with_sinks ((host_config_new 100)\<lparr>initial_reclaimable := [(1, 50)]\<rparr>) of Inr g \<Rightarrow> g)"

lemma fresh_reachable: "host_reachable (fresh_system sample_governor)"
proof -
  let ?c = "(host_config_new 100)\<lparr>initial_reclaimable := [(1, 50)]\<rparr>"
  have "with_sinks ?c = Inr sample_governor"
    by (simp add: sample_governor_def with_sinks_def host_config_new_def host_checked_add_def host_checked_sub_def ok_or_def
      checked_add_u64_def u64_max_def mailbox_new_def DEFAULT_MAILBOX_CAPACITY_def)
  moreover have "cfg_capacity_bytes ?c \<le> u64_max" by (simp add: host_config_new_def u64_max_def)
  ultimately show ?thesis by (intro hr_init) (auto simp: host_initial_def fresh_system_def)
qed

lemma request_step: "\<exists>s'. host_step s s' \<and> gov s' = fst (request_host_pages (gov s) rq)"
proof -
  obtain g w r where q: "request_host_pages (gov s) rq = (g, w, r)" by (cases "request_host_pages (gov s) rq")
  show ?thesis
  proof (cases r)
    case (Inl err)
    then show ?thesis using hs_request_refused [of s rq g w err] q by (auto simp: governed_def)
  next
    case (Inr t)
    then show ?thesis using hs_request [of s rq g w t] q by (auto simp: governed_def)
  qed
qed

lemma reclaim_step: "\<exists>s'. host_step s s' \<and> gov s' = fst (host_reclaim (gov s) dev n)"
proof -
  obtain g w r where q: "host_reclaim (gov s) dev n = (g, w, r)" by (cases "host_reclaim (gov s) dev n")
  then show ?thesis using hs_reclaim [of s dev n g w r] by (auto simp: governed_def)
qed

lemma reachable_reclaims:
  "host_reachable s \<Longrightarrow> \<exists>s'. host_reachable s' \<and> gov s' = fold (\<lambda>n g. fst (host_reclaim g dev n)) ns (gov s)"
proof (induction ns arbitrary: s)
  case (Cons n ns)
  obtain s1 where "host_reachable s1" "gov s1 = fst (host_reclaim (gov s) dev n)" using Cons.prems hr_step reclaim_step by blast
  with Cons.IH [of s1] show ?case by simp
qed auto

lemmas governor_eval =
  sample_governor_def with_sinks_def host_config_new_def host_checked_add_def host_checked_sub_def ok_or_def
  checked_add_u64_def u64_max_def mailbox_new_def DEFAULT_MAILBOX_CAPACITY_def request_host_pages_def after_drain_def
  drain_cancellations_locked_def mailbox_drain_def max_satisfiable_def reserve_slot_def emit_locked_def emit_payload_def
  then_arbitrate_def arbitrate_locked_def candidates_def sort_candidates_def age_entry_def is_pending_def set_state_def
  enqueue_reclaim_notices_locked_def pageable_def AGING_CAP_def CONTRACT_REVISION_def sat_add_u64_def st_lift_def
  entry_generation_def host_reclaim_def

lemma a_blocked_queue:
  obtains s s' where "host_reachable s" "matured_at (gov s) 1" "host_step s s'" "pending_at (gov s') 1"
    "next_request (gov s') = next_request (gov s) + 1" "free (gov s') = 57"
proof -
  let ?g = "fold (\<lambda>n g. fst (host_reclaim g 1 n)) [1, 1, 1, 1, 1, 1, 1] (fst (request_host_pages sample_governor (pageable 1 60 0)))"
  obtain s1 where s1: "host_reachable s1" "gov s1 = fst (request_host_pages sample_governor (pageable 1 60 0))"
  proof -
    obtain s1 where "host_step (fresh_system sample_governor) s1" "gov s1 = fst (request_host_pages sample_governor (pageable 1 60 0))"
      using request_step [of "fresh_system sample_governor" "pageable 1 60 0"] by (auto simp: fresh_system_def)
    then show thesis using fresh_reachable hr_step that by blast
  qed
  obtain s where s: "host_reachable s" "gov s = ?g" using reachable_reclaims [OF s1(1)] s1(2) by metis
  obtain s' where s': "host_step s s'" "gov s' = fst (request_host_pages ?g (pageable 2 1 9))" using request_step [of s] s(2) by metis
  have "case (?g, fst (request_host_pages ?g (pageable 2 1 9))) of (g, g') \<Rightarrow>
      matured_at g 1 \<and> pending_at g' 1 \<and> next_request g' = next_request g + 1 \<and> free g' = 57"
    by (simp add: governor_eval matured_at_def pending_at_def)
  then show thesis using s s' by (intro that [of s s']) simp_all
qed

lemma a_holder:
  obtains s a where "host_reachable s" "held s = [a]" "ha_bytes a = 40" "capacity (gov s) = 100"
proof -
  let ?t = "\<lparr>tk_request_id = 1, tk_generation = 0, tk_resolved = False\<rparr>" and ?s0 = "fresh_system sample_governor"
  obtain g w where q: "request_host_pages sample_governor (pageable 1 40 0) = (g, w, Inr ?t)"
    and g: "g = fst (request_host_pages sample_governor (pageable 1 40 0))"
    by (simp add: governor_eval)
  obtain g' w' a where c: "governor_try_claim g 1 = (g', w', PollGranted a)" "ha_bytes a = 40" "capacity g' = 100"
    unfolding g by (simp add: governor_eval governor_try_claim_def)
  define s where "s = (governed ?s0 g w)\<lparr>armed := [(1, 0)]\<rparr>"
  have "host_step ?s0 ((governed ?s0 g w)\<lparr>armed := armed ?s0 @ [(tk_request_id ?t, tk_generation ?t)]\<rparr>)"
    by (rule hs_request) (use q in \<open>simp add: fresh_system_def\<close>)
  then have "host_step ?s0 s" by (simp add: s_def fresh_system_def)
  moreover have s: "armed s = [(1, 0)]" "held s = []" "parked s = {}" "gov s = g" by (simp_all add: s_def governed_def fresh_system_def)
  define s' where "s' = (governed s g' w')\<lparr>armed := remove1 (1, 0) (armed s), settling := settling s + 1, held := poll_held (PollGranted a) (held s)\<rparr>"
  have "host_step s s'" unfolding s'_def by (rule hs_poll_resolved) (use c s in simp_all)
  ultimately have "host_reachable s'" using fresh_reachable hr_step by blast
  then show thesis by (rule that [of s' a]) (simp_all add: s'_def c s governed_def poll_held_def)
qed

section \<open>What clients may rely on\<close>

text \<open>
  C36. In every reachable state of the host governor and its clients: the fixed charge, the free,
  reclaimable, reserved and claimed bytes add up to the capacity, and a snapshot succeeds and
  reports them; every ledger entry belongs to exactly one ticket, posted cancellation or holder;
  dropping an unresolved ticket always finds its mailbox slot; every held allocation can be
  released; and a thread parked on a request is still waiting for the governor or has a wakeup
  on the way.
\<close>

theorem host_ledger_accounts_for_every_byte:
  assumes "host_reachable s"
  shows "fixed_charge (gov s) + free (gov s) + weight snd (reclaimable (gov s)) + weight (entry_reserved_bytes \<circ> snd) (entries (gov s)) +
      weight (entry_claimed_bytes \<circ> snd) (entries (gov s)) = capacity (gov s) \<and>
    (\<exists>g w sn. host_snapshot (gov s) = (g, w, Inr sn) \<and> hs_free_bytes sn = free g \<and> hs_capacity_bytes sn = capacity (gov s) \<and>
      hs_fixed_charge_bytes sn + hs_free_bytes sn + hs_reclaimable_bytes sn + hs_reserved_bytes sn + hs_claimed_bytes sn = hs_capacity_bytes sn) \<and>
    distinct (map fst (owners (armed s) (mb_queue (mailbox (gov s))) (held s))) \<and>
    shape (gov s) = map_of (owners (armed s) (mb_queue (mailbox (gov s))) (held s)) \<and>
    (\<forall>(rid, gen) \<in> set (armed s). snd (ticket_drop (gov s) (ticket rid gen))) \<and>
    (\<forall>a \<in> set (held s). \<exists>g w. release_host_pages (gov s) a = (g, w, Inr ())) \<and>
    (\<forall>rid \<in> parked s. pending_at (gov s) rid \<or> rid \<in> signaled s \<union> unwoken s)"
proof -
  have inv: "sys_inv s" using assms by (rule host_reachable_inv)
  note D = sys_invD [OF inv]
  have snap: "\<exists>g w sn. host_snapshot (gov s) = (g, w, Inr sn) \<and> hs_free_bytes sn = free g \<and> hs_capacity_bytes sn = capacity (gov s) \<and>
      hs_fixed_charge_bytes sn + hs_free_bytes sn + hs_reclaimable_bytes sn + hs_reserved_bytes sn + hs_claimed_bytes sn = hs_capacity_bytes sn"
    by (rule snapshot_totals [OF D(1)])
  have "\<exists>g w. release_host_pages (gov s) a = (g, w, Inr ())" if "a \<in> set (held s)" for a
    by (rule held_released [OF inv that])
  moreover have "snd (ticket_drop (gov s) (ticket rid gen))" if "(rid, gen) \<in> set (armed s)" for rid gen
    by (rule drop_finds_slot [OF inv that])
  ultimately show ?thesis using D(2,3,7) ledger_okD(7) [OF D(1)] snap by (auto simp del: One_nat_def)
qed

theorem host_ledger_accounts_for_every_byte_witness:
  "\<exists>s a. host_reachable s \<and> held s = [a] \<and> ha_bytes a = 40 \<and> (\<exists>g w. release_host_pages (gov s) a = (g, w, Inr ())) \<and>
     fixed_charge (gov s) + free (gov s) + weight snd (reclaimable (gov s)) + weight (entry_reserved_bytes \<circ> snd) (entries (gov s)) +
       weight (entry_claimed_bytes \<circ> snd) (entries (gov s)) = 100"
proof -
  obtain s a where s: "host_reachable s" "held s = [a]" "ha_bytes a = 40" "capacity (gov s) = 100"
    by (rule a_holder)
  from host_ledger_accounts_for_every_byte [OF s(1)] s show ?thesis by (intro exI [of _ s] exI [of _ a]) simp
qed

text \<open>
  C37. No starvation. A request ages by one with every round of arbitration that leaves it
  pending, up to the aging cap; once it has reached the cap, then whatever the clients do, until it
  leaves the pending state the governor grants nothing to a request submitted after it.
\<close>

theorem matured_requests_are_not_overtaken:
  assumes "host_reachable s"
  shows "(\<forall>x e g w. map_of (entries (gov s)) x = Some e \<longrightarrow> is_pending e \<longrightarrow> arbitrate_locked (gov s) = (g, Inr w) \<longrightarrow> x \<notin> set w \<longrightarrow>
      map_of (entries g) x = Some (e\<lparr>le_age := min (le_age e + 1) AGING_CAP\<rparr>)) \<and>
    (\<forall>x s'. matured_at (gov s) x \<longrightarrow> host_step\<^sup>*\<^sup>* s s' \<longrightarrow> pending_at (gov s') x \<longrightarrow>
      (\<exists>t. trace (gov s') = trace (gov s) @ t \<and> (\<forall>y \<in> granted_in t. y < x)))"
proof (intro conjI allI impI)
  note ok = sys_invD(1) [OF host_reachable_inv [OF assms]]
  fix x e g w
  assume e: "map_of (entries (gov s)) x = Some e" "is_pending e" and a: "arbitrate_locked (gov s) = (g, Inr w)" "x \<notin> set w"
  have "le_generation e = generation (gov s)"
    using ledger_okD(3) [OF ok e(1)] e(2) by (auto simp: entry_ok_def is_pending_def split: PressureState.splits)
  with e arbitrate_entry(1) [OF ok a] show "map_of (entries g) x = Some (e\<lparr>le_age := min (le_age e + 1) AGING_CAP\<rparr>)"
    by (simp add: age_entry_def)
next
  fix x s'
  assume x: "matured_at (gov s) x" "host_step\<^sup>*\<^sup>* s s'" "pending_at (gov s') x"
  have "fair (gov s) (gov s')" using host_steps_fair [OF x(2) assms] by simp
  with x show "\<exists>t. trace (gov s') = trace (gov s) @ t \<and> (\<forall>y \<in> granted_in t. y < x)" by (auto simp: fair_def)
qed

theorem matured_requests_are_not_overtaken_witness:
  "\<exists>s s' t. host_reachable s \<and> matured_at (gov s) 1 \<and> host_step s s' \<and> next_request (gov s') = next_request (gov s) + 1 \<and>
     free (gov s') = 57 \<and> trace (gov s') = trace (gov s) @ t \<and> granted_in t \<subseteq> {..<1}"
proof -
  obtain s s' where s: "host_reachable s" "matured_at (gov s) 1" "host_step s s'" "pending_at (gov s') 1"
    "next_request (gov s') = next_request (gov s) + 1" "free (gov s') = 57"
    by (rule a_blocked_queue)
  have st: "host_step\<^sup>*\<^sup>* s s'" using s(3) by blast
  obtain t where "trace (gov s') = trace (gov s) @ t" "\<forall>y \<in> granted_in t. y < 1"
    using matured_requests_are_not_overtaken [OF s(1), THEN conjunct2, rule_format, OF s(2) st s(4)] by blast
  with s show ?thesis by blast
qed

end
