(* ===== verification/PressureConformance.thy ===== *)
theory PressureConformance
  imports HostTickets
begin

text \<open>
  The independent reducer of \<open>onnx-genai-scheduler/tests/pressure_conformance.rs\<close>, which restates
  the protocol of \<open>specs/tla/PressureProtocol.tla\<close> over the event types only, and the proof that
  the host governor refines it: whatever the clients do, the replay checker accepts the trace the
  governor has emitted. Sums over tickets are exact: the checker's additions cannot overflow on a
  state whose total is the capacity.
\<close>

section \<open>The abstract ledger\<close>

datatype AbsState = AbsPending | AbsGranted | AbsClaimed | AbsCancelled | AbsFailed | AbsCompleted

record AbsTicket =
  at_extent :: nat
  at_generation :: nat
  at_state :: AbsState
  at_reserved :: nat
  at_claimed :: nat
  at_claim_count :: nat
  at_allocation :: "nat option"

record PressureAbstract =
  pa_capacity :: nat
  pa_fixed_charge :: nat
  pa_free :: nat
  pa_reclaimable :: "(nat \<times> nat) list"
  pa_generation :: nat
  pa_tickets :: "(nat \<times> AbsTicket) list"
  seen_allocations :: "nat set"

fun abs_init_reclaimable :: "(nat \<times> nat) list \<Rightarrow> (nat \<times> nat) list \<Rightarrow> nat \<Rightarrow> (nat \<times> nat) list \<times> nat" where
  "abs_init_reclaimable [] m acc = (m, acc)"
| "abs_init_reclaimable ((device, bytes) # ds) m acc =
     abs_init_reclaimable ds (AList.update device (unwrap_or (map_of m device) 0 + bytes) m) (acc + bytes)"

definition from_config :: "HostGovernorConfig \<Rightarrow> PressureAbstract" where
  "from_config config =
     (case abs_init_reclaimable (initial_reclaimable config) [] 0 of (recl, acc) \<Rightarrow>
        \<lparr>pa_capacity = cfg_capacity_bytes config, pa_fixed_charge = cfg_fixed_charge_bytes config,
         pa_free = cfg_capacity_bytes config - cfg_fixed_charge_bytes config - acc,
         pa_reclaimable = recl, pa_generation = 0, pa_tickets = [], seen_allocations = {}\<rparr>)"

definition abs_reclaimable_total :: "PressureAbstract \<Rightarrow> nat" where
  "abs_reclaimable_total s = weight snd (pa_reclaimable s)"

definition abs_reserved_total :: "PressureAbstract \<Rightarrow> nat" where
  "abs_reserved_total s = weight (at_reserved \<circ> snd) (pa_tickets s)"

definition abs_claimed_total :: "PressureAbstract \<Rightarrow> nat" where
  "abs_claimed_total s = weight (at_claimed \<circ> snd) (pa_tickets s)"

section \<open>Messages\<close>

fun show_nat :: "nat \<Rightarrow> string" where
  "show_nat n = (if n < 10 then [char_of (48 + n)] else show_nat (n div 10) @ [char_of (48 + n mod 10)])"

declare show_nat.simps [simp del]

definition show_request :: "nat \<Rightarrow> string" where
  "show_request n = ''PressureRequestId('' @ show_nat n @ '')''"

definition show_allocation :: "nat \<Rightarrow> string" where
  "show_allocation n = ''PhysicalAllocationId('' @ show_nat n @ '')''"

fun show_state :: "AbsState \<Rightarrow> string" where
  "show_state AbsPending = ''Pending''"
| "show_state AbsGranted = ''Granted''"
| "show_state AbsClaimed = ''Claimed''"
| "show_state AbsCancelled = ''Cancelled''"
| "show_state AbsFailed = ''Failed''"
| "show_state AbsCompleted = ''Completed''"

section \<open>The reducer\<close>

definition in_state :: "PressureAbstract \<Rightarrow> nat \<Rightarrow> AbsState \<Rightarrow> string \<Rightarrow> (AbsTicket \<Rightarrow> string + unit) \<Rightarrow> string + unit" where
  "in_state s request st err k =
     (case map_of (pa_tickets s) request of
        Some t \<Rightarrow> if at_state t = st then k t else Inl (err @ show_request request)
      | None \<Rightarrow> Inl (err @ show_request request))"

fun abs_enabled :: "PressureAbstract \<Rightarrow> PressureEvent \<Rightarrow> string + unit" where
  "abs_enabled s (Submit request gen owner extent) =
     (if map_of (pa_tickets s) request \<noteq> None then Inl (''Submit for existing request '' @ show_request request)
      else if extent = 0 then Inl ''Submit with zero extent''
      else if extent > pa_capacity s - pa_fixed_charge s then Inl ''Submit extent exceeds reclaimable budget''
      else if gen \<noteq> pa_generation s then Inl ''Submit uses a stale generation''
      else Inr ())"
| "abs_enabled s (Grant request allocation owner extent) =
     in_state s request AbsPending ''Grant for non-pending request '' (\<lambda>t.
       if at_generation t \<noteq> pa_generation s then Inl ''Grant for stale-generation pending''
       else if extent \<noteq> at_extent t then Inl ''Grant extent mismatch''
       else if pa_free s < extent then Inl ''Grant exceeds free''
       else if allocation \<in> seen_allocations s then Inl (''Grant reuses allocation id '' @ show_allocation allocation)
       else Inr ())"
| "abs_enabled s (Claim request allocation extent) =
     in_state s request AbsGranted ''Claim for non-granted request '' (\<lambda>t.
       if at_reserved t \<noteq> extent \<or> at_extent t \<noteq> extent then Inl ''Claim extent mismatch''
       else if at_claim_count t \<noteq> 0 then Inl ''Claim would exceed at-most-once''
       else if at_allocation t \<noteq> Some allocation then Inl ''Claim allocation mismatch''
       else Inr ())"
| "abs_enabled s (CancelPending request) =
     in_state s request AbsPending ''CancelPending for non-pending request '' (\<lambda>t. Inr ())"
| "abs_enabled s (CancelGranted request allocation extent) =
     in_state s request AbsGranted ''CancelGranted for non-granted request '' (\<lambda>t.
       if at_reserved t \<noteq> extent then Inl ''CancelGranted extent mismatch''
       else if at_allocation t \<noteq> Some allocation then Inl ''CancelGranted allocation mismatch''
       else Inr ())"
| "abs_enabled s (TimeoutPending request) =
     in_state s request AbsPending ''TimeoutPending for non-pending request '' (\<lambda>t. Inr ())"
| "abs_enabled s (TimeoutGranted request allocation extent) =
     in_state s request AbsGranted ''TimeoutGranted for non-granted request '' (\<lambda>t.
       if at_reserved t \<noteq> extent then Inl ''TimeoutGranted extent mismatch''
       else if at_allocation t \<noteq> Some allocation then Inl ''TimeoutGranted allocation mismatch''
       else Inr ())"
| "abs_enabled s (Release request allocation extent) =
     in_state s request AbsClaimed ''Release for non-claimed request '' (\<lambda>t.
       if at_claimed t \<noteq> extent then Inl ''Release extent mismatch''
       else if at_allocation t \<noteq> Some allocation then Inl ''Release allocation mismatch''
       else Inr ())"
| "abs_enabled s (Reconfigure new_generation) =
     (if new_generation = pa_generation s + 1 then Inr () else Inl ''Reconfigure must increment generation by one'')"
| "abs_enabled s (Reclaim owner bytes) =
     (if bytes = 0 then Inl ''Reclaim of zero bytes''
      else if unwrap_or (map_of (pa_reclaimable s) owner) 0 < bytes then Inl ''Reclaim exceeds device reclaimable''
      else Inr ())"

fun abs_resolve :: "PressureAbstract \<Rightarrow> ProtocolEvent \<Rightarrow> PressureEvent ActionResolution" where
  "abs_resolve s (Pressure event) =
     (case abs_enabled s event of Inr _ \<Rightarrow> Enabled event | Inl d \<Rightarrow> NotEnabled d)"
| "abs_resolve s _ = NotEnabled ''non-pressure event in pressure trace''"

definition abs_sub :: "nat \<Rightarrow> nat \<Rightarrow> string \<Rightarrow> string + nat" where
  "abs_sub a b what = (if b \<le> a then Inr (a - b) else Inl (''checked-sub underflow in '' @ what))"

definition abs_add :: "nat \<Rightarrow> nat \<Rightarrow> string \<Rightarrow> string + nat" where
  "abs_add a b what = ok_or (checked_add_u64 a b) (''checked-add overflow in '' @ what)"

text \<open>A missing ticket is the code's \<open>expect\<close>, a panic; the events that reach it have been resolved.\<close>

definition with_ticket :: "PressureAbstract \<Rightarrow> nat \<Rightarrow> (AbsTicket \<Rightarrow> string + AbsTicket) \<Rightarrow> string + PressureAbstract" where
  "with_ticket s request f =
     (case map_of (pa_tickets s) request of
        None \<Rightarrow> Inl ''ticket''
      | Some t \<Rightarrow> res_bind (f t) (\<lambda>t'. Inr (s\<lparr>pa_tickets := AList.update request t' (pa_tickets s)\<rparr>)))"

fun abs_apply :: "PressureAbstract \<Rightarrow> PressureEvent \<Rightarrow> string + PressureAbstract" where
  "abs_apply s (Submit request gen owner extent) =
     Inr (s\<lparr>pa_tickets := AList.update request
       \<lparr>at_extent = extent, at_generation = gen, at_state = AbsPending, at_reserved = 0, at_claimed = 0,
        at_claim_count = 0, at_allocation = None\<rparr> (pa_tickets s)\<rparr>)"
| "abs_apply s (Grant request allocation owner extent) =
     res_bind (abs_sub (pa_free s) extent ''Grant'') (\<lambda>f.
     with_ticket (s\<lparr>pa_free := f, seen_allocations := insert allocation (seen_allocations s)\<rparr>) request (\<lambda>t.
       Inr (t\<lparr>at_state := AbsGranted, at_reserved := extent, at_allocation := Some allocation\<rparr>)))"
| "abs_apply s (Claim request allocation extent) =
     with_ticket s request (\<lambda>t.
       res_bind (abs_sub (at_reserved t) extent ''Claim reserved'') (\<lambda>r.
       res_bind (abs_add (at_claimed t) extent ''Claim claimed'') (\<lambda>c.
       Inr (t\<lparr>at_reserved := r, at_claimed := c, at_claim_count := at_claim_count t + 1, at_state := AbsClaimed\<rparr>))))"
| "abs_apply s (CancelPending request) = with_ticket s request (\<lambda>t. Inr (t\<lparr>at_state := AbsCancelled\<rparr>))"
| "abs_apply s (CancelGranted request allocation extent) =
     res_bind (abs_add (pa_free s) extent ''CancelGranted'') (\<lambda>f.
     with_ticket (s\<lparr>pa_free := f\<rparr>) request (\<lambda>t.
       res_bind (abs_sub (at_reserved t) extent ''CancelGranted reserved'') (\<lambda>r.
       Inr (t\<lparr>at_reserved := r, at_state := AbsCancelled\<rparr>))))"
| "abs_apply s (TimeoutPending request) = with_ticket s request (\<lambda>t. Inr (t\<lparr>at_state := AbsFailed\<rparr>))"
| "abs_apply s (TimeoutGranted request allocation extent) =
     res_bind (abs_add (pa_free s) extent ''TimeoutGranted'') (\<lambda>f.
     with_ticket (s\<lparr>pa_free := f\<rparr>) request (\<lambda>t.
       res_bind (abs_sub (at_reserved t) extent ''TimeoutGranted reserved'') (\<lambda>r.
       Inr (t\<lparr>at_reserved := r, at_state := AbsFailed\<rparr>))))"
| "abs_apply s (Release request allocation extent) =
     res_bind (abs_add (pa_free s) extent ''Release'') (\<lambda>f.
     with_ticket (s\<lparr>pa_free := f\<rparr>) request (\<lambda>t.
       res_bind (abs_sub (at_claimed t) extent ''Release claimed'') (\<lambda>c.
       Inr (t\<lparr>at_claimed := c, at_state := AbsCompleted\<rparr>))))"
| "abs_apply s (Reconfigure new_generation) =
     Inr (s\<lparr>pa_generation := new_generation,
       pa_tickets := map (\<lambda>(rid, t). (rid, if at_state t = AbsPending then t\<lparr>at_state := AbsFailed\<rparr> else t)) (pa_tickets s)\<rparr>)"
| "abs_apply s (Reclaim owner bytes) =
     res_bind (abs_sub (unwrap_or (map_of (pa_reclaimable s) owner) 0) bytes ''Reclaim debit'') (\<lambda>remaining.
     res_bind (abs_add (pa_free s) bytes ''Reclaim credit'') (\<lambda>f.
     Inr (s\<lparr>pa_reclaimable := AList.update owner remaining (pa_reclaimable s), pa_free := f\<rparr>)))"

definition check_ticket :: "nat \<Rightarrow> nat \<times> AbsTicket \<Rightarrow> string + unit" where
  "check_ticket gen = (\<lambda>(request, t).
     let bad = (\<lambda>m. Inl (m @ show_request request)) in
     if at_state t = AbsGranted \<and> at_reserved t \<noteq> at_extent t then bad ''GrantedIsChargedExactly violated for ''
     else if at_state t \<noteq> AbsGranted \<and> at_reserved t \<noteq> 0 then bad ''reserved leak on non-granted ''
     else if at_state t = AbsClaimed \<and> at_claimed t \<noteq> at_extent t then bad ''ClaimedIsOwnedExactly violated for ''
     else if at_state t \<noteq> AbsClaimed \<and> at_claimed t \<noteq> 0 then bad ''claimed leak on non-claimed ''
     else if at_claim_count t > 1 then bad ''ClaimedAtMostOnce violated for ''
     else if at_state t = AbsClaimed \<and> at_claim_count t \<noteq> 1 then bad ''Claimed without claim_count==1 for ''
     else if at_state t \<in> {AbsCancelled, AbsFailed, AbsCompleted} \<and> (at_reserved t \<noteq> 0 \<or> at_claimed t \<noteq> 0)
     then bad ''TerminalHasNoAllocation violated for ''
     else if at_state t = AbsPending \<and> at_generation t \<noteq> gen then bad ''PendingUsesCurrentGeneration violated for ''
     else Inr ())"

fun check_tickets :: "nat \<Rightarrow> (nat \<times> AbsTicket) list \<Rightarrow> string + unit" where
  "check_tickets gen [] = Inr ()"
| "check_tickets gen (t # ts) = res_bind (check_ticket gen t) (\<lambda>_. check_tickets gen ts)"

definition abs_total :: "PressureAbstract \<Rightarrow> nat" where
  "abs_total s = pa_fixed_charge s + pa_free s + abs_reclaimable_total s + abs_reserved_total s + abs_claimed_total s"

definition abs_check_invariants :: "PressureAbstract \<Rightarrow> string + unit" where
  "abs_check_invariants s =
     (if abs_total s \<noteq> pa_capacity s
      then Inl (''CapacityConserved: '' @ show_nat (abs_total s) @ '' != capacity '' @ show_nat (pa_capacity s))
      else check_tickets (pa_generation s) (pa_tickets s))"

definition abs_active_entries :: "PressureAbstract \<Rightarrow> string list" where
  "abs_active_entries s =
     map (\<lambda>(request, t). show_request request @ '' in '' @ show_state (at_state t))
       (filter (\<lambda>(_, t). at_state t \<in> {AbsPending, AbsGranted, AbsClaimed}) (pa_tickets s))"

definition pressure_protocol :: "(PressureAbstract, PressureEvent) AbstractProtocol" where
  "pressure_protocol =
     \<lparr>resolve = abs_resolve, apply_action = abs_apply, check_invariants = abs_check_invariants,
      active_entries = abs_active_entries\<rparr>"

section \<open>The simulation\<close>

text \<open>The ticket the reducer has for a ledger entry.\<close>

definition ticket_of :: "LedgerEntry \<Rightarrow> AbsTicket \<Rightarrow> bool" where
  "ticket_of e t \<longleftrightarrow>
     at_extent t = le_bytes e \<and> at_generation t = le_generation e \<and>
     at_reserved t = entry_reserved_bytes e \<and> at_claimed t = entry_claimed_bytes e \<and>
     (case le_state e of
        Pending _ \<Rightarrow> at_state t = AbsPending \<and> at_claim_count t = 0
      | Granted a \<Rightarrow> at_state t = AbsGranted \<and> at_claim_count t = 0 \<and> at_allocation t = Some (ha_id a)
      | Claimed a \<Rightarrow> at_state t = AbsClaimed \<and> at_claim_count t = 1 \<and> at_allocation t = Some (ha_id a)
      | Cancelled \<Rightarrow> False
      | Failed _ \<Rightarrow> at_state t = AbsFailed \<and> at_claim_count t = 0)"

definition retired :: "AbsTicket \<Rightarrow> bool" where
  "retired t \<longleftrightarrow> at_state t \<in> {AbsCancelled, AbsFailed, AbsCompleted} \<and> at_reserved t = 0 \<and> at_claimed t = 0 \<and> at_claim_count t \<le> 1"

text \<open>The reducer keeps a ticket for ever, the governor drops its entry when it is settled.\<close>

fun corresponds :: "LedgerEntry option \<Rightarrow> AbsTicket option \<Rightarrow> bool" where
  "corresponds (Some e) (Some t) = ticket_of e t"
| "corresponds (Some e) None = False"
| "corresponds None (Some t) = retired t"
| "corresponds None None = True"

definition related :: "HostGovernor \<Rightarrow> PressureAbstract \<Rightarrow> bool" where
  "related g s \<longleftrightarrow>
     pa_capacity s = capacity g \<and> pa_fixed_charge s = fixed_charge g \<and> pa_free s = free g \<and>
     pa_reclaimable s = reclaimable g \<and> pa_generation s = generation g \<and>
     distinct (map fst (pa_tickets s)) \<and> (\<forall>a \<in> seen_allocations s. a < next_alloc g) \<and>
     (\<forall>rid t. map_of (pa_tickets s) rid = Some t \<longrightarrow> rid < next_request g) \<and>
     (\<forall>rid. corresponds (map_of (entries g) rid) (map_of (pa_tickets s) rid)) \<and>
     abs_reserved_total s = weight (entry_reserved_bytes \<circ> snd) (entries g) \<and>
     abs_claimed_total s = weight (entry_claimed_bytes \<circ> snd) (entries g)"

lemma failed_bytes [simp]: "le_state e = Failed err \<Longrightarrow> entry_reserved_bytes e = 0" "le_state e = Failed err \<Longrightarrow> entry_claimed_bytes e = 0"
  by (simp_all add: entry_reserved_bytes_def entry_claimed_bytes_def)

lemma relatedD:
  assumes "related g s"
  shows "pa_capacity s = capacity g" "pa_fixed_charge s = fixed_charge g" "pa_free s = free g"
    "pa_reclaimable s = reclaimable g" "pa_generation s = generation g" "distinct (map fst (pa_tickets s))"
    "a \<in> seen_allocations s \<Longrightarrow> a < next_alloc g" "map_of (pa_tickets s) rid = Some t \<Longrightarrow> rid < next_request g"
    "corresponds (map_of (entries g) rid) (map_of (pa_tickets s) rid)"
    "weight (at_reserved \<circ> snd) (pa_tickets s) = weight (entry_reserved_bytes \<circ> snd) (entries g)"
    "weight (at_claimed \<circ> snd) (pa_tickets s) = weight (entry_claimed_bytes \<circ> snd) (entries g)"
  using assms unfolding related_def abs_reserved_total_def abs_claimed_total_def by blast+

lemma related_ticket:
  assumes "related g s" "map_of (entries g) rid = Some e"
  obtains t where "map_of (pa_tickets s) rid = Some t" "ticket_of e t"
  using relatedD(9) [OF assms(1), of rid] assms(2) by (cases "map_of (pa_tickets s) rid") auto

text \<open>A related state passes every invariant of the reducer.\<close>

lemma check_tickets_ok: "(\<And>t. t \<in> set ts \<Longrightarrow> check_ticket gen t = Inr ()) \<Longrightarrow> check_tickets gen ts = Inr ()"
  by (induction ts) auto

lemma related_checks:
  assumes ok: "ledger_ok g" and r: "related g s"
  shows "abs_check_invariants s = Inr ()"
proof -
  note D = relatedD [OF r]
  have "abs_total s = pa_capacity s"
    using ledger_okD(7) [OF ok] D by (simp add: abs_total_def abs_reclaimable_total_def abs_reserved_total_def abs_claimed_total_def)
  moreover have "check_ticket (pa_generation s) (rid, t) = Inr ()" if "(rid, t) \<in> set (pa_tickets s)" for rid t
  proof -
    have t: "map_of (pa_tickets s) rid = Some t" using that D(6) by simp
    show ?thesis
    proof (cases "map_of (entries g) rid")
      case None
      with D(9) [of rid] t show ?thesis by (auto simp: check_ticket_def retired_def Let_def)
    next
      case (Some e)
      with D(9) [of rid] t have "ticket_of e t" by simp
      with ledger_okD(3) [OF ok Some] D(5) show ?thesis
        by (auto simp: check_ticket_def ticket_of_def entry_ok_def Let_def split: PressureState.splits)
    qed
  qed
  ultimately show ?thesis by (auto simp: abs_check_invariants_def intro!: check_tickets_ok)
qed

lemma accepted:
  assumes "ledger_ok g'" "related g' s'" "abs_enabled s ev = Inr ()" "abs_apply s ev = Inr s'"
  shows "\<exists>s'. check_event pressure_protocol s (Pressure ev) = Inr s' \<and> related g' s'"
  using assms related_checks [OF assms(1,2)] by (simp add: check_event_def pressure_protocol_def)

text \<open>One entry changes or is dropped, and its ticket with it.\<close>

lemma related_set:
  assumes ok: "ledger_ok g" and r: "related g s" and e: "map_of (entries g) rid = Some e" and t: "map_of (pa_tickets s) rid = Some t" "ticket_of e t"
    and oe: "entries g' = (case oe of Some e' \<Rightarrow> AList.update rid e' (entries g) | None \<Rightarrow> AList.delete rid (entries g))"
      "corresponds oe (Some t')"
    and g': "capacity g' = capacity g" "fixed_charge g' = fixed_charge g" "reclaimable g' = reclaimable g" "generation g' = generation g"
      "next_alloc g \<le> next_alloc g'" "next_request g' = next_request g"
    and s': "seen' \<subseteq> insert (next_alloc g' - 1) (seen_allocations s)" "0 < next_alloc g' \<or> seen' \<subseteq> seen_allocations s"
  shows "related g' (s\<lparr>pa_free := free g', seen_allocations := seen', pa_tickets := AList.update rid t' (pa_tickets s)\<rparr>)" (is "related g' ?s")
proof -
  note D = relatedD [OF r]
  note k = ledger_okD(1) [OF ok]
  have tt: "at_reserved t = entry_reserved_bytes e" "at_claimed t = entry_claimed_bytes e" using t(2) by (simp_all add: ticket_of_def)
  have wt: "weight (at_reserved \<circ> snd) (AList.update rid t' (pa_tickets s)) + at_reserved t = weight (at_reserved \<circ> snd) (pa_tickets s) + at_reserved t'"
    "weight (at_claimed \<circ> snd) (AList.update rid t' (pa_tickets s)) + at_claimed t = weight (at_claimed \<circ> snd) (pa_tickets s) + at_claimed t'"
    using weight_alist_update [OF D(6) t(1), of "at_reserved \<circ> snd" t'] weight_alist_update [OF D(6) t(1), of "at_claimed \<circ> snd" t'] by simp_all
  have we: "weight (entry_reserved_bytes \<circ> snd) (entries g') + entry_reserved_bytes e = weight (entry_reserved_bytes \<circ> snd) (entries g) + at_reserved t'"
    "weight (entry_claimed_bytes \<circ> snd) (entries g') + entry_claimed_bytes e = weight (entry_claimed_bytes \<circ> snd) (entries g) + at_claimed t'"
    using weight_alist_update [OF k e, of "entry_reserved_bytes \<circ> snd"] weight_alist_update [OF k e, of "entry_claimed_bytes \<circ> snd"]
      weight_alist_delete [OF k e, of "entry_reserved_bytes \<circ> snd"] weight_alist_delete [OF k e, of "entry_claimed_bytes \<circ> snd"] oe
    by (cases oe; simp add: ticket_of_def retired_def)+
  have c: "corresponds (map_of (entries g') x) (map_of (pa_tickets ?s) x)" for x
    using D(9) [of x] oe by (cases oe) (auto simp: delete_conv')
  have n: "x < next_request g'" if "map_of (pa_tickets ?s) x = Some y" for x y
    using that D(8) t(1) by (auto simp: g' split: if_splits)
  have a: "x < next_alloc g'" if "x \<in> seen'" for x
    using that s' D(7) [of x] g'(5) by auto
  show ?thesis unfolding related_def abs_reserved_total_def abs_claimed_total_def
    using c n a wt we tt D by (simp add: g')
qed

lemma related_cong:
  assumes "related g s" "entries g' = entries g" "reclaimable g' = reclaimable g" "generation g' = generation g"
    "capacity g' = capacity g" "fixed_charge g' = fixed_charge g" "free g' = free g" "next_alloc g' = next_alloc g"
    "next_request g \<le> next_request g'"
  shows "related g' s"
  using assms(1) less_le_trans [OF _ assms(9)] unfolding related_def assms(2-8) by blast

lemma related_map:
  assumes r: "related g s" and g': "entries g' = map (\<lambda>(rid, e). (rid, f rid e)) (entries g)" "reclaimable g' = reclaimable g"
      "capacity g' = capacity g" "fixed_charge g' = fixed_charge g" "free g' = free g" "next_alloc g' = next_alloc g" "next_request g' = next_request g"
    and s': "pa_tickets s' = map (\<lambda>(rid, t). (rid, h t)) (pa_tickets s)" "pa_reclaimable s' = pa_reclaimable s" "pa_capacity s' = pa_capacity s"
      "pa_fixed_charge s' = pa_fixed_charge s" "pa_free s' = pa_free s" "pa_generation s' = generation g'" "seen_allocations s' = seen_allocations s"
    and f: "\<And>rid e. entry_reserved_bytes (f rid e) = entry_reserved_bytes e" "\<And>rid e. entry_claimed_bytes (f rid e) = entry_claimed_bytes e"
    and h: "\<And>t. at_reserved (h t) = at_reserved t" "\<And>t. at_claimed (h t) = at_claimed t" "\<And>t. retired t \<Longrightarrow> retired (h t)"
      "\<And>rid e t. map_of (entries g) rid = Some e \<Longrightarrow> ticket_of e t \<Longrightarrow> ticket_of (f rid e) (h t)"
  shows "related g' s'"
proof -
  note D = relatedD [OF r]
  have m: "map_of (entries g') x = map_option (f x) (map_of (entries g) x)" "map_of (pa_tickets s') x = map_option h (map_of (pa_tickets s) x)" for x
    using map_of_map_entries [of f] map_of_map_entries [of "\<lambda>_. h"] by (simp_all add: g' s')
  have c: "corresponds (map_of (entries g') x) (map_of (pa_tickets s') x)" for x
    using D(9) [of x] h(3,4) by (cases "map_of (entries g) x"; cases "map_of (pa_tickets s) x") (auto simp: m)
  have n: "x < next_request g'" if "map_of (pa_tickets s') x = Some y" for x y
    using that D(8) by (auto simp: m g')
  have k: "map fst (pa_tickets s') = map fst (pa_tickets s)" unfolding s' by (induction "pa_tickets s") auto
  have w: "weight (entry_reserved_bytes \<circ> snd) (entries g') = weight (entry_reserved_bytes \<circ> snd) (entries g)"
    "weight (entry_claimed_bytes \<circ> snd) (entries g') = weight (entry_claimed_bytes \<circ> snd) (entries g)"
    "weight (at_reserved \<circ> snd) (pa_tickets s') = weight (at_reserved \<circ> snd) (pa_tickets s)"
    "weight (at_claimed \<circ> snd) (pa_tickets s') = weight (at_claimed \<circ> snd) (pa_tickets s)"
    unfolding weight_def g' s' by (auto simp: f h case_prod_beta intro!: arg_cong [of _ _ sum_list])
  have d: "distinct (map fst (pa_tickets s'))" unfolding k by (rule D(6))
  show ?thesis unfolding related_def abs_reserved_total_def abs_claimed_total_def
    using c n d w D(1-7,10,11) by (simp add: g' s')
qed

subsection \<open>Every step of the ledger\<close>

text \<open>What a step adds to the trace, and the reducer's answer.\<close>

definition simulated :: "HostGovernor \<Rightarrow> HostGovernor \<Rightarrow> PressureAbstract \<Rightarrow> bool" where
  "simulated g g' s \<longleftrightarrow>
     (trace g' = trace g \<and> related g' s) \<or>
     (\<exists>r ev s'. trace g' = trace g @ [r] \<and> event_kind r = Pressure ev \<and>
        check_event pressure_protocol s (Pressure ev) = Inr s' \<and> related g' s')"

lemma simulated_event:
  assumes "trace g' = trace (emit_locked g ev)" "ledger_ok g'" "related g' s'" "abs_enabled s ev = Inr ()" "abs_apply s ev = Inr s'"
  shows "simulated g g' s"
  using accepted [OF assms(2-5)] assms(1) by (auto simp: simulated_def)

lemma simulated_silent: "trace g' = trace g \<Longrightarrow> related g' s \<Longrightarrow> simulated g g' s"
  by (simp add: simulated_def)

lemma ticket_of_simps:
  "ticket_of e t \<Longrightarrow> is_pending e \<Longrightarrow> at_state t = AbsPending \<and> at_claim_count t = 0 \<and> at_reserved t = 0 \<and> at_claimed t = 0"
  "ticket_of e t \<Longrightarrow> le_state e = Granted a \<Longrightarrow> at_state t = AbsGranted \<and> at_claim_count t = 0 \<and> at_allocation t = Some (ha_id a) \<and>
     at_reserved t = le_bytes e \<and> at_claimed t = 0"
  "ticket_of e t \<Longrightarrow> le_state e = Claimed a \<Longrightarrow> at_state t = AbsClaimed \<and> at_claim_count t = 1 \<and> at_allocation t = Some (ha_id a) \<and>
     at_reserved t = 0 \<and> at_claimed t = le_bytes e"
  by (auto simp: ticket_of_def is_pending_def split: PressureState.splits)

lemma ticket_of_fields: "ticket_of e t \<Longrightarrow> at_extent t = le_bytes e \<and> at_generation t = le_generation e"
  by (simp add: ticket_of_def)

lemma simulated_grant:
  assumes "grant_step g g'" "ledger_ok g" "related g s"
  shows "simulated g g' s"
  using assms(1)
proof (cases rule: grant_step.cases)
  case (gs_grant rid e)
  note D = relatedD [OF assms(3)]
  obtain t where t: "map_of (pa_tickets s) rid = Some t" "ticket_of e t" using related_ticket [OF assms(3) gs_grant(2)] .
  note T = ticket_of_simps(1) [OF t(2) gs_grant(3)] ticket_of_fields [OF t(2)]
  let ?t = "t\<lparr>at_state := AbsGranted, at_reserved := le_bytes e, at_allocation := Some (next_alloc g)\<rparr>"
  let ?e = "e\<lparr>le_state := Granted (allocation_of (next_alloc g) rid e)\<rparr>"
  let ?s = "s\<lparr>pa_free := free g', seen_allocations := insert (next_alloc g) (seen_allocations s), pa_tickets := AList.update rid ?t (pa_tickets s)\<rparr>"
  have "next_alloc g \<notin> seen_allocations s" using D(7) by blast
  then have en: "abs_enabled s (Grant rid (next_alloc g) (le_owner e) (le_bytes e)) = Inr ()"
    using T t gs_grant(4,5) D by (simp add: in_state_def)
  have ap: "abs_apply s (Grant rid (next_alloc g) (le_owner e) (le_bytes e)) = Inr ?s"
    using t gs_grant(1,5) D by (simp add: abs_sub_def with_ticket_def)
  have "related g' ?s"
    by (rule related_set [OF assms(2,3) gs_grant(2) t, where oe = "Some ?e"])
      (use T in \<open>simp_all add: gs_grant(1) ticket_of_def\<close>)
  from simulated_event [OF _ ledger_ok_grant [OF assms(1,2)] this en ap] show ?thesis by (simp add: gs_grant(1))
qed

lemma simulated_set:
  assumes ok: "ledger_ok g" "ledger_ok g'" and r: "related g s" and e: "map_of (entries g) rid = Some e" and t: "map_of (pa_tickets s) rid = Some t" "ticket_of e t"
    and oe: "entries g' = (case oe of Some e' \<Rightarrow> AList.update rid e' (entries g) | None \<Rightarrow> AList.delete rid (entries g))"
      "corresponds oe (Some t')"
    and g': "capacity g' = capacity g" "fixed_charge g' = fixed_charge g" "reclaimable g' = reclaimable g" "generation g' = generation g"
      "next_alloc g' = next_alloc g" "next_request g' = next_request g"
    and ev: "trace g' = trace (emit_locked g ev)" "abs_enabled s ev = Inr ()"
      "abs_apply s ev = Inr (s\<lparr>pa_free := free g', pa_tickets := AList.update rid t' (pa_tickets s)\<rparr>)"
  shows "simulated g g' s"
proof -
  have "related g' (s\<lparr>pa_free := free g', seen_allocations := seen_allocations s, pa_tickets := AList.update rid t' (pa_tickets s)\<rparr>)"
    by (rule related_set [OF ok(1) r e t oe]) (auto simp: g')
  then show ?thesis using simulated_event [OF ev(1) ok(2) _ ev(2,3)] by simp
qed

lemma related_entry:
  assumes "ledger_ok g" "related g s" "map_of (entries g) rid = Some e"
  obtains t where "map_of (pa_tickets s) rid = Some t" "ticket_of e t" "at_extent t = le_bytes e" "at_generation t = le_generation e" "le_bytes e \<le> u64_max"
    "is_pending e \<longrightarrow> at_state t = AbsPending \<and> at_claim_count t = 0 \<and> at_reserved t = 0 \<and> at_claimed t = 0"
    "\<forall>a. le_state e = Granted a \<longrightarrow> at_state t = AbsGranted \<and> at_claim_count t = 0 \<and> at_allocation t = Some (ha_id a) \<and>
       at_reserved t = le_bytes e \<and> at_claimed t = 0 \<and> ha_bytes a = le_bytes e \<and> free g + le_bytes e \<le> u64_max"
    "\<forall>a. le_state e = Claimed a \<longrightarrow> at_state t = AbsClaimed \<and> at_claim_count t = 1 \<and> at_allocation t = Some (ha_id a) \<and>
       at_reserved t = 0 \<and> at_claimed t = le_bytes e \<and> ha_bytes a = le_bytes e \<and> free g + le_bytes e \<le> u64_max"
proof -
  obtain t where t: "map_of (pa_tickets s) rid = Some t" "ticket_of e t" using related_ticket [OF assms(2,3)] .
  have "le_bytes e \<le> u64_max" using ledger_okD(3) [OF assms(1,3)] ledger_okD(6) [OF assms(1)]
    by (auto simp: entry_ok_def max_satisfiable_def)
  with t show thesis
    using ticket_of_simps [OF t(2)] ticket_of_fields [OF t(2)] granted_allocation [OF assms(1,3)] credit_fits [OF assms(1,3)]
    by (intro that [of t]) auto
qed

lemmas reducer_defs = in_state_def with_ticket_def abs_sub_def abs_add_def ticket_of_def retired_def delete_update_same

lemma simulated_claim:
  assumes "ledger_ok g" "related g s" and e: "map_of (entries g) rid = Some e" "le_state e = Granted a"
  shows "simulated g (emit_locked (set_state g rid e (Claimed a)) (Claim rid (ha_id a) (ha_bytes a))) s" (is "simulated g ?g s")
proof -
  obtain t where t: "map_of (pa_tickets s) rid = Some t" "ticket_of e t" "at_extent t = le_bytes e" "at_generation t = le_generation e" "le_bytes e \<le> u64_max"
    "at_state t = AbsGranted \<and> at_claim_count t = 0 \<and> at_allocation t = Some (ha_id a) \<and> at_reserved t = le_bytes e \<and> at_claimed t = 0 \<and> ha_bytes a = le_bytes e"
    using related_entry [OF assms(1,2) e(1)] e(2) by metis
  show ?thesis
    by (rule simulated_set [OF assms(1) ledger_ok_quiet [OF qs_claim [OF e] assms(1)] assms(2) e(1) t(1,2), where oe = "Some (e\<lparr>le_state := Claimed a\<rparr>)"
        and ev = "Claim rid (ha_id a) (le_bytes e)" and t' = "t\<lparr>at_reserved := 0, at_claimed := le_bytes e, at_claim_count := 1, at_state := AbsClaimed\<rparr>"])
      (use t(1,3-) relatedD(3) [OF assms(2)] in \<open>simp_all add: reducer_defs\<close>)
qed

lemma simulated_cancel:
  assumes "ledger_ok g" "related g s" and e: "map_of (entries g) rid = Some e"
  shows "is_pending e \<Longrightarrow> simulated g (remove_terminal_locked (emit_locked (set_state g rid e Cancelled) (CancelPending rid)) rid) s"
    "le_state e = Granted a \<Longrightarrow> simulated g (remove_terminal_locked (emit_locked (set_state (g\<lparr>free := free g + le_bytes e\<rparr>) rid e Cancelled)
      (CancelGranted rid (ha_id a) (le_bytes e))) rid) s"
proof -
  obtain t where t: "map_of (pa_tickets s) rid = Some t" "ticket_of e t" "at_extent t = le_bytes e" "at_generation t = le_generation e" "le_bytes e \<le> u64_max"
    and p: "is_pending e \<longrightarrow> at_state t = AbsPending \<and> at_claim_count t = 0 \<and> at_reserved t = 0 \<and> at_claimed t = 0"
    and q: "\<forall>a. le_state e = Granted a \<longrightarrow> at_state t = AbsGranted \<and> at_claim_count t = 0 \<and> at_allocation t = Some (ha_id a) \<and>
       at_reserved t = le_bytes e \<and> at_claimed t = 0 \<and> ha_bytes a = le_bytes e \<and> free g + le_bytes e \<le> u64_max"
    by (rule related_entry [OF assms]) blast
  note rule = simulated_set [OF assms(1) _ assms(2) e t(1,2), where oe = None]
  show "simulated g (remove_terminal_locked (emit_locked (set_state g rid e Cancelled) (CancelPending rid)) rid) s" if "is_pending e"
    by (rule rule [OF ledger_ok_quiet [OF qs_cancel_pending [OF e that] assms(1)], where ev = "CancelPending rid" and t' = "t\<lparr>at_state := AbsCancelled\<rparr>"])
      (use p that t(1,3-) relatedD(3) [OF assms(2)] in \<open>simp_all add: reducer_defs\<close>)
  show "simulated g (remove_terminal_locked (emit_locked (set_state (g\<lparr>free := free g + le_bytes e\<rparr>) rid e Cancelled)
      (CancelGranted rid (ha_id a) (le_bytes e))) rid) s" if "le_state e = Granted a"
    by (rule rule [OF ledger_ok_quiet [OF qs_cancel_granted [OF e that] assms(1)], where ev = "CancelGranted rid (ha_id a) (le_bytes e)"
        and t' = "t\<lparr>at_reserved := 0, at_state := AbsCancelled\<rparr>"])
      (use q that t(1,3-) relatedD(3) [OF assms(2)] in \<open>simp_all add: reducer_defs\<close>)
qed

lemma simulated_timeout:
  assumes "ledger_ok g" "related g s" and e: "map_of (entries g) rid = Some e"
  shows "is_pending e \<Longrightarrow> simulated g (emit_locked (set_state g rid e (Failed err)) (TimeoutPending rid)) s"
    "le_state e = Granted a \<Longrightarrow> simulated g (emit_locked (set_state (g\<lparr>free := free g + le_bytes e\<rparr>) rid e (Failed err))
      (TimeoutGranted rid (ha_id a) (le_bytes e))) s"
proof -
  obtain t where t: "map_of (pa_tickets s) rid = Some t" "ticket_of e t" "at_extent t = le_bytes e" "at_generation t = le_generation e" "le_bytes e \<le> u64_max"
    and p: "is_pending e \<longrightarrow> at_state t = AbsPending \<and> at_claim_count t = 0 \<and> at_reserved t = 0 \<and> at_claimed t = 0"
    and q: "\<forall>a. le_state e = Granted a \<longrightarrow> at_state t = AbsGranted \<and> at_claim_count t = 0 \<and> at_allocation t = Some (ha_id a) \<and>
       at_reserved t = le_bytes e \<and> at_claimed t = 0 \<and> ha_bytes a = le_bytes e \<and> free g + le_bytes e \<le> u64_max"
    by (rule related_entry [OF assms]) blast
  note rule = simulated_set [OF assms(1) _ assms(2) e t(1,2), where oe = "Some (e\<lparr>le_state := Failed err\<rparr>)"]
  show "simulated g (emit_locked (set_state g rid e (Failed err)) (TimeoutPending rid)) s" if "is_pending e"
    by (rule rule [OF ledger_ok_quiet [OF qs_timeout_pending [OF e that] assms(1)], where ev = "TimeoutPending rid" and t' = "t\<lparr>at_state := AbsFailed\<rparr>"])
      (use p that t(1,3-) relatedD(3) [OF assms(2)] in \<open>simp_all add: reducer_defs\<close>)
  show "simulated g (emit_locked (set_state (g\<lparr>free := free g + le_bytes e\<rparr>) rid e (Failed err))
      (TimeoutGranted rid (ha_id a) (le_bytes e))) s" if "le_state e = Granted a"
    by (rule rule [OF ledger_ok_quiet [OF qs_timeout_granted [OF e that] assms(1)], where ev = "TimeoutGranted rid (ha_id a) (le_bytes e)"
        and t' = "t\<lparr>at_reserved := 0, at_state := AbsFailed\<rparr>"])
      (use q that t(1,3-) relatedD(3) [OF assms(2)] in \<open>simp_all add: reducer_defs\<close>)
qed

lemma simulated_release:
  assumes "ledger_ok g" "related g s" and e: "map_of (entries g) rid = Some e" "le_state e = Claimed a"
  shows "simulated g (remove_terminal_locked (emit_locked (g\<lparr>free := free g + ha_bytes a\<rparr>) (Release rid (ha_id a) (ha_bytes a))) rid) s" (is "simulated g ?g s")
proof -
  obtain t where t: "map_of (pa_tickets s) rid = Some t" "ticket_of e t" "at_extent t = le_bytes e" "at_generation t = le_generation e" "le_bytes e \<le> u64_max"
    "at_state t = AbsClaimed \<and> at_claim_count t = 1 \<and> at_allocation t = Some (ha_id a) \<and>
       at_reserved t = 0 \<and> at_claimed t = le_bytes e \<and> ha_bytes a = le_bytes e \<and> free g + le_bytes e \<le> u64_max"
    using related_entry [OF assms(1,2) e(1)] e(2) by metis
  show ?thesis
    by (rule simulated_set [OF assms(1) ledger_ok_quiet [OF qs_release [OF e] assms(1)] assms(2) e(1) t(1,2), where oe = None
        and ev = "Release rid (ha_id a) (le_bytes e)" and t' = "t\<lparr>at_claimed := 0, at_state := AbsCompleted\<rparr>"])
      (use t(1,3-) relatedD(3) [OF assms(2)] in \<open>simp_all add: reducer_defs\<close>)
qed

lemma simulated_submit:
  assumes ok: "ledger_ok g" and r: "related g s"
    and e: "le_state e = Pending rq" "0 < le_bytes e" "le_bytes e \<le> max_satisfiable g" "le_generation e = generation g"
      "le_submit_seq e = next_submit_seq g" "le_age e = 0"
  shows "simulated g (emit_locked (g\<lparr>next_request := next_request g + 1, next_submit_seq := next_submit_seq g + 1,
      mailbox := mb, entries := AList.update (next_request g) e (entries g)\<rparr>) (Submit (next_request g) (generation g) (le_owner e) (le_bytes e))) s"
    (is "simulated g ?g s")
proof -
  note D = relatedD [OF r]
  let ?n = "next_request g"
  let ?t = "\<lparr>at_extent = le_bytes e, at_generation = generation g, at_state = AbsPending, at_reserved = 0, at_claimed = 0,
      at_claim_count = 0, at_allocation = None\<rparr>"
  have new: "map_of (pa_tickets s) ?n = None" using D(8) [of ?n] by (cases "map_of (pa_tickets s) ?n") auto
  then have old: "map_of (entries g) ?n = None" using D(9) [of ?n] by (cases "map_of (entries g) ?n") auto
  have t: "ticket_of e ?t" using e by (simp add: ticket_of_def)
  have c: "corresponds (map_of (entries ?g) x) (map_of (AList.update ?n ?t (pa_tickets s)) x)" for x
    using D(9) [of x] t by auto
  have n: "x < next_request ?g" if "map_of (AList.update ?n ?t (pa_tickets s)) x = Some y" for x y
    using that D(8) [of x] by (auto split: if_splits)
  have "related ?g (s\<lparr>pa_tickets := AList.update ?n ?t (pa_tickets s)\<rparr>)"
    unfolding related_def abs_reserved_total_def abs_claimed_total_def
    using c n D(1-7,10,11) e(1) by (simp add: weight_alist_insert [OF new] weight_alist_insert [OF old])
  then show ?thesis
    by (rule simulated_event [OF _ ledger_ok_quiet [OF qs_submit [OF e] ok], where ev = "Submit ?n (generation g) (le_owner e) (le_bytes e)", rotated])
      (use new e D in \<open>simp_all add: max_satisfiable_def\<close>)
qed

lemma simulated_reconfigure:
  assumes ok: "ledger_ok g" and r: "related g s"
  shows "simulated g (emit_locked (g\<lparr>generation := generation g + 1, entries := map (fail_stale (generation g + 1)) (entries g)\<rparr>)
    (Reconfigure (generation g + 1))) s" (is "simulated g ?g s")
proof -
  let ?n = "generation g + 1"
  let ?h = "\<lambda>t. if at_state t = AbsPending then t\<lparr>at_state := AbsFailed\<rparr> else t"
  let ?s = "s\<lparr>pa_generation := ?n, pa_tickets := map (\<lambda>(rid, t). (rid, ?h t)) (pa_tickets s)\<rparr>"
  have tk: "ticket_of (snd (fail_stale ?n (rid, e))) (?h t)" if "map_of (entries g) rid = Some e" "ticket_of e t" for rid e t
    using that ledger_okD(3) [OF ok that(1)]
    by (auto simp: ticket_of_def fail_stale_def is_stale_def is_pending_def entry_ok_def split: PressureState.splits)
  have "related ?g ?s"
    by (rule related_map [OF r, where f = "\<lambda>rid e. snd (fail_stale ?n (rid, e))" and h = ?h])
      (use tk in \<open>simp_all add: fail_stale_conv fail_stale_keeps retired_def\<close>)
  then show ?thesis
    by (rule simulated_event [OF _ ledger_ok_quiet [OF qs_reconfigure ok], where ev = "Reconfigure ?n", rotated])
      (use relatedD(5) [OF r] in simp_all)
qed

lemma simulated_reclaim:
  assumes ok: "ledger_ok g" and r: "related g s" and d: "map_of (reclaimable g) d = Some k" "0 < n" "n \<le> k"
  shows "simulated g (emit_locked (g\<lparr>reclaimable := AList.update d (k - n) (reclaimable g), free := free g + n\<rparr>) (Reclaim d n)) s"
    (is "simulated g ?g s")
proof -
  note D = relatedD [OF r]
  have fit: "free g + n \<le> u64_max" using ledger_okD(6,7) [OF ok] weight_alist_member [OF d(1), of snd] d(3) by simp
  have "related ?g (s\<lparr>pa_reclaimable := AList.update d (k - n) (pa_reclaimable s), pa_free := pa_free s + n\<rparr>)"
    unfolding related_def abs_reserved_total_def abs_claimed_total_def using D by simp
  then show ?thesis
    by (rule simulated_event [OF _ ledger_ok_quiet [OF qs_reclaim [OF d] ok], where ev = "Reclaim d n", rotated])
      (use D(3,4) d fit in \<open>simp_all add: abs_sub_def abs_add_def\<close>)
qed

lemma related_reap:
  assumes ok: "ledger_ok g" and r: "related g s" and e: "map_of (entries g) rid = Some e" "is_terminal e"
  shows "related (remove_terminal_locked g rid) s"
proof -
  note D = relatedD [OF r]
  have "retired t" if "ticket_of e t" for t
    using that e(2) by (auto simp: ticket_of_def retired_def is_terminal_def split: PressureState.splits)
  then have c: "corresponds (map_of (AList.delete rid (entries g)) x) (map_of (pa_tickets s) x)" for x
    using D(9) [of x] e(1) by (cases "map_of (pa_tickets s) x") (auto simp: delete_conv')
  have w: "weight (entry_reserved_bytes \<circ> snd) (AList.delete rid (entries g)) = weight (entry_reserved_bytes \<circ> snd) (entries g)"
    "weight (entry_claimed_bytes \<circ> snd) (AList.delete rid (entries g)) = weight (entry_claimed_bytes \<circ> snd) (entries g)"
    using e weight_alist_delete [OF ledger_okD(1) [OF ok] e(1), of "entry_reserved_bytes \<circ> snd"]
      weight_alist_delete [OF ledger_okD(1) [OF ok] e(1), of "entry_claimed_bytes \<circ> snd"] by simp_all
  show ?thesis unfolding related_def abs_reserved_total_def abs_claimed_total_def
    using c w D by simp
qed

lemma related_age:
  assumes "related g s"
  shows "related (g\<lparr>entries := map (\<lambda>(rid, e). (rid, age_entry (generation g) e)) (entries g)\<rparr>) s"
  by (rule related_map [OF assms, where f = "\<lambda>_. age_entry (generation g)" and h = "\<lambda>t. t"])
    (use relatedD(5) [OF assms] in \<open>simp_all add: ticket_of_def\<close>)

lemma simulated_quiet:
  assumes "quiet_step g g'" "ledger_ok g" "related g s"
  shows "simulated g g' s"
  using assms
proof (induction rule: quiet_step.induct)
  case (qs_reap g rid e)
  then show ?case by (intro simulated_silent related_reap) simp_all
next
  case (qs_age g)
  show ?case by (rule simulated_silent [OF _ related_age [OF qs_age(2)]]) simp
next
  case (qs_mailbox g mb)
  show ?case by (rule simulated_silent [OF _ related_cong [OF qs_mailbox(2)]]) simp_all
next
  case (qs_skip_number g)
  show ?case by (rule simulated_silent [OF _ related_cong [OF qs_skip_number(2)]]) simp_all
next
  case (qs_shortfall g b)
  show ?case by (rule simulated_silent [OF _ related_cong [OF qs_shortfall(2)]]) simp_all
next
  case (qs_payload g p)
  show ?case by (rule simulated_silent [OF _ related_cong [OF qs_payload(2)]]) simp_all
qed (auto intro: simulated_submit simulated_claim simulated_cancel simulated_timeout simulated_release simulated_reconfigure simulated_reclaim
  simp del: One_nat_def add_Suc_right)

section \<open>The whole trace\<close>

definition conforming :: "PressureAbstract \<Rightarrow> HostGovernor \<Rightarrow> bool" where
  "conforming s0 g \<longleftrightarrow> (\<exists>s. replay pressure_protocol s0 (map event_kind (trace g)) = Inr s \<and> related g s)"

lemma ledger_step_simulated: "ledger_step g g' \<Longrightarrow> ledger_ok g \<Longrightarrow> related g s \<Longrightarrow> simulated g g' s"
  using simulated_quiet simulated_grant by (auto simp: ledger_step_def)

interpretation pressure: trace_simulation pressure_protocol ledger_step trace ledger_ok related
proof unfold_locales
  fix g g' s
  assume st: "ledger_step g g'" "ledger_ok g" "related g s"
  show "(trace g' = trace g \<and> related g' s) \<or>
      (\<exists>r s'. trace g' = trace g @ [r] \<and> check_event pressure_protocol s (event_kind r) = Inr s' \<and> related g' s')"
    using ledger_step_simulated [OF st] unfolding simulated_def by metis
qed (rule ledger_ok_step)

lemma conforming_steps: "ledger_steps g g' \<Longrightarrow> ledger_ok g \<Longrightarrow> conforming s0 g \<Longrightarrow> conforming s0 g'"
  unfolding conforming_def using pressure.steps_accepted by blast

text \<open>Numbering: the governor is one source and counts its events up, saturating.\<close>

definition numbered :: "HostGovernor \<Rightarrow> bool" where
  "numbered g \<longleftrightarrow>
     next_source_sequence g = min (length (trace g)) u64_max \<and>
     (\<forall>e \<in> set (trace g). contract_revision e = CONTRACT_REVISION \<and> event_source e = governor_source g) \<and>
     map source_sequence (trace g) = map (\<lambda>i. min i u64_max) [0..<length (trace g)]"

lemma numbered_emit [simp]: "numbered g \<Longrightarrow> numbered (emit_locked g k)" "numbered g \<Longrightarrow> numbered (emit_payload g p)"
  by (auto simp: numbered_def sat_add_u64_def)

lemma numbered_cong:
  "numbered g \<Longrightarrow> next_source_sequence g' = next_source_sequence g \<Longrightarrow> trace g' = trace g \<Longrightarrow> governor_source g' = governor_source g \<Longrightarrow> numbered g'"
  by (simp add: numbered_def)

lemma numbered_step: "ledger_step g g' \<Longrightarrow> numbered g \<Longrightarrow> numbered g'"
  unfolding ledger_step_def
  by (auto elim!: quiet_step.cases grant_step.cases intro!: numbered_emit
    intro: numbered_cong [of "emit_locked _ _"] numbered_cong [of g] simp del: One_nat_def add_Suc_right)

lemma numbered_steps: "ledger_steps g g' \<Longrightarrow> numbered g \<Longrightarrow> numbered g'"
  by (induction rule: rtranclp_induct) (auto intro: numbered_step)

lemma numbered_sorted: "numbered g \<Longrightarrow> length (trace g) \<le> u64_max + 1 \<Longrightarrow> sorted_wrt (<) (map source_sequence (trace g))"
proof -
  assume "numbered g" "length (trace g) \<le> u64_max + 1"
  then have "map source_sequence (trace g) = map (\<lambda>i. min i u64_max) [0..<length (trace g)]" "\<forall>i < length (trace g). min i u64_max = i"
    by (auto simp: numbered_def)
  then have "map source_sequence (trace g) = [0..<length (trace g)]" by (auto intro: nth_equalityI)
  then show ?thesis by simp
qed

text \<open>The start: the reducer's initial state is the governor's.\<close>

lemma abs_init: "init_reclaimable ds m acc = Inr (m', acc') \<Longrightarrow> abs_init_reclaimable ds m acc = (m', acc')"
  by (induction ds m acc rule: init_reclaimable.induct) (auto simp: host_checked_add_def ok_or_def checked_add_u64_def split: option.splits if_splits)

lemma conforming_start:
  assumes "with_sinks config = Inr g"
  shows "conforming (from_config config) g" "numbered g"
proof -
  from assms obtain recl acc where i: "init_reclaimable (initial_reclaimable config) [] 0 = Inr (recl, acc)"
    and g: "capacity g = cfg_capacity_bytes config" "fixed_charge g = cfg_fixed_charge_bytes config"
      "free g = cfg_capacity_bytes config - (cfg_fixed_charge_bytes config + acc)"
      "reclaimable g = recl" "generation g = 0" "entries g = []" "trace g = []" "next_source_sequence g = 0"
    by (auto simp: with_sinks_def host_checked_add_def host_checked_sub_def ok_or_def checked_add_u64_def mailbox_new_def
      split: option.splits if_splits sum.splits)
  show "conforming (from_config config) g"
    by (simp add: conforming_def related_def from_config_def abs_init [OF i] g abs_reserved_total_def abs_claimed_total_def)
  show "numbered g" by (simp add: numbered_def g)
qed

lemma host_steps_conforming:
  assumes "host_step\<^sup>*\<^sup>* s s'" "host_reachable s" "conforming s0 (gov s)" "numbered (gov s)"
  shows "conforming s0 (gov s') \<and> numbered (gov s') \<and> host_reachable s'"
  using assms
proof (induction rule: rtranclp_induct)
  case (step s' s'')
  then have s': "conforming s0 (gov s')" "numbered (gov s')" "host_reachable s'" by simp_all
  note inv = host_reachable_inv [OF s'(3)]
  obtain w where "op_run (gov s') w (gov s'')" using host_step_run [OF step.hyps(2) inv] by blast
  then have "ledger_steps (gov s') (gov s'')" using op_run_steps sys_invD(1) [OF inv] by blast
  then show ?case using s' conforming_steps sys_invD(1) [OF inv] numbered_steps hr_step [OF s'(3) step.hyps(2)] by blast
qed simp

lemma idle_no_active:
  assumes "sys_inv s" "related (gov s) a" "armed s = []" "held s = []" "mb_queue (mailbox (gov s)) = []"
  shows "abs_active_entries a = []"
proof -
  have "map_of (entries (gov s)) rid = None" for rid
    using fun_cong [OF sys_invD(3) [OF assms(1)], of rid] assms(3-5) by (simp add: owners_def shape_def)
  then have "retired t" if "(rid, t) \<in> set (pa_tickets a)" for rid t
    using relatedD(9) [OF assms(2), of rid] relatedD(6) [OF assms(2)] that by simp
  then show ?thesis by (force simp: abs_active_entries_def retired_def filter_empty_conv)
qed

text \<open>
  C38. The host governor refines the pressure protocol. From any configuration it accepts, and for
  every interleaving of requests, polls, waits, drops, releases, reclaims, reconfigurations, timeouts and
  snapshots, the replay checker with the independent reducer accepts the governor's trace up to
  there as a trace cut off by a crash; and as a cleanly finished one when no ticket, no posted
  cancellation and no allocation is left. The trace is the one a collector with enough room
  recorded, and has at most \<open>2^64\<close> events, after which the source's numbers would repeat.
\<close>

theorem governor_refines_the_pressure_protocol:
  assumes config: "with_sinks config = Inr g" "cfg_capacity_bytes config \<le> u64_max"
    and run: "host_step\<^sup>*\<^sup>* (fresh_system g) s"
    and room: "length (trace (gov s)) \<le> room" "length (trace (gov s)) \<le> u64_max + 1"
  shows "checker_run pressure_protocol CONTRACT_REVISION (from_config config)
      (collector_snapshot (fold (\<lambda>e c. collector_record c e) (trace (gov s)) (collector_new room))) CrashBoundary = Inr (length (trace (gov s))) \<and>
    (armed s = [] \<and> held s = [] \<and> mb_queue (mailbox (gov s)) = [] \<longrightarrow>
     checker_run pressure_protocol CONTRACT_REVISION (from_config config)
      (collector_snapshot (fold (\<lambda>e c. collector_record c e) (trace (gov s)) (collector_new room))) Clean = Inr (length (trace (gov s))))"
proof -
  have start: "host_reachable (fresh_system g)" using config by (intro hr_init) (auto simp: host_initial_def fresh_system_def)
  have fin: "conforming (from_config config) (gov s)" "numbered (gov s)" "host_reachable s"
    using host_steps_conforming [OF run start] conforming_start [OF config(1)] by (simp_all add: fresh_system_def)
  from fin(1) obtain a where a: "replay pressure_protocol (from_config config) (map event_kind (trace (gov s))) = Inr a" "related (gov s) a"
    by (auto simp: conforming_def)
  have src: "\<forall>e \<in> set (trace (gov s)). contract_revision e = CONTRACT_REVISION \<and> event_source e = governor_source (gov s)"
    using fin(2) by (simp add: numbered_def)
  note run_eq = checker_run_replay [OF src numbered_sorted [OF fin(2) room(2)] a(1)]
  have "active_entries pressure_protocol a = []" if "armed s = [] \<and> held s = [] \<and> mb_queue (mailbox (gov s)) = []"
    using idle_no_active [OF host_reachable_inv [OF fin(3)] a(2)] that by (simp add: pressure_protocol_def)
  then show ?thesis unfolding collector_keeps_the_trace [OF room(1)] run_eq by simp
qed

lemma a_recorded_request:
  obtains config g s where "with_sinks config = Inr g" "cfg_capacity_bytes config \<le> u64_max" "host_step\<^sup>*\<^sup>* (fresh_system g) s" "length (trace (gov s)) = 2"
proof -
  let ?c = "(host_config_new 100)\<lparr>initial_reclaimable := [(1, 50)]\<rparr>"
  have c: "with_sinks ?c = Inr sample_governor" "cfg_capacity_bytes ?c \<le> u64_max" by (simp_all add: governor_eval)
  obtain s where s: "host_step (fresh_system sample_governor) s" "gov s = fst (request_host_pages sample_governor (pageable 1 40 0))"
    using request_step [of "fresh_system sample_governor" "pageable 1 40 0"] by (auto simp: fresh_system_def)
  have "length (trace (fst (request_host_pages sample_governor (pageable 1 40 0)))) = 2" by (simp add: governor_eval)
  with c s show thesis by (intro that [of ?c sample_governor s]) auto
qed

theorem governor_refines_the_pressure_protocol_witness:
  "\<exists>config g s. with_sinks config = Inr g \<and> host_step\<^sup>*\<^sup>* (fresh_system g) s \<and>
     checker_run pressure_protocol CONTRACT_REVISION (from_config config)
       (collector_snapshot (fold (\<lambda>e c. collector_record c e) (trace (gov s)) (collector_new 16))) CrashBoundary = Inr 2"
proof -
  obtain config g s where s: "with_sinks config = Inr g" "cfg_capacity_bytes config \<le> u64_max" "host_step\<^sup>*\<^sup>* (fresh_system g) s" "length (trace (gov s)) = 2"
    by (rule a_recorded_request)
  from governor_refines_the_pressure_protocol [OF s(1-3), of 16] s show ?thesis
    by (intro exI [of _ config] exI [of _ g] exI [of _ s]) (simp add: u64_max_def)
qed

end
