(* ===== verification/HostLease.thy ===== *)
theory HostLease
  imports HostTickets LeaseBooks
begin

text \<open>
  The adapter of \<open>onnx-genai-scheduler/src/host_lease.rs\<close>: lease holders claim and release byte
  counts, the host governor grants and takes back whole allocations, and the adapter keeps the
  difference as credit. The governor is shared with other clients; it is passed beside the
  adapter's own state. What MemoryLease does with the adapter is a claim per reservation and
  growth and a release per shrink and drop.
\<close>

section \<open>The adapter\<close>

record HostGovernorAccounting =
  acc_owner :: nat
  acc_priority :: nat
  allocations :: "HostAllocation list"
  credit :: nat

definition accounting_new :: "nat \<Rightarrow> nat \<Rightarrow> HostGovernorAccounting" where
  "accounting_new owner priority = \<lparr>acc_owner = owner, acc_priority = priority, allocations = [], credit = 0\<rparr>"

definition charged_bytes :: "HostGovernorAccounting \<Rightarrow> nat" where
  "charged_bytes acc = weight ha_bytes (allocations acc)"

definition pending_credit :: "HostGovernorAccounting \<Rightarrow> nat" where
  "pending_credit acc = credit acc"

definition host_refuse :: "Tier \<Rightarrow> nat \<Rightarrow> nat \<Rightarrow> MemoryRole \<Rightarrow> MemoryError" where
  "host_refuse tier requested avail role = TierExhausted (tier_name tier) requested 0 avail avail role"

definition host_try_claim ::
  "HostGovernor \<Rightarrow> HostGovernorAccounting \<Rightarrow> Tier \<Rightarrow> nat \<Rightarrow> MemoryRole \<Rightarrow>
   HostGovernor \<times> HostGovernorAccounting \<times> nat list \<times> (MemoryError + unit)" where
  "host_try_claim g acc tier bytes role =
     (if tier \<noteq> Host then (g, acc, [], Inl (host_refuse tier bytes 0 role))
      else if bytes = 0 then (g, acc, [], Inr ())
      else if credit acc \<ge> bytes then (g, acc\<lparr>credit := credit acc - bytes\<rparr>, [], Inr ())
      else case request_host_pages g (pageable (acc_owner acc) bytes (acc_priority acc)) of
        (g1, w1, Inl _) \<Rightarrow> (g1, acc, w1, Inl (host_refuse tier bytes 0 role))
      | (g1, w1, Inr tk) \<Rightarrow>
          (case ticket_try_claim g1 tk of (g2, tk', w2, poll) \<Rightarrow>
             (let g3 = fst (ticket_drop g2 tk') in
              case poll of
                PollGranted a \<Rightarrow> (g3, acc\<lparr>allocations := allocations acc @ [a]\<rparr>, w1 @ w2, Inr ())
              | _ \<Rightarrow> (g3, acc, w1 @ w2, Inl (host_refuse tier bytes 0 role)))))"

text \<open>\<open>max_by_key\<close> over the covered allocations: the last of the largest.\<close>

fun best_covered :: "nat \<Rightarrow> nat \<Rightarrow> (nat \<times> nat) option \<Rightarrow> HostAllocation list \<Rightarrow> (nat \<times> nat) option" where
  "best_covered cr i best [] = best"
| "best_covered cr i best (a # as) =
     best_covered cr (i + 1)
       (if ha_bytes a \<le> cr \<and> (case best of None \<Rightarrow> True | Some (_, b) \<Rightarrow> b \<le> ha_bytes a) then Some (i, ha_bytes a) else best) as"

definition swap_remove :: "nat \<Rightarrow> 'a list \<Rightarrow> 'a list" where
  "swap_remove i xs = (if i + 1 = length xs then butlast xs else (butlast xs)[i := last xs])"

lemma best_covered_Some:
  "best_covered cr i best as = Some (j, b) \<Longrightarrow> best = Some (j, b) \<or> (i \<le> j \<and> j < i + length as \<and> ha_bytes (as ! (j - i)) = b \<and> b \<le> cr)"
proof (induction cr i best as rule: best_covered.induct)
  case (2 cr i best a as)
  then show ?case by (fastforce split: if_splits simp: nth_Cons')
qed simp

lemma best_covered_None: "best_covered cr i best as = None \<Longrightarrow> best = None \<and> (\<forall>a \<in> set as. cr < ha_bytes a)"
  by (induction cr i best as rule: best_covered.induct) (auto split: if_splits option.splits)

lemma mset_swap_remove: "i < length xs \<Longrightarrow> add_mset (xs ! i) (mset (swap_remove i xs)) = mset xs"
proof -
  assume i: "i < length xs"
  then have ne: "xs \<noteq> []" by auto
  have m: "mset xs = add_mset (last xs) (mset (butlast xs))"
    using arg_cong [OF append_butlast_last_id [OF ne], of mset] by simp
  show ?thesis
  proof (cases "i + 1 = length xs")
    case True
    then have "i = length xs - 1" by simp
    then have "xs ! i = last xs" using ne by (simp add: last_conv_nth)
    with True m show ?thesis by (simp add: swap_remove_def)
  next
    case False
    with i have i': "i < length (butlast xs)" by simp
    have n: "butlast xs ! i = xs ! i" using i' by (rule nth_butlast)
    have "xs ! i \<in># mset (butlast xs)" using nth_mem [OF i'] n by simp
    then show ?thesis using False m mset_update [OF i', of "last xs"] n by (simp add: swap_remove_def)
  qed
qed

lemma length_swap_remove: "i < length xs \<Longrightarrow> length (swap_remove i xs) < length xs"
  by (simp add: swap_remove_def)

function return_loop :: "HostGovernorAccounting \<Rightarrow> HostAllocation list \<Rightarrow> HostGovernorAccounting \<times> HostAllocation list" where
  "return_loop acc returnable =
     (case best_covered (credit acc) 0 None (allocations acc) of
        None \<Rightarrow> (acc, returnable)
      | Some (index, _) \<Rightarrow>
          (let a = allocations acc ! index in
           return_loop (acc\<lparr>allocations := swap_remove index (allocations acc), credit := credit acc - ha_bytes a\<rparr>) (returnable @ [a])))"
  by pat_completeness auto
termination
  by (relation "measure (length \<circ> allocations \<circ> fst)") (auto dest!: best_covered_Some intro: length_swap_remove)

declare return_loop.simps [simp del]

text \<open>The results of the single releases are ignored.\<close>

fun release_each :: "HostGovernor \<Rightarrow> nat list \<Rightarrow> HostAllocation list \<Rightarrow> HostGovernor \<times> nat list" where
  "release_each g w [] = (g, w)"
| "release_each g w (a # as) =
     (case release_host_pages g a of (g', w', _) \<Rightarrow> release_each g' (w @ w') as)"

definition host_release :: "HostGovernor \<Rightarrow> HostGovernorAccounting \<Rightarrow> Tier \<Rightarrow> nat \<Rightarrow> HostGovernor \<times> HostGovernorAccounting \<times> nat list" where
  "host_release g acc tier bytes =
     (if tier \<noteq> Host \<or> bytes = 0 then (g, acc, [])
      else
        (case return_loop (acc\<lparr>credit := sat_add_u64 (credit acc) bytes\<rparr>) [] of (acc', returnable) \<Rightarrow>
         (case release_each g [] returnable of (g', w) \<Rightarrow> (g', acc', w))))"

section \<open>The lease governor\<close>

text \<open>\<open>serial\<close> names the adapter a lease returns its bytes to.\<close>

definition host_reserve ::
  "HostGovernor \<Rightarrow> HostGovernorAccounting \<Rightarrow> nat \<Rightarrow> Tier \<Rightarrow> nat \<Rightarrow> MemoryRole \<Rightarrow> nat \<Rightarrow>
   HostGovernor \<times> HostGovernorAccounting \<times> nat list \<times> (MemoryError + MemoryLease)" where
  "host_reserve g acc serial tier bytes role holder =
     (case host_try_claim g acc tier bytes role of
        (g', acc', w, Inl err) \<Rightarrow> (g', acc', w, Inl err)
      | (g', acc', w, Inr _) \<Rightarrow>
          (g', acc', w, Inr \<lparr>lease_tier = tier, lease_bytes = bytes, lease_role = role, lease_holder = holder,
                             lease_accounting = serial\<rparr>))"

definition host_used :: "HostGovernor \<Rightarrow> Tier \<Rightarrow> HostGovernor \<times> nat list \<times> nat" where
  "host_used g tier =
     (if tier \<noteq> Host then (g, [], 0)
      else case host_snapshot g of
        (g', w, Inr sn) \<Rightarrow> (g', w, hs_claimed_bytes sn)
      | (g', w, Inl _) \<Rightarrow> (g', w, 0))"

definition host_available :: "HostGovernor \<Rightarrow> HostGovernorAccounting \<Rightarrow> Tier \<Rightarrow> HostGovernor \<times> nat list \<times> nat" where
  "host_available g acc tier =
     (if tier \<noteq> Host then (g, [], 0)
      else case host_snapshot g of
        (g', w, Inr sn) \<Rightarrow> (g', w, sat_add_u64 (credit acc) (hs_free_bytes sn))
      | (g', w, Inl _) \<Rightarrow> (g', w, sat_add_u64 (credit acc) 0))"

section \<open>The adapter among other clients\<close>

text \<open>Threads of the adapter interleave with the governor's other clients. The adapter's lock is
  held for a spend of credit, a push of a granted allocation and the choice of what to return; the
  calls into the governor are steps of the governor's clients. Nobody else releases what the
  adapter has charged.\<close>

inductive adapter_reachable :: "HostSystem \<Rightarrow> HostGovernorAccounting \<Rightarrow> nat \<Rightarrow> bool" where
  ar_init: "adapter_reachable s (accounting_new owner priority) 0" if "host_reachable s"
| ar_host: "adapter_reachable s' acc lent"
    if "adapter_reachable s acc lent" "host_step s s'" "set (allocations acc) \<subseteq> set (held s')"
| ar_spend: "adapter_reachable s (acc\<lparr>credit := credit acc - n\<rparr>) (lent + n)"
    if "adapter_reachable s acc lent" "n \<le> credit acc"
| ar_push: "adapter_reachable s (acc\<lparr>allocations := allocations acc @ [a]\<rparr>) (lent + ha_bytes a)"
    if "adapter_reachable s acc lent" "a \<in> set (held s)" "a \<notin> set (allocations acc)"
| ar_return: "adapter_reachable s acc' (lent - n)"
    if "adapter_reachable s acc lent" "n \<le> lent" "return_loop (acc\<lparr>credit := sat_add_u64 (credit acc) n\<rparr>) [] = (acc', returnable)"

definition adapter_inv :: "HostSystem \<Rightarrow> HostGovernorAccounting \<Rightarrow> nat \<Rightarrow> bool" where
  "adapter_inv s acc lent \<longleftrightarrow>
     host_reachable s \<and> distinct (allocations acc) \<and> set (allocations acc) \<subseteq> set (held s) \<and>
     charged_bytes acc = lent + credit acc \<and> (lent = 0 \<longrightarrow> allocations acc = [])"

lemma held_entry:
  assumes "sys_inv s" "a \<in> set (held s)"
  obtains e where "map_of (entries (gov s)) (ha_request_id a) = Some e" "le_state e = Claimed a" "le_bytes e = ha_bytes a" "0 < ha_bytes a"
proof -
  note D = sys_invD [OF assms(1)]
  have "map_of (owners (armed s) (mb_queue (mailbox (gov s))) (held s)) (ha_request_id a) = Some (ha_generation a, Some a)"
    by (rule map_of_is_SomeI [OF D(2)]) (use assms(2) in \<open>simp add: owners_def\<close>)
  then obtain e where e: "map_of (entries (gov s)) (ha_request_id a) = Some e" "le_state e = Claimed a"
    unfolding D(3) [symmetric] by (auto simp: shape_def claimed_as_Some)
  moreover have "ha_bytes a = le_bytes e" using granted_allocation(4) [OF D(1) e(1,2)] .
  moreover have "0 < le_bytes e" using ledger_okD(3) [OF D(1) e(1)] by (simp add: entry_ok_def)
  ultimately show thesis by (intro that) simp_all
qed

lemma held_distinct:
  assumes "sys_inv s"
  shows "distinct (map ha_request_id (held s))"
  using sys_invD(9) [OF assms] by (simp add: owners_def comp_def)

text \<open>The claimed bytes of the ledger are what the clients hold.\<close>

definition claimed_now :: "HostGovernor \<Rightarrow> nat" where
  "claimed_now g = weight (entry_claimed_bytes \<circ> snd) (entries g)"

lemma claimed_is_held:
  assumes inv: "sys_inv s"
  shows "claimed_now (gov s) = weight ha_bytes (held s)"
proof -
  let ?es = "entries (gov s)"
  let ?f = "\<lambda>a. (ha_request_id a, the (map_of ?es (ha_request_id a)))"
  note D = sys_invD [OF inv]
  note k = ledger_okD(1) [OF D(1)]
  have f: "?f a \<in> set ?es \<and> (entry_claimed_bytes \<circ> snd) (?f a) = ha_bytes a" if a: "a \<in> set (held s)" for a
  proof (rule held_entry [OF inv a])
    fix e
    assume "map_of ?es (ha_request_id a) = Some e" "le_state e = Claimed a" "le_bytes e = ha_bytes a"
    then show ?thesis by (simp add: map_of_SomeD)
  qed
  have rest: "(entry_claimed_bytes \<circ> snd) x = 0" if x: "x \<in> set ?es - ?f ` set (held s)" for x
  proof (rule ccontr)
    obtain rid e where re: "x = (rid, e)" by (cases x)
    then have e: "map_of ?es rid = Some e" using x k by simp
    assume "\<not> ?thesis"
    then obtain a where a: "le_state e = Claimed a" by (auto simp: re entry_claimed_bytes_def split: PressureState.splits)
    then have "shape (gov s) rid = Some (le_generation e, Some a)" by (simp add: shape_def e claimed_as_def)
    then have "a \<in> set (held s)" "ha_request_id a = rid" unfolding D(3) by (auto simp: owners_def dest!: map_of_SomeD)
    with e re have "x \<in> ?f ` set (held s)" by (auto simp: image_iff intro!: bexI [of _ a])
    with x show False by blast
  qed
  have dh: "distinct (held s)" "distinct ?es" using held_distinct [OF inv] k by (simp_all add: distinct_map)
  have inj: "inj_on ?f (set (held s))" using held_distinct [OF inv] by (auto simp: distinct_map inj_on_def)
  have "weight ha_bytes (held s) = sum ha_bytes (set (held s))" using dh(1) by (simp add: weight_def sum_list_distinct_conv_sum_set)
  also have "\<dots> = sum (entry_claimed_bytes \<circ> snd) (?f ` set (held s))" using f by (simp add: sum.reindex [OF inj])
  also have "\<dots> = sum (entry_claimed_bytes \<circ> snd) (set ?es)" using f rest by (intro sum.mono_neutral_left) auto
  also have "\<dots> = claimed_now (gov s)" unfolding weight_def claimed_now_def using dh(2) by (simp only: sum_list_distinct_conv_sum_set)
  finally show ?thesis ..
qed

lemma weight_subset:
  assumes "distinct as" "set as \<subseteq> set bs"
  shows "weight f as \<le> weight f bs"
proof -
  have "weight f as = sum f (set as)" using assms(1) by (simp add: weight_def sum_list_distinct_conv_sum_set)
  also have "\<dots> \<le> sum f (set bs)" using assms(2) by (intro sum_mono2) auto
  also have "\<dots> \<le> weight f bs" by (induction bs) (auto simp: sum.insert_if)
  finally show ?thesis .
qed

lemma charged_le_claimed:
  assumes "sys_inv s" "distinct as" "set as \<subseteq> set (held s)"
  shows "weight ha_bytes as \<le> claimed_now (gov s)"
  using weight_subset [OF assms(2,3), of ha_bytes] claimed_is_held [OF assms(1)] by simp

lemma weight_mset: "mset xs = mset ys \<Longrightarrow> weight f xs = weight f ys"
  unfolding weight_def by (metis mset_map sum_mset_sum_list)

lemma return_loop_spec:
  "return_loop acc ret = (acc', ret') \<Longrightarrow>
     \<exists>r. ret' = ret @ r \<and> mset (allocations acc) = mset (allocations acc') + mset r \<and> credit acc = credit acc' + weight ha_bytes r \<and>
       (\<forall>a \<in> set (allocations acc'). credit acc' < ha_bytes a)"
proof (induction acc ret rule: return_loop.induct)
  case (1 acc ret)
  show ?case
  proof (cases "best_covered (credit acc) 0 None (allocations acc)")
    case None
    with "1.prems" best_covered_None [OF None] show ?thesis by (simp add: return_loop.simps [of acc])
  next
    case (Some p)
    obtain i b where p: "p = (i, b)" by (cases p)
    let ?a = "allocations acc ! i"
    have i: "i < length (allocations acc)" "ha_bytes ?a \<le> credit acc" using best_covered_Some [OF Some [unfolded p]] by auto
    from "1.IH" [OF Some p [symmetric] refl] "1.prems" Some p obtain r where r: "ret' = (ret @ [?a]) @ r"
      "mset (swap_remove i (allocations acc)) = mset (allocations acc') + mset r" "credit acc - ha_bytes ?a = credit acc' + weight ha_bytes r"
      "\<forall>a \<in> set (allocations acc'). credit acc' < ha_bytes a"
      by (auto simp: return_loop.simps [of acc] Let_def)
    have "mset (allocations acc) = mset (allocations acc') + mset (?a # r)" using mset_swap_remove [OF i(1)] r(2) by simp
    then show ?thesis using r i(2) by (intro exI [of _ "?a # r"]) auto
  qed
qed

lemma adapter_inv_return:
  assumes inv: "adapter_inv s acc lent" and n: "n \<le> lent"
    and l: "return_loop (acc\<lparr>credit := sat_add_u64 (credit acc) n\<rparr>) [] = (acc', ret)"
  shows "adapter_inv s acc' (lent - n)" "set ret \<subseteq> set (held s)" "distinct ret" "set ret \<inter> set (allocations acc') = {}"
    "charged_bytes acc = charged_bytes acc' + weight ha_bytes ret" "\<forall>a \<in> set (allocations acc'). credit acc' < ha_bytes a"
proof -
  from inv have i: "host_reachable s" "distinct (allocations acc)" "set (allocations acc) \<subseteq> set (held s)" "charged_bytes acc = lent + credit acc"
    by (auto simp: adapter_inv_def)
  note sys = host_reachable_inv [OF i(1)]
  have "charged_bytes acc \<le> claimed_now (gov s)" unfolding charged_bytes_def by (rule charged_le_claimed [OF sys i(2,3)])
  also have "\<dots> \<le> u64_max" using ledger_okD(6,7) [OF sys_invD(1) [OF sys]] by (simp add: claimed_now_def)
  finally have sat: "sat_add_u64 (credit acc) n = credit acc + n" using i(4) n by (simp add: sat_add_u64_def)
  from return_loop_spec [OF l] have r: "mset (allocations acc) = mset (allocations acc') + mset ret" "credit acc + n = credit acc' + weight ha_bytes ret"
    and last: "\<forall>a \<in> set (allocations acc'). credit acc' < ha_bytes a" by (auto simp: sat)
  show "\<forall>a \<in> set (allocations acc'). credit acc' < ha_bytes a" by (rule last)
  have m: "mset (allocations acc) = mset (allocations acc' @ ret)" using r(1) by simp
  then have d: "distinct (allocations acc' @ ret)" and st: "set (allocations acc) = set (allocations acc' @ ret)"
    using i(2) mset_eq_imp_distinct_iff mset_eq_setD by blast+
  show w: "charged_bytes acc = charged_bytes acc' + weight ha_bytes ret" using weight_mset [OF m, of ha_bytes] by (simp add: charged_bytes_def)
  show "set ret \<subseteq> set (held s)" "distinct ret" "set ret \<inter> set (allocations acc') = {}" using d st i(3) by auto
  have bal: "charged_bytes acc' = lent - n + credit acc'" using w r(2) i(4) n by linarith
  have "allocations acc' = []" if "lent - n = 0"
  proof (rule ccontr)
    assume "allocations acc' \<noteq> []"
    then obtain a as where a: "allocations acc' = a # as" by (cases "allocations acc'") auto
    then have "credit acc' < ha_bytes a" using last by simp
    with bal that a show False by (simp add: charged_bytes_def)
  qed
  then show "adapter_inv s acc' (lent - n)" using i(1,3) d st bal by (auto simp: adapter_inv_def)
qed

lemma adapter_reachable_inv: "adapter_reachable s acc lent \<Longrightarrow> adapter_inv s acc lent"
proof (induction rule: adapter_reachable.induct)
  case (ar_push s acc lent a)
  then have "0 < ha_bytes a" using held_entry [OF host_reachable_inv] by (metis adapter_inv_def)
  with ar_push show ?case by (auto simp: adapter_inv_def charged_bytes_def)
next
  case (ar_return s acc lent n acc' ret)
  then show ?case by (blast intro: adapter_inv_return(1))
qed (auto simp: adapter_inv_def accounting_new_def charged_bytes_def intro: hr_step)

section \<open>The adapter's operations are runs\<close>

lemma release_each_run:
  assumes "adapter_reachable s acc lent" "set ret \<subseteq> set (held s)" "distinct ret" "set ret \<inter> set (allocations acc) = {}"
  shows "\<exists>s'. gov s' = fst (release_each (gov s) w ret) \<and> adapter_reachable s' acc lent \<and>
    claimed_now (gov s') + weight ha_bytes ret = claimed_now (gov s)"
  using assms
proof (induction ret arbitrary: s w)
  case (Cons a ret)
  have inv: "sys_inv s" "set (allocations acc) \<subseteq> set (held s)"
    using adapter_reachable_inv [OF Cons.prems(1)] host_reachable_inv by (auto simp: adapter_inv_def)
  have a: "a \<in> set (held s)" using Cons.prems(2) by simp
  from held_released [OF inv(1) a] obtain g w' where r: "release_host_pages (gov s) a = (g, w', Inr ())" by blast
  let ?s = "(governed s g w')\<lparr>held := remove1 a (held s)\<rparr>"
  have step: "host_step s ?s" by (rule hs_release [OF r])
  have dh: "distinct (held s)" using held_distinct [OF inv(1)] by (simp add: distinct_map)
  have sub: "set (allocations acc) \<subseteq> set (held ?s)" "set ret \<subseteq> set (held ?s)" using dh inv(2) Cons.prems(2-4) by auto
  have reach: "adapter_reachable ?s acc lent" by (rule ar_host [OF Cons.prems(1) step sub(1)])
  have inv': "sys_inv ?s" using host_step_inv [OF step inv(1)] .
  have "mset (held s) = mset (a # held ?s)" using a by simp
  from weight_mset [OF this, of ha_bytes] have "claimed_now (gov s) = ha_bytes a + claimed_now (gov ?s)"
    using claimed_is_held [OF inv(1)] claimed_is_held [OF inv'] by simp
  moreover have "gov ?s = g" by (simp add: governed_def)
  ultimately show ?case using Cons.IH [OF reach sub(2), of "w @ w'"] Cons.prems(3,4) r by auto
qed auto

lemma host_release_run:
  assumes ad: "adapter_reachable s acc lent" and n: "0 < n" "n \<le> lent" and r: "host_release (gov s) acc Host n = (g, acc', w)"
  shows "\<exists>s'. gov s' = g \<and> adapter_reachable s' acc' (lent - n) \<and> claimed_now g + charged_bytes acc = claimed_now (gov s) + charged_bytes acc' \<and>
    (\<forall>a \<in> set (allocations acc'). credit acc' < ha_bytes a)"
proof -
  obtain ret where l: "return_loop (acc\<lparr>credit := sat_add_u64 (credit acc) n\<rparr>) [] = (acc', ret)" and g: "g = fst (release_each (gov s) [] ret)"
    using r n(1) by (auto simp: host_release_def split: prod.splits)
  note R = adapter_inv_return [OF adapter_reachable_inv [OF ad] n(2) l]
  obtain s' where "gov s' = g" "adapter_reachable s' acc' (lent - n)" "claimed_now (gov s') + weight ha_bytes ret = claimed_now (gov s)"
    using release_each_run [OF ar_return [OF ad n(2) l] R(2-4), of "[]"] unfolding g by blast
  then show ?thesis using R(5,6) by auto
qed

lemma armed_known: "sys_inv s \<Longrightarrow> (rid, gen) \<in> set (armed s) \<Longrightarrow> rid < next_request (gov s)"
proof -
  assume inv: "sys_inv s" and "(rid, gen) \<in> set (armed s)"
  then have "rid \<in> fst ` set (owners (armed s) (mb_queue (mailbox (gov s))) (held s))" by (force simp: owners_keys)
  then have "shape (gov s) rid \<noteq> None" by (simp add: sys_invD(3) [OF inv] map_of_eq_None_iff)
  then show ?thesis using ledger_okD(3) [OF sys_invD(1) [OF inv], of rid] by (auto simp: shape_def entry_ok_def)
qed

text \<open>The bytes of a request never change while it is in the ledger.\<close>

lemma fail_stale_bytes: "le_bytes (snd (fail_stale n (r, e))) = le_bytes e"
  by (simp add: fail_stale_def)

lemma quiet_bytes:
  assumes "quiet_step g g'" "x < next_request g" "map_of (entries g) x = Some e" "map_of (entries g') x = Some e'"
  shows "le_bytes e' = le_bytes e"
  using assms by (cases rule: quiet_step.cases) (auto simp: delete_conv' map_of_fail_stale map_of_map_entries fail_stale_bytes split: if_splits)

lemma op_run_bytes:
  "op_run g w g' \<Longrightarrow> ledger_ok g \<Longrightarrow> map_of (entries g) x = Some e \<Longrightarrow> map_of (entries g') x = Some e' \<Longrightarrow> le_bytes e' = le_bytes e"
proof (induction arbitrary: e' rule: op_run.induct)
  case (or_quiet g w g' g'' w')
  have x: "x < next_request g" using ledger_okD(3) [OF or_quiet.prems(1,2)] by (simp add: entry_ok_def)
  note W = op_run_wakes [OF or_quiet.hyps(1) or_quiet.prems(1)]
  then have x': "x < next_request g'" using x by simp
  then obtain e1 where e1: "map_of (entries g') x = Some e1"
    using quiet_no_revival [OF or_quiet.hyps(2)] or_quiet.prems(3) by (cases "map_of (entries g') x") auto
  with or_quiet.IH [OF or_quiet.prems(1,2) e1] quiet_bytes [OF or_quiet.hyps(2) x' e1 or_quiet.prems(3)] show ?case by simp
next
  case (or_arbitrate g w g' g'' w')
  note A = arbitrate_entry [OF op_run_ok [OF or_arbitrate.hyps(1) or_arbitrate.prems(1)] or_arbitrate.hyps(2)]
  from or_arbitrate.prems(3) A(1,2) [of x] obtain e1 where e1: "map_of (entries g') x = Some e1" "le_bytes e' = le_bytes e1"
    by (cases "x \<in> set w'") auto
  with or_arbitrate.IH [OF or_arbitrate.prems(1,2) e1(1)] show ?case by simp
qed simp

lemma host_step_bytes:
  assumes "host_step s s'" "host_reachable s" "map_of (entries (gov s)) x = Some e" "map_of (entries (gov s')) x = Some e'"
  shows "le_bytes e' = le_bytes e"
proof -
  note inv = host_reachable_inv [OF assms(2)]
  obtain w where "op_run (gov s) w (gov s')" using host_step_run [OF assms(1) inv] by blast
  then show ?thesis using op_run_bytes sys_invD(1) [OF inv] assms(3,4) by blast
qed

text \<open>Asking once: the request, one poll, and the ticket's end.\<close>

lemma ask_once_run:
  assumes ad: "adapter_reachable s acc lent" and q: "request_host_pages (gov s) rq = (g1, w1, Inr tk)"
    and c: "ticket_try_claim g1 tk = (g2, tk', w2, poll)"
  shows "\<exists>s'. gov s' = fst (ticket_drop g2 tk') \<and> adapter_reachable s' acc lent \<and> held s' = poll_held poll (held s) \<and>
    (\<forall>a. poll = PollGranted a \<longrightarrow> ha_bytes a = rq_bytes rq)"
proof -
  have i: "host_reachable s" "set (allocations acc) \<subseteq> set (held s)" using adapter_reachable_inv [OF ad] by (auto simp: adapter_inv_def)
  note inv = host_reachable_inv [OF i(1)]
  note D = sys_invD [OF inv]
  have tk: "tk = ticket (next_request (gov s)) (generation (gov s))"
    and size: "map_option le_bytes (map_of (entries g1) (next_request (gov s))) = Some (rq_bytes rq)"
    using q by (cases rule: request_effect [OF D(1), of rq]; auto simp: ticket_def)+
  let ?rid = "next_request (gov s)" and ?gen = "generation (gov s)"
  define s1 where "s1 = (governed s g1 w1)\<lparr>armed := armed s @ [(?rid, ?gen)]\<rparr>"
  have "host_step s s1" using hs_request [OF q] by (simp add: s1_def tk ticket_def)
  then have r1: "adapter_reachable s1 acc lent" by (rule ar_host [OF ad]) (use i(2) in \<open>simp add: s1_def governed_def\<close>)
  have s1: "gov s1 = g1" "held s1 = held s" "(?rid, ?gen) \<in> set (armed s1)" "parked s1 = parked s" by (simp_all add: s1_def governed_def)
  have np: "?rid \<notin> parked s1" using D(6) armed_known [OF inv] s1(4) by fastforce
  obtain g w p where p: "governor_try_claim g1 ?rid = (g, w, p)" by (cases "governor_try_claim g1 ?rid")
  have un: "tk_request_id tk = ?rid" "\<not> tk_resolved tk" by (simp_all add: tk ticket_def)
  show ?thesis
  proof (cases "p = PollPending")
    case True
    have t: "g2 = g" "tk' = tk" "poll = PollPending" using c p True un by (simp_all add: ticket_try_claim_def)
    have "host_step s1 (governed s1 g w)" by (rule hs_poll_pending [OF s1(3) np]) (use p True s1(1) in simp)
    then have r2: "adapter_reachable (governed s1 g w) acc lent" by (rule ar_host [OF r1]) (use i(2) s1(2) in \<open>simp add: governed_def\<close>)
    let ?s3 = "(governed s1 g w)\<lparr>gov := fst (ticket_drop (gov (governed s1 g w)) (ticket ?rid ?gen)), armed := remove1 (?rid, ?gen) (armed (governed s1 g w))\<rparr>"
    have "host_step (governed s1 g w) ?s3" by (rule hs_drop) (use s1(3) np in \<open>simp_all add: governed_def\<close>)
    then have "adapter_reachable ?s3 acc lent" by (rule ar_host [OF r2]) (use i(2) s1(2) in \<open>simp add: governed_def\<close>)
    then show ?thesis using t tk s1(2) by (intro exI [of _ ?s3]) (simp add: governed_def poll_held_def)
  next
    case False
    have t: "g2 = release_ticket_slot g" "tk_resolved tk'" "poll = p" using c p False un
      by (cases p; simp add: ticket_try_claim_def disarm_def; fastforce)+
    define s2 where "s2 = (governed s1 g w)\<lparr>armed := remove1 (?rid, ?gen) (armed s1), settling := settling s1 + 1, held := poll_held p (held s1)\<rparr>"
    have hh: "set (allocations acc) \<subseteq> set (poll_held p (held s1))" using i(2) s1(2) by (auto simp: poll_held_def split: TicketPoll.split)
    have "host_step s1 s2" unfolding s2_def by (rule hs_poll_resolved [OF s1(3) np]) (use p False s1(1) in simp_all)
    then have r2: "adapter_reachable s2 acc lent" by (rule ar_host [OF r1]) (use hh in \<open>simp add: s2_def\<close>)
    let ?s3 = "s2\<lparr>gov := release_ticket_slot (gov s2), settling := settling s2 - 1\<rparr>"
    have "host_step s2 ?s3" by (rule hs_disarm) (simp add: s2_def)
    then have "adapter_reachable ?s3 acc lent" by (rule ar_host [OF r2]) (use hh in \<open>simp add: s2_def\<close>)
    moreover have "ha_bytes a = rq_bytes rq" if "p = PollGranted a" for a
    proof -
      have hr: "host_reachable s1" "host_reachable s2" using adapter_reachable_inv [OF r1] adapter_reachable_inv [OF r2] by (auto simp: adapter_inv_def)
      have "ha_request_id a = ?rid" using p that
        by (cases rule: claim_effect [OF sys_invD(1) [OF host_reachable_inv [OF hr(1)]], of ?rid, unfolded s1(1)]) auto
      moreover have "a \<in> set (held s2)" by (simp add: s2_def poll_held_def that)
      then obtain e' where "map_of (entries (gov s2)) (ha_request_id a) = Some e'" "le_bytes e' = ha_bytes a"
        by (rule held_entry [OF host_reachable_inv [OF hr(2)]])
      ultimately show ?thesis using host_step_bytes [OF \<open>host_step s1 s2\<close> hr(1)] size s1(1) by fastforce
    qed
    ultimately show ?thesis using t s1(2) by (intro exI [of _ ?s3]) (simp add: s2_def governed_def ticket_drop_def)
  qed
qed

lemma host_try_claim_run:
  assumes ad: "adapter_reachable s acc lent" and r: "host_try_claim (gov s) acc Host n role = (g, acc', w, r)"
  shows "\<exists>s'. gov s' = g \<and> adapter_reachable s' acc' (case r of Inr _ \<Rightarrow> lent + n | Inl _ \<Rightarrow> lent) \<and>
    claimed_now g + charged_bytes acc = claimed_now (gov s) + charged_bytes acc' \<and> (\<forall>err. r = Inl err \<longrightarrow> acc' = acc \<and> credit acc < n)"
proof (cases "n = 0 \<or> n \<le> credit acc")
  case True
  then show ?thesis using r ar_spend [OF ad, of n] ad
    by (intro exI [of _ s]) (auto simp: host_try_claim_def charged_bytes_def split: if_splits)
next
  case False
  obtain g1 w1 rq where q: "request_host_pages (gov s) (pageable (acc_owner acc) n (acc_priority acc)) = (g1, w1, rq)"
    by (cases "request_host_pages (gov s) (pageable (acc_owner acc) n (acc_priority acc))")
  have i: "host_reachable s" "set (allocations acc) \<subseteq> set (held s)" using adapter_reachable_inv [OF ad] by (auto simp: adapter_inv_def)
  show ?thesis
  proof (cases rq)
    case (Inl err)
    have st: "host_step s (governed s g1 w1)" using hs_request_refused [of s] q Inl by blast
    then have ar: "adapter_reachable (governed s g1 w1) acc lent" by (rule ar_host [OF ad]) (use i(2) in \<open>simp add: governed_def\<close>)
    have "claimed_now g1 = claimed_now (gov s)"
      using claimed_is_held [OF host_reachable_inv [OF i(1)]] claimed_is_held [OF host_reachable_inv [OF hr_step [OF i(1) st]]] by (simp add: governed_def)
    with ar show ?thesis using r q Inl False by (intro exI [of _ "governed s g1 w1"]) (auto simp: host_try_claim_def governed_def)
  next
    case (Inr tk)
    obtain g2 tk' w2 poll where c: "ticket_try_claim g1 tk = (g2, tk', w2, poll)" by (cases "ticket_try_claim g1 tk")
    obtain s' where s': "gov s' = fst (ticket_drop g2 tk')" "adapter_reachable s' acc lent" "held s' = poll_held poll (held s)"
      and size: "\<forall>a. poll = PollGranted a \<longrightarrow> ha_bytes a = n"
      using ask_once_run [OF ad q [unfolded Inr] c] by (auto simp: pageable_def)
    have "host_reachable s'" using adapter_reachable_inv [OF s'(2)] by (simp add: adapter_inv_def)
    then have cl: "claimed_now (gov s') = weight ha_bytes (held s')" "distinct (map ha_request_id (held s'))"
      using claimed_is_held held_distinct host_reachable_inv by blast+
    note cl0 = claimed_is_held [OF host_reachable_inv [OF i(1)]]
    show ?thesis
    proof (cases "\<exists>a. poll = PollGranted a")
      case True
      then obtain a where a: "poll = PollGranted a" "ha_bytes a = n" using size by blast
      have "a \<notin> set (allocations acc)" using cl(2) i(2) s'(3) a by (auto simp: poll_held_def)
      then have "adapter_reachable s' (acc\<lparr>allocations := allocations acc @ [a]\<rparr>) (lent + ha_bytes a)"
        using s'(3) a by (intro ar_push [OF s'(2)]) (simp_all add: poll_held_def)
      then show ?thesis using r q Inr c a False s' cl cl0
        by (intro exI [of _ s']) (auto simp: host_try_claim_def poll_held_def charged_bytes_def Let_def)
    next
      case ng: False
      then have "held s' = held s" using s'(3) by (auto simp: poll_held_def split: TicketPoll.splits)
      then show ?thesis using r q Inr c ng False s' cl cl0
        by (intro exI [of _ s']) (auto simp: host_try_claim_def Let_def split: TicketPoll.splits)
    qed
  qed
qed

section \<open>What the adapter promises\<close>

text \<open>
  C39. The adapter neither loses nor invents host memory. At every point of any interleaving with the
  governor's other clients, the bytes it is charged are the bytes it has lent plus its credit, and they
  are part of the machine's claimed bytes; with nothing lent it is charged nothing. A claim is refused
  only beyond the credit and then leaves the adapter as it was; a release gives back to the machine
  exactly what it takes off its own books and keeps no allocation its credit covers.
\<close>

theorem adapter_lends_what_it_is_charged:
  assumes "adapter_reachable s acc lent"
  shows "charged_bytes acc = lent + pending_credit acc \<and> charged_bytes acc \<le> claimed_now (gov s) \<and> (lent = 0 \<longrightarrow> charged_bytes acc = 0) \<and>
    (\<forall>n role g acc' w r. host_try_claim (gov s) acc Host n role = (g, acc', w, r) \<longrightarrow>
      (\<exists>s'. gov s' = g \<and> adapter_reachable s' acc' (case r of Inr _ \<Rightarrow> lent + n | Inl _ \<Rightarrow> lent)) \<and>
      claimed_now g + charged_bytes acc = claimed_now (gov s) + charged_bytes acc' \<and> (\<forall>err. r = Inl err \<longrightarrow> acc' = acc \<and> credit acc < n)) \<and>
    (\<forall>n g acc' w. 0 < n \<longrightarrow> n \<le> lent \<longrightarrow> host_release (gov s) acc Host n = (g, acc', w) \<longrightarrow>
      (\<exists>s'. gov s' = g \<and> adapter_reachable s' acc' (lent - n)) \<and>
      claimed_now g + charged_bytes acc = claimed_now (gov s) + charged_bytes acc' \<and> (\<forall>a \<in> set (allocations acc'). credit acc' < ha_bytes a))"
proof -
  have i: "host_reachable s" "distinct (allocations acc)" "set (allocations acc) \<subseteq> set (held s)" "charged_bytes acc = lent + credit acc"
    "lent = 0 \<longrightarrow> allocations acc = []"
    using adapter_reachable_inv [OF assms] by (auto simp: adapter_inv_def)
  have "charged_bytes acc \<le> claimed_now (gov s)" unfolding charged_bytes_def by (rule charged_le_claimed [OF host_reachable_inv [OF i(1)] i(2,3)])
  moreover have "lent = 0 \<longrightarrow> charged_bytes acc = 0" using i(5) by (simp add: charged_bytes_def)
  ultimately show ?thesis using i(4) unfolding pending_credit_def
    by (intro conjI allI impI) (simp, simp, simp, (blast dest: host_try_claim_run [OF assms] host_release_run [OF assms])+)
qed

theorem adapter_lends_what_it_is_charged_witness:
  "\<exists>s acc. adapter_reachable s acc 40 \<and> charged_bytes acc = 40 \<and> 40 \<le> claimed_now (gov s) \<and>
     charged_bytes (fst (snd (host_release (gov s) acc Host 40))) = 0"
proof -
  obtain s a where s: "host_reachable s" "held s = [a]" "ha_bytes a = 40" by (rule a_holder)
  let ?acc = "(accounting_new 1 0)\<lparr>allocations := allocations (accounting_new 1 0) @ [a]\<rparr>"
  have ad: "adapter_reachable s ?acc (0 + ha_bytes a)"
    by (rule ar_push [OF ar_init [OF s(1)]]) (simp_all add: s accounting_new_def)
  then have ad40: "adapter_reachable s ?acc 40" using s(3) by simp
  obtain g acc' w where r: "host_release (gov s) ?acc Host 40 = (g, acc', w)" by (cases "host_release (gov s) ?acc Host 40")
  note P = adapter_lends_what_it_is_charged [OF ad40]
  note R = P [THEN conjunct2, THEN conjunct2, THEN conjunct2, THEN conjunct2, rule_format, OF _ _ r]
  from R obtain s' where "adapter_reachable s' acc' (40 - 40)" by auto
  from adapter_lends_what_it_is_charged [OF this] have "charged_bytes acc' = 0" by simp
  moreover have "charged_bytes ?acc = 40" by (simp add: charged_bytes_def accounting_new_def s(3))
  moreover have "40 \<le> claimed_now (gov s)" using P calculation(2) by simp
  ultimately show ?thesis using ad40 r by (intro exI [of _ s] exI [of _ ?acc]) simp
qed

text \<open>What \<open>available\<close> reports is not always grantable: credit and free bytes do not combine into one
  reservation. On a machine of 100 bytes of which 50 are reclaimable, a holder of 40 bytes that gives
  back 20 leaves 20 bytes of credit and 10 free; 30 are reported, and a claim of 30 is refused.\<close>

lemmas adapter_eval = governor_eval governor_try_claim_def ticket_try_claim_def disarm_def release_ticket_slot_def release_slot_def
  ticket_drop_def publish_cancel_def emit_mailbox_send_def host_try_claim_def host_release_def host_available_def host_refuse_def
  accounting_new_def return_loop.simps host_snapshot_def snapshot_locked_def reclaimable_total_def reserved_total_def claimed_total_def
  entry_owner_def entry_operation_def entry_reserved_bytes_def entry_claimed_bytes_def tier_name_def

lemma available_is_not_grantable:
  "case host_try_claim sample_governor (accounting_new 1 0) Host 40 KvCache of (g1, acc1, _, _) \<Rightarrow>
   case host_release g1 acc1 Host 20 of (g2, acc2, _) \<Rightarrow>
     snd (snd (host_available g2 acc2 Host)) = 30 \<and>
     snd (snd (snd (host_try_claim g2 acc2 Host 30 KvCache))) = Inl (TierExhausted ''host'' 30 0 0 0 KvCache)"
  by (simp add: adapter_eval)

end
