(* ===== verification/IrArena.thy ===== *)
theory IrArena
  imports Prelude
begin

text \<open>
  The slot arena of \<open>onnx-runtime-ir/src/arena.rs\<close> and the element types of \<open>dtype.rs\<close> and
  \<open>shape.rs\<close>. An arena hands out the index of a slot as key, keeps removed slots as tombstones and
  recycles the one freed last.
\<close>

section \<open>The arena\<close>

record 'a Arena =
  ar_slots :: "'a option list"
  ar_free :: "nat list"
  ar_len :: nat

definition arena_new :: "'a Arena" where
  "arena_new = \<lparr>ar_slots = [], ar_free = [], ar_len = 0\<rparr>"

definition arena_capacity :: "'a Arena \<Rightarrow> nat" where
  "arena_capacity a = length (ar_slots a)"

definition arena_get :: "'a Arena \<Rightarrow> nat \<Rightarrow> 'a option" where
  "arena_get a k = (if k < length (ar_slots a) then ar_slots a ! k else None)"

definition arena_contains :: "'a Arena \<Rightarrow> nat \<Rightarrow> bool" where
  "arena_contains a k \<longleftrightarrow> arena_get a k \<noteq> None"

definition insert_with :: "(nat \<Rightarrow> 'a) \<Rightarrow> 'a Arena \<Rightarrow> nat \<times> 'a Arena" where
  "insert_with mk a =
     (if ar_free a = []
      then (length (ar_slots a),
            a\<lparr>ar_slots := ar_slots a @ [Some (mk (length (ar_slots a)))], ar_len := ar_len a + 1\<rparr>)
      else (last (ar_free a),
            a\<lparr>ar_slots := (ar_slots a)[last (ar_free a) := Some (mk (last (ar_free a)))],
              ar_free := butlast (ar_free a), ar_len := ar_len a + 1\<rparr>))"

definition arena_insert :: "'a \<Rightarrow> 'a Arena \<Rightarrow> nat \<times> 'a Arena" where
  "arena_insert v a = insert_with (\<lambda>_. v) a"

text \<open>Assigning through \<open>get_mut\<close>: a dead key is left alone.\<close>

definition arena_modify :: "nat \<Rightarrow> ('a \<Rightarrow> 'a) \<Rightarrow> 'a Arena \<Rightarrow> 'a Arena" where
  "arena_modify k f a =
     (case arena_get a k of None \<Rightarrow> a | Some v \<Rightarrow> a\<lparr>ar_slots := (ar_slots a)[k := Some (f v)]\<rparr>)"

definition arena_remove :: "nat \<Rightarrow> 'a Arena \<Rightarrow> 'a option \<times> 'a Arena" where
  "arena_remove k a =
     (if \<not> k < length (ar_slots a) then (None, a)
      else case ar_slots a ! k of
        None \<Rightarrow> (None, a)
      | Some v \<Rightarrow> (Some v, a\<lparr>ar_slots := (ar_slots a)[k := None], ar_free := ar_free a @ [k], ar_len := ar_len a - 1\<rparr>))"

definition arena_keys :: "'a Arena \<Rightarrow> nat list" where
  "arena_keys a = filter (\<lambda>k. ar_slots a ! k \<noteq> None) [0..<length (ar_slots a)]"

definition arena_iter :: "'a Arena \<Rightarrow> (nat \<times> 'a) list" where
  "arena_iter a = map (\<lambda>k. (k, the (ar_slots a ! k))) (arena_keys a)"

subsection \<open>Keys and contents\<close>

definition arena_ok :: "'a Arena \<Rightarrow> bool" where
  "arena_ok a \<longleftrightarrow>
     distinct (ar_free a) \<and> (\<forall>k. k \<in> set (ar_free a) \<longleftrightarrow> k < length (ar_slots a) \<and> ar_slots a ! k = None) \<and>
     ar_len a = length (arena_keys a)"

lemma arena_keys_set: "set (arena_keys a) = {k. arena_get a k \<noteq> None}"
  by (auto simp: arena_keys_def arena_get_def)

lemma arena_live_finite: "finite {k. arena_get a k \<noteq> None}"
  using finite_set [of "arena_keys a"] by (simp only: arena_keys_set)

lemma arena_keys_sorted: "sorted_wrt (<) (arena_keys a)" "distinct (arena_keys a)"
  by (simp_all add: arena_keys_def sorted_wrt_filter)

lemma arena_iter_map: "map fst (arena_iter a) = arena_keys a" "map_of (arena_iter a) k = arena_get a k"
proof -
  show "map fst (arena_iter a) = arena_keys a" by (simp add: arena_iter_def comp_def)
  show "map_of (arena_iter a) k = arena_get a k"
  proof (cases "arena_get a k")
    case None
    then have "k \<notin> set (arena_keys a)" by (simp add: arena_keys_set)
    then show ?thesis using None by (auto simp: arena_iter_def map_of_eq_None_iff)
  next
    case (Some v)
    then have "(k, v) \<in> set (arena_iter a)" by (auto simp: arena_iter_def arena_keys_def arena_get_def image_iff split: if_splits)
    moreover have "distinct (map fst (arena_iter a))" using arena_keys_sorted by (simp add: arena_iter_def comp_def)
    ultimately show ?thesis using Some by simp
  qed
qed

lemma arena_iter_set: "(k, v) \<in> set (arena_iter a) \<longleftrightarrow> arena_get a k = Some v"
proof -
  have "distinct (map fst (arena_iter a))" using arena_keys_sorted by (simp add: arena_iter_map)
  then show ?thesis by (simp flip: arena_iter_map(2))
qed

lemma arena_get_new [simp]: "arena_get arena_new k = None" "arena_ok arena_new"
  by (simp_all add: arena_new_def arena_get_def arena_ok_def arena_keys_def)

lemma keys_update: "k < length xs \<Longrightarrow>
  length (filter (\<lambda>i. (xs[k := y]) ! i \<noteq> None) [0..<length xs]) + (if xs ! k \<noteq> None then 1 else 0) =
  length (filter (\<lambda>i. xs ! i \<noteq> None) [0..<length xs]) + (if y \<noteq> None then 1 else 0)"
proof -
  assume k: "k < length xs"
  have split: "[0..<length xs] = [0..<k] @ k # [Suc k..<length xs]" using k
    by (metis less_imp_le_nat upt_add_eq_append upt_conv_Cons le_add_diff_inverse zero_le)
  have "filter (\<lambda>i. (xs[k := y]) ! i \<noteq> None) [0..<k] = filter (\<lambda>i. xs ! i \<noteq> None) [0..<k]"
    "filter (\<lambda>i. (xs[k := y]) ! i \<noteq> None) [Suc k..<length xs] = filter (\<lambda>i. xs ! i \<noteq> None) [Suc k..<length xs]"
    by (auto intro!: filter_cong)
  then show ?thesis unfolding split using k by auto
qed

lemma insert_with_ok:
  assumes "arena_ok a" "insert_with mk a = (k, a')"
  shows "arena_ok a'" "arena_get a k = None" "arena_get a' k = Some (mk k)" "j \<noteq> k \<Longrightarrow> arena_get a' j = arena_get a j"
proof -
  have ok: "distinct (ar_free a)" "\<And>k. k \<in> set (ar_free a) \<longleftrightarrow> k < length (ar_slots a) \<and> ar_slots a ! k = None"
    "ar_len a = length (arena_keys a)" using assms(1) by (auto simp: arena_ok_def)
  have "arena_ok a' \<and> arena_get a k = None \<and> arena_get a' k = Some (mk k) \<and> (\<forall>j. j \<noteq> k \<longrightarrow> arena_get a' j = arena_get a j)"
  proof (cases "ar_free a = []")
    case True
    have k: "k = length (ar_slots a)" and a': "a' = a\<lparr>ar_slots := ar_slots a @ [Some (mk k)], ar_len := ar_len a + 1\<rparr>"
      using assms(2) True by (auto simp: insert_with_def)
    have "filter (\<lambda>i. (ar_slots a @ [Some (mk k)]) ! i \<noteq> None) [0..<length (ar_slots a)] = arena_keys a"
      unfolding arena_keys_def by (intro filter_cong) (auto simp: nth_append)
    then have "arena_keys a' = arena_keys a @ [k]" by (simp add: arena_keys_def a' k)
    moreover have "k' \<notin> set (ar_free a')" for k' using True by (simp add: a')
    moreover have "\<not> (k' < length (ar_slots a') \<and> ar_slots a' ! k' = None)" for k'
      using ok(2) [of k'] True by (auto simp: a' nth_append)
    ultimately show ?thesis using ok by (auto simp: arena_ok_def a' arena_get_def k nth_append)
  next
    case False
    have k: "k = last (ar_free a)" and a': "a' = a\<lparr>ar_slots := (ar_slots a)[k := Some (mk k)], ar_free := butlast (ar_free a), ar_len := ar_len a + 1\<rparr>"
      using assms(2) False by (auto simp: insert_with_def)
    have fr: "ar_free a = butlast (ar_free a) @ [k]" using False k by simp
    have kin: "k < length (ar_slots a)" "ar_slots a ! k = None" using ok(2) [of k] False k by auto
    have mem: "j \<in> set (butlast (ar_free a)) \<longleftrightarrow> j \<in> set (ar_free a) \<and> j \<noteq> k" for j
      using ok(1) by (subst (2) fr, subst (asm) fr) auto
    have "length (arena_keys a') = length (arena_keys a) + 1"
      using keys_update [OF kin(1), of "Some (mk k)"] kin(2) by (simp add: arena_keys_def a')
    then show ?thesis using ok kin mem by (auto simp: arena_ok_def a' arena_get_def nth_list_update distinct_butlast)
  qed
  then show "arena_ok a'" "arena_get a k = None" "arena_get a' k = Some (mk k)" "j \<noteq> k \<Longrightarrow> arena_get a' j = arena_get a j" by simp_all
qed

lemma arena_modify_ok:
  "arena_ok a \<Longrightarrow> arena_ok (arena_modify k f a)"
  "arena_get (arena_modify k f a) j = (if j = k then map_option f (arena_get a k) else arena_get a j)"
proof -
  show "arena_get (arena_modify k f a) j = (if j = k then map_option f (arena_get a k) else arena_get a j)"
    by (auto simp: arena_modify_def arena_get_def nth_list_update split: option.splits if_splits)
  show "arena_ok (arena_modify k f a)" if ok: "arena_ok a"
  proof (cases "arena_get a k")
    case None
    then show ?thesis using ok by (simp add: arena_modify_def)
  next
    case (Some v)
    then have k: "k < length (ar_slots a)" "ar_slots a ! k = Some v" by (auto simp: arena_get_def split: if_splits)
    have "length (arena_keys (arena_modify k f a)) = length (arena_keys a)"
      using keys_update [OF k(1), of "Some (f v)"] k(2) by (simp add: arena_modify_def Some arena_keys_def)
    then show ?thesis using ok k by (auto simp: arena_ok_def arena_modify_def Some nth_list_update split: if_splits)
  qed
qed

lemma arena_remove_ok:
  assumes "arena_ok a" "arena_remove k a = (r, a')"
  shows "arena_ok a'" "r = arena_get a k" "arena_get a' j = (if j = k then None else arena_get a j)"
proof -
  have "arena_ok a' \<and> r = arena_get a k \<and> (\<forall>j. arena_get a' j = (if j = k then None else arena_get a j))"
  proof (cases "arena_get a k")
    case None
    then show ?thesis using assms by (auto simp: arena_remove_def arena_get_def split: if_splits option.splits)
  next
    case (Some v)
    then have k: "k < length (ar_slots a)" "ar_slots a ! k = Some v" by (auto simp: arena_get_def split: if_splits)
    have a': "a' = a\<lparr>ar_slots := (ar_slots a)[k := None], ar_free := ar_free a @ [k], ar_len := ar_len a - 1\<rparr>" "r = Some v"
      using assms(2) k by (auto simp: arena_remove_def)
    have "length (arena_keys a') + 1 = length (arena_keys a)" using keys_update [OF k(1), of None] k(2) by (simp add: arena_keys_def a')
    then show ?thesis using assms(1) k Some by (auto simp: arena_ok_def a' arena_get_def nth_list_update split: if_splits)
  qed
  then show "arena_ok a'" "r = arena_get a k" "arena_get a' j = (if j = k then None else arena_get a j)" by simp_all
qed

end
