(* ===== verification/IrGraph.thy ===== *)
theory IrGraph
  imports IrArena "HOL-Library.Monad_Syntax" "HOL-Library.Product_Lexorder"
begin

text \<open>
  The graph of \<open>onnx-runtime-ir\<close>: values, nodes, the mutation interface that keeps producer and
  consumer links in step, traversal and validation. A panic (a dead id, an assertion, an index out of
  range) is \<^const>\<open>None\<close>. The consumer set of a value is a list without repetition; every reading of
  it is sorted, as in the source. The layout and device of a value, the attributes, names and doc
  strings of a node, the model functions and the records of shape inference are carried along unread by
  these operations and are left out; weights are a type parameter. The bodies of control-flow nodes hang
  below a graph as a tree.
\<close>

section \<open>Element types and shapes\<close>

datatype DataType =
    Undefined | Float32 | Uint8 | Int8 | Uint16 | Int16 | Int32 | Int64 | StringType | BoolType | Float16 | Float64
  | Uint32 | Uint64 | Complex64 | Complex128 | BFloat16 | Float8E4M3FN | Float8E4M3FNUZ | Float8E5M2 | Float8E5M2FNUZ
  | Uint4 | Int4 | Float4E2M1 | Float8E8M0 | Uint2 | Int2

fun byte_size :: "DataType \<Rightarrow> nat" where
  "byte_size Float32 = 4" | "byte_size Int32 = 4" | "byte_size Uint32 = 4"
| "byte_size Float64 = 8" | "byte_size Int64 = 8" | "byte_size Uint64 = 8" | "byte_size Complex64 = 8"
| "byte_size Complex128 = 16"
| "byte_size Float16 = 2" | "byte_size BFloat16 = 2" | "byte_size Int16 = 2" | "byte_size Uint16 = 2"
| "byte_size Int8 = 1" | "byte_size Uint8 = 1" | "byte_size BoolType = 1"
| "byte_size Float8E4M3FN = 1" | "byte_size Float8E4M3FNUZ = 1" | "byte_size Float8E5M2 = 1"
| "byte_size Float8E5M2FNUZ = 1" | "byte_size Float8E8M0 = 1"
| "byte_size _ = 0"

fun bit_size :: "DataType \<Rightarrow> nat" where
  "bit_size Int4 = 4" | "bit_size Uint4 = 4" | "bit_size Float4E2M1 = 4"
| "bit_size Int2 = 2" | "bit_size Uint2 = 2"
| "bit_size t = byte_size t * 8"

definition is_sub_byte :: "DataType \<Rightarrow> bool" where
  "is_sub_byte t \<longleftrightarrow> t \<in> {Int4, Uint4, Float4E2M1, Int2, Uint2}"

definition is_float :: "DataType \<Rightarrow> bool" where
  "is_float t \<longleftrightarrow> t \<in> {Float32, Float64, Float16, BFloat16, Float8E4M3FN, Float8E4M3FNUZ, Float8E5M2, Float8E5M2FNUZ, Float8E8M0, Float4E2M1}"

definition is_int :: "DataType \<Rightarrow> bool" where
  "is_int t \<longleftrightarrow> t \<in> {Uint8, Int8, Uint16, Int16, Int32, Int64, Uint32, Uint64, Int4, Uint4, Int2, Uint2}"

definition is_complex :: "DataType \<Rightarrow> bool" where
  "is_complex t \<longleftrightarrow> t \<in> {Complex64, Complex128}"

text \<open>The discriminants are the numbers of \<open>TensorProto.DataType\<close>, in order.\<close>

definition onnx_types :: "DataType list" where
  "onnx_types =
     [Undefined, Float32, Uint8, Int8, Uint16, Int16, Int32, Int64, StringType, BoolType, Float16, Float64, Uint32, Uint64,
      Complex64, Complex128, BFloat16, Float8E4M3FN, Float8E4M3FNUZ, Float8E5M2, Float8E5M2FNUZ, Uint4, Int4, Float4E2M1,
      Float8E8M0, Uint2, Int2]"

definition from_onnx :: "int \<Rightarrow> DataType option" where
  "from_onnx raw = (if 1 \<le> raw \<and> raw \<le> 26 then Some (onnx_types ! nat raw) else None)"

fun to_onnx :: "DataType \<Rightarrow> int" where
  "to_onnx Undefined = 0" | "to_onnx Float32 = 1" | "to_onnx Uint8 = 2" | "to_onnx Int8 = 3" | "to_onnx Uint16 = 4"
| "to_onnx Int16 = 5" | "to_onnx Int32 = 6" | "to_onnx Int64 = 7" | "to_onnx StringType = 8" | "to_onnx BoolType = 9"
| "to_onnx Float16 = 10" | "to_onnx Float64 = 11" | "to_onnx Uint32 = 12" | "to_onnx Uint64 = 13"
| "to_onnx Complex64 = 14" | "to_onnx Complex128 = 15" | "to_onnx BFloat16 = 16" | "to_onnx Float8E4M3FN = 17"
| "to_onnx Float8E4M3FNUZ = 18" | "to_onnx Float8E5M2 = 19" | "to_onnx Float8E5M2FNUZ = 20" | "to_onnx Uint4 = 21"
| "to_onnx Int4 = 22" | "to_onnx Float4E2M1 = 23" | "to_onnx Float8E8M0 = 24" | "to_onnx Uint2 = 25" | "to_onnx Int2 = 26"

lemma onnx_roundtrip: "from_onnx (to_onnx t) = (if t = Undefined then None else Some t)"
  by (cases t) (simp_all add: from_onnx_def onnx_types_def)

lemma onnx_roundtrip_back: "from_onnx raw = Some t \<Longrightarrow> to_onnx t = raw"
proof -
  assume a: "from_onnx raw = Some t"
  then have r: "1 \<le> raw" "raw \<le> 26" by (auto simp: from_onnx_def split: if_splits)
  have "\<forall>k \<in> set [1..26]. to_onnx (onnx_types ! nat k) = k" by code_simp
  then show ?thesis using a r by (auto simp: from_onnx_def)
qed

definition checked_mul_usize :: "nat \<Rightarrow> nat \<Rightarrow> nat option" where
  "checked_mul_usize a b = (if a * b \<le> u64_max then Some (a * b) else None)"

definition checked_storage_bytes :: "DataType \<Rightarrow> nat \<Rightarrow> nat option" where
  "checked_storage_bytes t count =
     (if t = Undefined then None
      else if is_sub_byte t
      then (let elements_per_byte = 8 div bit_size t in
            Some (count div elements_per_byte + (if count mod elements_per_byte = 0 then 0 else 1)))
      else checked_mul_usize count (byte_size t))"

datatype Dim = Static nat | Symbolic nat

fun as_static :: "Dim \<Rightarrow> nat option" where
  "as_static (Static n) = Some n"
| "as_static (Symbolic s) = None"

fun as_static_shape :: "Dim list \<Rightarrow> nat list option" where
  "as_static_shape [] = Some []"
| "as_static_shape (d # ds) = do { n \<leftarrow> as_static d; ns \<leftarrow> as_static_shape ds; Some (n # ns) }"

record SymbolConstraints =
  sc_id :: "nat option"
  sc_name :: "string option"
  sc_min :: "nat option"
  sc_max :: "nat option"
  divisible_by :: "nat option"

definition constraints_new :: "nat \<Rightarrow> string option \<Rightarrow> SymbolConstraints" where
  "constraints_new s name = \<lparr>sc_id = Some s, sc_name = name, sc_min = None, sc_max = None, divisible_by = None\<rparr>"

definition constraints_accepts :: "SymbolConstraints \<Rightarrow> nat \<Rightarrow> bool" where
  "constraints_accepts c n \<longleftrightarrow>
     (case sc_min c of None \<Rightarrow> True | Some lo \<Rightarrow> lo \<le> n) \<and>
     (case sc_max c of None \<Rightarrow> True | Some hi \<Rightarrow> n \<le> hi) \<and>
     (case divisible_by c of None \<Rightarrow> True | Some k \<Rightarrow> k \<noteq> 0 \<and> n mod k = 0)"

section \<open>Values, nodes, graphs\<close>

type_synonym Usage = "nat \<times> nat"

record Value =
  vl_name :: "string option"
  vl_dtype :: DataType
  vl_shape :: "Dim list"
  producer :: "nat option"
  consumers :: "Usage list"
  is_graph_input :: bool
  is_graph_output :: bool

definition value_new :: "DataType \<Rightarrow> Dim list \<Rightarrow> Value" where
  "value_new dtype shape =
     \<lparr>vl_name = None, vl_dtype = dtype, vl_shape = shape, producer = None, consumers = [],
      is_graph_input = False, is_graph_output = False\<rparr>"

definition consumers_insert :: "Usage \<Rightarrow> Usage list \<Rightarrow> Usage list" where
  "consumers_insert u us = (if u \<in> set us then us else u # us)"

definition consumers_uses :: "Usage list \<Rightarrow> Usage list" where
  "consumers_uses us = sort us"

definition consumers_nodes :: "Usage list \<Rightarrow> nat list" where
  "consumers_nodes us = remdups_adj (sort (map fst us))"

record Node =
  nd_id :: nat
  op_type :: string
  domain :: string
  nd_version :: "int option"
  inputs :: "nat option list"
  outputs :: "nat list"

definition input_values :: "Node \<Rightarrow> nat list" where
  "input_values n = List.map_filter (\<lambda>slot. slot) (inputs n)"

definition MAX_PLAUSIBLE_OPSET :: int where "MAX_PLAUSIBLE_OPSET = 1000"

definition local_opset :: "Node \<Rightarrow> nat option" where
  "local_opset n =
     (case nd_version n of
        Some v \<Rightarrow> if 1 \<le> v \<and> v \<le> MAX_PLAUSIBLE_OPSET then Some (nat v) else None
      | None \<Rightarrow> None)"

datatype GraphError =
    DanglingValue nat | DanglingNode nat | CycleDetected | MissingProducer nat | DuplicateOutput nat
  | InputHasProducer nat | ProducerLinkMismatch nat | ConsumerLinkMismatch nat | InvalidOpsetImport string nat

record 'w Graph =
  gnodes :: "Node Arena"
  gvalues :: "Value Arena"
  ginputs :: "nat list"
  goutputs :: "nat list"
  initializers :: "(nat \<times> 'w) list"
  symbol_constraints :: "(nat \<times> SymbolConstraints) list"
  opset_imports :: "(string \<times> nat) list"
  next_symbol :: nat
  symbol_names :: "(string \<times> nat) list"
  unknown_value_types :: "nat set"
  unknown_value_shapes :: "nat set"

definition graph_new :: "'w Graph" where
  "graph_new =
     \<lparr>gnodes = arena_new, gvalues = arena_new, ginputs = [], goutputs = [], initializers = [], symbol_constraints = [], opset_imports = [],
      next_symbol = 0, symbol_names = [], unknown_value_types = {}, unknown_value_shapes = {}\<rparr>"

definition try_node :: "'w Graph \<Rightarrow> nat \<Rightarrow> Node option" where
  "try_node g n = arena_get (gnodes g) n"

definition try_value :: "'w Graph \<Rightarrow> nat \<Rightarrow> Value option" where
  "try_value g v = arena_get (gvalues g) v"

text \<open>\<open>node\<close> and \<open>value\<close> panic where the checked lookups return nothing.\<close>

definition effective_opset :: "'w Graph \<Rightarrow> Node \<Rightarrow> nat option" where
  "effective_opset g n = (case local_opset n of Some v \<Rightarrow> Some v | None \<Rightarrow> map_of (opset_imports g) (domain n))"

definition graph_uses :: "'w Graph \<Rightarrow> nat \<Rightarrow> Usage list option" where
  "graph_uses g v = map_option (\<lambda>val. consumers_uses (consumers val)) (try_value g v)"

definition graph_consumers :: "'w Graph \<Rightarrow> nat \<Rightarrow> nat list option" where
  "graph_consumers g v = map_option (\<lambda>val. consumers_nodes (consumers val)) (try_value g v)"

definition num_uses :: "'w Graph \<Rightarrow> nat \<Rightarrow> nat option" where
  "num_uses g v = map_option (\<lambda>val. length (consumers val)) (try_value g v)"

definition has_uses :: "'w Graph \<Rightarrow> nat \<Rightarrow> bool option" where
  "has_uses g v = map_option (\<lambda>val. consumers val \<noteq> []) (try_value g v)"

definition num_nodes :: "'w Graph \<Rightarrow> nat" where
  "num_nodes g = ar_len (gnodes g)"

definition num_values :: "'w Graph \<Rightarrow> nat" where
  "num_values g = ar_len (gvalues g)"

definition value_type_is_known :: "'w Graph \<Rightarrow> nat \<Rightarrow> bool" where
  "value_type_is_known g v \<longleftrightarrow> v \<notin> unknown_value_types g"

definition value_shape_is_known :: "'w Graph \<Rightarrow> nat \<Rightarrow> bool" where
  "value_shape_is_known g v \<longleftrightarrow> v \<notin> unknown_value_shapes g"

definition mark_value_type_unknown :: "'w Graph \<Rightarrow> nat \<Rightarrow> 'w Graph" where
  "mark_value_type_unknown g v = g\<lparr>unknown_value_types := insert v (unknown_value_types g)\<rparr>"

definition mark_value_type_known :: "'w Graph \<Rightarrow> nat \<Rightarrow> 'w Graph" where
  "mark_value_type_known g v = g\<lparr>unknown_value_types := unknown_value_types g - {v}\<rparr>"

definition mark_value_shape_unknown :: "'w Graph \<Rightarrow> nat \<Rightarrow> 'w Graph" where
  "mark_value_shape_unknown g v = g\<lparr>unknown_value_shapes := insert v (unknown_value_shapes g)\<rparr>"

definition mark_value_shape_known :: "'w Graph \<Rightarrow> nat \<Rightarrow> 'w Graph" where
  "mark_value_shape_known g v = g\<lparr>unknown_value_shapes := unknown_value_shapes g - {v}\<rparr>"

section \<open>Construction\<close>

definition create_symbol :: "'w Graph \<Rightarrow> string option \<Rightarrow> 'w Graph \<times> nat" where
  "create_symbol g name =
     (g\<lparr>next_symbol := next_symbol g + 1,
        symbol_constraints := AList.update (next_symbol g) (constraints_new (next_symbol g) name) (symbol_constraints g),
        symbol_names := (case name of Some n \<Rightarrow> AList.update n (next_symbol g) (symbol_names g) | None \<Rightarrow> symbol_names g)\<rparr>,
      next_symbol g)"

definition intern_symbol :: "'w Graph \<Rightarrow> string \<Rightarrow> 'w Graph \<times> nat" where
  "intern_symbol g name =
     (case map_of (symbol_names g) name of Some s \<Rightarrow> (g, s) | None \<Rightarrow> create_symbol g (Some name))"

definition create_value :: "'w Graph \<Rightarrow> DataType \<Rightarrow> Dim list \<Rightarrow> 'w Graph \<times> nat" where
  "create_value g dtype shape =
     (case insert_with (\<lambda>_. value_new dtype shape) (gvalues g) of (v, a) \<Rightarrow> (g\<lparr>gvalues := a\<rparr>, v))"

text \<open>\<open>value_mut\<close> and an assignment: a panic when the value is dead.\<close>

definition set_value :: "'w Graph \<Rightarrow> nat \<Rightarrow> (Value \<Rightarrow> Value) \<Rightarrow> 'w Graph option" where
  "set_value g v f = (if try_value g v = None then None else Some (g\<lparr>gvalues := arena_modify v f (gvalues g)\<rparr>))"

definition create_named_value :: "'w Graph \<Rightarrow> string \<Rightarrow> DataType \<Rightarrow> Dim list \<Rightarrow> ('w Graph \<times> nat) option" where
  "create_named_value g name dtype shape =
     (case create_value g dtype shape of (g1, v) \<Rightarrow>
        do { g2 \<leftarrow> set_value g1 v (\<lambda>val. val\<lparr>vl_name := Some name\<rparr>); Some (g2, v) })"

definition add_input :: "'w Graph \<Rightarrow> nat \<Rightarrow> 'w Graph option" where
  "add_input g v =
     do { g1 \<leftarrow> set_value g v (\<lambda>val. val\<lparr>is_graph_input := True\<rparr>); Some (g1\<lparr>ginputs := ginputs g1 @ [v]\<rparr>) }"

definition add_output :: "'w Graph \<Rightarrow> nat \<Rightarrow> 'w Graph option" where
  "add_output g v =
     do { g1 \<leftarrow> set_value g v (\<lambda>val. val\<lparr>is_graph_output := True\<rparr>); Some (g1\<lparr>goutputs := goutputs g1 @ [v]\<rparr>) }"

definition insert_output :: "'w Graph \<Rightarrow> nat \<Rightarrow> nat \<Rightarrow> 'w Graph option" where
  "insert_output g index v =
     do { g1 \<leftarrow> set_value g v (\<lambda>val. val\<lparr>is_graph_output := True\<rparr>);
          if index \<le> length (goutputs g1)
          then Some (g1\<lparr>goutputs := take index (goutputs g1) @ v # drop index (goutputs g1)\<rparr>) else None }"

definition remove_input :: "'w Graph \<Rightarrow> nat \<Rightarrow> ('w Graph \<times> nat) option" where
  "remove_input g index =
     (if index < length (ginputs g)
      then
        (let v = ginputs g ! index; g1 = g\<lparr>ginputs := remove_nth index (ginputs g)\<rparr> in
         if v \<in> set (ginputs g1) then Some (g1, v)
         else do { g2 \<leftarrow> set_value g1 v (\<lambda>val. val\<lparr>is_graph_input := False\<rparr>); Some (g2, v) })
      else None)"

definition remove_output :: "'w Graph \<Rightarrow> nat \<Rightarrow> ('w Graph \<times> nat) option" where
  "remove_output g index =
     (if index < length (goutputs g)
      then
        (let v = goutputs g ! index; g1 = g\<lparr>goutputs := remove_nth index (goutputs g)\<rparr> in
         if v \<in> set (goutputs g1) then Some (g1, v)
         else do { g2 \<leftarrow> set_value g1 v (\<lambda>val. val\<lparr>is_graph_output := False\<rparr>); Some (g2, v) })
      else None)"

fun modify_values :: "(Value \<Rightarrow> Value) \<Rightarrow> nat list \<Rightarrow> Value Arena \<Rightarrow> Value Arena" where
  "modify_values f [] a = a"
| "modify_values f (v # vs) a = modify_values f vs (arena_modify v f a)"

definition set_inputs :: "'w Graph \<Rightarrow> nat list \<Rightarrow> 'w Graph option" where
  "set_inputs g vs =
     (if \<forall>v \<in> set vs. try_value g v \<noteq> None
      then Some (g\<lparr>gvalues := modify_values (\<lambda>val. val\<lparr>is_graph_input := True\<rparr>) vs
                   (modify_values (\<lambda>val. val\<lparr>is_graph_input := False\<rparr>) (ginputs g) (gvalues g)), ginputs := vs\<rparr>)
      else None)"

definition set_outputs :: "'w Graph \<Rightarrow> nat list \<Rightarrow> 'w Graph option" where
  "set_outputs g vs =
     (if \<forall>v \<in> set vs. try_value g v \<noteq> None
      then Some (g\<lparr>gvalues := modify_values (\<lambda>val. val\<lparr>is_graph_output := True\<rparr>) vs
                   (modify_values (\<lambda>val. val\<lparr>is_graph_output := False\<rparr>) (goutputs g) (gvalues g)), goutputs := vs\<rparr>)
      else None)"

definition set_initializer :: "'w Graph \<Rightarrow> nat \<Rightarrow> 'w \<Rightarrow> 'w Graph" where
  "set_initializer g v w = g\<lparr>initializers := AList.update v w (initializers g)\<rparr>"

section \<open>Traversal\<close>

definition producer_of :: "'w Graph \<Rightarrow> nat \<Rightarrow> nat option" where
  "producer_of g v = do { val \<leftarrow> try_value g v; producer val }"

definition predecessors :: "'w Graph \<Rightarrow> nat \<Rightarrow> nat list option" where
  "predecessors g n =
     map_option (\<lambda>nd. sort (remdups (List.map_filter (producer_of g) (input_values nd)))) (try_node g n)"

definition consumers_of :: "'w Graph \<Rightarrow> nat \<Rightarrow> nat list" where
  "consumers_of g v = (case try_value g v of None \<Rightarrow> [] | Some val \<Rightarrow> consumers_nodes (consumers val))"

definition successors :: "'w Graph \<Rightarrow> nat \<Rightarrow> nat list option" where
  "successors g n =
     map_option (\<lambda>nd. sort (remdups (concat (map (consumers_of g) (outputs nd))))) (try_node g n)"

text \<open>Kahn's algorithm. The ready heap is a list kept in ascending order; \<open>VACANT\<close> marks dead slots.\<close>

definition VACANT :: nat where "VACANT = u64_max"

definition node_edges :: "'w Graph \<Rightarrow> (nat \<times> nat) list" where
  "node_edges g =
     concat (map (\<lambda>(nid, nd). map (\<lambda>p. (p, nid))
       (filter (arena_contains (gnodes g)) (List.map_filter (producer_of g) (input_values nd)))) (arena_iter (gnodes g)))"

fun add_edges :: "nat list \<times> nat list list \<Rightarrow> (nat \<times> nat) list \<Rightarrow> nat list \<times> nat list list" where
  "add_edges (deg, adj) [] = (deg, adj)"
| "add_edges (deg, adj) ((p, n) # es) = add_edges (deg[n := deg ! n + 1], adj[p := adj ! p @ [n]]) es"

definition initial_degrees :: "'w Graph \<Rightarrow> nat list" where
  "initial_degrees g = map (\<lambda>s. case s of None \<Rightarrow> VACANT | Some _ \<Rightarrow> 0) (ar_slots (gnodes g))"

fun relax :: "nat list \<Rightarrow> nat list \<Rightarrow> nat list \<Rightarrow> (nat list \<times> nat list) option" where
  "relax deg ready [] = Some (deg, ready)"
| "relax deg ready (s # ss) =
     (if s < length deg \<and> deg ! s \<noteq> 0
      then relax (deg[s := deg ! s - 1]) (if deg ! s = 1 then insort s ready else ready) ss
      else None)"

lemma relax_measure: "relax deg ready ss = Some (deg', ready') \<Longrightarrow> sum_list deg' + length ready' \<le> sum_list deg + length ready"
proof (induction deg ready ss rule: relax.induct)
  case (2 deg ready s ss)
  then have s: "s < length deg" "deg ! s \<noteq> 0" by (auto split: if_splits)
  then have "sum_list (deg[s := deg ! s - 1]) + 1 = sum_list deg"
    using elem_le_sum_list [OF s(1)] by (simp add: sum_list_update)
  with 2 s show ?case by (fastforce split: if_splits)
qed simp

function kahn_loop :: "nat list list \<Rightarrow> nat list \<Rightarrow> nat list \<Rightarrow> nat list \<Rightarrow> nat list option" where
  "kahn_loop adj deg [] order = Some order"
| "kahn_loop adj deg (raw # ready) order =
     (case relax deg ready (adj ! raw) of
        None \<Rightarrow> None
      | Some (deg', ready') \<Rightarrow> kahn_loop adj deg' ready' (order @ [raw]))"
  by pat_completeness auto
termination
  by (relation "measure (\<lambda>(adj, deg, ready, order). sum_list deg + length ready)") (auto dest!: relax_measure)

definition topological_order :: "'w Graph \<Rightarrow> (GraphError + nat list) option" where
  "topological_order g =
     (let (deg, adj) = add_edges (initial_degrees g, replicate (arena_capacity (gnodes g)) []) (node_edges g);
          ready = filter (\<lambda>i. deg ! i = 0) [0..<length deg] in
      do { order \<leftarrow> kahn_loop adj deg ready [];
           Some (if length order \<noteq> ar_len (gnodes g) then Inl CycleDetected else Inr order) })"

text \<open>The walk back from \<open>outputs\<close>: \<open>stack\<close> has its top at the end, \<open>found\<close> is \<open>nodes\<close>.\<close>

function between_loop :: "'w Graph \<Rightarrow> nat list \<Rightarrow> nat set \<Rightarrow> nat list \<Rightarrow> nat list \<Rightarrow> nat list option" where
  "between_loop g boundary seen_values stack found =
     (if stack = [] then Some found
      else
        (let v = last stack; stack' = butlast stack in
         if v \<in> set boundary \<or> v \<in> seen_values then between_loop g boundary seen_values stack' found
         else case try_value g v of
           None \<Rightarrow> between_loop g boundary (insert v seen_values) stack' found
         | Some val \<Rightarrow>
             (case producer val of
                None \<Rightarrow> between_loop g boundary (insert v seen_values) stack' found
              | Some p \<Rightarrow>
                  (case try_node g p of
                     None \<Rightarrow> None
                   | Some nd \<Rightarrow>
                       between_loop g boundary (insert v seen_values) (stack' @ input_values nd)
                         (if p \<in> set found then found else found @ [p])))))"
  by pat_completeness auto
termination
proof (relation "inv_image (finite_psubset <*lex*> less_than) (\<lambda>(g, boundary, seen, stack, found).
    ({v. try_value g v \<noteq> None} - seen, length stack))", goal_cases)
  case 1
  show ?case by auto
qed (insert arena_live_finite, auto simp: finite_psubset_def try_value_def)

definition nodes_between :: "'w Graph \<Rightarrow> nat list \<Rightarrow> nat list \<Rightarrow> nat list option" where
  "nodes_between g ins outs = between_loop g ins {} outs []"

section \<open>Mutation\<close>

definition AI_ONNX_DOMAIN :: string where "AI_ONNX_DOMAIN = ''ai.onnx''"

definition normalize_domains :: "'w Graph \<Rightarrow> 'w Graph" where
  "normalize_domains g =
     (let g1 = g\<lparr>gnodes := (gnodes g)\<lparr>ar_slots :=
            map (map_option (\<lambda>n. if domain n = AI_ONNX_DOMAIN then n\<lparr>domain := []\<rparr> else n)) (ar_slots (gnodes g))\<rparr>\<rparr> in
      case map_of (opset_imports g1) AI_ONNX_DOMAIN of
        None \<Rightarrow> g1
      | Some version \<Rightarrow>
          (let imports' = AList.delete AI_ONNX_DOMAIN (opset_imports g1) in
           g1\<lparr>opset_imports := AList.update [] (max (case map_of imports' [] of Some n \<Rightarrow> n | None \<Rightarrow> version) version) imports'\<rparr>))"

text \<open>Wiring the edges of a live node; dead values are skipped.\<close>

fun wire_inputs :: "nat \<Rightarrow> nat \<Rightarrow> nat option list \<Rightarrow> Value Arena \<Rightarrow> Value Arena" where
  "wire_inputs n i [] a = a"
| "wire_inputs n i (None # ins) a = wire_inputs n (i + 1) ins a"
| "wire_inputs n i (Some v # ins) a =
     wire_inputs n (i + 1) ins (arena_modify v (\<lambda>val. val\<lparr>consumers := consumers_insert (n, i) (consumers val)\<rparr>) a)"

definition connect_edges :: "'w Graph \<Rightarrow> nat \<Rightarrow> 'w Graph option" where
  "connect_edges g n =
     do { nd \<leftarrow> try_node g n;
          Some (g\<lparr>gvalues := modify_values (\<lambda>val. val\<lparr>producer := Some n\<rparr>) (outputs nd)
                   (wire_inputs n 0 (inputs nd) (gvalues g))\<rparr>) }"

definition replace_input :: "'w Graph \<Rightarrow> nat \<Rightarrow> nat \<Rightarrow> nat option \<Rightarrow> ('w Graph \<times> nat option) option" where
  "replace_input g n index new_value =
     do { nd \<leftarrow> try_node g n;
          if \<not> index < length (inputs nd) then None
          else if (case new_value of None \<Rightarrow> False | Some v \<Rightarrow> try_value g v = None) then None
          else
            (let old_value = inputs nd ! index in
             if old_value = new_value then Some (g, old_value)
             else do {
               g1 \<leftarrow> (case old_value of
                  None \<Rightarrow> Some g
                | Some v \<Rightarrow> set_value g v (\<lambda>val. val\<lparr>consumers := filter (\<lambda>u. u \<noteq> (n, index)) (consumers val)\<rparr>));
               let g2 = g1\<lparr>gnodes := arena_modify n (\<lambda>nd. nd\<lparr>inputs := (inputs nd)[index := new_value]\<rparr>) (gnodes g1)\<rparr>;
               g3 \<leftarrow> (case new_value of
                  None \<Rightarrow> Some g2
                | Some v \<Rightarrow> set_value g2 v (\<lambda>val. val\<lparr>consumers := consumers_insert (n, index) (consumers val)\<rparr>));
               Some (g3, old_value) }) }"

fun clear_inputs :: "'w Graph \<Rightarrow> nat \<Rightarrow> nat list \<Rightarrow> 'w Graph option" where
  "clear_inputs g n [] = Some g"
| "clear_inputs g n (i # is) = do { (g', _) \<leftarrow> replace_input g n i None; clear_inputs g' n is }"

definition disconnect_edges :: "'w Graph \<Rightarrow> nat \<Rightarrow> 'w Graph option" where
  "disconnect_edges g n =
     do { nd \<leftarrow> try_node g n;
          g1 \<leftarrow> clear_inputs g n [0..<length (inputs nd)];
          Some (g1\<lparr>gvalues := modify_values (\<lambda>val. if producer val = Some n then val\<lparr>producer := None\<rparr> else val)
                   (outputs nd) (gvalues g1)\<rparr>) }"

definition is_orphan :: "'w Graph \<Rightarrow> nat \<Rightarrow> bool" where
  "is_orphan g v =
     (case try_value g v of
        Some val \<Rightarrow> producer val = None \<and> consumers val = [] \<and> \<not> is_graph_input val \<and> \<not> is_graph_output val \<and>
          map_of (initializers g) v = None
      | None \<Rightarrow> False)"

definition gc_value_if_orphan :: "'w Graph \<Rightarrow> nat \<Rightarrow> 'w Graph" where
  "gc_value_if_orphan g v =
     (if is_orphan g v
      then g\<lparr>gvalues := snd (arena_remove v (gvalues g)), unknown_value_types := unknown_value_types g - {v},
             unknown_value_shapes := unknown_value_shapes g - {v}\<rparr>
      else g)"

definition insert_node :: "'w Graph \<Rightarrow> Node \<Rightarrow> ('w Graph \<times> nat) option" where
  "insert_node g nd =
     (case insert_with (\<lambda>nid. nd\<lparr>nd_id := nid\<rparr>) (gnodes g) of (nid, a) \<Rightarrow>
        do { g' \<leftarrow> connect_edges (g\<lparr>gnodes := a\<rparr>) nid; Some (g', nid) })"

definition remove_node :: "'w Graph \<Rightarrow> nat \<Rightarrow> 'w Graph option" where
  "remove_node g n =
     (case try_node g n of
        None \<Rightarrow> Some g
      | Some nd \<Rightarrow>
          do { g1 \<leftarrow> disconnect_edges g n;
               nd1 \<leftarrow> try_node g1 n;
               Some (fold (\<lambda>v g. gc_value_if_orphan g v) (outputs nd1) (g1\<lparr>gnodes := snd (arena_remove n (gnodes g1))\<rparr>)) })"

fun remove_nodes :: "'w Graph \<Rightarrow> nat list \<Rightarrow> 'w Graph option" where
  "remove_nodes g [] = Some g"
| "remove_nodes g (n # ns) = do { g' \<leftarrow> remove_node g n; remove_nodes g' ns }"

fun apply_groups :: "'w Graph \<Rightarrow> (nat list \<times> Node) list \<Rightarrow> nat list \<Rightarrow> ('w Graph \<times> nat list) option" where
  "apply_groups g [] inserted = Some (g, inserted)"
| "apply_groups g ((ns, replacement) # groups) inserted =
     do { g1 \<leftarrow> remove_nodes g ns; (g2, nid) \<leftarrow> insert_node g1 replacement; apply_groups g2 groups (inserted @ [nid]) }"

definition replace_node_groups :: "'w Graph \<Rightarrow> (nat list \<times> Node) list \<Rightarrow> ('w Graph \<times> nat list) option" where
  "replace_node_groups g groups =
     (let removed = concat (map fst groups) in
      if (\<forall>(ns, _) \<in> set groups. ns \<noteq> []) \<and> (\<forall>n \<in> set removed. try_node g n \<noteq> None) \<and> distinct removed
      then apply_groups g groups [] else None)"

definition replace_node :: "'w Graph \<Rightarrow> nat \<Rightarrow> Node \<Rightarrow> ('w Graph \<times> nat) option" where
  "replace_node g old nd =
     (if try_node g old = None then None
      else do { g1 \<leftarrow> disconnect_edges g old;
                g2 \<leftarrow> connect_edges (g1\<lparr>gnodes := arena_modify old (\<lambda>_. nd\<lparr>nd_id := old\<rparr>) (gnodes g1)\<rparr>) old;
                Some (g2, old) })"

fun redirect_uses :: "'w Graph \<Rightarrow> nat \<Rightarrow> Usage list \<Rightarrow> 'w Graph option" where
  "redirect_uses g new_value [] = Some g"
| "redirect_uses g new_value ((n, i) # us) =
     (if try_node g n \<noteq> None
      then do { (g', _) \<leftarrow> replace_input g n i (Some new_value); redirect_uses g' new_value us }
      else redirect_uses g new_value us)"

definition replace_all_uses :: "'w Graph \<Rightarrow> nat \<Rightarrow> nat \<Rightarrow> 'w Graph option" where
  "replace_all_uses g old_value new_value =
     (if old_value = new_value then Some g
      else case try_value g old_value of
        None \<Rightarrow> Some g
      | Some val \<Rightarrow>
          do { g1 \<leftarrow> redirect_uses g new_value (consumers_uses (consumers val));
               val1 \<leftarrow> try_value g1 old_value;
               if is_graph_output val1
               then set_outputs g1 (map (\<lambda>out. if out = old_value then new_value else out) (goutputs g1))
               else Some g1 })"

definition insert_on_edge :: "'w Graph \<Rightarrow> nat \<Rightarrow> Node \<Rightarrow> ('w Graph \<times> nat) option" where
  "insert_on_edge g v nd =
     do { val \<leftarrow> try_value g v;
          let (g1, new_value) = create_value g (vl_dtype val) (vl_shape val);
          g2 \<leftarrow> replace_all_uses g1 v new_value;
          insert_node g2 (nd\<lparr>inputs := [Some v], outputs := [new_value]\<rparr>) }"

section \<open>Validation\<close>

definition input_errors :: "'w Graph \<Rightarrow> nat \<times> Node \<Rightarrow> GraphError list" where
  "input_errors g = (\<lambda>(nid, nd). concat (map (\<lambda>i.
     case inputs nd ! i of
       None \<Rightarrow> []
     | Some v \<Rightarrow>
         (case try_value g v of
            None \<Rightarrow> [DanglingValue v]
          | Some val \<Rightarrow> if (nid, i) \<in> set (consumers val) then [] else [ConsumerLinkMismatch v])) [0..<length (inputs nd)]))"

fun output_errors :: "'w Graph \<Rightarrow> nat set \<Rightarrow> nat list \<Rightarrow> GraphError list \<times> nat set" where
  "output_errors g produced [] = ([], produced)"
| "output_errors g produced (v # vs) =
     (if try_value g v = None
      then (case output_errors g produced vs of (es, p) \<Rightarrow> (DanglingValue v # es, p))
      else (case output_errors g (insert v produced) vs of (es, p) \<Rightarrow>
              ((if v \<in> produced then DuplicateOutput v # es else es), p)))"

fun node_errors :: "'w Graph \<Rightarrow> nat set \<Rightarrow> (nat \<times> Node) list \<Rightarrow> GraphError list" where
  "node_errors g produced [] = []"
| "node_errors g produced ((nid, nd) # ns) =
     (case output_errors g produced (outputs nd) of (es, p) \<Rightarrow> input_errors g (nid, nd) @ es @ node_errors g p ns)"

definition link_errors :: "'w Graph \<Rightarrow> nat \<times> Value \<Rightarrow> GraphError list" where
  "link_errors g = (\<lambda>(vid, val).
     (case producer val of
        None \<Rightarrow> []
      | Some p \<Rightarrow>
          (case try_node g p of
             None \<Rightarrow> [DanglingNode p]
           | Some nd \<Rightarrow> if vid \<in> set (outputs nd) then [] else [ProducerLinkMismatch vid])) @
     concat (map (\<lambda>(c, i).
       case try_node g c of
         None \<Rightarrow> [DanglingNode c]
       | Some nd \<Rightarrow> if i < length (inputs nd) \<and> inputs nd ! i = Some vid then [] else [ConsumerLinkMismatch vid])
       (consumers_uses (consumers val))))"

definition source_errors :: "'w Graph \<Rightarrow> GraphError list" where
  "source_errors g = concat (map (\<lambda>inp.
     case try_value g inp of
       None \<Rightarrow> [DanglingValue inp]
     | Some val \<Rightarrow> if producer val \<noteq> None then [InputHasProducer inp] else []) (ginputs g))"

definition sink_errors :: "'w Graph \<Rightarrow> GraphError list" where
  "sink_errors g = concat (map (\<lambda>out.
     case try_value g out of
       None \<Rightarrow> [DanglingValue out]
     | Some val \<Rightarrow>
         if producer val = None \<and> \<not> (is_graph_input val \<or> map_of (initializers g) out \<noteq> None)
         then [MissingProducer out] else []) (goutputs g))"

text \<open>The debug assertions on the membership flags are part of the debug build's panics.\<close>

definition flags_ok :: "'w Graph \<Rightarrow> bool" where
  "flags_ok g \<longleftrightarrow> (\<forall>(v, val) \<in> set (arena_iter (gvalues g)).
     is_graph_input val = (v \<in> set (ginputs g)) \<and> is_graph_output val = (v \<in> set (goutputs g)))"

definition graph_errors :: "'w Graph \<Rightarrow> GraphError list option" where
  "graph_errors g =
     (if \<not> flags_ok g then None
      else do {
        topo \<leftarrow> topological_order g;
        Some (node_errors g {} (arena_iter (gnodes g)) @
          concat (map (link_errors g) (arena_iter (gvalues g))) @
          source_errors g @ sink_errors g @
          (case topo of Inl e \<Rightarrow> [e] | Inr _ \<Rightarrow> []) @
          map (\<lambda>(d, v). InvalidOpsetImport d v) (filter (\<lambda>(d, v). v = 0) (opset_imports g))) })"

section \<open>Graphs with bodies of control-flow nodes\<close>

datatype 'w GraphTree = GraphTree (root_graph: "'w Graph") (subgraphs: "'w GraphTree list")

fun tree_errors :: "'w GraphTree \<Rightarrow> GraphError list option" and forest_errors :: "'w GraphTree list \<Rightarrow> GraphError list option" where
  "tree_errors (GraphTree g subs) = do { es \<leftarrow> graph_errors g; fs \<leftarrow> forest_errors subs; Some (es @ fs) }"
| "forest_errors [] = Some []"
| "forest_errors (t # ts) = do { es \<leftarrow> tree_errors t; fs \<leftarrow> forest_errors ts; Some (es @ fs) }"

definition validate_graph :: "'w GraphTree \<Rightarrow> (GraphError list + unit) option" where
  "validate_graph t = map_option (\<lambda>es. if es = [] then Inr () else Inl es) (tree_errors t)"

fun normalize_tree :: "'w GraphTree \<Rightarrow> 'w GraphTree" where
  "normalize_tree (GraphTree g subs) = GraphTree (normalize_domains g) (map normalize_tree subs)"

fun tree_graphs :: "'w GraphTree \<Rightarrow> 'w Graph list" where
  "tree_graphs (GraphTree g subs) = g # concat (map tree_graphs subs)"

end
