(* ===== verification/ActivationPlan.thy ===== *)
theory ActivationPlan
  imports IrGraph
begin

text \<open>
  The activation memory planner of \<open>onnx-runtime-memory\<close>: view folding, live intervals over the
  topological order, greedy best-fit slot assignment, and the independent validation of a plan. A
  hash map is an association list; where the source iterates over one, the order is the parameter
  \<open>ho\<close>, of which only that it permutes the keys is ever assumed. \<^const>\<open>None\<close> is a panic: a missing
  key, an index out of range, or a sum past the machine word. The savings ratio, a float computed from
  the two totals for reporting, is left out.
\<close>

section \<open>Views\<close>

type_synonym ViewMap = "(nat \<times> nat) list"

definition view_insert :: "nat \<Rightarrow> nat \<Rightarrow> ViewMap \<Rightarrow> ViewMap" where
  "view_insert view source m = AList.update view source m"

definition from_pairs :: "(nat \<times> nat) list \<Rightarrow> ViewMap" where
  "from_pairs pairs = fold (\<lambda>(view, source) m. view_insert view source m) pairs []"

definition is_view :: "ViewMap \<Rightarrow> nat \<Rightarrow> bool" where
  "is_view m v \<longleftrightarrow> map_of m v \<noteq> None"

definition source_of :: "ViewMap \<Rightarrow> nat \<Rightarrow> nat option" where
  "source_of m v = map_of m v"

function root_loop :: "ViewMap \<Rightarrow> nat list \<Rightarrow> nat \<Rightarrow> nat" where
  "root_loop m seen cur =
     (case map_of m cur of
        None \<Rightarrow> cur
      | Some nxt \<Rightarrow> if cur \<in> set seen then cur else root_loop m (seen @ [cur]) nxt)"
  by pat_completeness auto
termination
proof (relation "measure (\<lambda>(m, seen, cur). card (fst ` set m - set seen))", goal_cases)
  case (2 m seen cur nxt)
  then have "cur \<in> fst ` set m - set seen" by (auto dest!: map_of_SomeD intro: rev_image_eqI)
  then have "fst ` set m - set (seen @ [cur]) \<subset> fst ` set m - set seen" by auto
  then show ?case by (simp add: psubset_card_mono)
qed simp

definition view_root :: "ViewMap \<Rightarrow> nat \<Rightarrow> nat" where
  "view_root m v = root_loop m [] v"

section \<open>Size oracles\<close>

fun checked_product :: "nat list \<Rightarrow> nat \<Rightarrow> nat option" where
  "checked_product [] numel = Some numel"
| "checked_product (d # ds) numel = do { n \<leftarrow> checked_mul_usize numel d; checked_product ds n }"

definition static_size :: "'w Graph \<Rightarrow> nat \<Rightarrow> nat option" where
  "static_size g v =
     do { val \<leftarrow> try_value g v; dims \<leftarrow> as_static_shape (vl_shape val); numel \<leftarrow> checked_product dims 1;
          checked_storage_bytes (vl_dtype val) numel }"

fun bounded_product :: "(nat \<times> nat) list \<Rightarrow> Dim list \<Rightarrow> nat \<Rightarrow> nat option" where
  "bounded_product bounds [] numel = Some numel"
| "bounded_product bounds (d # ds) numel =
     do { extent \<leftarrow> (case d of Static n \<Rightarrow> Some n | Symbolic s \<Rightarrow> map_of bounds s);
          n \<leftarrow> checked_mul_usize numel extent; bounded_product bounds ds n }"

definition bounded_size :: "'w Graph \<Rightarrow> nat \<Rightarrow> (nat \<times> nat) list \<Rightarrow> nat option" where
  "bounded_size g v bounds =
     do { val \<leftarrow> try_value g v; numel \<leftarrow> bounded_product bounds (vl_shape val) 1; checked_storage_bytes (vl_dtype val) numel }"

section \<open>Liveness\<close>

record Interval =
  iv_def :: nat
  use_end :: nat

definition overlaps :: "Interval \<Rightarrow> Interval \<Rightarrow> bool" where
  "overlaps a b \<longleftrightarrow> iv_def a \<le> use_end b \<and> iv_def b \<le> use_end a"

record Liveness =
  order_index :: "(nat \<times> nat) list"
  lv_order :: "nat list"
  last_index :: nat
  intervals :: "(nat \<times> Interval) list"
  owners :: "nat list"

datatype PlanError = Cycle

definition is_buffer_owner :: "'w Graph \<Rightarrow> ViewMap \<Rightarrow> bool \<Rightarrow> nat \<Rightarrow> bool" where
  "is_buffer_owner g m include_graph_inputs v =
     (if map_of (initializers g) v \<noteq> None then False
      else if is_view m v then False
      else case try_value g v of
        None \<Rightarrow> False
      | Some val \<Rightarrow> if producer val \<noteq> None then True else include_graph_inputs \<and> v \<in> set (ginputs g))"

definition seed_intervals :: "'w Graph \<Rightarrow> ViewMap \<Rightarrow> bool \<Rightarrow> (nat \<times> nat) list \<Rightarrow> (nat \<times> Interval) list" where
  "seed_intervals g m incl index =
     map (\<lambda>v. let d = (case producer_of g v of None \<Rightarrow> 0 | Some p \<Rightarrow> (case map_of index p of None \<Rightarrow> 0 | Some i \<Rightarrow> i))
              in (v, \<lparr>iv_def = d, use_end = d\<rparr>))
       (filter (is_buffer_owner g m incl) (arena_keys (gvalues g)))"

definition use_indices :: "'w Graph \<Rightarrow> (nat \<times> nat) list \<Rightarrow> nat \<Rightarrow> nat list" where
  "use_indices g index v = List.map_filter (map_of index) (consumers_of g v)"

definition extend_use :: "nat list \<Rightarrow> Interval \<Rightarrow> Interval" where
  "extend_use is iv = fold (\<lambda>i iv. iv\<lparr>use_end := max (use_end iv) i\<rparr>) is iv"

fun extend_intervals :: "'w Graph \<Rightarrow> ViewMap \<Rightarrow> (nat \<times> nat) list \<Rightarrow> nat \<Rightarrow> nat list \<Rightarrow> (nat \<times> Interval) list \<Rightarrow> (nat \<times> Interval) list" where
  "extend_intervals g m index last_i [] ivs = ivs"
| "extend_intervals g m index last_i (v # vs) ivs =
     extend_intervals g m index last_i vs
       (case map_of ivs (view_root m v) of
          None \<Rightarrow> ivs
        | Some iv \<Rightarrow>
            (let iv1 = extend_use (use_indices g index v) iv;
                 iv2 = (if v \<in> set (goutputs g) then iv1\<lparr>use_end := max (use_end iv1) last_i\<rparr> else iv1) in
             AList.update (view_root m v) iv2 ivs))"

definition liveness_of :: "'w Graph \<Rightarrow> ViewMap \<Rightarrow> bool \<Rightarrow> nat list \<Rightarrow> Liveness" where
  "liveness_of g m incl order =
     (let index = zip order [0..<length order]; last_i = length order - 1;
          ivs = extend_intervals g m index last_i (arena_keys (gvalues g)) (seed_intervals g m incl index) in
      \<lparr>order_index = index, lv_order = order, last_index = last_i, intervals = ivs,
       owners = sort_key (\<lambda>v. (case map_of ivs v of None \<Rightarrow> 0 | Some iv \<Rightarrow> iv_def iv, v)) (map fst ivs)\<rparr>)"

definition compute_liveness :: "'w Graph \<Rightarrow> ViewMap \<Rightarrow> bool \<Rightarrow> (PlanError + Liveness) option" where
  "compute_liveness g m incl =
     do { topo \<leftarrow> topological_order g;
          Some (case topo of Inl _ \<Rightarrow> Inl Cycle | Inr order \<Rightarrow> Inr (liveness_of g m incl order)) }"

section \<open>The planner\<close>

record SlotInfo =
  si_id :: nat
  capacity_bytes :: nat

record ActivationPlan =
  assignments :: "(nat \<times> nat) list"
  slots :: "SlotInfo list"
  peak_bytes :: nat
  num_slots :: nat
  naive_bytes :: nat

datatype PlanStatus = Complete ActivationPlan | Deferred "nat list"

definition as_complete :: "PlanStatus \<Rightarrow> ActivationPlan option" where
  "as_complete s = (case s of Complete p \<Rightarrow> Some p | Deferred _ \<Rightarrow> None)"

definition sum_usize :: "nat list \<Rightarrow> nat option" where
  "sum_usize xs = (if sum_list xs \<le> u64_max then Some (sum_list xs) else None)"

text \<open>The scan of the free list: the best fit so far is its position, capacity and slot id.\<close>

fun best_fit :: "nat \<Rightarrow> SlotInfo list \<Rightarrow> nat \<Rightarrow> nat list \<Rightarrow> (nat \<times> nat \<times> nat) option \<Rightarrow> (nat \<times> nat \<times> nat) option option" where
  "best_fit need ss i [] best = Some best"
| "best_fit need ss i (sid # free) best =
     (if \<not> sid < length ss then None
      else let cap = capacity_bytes (ss ! sid) in
        if cap < need then best_fit need ss (i + 1) free best
        else
          (let better = (case best of None \<Rightarrow> True | Some (_, best_cap, best_id) \<Rightarrow> cap < best_cap \<or> cap = best_cap \<and> sid < best_id) in
           best_fit need ss (i + 1) free (if better then Some (i, cap, sid) else best)))"

definition allocate_slot :: "nat \<Rightarrow> SlotInfo list \<Rightarrow> nat list \<Rightarrow> (nat \<times> SlotInfo list \<times> nat list) option" where
  "allocate_slot need ss free =
     do { best \<leftarrow> best_fit need ss 0 free None;
          Some (case best of
            Some (idx, _, _) \<Rightarrow> (free ! idx, ss, remove_nth idx free)
          | None \<Rightarrow> (length ss, ss @ [\<lparr>si_id = length ss, capacity_bytes = need\<rparr>], free)) }"

type_synonym PlanState = "SlotInfo list \<times> nat list \<times> (nat \<times> nat) list"

fun allocate_all :: "(nat \<times> nat) list \<Rightarrow> nat list \<Rightarrow> PlanState \<Rightarrow> PlanState option" where
  "allocate_all sizes [] st = Some st"
| "allocate_all sizes (v # vs) (ss, free, asg) =
     do { need \<leftarrow> map_of sizes v;
          (sid, ss', free') \<leftarrow> allocate_slot need ss free;
          allocate_all sizes vs (ss', free', AList.update v sid asg) }"

definition retire :: "nat list \<Rightarrow> PlanState \<Rightarrow> PlanState" where
  "retire retiring = (\<lambda>(ss, free, asg). (ss, free @ List.map_filter (map_of asg) retiring, asg))"

definition retire_at :: "(nat list \<Rightarrow> nat list) \<Rightarrow> Liveness \<Rightarrow> nat \<Rightarrow> nat list" where
  "retire_at ho live i =
     filter (\<lambda>ow. case map_of (intervals live) ow of None \<Rightarrow> False | Some iv \<Rightarrow> use_end iv = i) (ho (map fst (intervals live)))"

fun walk :: "(nat list \<Rightarrow> nat list) \<Rightarrow> 'w Graph \<Rightarrow> Liveness \<Rightarrow> (nat \<times> nat) list \<Rightarrow> nat \<Rightarrow> nat list \<Rightarrow> PlanState \<Rightarrow> PlanState option" where
  "walk ho g live sizes i [] st = Some st"
| "walk ho g live sizes i (n # ns) st =
     do { nd \<leftarrow> try_node g n;
          st1 \<leftarrow> allocate_all sizes (filter (\<lambda>v. map_of (intervals live) v \<noteq> None) (outputs nd)) st;
          walk ho g live sizes (i + 1) ns (retire (retire_at ho live i) st1) }"

definition input_owners :: "'w Graph \<Rightarrow> Liveness \<Rightarrow> nat list" where
  "input_owners g live = sort (filter (\<lambda>v. producer_of g v = None) (owners live))"

definition plan_with ::
    "(nat list \<Rightarrow> nat list) \<Rightarrow> 'w Graph \<Rightarrow> (nat \<Rightarrow> nat option) \<Rightarrow> bool \<Rightarrow> Liveness \<Rightarrow> PlanStatus option" where
  "plan_with ho g size_oracle incl live =
     (let unknown = filter (\<lambda>v. size_oracle v = None) (owners live) in
      if unknown \<noteq> [] then Some (Deferred (sort unknown))
      else
        (let sizes = map (\<lambda>v. (v, the (size_oracle v))) (owners live) in
         do { naive \<leftarrow> sum_usize (map snd sizes);
              st0 \<leftarrow> (if incl then allocate_all sizes (input_owners g live) ([], [], []) else Some ([], [], []));
              (ss, free, asg) \<leftarrow> walk ho g live sizes 0 (lv_order live) st0;
              peak \<leftarrow> sum_usize (map capacity_bytes ss);
              Some (Complete \<lparr>assignments = asg, slots = ss, peak_bytes = peak, num_slots = length ss, naive_bytes = naive\<rparr>) }))"

definition plan_activations ::
    "(nat list \<Rightarrow> nat list) \<Rightarrow> 'w Graph \<Rightarrow> ViewMap \<Rightarrow> (nat \<Rightarrow> nat option) \<Rightarrow> bool \<Rightarrow> (PlanError + PlanStatus) option" where
  "plan_activations ho g m size_oracle incl =
     do { r \<leftarrow> compute_liveness g m incl;
          (case r of
             Inl e \<Rightarrow> Some (Inl e)
           | Inr live \<Rightarrow> map_option Inr (plan_with ho g size_oracle incl live)) }"

definition plan_activations_static :: "(nat list \<Rightarrow> nat list) \<Rightarrow> 'w Graph \<Rightarrow> ViewMap \<Rightarrow> bool \<Rightarrow> (PlanError + PlanStatus) option" where
  "plan_activations_static ho g m incl = plan_activations ho g m (static_size g) incl"

definition peak_activation_bytes_at_bounds ::
    "(nat list \<Rightarrow> nat list) \<Rightarrow> 'w Graph \<Rightarrow> ViewMap \<Rightarrow> (nat \<times> nat) list \<Rightarrow> bool \<Rightarrow> (PlanError + nat option) option" where
  "peak_activation_bytes_at_bounds ho g m bounds incl =
     map_option (map_sum id (\<lambda>s. case s of Complete p \<Rightarrow> Some (peak_bytes p) | Deferred _ \<Rightarrow> None))
       (plan_activations ho g m (\<lambda>v. bounded_size g v bounds) incl)"

section \<open>Validation of a plan\<close>

datatype ValidateError =
    SlotConflict nat nat nat | UndersizedSlot nat nat nat nat | MissingAssignment nat | UnknownSlot nat nat
  | ViewOutlivesSource nat nat nat nat | ValidateCycle

text \<open>Coverage and capacity, owner by owner, grouping the owners by slot.\<close>

fun check_owners :: "ActivationPlan \<Rightarrow> (nat \<Rightarrow> nat option) \<Rightarrow> nat list \<Rightarrow> (nat \<times> nat list) list \<Rightarrow> ValidateError + (nat \<times> nat list) list" where
  "check_owners plan size_oracle [] by_slot = Inr by_slot"
| "check_owners plan size_oracle (v # vs) by_slot =
     (case map_of (assignments plan) v of
        None \<Rightarrow> Inl (MissingAssignment v)
      | Some sid \<Rightarrow>
          (case map_of (rev (map (\<lambda>s. (si_id s, capacity_bytes s)) (slots plan))) sid of
             None \<Rightarrow> Inl (UnknownSlot v sid)
           | Some cap \<Rightarrow>
               (case size_oracle v of
                  Some need \<Rightarrow>
                    if cap < need then Inl (UndersizedSlot v sid need cap)
                    else check_owners plan size_oracle vs (AList.update sid ((case map_of by_slot sid of None \<Rightarrow> [] | Some ms \<Rightarrow> ms) @ [v]) by_slot)
                | None \<Rightarrow> check_owners plan size_oracle vs (AList.update sid ((case map_of by_slot sid of None \<Rightarrow> [] | Some ms \<Rightarrow> ms) @ [v]) by_slot))))"

fun conflict_with :: "Liveness \<Rightarrow> nat \<Rightarrow> nat \<Rightarrow> nat list \<Rightarrow> ValidateError option option" where
  "conflict_with live sid a [] = Some None"
| "conflict_with live sid a (b # bs) =
     do { ia \<leftarrow> map_of (intervals live) a; ib \<leftarrow> map_of (intervals live) b;
          if overlaps ia ib then Some (Some (SlotConflict a b sid)) else conflict_with live sid a bs }"

fun slot_conflict :: "Liveness \<Rightarrow> nat \<Rightarrow> nat list \<Rightarrow> ValidateError option option" where
  "slot_conflict live sid [] = Some None"
| "slot_conflict live sid (a # ms) =
     do { r \<leftarrow> conflict_with live sid a ms; (case r of Some e \<Rightarrow> Some (Some e) | None \<Rightarrow> slot_conflict live sid ms) }"

fun check_slots :: "Liveness \<Rightarrow> (nat \<times> nat list) list \<Rightarrow> nat list \<Rightarrow> ValidateError option option" where
  "check_slots live by_slot [] = Some None"
| "check_slots live by_slot (sid # sids) =
     do { ms \<leftarrow> map_of by_slot sid; r \<leftarrow> slot_conflict live sid ms;
          (case r of Some e \<Rightarrow> Some (Some e) | None \<Rightarrow> check_slots live by_slot sids) }"

definition view_output_end :: "'w Graph \<Rightarrow> Liveness \<Rightarrow> nat \<Rightarrow> nat" where
  "view_output_end g live v = (if v \<in> set (goutputs g) then last_index live else 0)"

definition view_use :: "'w Graph \<Rightarrow> Liveness \<Rightarrow> nat \<Rightarrow> nat" where
  "view_use g live v =
     (let is = use_indices g (order_index live) v in
      if is = [] then view_output_end g live v else max (Max (set is)) (view_output_end g live v))"

fun check_views :: "'w Graph \<Rightarrow> ViewMap \<Rightarrow> Liveness \<Rightarrow> nat list \<Rightarrow> ValidateError option" where
  "check_views g m live [] = None"
| "check_views g m live (v # vs) =
     (if \<not> is_view m v then check_views g m live vs
      else case map_of (intervals live) (view_root m v) of
        None \<Rightarrow> check_views g m live vs
      | Some iv \<Rightarrow>
          if use_end iv < view_use g live v
          then Some (ViewOutlivesSource v (view_root m v) (view_use g live v) (use_end iv))
          else check_views g m live vs)"

definition validate_with ::
    "(nat list \<Rightarrow> nat list) \<Rightarrow> ActivationPlan \<Rightarrow> 'w Graph \<Rightarrow> ViewMap \<Rightarrow> (nat \<Rightarrow> nat option) \<Rightarrow> Liveness \<Rightarrow> (ValidateError + unit) option" where
  "validate_with ho plan g m size_oracle live =
     (case check_owners plan size_oracle (ho (map fst (intervals live))) [] of
        Inl e \<Rightarrow> Some (Inl e)
      | Inr by_slot \<Rightarrow>
          do { r \<leftarrow> check_slots live by_slot (ho (map fst by_slot));
               Some (case r of
                 Some e \<Rightarrow> Inl e
               | None \<Rightarrow> (case check_views g m live (arena_keys (gvalues g)) of Some e \<Rightarrow> Inl e | None \<Rightarrow> Inr ())) })"

definition validate_plan ::
    "(nat list \<Rightarrow> nat list) \<Rightarrow> ActivationPlan \<Rightarrow> 'w Graph \<Rightarrow> ViewMap \<Rightarrow> (nat \<Rightarrow> nat option) \<Rightarrow> bool \<Rightarrow> (ValidateError + unit) option" where
  "validate_plan ho plan g m size_oracle incl =
     do { r \<leftarrow> compute_liveness g m incl;
          (case r of Inl _ \<Rightarrow> Some (Inl ValidateCycle) | Inr live \<Rightarrow> validate_with ho plan g m size_oracle live) }"

definition validate_static :: "(nat list \<Rightarrow> nat list) \<Rightarrow> ActivationPlan \<Rightarrow> 'w Graph \<Rightarrow> ViewMap \<Rightarrow> bool \<Rightarrow> (ValidateError + unit) option" where
  "validate_static ho plan g m incl = validate_plan ho plan g m (static_size g) incl"

end
