(* ===== verification/IrGraphInv.thy ===== *)
theory IrGraphInv
  imports IrGraph
begin

text \<open>
  The links of the graph: the consumer set of a value is exactly the input slots that name it and its
  producer the one node that lists it as output. Every operation of the mutation interface keeps them,
  and validation then finds no defect in them.
\<close>

section \<open>The invariant\<close>

definition uses_slot :: "(nat \<rightharpoonup> Node) \<Rightarrow> nat \<Rightarrow> nat \<Rightarrow> nat \<Rightarrow> bool" where
  "uses_slot N n i v \<longleftrightarrow> (\<exists>nd. N n = Some nd \<and> i < length (inputs nd) \<and> inputs nd ! i = Some v)"

definition produces :: "(nat \<rightharpoonup> Node) \<Rightarrow> nat \<Rightarrow> nat \<Rightarrow> bool" where
  "produces N n v \<longleftrightarrow> (\<exists>nd. N n = Some nd \<and> v \<in> set (outputs nd))"

text \<open>The links of the values match the nodes \<open>N\<close>, which may differ from the graph's own while one of
  them is being wired.\<close>

definition value_linked :: "(nat \<rightharpoonup> Node) \<Rightarrow> nat \<Rightarrow> Value \<Rightarrow> bool" where
  "value_linked N v val \<longleftrightarrow>
     distinct (consumers val) \<and> (\<forall>n i. (n, i) \<in> set (consumers val) \<longleftrightarrow> uses_slot N n i v) \<and>
     (\<forall>n. producer val = Some n \<longleftrightarrow> produces N n v)"

definition node_linked :: "'w Graph \<Rightarrow> Node \<Rightarrow> bool" where
  "node_linked g nd \<longleftrightarrow>
     distinct (outputs nd) \<and> (\<forall>v \<in> set (outputs nd). try_value g v \<noteq> None) \<and> (\<forall>v. Some v \<in> set (inputs nd) \<longrightarrow> try_value g v \<noteq> None)"

definition linked :: "(nat \<rightharpoonup> Node) \<Rightarrow> 'w Graph \<Rightarrow> bool" where
  "linked N g \<longleftrightarrow>
     (\<forall>v val. try_value g v = Some val \<longrightarrow> value_linked N v val) \<and> (\<forall>n nd. N n = Some nd \<longrightarrow> node_linked g nd)"

definition io_ok :: "'w Graph \<Rightarrow> bool" where
  "io_ok g \<longleftrightarrow>
     (\<forall>v val. try_value g v = Some val \<longrightarrow>
        is_graph_input val = (v \<in> set (ginputs g)) \<and> is_graph_output val = (v \<in> set (goutputs g))) \<and>
     (\<forall>v \<in> set (ginputs g) \<union> set (goutputs g). try_value g v \<noteq> None)"

lemma io_live: "io_ok g \<Longrightarrow> v \<in> set (ginputs g) \<union> set (goutputs g) \<Longrightarrow> try_value g v \<noteq> None"
  by (simp add: io_ok_def)

definition arenas_ok :: "'w Graph \<Rightarrow> bool" where
  "arenas_ok g \<longleftrightarrow> arena_ok (gnodes g) \<and> arena_ok (gvalues g)"

definition graph_ok :: "'w Graph \<Rightarrow> bool" where
  "graph_ok g \<longleftrightarrow> arenas_ok g \<and> linked (try_node g) g \<and> io_ok g"

lemma linkedD:
  assumes "linked N g"
  shows "try_value g v = Some val \<Longrightarrow> value_linked N v val" "N n = Some nd \<Longrightarrow> node_linked g nd"
  using assms by (auto simp: linked_def)

lemma link_iff:
  assumes "linked N g" "try_value g v = Some val"
  shows "producer val = Some n \<longleftrightarrow> produces N n v" "(n, i) \<in> set (consumers val) \<longleftrightarrow> uses_slot N n i v"
  using linkedD(1) [OF assms] by (simp_all add: value_linked_def)

text \<open>A change of the graph that touches no membership flag and no list of inputs or outputs.\<close>

definition same_io :: "'w Graph \<Rightarrow> 'w Graph \<Rightarrow> bool" where
  "same_io g g' \<longleftrightarrow> ginputs g' = ginputs g \<and> goutputs g' = goutputs g \<and>
     (\<forall>v. map_option (\<lambda>val. (is_graph_input val, is_graph_output val)) (try_value g' v) =
          map_option (\<lambda>val. (is_graph_input val, is_graph_output val)) (try_value g v))"

lemma same_io_ok:
  assumes "same_io g g'" "io_ok g"
  shows "io_ok g'"
proof -
  have e: "ginputs g' = ginputs g" "goutputs g' = goutputs g" and
    f: "\<And>v. map_option (\<lambda>val. (is_graph_input val, is_graph_output val)) (try_value g' v) =
      map_option (\<lambda>val. (is_graph_input val, is_graph_output val)) (try_value g v)" using assms(1) by (auto simp: same_io_def)
  have "try_value g' v \<noteq> None" if "try_value g v \<noteq> None" for v using f [of v] that by (cases "try_value g' v") auto
  moreover have "is_graph_input val = (v \<in> set (ginputs g)) \<and> is_graph_output val = (v \<in> set (goutputs g))"
    if "try_value g' v = Some val" for v val
    using f [of v] that assms(2) by (cases "try_value g v") (auto simp: io_ok_def)
  ultimately show ?thesis using assms(2) by (simp add: io_ok_def e)
qed

lemma try_simps [simp]:
  "try_node (g\<lparr>gvalues := a\<rparr>) = try_node g" "try_value (g\<lparr>gnodes := b\<rparr>) = try_value g"
  "try_value (g\<lparr>gvalues := a\<rparr>) v = arena_get a v" "try_node (g\<lparr>gnodes := b\<rparr>) n = arena_get b n"
  "try_node (g\<lparr>ginputs := xs\<rparr>) = try_node g" "try_node (g\<lparr>goutputs := xs\<rparr>) = try_node g"
  "try_value (g\<lparr>ginputs := xs\<rparr>) = try_value g" "try_value (g\<lparr>goutputs := xs\<rparr>) = try_value g"
  by (simp_all add: try_node_def try_value_def fun_eq_iff)

lemma modify_values_get:
  assumes "\<And>x. f (f x) = f x"
  shows "arena_get (modify_values f vs a) v = (if v \<in> set vs then map_option f (arena_get a v) else arena_get a v)"
proof (induction vs arbitrary: a)
  case (Cons w vs)
  then show ?case using assms by (auto simp: arena_modify_ok(2) option.map_comp comp_def)
qed simp

lemma modify_values_ok: "arena_ok a \<Longrightarrow> arena_ok (modify_values f vs a)"
  by (induction vs arbitrary: a) (auto intro: arena_modify_ok(1))

section \<open>Wiring a node\<close>

definition naming :: "nat \<Rightarrow> nat \<Rightarrow> nat option list \<Rightarrow> nat \<Rightarrow> Usage set" where
  "naming n i ins v = {(n, i + j) | j. j < length ins \<and> ins ! j = Some v}"

lemma naming_simps [simp]:
  "naming n i [] v = {}"
  "naming n i (x # ins) v = (if x = Some v then {(n, i)} else {}) \<union> naming n (Suc i) ins v"
proof -
  have "p \<in> naming n i (x # ins) v \<longleftrightarrow> (\<exists>j < Suc (length ins). p = (n, i + j) \<and> (x # ins) ! j = Some v)" for p
    by (auto simp: naming_def)
  also have "\<dots> p \<longleftrightarrow> p \<in> (if x = Some v then {(n, i)} else {}) \<union> naming n (Suc i) ins v" for p
    by (auto simp: naming_def Ex_less_Suc2)
  finally show "naming n i (x # ins) v = (if x = Some v then {(n, i)} else {}) \<union> naming n (Suc i) ins v" by blast
qed (simp add: naming_def)

lemma wire_inputs_get:
  "arena_get (wire_inputs n i ins a) v = None \<longleftrightarrow> arena_get a v = None"
  "arena_get a v = Some val \<Longrightarrow> \<exists>us. arena_get (wire_inputs n i ins a) v = Some (val\<lparr>consumers := us\<rparr>) \<and>
    set us = set (consumers val) \<union> naming n i ins v \<and> (distinct (consumers val) \<longrightarrow> distinct us)"
proof -
  show "arena_get (wire_inputs n i ins a) v = None \<longleftrightarrow> arena_get a v = None"
    by (induction n i ins a rule: wire_inputs.induct) (auto simp: arena_modify_ok(2))
  show "\<exists>us. arena_get (wire_inputs n i ins a) v = Some (val\<lparr>consumers := us\<rparr>) \<and>
    set us = set (consumers val) \<union> naming n i ins v \<and> (distinct (consumers val) \<longrightarrow> distinct us)"
    if "arena_get a v = Some val"
    using that
  proof (induction n i ins a arbitrary: val rule: wire_inputs.induct)
    case (1 n i a)
    then show ?case by (intro exI [of _ "consumers val"]) simp
  next
    case (2 n i ins a)
    from "2.IH" [OF "2.prems"] show ?case by simp
  next
    case (3 n i w ins a)
    let ?us = "if w = v then consumers_insert (n, i) (consumers val) else consumers val"
    have "arena_get (arena_modify w (\<lambda>val. val\<lparr>consumers := consumers_insert (n, i) (consumers val)\<rparr>) a) v = Some (val\<lparr>consumers := ?us\<rparr>)"
      using "3.prems" by (auto simp: arena_modify_ok(2))
    from "3.IH" [OF this] obtain us where us: "arena_get (wire_inputs n i (Some w # ins) a) v = Some (val\<lparr>consumers := us\<rparr>)"
      "set us = set ?us \<union> naming n (Suc i) ins v" "distinct ?us \<longrightarrow> distinct us" by auto
    have "set ?us = set (consumers val) \<union> (if w = v then {(n, i)} else {})" "distinct (consumers val) \<longrightarrow> distinct ?us"
      by (auto simp: consumers_insert_def)
    with us show ?case by (intro exI [of _ us]) auto
  qed
qed

lemma wire_inputs_ok: "arena_ok a \<Longrightarrow> arena_ok (wire_inputs n i ins a)"
  by (induction n i ins a rule: wire_inputs.induct) (auto intro: arena_modify_ok(1))

lemma connect_linked:
  assumes l: "linked N g" and n: "N n = None" "try_node g n = Some nd"
    and new: "node_linked g nd" "\<And>v val. v \<in> set (outputs nd) \<Longrightarrow> try_value g v = Some val \<Longrightarrow> producer val = None"
    and c: "connect_edges g n = Some g'"
  shows "linked (N(n \<mapsto> nd)) g'" "try_node g' = try_node g" "same_io g g'" "arenas_ok g \<Longrightarrow> arenas_ok g'"
proof -
  let ?a = "wire_inputs n 0 (inputs nd) (gvalues g)"
  have g': "g' = g\<lparr>gvalues := modify_values (\<lambda>val. val\<lparr>producer := Some n\<rparr>) (outputs nd) ?a\<rparr>" using c n(2) by (simp add: connect_edges_def)
  show "try_node g' = try_node g" by (simp add: g')
  have get: "try_value g' v = (if v \<in> set (outputs nd) then map_option (\<lambda>val. val\<lparr>producer := Some n\<rparr>) (arena_get ?a v) else arena_get ?a v)" for v
    by (simp add: g' modify_values_get)
  have val: "\<exists>us. try_value g' v = Some (val\<lparr>consumers := us, producer := if v \<in> set (outputs nd) then Some n else producer val\<rparr>) \<and>
      set us = set (consumers val) \<union> naming n 0 (inputs nd) v \<and> (distinct (consumers val) \<longrightarrow> distinct us)"
    if "try_value g v = Some val" for v val
    using wire_inputs_get(2) [of "gvalues g" v val n 0 "inputs nd"] that by (auto simp: get try_value_def [of g])
  have live: "try_value g' v = None \<longleftrightarrow> try_value g v = None" for v
    by (simp add: get wire_inputs_get(1) try_value_def [of g])
  have uses: "uses_slot (N(n \<mapsto> nd)) m i v \<longleftrightarrow> uses_slot N m i v \<or> m = n \<and> i < length (inputs nd) \<and> inputs nd ! i = Some v" for m i v
    using n(1) by (auto simp: uses_slot_def)
  have prod: "produces (N(n \<mapsto> nd)) m v \<longleftrightarrow> produces N m v \<or> m = n \<and> v \<in> set (outputs nd)" for m v
    using n(1) by (auto simp: produces_def)
  have "value_linked (N(n \<mapsto> nd)) v val'" if v': "try_value g' v = Some val'" for v val'
  proof -
    obtain v0 where v0: "try_value g v = Some v0" using live [of v] v' by (cases "try_value g v") auto
    from val [OF v0] v' obtain us where val': "val' = v0\<lparr>consumers := us, producer := if v \<in> set (outputs nd) then Some n else producer v0\<rparr>"
      "set us = set (consumers v0) \<union> naming n 0 (inputs nd) v" "distinct (consumers v0) \<longrightarrow> distinct us" by auto
    note V = linkedD(1) [OF l v0]
    have "producer v0 = None" if "v \<in> set (outputs nd)" using new(2) [OF that v0] .
    with V val' show ?thesis by (auto simp: value_linked_def uses prod naming_def)
  qed
  moreover have "node_linked g' x" if "(N(n \<mapsto> nd)) m = Some x" for m x
    using that new(1) linkedD(2) [OF l, of m x] by (auto simp: node_linked_def live split: if_splits)
  ultimately show "linked (N(n \<mapsto> nd)) g'" by (auto simp: linked_def)
  show "same_io g g'" unfolding same_io_def
  proof (intro conjI allI)
    show "map_option (\<lambda>val. (is_graph_input val, is_graph_output val)) (try_value g' v) =
          map_option (\<lambda>val. (is_graph_input val, is_graph_output val)) (try_value g v)" for v
      using val [of v] live [of v] by (cases "try_value g v") auto
  qed (simp_all add: g')
  show "arenas_ok g \<Longrightarrow> arenas_ok g'" by (auto simp: arenas_ok_def g' intro: modify_values_ok wire_inputs_ok)
qed

section \<open>Rewiring one input\<close>

definition relink :: "nat \<Rightarrow> nat \<Rightarrow> nat option \<Rightarrow> nat option \<Rightarrow> nat \<Rightarrow> Usage list \<Rightarrow> Usage list" where
  "relink n i old new v us =
     (if old = new then us
      else if new = Some v then consumers_insert (n, i) us
      else if old = Some v then filter (\<lambda>u. u \<noteq> (n, i)) us else us)"

lemma relink_set:
  "distinct us \<Longrightarrow> distinct (relink n i old new v us)"
  "old \<noteq> new \<Longrightarrow> p \<in> set (relink n i old new v us) \<longleftrightarrow>
     (if p = (n, i) then new = Some v \<or> p \<in> set us \<and> old \<noteq> Some v else p \<in> set us)"
  by (auto simp: relink_def consumers_insert_def)

lemma replace_input_run:
  assumes "replace_input g n i w = Some (g', old)"
  obtains nd where "try_node g n = Some nd" "i < length (inputs nd)" "old = inputs nd ! i" "\<forall>v. w = Some v \<longrightarrow> try_value g v \<noteq> None"
    "try_node g' = (try_node g)(n \<mapsto> nd\<lparr>inputs := (inputs nd)[i := w]\<rparr>)"
    "\<forall>v. try_value g' v = map_option (\<lambda>val. val\<lparr>consumers := relink n i old w v (consumers val)\<rparr>) (try_value g v)"
    "ginputs g' = ginputs g" "goutputs g' = goutputs g" "arenas_ok g \<longrightarrow> arenas_ok g'" "initializers g' = initializers g"
proof -
  obtain nd where nd: "try_node g n = Some nd" using assms by (cases "try_node g n") (auto simp: replace_input_def)
  have c: "i < length (inputs nd)" "\<And>v. w = Some v \<Longrightarrow> try_value g v \<noteq> None" "old = inputs nd ! i"
    using assms nd by (auto simp: replace_input_def Let_def bind_eq_Some_conv split: if_splits option.splits)
  have upd: "try_node g'' = (try_node g)(n \<mapsto> nd\<lparr>inputs := (inputs nd)[i := w]\<rparr>)"
    if "gnodes g'' = arena_modify n (\<lambda>nd. nd\<lparr>inputs := (inputs nd)[i := w]\<rparr>) (gnodes g)" for g'' :: "'a Graph"
    using nd by (auto simp: try_node_def that arena_modify_ok(2) fun_eq_iff)
  show thesis
  proof (cases "old = w")
    case True
    then have "g' = g" using assms nd c by (auto simp: replace_input_def Let_def split: if_splits)
    then show thesis using True nd c by (intro that [of nd]) (auto simp: relink_def map_option_idI)
  next
    case False
    let ?N = "arena_modify n (\<lambda>nd. nd\<lparr>inputs := (inputs nd)[i := w]\<rparr>) (gnodes g)"
    let ?drop = "\<lambda>val. val\<lparr>consumers := filter (\<lambda>u. u \<noteq> (n, i)) (consumers val)\<rparr>"
    let ?add = "\<lambda>val. val\<lparr>consumers := consumers_insert (n, i) (consumers val)\<rparr>"
    let ?V1 = "case old of None \<Rightarrow> gvalues g | Some v \<Rightarrow> arena_modify v ?drop (gvalues g)"
    let ?V2 = "case w of None \<Rightarrow> ?V1 | Some v \<Rightarrow> arena_modify v ?add ?V1"
    have g': "g' = g\<lparr>gnodes := ?N, gvalues := ?V2\<rparr>" using assms nd c False
      by (auto simp: replace_input_def set_value_def Let_def bind_eq_Some_conv split: if_splits option.splits)
    have "arena_get ?V2 v = map_option (\<lambda>val. val\<lparr>consumers := relink n i old w v (consumers val)\<rparr>) (arena_get (gvalues g) v)" for v
      using False by (auto simp: relink_def arena_modify_ok(2) map_option_idI split: option.splits)
    moreover have "arena_ok ?V2" if "arena_ok (gvalues g)" using that by (auto intro: arena_modify_ok(1) split: option.splits)
    ultimately show thesis using nd c
      by (intro that [of nd]) (auto simp: g' upd try_value_def arenas_ok_def intro: arena_modify_ok(1))
  qed
qed

lemma replace_input_ok:
  assumes "graph_ok g" "replace_input g n i w = Some (g', old)"
  shows "graph_ok g'"
proof -
  from assms(2) obtain nd where nd: "try_node g n = Some nd" "i < length (inputs nd)" "old = inputs nd ! i" "\<forall>v. w = Some v \<longrightarrow> try_value g v \<noteq> None"
    and N: "try_node g' = (try_node g)(n \<mapsto> nd\<lparr>inputs := (inputs nd)[i := w]\<rparr>)"
    and V': "\<forall>v. try_value g' v = map_option (\<lambda>val. val\<lparr>consumers := relink n i old w v (consumers val)\<rparr>) (try_value g v)"
    and io: "ginputs g' = ginputs g" "goutputs g' = goutputs g" "arenas_ok g \<longrightarrow> arenas_ok g'" "initializers g' = initializers g"
    by (rule replace_input_run)
  note V = V' [rule_format]
  have l: "linked (try_node g) g" and ar: "arenas_ok g'" using assms(1) io(3) by (auto simp: graph_ok_def)
  have live: "try_value g' v = None \<longleftrightarrow> try_value g v = None" for v by (simp add: V)
  have uses: "uses_slot (try_node g') m j v \<longleftrightarrow> (if (m, j) = (n, i) then w = Some v else uses_slot (try_node g) m j v)" for m j v
    using nd by (auto simp: uses_slot_def N nth_list_update)
  have prod: "produces (try_node g') m v \<longleftrightarrow> produces (try_node g) m v" for m v
    using nd by (auto simp: produces_def N)
  have here: "uses_slot (try_node g) n i v \<longleftrightarrow> old = Some v" for v using nd by (auto simp: uses_slot_def)
  have "value_linked (try_node g') v val'" if v': "try_value g' v = Some val'" for v val'
  proof -
    obtain v0 where v0: "try_value g v = Some v0" and val': "val' = v0\<lparr>consumers := relink n i old w v (consumers v0)\<rparr>"
      using v' by (auto simp: V)
    note L = linkedD(1) [OF l v0]
    show ?thesis
    proof (cases "old = w")
      case True
      with L show ?thesis by (auto simp: value_linked_def val' relink_def uses prod here)
    next
      case False
      with L show ?thesis by (auto simp: value_linked_def val' relink_set uses prod here)
    qed
  qed
  moreover have "node_linked g' x" if "try_node g' m = Some x" for m x
  proof (cases "m = n")
    case True
    have x: "x = nd\<lparr>inputs := (inputs nd)[i := w]\<rparr>" using that True by (simp add: N)
    have "try_value g v \<noteq> None" if "Some v \<in> set ((inputs nd)[i := w])" for v
      using set_update_subset_insert [THEN subsetD, OF that] nd(4) linkedD(2) [OF l nd(1)] by (auto simp: node_linked_def)
    then show ?thesis using linkedD(2) [OF l nd(1)] by (simp add: node_linked_def x live)
  next
    case False
    then show ?thesis using that linkedD(2) [OF l, of m x] by (simp add: node_linked_def live N)
  qed
  moreover have "io_ok g'"
    by (rule same_io_ok [of g]) (use assms(1) in \<open>auto simp: same_io_def io V option.map_comp comp_def graph_ok_def\<close>)
  ultimately show ?thesis using ar by (auto simp: graph_ok_def linked_def)
qed

lemma replace_input_total:
  assumes "graph_ok g" "try_node g n = Some nd" "i < length (inputs nd)" "\<And>v. w = Some v \<Longrightarrow> try_value g v \<noteq> None"
  obtains g' where "replace_input g n i w = Some (g', inputs nd ! i)"
proof -
  have "try_value g v \<noteq> None" if "inputs nd ! i = Some v" for v
    using assms that by (auto simp: graph_ok_def linked_def node_linked_def) (metis nth_mem)
  then have "\<exists>g'. replace_input g n i w = Some (g', inputs nd ! i)" using assms(2-4)
    by (auto simp: replace_input_def set_value_def Let_def arena_modify_ok(2) try_value_def split: option.splits)
  then show thesis using that by blast
qed

section \<open>Detaching a node\<close>

lemma clear_inputs_run:
  assumes "graph_ok g" "try_node g n = Some nd" "set is \<subseteq> {..<length (inputs nd)}"
  shows "\<exists>g' ins. clear_inputs g n is = Some g' \<and> graph_ok g' \<and> try_node g' n = Some (nd\<lparr>inputs := ins\<rparr>) \<and> (\<forall>m. m \<noteq> n \<longrightarrow> try_node g' m = try_node g m) \<and>
    length ins = length (inputs nd) \<and> (\<forall>i < length ins. ins ! i = (if i \<in> set is then None else inputs nd ! i)) \<and>
    same_io g g' \<and> initializers g' = initializers g \<and>
    (\<forall>v. map_option producer (try_value g' v) = map_option producer (try_value g v))"
  using assms
proof (induction "is" arbitrary: g nd)
  case Nil
  then show ?case by (intro exI [of _ g] exI [of _ "inputs nd"]) (auto simp: same_io_def)
next
  case (Cons i "is")
  obtain g1 where r: "replace_input g n i None = Some (g1, inputs nd ! i)"
    using Cons.prems by (auto intro: replace_input_total [of g n nd i None])
  let ?nd = "nd\<lparr>inputs := (inputs nd)[i := None]\<rparr>"
  obtain nd' where nd': "try_node g n = Some nd'" and N: "try_node g1 = (try_node g)(n \<mapsto> nd'\<lparr>inputs := (inputs nd')[i := None]\<rparr>)"
    and V: "\<forall>v. try_value g1 v = map_option (\<lambda>val. val\<lparr>consumers := relink n i (inputs nd ! i) None v (consumers val)\<rparr>) (try_value g v)"
    and io: "ginputs g1 = ginputs g" "goutputs g1 = goutputs g" "initializers g1 = initializers g" using r by (elim replace_input_run) blast
  have N1: "try_node g1 = (try_node g)(n \<mapsto> ?nd)" using N nd' Cons.prems(2) by simp
  then have "try_node g1 n = Some ?nd" by simp
  moreover have "set is \<subseteq> {..<length (inputs ?nd)}" using Cons.prems(3) by simp
  ultimately obtain g' ins where IH: "clear_inputs g1 n is = Some g'" "graph_ok g'" "try_node g' n = Some (nd\<lparr>inputs := ins\<rparr>)" "\<forall>m. m \<noteq> n \<longrightarrow> try_node g' m = try_node g1 m"
    "length ins = length (inputs nd)" "\<forall>i' < length ins. ins ! i' = (if i' \<in> set is then None else (inputs nd)[i := None] ! i')"
    "same_io g1 g'" "initializers g' = initializers g1" "\<forall>v. map_option producer (try_value g' v) = map_option producer (try_value g1 v)"
    using Cons.IH [OF replace_input_ok [OF Cons.prems(1) r], of ?nd] by auto
  have "same_io g g'" using IH(7) by (auto simp: same_io_def io V option.map_comp comp_def)
  moreover have "\<forall>i' < length ins. ins ! i' = (if i' \<in> set (i # is) then None else inputs nd ! i')"
    using IH(5,6) Cons.prems(3) by (auto simp: nth_list_update)
  ultimately show ?case using IH r io N1 V
    by (intro exI [of _ g'] exI [of _ ins]) (simp add: option.map_comp comp_def)
qed

lemma disconnect_run:
  assumes "graph_ok g" "try_node g n = Some nd"
  obtains g' nd' where "disconnect_edges g n = Some g'" "linked ((try_node g)(n := None)) g'" "try_node g' = (try_node g)(n \<mapsto> nd')"
    "outputs nd' = outputs nd" "arenas_ok g'" "same_io g g'" "initializers g' = initializers g"
    "\<forall>v. map_option producer (try_value g' v) = map_option (\<lambda>val. if v \<in> set (outputs nd) then None else producer val) (try_value g v)"
proof -
  obtain g1 ins where g1: "clear_inputs g n [0..<length (inputs nd)] = Some g1" "graph_ok g1"
    "try_node g1 n = Some (nd\<lparr>inputs := ins\<rparr>)" "\<forall>m. m \<noteq> n \<longrightarrow> try_node g1 m = try_node g m" "length ins = length (inputs nd)" "\<forall>i < length ins. ins ! i = None"
    "same_io g g1" "initializers g1 = initializers g" "\<forall>v. map_option producer (try_value g1 v) = map_option producer (try_value g v)"
    using clear_inputs_run [OF assms, of "[0..<length (inputs nd)]"] by (auto simp: atLeast0LessThan)
  define f where "f = (\<lambda>val::Value. if producer val = Some n then val\<lparr>producer := None\<rparr> else val)"
  define g' where "g' = g1\<lparr>gvalues := modify_values f (outputs nd) (gvalues g1)\<rparr>"
  have "f (f x) = f x" for x by (simp add: f_def)
  then have V: "try_value g' v = (if v \<in> set (outputs nd) then map_option f (try_value g1 v) else try_value g1 v)" for v
    by (simp add: g'_def modify_values_get try_value_def [of g1])
  have d: "disconnect_edges g n = Some g'" using assms g1 by (simp add: disconnect_edges_def g'_def f_def)
  have l1: "linked (try_node g1) g1" using g1(2) by (simp add: graph_ok_def)
  have prod1: "producer val = Some n \<longleftrightarrow> v \<in> set (outputs nd)" if "try_value g1 v = Some val" for v val
    using linkedD(1) [OF l1 that] g1(3) by (auto simp: value_linked_def produces_def)
  have V': "try_value g' v = map_option (\<lambda>val. if v \<in> set (outputs nd) then val\<lparr>producer := None\<rparr> else val) (try_value g1 v)" for v
    using prod1 [of v] by (cases "try_value g1 v") (auto simp: V f_def)
  have noslot: "\<not> uses_slot (try_node g1) n i v" for i v using g1(3,6) by (auto simp: uses_slot_def)
  have uses: "uses_slot ((try_node g)(n := None)) m i v \<longleftrightarrow> uses_slot (try_node g1) m i v" for m i v
    using noslot [of i v] g1(3,4) by (cases "m = n") (auto simp: uses_slot_def)
  have prod: "produces ((try_node g)(n := None)) m v \<longleftrightarrow> m \<noteq> n \<and> produces (try_node g1) m v" for m v
    using g1(3,4) by (auto simp: produces_def)
  have "value_linked ((try_node g)(n := None)) v val'" if v': "try_value g' v = Some val'" for v val'
  proof -
    obtain v1 where v1: "try_value g1 v = Some v1" "val' = (if v \<in> set (outputs nd) then v1\<lparr>producer := None\<rparr> else v1)"
      using v' by (auto simp: V')
    have L: "distinct (consumers v1)" "\<And>m i. (m, i) \<in> set (consumers v1) \<longleftrightarrow> uses_slot (try_node g1) m i v"
      "\<And>m. producer v1 = Some m \<longleftrightarrow> produces (try_node g1) m v"
      using linkedD(1) [OF l1 v1(1)] by (auto simp: value_linked_def)
    show ?thesis
    proof (cases "v \<in> set (outputs nd)")
      case True
      then have "producer v1 = Some n" using prod1 [OF v1(1)] by simp
      then have "\<not> produces ((try_node g)(n := None)) m v" for m using L(3) [of m] by (auto simp: prod)
      then show ?thesis using L(1,2) True by (simp add: value_linked_def v1(2) uses)
    next
      case False
      then have "producer v1 \<noteq> Some n" using prod1 [OF v1(1)] by simp
      then show ?thesis using L False by (auto simp: value_linked_def v1(2) uses prod)
    qed
  qed
  moreover have "node_linked g' x" if "((try_node g)(n := None)) m = Some x" for m x
    using that linkedD(2) [OF l1, of m x] g1(4) by (auto simp: node_linked_def V' split: if_splits)
  ultimately have "linked ((try_node g)(n := None)) g'" by (auto simp: linked_def)
  moreover have "arenas_ok g'" using g1(2) by (auto simp: graph_ok_def arenas_ok_def g'_def intro: modify_values_ok)
  moreover have "ginputs g' = ginputs g1" "goutputs g' = goutputs g1" by (simp_all add: g'_def)
  then have "same_io g g'" using g1(7) by (auto simp: same_io_def V' option.map_comp comp_def if_distrib cong: if_cong)
  moreover have "map_option producer (try_value g' v) = map_option (\<lambda>val. if v \<in> set (outputs nd) then None else producer val) (try_value g v)" for v
    using g1(9) [rule_format, of v] by (cases "try_value g v"; cases "try_value g1 v") (auto simp: V')
  moreover have "try_node g' = (try_node g)(n \<mapsto> nd\<lparr>inputs := ins\<rparr>)" using g1(3,4) by (auto simp: fun_eq_iff g'_def)
  ultimately show thesis using d g1(8) by (intro that [of g' "nd\<lparr>inputs := ins\<rparr>"]) (assumption | simp add: g'_def)+
qed

section \<open>The mutation interface\<close>

lemma same_links:
  assumes "linked N g" "\<And>v. map_option (\<lambda>val. (producer val, consumers val)) (try_value g' v) = map_option (\<lambda>val. (producer val, consumers val)) (try_value g v)"
  shows "linked N g'"
proof -
  have live: "try_value g' v = None \<longleftrightarrow> try_value g v = None" for v
    using assms(2) [of v] by (cases "try_value g v"; cases "try_value g' v") auto
  have "value_linked N v val" if "try_value g' v = Some val" for v val
    using assms(2) [of v] that assms(1) by (cases "try_value g v") (auto simp: linked_def value_linked_def)
  moreover have "node_linked g' nd" if "N n = Some nd" for n nd
    using linkedD(2) [OF assms(1) that] by (simp add: node_linked_def live)
  ultimately show ?thesis by (simp add: linked_def)
qed

text \<open>Collecting an orphan: nothing names it.\<close>

lemma gc_value_ok:
  assumes "graph_ok g"
  shows "graph_ok (gc_value_if_orphan g v)" "try_node (gc_value_if_orphan g v) = try_node g"
    "ginputs (gc_value_if_orphan g v) = ginputs g" "goutputs (gc_value_if_orphan g v) = goutputs g"
    "initializers (gc_value_if_orphan g v) = initializers g"
    "w \<noteq> v \<Longrightarrow> try_value (gc_value_if_orphan g v) w = try_value g w"
    "try_value (gc_value_if_orphan g v) v = (if is_orphan g v then None else try_value g v)"
proof -
  let ?g = "gc_value_if_orphan g v"
  obtain r a where a: "arena_remove v (gvalues g) = (r, a)" by force
  have av: "arena_ok (gvalues g)" and l: "linked (try_node g) g" and io: "io_ok g" using assms by (auto simp: graph_ok_def arenas_ok_def)
  note rem = arena_remove_ok [OF av a]
  show sn: "try_node ?g = try_node g" "ginputs ?g = ginputs g" "goutputs ?g = goutputs g" "initializers ?g = initializers g"
    by (auto simp: gc_value_if_orphan_def try_node_def fun_eq_iff)
  have V: "try_value ?g w = (if is_orphan g v \<and> w = v then None else try_value g w)" for w
    by (simp add: gc_value_if_orphan_def a try_value_def rem(3))
  then show "w \<noteq> v \<Longrightarrow> try_value ?g w = try_value g w" "try_value ?g v = (if is_orphan g v then None else try_value g v)" by auto
  show "graph_ok ?g"
  proof (cases "is_orphan g v")
    case False
    then show ?thesis using assms by (simp add: gc_value_if_orphan_def)
  next
    case True
    then obtain val where val: "try_value g v = Some val" "producer val = None" "consumers val = []" "\<not> is_graph_input val" "\<not> is_graph_output val"
      by (auto simp: is_orphan_def split: option.splits)
    have free: "\<not> uses_slot (try_node g) n i v" "\<not> produces (try_node g) n v" for n i
      using linkedD(1) [OF l val(1)] val by (auto simp: value_linked_def)
    have "node_linked ?g nd" if n: "try_node g n = Some nd" for n nd
    proof -
      have "v \<notin> set (outputs nd)" using free(2) [of n] n by (auto simp: produces_def)
      moreover have "Some v \<notin> set (inputs nd)" using free(1) [of n] n by (auto simp: uses_slot_def in_set_conv_nth)
      ultimately show ?thesis using linkedD(2) [OF l n] by (auto simp: node_linked_def V)
    qed
    moreover have "value_linked (try_node g) w x" if "try_value ?g w = Some x" for w x
      using that linkedD(1) [OF l, of w x] by (auto simp: V split: if_splits)
    moreover have "v \<notin> set (ginputs g) \<union> set (goutputs g)" using io val by (auto simp: io_ok_def)
    then have "io_ok ?g" using io by (auto simp: io_ok_def V sn split: if_splits)
    moreover have "arenas_ok ?g" using assms rem(1) by (auto simp: graph_ok_def arenas_ok_def gc_value_if_orphan_def a)
    ultimately show ?thesis by (simp add: graph_ok_def linked_def sn)
  qed
qed

lemma gc_values_ok:
  "graph_ok g \<Longrightarrow> graph_ok (fold (\<lambda>v g. gc_value_if_orphan g v) vs g) \<and>
     try_node (fold (\<lambda>v g. gc_value_if_orphan g v) vs g) = try_node g"
  by (induction vs arbitrary: g) (simp_all add: gc_value_ok)

lemma remove_node_ok:
  assumes "graph_ok g"
  obtains g' where "remove_node g n = Some g'" "graph_ok g'" "try_node g' = (try_node g)(n := None)"
proof (cases "try_node g n")
  case None
  then show thesis using assms by (intro that [of g]) (auto simp: remove_node_def)
next
  case (Some nd)
  obtain g1 nd' where d: "disconnect_edges g n = Some g1" "linked ((try_node g)(n := None)) g1" "try_node g1 = (try_node g)(n \<mapsto> nd')"
    "outputs nd' = outputs nd" "arenas_ok g1" "same_io g g1" "initializers g1 = initializers g" using disconnect_run [OF assms Some] by metis
  obtain r a where a: "arena_remove n (gnodes g1) = (r, a)" by force
  have an: "arena_ok (gnodes g1)" using d(5) by (simp add: arenas_ok_def)
  note rem = arena_remove_ok [OF an a]
  let ?g = "g1\<lparr>gnodes := a\<rparr>"
  have N: "try_node ?g = (try_node g)(n := None)"
  proof
    show "try_node ?g m = ((try_node g)(n := None)) m" for m
      using fun_cong [OF d(3), of m] by (simp add: rem(3) try_node_def [of g1] split: if_splits)
  qed
  have "linked (try_node ?g) ?g" unfolding N using d(2) by (rule same_links) simp
  moreover have "io_ok ?g" by (rule same_io_ok [of g]) (use d(6) assms in \<open>auto simp: same_io_def graph_ok_def\<close>)
  ultimately have ok: "graph_ok ?g" using d(5) rem(1) by (simp add: graph_ok_def arenas_ok_def)
  have "remove_node g n = Some (fold (\<lambda>v g. gc_value_if_orphan g v) (outputs nd') ?g)"
    using Some d(1,3) a by (simp add: remove_node_def)
  then show thesis by (rule that) (use gc_values_ok [OF ok] N in auto)
qed

lemma connect_total: "try_node g n \<noteq> None \<Longrightarrow> \<exists>g'. connect_edges g n = Some g'"
  by (auto simp: connect_edges_def)

lemma graph_okI: "arenas_ok g \<Longrightarrow> linked (try_node g) g \<Longrightarrow> io_ok g \<Longrightarrow> graph_ok g"
  by (simp add: graph_ok_def)

text \<open>A node may be inserted when it names live values, and outputs no other node produces.\<close>

definition wirable :: "'w Graph \<Rightarrow> Node \<Rightarrow> nat option \<Rightarrow> bool" where
  "wirable g nd self \<longleftrightarrow> node_linked g nd \<and> (\<forall>v \<in> set (outputs nd). producer_of g v = None \<or> producer_of g v = self)"

lemma insert_node_ok:
  assumes "graph_ok g" "wirable g nd None"
  obtains g' n where "insert_node g nd = Some (g', n)" "graph_ok g'" "try_node g n = None" "try_node g' = (try_node g)(n \<mapsto> nd\<lparr>nd_id := n\<rparr>)"
    "goutputs g' = goutputs g" "ginputs g' = ginputs g"
proof -
  obtain n a where a: "insert_with (\<lambda>nid. nd\<lparr>nd_id := nid\<rparr>) (gnodes g) = (n, a)" by force
  have "arena_ok (gnodes g)" using assms(1) by (simp add: graph_ok_def arenas_ok_def)
  note ins = insert_with_ok [OF this a]
  let ?g = "g\<lparr>gnodes := a\<rparr>" and ?nd = "nd\<lparr>nd_id := n\<rparr>"
  have fresh: "try_node g n = None" and n: "try_node ?g n = Some ?nd" using ins by (simp_all add: try_node_def)
  obtain g' where c: "connect_edges ?g n = Some g'" using connect_total [of ?g n] n by auto
  have l: "linked (try_node g) ?g" using assms(1) by (auto simp: graph_ok_def intro: same_links)
  have "node_linked ?g ?nd" "producer val = None" if "v \<in> set (outputs ?nd)" "try_value ?g v = Some val" for v val
    using assms(2) that by (auto simp: wirable_def node_linked_def producer_of_def)
  moreover have "node_linked ?g ?nd" using assms(2) by (simp add: wirable_def node_linked_def)
  ultimately have cl: "linked ((try_node g)(n \<mapsto> ?nd)) g'" "try_node g' = try_node ?g" "same_io ?g g'" "arenas_ok ?g \<Longrightarrow> arenas_ok g'"
    using connect_linked [OF l fresh n _ _ c] by blast+
  have N: "try_node g' = (try_node g)(n \<mapsto> ?nd)" using ins by (auto simp: cl(2) fun_eq_iff try_node_def [of g])
  have "io_ok g'" by (rule same_io_ok [OF cl(3)]) (use assms(1) in \<open>simp add: graph_ok_def io_ok_def\<close>)
  moreover have "arenas_ok g'" using cl(4) ins(1) assms(1) by (simp add: graph_ok_def arenas_ok_def)
  ultimately have "graph_ok g'" using cl(1) N by (simp add: graph_ok_def)
  moreover have "goutputs g' = goutputs g" "ginputs g' = ginputs g" using cl(3) by (auto simp: same_io_def)
  ultimately show thesis using a c fresh N by (intro that [of g' n]) (simp_all add: insert_node_def)
qed

lemma replace_node_ok:
  assumes "graph_ok g" "try_node g n = Some nd0" "wirable g nd (Some n)"
  obtains g' where "replace_node g n nd = Some (g', n)" "graph_ok g'" "try_node g' = (try_node g)(n \<mapsto> nd\<lparr>nd_id := n\<rparr>)"
proof -
  obtain g1 nd' where d: "disconnect_edges g n = Some g1" "linked ((try_node g)(n := None)) g1" "try_node g1 = (try_node g)(n \<mapsto> nd')"
    "arenas_ok g1" "same_io g g1"
    "\<forall>v. map_option producer (try_value g1 v) = map_option (\<lambda>val. if v \<in> set (outputs nd0) then None else producer val) (try_value g v)"
    using disconnect_run [OF assms(1,2)] by metis
  let ?nd = "nd\<lparr>nd_id := n\<rparr>"
  define g2 where "g2 = g1\<lparr>gnodes := arena_modify n (\<lambda>_. ?nd) (gnodes g1)\<rparr>"
  have l0: "linked (try_node g) g" using assms(1) by (simp add: graph_ok_def)
  have n2: "try_node g2 = (try_node g)(n \<mapsto> ?nd)"
  proof
    show "try_node g2 m = ((try_node g)(n \<mapsto> ?nd)) m" for m
      using fun_cong [OF d(3), of m] by (auto simp: g2_def arena_modify_ok(2) try_node_def [of g1])
  qed
  then have n2n: "try_node g2 n = Some ?nd" by simp
  have v2: "try_value g2 = try_value g1" by (simp add: g2_def)
  have live: "try_value g1 v = None \<longleftrightarrow> try_value g v = None" for v
    using d(6) [rule_format, of v] by (cases "try_value g1 v"; cases "try_value g v") auto
  have l: "linked ((try_node g)(n := None)) g2" using d(2) by (rule same_links) (simp add: v2)
  obtain g' where c: "connect_edges g2 n = Some g'" using connect_total [of g2 n] by (auto simp: n2)
  have "node_linked g2 ?nd" using assms(3) by (simp add: wirable_def node_linked_def v2 live)
  moreover have "producer val = None" if v: "v \<in> set (outputs ?nd)" "try_value g2 v = Some val" for v val
  proof -
    obtain v0 where v0: "try_value g v = Some v0" using live [of v] v(2) by (cases "try_value g v") (auto simp: v2)
    have p: "producer val = (if v \<in> set (outputs nd0) then None else producer v0)" using d(6) [rule_format, of v] v(2) v0 by (simp add: v2)
    have "producer v0 = Some n \<Longrightarrow> v \<in> set (outputs nd0)" using link_iff(1) [OF l0 v0, of n] assms(2) by (auto simp: produces_def)
    moreover have "producer v0 = None \<or> producer v0 = Some n" using assms(3) v(1) v0 by (auto simp: wirable_def producer_of_def)
    ultimately show ?thesis using p by auto
  qed
  ultimately have cl: "linked ((try_node g)(n := None, n \<mapsto> ?nd)) g'" "try_node g' = try_node g2" "same_io g2 g'" "arenas_ok g2 \<Longrightarrow> arenas_ok g'"
    using connect_linked [OF l fun_upd_same n2n _ _ c] by blast+
  have "same_io g g2" using d(5) by (simp add: same_io_def v2) (simp add: g2_def)
  then have "io_ok g'" using assms(1) by (intro same_io_ok [OF cl(3)] same_io_ok [of g g2]) (auto simp: graph_ok_def)
  moreover have "arenas_ok g'" using d(4) by (intro cl(4)) (auto simp: arenas_ok_def g2_def intro: arena_modify_ok(1))
  ultimately have "graph_ok g'" using cl(1) by (simp add: graph_ok_def cl(2) n2)
  moreover have "replace_node g n nd = Some (g', n)" using assms(2) d(1) c by (simp add: replace_node_def g2_def)
  ultimately show thesis using cl(2) n2 by (intro that) auto
qed

section \<open>Redirecting the uses of a value\<close>

definition redirected :: "Usage list \<Rightarrow> nat \<Rightarrow> nat \<Rightarrow> Node \<Rightarrow> Node" where
  "redirected us new n nd = nd\<lparr>inputs := map (\<lambda>i. if (n, i) \<in> set us then Some new else inputs nd ! i) [0..<length (inputs nd)]\<rparr>"

lemma redirected_step:
  "i < length (inputs nd) \<Longrightarrow> redirected us new n (nd\<lparr>inputs := (inputs nd)[i := Some new]\<rparr>) = redirected ((n, i) # us) new n nd"
  "m \<noteq> n \<Longrightarrow> redirected ((n, i) # us) new m nd = redirected us new m nd"
  by (auto simp: redirected_def nth_list_update intro!: Node.equality nth_equalityI)

lemma redirected_Nil [simp]: "redirected [] new n nd = nd"
  by (simp add: redirected_def map_nth)

lemma redirect_uses_run:
  assumes "graph_ok g" "try_value g new \<noteq> None" "distinct us" "\<And>n i. (n, i) \<in> set us \<Longrightarrow> uses_slot (try_node g) n i old"
  shows "\<exists>g'. redirect_uses g new us = Some g' \<and> graph_ok g' \<and> same_io g g' \<and> initializers g' = initializers g \<and>
    (\<forall>m. try_node g' m = map_option (redirected us new m) (try_node g m)) \<and>
    (\<forall>v. map_option producer (try_value g' v) = map_option producer (try_value g v))"
  using assms
proof (induction us arbitrary: g)
  case Nil
  then show ?case by (simp add: same_io_def map_option_idI)
next
  case (Cons u us)
  obtain n i where u: "u = (n, i)" by force
  obtain nd where nd: "try_node g n = Some nd" "i < length (inputs nd)" using Cons.prems(4) [of n i] by (auto simp: u uses_slot_def)
  obtain g1 where r: "replace_input g n i (Some new) = Some (g1, inputs nd ! i)"
    using replace_input_total [OF Cons.prems(1) nd, of "Some new"] Cons.prems(2) by auto
  obtain nd1 where nd1: "try_node g n = Some nd1" and N: "try_node g1 = (try_node g)(n \<mapsto> nd1\<lparr>inputs := (inputs nd1)[i := Some new]\<rparr>)"
    and V: "\<forall>v. try_value g1 v = map_option (\<lambda>val. val\<lparr>consumers := relink n i (inputs nd ! i) (Some new) v (consumers val)\<rparr>) (try_value g v)"
    and io: "ginputs g1 = ginputs g" "goutputs g1 = goutputs g" "initializers g1 = initializers g" using r by (elim replace_input_run) blast
  have [simp]: "nd1 = nd" using nd1 nd by simp
  have still: "uses_slot (try_node g1) m j old" if "(m, j) \<in> set us" for m j
    using Cons.prems(3) Cons.prems(4) [of m j] that nd by (auto simp: u uses_slot_def N nth_list_update)
  have "distinct us" "try_value g1 new \<noteq> None" using Cons.prems(2,3) V by simp_all
  from Cons.IH [OF replace_input_ok [OF Cons.prems(1) r] this(2,1) still] obtain g' where
    IH: "redirect_uses g1 new us = Some g'" "graph_ok g'" "same_io g1 g'" "initializers g' = initializers g1"
      "\<And>m. try_node g' m = map_option (redirected us new m) (try_node g1 m)"
      "\<And>v. map_option producer (try_value g' v) = map_option producer (try_value g1 v)" by auto
  have "try_node g' m = map_option (redirected (u # us) new m) (try_node g m)" for m
    using nd redirected_step(1) [OF nd(2)] redirected_step(2) [of m n i us new]
    by (cases "m = n"; cases "try_node g m") (auto simp: IH(5) N u)
  moreover have "same_io g g'" using IH(3) by (auto simp: same_io_def io V option.map_comp comp_def)
  ultimately show ?case using IH r nd V io by (auto simp: u option.map_comp comp_def)
qed

text \<open>After the redirection the old value has no reader and is no graph output; the rest is unchanged.\<close>

definition subst_value :: "nat \<Rightarrow> nat \<Rightarrow> nat \<Rightarrow> nat" where
  "subst_value old new v = (if v = old then new else v)"

lemma set_io_get:
  assumes "\<And>x. f (f x) = f x" "\<And>x. h (h x) = h x"
  shows "arena_get (modify_values f vs (modify_values h ws a)) v =
    map_option (\<lambda>val. let val' = (if v \<in> set ws then h val else val) in if v \<in> set vs then f val' else val') (arena_get a v)"
  using assms by (auto simp: modify_values_get option.map_comp comp_def map_option_idI)

lemma set_outputs_ok:
  assumes "graph_ok g" "\<forall>v \<in> set vs. try_value g v \<noteq> None"
  obtains g' where "set_outputs g vs = Some g'" "graph_ok g'" "try_node g' = try_node g" "goutputs g' = vs" "ginputs g' = ginputs g"
    "\<forall>v. map_option producer (try_value g' v) = map_option producer (try_value g v)" "initializers g' = initializers g"
proof -
  let ?a = "modify_values (\<lambda>val. val\<lparr>is_graph_output := True\<rparr>) vs (modify_values (\<lambda>val. val\<lparr>is_graph_output := False\<rparr>) (goutputs g) (gvalues g))"
  define g1 where "g1 = g\<lparr>gvalues := ?a, goutputs := vs\<rparr>"
  have same: "try_node g1 = try_node g" "ginputs g1 = ginputs g" "goutputs g1 = vs" "initializers g1 = initializers g" "gnodes g1 = gnodes g" "gvalues g1 = ?a" by (simp_all add: g1_def)
  have V: "try_value g1 v = map_option (\<lambda>val. val\<lparr>is_graph_output := v \<in> set vs \<or> v \<notin> set (goutputs g) \<and> is_graph_output val\<rparr>) (try_value g v)" for v
    by (cases "try_value g v") (auto simp: set_io_get try_value_def g1_def)
  have "linked (try_node g) g1" using assms(1)
    by (auto simp: graph_ok_def V option.map_comp comp_def intro!: same_links [of "try_node g" g])
  moreover have "io_ok g1" using assms by (auto simp: graph_ok_def io_ok_def same V)
  moreover have "arenas_ok g1" using assms(1) by (auto simp: graph_ok_def arenas_ok_def same intro!: modify_values_ok)
  ultimately have "graph_ok g1" by (simp add: graph_ok_def same)
  then show thesis using assms(2) by (intro that [of g1]) (auto simp: set_outputs_def same g1_def [symmetric] V option.map_comp comp_def)
qed

lemma set_inputs_ok:
  assumes "graph_ok g" "\<forall>v \<in> set vs. try_value g v \<noteq> None"
  obtains g' where "set_inputs g vs = Some g'" "graph_ok g'" "try_node g' = try_node g" "ginputs g' = vs"
proof -
  let ?a = "modify_values (\<lambda>val. val\<lparr>is_graph_input := True\<rparr>) vs (modify_values (\<lambda>val. val\<lparr>is_graph_input := False\<rparr>) (ginputs g) (gvalues g))"
  define g1 where "g1 = g\<lparr>gvalues := ?a, ginputs := vs\<rparr>"
  have same: "try_node g1 = try_node g" "goutputs g1 = goutputs g" "ginputs g1 = vs" "initializers g1 = initializers g" "gnodes g1 = gnodes g" "gvalues g1 = ?a" by (simp_all add: g1_def)
  have V: "try_value g1 v = map_option (\<lambda>val. val\<lparr>is_graph_input := v \<in> set vs \<or> v \<notin> set (ginputs g) \<and> is_graph_input val\<rparr>) (try_value g v)" for v
    by (cases "try_value g v") (auto simp: set_io_get try_value_def g1_def)
  have "linked (try_node g) g1" using assms(1)
    by (auto simp: graph_ok_def V option.map_comp comp_def intro!: same_links [of "try_node g" g])
  moreover have "io_ok g1" using assms by (auto simp: graph_ok_def io_ok_def same V)
  moreover have "arenas_ok g1" using assms(1) by (auto simp: graph_ok_def arenas_ok_def same intro!: modify_values_ok)
  ultimately have "graph_ok g1" by (simp add: graph_ok_def same)
  then show thesis using assms(2) by (intro that [of g1]) (auto simp: set_inputs_def same g1_def [symmetric])
qed

lemma replace_all_uses_ok:
  assumes "graph_ok g" "old \<noteq> new" "try_value g old \<noteq> None" "try_value g new \<noteq> None"
  obtains g' where "replace_all_uses g old new = Some g'" "graph_ok g'"
    "\<forall>n. try_node g' n = map_option (\<lambda>nd. nd\<lparr>inputs := map (map_option (subst_value old new)) (inputs nd)\<rparr>) (try_node g n)"
    "goutputs g' = map (subst_value old new) (goutputs g)" "ginputs g' = ginputs g" "initializers g' = initializers g"
    "\<forall>v. map_option producer (try_value g' v) = map_option producer (try_value g v)"
proof -
  obtain val where val: "try_value g old = Some val" using assms(3) by auto
  have l: "linked (try_node g) g" and io: "io_ok g" using assms(1) by (auto simp: graph_ok_def)
  let ?us = "consumers_uses (consumers val)"
  have us: "(n, i) \<in> set ?us \<longleftrightarrow> uses_slot (try_node g) n i old" for n i using link_iff(2) [OF l val] by (simp add: consumers_uses_def)
  have "distinct ?us" using linkedD(1) [OF l val] by (simp add: consumers_uses_def value_linked_def)
  from redirect_uses_run [OF assms(1,4) this, of old] us obtain g1 where
    r: "redirect_uses g new ?us = Some g1" "graph_ok g1" "same_io g g1" "initializers g1 = initializers g"
      "\<forall>m. try_node g1 m = map_option (redirected ?us new m) (try_node g m)"
      "\<forall>v. map_option producer (try_value g1 v) = map_option producer (try_value g v)" by auto
  have N: "try_node g1 n = map_option (\<lambda>nd. nd\<lparr>inputs := map (map_option (subst_value old new)) (inputs nd)\<rparr>) (try_node g n)" for n
  proof (cases "try_node g n")
    case (Some nd)
    define F where "F i = (if (n, i) \<in> set ?us then Some new else inputs nd ! i)" for i
    have "F i = map_option (subst_value old new) (inputs nd ! i)" if "i < length (inputs nd)" for i
      using that Some by (cases "inputs nd ! i") (auto simp: F_def us uses_slot_def subst_value_def)
    then have "map F [0..<length (inputs nd)] = map (map_option (subst_value old new)) (inputs nd)"
      by (intro nth_equalityI) auto
    then show ?thesis using Some r(5) by (simp add: redirected_def F_def [abs_def])
  qed (simp add: r(5))
  have live: "try_value g1 v = None \<longleftrightarrow> try_value g v = None" for v
    using r(6) [rule_format, of v] by (cases "try_value g1 v"; cases "try_value g v") auto
  have gio: "ginputs g1 = ginputs g" "goutputs g1 = goutputs g" using r(3) by (auto simp: same_io_def)
  obtain val1 where val1: "try_value g1 old = Some val1" using live val by fastforce
  have out: "is_graph_output val1 \<longleftrightarrow> old \<in> set (goutputs g)" using r(2) val1 gio by (auto simp: graph_ok_def io_ok_def)
  let ?vs = "map (subst_value old new) (goutputs g)"
  have run: "replace_all_uses g old new = (if old \<in> set (goutputs g) then set_outputs g1 ?vs else Some g1)"
    using assms(2) val r(1) val1 out gio by (simp add: replace_all_uses_def subst_value_def [abs_def])
  show thesis
  proof (cases "old \<in> set (goutputs g)")
    case False
    then have "?vs = goutputs g" by (intro map_idI) (auto simp: subst_value_def)
    then show thesis using run False r N gio by (intro that [of g1]) simp_all
  next
    case True
    have "\<forall>v \<in> set ?vs. try_value g1 v \<noteq> None" using io assms(4) live by (auto simp: io_ok_def subst_value_def)
    from set_outputs_ok [OF r(2) this] obtain g' where "set_outputs g1 ?vs = Some g'" "graph_ok g'" "try_node g' = try_node g1" "goutputs g' = ?vs"
      "ginputs g' = ginputs g1" "\<forall>v. map_option producer (try_value g' v) = map_option producer (try_value g1 v)" "initializers g' = initializers g1" by metis
    then show thesis using run True r N gio by (intro that [of g']) simp_all
  qed
qed

end
