(* ===== verification/IrGraphOps.thy ===== *)
theory IrGraphOps
  imports IrGraphInv
begin

text \<open>
  Every operation of the mutation interface, construction included, keeps the links of the graph:
  the states a client of the interface reaches are well linked, no operation panics on live
  arguments, and validation reports no dangling or mismatched link.
\<close>

section \<open>Construction and splicing\<close>

lemma create_value_ok:
  assumes "graph_ok g" "create_value g dt sh = (g', v)"
  shows "graph_ok g'" "try_value g v = None" "try_value g' v = Some (value_new dt sh)" "w \<noteq> v \<Longrightarrow> try_value g' w = try_value g w"
    "try_node g' = try_node g" "ginputs g' = ginputs g" "goutputs g' = goutputs g" "initializers g' = initializers g"
proof -
  obtain a where a: "insert_with (\<lambda>_. value_new dt sh) (gvalues g) = (v, a)" and g': "g' = g\<lparr>gvalues := a\<rparr>"
    using assms(2) by (auto simp: create_value_def split: prod.splits)
  have av: "arena_ok (gvalues g)" using assms(1) by (simp add: graph_ok_def arenas_ok_def)
  note ins = insert_with_ok [OF av a]
  show f: "try_value g v = None" "try_value g' v = Some (value_new dt sh)" using ins by (simp_all add: try_value_def g')
  show o: "try_value g' w = try_value g w" if "w \<noteq> v" for w using ins(4) that by (simp add: try_value_def g')
  show same: "try_node g' = try_node g" "ginputs g' = ginputs g" "goutputs g' = goutputs g" "initializers g' = initializers g" by (simp_all add: g')
  have l: "linked (try_node g) g" and io: "io_ok g" using assms(1) by (auto simp: graph_ok_def)
  have node: "node_linked g' nd" "v \<notin> set (outputs nd)" "Some v \<notin> set (inputs nd)" if "try_node g n = Some nd" for n nd
  proof -
    note L = linkedD(2) [OF l that]
    show x: "v \<notin> set (outputs nd)" "Some v \<notin> set (inputs nd)" using L f(1) by (auto simp: node_linked_def)
    then show "node_linked g' nd" using L o by (auto simp: node_linked_def) (metis o)+
  qed
  have "value_linked (try_node g) w val" if w: "try_value g' w = Some val" for w val
  proof (cases "w = v")
    case True
    have "\<not> uses_slot (try_node g) n i v" "\<not> produces (try_node g) n v" for n i
      using node(2,3) by (auto simp: uses_slot_def produces_def in_set_conv_nth)
    moreover have "val = value_new dt sh" using w True f(2) by simp
    ultimately show ?thesis using True by (simp add: value_linked_def value_new_def)
  qed (use w o linkedD(1) [OF l] in auto)
  then have "linked (try_node g') g'" using node(1) by (simp add: linked_def same)
  have nv: "v \<notin> set (ginputs g) \<union> set (goutputs g)" using io_live [OF io, of v] f(1) by auto
  have "is_graph_input val = (w \<in> set (ginputs g)) \<and> is_graph_output val = (w \<in> set (goutputs g))" if w: "try_value g' w = Some val" for w val
    using w nv f(2) o [of w] io by (cases "w = v") (auto simp: io_ok_def value_new_def)
  moreover have "try_value g' w \<noteq> None" if "w \<in> set (ginputs g) \<union> set (goutputs g)" for w
    using io_live [OF io that] o [of w] nv that by (cases "w = v") auto
  ultimately have "io_ok g'" by (simp add: io_ok_def same)
  moreover have "arenas_ok g'" using assms(1) ins(1) by (simp add: graph_ok_def arenas_ok_def g')
  moreover note \<open>linked (try_node g') g'\<close>
  ultimately show "graph_ok g'" by (simp add: graph_ok_def)
qed

text \<open>\<open>set_value\<close> with a function that touches neither links nor flags, or a flag in step with its list.\<close>

lemma set_value_get:
  assumes "set_value g v f = Some g'"
  shows "try_value g' w = (if w = v then map_option f (try_value g v) else try_value g w)" "try_node g' = try_node g" "try_value g v \<noteq> None"
    "ginputs g' = ginputs g" "goutputs g' = goutputs g" "arenas_ok g \<Longrightarrow> arenas_ok g'" "initializers g' = initializers g"
  using assms by (auto simp: set_value_def arena_modify_ok(2) try_value_def [of g] arenas_ok_def intro: arena_modify_ok(1) split: if_splits)

lemma insert_on_edge_ok:
  assumes "graph_ok g" "try_value g v \<noteq> None"
  obtains g' n new where "insert_on_edge g v nd = Some (g', n)" "graph_ok g'" "try_value g new = None" "try_node g n = None"
    "try_node g' n = Some (nd\<lparr>nd_id := n, inputs := [Some v], outputs := [new]\<rparr>)"
    "\<forall>m. m \<noteq> n \<longrightarrow> try_node g' m = map_option (\<lambda>x. x\<lparr>inputs := map (map_option (subst_value v new)) (inputs x)\<rparr>) (try_node g m)"
    "goutputs g' = map (subst_value v new) (goutputs g)" "ginputs g' = ginputs g"
proof -
  obtain val where val: "try_value g v = Some val" using assms(2) by auto
  obtain g1 new where c: "create_value g (vl_dtype val) (vl_shape val) = (g1, new)" by force
  note C = create_value_ok [OF assms(1) c]
  have ne: "v \<noteq> new" using C(2) val by auto
  have n1: "try_value g1 new \<noteq> None" using C(3) by simp
  have v1: "try_value g1 v \<noteq> None" using C(4) [OF ne] val by simp
  obtain g2 where r: "replace_all_uses g1 v new = Some g2" "graph_ok g2"
    "\<forall>n. try_node g2 n = map_option (\<lambda>nd. nd\<lparr>inputs := map (map_option (subst_value v new)) (inputs nd)\<rparr>) (try_node g1 n)"
    "\<forall>w. map_option producer (try_value g2 w) = map_option producer (try_value g1 w)"
    "goutputs g2 = map (subst_value v new) (goutputs g1)" "ginputs g2 = ginputs g1"
    by (rule replace_all_uses_ok [OF C(1) ne v1 n1]) (rule that; assumption)
  let ?nd = "nd\<lparr>inputs := [Some v], outputs := [new]\<rparr>"
  have p: "map_option producer (try_value g2 new) = Some None" "try_value g2 v \<noteq> None"
    using r(4) [rule_format, of new] r(4) [rule_format, of v] C(3) v1 by (auto simp: value_new_def)
  then have "wirable g2 ?nd None" by (auto simp: wirable_def node_linked_def producer_of_def)
  from insert_node_ok [OF r(2) this] obtain g' n where i: "insert_node g2 ?nd = Some (g', n)" "graph_ok g'" "try_node g2 n = None"
    "try_node g' = (try_node g2)(n \<mapsto> ?nd\<lparr>nd_id := n\<rparr>)" "goutputs g' = goutputs g2" "ginputs g' = ginputs g2" by metis
  show thesis
  proof (rule that [of g' n new])
    show "insert_on_edge g v nd = Some (g', n)" using val c r(1) i(1) by (simp add: insert_on_edge_def)
    show "try_node g n = None" using i(3) r(3) C(5) by simp
    show "\<forall>m. m \<noteq> n \<longrightarrow> try_node g' m = map_option (\<lambda>x. x\<lparr>inputs := map (map_option (subst_value v new)) (inputs x)\<rparr>) (try_node g m)"
      using i(4) r(3) C(5) by simp
  qed (use i C r in auto)
qed

lemma remove_nodes_ok: "graph_ok g \<Longrightarrow> \<exists>g'. remove_nodes g ns = Some g' \<and> graph_ok g' \<and> (\<forall>n. try_node g' n = (if n \<in> set ns then None else try_node g n))"
proof (induction ns arbitrary: g)
  case (Cons n ns)
  obtain g1 where r: "remove_node g n = Some g1" "graph_ok g1" "try_node g1 = (try_node g)(n := None)"
    using remove_node_ok [OF Cons.prems] by metis
  from Cons.IH [OF r(2)] show ?case using r by auto
qed simp

lemma set_value_links:
  assumes "graph_ok g" "set_value g v f = Some g'" "\<And>val. producer (f val) = producer val" "\<And>val. consumers (f val) = consumers val"
  shows "linked (try_node g') g'" "arenas_ok g'"
proof -
  note S = set_value_get [OF assms(2)]
  have "linked (try_node g) g" using assms(1) by (simp add: graph_ok_def)
  then show "linked (try_node g') g'" unfolding S(2)
    by (rule same_links) (use assms(3,4) in \<open>auto simp: S(1) option.map_comp comp_def\<close>)
  show "arenas_ok g'" using assms(1) S(6) by (simp add: graph_ok_def)
qed

lemma same_lists [simp]:
  "goutputs g = os \<Longrightarrow> g\<lparr>ginputs := is, goutputs := os\<rparr> = g\<lparr>ginputs := is\<rparr>" "ginputs g = is \<Longrightarrow> g\<lparr>ginputs := is, goutputs := os\<rparr> = g\<lparr>goutputs := os\<rparr>"
  by auto

lemma graph_ok_lists:
  assumes "linked (try_node g) g" "arenas_ok g" "io_ok (g\<lparr>ginputs := is, goutputs := os\<rparr>)"
  shows "graph_ok (g\<lparr>ginputs := is, goutputs := os\<rparr>)"
  using assms by (auto simp: graph_ok_def arenas_ok_def intro: same_links)

lemma create_named_value_ok:
  assumes "graph_ok g"
  obtains g' v where "create_named_value g name dt sh = Some (g', v)" "graph_ok g'"
proof -
  obtain g1 v where c: "create_value g dt sh = (g1, v)" by force
  note C = create_value_ok [OF assms c]
  obtain g2 where s: "set_value g1 v (\<lambda>val. val\<lparr>vl_name := Some name\<rparr>) = Some g2" using C(3) by (simp add: set_value_def)
  note S = set_value_get [OF s]
  have "same_io g1 g2" by (auto simp: same_io_def S option.map_comp comp_def)
  then have "io_ok g2" by (rule same_io_ok) (use C(1) in \<open>simp add: graph_ok_def\<close>)
  then have "graph_ok g2" using set_value_links [OF C(1) s] by (simp add: graph_ok_def)
  then show thesis using c s by (intro that [of g2 v]) (simp_all add: create_named_value_def)
qed

text \<open>Adding a value to a boundary list, and removing one occurrence.\<close>

lemma boundary_ok:
  assumes "graph_ok g" "set_value g v f = Some g1"
    and f: "\<And>val. f val = val\<lparr>is_graph_input := i val, is_graph_output := j val\<rparr>"
    and i: "\<And>val. try_value g v = Some val \<Longrightarrow> i val = (v \<in> set is) \<and> j val = (v \<in> set os)"
    and sets: "set is - {v} = set (ginputs g) - {v}" "set os - {v} = set (goutputs g) - {v}"
  shows "graph_ok (g1\<lparr>ginputs := is, goutputs := os\<rparr>)"
proof (rule graph_ok_lists)
  note S = set_value_get [OF assms(2)]
  have io: "io_ok g" using assms(1) by (simp add: graph_ok_def)
  show "linked (try_node g1) g1" "arenas_ok g1" by (rule set_value_links [OF assms(1,2)]; simp add: f)+
  have mem: "w \<in> set is \<longleftrightarrow> w \<in> set (ginputs g)" "w \<in> set os \<longleftrightarrow> w \<in> set (goutputs g)" if "w \<noteq> v" for w
    using that sets by blast+
  have "is_graph_input val = (w \<in> set is) \<and> is_graph_output val = (w \<in> set os)" if "try_value g1 w = Some val" for w val
    using that io i mem [of w] by (cases "w = v") (auto simp: S(1) f io_ok_def)
  moreover have "try_value g1 w \<noteq> None" if "w \<in> set is \<union> set os" for w
    using that io_live [OF io, of w] mem [of w] S(1,3) by (cases "w = v") auto
  ultimately show "io_ok (g1\<lparr>ginputs := is, goutputs := os\<rparr>)" by (simp add: io_ok_def)
qed

lemma remove_nth_set: "i < length xs \<Longrightarrow> set xs = insert (xs ! i) (set (remove_nth i xs))"
  by (subst id_take_nth_drop [of i xs]) (auto simp: remove_nth_def)

lemma boundary_steps_ok:
  assumes "graph_ok g"
  shows "add_input g v = Some g' \<Longrightarrow> graph_ok g'" "add_output g v = Some g' \<Longrightarrow> graph_ok g'"
    "insert_output g k v = Some g' \<Longrightarrow> graph_ok g'"
    "remove_input g k = Some (g', w) \<Longrightarrow> graph_ok g'" "remove_output g k = Some (g', w) \<Longrightarrow> graph_ok g'"
proof -
  have io: "\<And>v val. try_value g v = Some val \<Longrightarrow> is_graph_input val = (v \<in> set (ginputs g)) \<and> is_graph_output val = (v \<in> set (goutputs g))"
    using assms by (auto simp: graph_ok_def io_ok_def)
  show "graph_ok g'" if a: "add_input g v = Some g'"
  proof -
    obtain g1 where s: "set_value g v (\<lambda>val. val\<lparr>is_graph_input := True\<rparr>) = Some g1" "g' = g1\<lparr>ginputs := ginputs g1 @ [v]\<rparr>"
      using a by (auto simp: add_input_def bind_eq_Some_conv)
    have "graph_ok (g1\<lparr>ginputs := ginputs g @ [v], goutputs := goutputs g\<rparr>)"
      by (rule boundary_ok [OF assms s(1), where i = "\<lambda>_. True" and j = is_graph_output]) (auto simp: io)
    then show ?thesis using set_value_get(4,5) [OF s(1)] by (simp add: s(2))
  qed
  show "graph_ok g'" if a: "add_output g v = Some g'"
  proof -
    obtain g1 where s: "set_value g v (\<lambda>val. val\<lparr>is_graph_output := True\<rparr>) = Some g1" "g' = g1\<lparr>goutputs := goutputs g1 @ [v]\<rparr>"
      using a by (auto simp: add_output_def bind_eq_Some_conv)
    have "graph_ok (g1\<lparr>ginputs := ginputs g, goutputs := goutputs g @ [v]\<rparr>)"
      by (rule boundary_ok [OF assms s(1), where i = is_graph_input and j = "\<lambda>_. True"]) (auto simp: io)
    then show ?thesis using set_value_get(4,5) [OF s(1)] by (simp add: s(2))
  qed
  show "graph_ok g'" if a: "insert_output g k v = Some g'"
  proof -
    obtain g1 where s: "set_value g v (\<lambda>val. val\<lparr>is_graph_output := True\<rparr>) = Some g1"
      "g' = g1\<lparr>goutputs := take k (goutputs g1) @ v # drop k (goutputs g1)\<rparr>"
      using a by (auto simp: insert_output_def bind_eq_Some_conv split: if_splits)
    have t: "set (take k (goutputs g) @ v # drop k (goutputs g)) = insert v (set (goutputs g))"
      by (metis (no_types) Un_insert_right append_take_drop_id list.simps(15) set_append)
    have "graph_ok (g1\<lparr>ginputs := ginputs g, goutputs := take k (goutputs g) @ v # drop k (goutputs g)\<rparr>)"
      by (rule boundary_ok [OF assms s(1), where i = is_graph_input and j = "\<lambda>_. True"]) (simp_all only: t, auto simp: io)
    then show ?thesis using set_value_get(4,5) [OF s(1)] by (simp add: s(2))
  qed
  show "graph_ok g'" if a: "remove_input g k = Some (g', w)"
  proof -
    have k: "k < length (ginputs g)" and w: "w = ginputs g ! k"
      using a by (auto simp: remove_input_def Let_def bind_eq_Some_conv split: if_splits)
    let ?is = "remove_nth k (ginputs g)"
    have m: "set (ginputs g) = insert w (set ?is)" using remove_nth_set [OF k] w by simp
    show ?thesis
    proof (cases "w \<in> set ?is")
      case True
      then have g': "g' = g\<lparr>ginputs := ?is\<rparr>" and "set ?is = set (ginputs g)" using a k w m by (auto simp: remove_input_def Let_def)
      then show ?thesis using assms same_links [of "try_node g" g g'] by (auto simp: graph_ok_def arenas_ok_def io_ok_def g')
    next
      case False
      then obtain g2 where s: "set_value (g\<lparr>ginputs := ?is\<rparr>) w (\<lambda>val. val\<lparr>is_graph_input := False\<rparr>) = Some g2" "g' = g2"
        using a k w by (auto simp: remove_input_def Let_def bind_eq_Some_conv split: if_splits)
      let ?g1 = "g\<lparr>gvalues := arena_modify w (\<lambda>val. val\<lparr>is_graph_input := False\<rparr>) (gvalues g)\<rparr>"
      have s1: "set_value g w (\<lambda>val. val\<lparr>is_graph_input := False\<rparr>) = Some ?g1" using s(1) by (auto simp: set_value_def split: if_splits)
      have "graph_ok (?g1\<lparr>ginputs := ?is, goutputs := goutputs g\<rparr>)"
        by (rule boundary_ok [OF assms s1, where i = "\<lambda>_. False" and j = is_graph_output]) (use False m in \<open>auto simp: io\<close>)
      moreover have "g' = ?g1\<lparr>ginputs := ?is\<rparr>" using s by (auto simp: set_value_def split: if_splits)
      ultimately show ?thesis by simp
    qed
  qed
  show "graph_ok g'" if a: "remove_output g k = Some (g', w)"
  proof -
    have k: "k < length (goutputs g)" and w: "w = goutputs g ! k"
      using a by (auto simp: remove_output_def Let_def bind_eq_Some_conv split: if_splits)
    let ?os = "remove_nth k (goutputs g)"
    have m: "set (goutputs g) = insert w (set ?os)" using remove_nth_set [OF k] w by simp
    show ?thesis
    proof (cases "w \<in> set ?os")
      case True
      then have g': "g' = g\<lparr>goutputs := ?os\<rparr>" and "set ?os = set (goutputs g)" using a k w m by (auto simp: remove_output_def Let_def)
      then show ?thesis using assms same_links [of "try_node g" g g'] by (auto simp: graph_ok_def arenas_ok_def io_ok_def g')
    next
      case False
      then obtain g2 where s: "set_value (g\<lparr>goutputs := ?os\<rparr>) w (\<lambda>val. val\<lparr>is_graph_output := False\<rparr>) = Some g2" "g' = g2"
        using a k w by (auto simp: remove_output_def Let_def bind_eq_Some_conv split: if_splits)
      let ?g1 = "g\<lparr>gvalues := arena_modify w (\<lambda>val. val\<lparr>is_graph_output := False\<rparr>) (gvalues g)\<rparr>"
      have s1: "set_value g w (\<lambda>val. val\<lparr>is_graph_output := False\<rparr>) = Some ?g1" using s(1) by (auto simp: set_value_def split: if_splits)
      have "graph_ok (?g1\<lparr>ginputs := ginputs g, goutputs := ?os\<rparr>)"
        by (rule boundary_ok [OF assms s1, where i = is_graph_input and j = "\<lambda>_. False"]) (use False m in \<open>auto simp: io\<close>)
      moreover have "g' = ?g1\<lparr>goutputs := ?os\<rparr>" using s by (auto simp: set_value_def split: if_splits)
      ultimately show ?thesis by simp
    qed
  qed
qed

end
