(* ===== verification/IrTopo.thy ===== *)
theory IrTopo
  imports IrGraphInv
begin

text \<open>
  Kahn's algorithm of \<open>Graph::topological_order\<close>: it never indexes out of range, reports a cycle
  exactly when the edges have one, and otherwise always emits the least node whose producers have all
  been emitted.
\<close>

section \<open>The adjacency lists\<close>

definition edges_in :: "(nat \<times> nat) list \<Rightarrow> nat set \<Rightarrow> nat \<Rightarrow> nat" where
  "edges_in E D n = length (filter (\<lambda>(p, m). m = n \<and> p \<notin> D) E)"

definition targets :: "(nat \<times> nat) list \<Rightarrow> nat \<Rightarrow> nat list" where
  "targets E p = map snd (filter (\<lambda>e. fst e = p) E)"

lemma add_edges_run:
  assumes "add_edges (deg, adj) E = (deg', adj')" "\<forall>(p, n) \<in> set E. p < length adj \<and> n < length deg"
  shows "length deg' = length deg \<and> length adj' = length adj \<and>
    (\<forall>n < length deg. deg' ! n = deg ! n + edges_in E {} n) \<and> (\<forall>p < length adj. adj' ! p = adj ! p @ targets E p)"
  using assms
proof (induction "(deg, adj)" E arbitrary: deg adj rule: add_edges.induct)
  case (2 deg adj p n es)
  from "2.hyps" "2.prems" show ?case
    by (auto simp: edges_in_def targets_def nth_list_update split: if_splits)
qed (simp add: edges_in_def targets_def)

lemma edges_in_insert:
  assumes "p \<notin> D"
  shows "edges_in E D n = edges_in E (insert p D) n + count_list (targets E p) n"
  using assms by (induction E) (auto simp: edges_in_def targets_def)

lemma edges_in_zero: "edges_in E D n = 0 \<longleftrightarrow> (\<forall>p. (p, n) \<in> set E \<longrightarrow> p \<in> D)"
  by (auto simp: edges_in_def filter_empty_conv)

section \<open>Relaxing the successors of a node\<close>

lemma relax_run:
  assumes "\<forall>s \<in> set ss. s < length deg" "\<forall>s < length deg. count_list ss s \<le> deg ! s"
    "sorted ready" "distinct ready" "\<forall>r \<in> set ready. r < length deg \<and> deg ! r = 0"
  shows "\<exists>deg' ready'. relax deg ready ss = Some (deg', ready') \<and> length deg' = length deg \<and>
    (\<forall>s < length deg. deg' ! s = deg ! s - count_list ss s) \<and> sorted ready' \<and> distinct ready' \<and>
    set ready' = set ready \<union> {s. s < length deg \<and> deg ! s \<noteq> 0 \<and> deg' ! s = 0}"
  using assms
proof (induction deg ready ss rule: relax.induct)
  case (1 deg ready)
  then show ?case by auto
next
  case (2 deg ready s ss)
  let ?deg = "deg[s := deg ! s - 1]" and ?ready = "if deg ! s = 1 then insort s ready else ready"
  have s: "s < length deg" "deg ! s \<noteq> 0" using "2.prems"(1,2) by (auto simp: le_less_trans)
  have "s \<notin> set ready" using "2.prems"(5) s(2) by auto
  then have r: "sorted ?ready" "distinct ?ready" "set ?ready = set ready \<union> (if deg ! s = 1 then {s} else {})"
    using "2.prems"(3,4) by (auto simp: sorted_insort distinct_insort set_insort_key)
  have c: "count_list ss t \<le> ?deg ! t" if "t < length ?deg" for t
    using "2.prems"(2) [rule_format, of t] that s by (auto simp: nth_list_update split: if_splits)
  have "\<forall>x \<in> set ?ready. x < length ?deg \<and> ?deg ! x = 0" using r(3) "2.prems"(5) s by (auto simp: nth_list_update split: if_splits)
  with "2.IH" "2.prems"(1) s r c obtain deg' ready' where IH: "relax ?deg ?ready ss = Some (deg', ready')" "length deg' = length deg"
    "\<forall>t < length deg. deg' ! t = ?deg ! t - count_list ss t" "sorted ready'" "distinct ready'"
    "set ready' = set ?ready \<union> {t. t < length deg \<and> ?deg ! t \<noteq> 0 \<and> deg' ! t = 0}" by auto
  have d: "deg' ! t = deg ! t - count_list (s # ss) t" if "t < length deg" for t
    using IH(3) [rule_format, OF that] s by (auto simp: nth_list_update)
  have "set ready' = set ready \<union> {t. t < length deg \<and> deg ! t \<noteq> 0 \<and> deg' ! t = 0}"
    using IH(3,6) r(3) s by (auto simp: nth_list_update split: if_splits)
  then show ?case using IH s d by simp
qed

section \<open>The loop\<close>

text \<open>The nodes of \<open>L\<close> that may come next when \<open>D\<close> has been emitted.\<close>

definition available :: "nat set \<Rightarrow> (nat \<times> nat) list \<Rightarrow> nat set \<Rightarrow> nat set" where
  "available L E D = {n \<in> L. n \<notin> D \<and> (\<forall>p. (p, n) \<in> set E \<longrightarrow> p \<in> D)}"

definition least_first :: "nat set \<Rightarrow> (nat \<times> nat) list \<Rightarrow> nat list \<Rightarrow> bool" where
  "least_first L E order \<longleftrightarrow> (\<forall>k < length order. order ! k \<in> available L E (set (take k order)) \<and>
     (\<forall>m \<in> available L E (set (take k order)). order ! k \<le> m))"

lemma least_first_snoc:
  "least_first L E (order @ [n]) \<longleftrightarrow> least_first L E order \<and> n \<in> available L E (set order) \<and> (\<forall>m \<in> available L E (set order). n \<le> m)"
  unfolding least_first_def by (auto simp: nth_append less_Suc_eq)

definition kahn_inv :: "nat set \<Rightarrow> (nat \<times> nat) list \<Rightarrow> nat list \<Rightarrow> nat list \<Rightarrow> nat list \<Rightarrow> bool" where
  "kahn_inv L E deg ready order \<longleftrightarrow>
     L \<subseteq> {..<length deg} \<and> sorted ready \<and> distinct ready \<and> set ready = available L E (set order) \<and> least_first L E order \<and>
     (\<forall>n < length deg. if n \<in> L then deg ! n = edges_in E (set order) n else 0 < deg ! n)"

lemma emitted_ready:
  assumes "least_first L E order" "n \<in> set order"
  shows "n \<in> L" "\<forall>p. (p, n) \<in> set E \<longrightarrow> p \<in> set order"
proof -
  obtain k where "k < length order" "order ! k = n" using assms(2) by (auto simp: in_set_conv_nth)
  then have "n \<in> available L E (set (take k order))" using assms(1) by (auto simp: least_first_def)
  then show "n \<in> L" "\<forall>p. (p, n) \<in> set E \<longrightarrow> p \<in> set order" using set_take_subset [of k order] by (auto simp: available_def)
qed

lemma available_insert:
  assumes "least_first L E order" "raw \<in> available L E (set order)"
  shows "available L E (set (order @ [raw])) = (available L E (set order) - {raw}) \<union>
    {s \<in> L. (\<forall>p. (p, s) \<in> set E \<longrightarrow> p \<in> set (order @ [raw])) \<and> \<not> (\<forall>p. (p, s) \<in> set E \<longrightarrow> p \<in> set order)}"
  using emitted_ready [OF assms(1)] assms(2) by (auto simp: available_def)

lemma kahn_step:
  assumes K: "kahn_inv L E deg (raw # ready) order" and E: "set E \<subseteq> L \<times> L"
  obtains deg' ready' where "relax deg ready (targets E raw) = Some (deg', ready')" "length deg' = length deg"
    "kahn_inv L E deg' ready' (order @ [raw])" "raw < length deg"
proof -
  have L: "L \<subseteq> {..<length deg}" and rdy: "sorted (raw # ready)" "distinct (raw # ready)" "insert raw (set ready) = available L E (set order)"
    and lf: "least_first L E order" and deg: "\<And>n. n < length deg \<Longrightarrow> if n \<in> L then deg ! n = edges_in E (set order) n else 0 < deg ! n"
    using K by (auto simp: kahn_inv_def)
  have raw: "raw \<in> available L E (set order)" "\<forall>m \<in> available L E (set order). raw \<le> m" using rdy(1) by (auto simp flip: rdy(3))
  have rl: "raw < length deg" "raw \<notin> set order" "raw \<in> L" using raw(1) L by (auto simp: available_def)
  let ?ss = "targets E raw"
  have ss: "s \<in> L" if "s \<in> set ?ss" for s using that E by (auto simp: targets_def)
  have none: "count_list ?ss s = 0" if "s \<notin> L" for s using ss [of s] that by (auto simp: count_list_0_iff)
  have ins: "edges_in E (set order) n = edges_in E (set (order @ [raw])) n + count_list ?ss n" for n
    using edges_in_insert [OF rl(2)] by simp
  have cnt: "count_list ?ss s \<le> deg ! s" if "s < length deg" for s
    using deg [OF that] ins [of s] none [of s] by (cases "s \<in> L") auto
  have zero: "deg ! s = 0 \<longleftrightarrow> s \<in> L \<and> (\<forall>p. (p, s) \<in> set E \<longrightarrow> p \<in> set order)" if "s < length deg" for s
    using deg [OF that] by (auto simp: edges_in_zero split: if_splits)
  have "\<forall>r \<in> set ready. r < length deg \<and> deg ! r = 0" using zero L rdy(3) by (auto simp: available_def)
  moreover have "\<forall>s \<in> set ?ss. s < length deg" using ss L by auto
  ultimately obtain deg' ready' where r: "relax deg ready ?ss = Some (deg', ready')" "length deg' = length deg"
    "\<And>s. s < length deg \<Longrightarrow> deg' ! s = deg ! s - count_list ?ss s" "sorted ready'" "distinct ready'"
    "set ready' = set ready \<union> {s. s < length deg \<and> deg ! s \<noteq> 0 \<and> deg' ! s = 0}"
    using relax_run [of ?ss deg ready] cnt rdy by auto
  have deg': "if n \<in> L then deg' ! n = edges_in E (set (order @ [raw])) n else 0 < deg' ! n" if "n < length deg" for n
    using deg [OF that] r(3) [OF that] ins [of n] none [of n] by auto
  have lenL: "s < length deg" if "s \<in> L" for s using L that by auto
  have zero': "deg' ! s = 0 \<longleftrightarrow> s \<in> L \<and> (\<forall>p. (p, s) \<in> set E \<longrightarrow> p \<in> set (order @ [raw]))" if "s < length deg" for s
    using deg' [OF that] by (auto simp: edges_in_zero split: if_splits)
  define P where "P D s \<longleftrightarrow> (\<forall>p. (p, s) \<in> set E \<longrightarrow> p \<in> D)" for D s
  have "s < length deg \<and> deg ! s \<noteq> 0 \<and> deg' ! s = 0 \<longleftrightarrow> s \<in> L \<and> (\<forall>p. (p, s) \<in> set E \<longrightarrow> p \<in> set (order @ [raw])) \<and>
    \<not> (\<forall>p. (p, s) \<in> set E \<longrightarrow> p \<in> set order)" for s
    using zero [of s] zero' [of s] lenL [of s] unfolding P_def [symmetric] by (cases "s < length deg") auto
  then have "{s. s < length deg \<and> deg ! s \<noteq> 0 \<and> deg' ! s = 0} =
    {s \<in> L. (\<forall>p. (p, s) \<in> set E \<longrightarrow> p \<in> set (order @ [raw])) \<and> \<not> (\<forall>p. (p, s) \<in> set E \<longrightarrow> p \<in> set order)}" by (rule Collect_cong)
  moreover have "set ready = available L E (set order) - {raw}" using rdy(2) by (auto simp flip: rdy(3))
  ultimately have "set ready' = available L E (set (order @ [raw]))" using r(6) available_insert [OF lf raw(1)] by simp
  then have "kahn_inv L E deg' ready' (order @ [raw])" unfolding kahn_inv_def least_first_snoc
    using L r(2,4,5) lf raw deg' by simp
  then show thesis using that r(1,2) rl(1) by blast
qed

lemma kahn_run:
  assumes "kahn_inv L E deg ready order" "set E \<subseteq> L \<times> L" "\<forall>p < length deg. adj ! p = targets E p"
  shows "\<exists>order'. kahn_loop adj deg ready order = Some order' \<and> least_first L E order' \<and> available L E (set order') = {}"
  using assms
proof (induction adj deg ready order rule: kahn_loop.induct)
  case (2 adj deg raw ready order)
  obtain deg' ready' where r: "relax deg ready (targets E raw) = Some (deg', ready')" "length deg' = length deg"
    "kahn_inv L E deg' ready' (order @ [raw])" "raw < length deg" using kahn_step [OF "2.prems"(1,2)] by metis
  have "adj ! raw = targets E raw" using "2.prems"(3) r(4) by simp
  then show ?case using "2.IH" [OF _ refl r(3) "2.prems"(2)] r(1,2) "2.prems"(3) by simp
qed (auto simp: kahn_inv_def)

section \<open>The order\<close>

lemma least_first_distinct: "least_first L E order \<Longrightarrow> distinct order \<and> set order \<subseteq> L"
proof (induction order rule: rev_induct)
  case (snoc n order)
  then show ?case by (auto simp: least_first_snoc available_def)
qed simp

text \<open>A prefix-closed order without a remaining ready node covers everything or leaves a cycle behind.\<close>

lemma acyclic_iff_complete:
  assumes "least_first L E order" "available L E (set order) = {}" "finite L" "set E \<subseteq> L \<times> L"
  shows "set order = L \<longleftrightarrow> acyclic (set E)"
proof
  assume c: "set order = L"
  define pos where "pos n = (LEAST k. k < length order \<and> order ! k = n)" for n
  have pos: "pos n < length order \<and> order ! pos n = n" if "n \<in> L" for n
    unfolding pos_def by (rule LeastI_ex) (use that c in \<open>auto simp: in_set_conv_nth\<close>)
  have "pos p < pos n" if e: "(p, n) \<in> set E" for p n
  proof -
    have nL: "n \<in> L" using e assms(4) by auto
    then have "n \<in> available L E (set (take (pos n) order))" using pos [OF nL] assms(1) by (auto simp: least_first_def)
    then have "p \<in> set (take (pos n) order)" using e by (auto simp: available_def)
    then obtain k where k: "k < pos n" "k < length order" "order ! k = p" by (auto simp: in_set_conv_nth)
    then show ?thesis unfolding pos_def [of p] by (metis (mono_tags, lifting) Least_le le_less_trans)
  qed
  then have "set E \<subseteq> measure pos" by auto
  then show "acyclic (set E)" using acyclic_subset wf_acyclic wf_measure by blast
next
  assume ac: "acyclic (set E)"
  show "set order = L"
  proof (rule ccontr)
    assume "set order \<noteq> L"
    then obtain n where n: "n \<in> L - set order" using least_first_distinct [OF assms(1)] by auto
    have "wf (set E)" using ac by (rule finite_acyclic_wf [rotated]) simp
    then obtain z where "z \<in> L - set order" "\<And>y. (y, z) \<in> set E \<Longrightarrow> y \<notin> L - set order" by (rule wfE_min [OF _ n]) blast
    then have "z \<in> available L E (set order)" using assms(4) by (auto simp: available_def)
    then show False using assms(2) by simp
  qed
qed

definition live_nodes :: "'w Graph \<Rightarrow> nat set" where
  "live_nodes g = {n. try_node g n \<noteq> None}"

text \<open>An edge of the graph: a live node reads a value another live node produces.\<close>

lemma pairs_of: "(p, n) \<in> set (concat (map (\<lambda>(k, x). map (\<lambda>q. (q, k)) (F x)) xs)) \<longleftrightarrow> (\<exists>x. (n, x) \<in> set xs \<and> p \<in> set (F x))"
  by (induction xs) auto

lemma node_edges_set:
  "(p, n) \<in> set (node_edges g) \<longleftrightarrow>
     p \<in> live_nodes g \<and> (\<exists>nd v. try_node g n = Some nd \<and> Some v \<in> set (inputs nd) \<and> producer_of g v = Some p)"
proof -
  have m: "p \<in> set (List.map_filter f xs) \<longleftrightarrow> (\<exists>x \<in> set xs. f x = Some p)" for f :: "nat \<Rightarrow> nat option" and xs
    by (force simp: List.map_filter_def)
  have iv: "v \<in> set (input_values nd) \<longleftrightarrow> Some v \<in> set (inputs nd)" for v nd
    by (force simp: input_values_def List.map_filter_def)
  have "(p, n) \<in> set (node_edges g) \<longleftrightarrow> (\<exists>nd. (n, nd) \<in> set (arena_iter (gnodes g)) \<and>
      p \<in> set (List.map_filter (producer_of g) (input_values nd)) \<and> arena_contains (gnodes g) p)"
    unfolding node_edges_def pairs_of by simp
  also have "\<dots> \<longleftrightarrow> (\<exists>nd. try_node g n = Some nd \<and> (\<exists>v. Some v \<in> set (inputs nd) \<and> producer_of g v = Some p) \<and> p \<in> live_nodes g)"
    by (simp only: m arena_iter_set arena_contains_def live_nodes_def try_node_def mem_Collect_eq Bex_def iv)
  finally show ?thesis by blast
qed

lemma node_edges_live: "set (node_edges g) \<subseteq> live_nodes g \<times> live_nodes g"
  by (auto simp: node_edges_set) (auto simp: live_nodes_def)

lemma live_below: "live_nodes g \<subseteq> {..<arena_capacity (gnodes g)}"
  by (auto simp: live_nodes_def try_node_def arena_get_def arena_capacity_def split: if_splits)

lemma topological_order_run:
  assumes "arena_ok (gnodes g)"
  shows "\<exists>order. least_first (live_nodes g) (node_edges g) order \<and> available (live_nodes g) (node_edges g) (set order) = {} \<and>
    topological_order g = Some (if acyclic (set (node_edges g)) then Inr order else Inl CycleDetected)"
proof -
  let ?E = "node_edges g" and ?L = "live_nodes g" and ?cap = "arena_capacity (gnodes g)"
  obtain deg adj where ae: "add_edges (initial_degrees g, replicate ?cap []) ?E = (deg, adj)" by force
  note E = node_edges_live [of g]
  have len: "length (initial_degrees g) = ?cap" by (simp add: initial_degrees_def arena_capacity_def)
  have "\<forall>(p, n) \<in> set ?E. p < length (replicate ?cap ([] :: nat list)) \<and> n < length (initial_degrees g)"
    using E live_below [of g] by (fastforce simp: len)
  from add_edges_run [OF ae this] have A: "length deg = ?cap" "\<And>n. n < ?cap \<Longrightarrow> deg ! n = initial_degrees g ! n + edges_in ?E {} n"
    "\<And>p. p < ?cap \<Longrightarrow> adj ! p = targets ?E p" by (auto simp: len)
  have init: "initial_degrees g ! n = (if n \<in> ?L then 0 else VACANT)" if "n < ?cap" for n
    using that by (auto simp: initial_degrees_def arena_capacity_def live_nodes_def try_node_def arena_get_def split: option.splits)
  have V: "0 < VACANT" by (simp add: VACANT_def u64_max_def)
  have dg: "if n \<in> ?L then deg ! n = edges_in ?E {} n else 0 < deg ! n" if "n < ?cap" for n using A(2) [OF that] init [OF that] V by simp
  let ?ready = "filter (\<lambda>i. deg ! i = 0) [0..<length deg]"
  have "n < ?cap \<and> deg ! n = 0 \<longleftrightarrow> n \<in> available ?L ?E {}" for n
    using dg [of n] live_below [of g] by (auto simp: available_def edges_in_zero split: if_splits)
  then have "set ?ready = available ?L ?E {}" by (auto simp: A(1))
  then have "kahn_inv ?L ?E deg ?ready []"
    using dg live_below [of g] by (auto simp: kahn_inv_def A(1) least_first_def sorted_wrt_filter simp del: set_filter)
  from kahn_run [OF this E, of adj] A(1,3) obtain order where o: "kahn_loop adj deg ?ready [] = Some order" "least_first ?L ?E order"
    "available ?L ?E (set order) = {}" by auto
  have fin: "finite ?L" using live_below finite_subset by blast
  have card: "ar_len (gnodes g) = card ?L"
    using assms arena_keys_sorted(2) [of "gnodes g"] arena_keys_set [of "gnodes g"]
    by (simp add: arena_ok_def live_nodes_def try_node_def flip: distinct_card)
  have d: "distinct order" "set order \<subseteq> ?L" using least_first_distinct [OF o(2)] by auto
  have "length order = ar_len (gnodes g) \<longleftrightarrow> set order = ?L"
    using distinct_card [OF d(1)] card card_subset_eq [OF fin d(2)] by auto
  also have "\<dots> \<longleftrightarrow> acyclic (set ?E)" by (rule acyclic_iff_complete [OF o(2,3) fin E])
  finally show ?thesis using o ae by (intro exI [of _ order]) (simp add: topological_order_def)
qed

lemma live_finite: "finite (live_nodes g)"
  by (rule finite_subset [OF live_below finite_lessThan])

lemma topological_order_complete:
  assumes "arena_ok (gnodes g)" "topological_order g = Some (Inr order)"
  shows "distinct order" "set order = live_nodes g"
proof -
  obtain os where o: "least_first (live_nodes g) (node_edges g) os" "available (live_nodes g) (node_edges g) (set os) = {}"
    "topological_order g = Some (if acyclic (set (node_edges g)) then Inr os else Inl CycleDetected)"
    using topological_order_run [OF assms(1)] by blast
  then have "os = order" "acyclic (set (node_edges g))" using assms(2) by (auto split: if_splits)
  then show "distinct order" "set order = live_nodes g"
    using least_first_distinct [OF o(1)] acyclic_iff_complete [OF o(1,2) live_finite node_edges_live] by auto
qed

end
