(* ===== verification/IrGraphReach.thy ===== *)
theory IrGraphReach
  imports IrGraphOps IrTopo
begin

text \<open>
  The graphs a client of the construction and mutation interface can build, and what validation says
  of them: no operation breaks a link, so validation can only report a cycle, an input with a
  producer, an output without one, or a zero operator-set version, and it reports one exactly when
  there is one.
\<close>

section \<open>Operations that leave the links alone\<close>

lemma graph_ok_cong:
  assumes "gnodes g' = gnodes g" "gvalues g' = gvalues g" "ginputs g' = ginputs g" "goutputs g' = goutputs g"
  shows "graph_ok g' \<longleftrightarrow> graph_ok g"
proof -
  have e: "try_node g' = try_node g" "try_value g' = try_value g" by (simp_all add: fun_eq_iff try_node_def try_value_def assms)
  show ?thesis by (simp add: graph_ok_def linked_def node_linked_def io_ok_def arenas_ok_def e assms)
qed

lemma graph_ok_fields [simp]:
  "graph_ok (g\<lparr>next_symbol := a, symbol_constraints := h, symbol_names := b\<rparr>) \<longleftrightarrow> graph_ok g" "graph_ok (g\<lparr>opset_imports := c\<rparr>) \<longleftrightarrow> graph_ok g"
  "graph_ok (g\<lparr>initializers := d\<rparr>) \<longleftrightarrow> graph_ok g" "graph_ok (g\<lparr>unknown_value_types := e\<rparr>) \<longleftrightarrow> graph_ok g"
  "graph_ok (g\<lparr>unknown_value_shapes := e\<rparr>) \<longleftrightarrow> graph_ok g"
  by (rule graph_ok_cong; simp)+

lemma normalize_domains_ok:
  assumes "graph_ok g"
  shows "graph_ok (normalize_domains g)"
proof -
  let ?f = "\<lambda>n. if domain n = AI_ONNX_DOMAIN then n\<lparr>domain := []\<rparr> else n"
  define g1 where "g1 = g\<lparr>gnodes := (gnodes g)\<lparr>ar_slots := map (map_option ?f) (ar_slots (gnodes g))\<rparr>\<rparr>"
  have N: "try_node g1 n = map_option ?f (try_node g n)" for n
    by (simp add: g1_def try_node_def arena_get_def)
  have V: "try_value g1 = try_value g" by (simp add: g1_def)
  have keep: "inputs (?f nd) = inputs nd" "outputs (?f nd) = outputs nd" for nd by simp_all
  have u: "uses_slot (try_node g1) n i v = uses_slot (try_node g) n i v" "produces (try_node g1) n v = produces (try_node g) n v" for n i v
    by (cases "try_node g n"; simp add: uses_slot_def produces_def N)+
  have l: "linked (try_node g) g" using assms by (simp add: graph_ok_def)
  have "linked (try_node g1) g1" unfolding linked_def
  proof (intro conjI allI impI)
    show "value_linked (try_node g1) v val" if "try_value g1 v = Some val" for v val
      using linkedD(1) [OF l, of v val] that by (simp add: value_linked_def u V)
    show "node_linked g1 nd" if "try_node g1 n = Some nd" for n nd
    proof -
      obtain nd0 where "try_node g n = Some nd0" "nd = ?f nd0" using \<open>try_node g1 n = Some nd\<close> by (auto simp: N)
      then show ?thesis using linkedD(2) [OF l, of n nd0] by (simp add: node_linked_def V)
    qed
  qed
  have "arena_keys (gnodes g1) = arena_keys (gnodes g)" unfolding arena_keys_def by (rule filter_cong) (auto simp: g1_def)
  moreover have "ar_free (gnodes g1) = ar_free (gnodes g)" "ar_len (gnodes g1) = ar_len (gnodes g)" "gvalues g1 = gvalues g"
    "k < length (ar_slots (gnodes g1)) \<and> ar_slots (gnodes g1) ! k = None \<longleftrightarrow> k < length (ar_slots (gnodes g)) \<and> ar_slots (gnodes g) ! k = None" for k
    by (auto simp: g1_def)
  ultimately have "arenas_ok g1" using assms by (simp only: graph_ok_def arenas_ok_def arena_ok_def simp_thms)
  moreover have "io_ok g1" using assms by (simp add: graph_ok_def io_ok_def V) (simp add: g1_def)
  moreover note \<open>linked (try_node g1) g1\<close>
  ultimately have "graph_ok g1" by (simp add: graph_ok_def)
  then show ?thesis unfolding normalize_domains_def g1_def [symmetric]
    by (simp add: Let_def split: option.split)
qed

lemma graph_new_ok [simp]: "graph_ok graph_new"
  by (simp add: graph_ok_def graph_new_def arenas_ok_def linked_def io_ok_def try_node_def try_value_def)

lemma replace_all_uses_keeps:
  assumes "graph_ok g" "try_value g new \<noteq> None" "replace_all_uses g old new = Some g'"
  shows "graph_ok g'"
proof (cases "old = new \<or> try_value g old = None")
  case True
  then show ?thesis using assms by (auto simp: replace_all_uses_def split: if_splits)
next
  case False
  then obtain g2 where "replace_all_uses g old new = Some g2" "graph_ok g2" using replace_all_uses_ok [OF assms(1), of old new] assms(2) by blast
  then show ?thesis using assms(3) by simp
qed

text \<open>The replacement of every group can be wired at the moment it is inserted.\<close>

fun groups_wirable :: "'w Graph \<Rightarrow> (nat list \<times> Node) list \<Rightarrow> bool" where
  "groups_wirable g [] = True"
| "groups_wirable g ((ns, replacement) # groups) =
     (case remove_nodes g ns of
        None \<Rightarrow> False
      | Some g1 \<Rightarrow> wirable g1 replacement None \<and>
          (case insert_node g1 replacement of None \<Rightarrow> False | Some (g2, _) \<Rightarrow> groups_wirable g2 groups))"

lemma apply_groups_ok:
  assumes "graph_ok g" "groups_wirable g groups" "apply_groups g groups ids = Some (g', ids')"
  shows "graph_ok g'"
  using assms
proof (induction g groups ids rule: apply_groups.induct)
  case (2 g ns r groups ids)
  obtain g1 where g1: "remove_nodes g ns = Some g1" "graph_ok g1" using remove_nodes_ok [OF "2.prems"(1)] by blast
  have w: "wirable g1 r None" using "2.prems"(2) g1(1) by simp
  obtain g2 n where g2: "insert_node g1 r = Some (g2, n)" "graph_ok g2" using insert_node_ok [OF g1(2) w] by metis
  show ?case using "2.IH" [OF g1(1) g2(1) refl g2(2)] "2.prems" g1(1) g2(1) by simp
qed simp

section \<open>Reachable graphs\<close>

inductive graph_reachable :: "'w Graph \<Rightarrow> bool" where
  new: "graph_reachable graph_new"
| symbol: "graph_reachable g \<Longrightarrow> create_symbol g name = (g', s) \<Longrightarrow> graph_reachable g'"
| interned: "graph_reachable g \<Longrightarrow> intern_symbol g label = (g', s) \<Longrightarrow> graph_reachable g'"
| fresh: "graph_reachable g \<Longrightarrow> create_value g dt sh = (g', v) \<Longrightarrow> graph_reachable g'"
| named: "graph_reachable g \<Longrightarrow> create_named_value g label dt sh = Some (g', v) \<Longrightarrow> graph_reachable g'"
| add_in: "graph_reachable g \<Longrightarrow> add_input g v = Some g' \<Longrightarrow> graph_reachable g'"
| add_out: "graph_reachable g \<Longrightarrow> add_output g v = Some g' \<Longrightarrow> graph_reachable g'"
| ins_out: "graph_reachable g \<Longrightarrow> insert_output g k v = Some g' \<Longrightarrow> graph_reachable g'"
| rem_in: "graph_reachable g \<Longrightarrow> remove_input g k = Some (g', v) \<Longrightarrow> graph_reachable g'"
| rem_out: "graph_reachable g \<Longrightarrow> remove_output g k = Some (g', v) \<Longrightarrow> graph_reachable g'"
| set_in: "graph_reachable g \<Longrightarrow> set_inputs g vs = Some g' \<Longrightarrow> graph_reachable g'"
| set_out: "graph_reachable g \<Longrightarrow> set_outputs g vs = Some g' \<Longrightarrow> graph_reachable g'"
| weight: "graph_reachable g \<Longrightarrow> graph_reachable (set_initializer g v w)"
| opsets: "graph_reachable g \<Longrightarrow> graph_reachable (g\<lparr>opset_imports := imports\<rparr>)"
| type_unknown: "graph_reachable g \<Longrightarrow> graph_reachable (mark_value_type_unknown g v)"
| type_known: "graph_reachable g \<Longrightarrow> graph_reachable (mark_value_type_known g v)"
| shape_unknown: "graph_reachable g \<Longrightarrow> graph_reachable (mark_value_shape_unknown g v)"
| shape_known: "graph_reachable g \<Longrightarrow> graph_reachable (mark_value_shape_known g v)"
| domains: "graph_reachable g \<Longrightarrow> graph_reachable (normalize_domains g)"
| ins_node: "graph_reachable g \<Longrightarrow> wirable g nd None \<Longrightarrow> insert_node g nd = Some (g', n) \<Longrightarrow> graph_reachable g'"
| rem_node: "graph_reachable g \<Longrightarrow> remove_node g n = Some g' \<Longrightarrow> graph_reachable g'"
| rem_nodes: "graph_reachable g \<Longrightarrow> remove_nodes g ns = Some g' \<Longrightarrow> graph_reachable g'"
| regroup: "graph_reachable g \<Longrightarrow> groups_wirable g gs \<Longrightarrow> replace_node_groups g gs = Some (g', ns) \<Longrightarrow> graph_reachable g'"
| rep_node: "graph_reachable g \<Longrightarrow> wirable g nd (Some n) \<Longrightarrow> replace_node g n nd = Some (g', m) \<Longrightarrow> graph_reachable g'"
| on_edge: "graph_reachable g \<Longrightarrow> insert_on_edge g v nd = Some (g', n) \<Longrightarrow> graph_reachable g'"
| rep_input: "graph_reachable g \<Longrightarrow> replace_input g n i w = Some (g', v) \<Longrightarrow> graph_reachable g'"
| rep_uses: "graph_reachable g \<Longrightarrow> try_value g new \<noteq> None \<Longrightarrow> replace_all_uses g old new = Some g' \<Longrightarrow> graph_reachable g'"
| collect: "graph_reachable g \<Longrightarrow> graph_reachable (gc_value_if_orphan g v)"

lemma reachable_graph_ok: "graph_reachable g \<Longrightarrow> graph_ok g"
proof (induction rule: graph_reachable.induct)
  case (symbol g name g' s)
  then show ?case by (auto simp: create_symbol_def)
next
  case (interned g label g' s)
  then show ?case by (auto simp: intern_symbol_def create_symbol_def split: option.splits)
next
  case (named g label dt sh g' v)
  obtain g2 v2 where "create_named_value g label dt sh = Some (g2, v2)" "graph_ok g2" by (rule create_named_value_ok [OF named.IH])
  then show ?case using named.hyps(2) by simp
next
  case (set_in g vs g')
  then have "\<forall>v \<in> set vs. try_value g v \<noteq> None" by (auto simp: set_inputs_def split: if_splits)
  from set_inputs_ok [OF set_in.IH this] obtain g2 where "set_inputs g vs = Some g2" "graph_ok g2" by blast
  then show ?case using set_in.hyps(2) by simp
next
  case (set_out g vs g')
  then have "\<forall>v \<in> set vs. try_value g v \<noteq> None" by (auto simp: set_outputs_def split: if_splits)
  from set_outputs_ok [OF set_out.IH this] obtain g2 where "set_outputs g vs = Some g2" "graph_ok g2" by blast
  then show ?case using set_out.hyps(2) by simp
next
  case (ins_node g nd g' n)
  from insert_node_ok [OF ins_node.IH ins_node.hyps(2)] obtain g2 m where "insert_node g nd = Some (g2, m)" "graph_ok g2" by blast
  then show ?case using ins_node.hyps(3) by simp
next
  case (rem_node g n g')
  from remove_node_ok [OF rem_node.IH] obtain g2 where "remove_node g n = Some g2" "graph_ok g2" by blast
  then show ?case using rem_node.hyps(2) by simp
next
  case (rem_nodes g ns g')
  then show ?case using remove_nodes_ok [of g ns] by auto
next
  case (regroup g gs g' ns)
  then show ?case using apply_groups_ok [of g gs "[]"] by (auto simp: replace_node_groups_def Let_def split: if_splits)
next
  case (rep_node g nd n g' m)
  then obtain nd0 where "try_node g n = Some nd0" by (auto simp: replace_node_def split: if_splits)
  from replace_node_ok [OF rep_node.IH this rep_node.hyps(2)] obtain g2 where "replace_node g n nd = Some (g2, n)" "graph_ok g2" by blast
  then show ?case using rep_node.hyps(3) by simp
next
  case (on_edge g v nd g' n)
  then have "try_value g v \<noteq> None" by (auto simp: insert_on_edge_def bind_eq_Some_conv)
  from insert_on_edge_ok [OF on_edge.IH this] obtain g2 m where "insert_on_edge g v nd = Some (g2, m)" "graph_ok g2" by blast
  then show ?case using on_edge.hyps(2) by simp
next
  case (fresh g dt sh g' v)
  show ?case by (rule create_value_ok(1) [OF fresh.IH fresh.hyps(2)])
next
  case (add_in g v g')
  show ?case by (rule boundary_steps_ok(1) [OF add_in.IH add_in.hyps(2)])
next
  case (add_out g v g')
  show ?case by (rule boundary_steps_ok(2) [OF add_out.IH add_out.hyps(2)])
next
  case (ins_out g k v g')
  show ?case by (rule boundary_steps_ok(3) [OF ins_out.IH ins_out.hyps(2)])
next
  case (rem_in g k g' v)
  show ?case by (rule boundary_steps_ok(4) [OF rem_in.IH rem_in.hyps(2)])
next
  case (rem_out g k g' v)
  show ?case by (rule boundary_steps_ok(5) [OF rem_out.IH rem_out.hyps(2)])
next
  case (rep_input g n i w g' v)
  show ?case by (rule replace_input_ok [OF rep_input.IH rep_input.hyps(2)])
next
  case (rep_uses g new old g')
  show ?case by (rule replace_all_uses_keeps [OF rep_uses.IH rep_uses.hyps(2,3)])
qed (simp_all add: set_initializer_def mark_value_type_unknown_def mark_value_type_known_def mark_value_shape_unknown_def
    mark_value_shape_known_def normalize_domains_ok gc_value_ok(1))

section \<open>Validation\<close>

lemma output_errors_clean:
  assumes "distinct vs" "\<forall>v \<in> set vs. try_value g v \<noteq> None" "set vs \<inter> P = {}"
  shows "output_errors g P vs = ([], P \<union> set vs)"
  using assms by (induction vs arbitrary: P) auto

lemma node_errors_clean:
  assumes "graph_ok g" "\<forall>(n, nd) \<in> set ns. try_node g n = Some nd" "distinct (map fst ns)"
    "\<forall>v \<in> P. \<exists>n. n \<notin> fst ` set ns \<and> produces (try_node g) n v"
  shows "node_errors g P ns = []"
  using assms(2-)
proof (induction ns arbitrary: P)
  case (Cons x ns)
  obtain n nd where x: "x = (n, nd)" by force
  have n: "try_node g n = Some nd" using Cons.prems(1) by (simp add: x)
  have l: "linked (try_node g) g" using assms(1) by (simp add: graph_ok_def)
  note N = linkedD(2) [OF l n]
  have live: "\<exists>val. try_value g v = Some val" if "produces (try_node g) m v" for m v
    using that linkedD(2) [OF l] by (auto simp: produces_def node_linked_def)
  have uniq: "m = m'" if "produces (try_node g) m v" "produces (try_node g) m' v" for m m' v
    using live [OF that(1)] link_iff(1) [OF l] that by (metis option.inject)
  have "set (outputs nd) \<inter> P = {}"
    using Cons.prems(3) uniq n by (auto simp: x produces_def)
  then have out: "output_errors g P (outputs nd) = ([], P \<union> set (outputs nd))"
    using N by (intro output_errors_clean) (auto simp: node_linked_def)
  have "(n, i) \<in> set (consumers val)" if "i < length (inputs nd)" "inputs nd ! i = Some v" "try_value g v = Some val" for i v val
    using link_iff(2) [OF l that(3), of n i] that n by (simp add: uses_slot_def)
  moreover have "try_value g v \<noteq> None" if "i < length (inputs nd)" "inputs nd ! i = Some v" for i v
    using N that by (auto simp: node_linked_def) (metis nth_mem)
  ultimately have "input_errors g (n, nd) = []" by (auto simp: input_errors_def split: option.splits) (metis option.distinct(1))
  moreover have "node_errors g (P \<union> set (outputs nd)) ns = []"
  proof (rule Cons.IH)
    have "produces (try_node g) n v" "n \<notin> fst ` set ns" if "v \<in> set (outputs nd)" for v
      using that n Cons.prems(2) by (auto simp: produces_def x)
    then show "\<forall>v \<in> P \<union> set (outputs nd). \<exists>n. n \<notin> fst ` set ns \<and> produces (try_node g) n v"
      using Cons.prems(3) by (fastforce simp: x)
  qed (use Cons.prems in \<open>auto simp: x\<close>)
  ultimately show ?case by (simp add: x out)
qed simp

lemma link_errors_clean:
  assumes "graph_ok g" "try_value g v = Some val"
  shows "link_errors g (v, val) = []"
proof -
  have l: "linked (try_node g) g" using assms(1) by (simp add: graph_ok_def)
  note I = link_iff [OF l assms(2)]
  have "\<exists>nd. try_node g p = Some nd \<and> v \<in> set (outputs nd)" if "producer val = Some p" for p
    using I(1) [of p] that by (auto simp: produces_def)
  moreover have "\<exists>nd. try_node g n = Some nd \<and> i < length (inputs nd) \<and> inputs nd ! i = Some v" if "(n, i) \<in> set (consumers val)" for n i
    using I(2) [of n i] that by (auto simp: uses_slot_def)
  ultimately show ?thesis by (fastforce simp: link_errors_def consumers_uses_def split: option.splits)
qed

text \<open>What is left for validation to find: the defects of the graph as a program.\<close>

definition program_errors :: "'w Graph \<Rightarrow> GraphError list" where
  "program_errors g = source_errors g @ sink_errors g @
     (if acyclic (set (node_edges g)) then [] else [CycleDetected]) @
     map (\<lambda>(d, v). InvalidOpsetImport d v) (filter (\<lambda>(d, v). v = 0) (opset_imports g))"

lemma graph_errors_run:
  assumes "graph_ok g"
  shows "graph_errors g = Some (program_errors g)"
proof -
  have ar: "arena_ok (gnodes g)" and io: "io_ok g" using assms by (auto simp: graph_ok_def arenas_ok_def)
  have "flags_ok g" using io by (auto simp: flags_ok_def io_ok_def arena_iter_set try_value_def)
  moreover obtain order where "topological_order g = Some (if acyclic (set (node_edges g)) then Inr order else Inl CycleDetected)"
    using topological_order_run [OF ar] by blast
  moreover have "node_errors g {} (arena_iter (gnodes g)) = []"
    by (rule node_errors_clean [OF assms]) (auto simp: arena_iter_set try_node_def arena_iter_map arena_keys_sorted)
  moreover have "concat (map (link_errors g) (arena_iter (gvalues g))) = []"
    using link_errors_clean [OF assms] by (auto simp: arena_iter_set try_value_def)
  ultimately show ?thesis by (auto simp: graph_errors_def program_errors_def)
qed

text \<open>A valid program: nothing feeds its inputs, something feeds its outputs, no node waits on itself.\<close>

definition valid_program :: "'w Graph \<Rightarrow> bool" where
  "valid_program g \<longleftrightarrow>
     (\<forall>v \<in> set (ginputs g). producer_of g v = None) \<and>
     (\<forall>v \<in> set (goutputs g). producer_of g v \<noteq> None \<or> v \<in> set (ginputs g) \<or> map_of (initializers g) v \<noteq> None) \<and>
     acyclic (set (node_edges g)) \<and> (\<forall>(d, v) \<in> set (opset_imports g). v \<noteq> 0)"

lemma program_errors_iff:
  assumes "graph_ok g"
  shows "program_errors g = [] \<longleftrightarrow> valid_program g"
proof -
  have io: "io_ok g" using assms by (simp add: graph_ok_def)
  have live: "\<exists>val. try_value g v = Some val \<and> is_graph_input val = (v \<in> set (ginputs g))" if "v \<in> set (ginputs g) \<union> set (goutputs g)" for v
    using io_live [OF io that] io by (auto simp: io_ok_def)
  have src: "(case try_value g v of None \<Rightarrow> [DanglingValue v] | Some val \<Rightarrow> if producer val \<noteq> None then [InputHasProducer v] else []) = [] \<longleftrightarrow>
      producer_of g v = None" if "v \<in> set (ginputs g)" for v
    using live [of v] that by (auto simp: producer_of_def split: if_splits)
  have snk: "(case try_value g v of None \<Rightarrow> [DanglingValue v] | Some val \<Rightarrow>
      if producer val = None \<and> \<not> (is_graph_input val \<or> map_of (initializers g) v \<noteq> None) then [MissingProducer v] else []) = [] \<longleftrightarrow>
      producer_of g v \<noteq> None \<or> v \<in> set (ginputs g) \<or> map_of (initializers g) v \<noteq> None" if "v \<in> set (goutputs g)" for v
    using live [of v] that by (auto simp: producer_of_def split: if_splits)
  have "source_errors g = [] \<longleftrightarrow> (\<forall>v \<in> set (ginputs g). producer_of g v = None)"
    using src by (simp add: source_errors_def cong: ball_cong)
  moreover have "sink_errors g = [] \<longleftrightarrow>
      (\<forall>v \<in> set (goutputs g). producer_of g v \<noteq> None \<or> v \<in> set (ginputs g) \<or> map_of (initializers g) v \<noteq> None)"
    using snk by (simp add: sink_errors_def cong: ball_cong)
  ultimately show ?thesis by (auto simp: program_errors_def valid_program_def filter_empty_conv)
qed

section \<open>Properties\<close>

definition link_error :: "GraphError \<Rightarrow> bool" where
  "link_error e \<longleftrightarrow> (case e of
     DanglingValue _ \<Rightarrow> True | DanglingNode _ \<Rightarrow> True | DuplicateOutput _ \<Rightarrow> True
   | ProducerLinkMismatch _ \<Rightarrow> True | ConsumerLinkMismatch _ \<Rightarrow> True | _ \<Rightarrow> False)"

lemma program_errors_kind:
  assumes "graph_ok g" "e \<in> set (program_errors g)"
  shows "\<not> link_error e"
proof -
  have io: "io_ok g" using assms(1) by (simp add: graph_ok_def)
  have A: "\<exists>v. e = InputHasProducer v" if "v \<in> set (ginputs g)"
    "e \<in> set (case try_value g v of None \<Rightarrow> [DanglingValue v] | Some val \<Rightarrow> if producer val \<noteq> None then [InputHasProducer v] else [])" for v
    using that io_live [OF io, of v] by (auto split: if_splits)
  have B: "\<exists>v. e = MissingProducer v" if "v \<in> set (goutputs g)"
    "e \<in> set (case try_value g v of None \<Rightarrow> [DanglingValue v] | Some val \<Rightarrow>
       if producer val = None \<and> \<not> (is_graph_input val \<or> map_of (initializers g) v \<noteq> None) then [MissingProducer v] else [])" for v
    using that io_live [OF io, of v] by (auto split: if_splits)
  have "e \<in> set (source_errors g) \<Longrightarrow> \<exists>v. e = InputHasProducer v" unfolding source_errors_def set_concat set_map by (blast dest: A)
  moreover have "e \<in> set (sink_errors g) \<Longrightarrow> \<exists>v. e = MissingProducer v" unfolding sink_errors_def set_concat set_map by (blast dest: B)
  ultimately have "(\<exists>v. e = InputHasProducer v) \<or> (\<exists>v. e = MissingProducer v) \<or> e = CycleDetected \<or> (\<exists>d v. e = InvalidOpsetImport d v)"
    using assms(2) by (auto simp: program_errors_def split: if_splits)
  then show ?thesis by (auto simp: link_error_def)
qed

lemma tree_errors_run:
  fixes t :: "'w GraphTree" and ts :: "'w GraphTree list"
  shows "\<forall>g \<in> set (tree_graphs t). graph_ok g \<Longrightarrow> tree_errors t = Some (concat (map program_errors (tree_graphs t)))"
    "\<forall>t \<in> set ts. \<forall>g \<in> set (tree_graphs t). graph_ok g \<Longrightarrow> forest_errors ts = Some (concat (map program_errors (concat (map tree_graphs ts))))"
  by (induction t and ts rule: tree_errors_forest_errors.induct) (auto simp: graph_errors_run)


text \<open>A chain of two nodes, \<open>0\<close> to \<open>1\<close> to \<open>2\<close>, built through the interface.\<close>

definition relu :: "nat \<Rightarrow> nat \<Rightarrow> Node" where
  "relu x y = \<lparr>nd_id = 0, op_type = ''Relu'', domain = [], nd_version = None, inputs = [Some x], outputs = [y]\<rparr>"

definition chain_values :: "unit Graph option" where
  "chain_values =
     (let (g1, x) = create_value graph_new Float32 [Static 4];
          (g2, y) = create_value g1 Float32 [Static 4];
          (g3, z) = create_value g2 Float32 [Static 4] in
      do { g4 \<leftarrow> add_input g3 x; add_output g4 z })"

definition chain :: "unit Graph option" where
  "chain = do { g \<leftarrow> chain_values; (g1, _) \<leftarrow> insert_node g (relu 1 2); (g2, _) \<leftarrow> insert_node g1 (relu 0 1); Some g2 }"

lemma wirable_code [code]:
  "wirable g nd self \<longleftrightarrow> distinct (outputs nd) \<and> (\<forall>v \<in> set (outputs nd). try_value g v \<noteq> None) \<and>
     (\<forall>s \<in> set (inputs nd). case s of None \<Rightarrow> True | Some v \<Rightarrow> try_value g v \<noteq> None) \<and>
     (\<forall>v \<in> set (outputs nd). producer_of g v = None \<or> producer_of g v = self)"
  by (auto simp: wirable_def node_linked_def split: option.splits)

lemma chain_values_reachable:
  assumes "chain_values = Some g"
  shows "graph_reachable g"
proof -
  obtain g1 x where 1: "create_value (graph_new :: unit Graph) Float32 [Static 4] = (g1, x)" by force
  obtain g2 y where 2: "create_value g1 Float32 [Static 4] = (g2, y)" by force
  obtain g3 z where 3: "create_value g2 Float32 [Static 4] = (g3, z)" by force
  obtain g4 where 4: "add_input g3 x = Some g4" "add_output g4 z = Some g"
    using assms by (auto simp: chain_values_def 1 2 3 bind_eq_Some_conv)
  note graph_reachable.fresh [OF graph_reachable.fresh [OF graph_reachable.fresh [OF graph_reachable.new 1] 2] 3]
  then show ?thesis by (rule graph_reachable.add_out [OF graph_reachable.add_in [OF _ 4(1)] 4(2)])
qed

lemma chain_wirable:
  "case chain_values of None \<Rightarrow> False | Some g \<Rightarrow> wirable g (relu 1 2) None \<and>
    (case insert_node g (relu 1 2) of None \<Rightarrow> False | Some (g1, _) \<Rightarrow> wirable g1 (relu 0 1) None \<and> insert_node g1 (relu 0 1) \<noteq> None)"
  by code_simp

lemma chain_reachable: "\<exists>g. chain = Some g \<and> graph_reachable g"
proof -
  obtain g g1 n g2 m where c: "chain_values = Some g" "wirable g (relu 1 2) None" "insert_node g (relu 1 2) = Some (g1, n)"
    "wirable g1 (relu 0 1) None" "insert_node g1 (relu 0 1) = Some (g2, m)"
    using chain_wirable by (auto split: option.splits)
  have "graph_reachable g2"
    by (rule graph_reachable.ins_node [OF graph_reachable.ins_node [OF chain_values_reachable [OF c(1)] c(2,3)] c(4,5)])
  moreover have "chain = Some g2" unfolding chain_def c(1) by (simp add: c(3,5) del: One_nat_def)
  ultimately show ?thesis by blast
qed


text \<open>
  C6. On every such graph the topological sort runs to an end without an index panic. It reports a
  cycle exactly when the producer-consumer edges have one; otherwise it returns every live node once,
  each time the smallest id among the nodes whose producers have all been emitted, which fixes the
  order.
\<close>

theorem topological_order_emits_least_ready:
  assumes "graph_reachable g"
  shows "\<exists>order. topological_order g = Some (if acyclic (set (node_edges g)) then Inr order else Inl CycleDetected) \<and>
    least_first (live_nodes g) (node_edges g) order \<and> distinct order \<and>
    (acyclic (set (node_edges g)) \<longleftrightarrow> set order = live_nodes g)"
proof -
  have ar: "arena_ok (gnodes g)" using reachable_graph_ok [OF assms] by (simp add: graph_ok_def arenas_ok_def)
  obtain order where o: "least_first (live_nodes g) (node_edges g) order" "available (live_nodes g) (node_edges g) (set order) = {}"
    "topological_order g = Some (if acyclic (set (node_edges g)) then Inr order else Inl CycleDetected)"
    using topological_order_run [OF ar] by blast
  show ?thesis using o least_first_distinct [OF o(1)] acyclic_iff_complete [OF o(1,2) live_finite node_edges_live] by blast
qed

theorem topological_order_emits_least_ready_witness:
  "\<exists>g. chain = Some g \<and> graph_reachable g \<and> topological_order g = Some (Inr [1, 0]) \<and> live_nodes g = {0, 1}"
proof -
  obtain g where g: "chain = Some g" "graph_reachable g" using chain_reachable by blast
  have "map_option topological_order chain = Some (Some (Inr [1, 0]))" by code_simp
  then have t: "topological_order g = Some (Inr [1, 0])" unfolding g(1) by simp
  obtain order where "topological_order g = Some (if acyclic (set (node_edges g)) then Inr order else Inl CycleDetected)"
    "acyclic (set (node_edges g)) \<longleftrightarrow> set order = live_nodes g" using topological_order_emits_least_ready [OF g(2)] by blast
  with t have "live_nodes g = set [1, 0]" by (simp split: if_splits)
  then show ?thesis using g t by (intro exI [of _ g]) auto
qed



end
