(* ===== verification/PlanInv.thy ===== *)
theory PlanInv
  imports ActivationPlan IrGraphReach
begin

text \<open>
  Correctness of the planner: what the live intervals are, what the best-fit scan finds, and the
  invariant of the walk: the occupants of a slot have disjoint lifetimes, and a slot is free exactly
  when all of them have ended.
\<close>

section \<open>Live intervals\<close>

text \<open>The schedule indices at which a value is read, counting the end of the schedule for an output.\<close>

definition marks :: "'w Graph \<Rightarrow> (nat \<times> nat) list \<Rightarrow> nat \<Rightarrow> nat \<Rightarrow> nat list" where
  "marks g index last_i v = use_indices g index v @ (if v \<in> set (goutputs g) then [last_i] else [])"

lemma extend_use_eq: "extend_use is iv = iv\<lparr>use_end := fold max is (use_end iv)\<rparr>"
  by (induction "is" arbitrary: iv) (simp_all add: extend_use_def max.commute)

lemma extend_intervals_get:
  "map_of (extend_intervals g m index last_i vs ivs) v =
     map_option (\<lambda>iv. iv\<lparr>use_end := fold max (concat (map (marks g index last_i) (filter (\<lambda>w. view_root m w = v) vs))) (use_end iv)\<rparr>) (map_of ivs v)"
proof (induction vs arbitrary: ivs)
  case (Cons w vs)
  show ?case
  proof (cases "map_of ivs (view_root m w)")
    case (Some iv)
    then show ?thesis by (auto simp: Cons.IH marks_def extend_use_eq Let_def max.commute)
  qed (auto simp: Cons.IH)
qed (simp add: map_option_idI)

lemma extend_intervals_keys: "map fst (extend_intervals g m index last_i vs ivs) = map fst ivs"
proof (induction vs arbitrary: ivs)
  case (Cons w vs)
  have "map fst (AList.update k x ivs) = map fst ivs" if "map_of ivs k = Some y" for k x y
    using that by (auto simp: AList.update_keys dest: map_of_SomeD) (metis image_iff fst_conv map_of_SomeD)
  then show ?case by (simp add: Cons.IH Let_def split: option.split)
qed simp

text \<open>The interval a value has: from its producer to the last reading of it or of a view into it.\<close>

definition def_index :: "'w Graph \<Rightarrow> nat list \<Rightarrow> nat \<Rightarrow> nat" where
  "def_index g order v = (case producer_of g v of None \<Rightarrow> 0 | Some p \<Rightarrow>
     (case map_of (zip order [0..<length order]) p of None \<Rightarrow> 0 | Some i \<Rightarrow> i))"

definition reads_through :: "'w Graph \<Rightarrow> ViewMap \<Rightarrow> nat list \<Rightarrow> nat \<Rightarrow> nat set" where
  "reads_through g m order v =
     (\<Union>w \<in> {w. try_value g w \<noteq> None \<and> view_root m w = v}.
        set (marks g (zip order [0..<length order]) (length order - 1) w))"

lemma liveness_intervals:
  assumes "live = liveness_of g m incl order"
  shows "map_of (intervals live) v =
    (if is_buffer_owner g m incl v
     then Some \<lparr>iv_def = def_index g order v, use_end = Max (insert (def_index g order v) (reads_through g m order v))\<rparr> else None)"
    and "map fst (intervals live) = filter (is_buffer_owner g m incl) (arena_keys (gvalues g))"
    and "distinct (map fst (intervals live))"
    and "set (owners live) = {v. is_buffer_owner g m incl v}" "distinct (owners live)"
    and "lv_order live = order" "order_index live = zip order [0..<length order]" "last_index live = length order - 1"
proof -
  let ?index = "zip order [0..<length order]" and ?last = "length order - 1" and ?ks = "arena_keys (gvalues g)"
  have ivs: "intervals live = extend_intervals g m ?index ?last ?ks (seed_intervals g m incl ?index)"
    by (simp add: assms liveness_of_def Let_def)
  have live: "is_buffer_owner g m incl v \<Longrightarrow> v \<in> set ?ks" for v
    by (auto simp: is_buffer_owner_def arena_keys_set try_value_def split: if_splits option.splits)
  have seed: "map_of (seed_intervals g m incl ?index) v =
    (if is_buffer_owner g m incl v then Some \<lparr>iv_def = def_index g order v, use_end = def_index g order v\<rparr> else None)" for v
    using live [of v] by (auto simp: seed_intervals_def def_index_def Let_def map_of_map_restrict restrict_map_def)
  have "set (concat (map (marks g ?index ?last) (filter (\<lambda>w. view_root m w = v) ?ks))) = reads_through g m order v"
    by (auto simp: reads_through_def arena_keys_set try_value_def)
  then have "fold max (concat (map (marks g ?index ?last) (filter (\<lambda>w. view_root m w = v) ?ks))) d = Max (insert d (reads_through g m order v))" for d
    by (metis Max.set_eq_fold list.simps(15))
  then show "map_of (intervals live) v =
    (if is_buffer_owner g m incl v
     then Some \<lparr>iv_def = def_index g order v, use_end = Max (insert (def_index g order v) (reads_through g m order v))\<rparr> else None)"
    by (simp add: ivs extend_intervals_get seed)
  show keys: "map fst (intervals live) = filter (is_buffer_owner g m incl) ?ks"
    by (simp add: ivs extend_intervals_keys seed_intervals_def Let_def comp_def)
  then show d: "distinct (map fst (intervals live))" by (simp add: arena_keys_sorted)
  have "set (map fst (intervals live)) = {v. is_buffer_owner g m incl v}" unfolding keys using live by auto
  then show "set (owners live) = {v. is_buffer_owner g m incl v}" "distinct (owners live)"
    using d by (auto simp: assms liveness_of_def Let_def)
  show "lv_order live = order" "order_index live = ?index" "last_index live = ?last" by (simp_all add: assms liveness_of_def Let_def)
qed

lemma reads_finite: "finite (reads_through g m order v)"
  unfolding reads_through_def try_value_def
  by (rule finite_UN_I) (auto intro: finite_subset [OF _ arena_live_finite [of "gvalues g"]])

section \<open>The best fit\<close>

abbreviation cap_of :: "SlotInfo list \<Rightarrow> nat \<Rightarrow> nat" where
  "cap_of ss s \<equiv> capacity_bytes (ss ! s)"

text \<open>What the scan knows after the prefix \<open>pre\<close> of the free list.\<close>

definition best_of :: "nat \<Rightarrow> SlotInfo list \<Rightarrow> nat list \<Rightarrow> (nat \<times> nat \<times> nat) option \<Rightarrow> bool" where
  "best_of need ss pre best =
     (case best of
        None \<Rightarrow> \<forall>x \<in> set pre. cap_of ss x < need
      | Some (j, c, s) \<Rightarrow> j < length pre \<and> pre ! j = s \<and> c = cap_of ss s \<and> need \<le> c \<and>
          (\<forall>x \<in> set pre. need \<le> cap_of ss x \<longrightarrow> c < cap_of ss x \<or> c = cap_of ss x \<and> s \<le> x))"

lemma best_fit_run:
  assumes "set free \<subseteq> {..<length ss}" "best_of need ss pre best"
  shows "\<exists>r. best_fit need ss (length pre) free best = Some r \<and> best_of need ss (pre @ free) r"
  using assms
proof (induction free arbitrary: pre best)
  case (Cons sid free)
  let ?cap = "cap_of ss sid"
  define better where "better = (case best of None \<Rightarrow> True | Some (_, best_cap, best_id) \<Rightarrow> ?cap < best_cap \<or> ?cap = best_cap \<and> sid < best_id)"
  define nxt where "nxt = (if ?cap < need then best else if better then Some (length pre, ?cap, sid) else best)"
  have "best_of need ss (pre @ [sid]) nxt"
    using Cons.prems(2) by (auto simp: best_of_def nxt_def better_def nth_append split: option.splits)
  from Cons.IH [OF _ this] Cons.prems(1) obtain r where
    "best_fit need ss (length (pre @ [sid])) free nxt = Some r" "best_of need ss ((pre @ [sid]) @ free) r" by auto
  moreover have "best_fit need ss (length pre) (sid # free) best = best_fit need ss (length (pre @ [sid])) free nxt"
    using Cons.prems(1) by (simp add: nxt_def better_def Let_def)
  ultimately show ?case by simp
qed simp

lemma allocate_run:
  assumes "set free \<subseteq> {..<length ss}" "distinct free"
  obtains (reuse) sid free' where "allocate_slot need ss free = Some (sid, ss, free')" "sid \<in> set free" "need \<le> cap_of ss sid"
      "set free' = set free - {sid}" "distinct free'"
      "\<forall>x \<in> set free. need \<le> cap_of ss x \<longrightarrow> cap_of ss sid < cap_of ss x \<or> cap_of ss sid = cap_of ss x \<and> sid \<le> x"
    | (fresh) "allocate_slot need ss free = Some (length ss, ss @ [\<lparr>si_id = length ss, capacity_bytes = need\<rparr>], free)"
      "\<forall>x \<in> set free. cap_of ss x < need"
proof -
  obtain r where r: "best_fit need ss 0 free None = Some r" "best_of need ss free r"
    using best_fit_run [OF assms(1), of need "[]" None] by (auto simp: best_of_def)
  show thesis
  proof (cases r)
    case None
    then show thesis using r by (intro fresh) (auto simp: allocate_slot_def best_of_def)
  next
    case (Some b)
    obtain j c s where b: "b = (j, c, s)" by (cases b)
    have j: "j < length free" "free ! j = s" "c = cap_of ss s" "need \<le> c"
      "\<forall>x \<in> set free. need \<le> cap_of ss x \<longrightarrow> c < cap_of ss x \<or> c = cap_of ss x \<and> s \<le> x"
      using r(2) by (auto simp: best_of_def Some b)
    have sp: "free = take j free @ s # drop (Suc j) free" using j(1,2) id_take_nth_drop [of j free] by simp
    have "distinct (take j free @ s # drop (Suc j) free)" using assms(2) sp by simp
    then have d: "distinct (remove_nth j free)" "s \<notin> set (remove_nth j free)" by (auto simp: remove_nth_def)
    have "set free = insert s (set (remove_nth j free))" using arg_cong [OF sp, of set] by (auto simp: remove_nth_def)
    then have "set (remove_nth j free) = set free - {s}" using d(2) by auto
    moreover have "allocate_slot need ss free = Some (s, ss, remove_nth j free)" using r(1) j(2) by (simp add: allocate_slot_def Some b)
    moreover have "s \<in> set free" using j(1,2) nth_mem by blast
    ultimately show thesis using j(3-5) d(1) by (intro reuse) auto
  qed
qed

section \<open>The invariant of the walk\<close>

text \<open>\<open>I\<close> gives the intervals and \<open>sz\<close> the sizes of the owners; \<open>t\<close> is the index being scheduled.\<close>

definition slots_ok :: "SlotInfo list \<Rightarrow> bool" where
  "slots_ok ss \<longleftrightarrow> (\<forall>k < length ss. si_id (ss ! k) = k)"

definition placed :: "(nat \<rightharpoonup> Interval) \<Rightarrow> (nat \<rightharpoonup> nat) \<Rightarrow> nat \<Rightarrow> SlotInfo list \<Rightarrow> (nat \<rightharpoonup> nat) \<Rightarrow> bool" where
  "placed I sz t ss A \<longleftrightarrow> (\<forall>v s. A v = Some s \<longrightarrow> s < length ss \<and>
     (\<exists>iv n. I v = Some iv \<and> iv_def iv \<le> t \<and> sz v = Some n \<and> n \<le> cap_of ss s))"

definition free_ended :: "(nat \<rightharpoonup> Interval) \<Rightarrow> nat \<Rightarrow> SlotInfo list \<Rightarrow> nat set \<Rightarrow> (nat \<rightharpoonup> nat) \<Rightarrow> bool" where
  "free_ended I t ss F A \<longleftrightarrow> (\<forall>s < length ss. s \<in> F \<longleftrightarrow> (\<forall>v iv. A v = Some s \<longrightarrow> I v = Some iv \<longrightarrow> use_end iv < t))"

definition disjoint_lives :: "(nat \<rightharpoonup> Interval) \<Rightarrow> (nat \<rightharpoonup> nat) \<Rightarrow> bool" where
  "disjoint_lives I A \<longleftrightarrow> (\<forall>v w s iv jv. v \<noteq> w \<longrightarrow> A v = Some s \<longrightarrow> A w = Some s \<longrightarrow> I v = Some iv \<longrightarrow> I w = Some jv \<longrightarrow> \<not> overlaps iv jv)"

definition plan_inv :: "(nat \<rightharpoonup> Interval) \<Rightarrow> (nat \<rightharpoonup> nat) \<Rightarrow> nat \<Rightarrow> PlanState \<Rightarrow> bool" where
  "plan_inv I sz t = (\<lambda>(ss, free, asg).
     slots_ok ss \<and> distinct free \<and> set free \<subseteq> {..<length ss} \<and> placed I sz t ss (map_of asg) \<and>
     free_ended I t ss (set free) (map_of asg) \<and> disjoint_lives I (map_of asg) \<and>
     sum_list (map capacity_bytes ss) \<le> (\<Sum>v \<in> dom (map_of asg). the (sz v)))"

lemma plan_invD:
  assumes "plan_inv I sz t (ss, free, asg)"
  shows "slots_ok ss" "distinct free" "set free \<subseteq> {..<length ss}" "placed I sz t ss (map_of asg)"
    "free_ended I t ss (set free) (map_of asg)" "disjoint_lives I (map_of asg)"
    "sum_list (map capacity_bytes ss) \<le> (\<Sum>v \<in> dom (map_of asg). the (sz v))"
  using assms by (auto simp: plan_inv_def)

lemma disjoint_update:
  assumes "disjoint_lives I A" "A v = None" "I v = Some iv" "\<And>w jv. A w = Some s \<Longrightarrow> I w = Some jv \<Longrightarrow> use_end jv < iv_def iv"
  shows "disjoint_lives I (A(v \<mapsto> s))"
  using assms unfolding disjoint_lives_def overlaps_def by (auto split: if_splits) (metis leD)+

lemma placed_update:
  assumes "placed I sz t ss A" "I v = Some iv" "iv_def iv \<le> t" "sz v = Some n" "s < length ss" "n \<le> cap_of ss s"
  shows "placed I sz t ss (A(v \<mapsto> s))"
  using assms unfolding placed_def by auto

lemma placed_grow: "placed I sz t ss A \<Longrightarrow> placed I sz t (ss @ [x]) A"
  unfolding placed_def by (fastforce simp: nth_append)

lemma allocate_one:
  assumes inv: "plan_inv I sz t (ss, free, asg)" and v: "map_of asg v = None" "I v = Some iv" "iv_def iv = t" "t \<le> use_end iv" "sz v = Some n"
  obtains sid ss' free' where "allocate_slot n ss free = Some (sid, ss', free')" "plan_inv I sz t (ss', free', AList.update v sid asg)"
proof -
  let ?A = "map_of asg"
  note i = plan_invD [OF inv]
  have fin: "finite (dom ?A)" by (rule finite_dom_map_of)
  have sum: "(\<Sum>w \<in> dom (?A(v \<mapsto> s)). the (sz w)) = n + (\<Sum>w \<in> dom ?A. the (sz w))" for s
    using v fin by (simp add: domIff)
  from i(3,2) show thesis
  proof (cases rule: allocate_run [where need = n])
    case (reuse sid free')
    have s: "sid < length ss" using reuse(2) i(3) by auto
    have ended: "use_end jv < t" if "?A w = Some sid" "I w = Some jv" for w jv
      using i(5) s reuse(2) that by (auto simp: free_ended_def)
    have "free_ended I t ss (set free') (?A(v \<mapsto> sid))"
      using i(5) v reuse(4) unfolding free_ended_def by (auto split: if_splits)
    moreover have "disjoint_lives I (?A(v \<mapsto> sid))" using i(6) v ended by (intro disjoint_update) auto
    moreover have "placed I sz t ss (?A(v \<mapsto> sid))" using i(4) v s reuse(3) by (intro placed_update) auto
    ultimately have "plan_inv I sz t (ss, free', AList.update v sid asg)"
      using i(1,3,7) reuse(4,5) sum [of sid] by (auto simp: plan_inv_def)
    then show thesis using reuse(1) that by blast
  next
    case fresh
    let ?ss = "ss @ [\<lparr>si_id = length ss, capacity_bytes = n\<rparr>]"
    have unused: "?A w \<noteq> Some (length ss)" for w using i(4) by (auto simp: placed_def)
    have "free_ended I t ?ss (set free) (?A(v \<mapsto> length ss))"
      using i(5,3) v unfolding free_ended_def by (auto simp: less_Suc_eq split: if_splits) (metis option.distinct(1))
    moreover have "disjoint_lives I (?A(v \<mapsto> length ss))" using i(6) v unused by (intro disjoint_update) auto
    moreover have "placed I sz t ?ss (?A(v \<mapsto> length ss))" using placed_grow [OF i(4)] v by (intro placed_update) auto
    moreover have "slots_ok ?ss" using i(1) by (auto simp: slots_ok_def nth_append less_Suc_eq)
    moreover have "set free \<subseteq> {..<length ?ss}" using i(3) by auto
    ultimately have "plan_inv I sz t (?ss, free, AList.update v (length ss) asg)"
      using i(2,7) sum [of "length ss"] by (simp add: plan_inv_def)
    then show thesis using fresh(1) that by blast
  qed
qed

lemma allocate_all_run:
  assumes "plan_inv I (map_of sizes) t st" "distinct vs"
    "\<And>v. v \<in> set vs \<Longrightarrow> map_of (snd (snd st)) v = None \<and> (\<exists>iv n. I v = Some iv \<and> iv_def iv = t \<and> t \<le> use_end iv \<and> map_of sizes v = Some n)"
  shows "\<exists>st'. allocate_all sizes vs st = Some st' \<and> plan_inv I (map_of sizes) t st' \<and>
    dom (map_of (snd (snd st'))) = dom (map_of (snd (snd st))) \<union> set vs"
  using assms
proof (induction sizes vs st rule: allocate_all.induct)
  case (2 sizes v vs ss free asg)
  obtain iv n where v: "I v = Some iv" "iv_def iv = t" "t \<le> use_end iv" "map_of sizes v = Some n" "map_of asg v = None"
    using "2.prems"(3) [of v] by auto
  obtain sid ss' free' where a: "allocate_slot n ss free = Some (sid, ss', free')" "plan_inv I (map_of sizes) t (ss', free', AList.update v sid asg)"
    by (rule allocate_one [OF "2.prems"(1) v(5) v(1-4)])
  have new: "map_of (snd (snd (ss', free', AList.update v sid asg))) w = None \<and>
      (\<exists>iv n. I w = Some iv \<and> iv_def iv = t \<and> t \<le> use_end iv \<and> map_of sizes w = Some n)" if "w \<in> set vs" for w
    using "2.prems"(2) "2.prems"(3) [of w] that by auto
  have "distinct vs" using "2.prems"(2) by simp
  from "2.IH" [OF v(4) a(1) refl refl a(2) this new]
  obtain st' where st': "allocate_all sizes vs (ss', free', AList.update v sid asg) = Some st'" "plan_inv I (map_of sizes) t st'"
    "dom (map_of (snd (snd st'))) = dom (map_of (AList.update v sid asg)) \<union> set vs" by (metis snd_conv)
  moreover have "dom (map_of (AList.update v sid asg)) = insert v (dom (map_of asg))" by auto
  ultimately show ?case using v(4) a(1) by (intro exI [of _ st']) simp
qed auto

lemma distinct_map_filter:
  assumes "distinct xs" "\<And>x y s. x \<in> set xs \<Longrightarrow> y \<in> set xs \<Longrightarrow> f x = Some s \<Longrightarrow> f y = Some s \<Longrightarrow> x = y"
  shows "distinct (List.map_filter f xs)"
  using assms
proof (induction xs)
  case (Cons x xs)
  then have "distinct (List.map_filter f xs)" by auto
  moreover have "s \<notin> set (List.map_filter f xs)" if "f x = Some s" for s
  proof
    assume "s \<in> set (List.map_filter f xs)"
    then obtain y where "y \<in> set xs" "f y = Some s" by (auto simp: List.map_filter_def)
    then show False using Cons.prems that by (metis distinct.simps(2) list.set_intros)
  qed
  ultimately show ?case by (auto simp: List.map_filter_simps split: option.split)
qed (simp add: List.map_filter_simps)

lemma retire_run:
  assumes inv: "plan_inv I sz t (ss, free, asg)" and r: "distinct rs" "\<And>v. v \<in> set rs \<longleftrightarrow> (\<exists>iv. I v = Some iv \<and> use_end iv = t)"
  shows "plan_inv I sz (Suc t) (retire rs (ss, free, asg))"
proof -
  let ?A = "map_of asg" and ?new = "List.map_filter (map_of asg) rs"
  note i = plan_invD [OF inv]
  have new: "s \<in> set ?new \<longleftrightarrow> (\<exists>v iv. I v = Some iv \<and> use_end iv = t \<and> ?A v = Some s)" for s
    using r(2) by (force simp: List.map_filter_def)
  have ended: "use_end jv < t" if o: "?A v = Some s" "I v = Some iv" "use_end iv = t" and w: "?A w = Some s" "I w = Some jv" "w \<noteq> v" for v w s iv jv
  proof -
    have "iv_def iv \<le> t" "iv_def jv \<le> t" using i(4) o w by (auto simp: placed_def) (metis option.inject)+
    moreover have "\<not> overlaps iv jv" using i(6) o w unfolding disjoint_lives_def by metis
    ultimately show ?thesis using o(3) by (auto simp: overlaps_def)
  qed
  have uniq: "v = w" if "v \<in> set rs" "w \<in> set rs" "?A v = Some s" "?A w = Some s" for v w s
    using that r(2) ended [of v s] by (metis less_irrefl)
  have "distinct ?new" using r(1) uniq by (rule distinct_map_filter)
  moreover have "set free \<inter> set ?new = {}"
  proof (intro equals0I)
    fix s assume s: "s \<in> set free \<inter> set ?new"
    then obtain v iv where v: "I v = Some iv" "use_end iv = t" "?A v = Some s" using new by auto
    have "s < length ss" "s \<in> set free" using s i(3) by auto
    then show False using i(5) v unfolding free_ended_def by (metis less_irrefl)
  qed
  moreover have "set ?new \<subseteq> {..<length ss}" using new i(4) by (auto simp: placed_def)
  moreover have "free_ended I (Suc t) ss (set free \<union> set ?new) ?A" unfolding free_ended_def
  proof (intro allI impI iffI)
    fix s v iv assume s: "s < length ss" "s \<in> set free \<union> set ?new" "?A v = Some s" "I v = Some iv"
    show "use_end iv < Suc t"
    proof (cases "s \<in> set free")
      case True
      then show ?thesis using i(5) s by (auto simp: free_ended_def intro: less_SucI)
    next
      case False
      then obtain w jv where "I w = Some jv" "use_end jv = t" "?A w = Some s" using s(2) new by auto
      then show ?thesis using ended [of w s jv v iv] s by (cases "v = w") auto
    qed
  next
    fix s assume s: "s < length ss" "\<forall>v iv. ?A v = Some s \<longrightarrow> I v = Some iv \<longrightarrow> use_end iv < Suc t"
    show "s \<in> set free \<union> set ?new"
    proof (cases "\<exists>v iv. ?A v = Some s \<and> I v = Some iv \<and> use_end iv = t")
      case True
      then show ?thesis using new by blast
    next
      case False
      then have "s \<in> set free" using i(5) s unfolding free_ended_def by (metis less_SucE)
      then show ?thesis by simp
    qed
  qed
  moreover have "placed I sz (Suc t) ss ?A" using i(4) unfolding placed_def by (meson le_SucI)
  ultimately show ?thesis using i by (auto simp: plan_inv_def retire_def)
qed

end
