(* ===== verification/PlanSafety.thy ===== *)
theory PlanSafety
  imports PlanInv "HOL-Library.Multiset"
begin

text \<open>
  The planner on graphs built through the mutation interface: every owner gets a slot, the plan passes
  its validation, its size is bounded from both sides, and nothing depends on the order in which hash
  maps are iterated.
\<close>

section \<open>The schedule and the owners\<close>

definition hash_order :: "(nat list \<Rightarrow> nat list) \<Rightarrow> bool" where
  "hash_order ho \<longleftrightarrow> (\<forall>xs. mset (ho xs) = mset xs)"

lemma hash_orderD: "hash_order ho \<Longrightarrow> set (ho xs) = set xs" "hash_order ho \<Longrightarrow> distinct (ho xs) \<longleftrightarrow> distinct xs"
  unfolding hash_order_def by (metis mset_eq_setD, metis mset_eq_imp_distinct_iff)

definition schedules :: "'w Graph \<Rightarrow> nat list \<Rightarrow> bool" where
  "schedules g order \<longleftrightarrow> distinct order \<and> set order = live_nodes g"

lemma index_of:
  assumes "distinct order" "i < length order"
  shows "map_of (zip order [0..<length order]) (order ! i) = Some i"
  using assms by (simp add: map_of_zip_nth)

lemma producer_linked:
  assumes "graph_ok g"
  shows "producer_of g v = Some n \<longleftrightarrow> (\<exists>nd. try_node g n = Some nd \<and> v \<in> set (outputs nd))"
proof -
  have l: "linked (try_node g) g" using assms by (simp add: graph_ok_def)
  show ?thesis
  proof (cases "try_value g v")
    case None
    then show ?thesis using linkedD(2) [OF l] by (auto simp: producer_of_def node_linked_def) (metis option.distinct(1))
  next
    case (Some val)
    then show ?thesis using link_iff(1) [OF l Some] by (auto simp: producer_of_def produces_def)
  qed
qed

lemma def_index_of:
  assumes "schedules g order" "graph_ok g" "producer_of g v = Some p"
  obtains i where "i < length order" "order ! i = p" "def_index g order v = i"
proof -
  have "p \<in> set order" using assms producer_linked [OF assms(2), of v p] by (auto simp: schedules_def live_nodes_def)
  then obtain i where "i < length order" "order ! i = p" by (auto simp: in_set_conv_nth)
  then show thesis using that index_of [of order i] assms by (auto simp: def_index_def schedules_def)
qed

lemma owner_cases:
  assumes "is_buffer_owner g m incl v"
  shows "producer_of g v \<noteq> None \<or> incl"
  using assms by (auto simp: is_buffer_owner_def producer_of_def split: if_splits option.splits)

section \<open>The walk\<close>

text \<open>The owners that have a slot once the first \<open>i\<close> nodes have been scheduled.\<close>

definition started :: "'w Graph \<Rightarrow> ViewMap \<Rightarrow> bool \<Rightarrow> nat list \<Rightarrow> nat \<Rightarrow> nat set" where
  "started g m incl order i = {v. is_buffer_owner g m incl v \<and> (producer_of g v = None \<or> def_index g order v < i)}"

lemma started_step:
  assumes "schedules g order" "graph_ok g" "i < length order" "try_node g (order ! i) = Some nd"
  shows "started g m incl order (Suc i) = started g m incl order i \<union> {v \<in> set (outputs nd). is_buffer_owner g m incl v}"
    and "v \<in> set (outputs nd) \<Longrightarrow> def_index g order v = i \<and> producer_of g v \<noteq> None"
proof -
  have out: "v \<in> set (outputs nd) \<longleftrightarrow> producer_of g v = Some (order ! i)" for v
    using producer_linked [OF assms(2), of v "order ! i"] assms(4) by auto
  have d: "distinct order" using assms(1) by (simp add: schedules_def)
  have idx: "def_index g order v = i" if "producer_of g v = Some (order ! i)" for v
    using index_of [OF d assms(3)] that by (simp add: def_index_def)
  then show "v \<in> set (outputs nd) \<Longrightarrow> def_index g order v = i \<and> producer_of g v \<noteq> None" using out by auto
  have "producer_of g v = None \<or> def_index g order v < Suc i \<longleftrightarrow> (producer_of g v = None \<or> def_index g order v < i) \<or> v \<in> set (outputs nd)" for v
  proof (cases "producer_of g v")
    case (Some p)
    obtain j where "j < length order" "order ! j = p" "def_index g order v = j" by (rule def_index_of [OF assms(1,2) Some])
    then show ?thesis using Some out [of v] idx [of v] d assms(3) by (auto simp: less_Suc_eq nth_eq_iff_index_eq)
  qed simp
  then show "started g m incl order (Suc i) = started g m incl order i \<union> {v \<in> set (outputs nd). is_buffer_owner g m incl v}"
    unfolding started_def by blast
qed

lemma use_end_ge:
  assumes "live = liveness_of g m incl order" "is_buffer_owner g m incl v"
  shows "\<exists>iv. map_of (intervals live) v = Some iv \<and> iv_def iv = def_index g order v \<and> def_index g order v \<le> use_end iv"
  using liveness_intervals(1) [OF assms(1), of v] assms(2) reads_finite [of g m order v] by simp

lemma retiring:
  assumes "hash_order ho" "live = liveness_of g m incl order"
  shows "distinct (retire_at ho live i)" "v \<in> set (retire_at ho live i) \<longleftrightarrow> (\<exists>iv. map_of (intervals live) v = Some iv \<and> use_end iv = i)"
proof -
  show "distinct (retire_at ho live i)"
    using liveness_intervals(3) [OF assms(2)] hash_orderD(2) [OF assms(1)] by (simp add: retire_at_def)
  show "v \<in> set (retire_at ho live i) \<longleftrightarrow> (\<exists>iv. map_of (intervals live) v = Some iv \<and> use_end iv = i)"
    using map_of_SomeD by (force simp: retire_at_def hash_orderD(1) [OF assms(1)] split: option.splits)
qed

lemma walk_step:
  assumes "schedules g order" "graph_ok g" "live = liveness_of g m incl order" "hash_order ho"
    "\<And>v. is_buffer_owner g m incl v \<Longrightarrow> map_of sizes v \<noteq> None"
    "plan_inv (map_of (intervals live)) (map_of sizes) i st" "dom (map_of (snd (snd st))) = started g m incl order i" "i < length order"
  obtains nd st1 where "try_node g (order ! i) = Some nd"
    "allocate_all sizes (filter (\<lambda>v. map_of (intervals live) v \<noteq> None) (outputs nd)) st = Some st1"
    "plan_inv (map_of (intervals live)) (map_of sizes) i st1"
    "plan_inv (map_of (intervals live)) (map_of sizes) (Suc i) (retire (retire_at ho live i) st1)"
    "dom (map_of (snd (snd (retire (retire_at ho live i) st1)))) = started g m incl order (Suc i)"
proof -
  have "order ! i \<in> live_nodes g" using assms(1,8) nth_mem by (auto simp: schedules_def)
  then obtain nd where nd: "try_node g (order ! i) = Some nd" by (auto simp: live_nodes_def)
  note step = started_step [OF assms(1,2,8) nd]
  let ?vs = "filter (\<lambda>v. map_of (intervals live) v \<noteq> None) (outputs nd)"
  have owner: "map_of (intervals live) v \<noteq> None \<longleftrightarrow> is_buffer_owner g m incl v" for v using liveness_intervals(1) [OF assms(3), of v] by simp
  have "distinct ?vs" using assms(2) nd linkedD(2) [of "try_node g" g "order ! i" nd] by (simp add: graph_ok_def node_linked_def)
  moreover have "map_of (snd (snd st)) v = None \<and> (\<exists>iv k. map_of (intervals live) v = Some iv \<and> iv_def iv = i \<and> i \<le> use_end iv \<and> map_of sizes v = Some k)"
    if "v \<in> set ?vs" for v
  proof -
    have v: "v \<in> set (outputs nd)" "is_buffer_owner g m incl v" using that owner by auto
    have "v \<notin> started g m incl order i" using step(2) [OF v(1)] by (simp add: started_def)
    then have "map_of (snd (snd st)) v = None" using assms(7) by auto
    then show ?thesis using use_end_ge [OF assms(3) v(2)] step(2) [OF v(1)] assms(5) [OF v(2)] by auto
  qed
  ultimately obtain st1 where a: "allocate_all sizes ?vs st = Some st1" "plan_inv (map_of (intervals live)) (map_of sizes) i st1"
    "dom (map_of (snd (snd st1))) = started g m incl order i \<union> set ?vs"
    using allocate_all_run [OF assms(6), of ?vs] assms(7) by auto
  obtain ss free asg where st1: "st1 = (ss, free, asg)" by (cases st1)
  have "plan_inv (map_of (intervals live)) (map_of sizes) (Suc i) (retire (retire_at ho live i) st1)"
    unfolding st1 by (rule retire_run [OF a(2) [unfolded st1] retiring [OF assms(4,3)]])
  moreover have "set ?vs = {v \<in> set (outputs nd). is_buffer_owner g m incl v}" by (simp only: set_filter owner)
  then have "dom (map_of (snd (snd (retire (retire_at ho live i) st1)))) = started g m incl order (Suc i)"
    using a(3) step(1) [of m incl] by (simp add: st1 retire_def)
  ultimately show thesis using that nd a(1,2) by blast
qed

lemma started_all:
  assumes "schedules g order" "graph_ok g"
  shows "started g m incl order (length order) = {v. is_buffer_owner g m incl v}"
proof -
  have "producer_of g v = None \<or> def_index g order v < length order" for v
  proof (cases "producer_of g v")
    case (Some p)
    show ?thesis by (rule def_index_of [OF assms Some]) simp
  qed simp
  then show ?thesis by (simp add: started_def)
qed

text \<open>Two runs that iterate their hash maps differently stay together up to the order of the free list.\<close>

definition same_plan :: "PlanState \<Rightarrow> PlanState \<Rightarrow> bool" where
  "same_plan = (\<lambda>(ss, free, asg) (ss', free', asg'). ss = ss' \<and> asg = asg' \<and> set free = set free')"

lemma same_plan_refl: "same_plan st st"
  by (cases st) (simp add: same_plan_def)

lemma allocate_same:
  assumes "set free \<subseteq> {..<length ss}" "distinct free" "distinct free'" "set free' = set free"
  shows "\<exists>sid ss1 f f'. allocate_slot need ss free = Some (sid, ss1, f) \<and> allocate_slot need ss free' = Some (sid, ss1, f') \<and>
    set f' = set f \<and> distinct f \<and> distinct f' \<and> set f \<subseteq> {..<length ss1}"
  using assms(1,2)
proof (cases rule: allocate_run [where need = need])
  case (reuse sid f)
  have sub: "set free' \<subseteq> {..<length ss}" using assms(1,4) by simp
  from sub assms(3) show ?thesis
  proof (cases rule: allocate_run [where need = need])
    case r': (reuse sid' f')
    have "sid = sid'" using reuse(2,3,6) r'(2,3,6) assms(4) by (metis le_antisym less_asym less_irrefl)
    then show ?thesis using reuse r' assms by auto
  next
    case fresh
    then show ?thesis using reuse(2,3) assms(4) by (metis leD)
  qed
next
  case fresh
  have sub: "set free' \<subseteq> {..<length ss}" using assms(1,4) by simp
  from sub assms(3) show ?thesis
  proof (cases rule: allocate_run [where need = need])
    case (reuse sid' f')
    then show ?thesis using fresh(2) assms(4) by (metis leD)
  next
    case f': fresh
    then show ?thesis using fresh assms by auto
  qed
qed

lemma allocate_all_same:
  assumes "same_plan (ss, free, asg) st'" "set free \<subseteq> {..<length ss}" "distinct free" "distinct (fst (snd st'))"
    "allocate_all sizes vs (ss, free, asg) = Some r" "allocate_all sizes vs st' = Some r'"
  shows "same_plan r r'"
  using assms
proof (induction vs arbitrary: ss free asg st')
  case (Cons v vs)
  obtain free' where st': "st' = (ss, free', asg)" "set free' = set free" "distinct free'" using Cons.prems(1,4) by (cases st') (auto simp: same_plan_def)
  obtain need where need: "map_of sizes v = Some need" using Cons.prems(5) by (cases "map_of sizes v") auto
  obtain sid ss1 f f' where a: "allocate_slot need ss free = Some (sid, ss1, f)" "allocate_slot need ss free' = Some (sid, ss1, f')"
    "set f' = set f" "distinct f" "distinct f'" "set f \<subseteq> {..<length ss1}"
    using allocate_same [OF Cons.prems(2,3) st'(3,2)] by metis
  show ?case
    by (rule Cons.IH [of ss1 f "AList.update v sid asg" "(ss1, f', AList.update v sid asg)"])
      (use a need Cons.prems(5,6) st' in \<open>auto simp: same_plan_def\<close>)
qed simp

lemma walk_run:
  assumes "schedules g order" "graph_ok g" "live = liveness_of g m incl order" "hash_order ho" "hash_order ho'"
    "\<And>v. is_buffer_owner g m incl v \<Longrightarrow> map_of sizes v \<noteq> None"
    "plan_inv (map_of (intervals live)) (map_of sizes) i st" "dom (map_of (snd (snd st))) = started g m incl order i"
    "plan_inv (map_of (intervals live)) (map_of sizes) i st'" "same_plan st st'" "ns = drop i order" "i \<le> length order"
  shows "\<exists>r r'. walk ho g live sizes i ns st = Some r \<and> walk ho' g live sizes i ns st' = Some r' \<and> same_plan r r' \<and>
    plan_inv (map_of (intervals live)) (map_of sizes) (length order) r \<and>
    dom (map_of (snd (snd r))) = {v. is_buffer_owner g m incl v}"
  using assms(7-)
proof (induction ns arbitrary: i st st')
  case Nil
  then have i: "i = length order" by simp
  then show ?case using Nil started_all [OF assms(1,2)] by auto
next
  case (Cons n ns)
  have i0: "i < length order" using Cons.prems(5) by (cases "i < length order") auto
  have i: "order ! i = n" "ns = drop (Suc i) order"
    using trans [OF Cons_nth_drop_Suc [OF i0] Cons.prems(5) [symmetric]] by simp_all
  have dom': "dom (map_of (snd (snd st'))) = started g m incl order i" using Cons.prems(2,4) by (auto simp: same_plan_def split: prod.splits)
  obtain nd st1 where s: "try_node g n = Some nd"
    "allocate_all sizes (filter (\<lambda>v. map_of (intervals live) v \<noteq> None) (outputs nd)) st = Some st1"
    "plan_inv (map_of (intervals live)) (map_of sizes) (Suc i) (retire (retire_at ho live i) st1)"
    "dom (map_of (snd (snd (retire (retire_at ho live i) st1)))) = started g m incl order (Suc i)"
    using walk_step [OF assms(1-4,6) Cons.prems(1,2) i0] i(1) by metis
  obtain st1' where s': "allocate_all sizes (filter (\<lambda>v. map_of (intervals live) v \<noteq> None) (outputs nd)) st' = Some st1'"
    "plan_inv (map_of (intervals live)) (map_of sizes) (Suc i) (retire (retire_at ho' live i) st1')"
    using walk_step [OF assms(1-3,5,6) Cons.prems(3) dom' i0] i(1) s(1) by (metis option.inject)
  obtain ss free asg where st: "st = (ss, free, asg)" by (cases st)
  have "distinct (fst (snd st'))" using plan_invD(2) Cons.prems(3) by (metis prod.collapse)
  then have "same_plan st1 st1'"
    using allocate_all_same [OF Cons.prems(4) [unfolded st] plan_invD(3,2) [OF Cons.prems(1) [unfolded st]] _ s(2) [unfolded st] s'(1)] by blast
  moreover have "set (retire_at ho live i) = set (retire_at ho' live i)"
    using retiring(2) [OF assms(4,3), of _ i] retiring(2) [OF assms(5,3), of _ i] by blast
  ultimately have "same_plan (retire (retire_at ho live i) st1) (retire (retire_at ho' live i) st1')"
    by (auto simp: same_plan_def retire_def List.map_filter_def split: prod.splits)
  from Cons.IH [OF s(3,4) s'(2) this i(2)] i0 s(1,2) s'(1) show ?case by simp
qed

section \<open>The plan\<close>

text \<open>What a complete plan promises, for the intervals \<open>I\<close> and sizes \<open>sz\<close> of the owners.\<close>

definition plan_sound :: "(nat \<rightharpoonup> Interval) \<Rightarrow> (nat \<rightharpoonup> nat) \<Rightarrow> ActivationPlan \<Rightarrow> bool" where
  "plan_sound I sz p \<longleftrightarrow>
     dom (map_of (assignments p)) = dom I \<and> slots_ok (slots p) \<and>
     (\<forall>v s. map_of (assignments p) v = Some s \<longrightarrow> s < length (slots p) \<and> (\<exists>n. sz v = Some n \<and> n \<le> cap_of (slots p) s)) \<and>
     disjoint_lives I (map_of (assignments p)) \<and>
     peak_bytes p = sum_list (map capacity_bytes (slots p)) \<and> num_slots p = length (slots p) \<and>
     naive_bytes p = (\<Sum>v \<in> dom I. the (sz v)) \<and> peak_bytes p \<le> naive_bytes p"

lemma plan_with_deferred:
  assumes "live = liveness_of g m incl order" "\<exists>v. is_buffer_owner g m incl v \<and> size_oracle v = None"
  shows "plan_with ho g size_oracle incl live = Some (Deferred (sort (filter (\<lambda>v. size_oracle v = None) (owners live))))"
  using assms(2) liveness_intervals(4) [OF assms(1)] by (auto simp: plan_with_def Let_def filter_empty_conv)

lemma plan_with_complete:
  assumes "schedules g order" "graph_ok g" "live = liveness_of g m incl order" "hash_order ho" "hash_order ho'"
    "\<And>v. is_buffer_owner g m incl v \<Longrightarrow> size_oracle v \<noteq> None"
    "(\<Sum>v | is_buffer_owner g m incl v. the (size_oracle v)) \<le> u64_max"
  shows "\<exists>p. plan_with ho g size_oracle incl live = Some (Complete p) \<and> plan_with ho' g size_oracle incl live = Some (Complete p) \<and> plan_sound (map_of (intervals live)) size_oracle p"
proof -
  let ?I = "map_of (intervals live)" and ?sizes = "map (\<lambda>v. (v, the (size_oracle v))) (owners live)"
  note L = liveness_intervals [OF assms(3)]
  have domI: "dom ?I = {v. is_buffer_owner g m incl v}" using L(1) by (auto simp: dom_def)
  have none: "filter (\<lambda>v. size_oracle v = None) (owners live) = []" using L(4) assms(6) by (auto simp: filter_empty_conv)
  have sz: "map_of ?sizes v = (if is_buffer_owner g m incl v then size_oracle v else None)" for v
    using L(4) assms(6) [of v] by (auto simp: map_of_map_restrict restrict_map_def)
  have naive: "sum_list (map snd ?sizes) = (\<Sum>v | is_buffer_owner g m incl v. the (size_oracle v))"
    using L(4,5) by (simp add: comp_def sum_list_distinct_conv_sum_set)
  have inv0: "plan_inv ?I (map_of ?sizes) 0 ([], [], [])" by (simp add: plan_inv_def slots_ok_def placed_def free_ended_def disjoint_lives_def)
  have owner: "producer_of g v \<noteq> None \<or> incl" if "is_buffer_owner g m incl v" for v using owner_cases [OF that] .
  have start: "started g m incl order 0 = {v. is_buffer_owner g m incl v \<and> producer_of g v = None}" by (auto simp: started_def)
  have "\<exists>st0. (if incl then allocate_all ?sizes (input_owners g live) ([], [], []) else Some ([], [], [])) = Some st0 \<and>
    plan_inv ?I (map_of ?sizes) 0 st0 \<and> dom (map_of (snd (snd st0))) = started g m incl order 0"
  proof (cases incl)
    case True
    have "distinct (input_owners g live)" "set (input_owners g live) = started g m incl order 0"
      using L(4,5) start by (auto simp: input_owners_def)
    moreover have "\<exists>iv n. ?I v = Some iv \<and> iv_def iv = 0 \<and> 0 \<le> use_end iv \<and> map_of ?sizes v = Some n" if "v \<in> started g m incl order 0" for v
      using that use_end_ge [OF assms(3), of v] assms(6) [of v] sz [of v] by (auto simp: start def_index_def)
    ultimately show ?thesis using allocate_all_run [OF inv0, of "input_owners g live"] True by auto
  next
    case False
    then show ?thesis using inv0 owner start by auto
  qed
  then obtain st0 where st0: "(if incl then allocate_all ?sizes (input_owners g live) ([], [], []) else Some ([], [], [])) = Some st0"
    "plan_inv ?I (map_of ?sizes) 0 st0" "dom (map_of (snd (snd st0))) = started g m incl order 0" by blast
  have "map_of ?sizes v \<noteq> None" if "is_buffer_owner g m incl v" for v using sz assms(6) [OF that] that by simp
  then obtain ss free asg free' where w: "walk ho g live ?sizes 0 order st0 = Some (ss, free, asg)" "plan_inv ?I (map_of ?sizes) (length order) (ss, free, asg)"
    "dom (map_of asg) = {v. is_buffer_owner g m incl v}" "walk ho' g live ?sizes 0 order st0 = Some (ss, free', asg)"
    using walk_run [OF assms(1-5) _ st0(2,3,2) same_plan_refl, of "drop 0 order"] by (auto simp: same_plan_def)
  note P = plan_invD [OF w(2)]
  have tot: "(\<Sum>v \<in> dom (map_of asg). the (map_of ?sizes v)) = (\<Sum>v | is_buffer_owner g m incl v. the (size_oracle v))"
    by (simp add: w(3) sz)
  define p where "p = \<lparr>assignments = asg, slots = ss, peak_bytes = sum_list (map capacity_bytes ss), num_slots = length ss,
    naive_bytes = (\<Sum>v | is_buffer_owner g m incl v. the (size_oracle v))\<rparr>"
  have "plan_with ho g size_oracle incl live = Some (Complete p)" "plan_with ho' g size_oracle incl live = Some (Complete p)"
    using none naive assms(7) st0(1) w(1,4) P(7) tot L(6) by (simp_all add: plan_with_def Let_def sum_usize_def p_def)
  moreover have "s < length ss \<and> (\<exists>n. size_oracle v = Some n \<and> n \<le> cap_of ss s)" if "map_of asg v = Some s" for v s
    using P(4) [unfolded placed_def, rule_format, OF that] sz [of v] by (auto split: if_splits)
  then have "plan_sound ?I size_oracle p"
    unfolding plan_sound_def p_def using P(1,6,7) tot w(3) domI by simp
  ultimately show ?thesis by blast
qed

section \<open>Validation accepts a sound plan\<close>

lemma slot_lookup:
  assumes "slots_ok ss" "s < length ss"
  shows "map_of (rev (map (\<lambda>x. (si_id x, capacity_bytes x)) ss)) s = Some (cap_of ss s)"
proof -
  have ids: "map si_id ss = [0..<length ss]" using assms(1) by (auto simp: slots_ok_def intro: nth_equalityI)
  then have "distinct (rev (map si_id ss))" by simp
  then have "distinct (map fst (rev (map (\<lambda>x. (si_id x, capacity_bytes x)) ss)))" by (simp add: rev_map comp_def)
  moreover have "(s, cap_of ss s) \<in> set (rev (map (\<lambda>x. (si_id x, capacity_bytes x)) ss))"
    using assms by (force simp: slots_ok_def in_set_conv_nth)
  ultimately show ?thesis by simp
qed

definition grouped :: "(nat \<rightharpoonup> nat) \<Rightarrow> nat set \<Rightarrow> (nat \<times> nat list) list \<Rightarrow> bool" where
  "grouped A D by_slot \<longleftrightarrow> (\<forall>s ms. map_of by_slot s = Some ms \<longrightarrow> distinct ms \<and> set ms \<subseteq> {v \<in> D. A v = Some s})"

lemma check_owners_run:
  assumes "plan_sound I sz p" "distinct vs" "set vs \<subseteq> dom I" "set vs \<inter> D = {}" "grouped (map_of (assignments p)) D by_slot"
  shows "\<exists>by'. check_owners p sz vs by_slot = Inr by' \<and> grouped (map_of (assignments p)) (D \<union> set vs) by'"
  using assms(2-)
proof (induction vs arbitrary: D by_slot)
  case (Cons v vs)
  let ?A = "map_of (assignments p)"
  have "v \<in> dom ?A" using Cons.prems(2) assms(1) by (simp add: plan_sound_def)
  then obtain s where s: "?A v = Some s" by auto
  then obtain n where n: "s < length (slots p)" "sz v = Some n" "n \<le> cap_of (slots p) s" using assms(1) unfolding plan_sound_def by blast
  let ?by = "AList.update s ((case map_of by_slot s of None \<Rightarrow> [] | Some ms \<Rightarrow> ms) @ [v]) by_slot"
  have "slots_ok (slots p)" using assms(1) by (simp add: plan_sound_def)
  then have eq: "check_owners p sz (v # vs) by_slot = check_owners p sz vs ?by" using s n slot_lookup [OF _ n(1)] by simp
  have old: "distinct ms \<and> set ms \<subseteq> {w \<in> D. ?A w = Some k}" if "map_of by_slot k = Some ms" for k ms
    using Cons.prems(4) that unfolding grouped_def by blast
  have "distinct ms \<and> set ms \<subseteq> {w \<in> insert v D. ?A w = Some k}" if "map_of ?by k = Some ms" for k ms
  proof (cases "k = s")
    case True
    let ?ms = "case map_of by_slot s of None \<Rightarrow> [] | Some ms \<Rightarrow> ms"
    have "distinct ?ms \<and> set ?ms \<subseteq> {w \<in> D. ?A w = Some s}" using old [of s] by (cases "map_of by_slot s") auto
    moreover have "ms = ?ms @ [v]" using that True by simp
    moreover have "v \<notin> D" using Cons.prems(3) by simp
    ultimately show ?thesis using s True by auto
  next
    case False
    then have "map_of by_slot k = Some ms" using that by simp
    from old [OF this] show ?thesis by blast
  qed
  then have "grouped ?A (insert v D) ?by" unfolding grouped_def by blast
  from Cons.IH [OF _ _ _ this] Cons.prems(1-3) show ?case unfolding eq by auto
qed simp

lemma conflict_free:
  assumes "\<forall>b \<in> set bs. \<exists>ia ib. map_of (intervals live) a = Some ia \<and> map_of (intervals live) b = Some ib \<and> \<not> overlaps ia ib"
  shows "conflict_with live sid a bs = Some None"
  using assms by (induction bs) auto

lemma slot_conflict_free:
  assumes "disjoint_lives (map_of (intervals live)) A" "distinct ms" "\<forall>v \<in> set ms. A v = Some sid \<and> map_of (intervals live) v \<noteq> None"
  shows "slot_conflict live sid ms = Some None"
  using assms(2,3)
proof (induction ms)
  case (Cons a ms)
  have "conflict_with live sid a ms = Some None"
  proof (rule conflict_free, intro ballI)
    fix b assume b: "b \<in> set ms"
    obtain ia ib where i: "map_of (intervals live) a = Some ia" "map_of (intervals live) b = Some ib" using Cons.prems(2) b by auto
    have "a \<noteq> b" "A a = Some sid" "A b = Some sid" using Cons.prems b by auto
    then show "\<exists>ia ib. map_of (intervals live) a = Some ia \<and> map_of (intervals live) b = Some ib \<and> \<not> overlaps ia ib"
      using assms(1) i unfolding disjoint_lives_def by blast
  qed
  then show ?case using Cons by simp
qed simp

lemma check_slots_free:
  assumes "\<forall>sid \<in> set sids. \<exists>ms. map_of by_slot sid = Some ms \<and> slot_conflict live sid ms = Some None"
  shows "check_slots live by_slot sids = Some None"
  using assms by (induction sids) auto

lemma check_views_free:
  assumes "live = liveness_of g m incl order" "set vs \<subseteq> {v. try_value g v \<noteq> None}"
  shows "check_views g m live vs = None"
  using assms(2)
proof (induction vs)
  case (Cons v vs)
  note L = liveness_intervals [OF assms(1)]
  have "view_use g live v \<le> use_end iv" if iv: "map_of (intervals live) (view_root m v) = Some iv" for iv
  proof -
    let ?R = "reads_through g m order (view_root m v)"
    have u: "use_end iv = Max (insert (def_index g order (view_root m v)) ?R)" using iv L(1) by (auto split: if_splits)
    have "x \<le> use_end iv" if "x \<in> ?R" for x using that reads_finite [of g m order] by (simp add: u)
    moreover have "set (marks g (order_index live) (last_index live) v) \<subseteq> ?R"
      using Cons.prems by (auto simp: reads_through_def L(7,8))
    ultimately have b: "\<forall>x \<in> set (marks g (order_index live) (last_index live) v). x \<le> use_end iv" by auto
    then have "view_output_end g live v \<le> use_end iv" by (auto simp: view_output_end_def marks_def)
    then show ?thesis using b by (auto simp: view_use_def Let_def marks_def)
  qed
  then show ?case using Cons by (auto simp: not_less split: option.splits)
qed simp

lemma validate_with_accepts:
  assumes "live = liveness_of g m incl order" "hash_order ho" "plan_sound (map_of (intervals live)) sz p"
  shows "validate_with ho p g m sz live = Some (Inr ())"
proof -
  let ?I = "map_of (intervals live)" and ?A = "map_of (assignments p)" and ?ks = "map fst (intervals live)"
  have d: "distinct (ho ?ks)" "set (ho ?ks) = dom ?I"
    using liveness_intervals(3) [OF assms(1)] hash_orderD [OF assms(2)] by (auto simp: dom_map_of_conv_image_fst)
  obtain by' where c: "check_owners p sz (ho ?ks) [] = Inr by'" "grouped ?A (dom ?I) by'"
    using check_owners_run [OF assms(3) d(1), of "{}" "[]"] d(2) by (auto simp: grouped_def)
  have dl: "disjoint_lives ?I ?A" using assms(3) by (simp add: plan_sound_def)
  have "\<exists>ms. map_of by' sid = Some ms \<and> slot_conflict live sid ms = Some None" if "sid \<in> set (ho (map fst by'))" for sid
  proof -
    have "sid \<in> fst ` set by'" using that hash_orderD(1) [OF assms(2)] by simp
    then obtain ms where ms: "map_of by' sid = Some ms" by (metis map_of_eq_None_iff not_None_eq)
    have "distinct ms \<and> set ms \<subseteq> {v \<in> dom ?I. ?A v = Some sid}" using c(2) ms unfolding grouped_def by blast
    then have "distinct ms" "\<forall>v \<in> set ms. ?A v = Some sid \<and> ?I v \<noteq> None" by blast+
    then show ?thesis using ms slot_conflict_free [OF dl] by blast
  qed
  then have "check_slots live by' (ho (map fst by')) = Some None" by (intro check_slots_free) blast
  moreover have "check_views g m live (arena_keys (gvalues g)) = None"
    by (rule check_views_free [OF assms(1)]) (simp add: arena_keys_set try_value_def)
  ultimately show ?thesis by (simp add: validate_with_def c(1))
qed

section \<open>The planner as a whole\<close>

lemma compute_liveness_run:
  assumes "graph_ok g" "topological_order g = Some (Inr order)"
  shows "compute_liveness g m incl = Some (Inr (liveness_of g m incl order))" "schedules g order"
  using assms topological_order_complete [of g order] by (simp_all add: compute_liveness_def schedules_def graph_ok_def arenas_ok_def)

lemma compute_livenessD:
  assumes "compute_liveness g m incl = Some (Inr live)"
  obtains order where "topological_order g = Some (Inr order)" "live = liveness_of g m incl order"
proof -
  obtain topo where topo: "topological_order g = Some topo"
    "(case topo of Inl _ \<Rightarrow> Inl Cycle | Inr order \<Rightarrow> Inr (liveness_of g m incl order)) = Inr live"
    using assms by (auto simp: compute_liveness_def bind_eq_Some_conv)
  show thesis using that topo by (cases topo) auto
qed

text \<open>The owners in the order of their ids; their sizes must be known and their sum fit the word.\<close>

definition owner_list :: "'w Graph \<Rightarrow> ViewMap \<Rightarrow> bool \<Rightarrow> nat list" where
  "owner_list g m incl = filter (is_buffer_owner g m incl) (arena_keys (gvalues g))"

lemma owner_list_props: "distinct (owner_list g m incl)" "set (owner_list g m incl) = {v. is_buffer_owner g m incl v}"
  by (auto simp: owner_list_def arena_keys_sorted arena_keys_set is_buffer_owner_def try_value_def split: if_splits option.splits)

definition sizes_fit :: "'w Graph \<Rightarrow> ViewMap \<Rightarrow> bool \<Rightarrow> (nat \<Rightarrow> nat option) \<Rightarrow> bool" where
  "sizes_fit g m incl size_oracle \<longleftrightarrow>
     list_all (\<lambda>v. size_oracle v \<noteq> None) (owner_list g m incl) \<and> sum_list (map (\<lambda>v. the (size_oracle v)) (owner_list g m incl)) \<le> u64_max"

lemma sizes_fitD:
  assumes "sizes_fit g m incl size_oracle"
  shows "is_buffer_owner g m incl v \<Longrightarrow> size_oracle v \<noteq> None" "(\<Sum>v | is_buffer_owner g m incl v. the (size_oracle v)) \<le> u64_max"
  using assms owner_list_props [of g m incl] sum_list_distinct_conv_sum_set [OF owner_list_props(1), of "\<lambda>v. the (size_oracle v)" g m incl]
  by (auto simp: sizes_fit_def list_all_iff)

lemma plan_with_same:
  assumes "schedules g order" "graph_ok g" "live = liveness_of g m incl order" "hash_order ho" "hash_order ho'"
  shows "plan_with ho g size_oracle incl live = plan_with ho' g size_oracle incl live"
proof (cases "\<exists>v. is_buffer_owner g m incl v \<and> size_oracle v = None")
  case True
  then show ?thesis using plan_with_deferred [OF assms(3)] by metis
next
  case known: False
  note L = liveness_intervals [OF assms(3)]
  have k: "size_oracle v \<noteq> None" if "is_buffer_owner g m incl v" for v using known that by auto
  show ?thesis
  proof (cases "(\<Sum>v | is_buffer_owner g m incl v. the (size_oracle v)) \<le> u64_max")
    case True
    obtain p where "plan_with ho g size_oracle incl live = Some (Complete p)" "plan_with ho' g size_oracle incl live = Some (Complete p)"
      using plan_with_complete [OF assms k True] by blast
    then show ?thesis by simp
  next
    case False
    have "sum_list (map (\<lambda>v. the (size_oracle v)) (owners live)) = (\<Sum>v | is_buffer_owner g m incl v. the (size_oracle v))"
      using L(4,5) by (simp add: sum_list_distinct_conv_sum_set)
    then show ?thesis using False known L(4) by (simp add: plan_with_def Let_def sum_usize_def comp_def filter_empty_conv)
  qed
qed

lemma complete_sound:
  assumes "graph_ok g" "hash_order ho" "compute_liveness g m incl = Some (Inr live)" "plan_activations ho g m size_oracle incl = Some (Inr (Complete p))"
  shows "plan_sound (map_of (intervals live)) size_oracle p"
proof -
  obtain order where o: "topological_order g = Some (Inr order)" "live = liveness_of g m incl order"
    by (rule compute_livenessD [OF assms(3)])
  note sch = compute_liveness_run(2) [OF assms(1) o(1)] and L = liveness_intervals [OF o(2)]
  have p: "plan_with ho g size_oracle incl live = Some (Complete p)" using assms(3,4) by (simp add: plan_activations_def)
  have known: "size_oracle v \<noteq> None" if "is_buffer_owner g m incl v" for v
    using plan_with_deferred [OF o(2), of size_oracle ho] p that by (metis PlanStatus.distinct(1) option.inject)
  have "sum_list (map (\<lambda>v. the (size_oracle v)) (owners live)) = (\<Sum>v | is_buffer_owner g m incl v. the (size_oracle v))"
    using L(4,5) by (simp add: sum_list_distinct_conv_sum_set)
  then have "(\<Sum>v | is_buffer_owner g m incl v. the (size_oracle v)) \<le> u64_max"
    using p known L(4) by (auto simp: plan_with_def Let_def sum_usize_def comp_def filter_empty_conv bind_eq_Some_conv split: if_splits)
  from plan_with_complete [OF sch assms(1) o(2) assms(2,2) known this] show ?thesis using p by auto
qed

text \<open>The buffers alive at one index sit in different slots, so the arena holds them all.\<close>

lemma live_set_fits:
  assumes "plan_sound I sz p" "finite (dom I)"
  shows "(\<Sum>v | (\<exists>iv. I v = Some iv \<and> iv_def iv \<le> t \<and> t \<le> use_end iv). the (sz v)) \<le> peak_bytes p"
proof -
  let ?L = "{v. \<exists>iv. I v = Some iv \<and> iv_def iv \<le> t \<and> t \<le> use_end iv}" and ?A = "map_of (assignments p)"
  define slot where "slot v = the (?A v)" for v
  have fin: "finite ?L" by (rule finite_subset [OF _ assms(2)]) auto
  have A: "?A v = Some (slot v)" if "v \<in> ?L" for v
  proof -
    have "v \<in> dom I" using that by auto
    then have "v \<in> dom ?A" using assms(1) by (simp add: plan_sound_def)
    then show ?thesis by (auto simp: slot_def)
  qed
  have fits: "slot v < length (slots p)" "the (sz v) \<le> cap_of (slots p) (slot v)" if "v \<in> ?L" for v
  proof -
    have "slot v < length (slots p) \<and> (\<exists>n. sz v = Some n \<and> n \<le> cap_of (slots p) (slot v))"
      using A [OF that] assms(1) unfolding plan_sound_def by blast
    then show "slot v < length (slots p)" "the (sz v) \<le> cap_of (slots p) (slot v)" by auto
  qed
  have inj: "inj_on slot ?L"
  proof (rule inj_onI)
    fix v w assume v: "v \<in> ?L" "w \<in> ?L" "slot v = slot w"
    then obtain iv jv where "I v = Some iv" "I w = Some jv" "overlaps iv jv" by (auto simp: overlaps_def)
    moreover have "?A v = Some (slot v)" "?A w = Some (slot v)" using A [OF v(1)] A [OF v(2)] v(3) by auto
    moreover have "disjoint_lives I ?A" using assms(1) by (simp add: plan_sound_def)
    ultimately show "v = w" unfolding disjoint_lives_def by blast
  qed
  have "(\<Sum>v \<in> ?L. the (sz v)) \<le> (\<Sum>v \<in> ?L. cap_of (slots p) (slot v))" using fits by (intro sum_mono) auto
  also have "\<dots> = (\<Sum>s \<in> slot ` ?L. cap_of (slots p) s)" using inj by (simp add: sum.reindex)
  also have "\<dots> \<le> (\<Sum>s < length (slots p). cap_of (slots p) s)" using fits by (intro sum_mono2) auto
  also have "\<dots> = peak_bytes p" using assms(1) by (simp add: plan_sound_def sum_list_sum_nth atLeast0LessThan)
  finally show ?thesis .
qed

section \<open>Properties\<close>

text \<open>
  C3. On a schedulable graph built through the mutation interface, whose owners have known sizes with
  a sum that fits the machine word, the planner returns a complete plan, whatever the views. The plan
  gives every owner an existing slot that is large enough, never lets two owners with overlapping
  lifetimes share one, takes at least the bytes alive at any one index and at most those of one buffer
  per owner, and passes the independent validation, in whatever order either of them walks its hash
  maps.
\<close>

theorem complete_plans_pass_validation:
  assumes "graph_reachable g" "topological_order g = Some (Inr order)" "hash_order ho" "hash_order ho'" "sizes_fit g m incl size_oracle"
  shows "\<exists>p. plan_activations ho g m size_oracle incl = Some (Inr (Complete p)) \<and>
    plan_sound (map_of (intervals (liveness_of g m incl order))) size_oracle p \<and>
    (\<forall>t. (\<Sum>v | (\<exists>iv. map_of (intervals (liveness_of g m incl order)) v = Some iv \<and> iv_def iv \<le> t \<and> t \<le> use_end iv). the (size_oracle v)) \<le> peak_bytes p) \<and>
    validate_plan ho' p g m size_oracle incl = Some (Inr ())"
proof -
  have ok: "graph_ok g" by (rule reachable_graph_ok [OF assms(1)])
  note live = compute_liveness_run [OF ok assms(2)]
  obtain p where "plan_with ho g size_oracle incl (liveness_of g m incl order) = Some (Complete p)"
    "plan_sound (map_of (intervals (liveness_of g m incl order))) size_oracle p"
    using plan_with_complete [OF live(2) ok refl assms(3,3) sizes_fitD [OF assms(5)]] by blast
  then show ?thesis using live(1) validate_with_accepts [OF refl assms(4)] live_set_fits [OF _ finite_dom_map_of]
    by (intro exI [of _ p]) (simp add: plan_activations_def validate_plan_def)
qed

text \<open>The chain of two nodes, with its input in the arena: the output takes the input's slot over.\<close>

definition chain_live :: Liveness where
  "chain_live = \<lparr>order_index = [(1, 0), (0, 1)], lv_order = [1, 0], last_index = 1,
     intervals = [(0, \<lparr>iv_def = 0, use_end = 0\<rparr>), (1, \<lparr>iv_def = 0, use_end = 1\<rparr>), (2, \<lparr>iv_def = 1, use_end = 1\<rparr>)],
     owners = [0, 1, 2]\<rparr>"

definition chain_plan :: ActivationPlan where
  "chain_plan = \<lparr>assignments = [(0, 0), (1, 1), (2, 0)],
     slots = [\<lparr>si_id = 0, capacity_bytes = 16\<rparr>, \<lparr>si_id = 1, capacity_bytes = 16\<rparr>],
     peak_bytes = 32, num_slots = 2, naive_bytes = 48\<rparr>"

lemma chain_eval:
  assumes "chain = Some g"
  shows "topological_order g = Some (Inr [1, 0])" "sizes_fit g [] True (static_size g)"
    "compute_liveness g [] True = Some (Inr chain_live)" "plan_activations rev g [] (static_size g) True = Some (Inr (Complete chain_plan))"
proof -
  have "map_option (\<lambda>g. (topological_order g, sizes_fit g [] True (static_size g), compute_liveness g [] True,
      plan_activations rev g [] (static_size g) True)) chain =
    Some (Some (Inr [1, 0]), True, Some (Inr chain_live), Some (Inr (Complete chain_plan)))" by code_simp
  then show "topological_order g = Some (Inr [1, 0])" "sizes_fit g [] True (static_size g)"
    "compute_liveness g [] True = Some (Inr chain_live)" "plan_activations rev g [] (static_size g) True = Some (Inr (Complete chain_plan))"
    unfolding assms by simp_all
qed

lemma hash_order_rev: "hash_order rev"
  by (simp add: hash_order_def)

theorem complete_plans_pass_validation_witness:
  "\<exists>g. chain = Some g \<and> validate_plan id chain_plan g [] (static_size g) True = Some (Inr ()) \<and>
    plan_sound (map_of (intervals (liveness_of g [] True [1, 0]))) (static_size g) chain_plan"
proof -
  obtain g where g: "chain = Some g" "graph_reachable g" using chain_reachable by blast
  have "hash_order id" by (simp add: hash_order_def)
  from complete_plans_pass_validation [OF g(2) chain_eval(1) [OF g(1)] hash_order_rev this chain_eval(2) [OF g(1)]]
  show ?thesis using g(1) chain_eval(4) [OF g(1)] by (intro exI [of _ g]) simp
qed

text \<open>
  The arena a complete plan asks for is at least the buffers alive at any one index of the
  schedule together, and at most one buffer per owner.
\<close>

lemma peak_is_between_live_and_naive:
  assumes "graph_reachable g" "hash_order ho" "compute_liveness g m incl = Some (Inr live)"
    "plan_activations ho g m size_oracle incl = Some (Inr (Complete p))"
  shows "(\<Sum>v | (\<exists>iv. map_of (intervals live) v = Some iv \<and> iv_def iv \<le> t \<and> t \<le> use_end iv). the (size_oracle v)) \<le> peak_bytes p \<and>
    peak_bytes p \<le> naive_bytes p \<and> naive_bytes p = (\<Sum>v \<in> dom (map_of (intervals live)). the (size_oracle v))"
proof -
  have s: "plan_sound (map_of (intervals live)) size_oracle p" by (rule complete_sound [OF reachable_graph_ok [OF assms(1)] assms(2-4)])
  show ?thesis using live_set_fits [OF s finite_dom_map_of, of t] s by (simp add: plan_sound_def)
qed

text \<open>
  The outcome of planning, whether a plan, a deferral or an error, does not depend on the order
  in which the hash maps of the run are iterated.
\<close>

lemma planning_ignores_hash_order:
  assumes "graph_reachable g" "hash_order ho" "hash_order ho'"
  shows "plan_activations ho g m size_oracle incl = plan_activations ho' g m size_oracle incl"
proof (cases "\<exists>order. topological_order g = Some (Inr order)")
  case True
  then obtain order where o: "topological_order g = Some (Inr order)" by blast
  have ok: "graph_ok g" by (rule reachable_graph_ok [OF assms(1)])
  note live = compute_liveness_run [OF ok o]
  show ?thesis using plan_with_same [OF live(2) ok refl assms(2,3)] live(1) by (simp add: plan_activations_def)
next
  case False
  show ?thesis
  proof (cases "topological_order g")
    case (Some topo)
    then show ?thesis using False by (cases topo) (auto simp: plan_activations_def compute_liveness_def)
  qed (simp add: plan_activations_def compute_liveness_def)
qed

end
