(* ===== verification/PlanBounds.thy ===== *)
theory PlanBounds
  imports PlanSafety
begin

text \<open>
  Planning at the upper bounds of symbolic dimensions: the plan made for the bounds serves every run
  below them.
\<close>

section \<open>Sizes grow with the bounds\<close>

lemma checked_mul_mono:
  assumes "checked_mul_usize a b = Some r" "a' \<le> a" "b' \<le> b"
  shows "\<exists>r'. checked_mul_usize a' b' = Some r' \<and> r' \<le> r"
proof -
  have "a' * b' \<le> a * b" using assms(2,3) by (rule mult_le_mono)
  then show ?thesis using assms(1) by (auto simp: checked_mul_usize_def split: if_splits)
qed

definition ceil_div :: "nat \<Rightarrow> nat \<Rightarrow> nat" where
  "ceil_div n k = n div k + (if n mod k = 0 then 0 else 1)"

lemma ceil_div_mono:
  assumes "n' \<le> n"
  shows "ceil_div n' k \<le> ceil_div n k"
proof (cases "n' div k = n div k")
  case True
  have "n' mod k \<le> n mod k" using assms True by (metis add_le_cancel_left div_mult_mod_eq)
  then show ?thesis using True by (auto simp: ceil_div_def)
next
  case False
  then have "n' div k < n div k" using div_le_mono [OF assms, of k] by simp
  then show ?thesis by (simp add: ceil_div_def)
qed

lemma checked_storage_mono:
  assumes "checked_storage_bytes t n = Some r" "n' \<le> n"
  shows "\<exists>r'. checked_storage_bytes t n' = Some r' \<and> r' \<le> r"
proof (cases "is_sub_byte t")
  case True
  then show ?thesis using assms ceil_div_mono [OF assms(2), of "8 div bit_size t"]
    by (auto simp: checked_storage_bytes_def Let_def ceil_div_def split: if_splits)
next
  case False
  then show ?thesis using assms checked_mul_mono [of n "byte_size t" r n' "byte_size t"]
    by (auto simp: checked_storage_bytes_def split: if_splits)
qed

text \<open>A run binds every bounded symbol, to at most its bound.\<close>

definition within_bounds :: "(nat \<times> nat) list \<Rightarrow> (nat \<times> nat) list \<Rightarrow> bool" where
  "within_bounds run bounds \<longleftrightarrow> (\<forall>s b. map_of bounds s = Some b \<longrightarrow> (\<exists>b'. map_of run s = Some b' \<and> b' \<le> b))"

lemma bounded_product_mono:
  assumes "within_bounds run bounds" "bounded_product bounds ds n = Some r" "n' \<le> n"
  shows "\<exists>r'. bounded_product run ds n' = Some r' \<and> r' \<le> r"
  using assms(2,3)
proof (induction ds arbitrary: n n')
  case (Cons d ds)
  let ?ext = "\<lambda>bs. case d of Static k \<Rightarrow> Some k | Symbolic s \<Rightarrow> map_of bs s"
  obtain e k where e: "?ext bounds = Some e" "checked_mul_usize n e = Some k" "bounded_product bounds ds k = Some r"
    using Cons.prems(1) by (auto simp: bind_eq_Some_conv)
  obtain e' where e': "?ext run = Some e'" "e' \<le> e" using e(1) assms(1) by (cases d) (auto simp: within_bounds_def)
  obtain k' where "checked_mul_usize n' e' = Some k'" "k' \<le> k" using checked_mul_mono [OF e(2) Cons.prems(2) e'(2)] by blast
  then show ?case using Cons.IH [OF e(3), of k'] e'(1) by simp
qed auto

lemma bounded_size_mono:
  assumes "within_bounds run bounds" "bounded_size g v bounds = Some r"
  shows "\<exists>r'. bounded_size g v run = Some r' \<and> r' \<le> r"
proof -
  obtain val n where v: "try_value g v = Some val" "bounded_product bounds (vl_shape val) 1 = Some n" "checked_storage_bytes (vl_dtype val) n = Some r"
    using assms(2) by (auto simp: bounded_size_def bind_eq_Some_conv)
  obtain n' where n': "bounded_product run (vl_shape val) 1 = Some n'" "n' \<le> n" using bounded_product_mono [OF assms(1) v(2) order_refl] by blast
  show ?thesis using checked_storage_mono [OF v(3) n'(2)] v(1) n'(1) by (simp add: bounded_size_def)
qed

section \<open>One plan for every run below the bounds\<close>

text \<open>Validation asks of the sizes only that they fit.\<close>

lemma check_owners_cong:
  assumes "\<forall>v s n. map_of (assignments p) v = Some s \<longrightarrow> sz' v = Some n \<longrightarrow> (\<exists>n0. sz v = Some n0 \<and> n \<le> n0)"
    "check_owners p sz vs by_slot = Inr by'"
  shows "check_owners p sz' vs by_slot = Inr by'"
  using assms(2)
proof (induction vs arbitrary: by_slot)
  case (Cons v vs)
  obtain s where s: "map_of (assignments p) v = Some s" using Cons.prems by (cases "map_of (assignments p) v") auto
  obtain cap where c: "map_of (rev (map (\<lambda>s. (si_id s, capacity_bytes s)) (slots p))) s = Some cap"
    using Cons.prems s by (cases "map_of (rev (map (\<lambda>s. (si_id s, capacity_bytes s)) (slots p))) s") auto
  let ?by = "AList.update s ((case map_of by_slot s of None \<Rightarrow> [] | Some ms \<Rightarrow> ms) @ [v]) by_slot"
  have rest: "check_owners p sz vs ?by = Inr by'" and fits: "\<And>n. sz v = Some n \<Longrightarrow> n \<le> cap"
    using Cons.prems s c by (auto split: option.splits if_splits)
  have "n \<le> cap" if "sz' v = Some n" for n using assms(1) s that fits by (metis le_trans)
  then show ?case using Cons.IH [OF rest] s c by (auto simp: not_less split: option.split)
qed simp

text \<open>
  C20. A complete plan made at the bounds of the symbolic dimensions is what the reservation at those
  bounds reports, and it passes validation for every run whose dimensions stay within the bounds.
\<close>

theorem plan_at_bounds_serves_every_run:
  assumes "graph_reachable g" "hash_order ho" "hash_order ho'" "within_bounds run bounds"
    "plan_activations ho g m (\<lambda>v. bounded_size g v bounds) incl = Some (Inr (Complete p))"
  shows "peak_activation_bytes_at_bounds ho g m bounds incl = Some (Inr (Some (peak_bytes p))) \<and>
    validate_plan ho' p g m (\<lambda>v. bounded_size g v run) incl = Some (Inr ())"
proof -
  have ok: "graph_ok g" by (rule reachable_graph_ok [OF assms(1)])
  obtain r where r: "compute_liveness g m incl = Some r" using assms(5) by (auto simp: plan_activations_def bind_eq_Some_conv)
  obtain live where live: "compute_liveness g m incl = Some (Inr live)" using assms(5) r by (cases r) (auto simp: plan_activations_def)
  obtain order where o: "live = liveness_of g m incl order" by (rule compute_livenessD [OF live])
  have s: "plan_sound (map_of (intervals live)) (\<lambda>v. bounded_size g v bounds) p" by (rule complete_sound [OF ok assms(2) live assms(5)])
  have v: "validate_with ho' p g m (\<lambda>v. bounded_size g v bounds) live = Some (Inr ())" by (rule validate_with_accepts [OF o assms(3) s])
  have "\<exists>n0. bounded_size g v bounds = Some n0 \<and> n \<le> n0" if "map_of (assignments p) v = Some k" "bounded_size g v run = Some n" for v k n
    using s that bounded_size_mono [OF assms(4), of g v] unfolding plan_sound_def by (metis option.inject)
  then have "check_owners p (\<lambda>v. bounded_size g v run) vs [] = Inr by'" if "check_owners p (\<lambda>v. bounded_size g v bounds) vs [] = Inr by'" for vs by'
    using check_owners_cong [OF _ that, of "\<lambda>v. bounded_size g v run"] by blast
  then have "validate_with ho' p g m (\<lambda>v. bounded_size g v run) live = Some (Inr ())"
    using v by (auto simp: validate_with_def split: sum.splits)
  then show ?thesis using live assms(5) by (simp add: validate_plan_def peak_activation_bytes_at_bounds_def)
qed

section \<open>A witness, and why the plan has to be kept\<close>

text \<open>
  Four values in a row, the second of symbolic size. At the bound 10 the last value takes the slot of
  the second over; planned again at the actual size 1, it needs a slot of its own, so the peak at the
  bound is no ceiling for plans made below it.
\<close>

definition row_values :: "unit Graph option" where
  "row_values =
     (let (g1, w) = create_value graph_new Uint8 [Static 1];
          (g2, x) = create_value g1 Uint8 [Symbolic 0];
          (g3, y) = create_value g2 Uint8 [Static 1];
          (g4, z) = create_value g3 Uint8 [Static 10] in
      do { g5 \<leftarrow> add_input g4 w; add_output g5 z })"

definition row :: "unit Graph option" where
  "row = do { g \<leftarrow> row_values; (g1, _) \<leftarrow> insert_node g (relu 0 1); (g2, _) \<leftarrow> insert_node g1 (relu 1 2);
              (g3, _) \<leftarrow> insert_node g2 (relu 2 3); Some g3 }"

lemma replanning_may_exceed_the_reservation:
  "map_option (\<lambda>g. (peak_activation_bytes_at_bounds id g [] [(0, 10)] False, peak_activation_bytes_at_bounds id g [] [(0, 1)] False)) row =
     Some (Some (Inr (Some 11)), Some (Inr (Some 12)))"
  by code_simp

lemma row_reachable: "\<exists>g. row = Some g \<and> graph_reachable g"
proof -
  obtain g1 w where 1: "create_value (graph_new :: unit Graph) Uint8 [Static 1] = (g1, w)" by force
  obtain g2 x where 2: "create_value g1 Uint8 [Symbolic 0] = (g2, x)" by force
  obtain g3 y where 3: "create_value g2 Uint8 [Static 1] = (g3, y)" by force
  obtain g4 z where 4: "create_value g3 Uint8 [Static 10] = (g4, z)" by force
  note r4 = graph_reachable.fresh [OF graph_reachable.fresh [OF graph_reachable.fresh [OF graph_reachable.fresh [OF graph_reachable.new 1] 2] 3] 4]
  have "case row_values of None \<Rightarrow> False | Some g \<Rightarrow> wirable g (relu 0 1) None \<and>
    (case insert_node g (relu 0 1) of None \<Rightarrow> False | Some (g1, _) \<Rightarrow> wirable g1 (relu 1 2) None \<and>
    (case insert_node g1 (relu 1 2) of None \<Rightarrow> False | Some (g2, _) \<Rightarrow> wirable g2 (relu 2 3) None \<and> insert_node g2 (relu 2 3) \<noteq> None))" by code_simp
  then obtain g h1 n1 h2 n2 h3 n3 where c: "row_values = Some g" "wirable g (relu 0 1) None" "insert_node g (relu 0 1) = Some (h1, n1)"
    "wirable h1 (relu 1 2) None" "insert_node h1 (relu 1 2) = Some (h2, n2)" "wirable h2 (relu 2 3) None" "insert_node h2 (relu 2 3) = Some (h3, n3)"
    by (auto split: option.splits)
  obtain g5 where g5: "add_input g4 w = Some g5" "add_output g5 z = Some g" using c(1) by (auto simp: row_values_def 1 2 3 4 bind_eq_Some_conv simp del: One_nat_def)
  have "graph_reachable g" by (rule graph_reachable.add_out [OF graph_reachable.add_in [OF r4 g5(1)] g5(2)])
  then have "graph_reachable h3"
    by (rule graph_reachable.ins_node [OF graph_reachable.ins_node [OF graph_reachable.ins_node [OF _ c(2,3)] c(4,5)] c(6,7)])
  moreover have "row = Some h3" unfolding row_def c(1) by (simp add: c(3,5,7) del: One_nat_def)
  ultimately show ?thesis by blast
qed

theorem plan_at_bounds_serves_every_run_witness:
  "\<exists>g p. row = Some g \<and> peak_activation_bytes_at_bounds id g [] [(0, 10)] False = Some (Inr (Some (peak_bytes p))) \<and> peak_bytes p = 11 \<and>
    validate_plan id p g [] (\<lambda>v. bounded_size g v [(0, 1)]) False = Some (Inr ())"
proof -
  obtain g where g: "row = Some g" "graph_reachable g" using row_reachable by blast
  have "map_option (\<lambda>g. map_option (map_sum id (map_option peak_bytes \<circ> as_complete)) (plan_activations id g [] (\<lambda>v. bounded_size g v [(0, 10)]) False)) row =
    Some (Some (Inr (Some 11)))" by code_simp
  then have e: "map_option (map_sum id (map_option peak_bytes \<circ> as_complete)) (plan_activations id g [] (\<lambda>v. bounded_size g v [(0, 10)]) False) = Some (Inr (Some 11))"
    unfolding g(1) by simp
  obtain r where r: "plan_activations id g [] (\<lambda>v. bounded_size g v [(0, 10)]) False = Some r" "map_sum id (map_option peak_bytes \<circ> as_complete) r = Inr (Some 11)"
    using e by auto
  obtain st where st: "r = Inr st" "map_option peak_bytes (as_complete st) = Some 11" using r(2) by (cases r) auto
  obtain p where p: "st = Complete p" "peak_bytes p = 11" using st(2) by (cases st) (auto simp: as_complete_def)
  have pl: "plan_activations id g [] (\<lambda>v. bounded_size g v [(0, 10)]) False = Some (Inr (Complete p))" using r(1) st(1) p(1) by simp
  have "hash_order id" "within_bounds [(0, 1)] [(0, 10)]" by (auto simp: hash_order_def within_bounds_def split: if_splits)
  from plan_at_bounds_serves_every_run [OF g(2) this(1,1,2) pl] g(1) p(2) show ?thesis by blast
qed

end
