(* ===== verification/Spec2Isabelle.thy ===== *)
theory Spec2Isabelle
  imports LeaseBooks CacheRead PagedIndex PrefixCache Sessions BatchAdmission PressureConformance HostLease PlanBounds
begin

text \<open>
  This development verifies the memory core of the onnx-genai inference runtime: who may
  hold how many bytes on which memory tier, how the key/value cache of a language model is
  kept in fixed-size pages that sequences share, copy, rewind and evict, how requests are
  admitted, scheduled and arbitrated over those bytes, and how the graph of a model is kept
  consistent and its activations are packed into reusable buffers.

  \<^bold>\<open>The program's parts.\<close> The memory governor (\<open>onnx-runtime-memory-governor\<close>, with the
  types of \<open>onnx-runtime-memory-api\<close>) keeps one ledger of byte counters per tier; a holder
  reserves a lease before it allocates. The KV crate (\<open>onnx-genai-kv\<close>) takes such a lease
  for its page pool. Its page table owns the pages, their reference counts, free lists,
  residency and the page list of every sequence; the paged cache on top of it implements
  token writes with copy-on-write, forks, rewinds, sliding windows and tiering; the prefix
  cache is a trie of token prefixes that shares pages through the same reference counts;
  the paged index emits the block tables and slot mappings a paged-attention kernel reads.
  The scheduler crate (\<open>onnx-genai-scheduler\<close>) batches requests continuously under a policy
  and a byte budget several sessions share; the resource governor derives that budget from
  measured capacities and configured limits; batch admission groups compatible requests; the
  host governor arbitrates machine-wide host memory through tickets, with a mailbox for
  cancellations and a trace of protocol events; the lease adapter lets lease holders charge it.
  The trace crate (\<open>onnx-runtime-protocol-trace\<close>) holds the event types and replay checkers.
  The graph of a model (\<open>onnx-runtime-ir\<close>) is two slot arenas of nodes and values with producer
  and consumer links; the activation planner (\<open>onnx-runtime-memory\<close>) sorts it, computes the
  lifetime of every buffer and assigns buffers with disjoint lifetimes to one slot.

  \<^bold>\<open>Theories and sources.\<close>
  \<^item> \<open>Prelude\<close>: results as sums, saturating and checked u64 arithmetic, sums over lists,
    lists updated by index.
  \<^item> \<open>MemoryLedger\<close>: the ledger, leases, sibling leases, mapped-growth tokens and allowances
    (\<open>onnx-runtime-memory-governor/src/lib.rs\<close>, \<open>onnx-runtime-memory-api/src/lib.rs\<close>).
  \<^item> \<open>LeaseBooks\<close>: the ledger together with everything that was handed out, as a step
    relation over the API calls, and its conservation and admission properties.
  \<^item> \<open>KvTypes\<close>, \<open>PageStore\<close>: data types and quantisation policy; the storage of one page,
    reading and writing a token row, migration (\<open>onnx-genai-kv/src/page_table.rs\<close>).
  \<^item> \<open>PageTable\<close>, \<open>PageTableInv\<close>: the page table's operations, their invariant \<open>pt_inv\<close>
    (reference counts are the sequence slots plus external holders; the free lists hold
    exactly the unreferenced pages), allocation, eviction and rollback.
  \<^item> \<open>PagedCache\<close>, \<open>PagedCacheInv\<close>, \<open>CacheIsolation\<close>, \<open>CacheOps\<close>, \<open>CacheWindow\<close>,
    \<open>CacheReach\<close>, \<open>CacheRead\<close>: the cache's operations (\<open>onnx-genai-kv/src/paged_cache.rs\<close>) and
    what each does to the tokens every sequence reads; the reachable caches; materialisation.
  \<^item> \<open>PagedIndex\<close>: the index plan of \<open>onnx-genai-kv/src/paged_index.rs\<close>.
  \<^item> \<open>PrefixCache\<close>: the trie of \<open>onnx-genai-kv/src/prefix_cache.rs\<close>.
  \<^item> \<open>FairShare\<close>: the deficit round robin of \<open>onnx-genai-scheduler/src/policy.rs\<close>.
  \<^item> \<open>ByteAccount\<close>, \<open>AdmissionBudget\<close>: what schedulers need of a byte account, as a locale, and the
    shared budget of \<open>byte_budget.rs\<close> that provides it.
  \<^item> \<open>Scheduler\<close>, \<open>SchedulerInv\<close>, \<open>SchedulerRun\<close>, \<open>Sessions\<close>: requests, admission, preemption,
    swapping and completion (\<open>onnx-genai-scheduler/src/lib.rs\<close>), the loops of one iteration, and
    any number of sessions interleaving on one budget.
  \<^item> \<open>BatchAdmission\<close>: \<open>batch_admission.rs\<close>. \<open>ResourceGovernor\<close>: \<open>governor.rs\<close>.
  \<^item> \<open>ProtocolTrace\<close>: events, envelopes, collector and checkers of \<open>onnx-runtime-protocol-trace\<close>.
  \<^item> \<open>HostPressure\<close>: the host governor and its tickets (\<open>pressure.rs\<close>); \<open>HostPressureInv\<close>: its ledger,
    step by step; \<open>HostPressureOps\<close>, \<open>HostPressureRuns\<close>: arbitration, and every operation as a run of
    steps; \<open>HostTickets\<close>: the governor with all its clients as a step relation.
  \<^item> \<open>PressureConformance\<close>: the independent reducer of \<open>tests/pressure_conformance.rs\<close> and the
    simulation between the governor and it. \<open>HostLease\<close>: the adapter of \<open>host_lease.rs\<close>.
  \<^item> \<open>IrArena\<close>, \<open>IrGraph\<close>: the arena, element types, values, nodes and every operation of the graph
    (\<open>onnx-runtime-ir/src/arena.rs\<close>, \<open>dtype.rs\<close>, \<open>shape.rs\<close>, \<open>value.rs\<close>, \<open>node.rs\<close>, \<open>graph.rs\<close>);
    \<open>IrGraphInv\<close>, \<open>IrGraphOps\<close>: the links and that each operation keeps them; \<open>IrTopo\<close>: Kahn's
    algorithm; \<open>IrGraphReach\<close>: the graphs a client can build, and their validation.
  \<^item> \<open>ActivationPlan\<close>: the planner and the validation of plans (\<open>onnx-runtime-memory/src\<close>);
    \<open>PlanInv\<close>: lifetimes, best fit and the invariant of the walk; \<open>PlanSafety\<close>: the plan as a whole;
    \<open>PlanBounds\<close>: reservations at the bounds of symbolic dimensions.

  \<^bold>\<open>How the model corresponds to the code.\<close> Structs are records, enums are datatypes with
  the source's constructors. A method with \<open>&mut self\<close> is a function from the old state to
  the new state and a result; a result is a sum with the error on the left, and a Rust panic
  (an index out of range, a division by zero) is the error \<open>RustPanic\<close>, or in the graph and the
  planner the option \<^const>\<open>None\<close>, so that its absence is part of what is proved. Byte counters are naturals with the u64 checks and saturations
  of the source written out. Hash maps whose iteration order the code never observes are
  maps; where the code iterates, they are association lists, and in the planner the iteration order is
  an arbitrary permutation. Floating point numbers are a
  type parameter with the operations the code applies to them (\<open>f32_ops\<close>), so the theorems
  hold for every arithmetic; page stores other than the host store are parameters.

  \<^bold>\<open>What is shown.\<close> C1 and C2: bytes charged to a tier are exactly what leases hold, and
  admission never oversubscribes a tier. C3 and C20: the planner's output keeps buffers with
  overlapping lifetimes apart, covers what is alive and passes validation; a plan made at upper bounds
  serves every run below them. C4, C6 and C40: graphs built through the interface are well linked,
  validation and the topological sort decide exactly what they should, splicing a node redirects
  exactly the uses of a value. C5 and C7 to C10: page storage, pool leasing, eviction order, clean
  exclusive allocation and rollback. C11 to
  C16: a write touches no other token; rewinds, forks, windows and tiering keep exactly the
  tokens they promise; ownership of pages in every reachable cache. C17 to C19: the index
  plan addresses exactly the cache's tokens, without slot collisions or panics. C21 to C23:
  longest-prefix lookup, shared ownership and terminating eviction of the prefix cache. C24
  and C25: materialised buffers hold exactly the stored tokens. C26 and C27: fair-share selection
  starves no class and follows the weights. C28 to C33: the shared counter is exactly what running
  sequences hold, admission respects the ceiling, no request is lost, no admissible work is left,
  candidates are taken in policy order and get the largest ceiling that fits. C34: admitted groups
  are admissible and maximal. C35: the governor sizes the shared budget. C36 to C38: the host ledger
  accounts for every byte and wakeup under any interleaving, matured requests are not overtaken, and
  the emitted trace is accepted by the protocol's replay checker. C39: the lease adapter lends
  exactly what it is charged.

  \<^bold>\<open>Bounds.\<close> No definition uses fuel: loops are structural recursions over the lists the code
  iterates, and the open-ended ones have a termination proof: \<open>evict_lru\<close> of the prefix cache by the
  number of prefixes that hold pages, the scheduler's preemption and admission loops by the queues
  they shorten, the adapter's return loop by the allocations left, Kahn's loop by the degrees left, the
  backward walk of \<open>nodes_between\<close> and the folding of views by the keys not yet seen. Request, allocation and sequence
  counters that only count up are naturals, which is the code's behaviour below \<open>2^64\<close> events; the
  trace theorem states that bound. A live capacity or ceiling the code reads from the machine is an
  arbitrary sequence of answers; the f32 and f64 arithmetic of the governor's fractions is written
  out as rounding of exact rationals.

  \<^bold>\<open>Not modelled.\<close> Locks and atomics (each method runs under one mutex in the source and is
  one step here; where the code gives up a lock within an operation, the parts are separate steps),
  telemetry counters that nothing reads, the governor's broker queue, device
  page stores, mutation of graph nodes and values through the raw \<open>node_mut\<close> and \<open>value_mut\<close>
  references (the reachable graphs are those of the checked interface), and the crates that drive foreign libraries, kernels or I/O.
\<close>

end
